(* ===== verification/Rust_Prelude.thy ===== *)
theory Rust_Prelude
  imports Main "HOL-Library.Word" "HOL-Library.Monad_Syntax"
begin

text \<open>
  Shared vocabulary of the development.  A Rust \<open>usize\<close> (and the address types \<open>Paddr\<close>,
  \<open>Vaddr\<close>, which are aliases of it) is a natural number below \<open>2 ^ 64\<close>; arithmetic that Rust
  checks for overflow is written with the operations below.  A computation that may panic returns an
  \<open>option\<close>: \<open>None\<close> is the panic (an overflow, a failed \<open>assert!\<close>, an \<open>unwrap\<close> of \<open>None\<close>, an index
  out of bounds).  A Rust \<open>Option\<close> or \<open>Result\<close> that is returned as a value is a value inside that
  outer option.  Code that works on the bits of a machine word uses \<open>'w word\<close> instead.
\<close>

type_synonym usize = nat
type_synonym Paddr = nat
type_synonym Vaddr = nat

section \<open>Collections\<close>

text \<open>\<open>checked\<close>: when a checked operation returns, and what.  \<open>rust_defs\<close>: the small definitions of the
  language primitives, unfolded by the component proofs.\<close>

named_theorems checked
named_theorems rust_defs

section \<open>Panics and checked arithmetic\<close>

definition USIZE_MAX :: nat where
  "USIZE_MAX = 18446744073709551615"

definition rassert :: "bool \<Rightarrow> unit option" where
  "rassert b = (if b then Some () else None)"

definition uadd :: "usize \<Rightarrow> usize \<Rightarrow> usize option" where
  "uadd a b = (if a + b \<le> USIZE_MAX then Some (a + b) else None)"

definition usub :: "usize \<Rightarrow> usize \<Rightarrow> usize option" where
  "usub a b = (if b \<le> a then Some (a - b) else None)"

definition umul :: "usize \<Rightarrow> usize \<Rightarrow> usize option" where
  "umul a b = (if a * b \<le> USIZE_MAX then Some (a * b) else None)"

definition rindex :: "'a list \<Rightarrow> usize \<Rightarrow> 'a option" where
  "rindex xs i = (if i < length xs then Some (xs ! i) else None)"

definition rset :: "'a list \<Rightarrow> usize \<Rightarrow> 'a \<Rightarrow> 'a list option" where
  "rset xs i v = (if i < length xs then Some (xs[i := v]) else None)"

definition div_ceil :: "usize \<Rightarrow> usize \<Rightarrow> usize option" where
  "div_ceil a b = (if b = 0 then None else Some (if a mod b = 0 then a div b else a div b + 1))"

text \<open>A shift by the width or more panics; a left shift drops the bits above the width.\<close>

definition ushl :: "usize \<Rightarrow> nat \<Rightarrow> usize option" where
  "ushl x n = (if n < 64 then Some (x * 2 ^ n mod 2 ^ 64) else None)"

definition ushr :: "usize \<Rightarrow> nat \<Rightarrow> usize option" where
  "ushr x n = (if n < 64 then Some (x div 2 ^ n) else None)"

fun nat_log2 :: "nat \<Rightarrow> nat" where
  "nat_log2 n = (if n < 2 then 0 else Suc (nat_log2 (n div 2)))"

declare nat_log2.simps [simp del]

definition uilog2 :: "usize \<Rightarrow> nat option" where
  "uilog2 n = (if n = 0 then None else Some (nat_log2 n))"

lemma nat_log2_exp [simp]: "nat_log2 (2 ^ k) = k"
proof (induction k)
  case (Suc k)
  have "\<not> (2::nat) ^ Suc k < 2" by simp
  then show ?case using Suc by (subst nat_log2.simps) simp
qed (simp add: nat_log2.simps)

lemma uilog2_exp [simp]: "uilog2 (2 ^ k) = Some k"
  by (simp add: uilog2_def)

lemma rassert_eq_Some [checked, simp]: "rassert b = Some u \<longleftrightarrow> b"
  by (simp add: rassert_def)

lemma rassert_eq_None [simp]: "rassert b = None \<longleftrightarrow> \<not> b"
  by (simp add: rassert_def)

lemma rassert_simps [simp]: "rassert True = Some ()" "rassert False = None"
  by (simp_all add: rassert_def)

lemma uadd_eq_Some [checked]: "uadd a b = Some c \<longleftrightarrow> a + b \<le> USIZE_MAX \<and> c = a + b"
  by (auto simp: uadd_def)

lemma usub_eq_Some [checked]: "usub a b = Some c \<longleftrightarrow> b \<le> a \<and> c = a - b"
  by (auto simp: usub_def)

lemma umul_eq_Some [checked]: "umul a b = Some c \<longleftrightarrow> a * b \<le> USIZE_MAX \<and> c = a * b"
  by (auto simp: umul_def)

lemma rindex_eq_Some [checked]: "rindex xs i = Some v \<longleftrightarrow> i < length xs \<and> v = xs ! i"
  by (auto simp: rindex_def)

lemma rset_eq_Some [checked]: "rset xs i v = Some ys \<longleftrightarrow> i < length xs \<and> ys = xs[i := v]"
  by (auto simp: rset_def)

lemma div_ceil_eq: "b > 0 \<Longrightarrow> div_ceil a b = Some ((a + b - 1) div b)"
proof -
  assume b: "b > 0"
  define q r where "q = a div b" and "r = a mod b"
  have a: "a = r + q * b" and r: "r < b"
    using b by (simp_all add: q_def r_def)
  show ?thesis
  proof (cases "r = 0")
    case True
    then have "(a + b - 1) div b = q" using b a
      by (intro div_nat_eqI) (auto simp: algebra_simps)
    then show ?thesis using True b by (simp add: div_ceil_def q_def r_def)
  next
    case False
    then have "(a + b - 1) div b = q + 1" using b a r
      by (intro div_nat_eqI) (auto simp: algebra_simps)
    then show ?thesis using False b by (simp add: div_ceil_def q_def r_def)
  qed
qed

section \<open>Lists\<close>

text \<open>The index of the first element that satisfies a predicate, as Rust's \<open>iter().position\<close>.\<close>

primrec position :: "('a \<Rightarrow> bool) \<Rightarrow> 'a list \<Rightarrow> nat option" where
  "position P [] = None"
| "position P (x # xs) = (if P x then Some 0 else map_option Suc (position P xs))"

lemma position_None [simp]: "position P xs = None \<longleftrightarrow> (\<forall>x \<in> set xs. \<not> P x)"
  by (induction xs) auto

lemma position_Some:
  "position P xs = Some i \<longleftrightarrow> i < length xs \<and> P (xs ! i) \<and> (\<forall>j < i. \<not> P (xs ! j))"
proof (induction xs arbitrary: i)
  case (Cons x xs)
  show ?case
  proof (cases i)
    case 0
    then show ?thesis by (cases "position P xs") auto
  next
    case (Suc k)
    have "(\<forall>j < Suc k. \<not> P ((x # xs) ! j)) \<longleftrightarrow> \<not> P x \<and> (\<forall>j < k. \<not> P (xs ! j))"
      by (auto simp: less_Suc_eq_0_disj)
    then show ?thesis using Suc Cons.IH [of k] by auto
  qed
qed simp

section \<open>Machine words\<close>

unbundle bit_operations_syntax

definition checked_add :: "'w::len word \<Rightarrow> 'w word \<Rightarrow> 'w word option" where
  "checked_add x y = (if unat x + unat y < 2 ^ LENGTH('w) then Some (x + y) else None)"

definition count_ones :: "'w::len word \<Rightarrow> nat" where
  "count_ones x = length (filter (bit x) [0..<LENGTH('w)])"

definition is_power_of_two :: "'w::len word \<Rightarrow> bool" where
  "is_power_of_two x \<longleftrightarrow> count_ones x = 1"

lemma count_ones_card: "count_ones (x :: 'w::len word) = card {i. i < LENGTH('w) \<and> bit x i}"
  by (auto simp: count_ones_def length_filter_conv_card intro!: arg_cong [where f = card])

lemma unat_exp: "k < LENGTH('w) \<Longrightarrow> unat (2 ^ k :: 'w::len word) = 2 ^ k"
  by (rule bit_eqI) (auto simp: bit_simps)

lemma unat_pred: "a \<noteq> 0 \<Longrightarrow> unat (a - 1 :: 'w::len word) = unat a - 1"
  by (metis unat_1 unat_sub word_less_1 word_not_simps(1) not_less word_le_less_eq word_coorder.not_eq_extremum)

lemma is_power_of_two_exp:
  "is_power_of_two (x :: 'w::len word) \<longleftrightarrow> (\<exists>k < LENGTH('w). x = 2 ^ k)"
proof
  assume "is_power_of_two x"
  then have "card {i. i < LENGTH('w) \<and> bit x i} = 1"
    by (simp add: is_power_of_two_def count_ones_card)
  then obtain k where k: "{i. i < LENGTH('w) \<and> bit x i} = {k}"
    by (auto simp: card_1_singleton_iff)
  have "x = 2 ^ k"
  proof (rule bit_word_eqI)
    fix n assume n: "n < LENGTH('w)"
    have "bit x n \<longleftrightarrow> n = k" using k n by auto
    then show "bit x n \<longleftrightarrow> bit (2 ^ k :: 'w word) n"
      using n by (auto simp: bit_exp_iff)
  qed
  moreover have "k < LENGTH('w)" using k by auto
  ultimately show "\<exists>k < LENGTH('w). x = 2 ^ k" by blast
next
  assume "\<exists>k < LENGTH('w). x = 2 ^ k"
  then obtain k where k: "k < LENGTH('w)" "x = 2 ^ k" by blast
  then have "{i. i < LENGTH('w) \<and> bit x i} = {k}" by (auto simp: bit_exp_iff)
  then show "is_power_of_two x"
    by (simp add: is_power_of_two_def count_ones_card)
qed

lemma unat_and_not_mask:
  "unat (x AND NOT (mask k) :: 'w::len word) = unat x div 2 ^ k * 2 ^ k"
proof -
  have "unat (x AND NOT (mask k) :: 'w::len word) = push_bit k (drop_bit k (unat x))"
  proof (rule bit_eqI)
    fix n
    show "bit (unat (x AND NOT (mask k) :: 'w word)) n \<longleftrightarrow> bit (push_bit k (drop_bit k (unat x))) n"
      by (auto simp: bit_simps not_less dest: bit_imp_le_length)
  qed
  then show ?thesis by (simp add: push_bit_eq_mult drop_bit_eq_div)
qed

lemma unat_and_mask: "unat (x AND mask k :: 'w::len word) = unat x mod 2 ^ k"
proof -
  have "unat (x AND mask k :: 'w::len word) = take_bit k (unat x)"
    by (rule bit_eqI) (auto simp: bit_simps dest: bit_imp_le_length)
  then show ?thesis by (simp add: take_bit_eq_mod)
qed

lemma bit_unat [simp]: "bit (unat (x :: 'w::len word)) n \<longleftrightarrow> bit x n"
  by (auto simp: bit_simps dest: bit_imp_le_length)

end
