(* ===== verification/Align_Ext.thy ===== *)
theory Align_Ext
  imports Rust_Prelude
begin

text \<open>
  \<open>ostd/libs/align_ext/src/lib.rs\<close>: the \<open>AlignExt\<close> trait that the macro \<open>impl_align_ext!\<close> implements for
  \<open>u8\<close>, \<open>u16\<close>, \<open>u32\<close>, \<open>u64\<close> and \<open>usize\<close>.  The two methods are modelled at every width at once, on
  \<open>'w word\<close>; \<open>usize_align_up\<close> and \<open>usize_align_down\<close> are their \<open>usize\<close> instances on the naturals the other
  components compute with.
\<close>

section \<open>The methods\<close>

definition align_up :: "'w::len word \<Rightarrow> 'w word \<Rightarrow> 'w word option" where
  "align_up self align = do {
     rassert (is_power_of_two align \<and> align \<ge> 2);
     s \<leftarrow> checked_add self (align - 1);
     Some (s AND NOT (align - 1))
   }"

definition align_down :: "'w::len word \<Rightarrow> 'w word \<Rightarrow> 'w word option" where
  "align_down self align = do {
     rassert (is_power_of_two align \<and> align \<ge> 2);
     Some (self AND NOT (align - 1))
   }"

definition usize_align_up :: "usize \<Rightarrow> usize \<Rightarrow> usize option" where
  "usize_align_up self align = (if self \<le> USIZE_MAX \<and> align \<le> USIZE_MAX
     then map_option unat (align_up (of_nat self :: 64 word) (of_nat align)) else None)"

definition usize_align_down :: "usize \<Rightarrow> usize \<Rightarrow> usize option" where
  "usize_align_down self align = (if self \<le> USIZE_MAX \<and> align \<le> USIZE_MAX
     then map_option unat (align_down (of_nat self :: 64 word) (of_nat align)) else None)"

section \<open>Behaviour\<close>

text \<open>The arithmetic reference: rounding to a multiple.\<close>

definition nat_align_down :: "nat \<Rightarrow> nat \<Rightarrow> nat" where
  "nat_align_down x a = x div a * a"

definition nat_align_up :: "nat \<Rightarrow> nat \<Rightarrow> nat" where
  "nat_align_up x a = (x + (a - 1)) div a * a"

lemma nat_align_down_dvd [simp]: "a dvd nat_align_down x a"
  by (simp add: nat_align_down_def)

lemma nat_align_up_dvd [simp]: "a dvd nat_align_up x a"
  by (simp add: nat_align_up_def)

lemma nat_align_down_le: "nat_align_down x a \<le> x"
  by (simp add: nat_align_down_def)

lemma nat_align_down_greatest: "a dvd n \<Longrightarrow> n \<le> x \<Longrightarrow> n \<le> nat_align_down x a"
  by (metis div_le_mono dvd_div_mult_self mult_le_mono1 nat_align_down_def)

lemma nat_align_up_ge: "a > 0 \<Longrightarrow> x \<le> nat_align_up x a"
proof -
  assume "a > 0"
  then have "(x + (a - 1)) mod a \<le> a - 1"
    by (metis Suc_pred' less_Suc_eq_le mod_less_divisor)
  moreover have "(x + (a - 1)) div a * a + (x + (a - 1)) mod a = x + (a - 1)" by simp
  ultimately show ?thesis unfolding nat_align_up_def by linarith
qed

lemma nat_align_up_least: "a > 0 \<Longrightarrow> a dvd n \<Longrightarrow> x \<le> n \<Longrightarrow> nat_align_up x a \<le> n"
proof -
  assume a: "a > 0" "a dvd n" "x \<le> n"
  then obtain k where k: "n = k * a" by (metis dvd_def mult.commute)
  have "x + (a - 1) < (k + 1) * a" using a k by simp
  then have "(x + (a - 1)) div a < k + 1" using a(1) by (metis div_less_iff_less_mult)
  then have "(x + (a - 1)) div a \<le> k" by simp
  then show ?thesis unfolding nat_align_up_def k by (rule mult_le_mono1)
qed

lemma nat_align_up_lt: "a > 0 \<Longrightarrow> nat_align_up x a < x + a"
proof -
  assume "a > 0"
  then have "nat_align_up x a \<le> x + (a - 1)" by (simp add: nat_align_up_def)
  then show ?thesis using \<open>a > 0\<close> by linarith
qed

lemma align_mask:
  assumes "is_power_of_two (a :: 'w::len word)"
  obtains k where "a - 1 = mask k" "unat a = 2 ^ k"
  using assms by (metis is_power_of_two_exp mask_eq_decr_exp unat_exp)

lemma align_down_Some:
  "align_down x a = Some y \<longleftrightarrow>
     is_power_of_two a \<and> a \<ge> 2 \<and> unat y = nat_align_down (unat x) (unat a)"
proof (cases "is_power_of_two a")
  case True
  then obtain k where k: "a - 1 = mask k" "unat a = 2 ^ k" by (rule align_mask)
  have "unat (x AND NOT (a - 1)) = nat_align_down (unat x) (unat a)"
    by (simp only: k unat_and_not_mask nat_align_down_def)
  then show ?thesis using True
    by (auto simp: align_down_def bind_eq_Some_conv word_unat_eq_iff)
qed (simp add: align_down_def)

lemma align_up_Some:
  fixes x a y :: "'w::len word"
  shows "align_up x a = Some y \<longleftrightarrow>
     is_power_of_two a \<and> a \<ge> 2 \<and> unat x + (unat a - 1) < 2 ^ LENGTH('w) \<and>
     unat y = nat_align_up (unat x) (unat a)"
proof (cases "is_power_of_two a \<and> a \<ge> 2")
  case True
  then obtain k where k: "a - 1 = mask k" "unat a = 2 ^ k" by (metis align_mask)
  then have "a \<noteq> 0" by (metis power_not_zero unat_0 zero_neq_numeral)
  then have a1: "unat (a - 1) = unat a - 1" by (rule unat_pred)
  have "unat ((x + (a - 1)) AND NOT (a - 1)) = nat_align_up (unat x) (unat a)"
    if "unat x + (unat a - 1) < 2 ^ LENGTH('w)"
  proof -
    have "unat (x + (a - 1)) = unat x + (unat a - 1)"
      using that a1 by (metis unat_add_lem)
    then show ?thesis by (simp only: k unat_and_not_mask nat_align_up_def)
  qed
  then show ?thesis using True a1
    by (simp add: align_up_def checked_add_def) (metis word_unat_eq_iff)
qed (auto simp: align_up_def)

lemma unat_of_usize [simp]: "x \<le> USIZE_MAX \<Longrightarrow> unat (of_nat x :: 64 word) = x"
  by (simp add: USIZE_MAX_def unat_of_nat take_bit_eq_mod)

lemma usize_power_of_two:
  assumes "0 < k" "k < 64"
  shows "(2::nat) ^ k \<le> USIZE_MAX" "is_power_of_two (of_nat (2 ^ k) :: 64 word)"
    "(of_nat (2 ^ k) :: 64 word) \<ge> 2"
proof -
  have "(2::nat) ^ k \<le> 2 ^ 63" using assms by (intro power_increasing) auto
  then show le: "(2::nat) ^ k \<le> USIZE_MAX" by (simp add: USIZE_MAX_def)
  show "is_power_of_two (of_nat (2 ^ k) :: 64 word)"
    using assms by (auto simp: is_power_of_two_exp)
  have "(2::nat) ^ 1 \<le> 2 ^ k" using assms by (intro power_increasing) auto
  then show "(of_nat (2 ^ k) :: 64 word) \<ge> 2"
    using unat_of_usize [OF le] by (simp add: word_le_nat_alt)
qed

lemma usize_align_down_eq:
  assumes "x \<le> USIZE_MAX" "a = 2 ^ k" "0 < k" "k < 64"
  shows "usize_align_down x a = Some (nat_align_down x a)"
proof -
  note p = usize_power_of_two [OF assms(3,4), folded assms(2)]
  obtain y where y: "align_down (of_nat x :: 64 word) (of_nat a) = Some y"
    using p by (auto simp: align_down_def)
  then have "unat y = nat_align_down x a" using p assms(1) by (simp add: align_down_Some)
  then show ?thesis using y p(1) assms(1) by (simp add: usize_align_down_def)
qed

lemma usize_align_up_eq:
  assumes "x \<le> USIZE_MAX" "a = 2 ^ k" "0 < k" "k < 64"
  shows "usize_align_up x a = (if x + (a - 1) \<le> USIZE_MAX then Some (nat_align_up x a) else None)"
proof -
  note p = usize_power_of_two [OF assms(3,4), folded assms(2)]
  have lt: "x + (a - 1) < 2 ^ 64 \<longleftrightarrow> x + (a - 1) \<le> USIZE_MAX" by (auto simp: USIZE_MAX_def)
  show ?thesis
  proof (cases "align_up (of_nat x :: 64 word) (of_nat a)")
    case None
    have "\<not> x + (a - 1) < 2 ^ 64"
    proof
      assume "x + (a - 1) < 2 ^ 64"
      moreover have "nat_align_up x a \<le> x + (a - 1)" by (simp add: nat_align_up_def)
      ultimately have "align_up (of_nat x :: 64 word) (of_nat a) = Some (of_nat (nat_align_up x a))"
        using p assms(1) lt by (simp add: align_up_Some)
      with None show False by simp
    qed
    then show ?thesis using None lt by (simp add: usize_align_up_def)
  next
    case (Some y)
    then have "unat y = nat_align_up x a" "x + (a - 1) < 2 ^ 64"
      using p assms(1) by (simp_all add: align_up_Some)
    then show ?thesis using Some lt p(1) assms(1) by (simp add: usize_align_up_def)
  qed
qed

lemma usize_align_down_SomeD:
  "usize_align_down x a = Some y \<Longrightarrow> y = nat_align_down x a \<and> 2 \<le> a"
  by (auto simp: usize_align_down_def align_down_Some word_le_nat_alt split: if_splits)

section \<open>Properties\<close>

lemma word_ge_2_pos: "(a :: 'w::len word) \<ge> 2 \<Longrightarrow> is_power_of_two a \<Longrightarrow> unat a > 0"
  by (metis align_mask gr0I power_not_zero zero_neq_numeral)

lemma align_up_iff:
  fixes self align y :: "'w::len word"
  shows "align_up self align = Some y \<longleftrightarrow>
    (\<exists>k < LENGTH('w). align = 2 ^ k) \<and> align \<ge> 2 \<and> unat self + (unat align - 1) < 2 ^ LENGTH('w) \<and>
    unat y = (LEAST n. unat self \<le> n \<and> unat align dvd n)"
proof -
  have "nat_align_up (unat self) (unat align) = (LEAST n. unat self \<le> n \<and> unat align dvd n)"
    if "is_power_of_two align" "align \<ge> 2"
    using word_ge_2_pos [OF that(2,1)]
    by (intro Least_equality [symmetric]) (auto intro: nat_align_up_ge nat_align_up_least)
  then show ?thesis unfolding align_up_Some is_power_of_two_exp [symmetric] by metis
qed

lemma align_down_iff:
  fixes self align y :: "'w::len word"
  shows "align_down self align = Some y \<longleftrightarrow>
    (\<exists>k < LENGTH('w). align = 2 ^ k) \<and> align \<ge> 2 \<and>
    unat y = (GREATEST n. n \<le> unat self \<and> unat align dvd n)"
proof -
  have "nat_align_down (unat self) (unat align) = (GREATEST n. n \<le> unat self \<and> unat align dvd n)"
    by (intro Greatest_equality [symmetric]) (auto intro: nat_align_down_le nat_align_down_greatest)
  then show ?thesis unfolding align_down_Some is_power_of_two_exp [symmetric] by metis
qed

text \<open>Alignment at any word width.  \<open>align_up\<close> and \<open>align_down\<close> return exactly when the alignment is a power
  of two of at least 2 and, for \<open>align_up\<close>, \<open>self + (align - 1)\<close> does not overflow.  The results are the least
  multiple of the alignment that is not below \<open>self\<close>, and the greatest that is not above it.\<close>

lemma align_spec:
  fixes self align y :: "'w::len word"
  shows "(align_up self align = Some y \<longleftrightarrow>
      (\<exists>k < LENGTH('w). align = 2 ^ k) \<and> align \<ge> 2 \<and> unat self + (unat align - 1) < 2 ^ LENGTH('w) \<and>
      unat y = (LEAST n. unat self \<le> n \<and> unat align dvd n)) \<and>
    (align_down self align = Some y \<longleftrightarrow>
      (\<exists>k < LENGTH('w). align = 2 ^ k) \<and> align \<ge> 2 \<and>
      unat y = (GREATEST n. n \<le> unat self \<and> unat align dvd n))"
  using align_up_iff align_down_iff by blast

end
