(* ===== verification/Allocator_Spec.thy ===== *)
theory Allocator_Spec
  imports Rust_Prelude
begin

text \<open>
  The contract that the two allocators of the kernel share: \<open>IdAlloc\<close> hands out ranges of identifiers,
  \<open>RangeAllocator\<close> ranges of addresses.  A provider has an invariant, the set of units that are free,
  the set of units it manages at all, an allocation of \<open>n\<close> consecutive units and a release of a range.
  Both operations return (never panic) under the stated conditions.  The lemmas of the locale are what
  a client relies on: a run of allocations returns ranges that are pairwise disjoint and lie in what was
  free, and a release after an allocation restores the free set.
\<close>

definition units :: "nat \<times> nat \<Rightarrow> nat set" where
  "units r = {fst r..<snd r}"

locale range_allocator =
  fixes inv :: "'s \<Rightarrow> bool"
    and managed :: "'s \<Rightarrow> nat set"
    and free_units :: "'s \<Rightarrow> nat set"
    and alloc_n :: "'s \<Rightarrow> nat \<Rightarrow> ((nat \<times> nat) option \<times> 's) option"
    and release :: "'s \<Rightarrow> nat \<times> nat \<Rightarrow> 's option"
  assumes free_managed: "inv s \<Longrightarrow> free_units s \<subseteq> managed s"
    and alloc_returns: "inv s \<Longrightarrow> 0 < n \<Longrightarrow> n \<le> USIZE_MAX \<Longrightarrow>
        \<exists>r s'. alloc_n s n = Some (r, s') \<and> inv s' \<and> managed s' = managed s"
    and alloc_some: "inv s \<Longrightarrow> 0 < n \<Longrightarrow> n \<le> USIZE_MAX \<Longrightarrow> alloc_n s n = Some (Some (a, b), s') \<Longrightarrow>
        b = a + n \<and> {a..<b} \<subseteq> free_units s \<and> free_units s' = free_units s - {a..<b}"
    and alloc_none: "inv s \<Longrightarrow> 0 < n \<Longrightarrow> n \<le> USIZE_MAX \<Longrightarrow> alloc_n s n = Some (None, s') \<Longrightarrow>
        free_units s' = free_units s \<and> (\<forall>a. \<not> {a..<a + n} \<subseteq> free_units s)"
    and release_returns: "inv s \<Longrightarrow> a < b \<Longrightarrow> {a..<b} \<subseteq> managed s - free_units s \<Longrightarrow>
        \<exists>s'. release s (a, b) = Some s' \<and> inv s' \<and> managed s' = managed s \<and>
             free_units s' = free_units s \<union> {a..<b}"
begin

text \<open>A client that asks for a list of sizes, stopping at the first failure.\<close>

fun alloc_run :: "'s \<Rightarrow> nat list \<Rightarrow> ((nat \<times> nat) list \<times> 's) option" where
  "alloc_run s [] = Some ([], s)"
| "alloc_run s (n # ns) = (case alloc_n s n of
      None \<Rightarrow> None
    | Some (None, s') \<Rightarrow> Some ([], s')
    | Some (Some r, s') \<Rightarrow> map_option (map_prod (Cons r) id) (alloc_run s' ns))"

lemma alloc_cases:
  assumes "inv s" "0 < n" "n \<le> USIZE_MAX"
  obtains (got) a s' where "alloc_n s n = Some (Some (a, a + n), s')" "inv s'" "managed s' = managed s"
      "{a..<a + n} \<subseteq> free_units s" "free_units s' = free_units s - {a..<a + n}"
  | (full) s' where "alloc_n s n = Some (None, s')" "inv s'" "managed s' = managed s"
      "free_units s' = free_units s" "\<And>a. \<not> {a..<a + n} \<subseteq> free_units s"
proof -
  obtain r s' where r: "alloc_n s n = Some (r, s')" "inv s'" "managed s' = managed s"
    using alloc_returns [OF assms] by blast
  show thesis
  proof (cases r)
    case None
    then show thesis using r alloc_none [OF assms] full by blast
  next
    case (Some p)
    then obtain a b where p: "r = Some (a, b)" by (cases p) auto
    then show thesis using r alloc_some [OF assms, of a b s'] got by auto
  qed
qed

lemma alloc_run_ok:
  assumes "inv s" "\<forall>n \<in> set ns. 0 < n \<and> n \<le> USIZE_MAX"
  shows "\<exists>rs s'. alloc_run s ns = Some (rs, s') \<and> inv s' \<and> managed s' = managed s \<and>
      (\<Union>r \<in> set rs. units r) \<subseteq> free_units s \<and>
      free_units s' = free_units s - (\<Union>r \<in> set rs. units r) \<and>
      sorted_wrt (\<lambda>r q. units r \<inter> units q = {}) rs"
  using assms
proof (induction ns arbitrary: s)
  case Nil
  then show ?case by simp
next
  case (Cons n ns)
  then have n: "0 < n" "n \<le> USIZE_MAX" by auto
  show ?case
  proof (cases rule: alloc_cases [OF Cons.prems(1) n, case_names got full])
    case (got a s1)
    obtain rs s' where rs: "alloc_run s1 ns = Some (rs, s')" "inv s'" "managed s' = managed s1"
      "(\<Union>r \<in> set rs. units r) \<subseteq> free_units s1"
      "free_units s' = free_units s1 - (\<Union>r \<in> set rs. units r)"
      "sorted_wrt (\<lambda>r q. units r \<inter> units q = {}) rs"
      using Cons.IH [OF got(2)] Cons.prems(2) by auto
    have run: "alloc_run s (n # ns) = Some ((a, a + n) # rs, s')" using got(1) rs(1) by simp
    have u: "units (a, a + n) = {a..<a + n}" by (simp add: units_def)
    have "\<forall>q \<in> set rs. units (a, a + n) \<inter> units q = {}" using rs(4) got(5) u by blast
    then have dis: "sorted_wrt (\<lambda>r q. units r \<inter> units q = {}) ((a, a + n) # rs)" using rs(6) by simp
    have sub: "(\<Union>r \<in> set ((a, a + n) # rs). units r) \<subseteq> free_units s" using rs(4) got(4,5) u by auto
    have free: "free_units s' = free_units s - (\<Union>r \<in> set ((a, a + n) # rs). units r)"
      using rs(5) got(5) u by auto
    show ?thesis using run rs(2,3) got(3) dis sub free by metis
  next
    case (full s1)
    then show ?thesis by simp
  qed
qed

lemma alloc_release:
  assumes "inv s" "0 < n" "n \<le> USIZE_MAX" "alloc_n s n = Some (Some r, s')"
  shows "\<exists>s''. release s' r = Some s'' \<and> inv s'' \<and> managed s'' = managed s \<and>
     free_units s'' = free_units s"
proof (cases rule: alloc_cases [OF assms(1-3), case_names got full])
  case (got a t)
  then have t: "r = (a, a + n)" "s' = t" using assms(4) by auto
  have "{a..<a + n} \<subseteq> managed t - free_units t"
    using got free_managed [OF assms(1)] by auto
  then show ?thesis
    using release_returns [OF got(2), of a "a + n"] got t assms(2) by (auto simp: Un_absorb2)
next
  case (full t)
  then show ?thesis using assms(4) by simp
qed

end

end
