(* ===== verification/Id_Alloc.thy ===== *)
theory Id_Alloc
  imports Allocator_Spec
begin

text \<open>
  \<open>ostd/libs/id-alloc/src/lib.rs\<close>: the bitmap allocator \<open>IdAlloc\<close>.  The bitmap is a \<open>BitVec\<close> of the
  third-party crate \<open>bitvec\<close>, so its operations are a parameter of the model (the record
  \<open>bitvec_ops\<close>); the locale \<open>bitvec_model\<close> states what the code relies on, law for law the contracts
  that \<open>verified_libs/vstd_extra/src/external/bitvec.rs\<close> records for the crate.
\<close>

section \<open>The bitmap interface\<close>

record ('b, 's) bitvec_ops =
  bv_with_capacity :: "usize \<Rightarrow> 'b option"
  bv_resize :: "'b \<Rightarrow> usize \<Rightarrow> bool \<Rightarrow> 'b option"
  bv_len :: "'b \<Rightarrow> usize"
  bv_index :: "'b \<Rightarrow> usize \<Rightarrow> bool option"
  bv_set :: "'b \<Rightarrow> usize \<Rightarrow> bool \<Rightarrow> 'b option"
  bv_get :: "'b \<Rightarrow> usize \<times> usize \<Rightarrow> 's option"
  bs_first_zero :: "'s \<Rightarrow> usize option"

definition MAX_BITS :: nat where
  "MAX_BITS = USIZE_MAX div 8"

section \<open>The allocator\<close>

record 'b IdAlloc =
  bitset :: 'b
  first_available_id :: usize

definition with_capacity :: "('b, 's) bitvec_ops \<Rightarrow> usize \<Rightarrow> 'b IdAlloc option" where
  "with_capacity B capacity = do {
     bs \<leftarrow> bv_with_capacity B capacity;
     bs' \<leftarrow> bv_resize B bs capacity False;
     Some \<lparr>bitset = bs', first_available_id = 0\<rparr>
   }"

definition is_allocated :: "('b, 's) bitvec_ops \<Rightarrow> 'b IdAlloc \<Rightarrow> usize \<Rightarrow> bool option" where
  "is_allocated B self i = bv_index B (bitset self) i"

definition update_first_available_id ::
    "('b, 's) bitvec_ops \<Rightarrow> 'b IdAlloc \<Rightarrow> usize \<Rightarrow> 'b IdAlloc option" where
  "update_first_available_id B self start = (
     let len = bv_len B (bitset self) in do {
       bit_slice \<leftarrow> bv_get B (bitset self) (start, len);
       fa \<leftarrow> (case bs_first_zero B bit_slice of
                Some offset \<Rightarrow> uadd start offset
              | None \<Rightarrow> Some len);
       Some (self\<lparr>first_available_id := fa\<rparr>)
     })"

definition alloc :: "('b, 's) bitvec_ops \<Rightarrow> 'b IdAlloc \<Rightarrow> (usize option \<times> 'b IdAlloc) option" where
  "alloc B self = (
     if first_available_id self < bv_len B (bitset self) then do {
       let i = first_available_id self;
       bs \<leftarrow> bv_set B (bitset self) i True;
       nxt \<leftarrow> uadd i 1;
       self' \<leftarrow> update_first_available_id B (self\<lparr>bitset := bs\<rparr>) nxt;
       Some (Some i, self')
     } else Some (None, self))"

text \<open>The \<open>while\<close> loop of \<open>alloc_consecutive\<close>, on the two ends of \<open>curr_range\<close>.\<close>

function scan_consecutive ::
    "('b, 's) bitvec_ops \<Rightarrow> 'b IdAlloc \<Rightarrow> usize \<Rightarrow> usize \<times> usize \<Rightarrow> (usize \<times> usize) option" where
  "scan_consecutive B self count (cs, ce) = (
     if ce - cs < count \<and> ce < bv_len B (bitset self) then do {
       a \<leftarrow> is_allocated B self ce;
       nxt \<leftarrow> uadd ce 1;
       if \<not> a then scan_consecutive B self count (cs, nxt)
       else scan_consecutive B self count (nxt, nxt)
     } else Some (cs, ce))"
  by pat_completeness auto
termination
  by (relation "measure (\<lambda>(B, self, count, (cs, ce)). bv_len B (bitset self) - ce)")
     (auto simp: checked)

declare scan_consecutive.simps [simp del]

text \<open>The \<open>for id in range\<close> loops: setting every bit of a range, and clearing every bit of a range with
  the \<open>debug_assert!\<close> of \<open>free_consecutive\<close>.\<close>

fun set_each :: "('b, 's) bitvec_ops \<Rightarrow> 'b IdAlloc \<Rightarrow> usize list \<Rightarrow> 'b IdAlloc option" where
  "set_each B self [] = Some self"
| "set_each B self (i # is) = do {
     bs \<leftarrow> bv_set B (bitset self) i True;
     set_each B (self\<lparr>bitset := bs\<rparr>) is
   }"

fun clear_each :: "('b, 's) bitvec_ops \<Rightarrow> 'b IdAlloc \<Rightarrow> usize list \<Rightarrow> 'b IdAlloc option" where
  "clear_each B self [] = Some self"
| "clear_each B self (i # is) = do {
     a \<leftarrow> is_allocated B self i;
     rassert a;
     bs \<leftarrow> bv_set B (bitset self) i False;
     clear_each B (self\<lparr>bitset := bs\<rparr>) is
   }"

definition alloc_consecutive ::
    "('b, 's) bitvec_ops \<Rightarrow> 'b IdAlloc \<Rightarrow> usize \<Rightarrow> ((usize \<times> usize) option \<times> 'b IdAlloc) option" where
  "alloc_consecutive B self count = (
     if count = 0 then Some (None, self)
     else case uadd (first_available_id self) count of
       None \<Rightarrow> Some (None, self)
     | Some end \<Rightarrow>
         if end > bv_len B (bitset self) then Some (None, self)
         else do {
           e0 \<leftarrow> uadd (first_available_id self) 1;
           (cs, ce) \<leftarrow> scan_consecutive B self count (first_available_id self, e0);
           if ce - cs < count then Some (None, self)
           else do {
             self1 \<leftarrow> set_each B self [cs..<ce];
             a \<leftarrow> is_allocated B self1 (first_available_id self1);
             self2 \<leftarrow> (if a then update_first_available_id B self1 ce else Some self1);
             Some (Some (cs, ce), self2)
           }
         })"

definition free_consecutive ::
    "('b, 's) bitvec_ops \<Rightarrow> 'b IdAlloc \<Rightarrow> usize \<times> usize \<Rightarrow> 'b IdAlloc option" where
  "free_consecutive B self rng = (
     if \<not> fst rng < snd rng then Some self
     else do {
       let range_start = fst rng;
       self1 \<leftarrow> clear_each B self [fst rng..<snd rng];
       Some (if range_start < first_available_id self1
             then self1\<lparr>first_available_id := range_start\<rparr> else self1)
     })"

definition free :: "('b, 's) bitvec_ops \<Rightarrow> 'b IdAlloc \<Rightarrow> usize \<Rightarrow> 'b IdAlloc option" where
  "free B self i = do {
     a \<leftarrow> is_allocated B self i;
     rassert a;
     bs \<leftarrow> bv_set B (bitset self) i False;
     Some (if i < first_available_id self
           then self\<lparr>bitset := bs, first_available_id := i\<rparr> else self\<lparr>bitset := bs\<rparr>)
   }"

definition alloc_specific ::
    "('b, 's) bitvec_ops \<Rightarrow> 'b IdAlloc \<Rightarrow> usize \<Rightarrow> (usize option \<times> 'b IdAlloc) option" where
  "alloc_specific B self i = do {
     a \<leftarrow> bv_index B (bitset self) i;
     if a then Some (None, self)
     else do {
       bs \<leftarrow> bv_set B (bitset self) i True;
       let self1 = self\<lparr>bitset := bs\<rparr>;
       self2 \<leftarrow> (if i = first_available_id self1
                 then do { nxt \<leftarrow> uadd i 1; update_first_available_id B self1 nxt }
                 else Some self1);
       Some (Some i, self2)
     }
   }"

section \<open>Invariant and abstraction\<close>

text \<open>\<open>inv\<close> of the source: \<open>first_available_id\<close> is the first zero of the bitmap, or its length.  The
  abstract state is the set of identifiers that are not allocated.\<close>

definition first_zero_at :: "bool list \<Rightarrow> nat \<Rightarrow> bool" where
  "first_zero_at v f \<longleftrightarrow> f \<le> length v \<and> (\<forall>i < f. v ! i) \<and> (f < length v \<longrightarrow> \<not> v ! f)"

definition zeros :: "bool list \<Rightarrow> nat set" where
  "zeros v = {i. i < length v \<and> \<not> v ! i}"

locale bitvec_model =
  fixes B :: "('b, 's) bitvec_ops"
    and bitvec_view :: "'b \<Rightarrow> bool list"
    and bitslice_view :: "'s \<Rightarrow> bool list"
  assumes len_bound: "length (bitvec_view b) \<le> MAX_BITS"
    and with_capacity_view: "n \<le> MAX_BITS \<Longrightarrow>
      \<exists>b. bv_with_capacity B n = Some b \<and> bitvec_view b = []"
    and resize_view: "n \<le> MAX_BITS \<Longrightarrow>
      \<exists>b'. bv_resize B b n v = Some b' \<and>
        bitvec_view b' = take n (bitvec_view b) @ replicate (n - length (bitvec_view b)) v"
    and len_view: "bv_len B b = length (bitvec_view b)"
    and index_view: "bv_index B b i = rindex (bitvec_view b) i"
    and set_view: "map_option bitvec_view (bv_set B b i v) = rset (bitvec_view b) i v"
    and get_view: "map_option bitslice_view (bv_get B b (x, y)) =
      (if x \<le> y \<and> y \<le> length (bitvec_view b)
       then Some (drop x (take y (bitvec_view b))) else None)"
    and first_zero_view: "bs_first_zero B s = position Not (bitslice_view s)"

definition id_inv :: "('b \<Rightarrow> bool list) \<Rightarrow> 'b IdAlloc \<Rightarrow> bool" where
  "id_inv view s \<longleftrightarrow> first_zero_at (view (bitset s)) (first_available_id s)"

definition free_ids :: "('b \<Rightarrow> bool list) \<Rightarrow> 'b IdAlloc \<Rightarrow> nat set" where
  "free_ids view s = zeros (view (bitset s))"

definition all_ids :: "('b \<Rightarrow> bool list) \<Rightarrow> 'b IdAlloc \<Rightarrow> nat set" where
  "all_ids view s = {..<length (view (bitset s))}"

lemmas id_defs = id_inv_def free_ids_def all_ids_def zeros_def first_zero_at_def

lemma free_ids_managed: "free_ids view s \<subseteq> all_ids view s"
  by (auto simp: id_defs)

context bitvec_model
begin

abbreviation bits :: "'b IdAlloc \<Rightarrow> bool list" where
  "bits s \<equiv> bitvec_view (bitset s)"

lemma len_usize: "length (bitvec_view b) < USIZE_MAX"
  using len_bound [of b] by (simp add: MAX_BITS_def USIZE_MAX_def)

lemma set_ok:
  assumes "i < length (bitvec_view b)"
  obtains b' where "bv_set B b i v = Some b'" "bitvec_view b' = (bitvec_view b)[i := v]"
  using assms set_view [of b i v] by (auto simp: rset_def)

lemma set_None: "bv_set B b i v = None \<longleftrightarrow> \<not> i < length (bitvec_view b)"
  using set_view [of b i v] by (auto simp: rset_def split: if_splits)

lemma update_first_available_id_ok:
  assumes "start \<le> length (bits s)" "\<forall>i < start. bits s ! i"
  obtains fa where "update_first_available_id B s start = Some (s\<lparr>first_available_id := fa\<rparr>)"
    "first_zero_at (bits s) fa" "start \<le> fa"
proof -
  obtain sl where sl: "bv_get B (bitset s) (start, length (bits s)) = Some sl"
      "bitslice_view sl = drop start (bits s)"
    using get_view [of "bitset s" start "length (bits s)"] assms(1) by auto
  show thesis
  proof (cases "position Not (drop start (bits s))")
    case None
    have "bits s ! i" if "i < length (bits s)" for i
    proof (cases "i < start")
      case False
      then have "bits s ! i \<in> set (drop start (bits s))"
        using that by (auto simp: in_set_conv_nth intro!: exI [of _ "i - start"])
      then show ?thesis using None by auto
    qed (use assms in blast)
    then have "first_zero_at (bits s) (length (bits s))" by (simp add: first_zero_at_def)
    moreover have "update_first_available_id B s start =
        Some (s\<lparr>first_available_id := length (bits s)\<rparr>)"
      using None sl by (simp add: update_first_available_id_def len_view first_zero_view del: position_None)
    ultimately show thesis using assms(1) by (metis that)
  next
    case (Some off)
    then have off: "start + off < length (bits s)" "\<not> bits s ! (start + off)"
        "\<forall>j < off. bits s ! (start + j)"
      by (auto simp: position_Some)
    then have u: "uadd start off = Some (start + off)"
      using len_usize [of "bitset s"] by (simp add: uadd_def)
    have "bits s ! i" if "i < start + off" for i
    proof (cases "i < start")
      case False
      then show ?thesis using off(3) [rule_format, of "i - start"] that by simp
    qed (use assms in blast)
    then have "first_zero_at (bits s) (start + off)" using off by (simp add: first_zero_at_def)
    moreover have "update_first_available_id B s start = Some (s\<lparr>first_available_id := start + off\<rparr>)"
      using Some sl u by (simp add: update_first_available_id_def len_view first_zero_view)
    ultimately show thesis by (metis that le_add1)
  qed
qed

lemma set_each_ok:
  assumes "\<forall>i \<in> set is. i < length (bits s)"
  shows "\<exists>b. set_each B s is = Some (s\<lparr>bitset := b\<rparr>) \<and> length (bitvec_view b) = length (bits s) \<and>
    (\<forall>j < length (bits s). bitvec_view b ! j \<longleftrightarrow> j \<in> set is \<or> bits s ! j)"
  using assms
proof (induction "is" arbitrary: s)
  case Nil
  then show ?case by (intro exI [of _ "bitset s"]) simp
next
  case (Cons i "is")
  then have i: "i < length (bits s)" by simp
  obtain b1 where b1: "bv_set B (bitset s) i True = Some b1" "bitvec_view b1 = (bits s)[i := True]"
    using i by (rule set_ok)
  obtain b where b: "set_each B (s\<lparr>bitset := b1\<rparr>) is = Some (s\<lparr>bitset := b\<rparr>)"
      "length (bitvec_view b) = length (bits s)"
      "\<forall>j < length (bits s). bitvec_view b ! j \<longleftrightarrow> j \<in> set is \<or> (bits s)[i := True] ! j"
    using Cons.IH [of "s\<lparr>bitset := b1\<rparr>"] Cons.prems b1(2) by auto
  show ?case using b b1 i by (intro exI [of _ b]) (auto simp: nth_list_update)
qed

lemma clear_each_ok:
  assumes "\<forall>i \<in> set is. i < length (bits s) \<and> bits s ! i" "distinct is"
  shows "\<exists>b. clear_each B s is = Some (s\<lparr>bitset := b\<rparr>) \<and> length (bitvec_view b) = length (bits s) \<and>
    (\<forall>j < length (bits s). bitvec_view b ! j \<longleftrightarrow> j \<notin> set is \<and> bits s ! j)"
  using assms
proof (induction "is" arbitrary: s)
  case Nil
  then show ?case by (intro exI [of _ "bitset s"]) simp
next
  case (Cons i "is")
  then have i: "i < length (bits s)" "bits s ! i" "i \<notin> set is" by simp_all
  obtain b1 where b1: "bv_set B (bitset s) i False = Some b1" "bitvec_view b1 = (bits s)[i := False]"
    using i(1) by (rule set_ok)
  have "\<forall>j \<in> set is. j < length (bits s) \<and> (bits s)[i := False] ! j"
    using Cons.prems(1) i by (metis list.set_intros(2) nth_list_update_neq)
  then obtain b where b: "clear_each B (s\<lparr>bitset := b1\<rparr>) is = Some (s\<lparr>bitset := b\<rparr>)"
      "length (bitvec_view b) = length (bits s)"
      "\<forall>j < length (bits s). bitvec_view b ! j \<longleftrightarrow> j \<notin> set is \<and> (bits s)[i := False] ! j"
    using Cons.IH [of "s\<lparr>bitset := b1\<rparr>"] Cons.prems(2) b1(2) by auto
  have "is_allocated B s i = Some True"
    using i by (simp add: is_allocated_def index_view rindex_def)
  then show ?case using b b1 i by (intro exI [of _ b]) (auto simp: nth_list_update)
qed

lemma scan_consecutive_ok:
  assumes "cs \<le> ce" "ce \<le> length (bits s)" "{cs..<ce} \<subseteq> zeros (bits s)" "ce - cs \<le> count"
    "\<forall>a < cs. \<not> {a..<a + count} \<subseteq> zeros (bits s)" "0 < count"
  shows "\<exists>x y. scan_consecutive B s count (cs, ce) = Some (x, y) \<and> x \<le> y \<and> y \<le> length (bits s) \<and>
    {x..<y} \<subseteq> zeros (bits s) \<and> y - x \<le> count \<and>
    (if y - x < count then (\<forall>a. \<not> {a..<a + count} \<subseteq> zeros (bits s))
     else (\<forall>a < x. \<not> {a..<a + count} \<subseteq> zeros (bits s)))"
  using assms
proof (induction "length (bits s) - ce" arbitrary: cs ce rule: less_induct)
  case less
  show ?case
  proof (cases "ce - cs < count \<and> ce < length (bits s)")
    case stop: False
    have "\<not> {a..<a + count} \<subseteq> zeros (bits s)" if "ce - cs < count" for a
    proof (cases "a < cs")
      case False
      then have "a + count - 1 \<ge> length (bits s)" using stop that less.prems by linarith
      then have "a + count - 1 \<notin> zeros (bits s)" by (simp add: zeros_def)
      then show ?thesis using less.prems(6) by (metis Suc_diff_1 Suc_leI add_gr_0 atLeastLessThan_iff
            le_add1 lessI less_add_same_cancel1 less_Suc_eq_le subsetD)
    qed (use less.prems in blast)
    then show ?thesis using stop less.prems by (auto simp: len_view scan_consecutive.simps)
  next
    case go: True
    have nxt: "uadd ce 1 = Some (ce + 1)" using len_usize [of "bitset s"] go by (simp add: uadd_def)
    have a: "is_allocated B s ce = Some (bits s ! ce)"
      using go by (simp add: is_allocated_def index_view rindex_def)
    have m: "length (bits s) - (ce + 1) < length (bits s) - ce" using go by linarith
    show ?thesis
    proof (cases "bits s ! ce")
      case False
      have "{cs..<ce + 1} \<subseteq> zeros (bits s)"
        using less.prems(1,3) go False by (auto simp: zeros_def less_Suc_eq)
      moreover have "scan_consecutive B s count (cs, ce) = scan_consecutive B s count (cs, ce + 1)"
        using go nxt a False by (simp add: len_view scan_consecutive.simps [of B s count cs ce])
      moreover have "ce + 1 - cs \<le> count" "cs \<le> ce + 1" using go less.prems(1) by linarith+
      ultimately show ?thesis using less.hyps [OF m, of cs] less.prems(5,6) go by simp
    next
      case True
      have "\<not> {b..<b + count} \<subseteq> zeros (bits s)" if "b < ce + 1" for b
      proof (cases "b < cs")
        case False
        then have "ce \<in> {b..<b + count}" using that go less.prems by auto
        moreover have "ce \<notin> zeros (bits s)" using True by (simp add: zeros_def)
        ultimately show ?thesis by blast
      qed (use less.prems in blast)
      moreover have "scan_consecutive B s count (cs, ce) = scan_consecutive B s count (ce + 1, ce + 1)"
        using go nxt a True by (simp add: len_view scan_consecutive.simps [of B s count cs ce])
      ultimately show ?thesis using less.hyps [OF m, of "ce + 1"] less.prems(6) go by simp
    qed
  qed
qed

lemma first_zero_block:
  assumes "first_zero_at v f" "a < f" "0 < n"
  shows "\<not> {a..<a + n} \<subseteq> zeros v"
proof -
  have "a \<notin> zeros v" using assms(1,2) by (auto simp: first_zero_at_def zeros_def)
  moreover have "a \<in> {a..<a + n}" using assms(3) by simp
  ultimately show ?thesis by blast
qed

lemma alloc_consecutive_none:
  assumes "id_inv bitvec_view s" "0 < count" "length (bits s) < first_available_id s + count"
  shows "\<not> {a..<a + count} \<subseteq> zeros (bits s)"
proof (cases "a < first_available_id s")
  case True
  then show ?thesis using first_zero_block assms by (metis id_inv_def)
next
  case False
  then have "a + count - 1 \<notin> zeros (bits s)" using assms(3) by (auto simp: zeros_def)
  then show ?thesis using assms(2) by (auto simp: subset_iff intro!: exI [of _ "a + count - 1"])
qed

text \<open>What \<open>alloc_consecutive\<close> does: it always returns; it answers \<open>None\<close> and changes nothing exactly when
  no block of \<open>count\<close> free identifiers exists, and otherwise takes the lowest such block.\<close>

lemma alloc_consecutive_spec:
  assumes inv: "id_inv bitvec_view s" and count: "0 < count"
  shows "\<exists>r s'. alloc_consecutive B s count = Some (r, s') \<and> id_inv bitvec_view s' \<and>
    length (bits s') = length (bits s) \<and>
    (case r of
       None \<Rightarrow> s' = s \<and> (\<forall>a. \<not> {a..<a + count} \<subseteq> zeros (bits s))
     | Some (x, y) \<Rightarrow> y = x + count \<and> {x..<y} \<subseteq> zeros (bits s) \<and>
         zeros (bits s') = zeros (bits s) - {x..<y} \<and>
         (\<forall>a < x. \<not> {a..<a + count} \<subseteq> zeros (bits s)))"
proof (cases "length (bits s) < first_available_id s + count")
  case True
  then have "alloc_consecutive B s count = Some (None, s)"
    using count by (auto simp: alloc_consecutive_def uadd_def len_view)
  then show ?thesis using alloc_consecutive_none [OF inv count True] inv by simp
next
  case False
  let ?f = "first_available_id s"
  have f: "?f < length (bits s)" "first_zero_at (bits s) ?f"
    using False count inv by (auto simp: id_inv_def)
  have u: "uadd ?f count = Some (?f + count)" "uadd ?f 1 = Some (?f + 1)"
    using len_usize [of "bitset s"] False f by (auto simp: uadd_def)
  have "{?f..<?f + 1} \<subseteq> zeros (bits s)"
    using f by (auto simp: zeros_def first_zero_at_def less_Suc_eq)
  then obtain x y where xy: "scan_consecutive B s count (?f, ?f + 1) = Some (x, y)" "x \<le> y"
      "y \<le> length (bits s)" "{x..<y} \<subseteq> zeros (bits s)" "y - x \<le> count"
      "if y - x < count then (\<forall>a. \<not> {a..<a + count} \<subseteq> zeros (bits s))
       else (\<forall>a < x. \<not> {a..<a + count} \<subseteq> zeros (bits s))"
    using scan_consecutive_ok [of ?f "?f + 1" s count] first_zero_block [OF f(2)] f count by fastforce
  show ?thesis
  proof (cases "y - x < count")
    case True
    then have "alloc_consecutive B s count = Some (None, s)"
      using u xy count False by (auto simp: alloc_consecutive_def len_view)
    then show ?thesis using xy(6) True inv by simp
  next
    case got: False
    then have y: "y = x + count" using xy by simp
    obtain b where b: "set_each B s [x..<y] = Some (s\<lparr>bitset := b\<rparr>)"
        "length (bitvec_view b) = length (bits s)"
        "\<forall>j < length (bits s). bitvec_view b ! j \<longleftrightarrow> j \<in> {x..<y} \<or> bits s ! j"
      using set_each_ok [of "[x..<y]" s] xy(3) by auto
    let ?s1 = "s\<lparr>bitset := b\<rparr>"
    have z: "zeros (bitvec_view b) = zeros (bits s) - {x..<y}"
      using b(2,3) by (auto simp: zeros_def)
    have a: "is_allocated B ?s1 ?f = Some (bitvec_view b ! ?f)"
      using f b(2) by (simp add: is_allocated_def index_view rindex_def)
    have fx: "x \<ge> ?f"
    proof (rule ccontr)
      assume "\<not> ?f \<le> x"
      then have "x \<notin> zeros (bits s)" using f by (auto simp: zeros_def first_zero_at_def)
      moreover have "x \<in> zeros (bits s)" using xy(4) y count by auto
      ultimately show False by blast
    qed
    have eq: "alloc_consecutive B s count =
        map_option (\<lambda>s2. (Some (x, y), s2))
          (if bitvec_view b ! ?f then update_first_available_id B ?s1 y else Some ?s1)"
      using u xy(1) count False got b(1) a
      by (simp add: alloc_consecutive_def len_view map_conv_bind_option comp_def)
    show ?thesis
    proof (cases "bitvec_view b ! ?f")
      case True
      have "?f = x" using True b(3) f fx unfolding first_zero_at_def by auto
      then have "\<forall>i < y. bitvec_view b ! i"
        using b(3) xy(3) f(2) by (auto simp: first_zero_at_def not_less)
      then obtain fa where fa: "update_first_available_id B ?s1 y = Some (?s1\<lparr>first_available_id := fa\<rparr>)"
          "first_zero_at (bitvec_view b) fa"
        using update_first_available_id_ok [of y ?s1] xy(3) b(2) by auto
      then show ?thesis using eq True y z b(2) xy(4,6) got by (simp add: id_inv_def)
    next
      case no: False
      have "first_zero_at (bitvec_view b) ?f"
        using f b(2,3) no by (auto simp: first_zero_at_def)
      then show ?thesis using eq no y z b(2) xy(4,6) got by (simp add: id_inv_def)
    qed
  qed
qed

lemma with_capacity_spec:
  "n \<le> MAX_BITS \<Longrightarrow> \<exists>s. with_capacity B n = Some s \<and> id_inv bitvec_view s \<and> bits s = replicate n False"
proof -
  assume n: "n \<le> MAX_BITS"
  obtain b where b: "bv_with_capacity B n = Some b" "bitvec_view b = []"
    using with_capacity_view [OF n] by blast
  obtain c where "bv_resize B b n False = Some c" "bitvec_view c = replicate n False"
    using resize_view [OF n, of b False] b(2) by auto
  then show ?thesis using b(1) by (auto simp: with_capacity_def id_inv_def first_zero_at_def)
qed

text \<open>\<open>alloc\<close> takes the least free identifier and answers \<open>None\<close> exactly when none is left.\<close>

lemma alloc_spec:
  assumes inv: "id_inv bitvec_view s"
  shows "\<exists>r s'. alloc B s = Some (r, s') \<and> id_inv bitvec_view s' \<and> length (bits s') = length (bits s) \<and>
    (case r of
       None \<Rightarrow> s' = s \<and> zeros (bits s) = {}
     | Some i \<Rightarrow> i \<in> zeros (bits s) \<and> (\<forall>j < i. j \<notin> zeros (bits s)) \<and>
         zeros (bits s') = zeros (bits s) - {i})"
proof (cases "first_available_id s < length (bits s)")
  case False
  then have "alloc B s = Some (None, s)" by (simp add: alloc_def len_view)
  then show ?thesis using inv False by (auto simp: id_defs)
next
  case True
  let ?f = "first_available_id s"
  obtain b where b: "bv_set B (bitset s) ?f True = Some b" "bitvec_view b = (bits s)[?f := True]"
    using True by (rule set_ok)
  have "\<forall>i < ?f + 1. bitvec_view b ! i"
    using b(2) inv True by (auto simp: id_defs nth_list_update less_Suc_eq)
  then obtain fa where fa: "update_first_available_id B (s\<lparr>bitset := b\<rparr>) (?f + 1) =
        Some (s\<lparr>bitset := b, first_available_id := fa\<rparr>)" "first_zero_at (bitvec_view b) fa"
    using update_first_available_id_ok [of "?f + 1" "s\<lparr>bitset := b\<rparr>"] b(2) True by auto
  have "uadd ?f 1 = Some (?f + 1)" using len_usize [of "bitset s"] True by (simp add: uadd_def)
  then have "alloc B s = Some (Some ?f, s\<lparr>bitset := b, first_available_id := fa\<rparr>)"
    using True b(1) fa(1) by (simp add: alloc_def len_view)
  moreover have "zeros (bitvec_view b) = zeros (bits s) - {?f}"
    using b(2) True by (auto simp: zeros_def nth_list_update split: if_splits)
  ultimately show ?thesis using fa(2) b(2) inv True by (auto simp: id_defs)
qed

text \<open>Releasing keeps the invariant and gives the identifiers back; the \<open>debug_assert!\<close> fires on an
  identifier that is not allocated.\<close>

lemma first_zero_release:
  assumes "first_zero_at v f" "length w = length v" "a < length v" "\<not> w ! a"
    "\<forall>j < length v. j < a \<longrightarrow> w ! j = v ! j" "\<forall>j < length v. \<not> v ! j \<longrightarrow> \<not> w ! j"
  shows "first_zero_at w (if a < f then a else f)"
  using assms by (auto simp: first_zero_at_def)

lemma free_consecutive_spec:
  assumes inv: "id_inv bitvec_view s" and ab: "a < b"
    and alloc: "{a..<b} \<subseteq> {..<length (bits s)} - zeros (bits s)"
  shows "\<exists>s'. free_consecutive B s (a, b) = Some s' \<and> id_inv bitvec_view s' \<and>
    length (bits s') = length (bits s) \<and> zeros (bits s') = zeros (bits s) \<union> {a..<b}"
proof -
  have all: "\<forall>i \<in> set [a..<b]. i < length (bits s) \<and> bits s ! i"
    using alloc by (auto simp: zeros_def)
  obtain bs where bs: "clear_each B s [a..<b] = Some (s\<lparr>bitset := bs\<rparr>)"
      "length (bitvec_view bs) = length (bits s)"
      "\<forall>j < length (bits s). bitvec_view bs ! j \<longleftrightarrow> j \<notin> {a..<b} \<and> bits s ! j"
    using clear_each_ok [OF all] by auto
  have a: "a < length (bits s)" using all ab by auto
  have "first_zero_at (bitvec_view bs) (if a < first_available_id s then a else first_available_id s)"
    by (rule first_zero_release [of "bits s"])
       (use inv bs(2,3) a ab in \<open>auto simp: id_inv_def\<close>)
  moreover have "zeros (bitvec_view bs) = zeros (bits s) \<union> {a..<b}"
    using bs(2,3) all by (auto simp: zeros_def)
  ultimately show ?thesis using bs ab by (auto simp: free_consecutive_def id_inv_def)
qed

lemma free_spec:
  assumes inv: "id_inv bitvec_view s"
  shows "free B s i = None \<longleftrightarrow> i \<notin> {..<length (bits s)} - zeros (bits s)"
    and "free B s i = Some s' \<Longrightarrow> id_inv bitvec_view s' \<and> length (bits s') = length (bits s) \<and>
       zeros (bits s') = insert i (zeros (bits s))"
proof -
  show "free B s i = None \<longleftrightarrow> i \<notin> {..<length (bits s)} - zeros (bits s)"
    by (auto simp: free_def is_allocated_def index_view rindex_def zeros_def bind_eq_None_conv set_None
        split: if_splits)
  assume f: "free B s i = Some s'"
  then have i: "i < length (bits s)" "bits s ! i"
    by (auto simp: free_def is_allocated_def index_view checked bind_eq_Some_conv)
  obtain b where b: "bv_set B (bitset s) i False = Some b" "bitvec_view b = (bits s)[i := False]"
    using i(1) by (rule set_ok)
  have s': "s' = s\<lparr>bitset := b, first_available_id := if i < first_available_id s then i else first_available_id s\<rparr>"
    using f b(1) by (auto simp: free_def bind_eq_Some_conv)
  have "first_zero_at (bitvec_view b) (if i < first_available_id s then i else first_available_id s)"
    by (rule first_zero_release [of "bits s"])
       (use inv b(2) i in \<open>auto simp: id_inv_def nth_list_update\<close>)
  then show "id_inv bitvec_view s' \<and> length (bits s') = length (bits s) \<and>
       zeros (bits s') = insert i (zeros (bits s))"
    using s' b(2) i by (auto simp: id_inv_def zeros_def nth_list_update split: if_splits)
qed

lemma alloc_specific_spec:
  assumes inv: "id_inv bitvec_view s" and i: "i < length (bits s)"
  shows "\<exists>r s'. alloc_specific B s i = Some (r, s') \<and> id_inv bitvec_view s' \<and>
    length (bits s') = length (bits s) \<and> zeros (bits s') = zeros (bits s) - {i} \<and>
    r = (if i \<in> zeros (bits s) then Some i else None)"
proof (cases "bits s ! i")
  case True
  then show ?thesis using inv i by (auto simp: alloc_specific_def index_view rindex_def zeros_def)
next
  case False
  obtain b where b: "bv_set B (bitset s) i True = Some b" "bitvec_view b = (bits s)[i := True]"
    using i by (rule set_ok)
  let ?s1 = "s\<lparr>bitset := b\<rparr>"
  have z: "zeros (bitvec_view b) = zeros (bits s) - {i}" "i \<in> zeros (bits s)"
    using b(2) i False by (auto simp: zeros_def nth_list_update split: if_splits)
  have eq: "alloc_specific B s i = map_option (Pair (Some i))
      (if i = first_available_id s then update_first_available_id B ?s1 (i + 1) else Some ?s1)"
    using False b(1) i len_usize [of "bitset s"]
    by (simp add: alloc_specific_def index_view rindex_def map_conv_bind_option comp_def uadd_def)
  show ?thesis
  proof (cases "i = first_available_id s")
    case True
    have "\<forall>j < i + 1. bitvec_view b ! j"
      using b(2) inv True i by (auto simp: id_defs nth_list_update less_Suc_eq)
    then obtain fa where "update_first_available_id B ?s1 (i + 1) =
          Some (?s1\<lparr>first_available_id := fa\<rparr>)" "first_zero_at (bitvec_view b) fa"
      using update_first_available_id_ok [of "i + 1" ?s1] b(2) i by auto
    then show ?thesis using eq True z b(2) by (simp add: id_inv_def)
  next
    case no: False
    have "first_zero_at (bitvec_view b) (first_available_id s)"
      using inv no b(2) i False by (auto simp: id_defs nth_list_update)
    then show ?thesis using eq no z b(2) by (simp add: id_inv_def)
  qed
qed

end

text \<open>\<open>IdAlloc\<close> meets the shared allocator contract.\<close>

sublocale bitvec_model \<subseteq> ids: range_allocator "id_inv bitvec_view" "all_ids bitvec_view"
    "free_ids bitvec_view" "alloc_consecutive B" "free_consecutive B"
proof
  fix s
  show "free_ids bitvec_view s \<subseteq> all_ids bitvec_view s" by (rule free_ids_managed)
  fix n :: nat
  assume s: "id_inv bitvec_view s" "0 < n"
  note spec = alloc_consecutive_spec [OF s]
  show "\<exists>r s'. alloc_consecutive B s n = Some (r, s') \<and> id_inv bitvec_view s' \<and>
      all_ids bitvec_view s' = all_ids bitvec_view s"
    using spec by (auto simp: all_ids_def)
  show "b = a + n \<and> {a..<b} \<subseteq> free_ids bitvec_view s \<and>
      free_ids bitvec_view s' = free_ids bitvec_view s - {a..<b}"
    if "alloc_consecutive B s n = Some (Some (a, b), s')" for a b s'
    using spec that by (auto simp: free_ids_def)
  show "free_ids bitvec_view s' = free_ids bitvec_view s \<and> (\<forall>a. \<not> {a..<a + n} \<subseteq> free_ids bitvec_view s)"
    if "alloc_consecutive B s n = Some (None, s')" for s'
    using spec that by (auto simp: free_ids_def)
next
  fix s a b
  assume "id_inv bitvec_view s" "a < (b::nat)" "{a..<b} \<subseteq> all_ids bitvec_view s - free_ids bitvec_view s"
  then show "\<exists>s'. free_consecutive B s (a, b) = Some s' \<and> id_inv bitvec_view s' \<and>
      all_ids bitvec_view s' = all_ids bitvec_view s \<and>
      free_ids bitvec_view s' = free_ids bitvec_view s \<union> {a..<b}"
    using free_consecutive_spec by (fastforce simp: all_ids_def free_ids_def)
qed

context bitvec_model
begin

lemmas consecutive_roundtrip = ids.alloc_release

lemma clear_each_SomeD:
  "clear_each B s is = Some s' \<Longrightarrow> \<forall>i \<in> set is. i < length (bits s) \<and> bits s ! i"
proof (induction "is" arbitrary: s)
  case (Cons i "is")
  then obtain b where b: "i < length (bits s)" "bits s ! i" "bv_set B (bitset s) i False = Some b"
      "clear_each B (s\<lparr>bitset := b\<rparr>) is = Some s'"
    by (auto simp: is_allocated_def index_view checked bind_eq_Some_conv)
  moreover have "bitvec_view b = (bits s)[i := False]"
    using set_view [of "bitset s" i False] b(1,3) by (auto simp: rset_def)
  ultimately have "\<forall>j \<in> set is. j < length (bits s) \<and> (bits s)[i := False] ! j"
    using Cons.IH [of "s\<lparr>bitset := b\<rparr>"] by simp
  then show ?case using b(1,2) by (metis nth_list_update set_ConsD)
qed simp

lemma free_consecutive_inv:
  assumes "id_inv bitvec_view s" "free_consecutive B s r = Some s'"
  shows "id_inv bitvec_view s'"
proof (cases "fst r < snd r")
  case True
  then obtain s1 where "clear_each B s [fst r..<snd r] = Some s1"
    using assms(2) by (auto simp: free_consecutive_def bind_eq_Some_conv Let_def)
  then have "\<forall>i \<in> {fst r..<snd r}. i < length (bits s) \<and> bits s ! i"
    by (metis clear_each_SomeD set_upt)
  then have "{fst r..<snd r} \<subseteq> {..<length (bits s)} - zeros (bits s)"
    by (auto simp: zeros_def)
  then show ?thesis using free_consecutive_spec [OF assms(1) True] assms(2) by auto
next
  case False
  then show ?thesis using assms by (simp add: free_consecutive_def)
qed

end

text \<open>Clients drive the allocator by a sequence of calls.\<close>

datatype IdOp = Alloc | AllocConsecutive usize | AllocSpecific usize | Free usize
  | FreeConsecutive "usize \<times> usize"

fun run_op :: "('b, 's) bitvec_ops \<Rightarrow> IdOp \<Rightarrow> 'b IdAlloc \<Rightarrow> 'b IdAlloc option" where
  "run_op B Alloc s = map_option snd (alloc B s)"
| "run_op B (AllocConsecutive n) s = map_option snd (alloc_consecutive B s n)"
| "run_op B (AllocSpecific i) s = map_option snd (alloc_specific B s i)"
| "run_op B (Free i) s = free B s i"
| "run_op B (FreeConsecutive r) s = free_consecutive B s r"

fun run_ops :: "('b, 's) bitvec_ops \<Rightarrow> IdOp list \<Rightarrow> 'b IdAlloc \<Rightarrow> 'b IdAlloc option" where
  "run_ops B [] s = Some s"
| "run_ops B (c # cs) s = do { s' \<leftarrow> run_op B c s; run_ops B cs s' }"

context bitvec_model
begin

lemma run_op_inv:
  assumes "id_inv bitvec_view s" "run_op B c s = Some s'"
  shows "id_inv bitvec_view s'"
proof (cases c)
  case Alloc
  then show ?thesis using assms alloc_spec [OF assms(1)] by auto
next
  case (AllocConsecutive n)
  then show ?thesis
  proof (cases "n = 0")
    case True
    then show ?thesis using assms AllocConsecutive by (simp add: alloc_consecutive_def)
  next
    case False
    then show ?thesis using assms AllocConsecutive alloc_consecutive_spec [OF assms(1), of n] by auto
  qed
next
  case (AllocSpecific i)
  have "i < length (bits s)"
    using assms(2) AllocSpecific
    by (auto simp: alloc_specific_def index_view checked bind_eq_Some_conv)
  then show ?thesis using assms AllocSpecific alloc_specific_spec [OF assms(1)] by fastforce
next
  case (Free i)
  then show ?thesis using assms free_spec(2) by simp
next
  case (FreeConsecutive r)
  then show ?thesis using assms free_consecutive_inv by simp
qed

lemma run_ops_inv:
  "id_inv bitvec_view s \<Longrightarrow> run_ops B cs s = Some s' \<Longrightarrow> id_inv bitvec_view s'"
  by (induction cs arbitrary: s) (auto simp: bind_eq_Some_conv dest: run_op_inv)

end

section \<open>A concrete bitmap\<close>

text \<open>Bit lists of at most \<open>MAX_BITS\<close> elements (longer lists count as empty) satisfy the laws.\<close>

definition capped :: "bool list \<Rightarrow> bool list" where
  "capped v = (if length v \<le> MAX_BITS then v else [])"

definition list_bitvec :: "(bool list, bool list) bitvec_ops" where
  "list_bitvec = \<lparr>
     bv_with_capacity = (\<lambda>n. if n \<le> MAX_BITS then Some [] else None),
     bv_resize = (\<lambda>b n v. if n \<le> MAX_BITS
        then Some (take n (capped b) @ replicate (n - length (capped b)) v) else None),
     bv_len = (\<lambda>b. length (capped b)),
     bv_index = (\<lambda>b i. rindex (capped b) i),
     bv_set = (\<lambda>b i v. rset (capped b) i v),
     bv_get = (\<lambda>b (x, y). if x \<le> y \<and> y \<le> length (capped b)
        then Some (drop x (take y (capped b))) else None),
     bs_first_zero = position Not\<rparr>"

lemma list_bitvec_simps:
  "bv_len list_bitvec b = length (capped b)"
  "bv_index list_bitvec b i = rindex (capped b) i"
  "bv_set list_bitvec b i v = rset (capped b) i v"
  "bv_get list_bitvec b (x, y) = (if x \<le> y \<and> y \<le> length (capped b)
     then Some (drop x (take y (capped b))) else None)"
  "bs_first_zero list_bitvec w = position Not w"
  by (simp_all add: list_bitvec_def)

lemma length_capped: "length (capped v) \<le> MAX_BITS"
  by (simp add: capped_def)

lemma capped_id [simp]: "length v \<le> MAX_BITS \<Longrightarrow> capped v = v"
  by (simp add: capped_def)

lemma MAX_BITS_ge: "n \<le> 1000 \<Longrightarrow> n \<le> MAX_BITS"
  by (simp add: MAX_BITS_def USIZE_MAX_def)

interpretation lbv: bitvec_model list_bitvec capped id
proof
  fix b :: "bool list" and i v
  show "map_option capped (bv_set list_bitvec b i v) = rset (capped b) i v"
    using length_capped [of b] by (simp add: list_bitvec_def rset_def)
next
  fix n :: nat and b :: "bool list" and v assume "n \<le> MAX_BITS"
  then show "\<exists>b'. bv_resize list_bitvec b n v = Some b' \<and>
      capped b' = take n (capped b) @ replicate (n - length (capped b)) v"
    by (simp add: list_bitvec_def min_def)
qed (auto simp: list_bitvec_def length_capped)

section \<open>Properties\<close>

lemma all_ids_eq:
  "all_ids view s = all_ids view t \<longleftrightarrow> length (view (bitset s)) = length (view (bitset t))"
  by (simp add: all_ids_def)

definition demo_ids :: "bool list IdAlloc" where
  "demo_ids = \<lparr>bitset = [True, False, True, False, False, False], first_available_id = 1\<rparr>"

lemma demo_ids_simps [simp]:
  "bitset demo_ids = [True, False, True, False, False, False]" "first_available_id demo_ids = 1"
  by (simp_all add: demo_ids_def)

lemma demo_ids_inv: "id_inv capped demo_ids"
  by (simp add: id_inv_def first_zero_at_def MAX_BITS_ge)

lemma demo_free_ids: "free_ids capped demo_ids = {1, 3, 4, 5}"
proof -
  have "zeros [True, False, True, False, False, False] = {1, 3, 4, 5}"
    by (auto simp: zeros_def less_Suc_eq numeral_eq_Suc)
  then show ?thesis by (simp add: free_ids_def MAX_BITS_ge)
qed

text \<open>C36: \<open>IdAlloc::alloc_consecutive\<close> is first fit and complete.  For any bitmap that meets the
  \<open>bitvec\<close> contract and any allocator state that satisfies the invariant, asking for \<open>count > 0\<close>
  identifiers returns without panicking, keeps the invariant and the capacity, and either takes
  exactly the lowest run of \<open>count\<close> free identifiers, or answers \<open>None\<close> without any change when there is
  no such run.\<close>

theorem id_alloc_consecutive_first_fit:
  assumes "bitvec_model B view sview" "id_inv view s" "0 < count"
  shows "\<exists>r s'. alloc_consecutive B s count = Some (r, s') \<and> id_inv view s' \<and>
    all_ids view s' = all_ids view s \<and>
    (case r of
       None \<Rightarrow> s' = s \<and> (\<forall>a. \<not> {a..<a + count} \<subseteq> free_ids view s)
     | Some (x, y) \<Rightarrow> y = x + count \<and> {x..<y} \<subseteq> free_ids view s \<and>
         free_ids view s' = free_ids view s - {x..<y} \<and>
         (\<forall>a < x. \<not> {a..<a + count} \<subseteq> free_ids view s))"
  using bitvec_model.alloc_consecutive_spec [OF assms] unfolding all_ids_eq free_ids_def .

theorem id_alloc_consecutive_first_fit_witness:
  "\<exists>s'. alloc_consecutive list_bitvec demo_ids 2 = Some (Some (3, 5), s') \<and> id_inv capped s' \<and>
     free_ids capped s' = {1, 5}"
proof -
  note eval = list_bitvec_simps is_allocated_def rindex_def rset_def uadd_def USIZE_MAX_def MAX_BITS_ge
  have scan: "scan_consecutive list_bitvec demo_ids 2 (1, 2) = Some (3, 5)"
    by (simp add: eval
        scan_consecutive.simps [of list_bitvec demo_ids 2 "Suc 0" 2]
        scan_consecutive.simps [of list_bitvec demo_ids 2 3 3]
        scan_consecutive.simps [of list_bitvec demo_ids 2 3 4]
        scan_consecutive.simps [of list_bitvec demo_ids 2 3 5])
  have e: "\<exists>s'. alloc_consecutive list_bitvec demo_ids 2 = Some (Some (3, 5), s')"
    using scan by (simp add: alloc_consecutive_def eval upt_conv_Cons numeral_2_eq_2)
  have d: "{Suc 0, 3, 4, 5} - {3..<5} = {Suc 0, 5 :: nat}" by auto
  show ?thesis
    using id_alloc_consecutive_first_fit [OF lbv.bitvec_model_axioms demo_ids_inv, of 2] e d
    by (auto simp: demo_free_ids)
qed

text \<open>\<open>IdAlloc::alloc\<close> takes the least free identifier: it never panics, keeps the invariant,
  removes exactly the returned identifier from the free set, and answers \<open>None\<close> only when the allocator
  is full.\<close>

lemma id_alloc_least:
  assumes "bitvec_model B view sview" "id_inv view s"
  shows "\<exists>r s'. alloc B s = Some (r, s') \<and> id_inv view s' \<and> all_ids view s' = all_ids view s \<and>
    (case r of
       None \<Rightarrow> s' = s \<and> free_ids view s = {}
     | Some i \<Rightarrow> i \<in> free_ids view s \<and> (\<forall>j < i. j \<notin> free_ids view s) \<and>
         free_ids view s' = free_ids view s - {i})"
  using bitvec_model.alloc_spec [OF assms] unfolding all_ids_eq free_ids_def .

text \<open>Allocating a run of identifiers and releasing it again is a round trip: the release does not
  panic and the free set is the one before the allocation.\<close>

lemma id_alloc_free_roundtrip:
  assumes "bitvec_model B view sview" "id_inv view s" "0 < count" "count \<le> USIZE_MAX"
    "alloc_consecutive B s count = Some (Some r, s')"
  shows "\<exists>s''. free_consecutive B s' r = Some s'' \<and> id_inv view s'' \<and>
    all_ids view s'' = all_ids view s \<and> free_ids view s'' = free_ids view s"
  by (rule bitvec_model.consecutive_roundtrip [OF assms])

text \<open>Every sequence of calls keeps the invariant.  Starting from a fresh allocator of any capacity
  the bitmap can hold, after any list of calls of \<open>alloc\<close>, \<open>alloc_consecutive\<close>, \<open>alloc_specific\<close>, \<open>free\<close> and
  \<open>free_consecutive\<close> that does not panic, \<open>first_available_id\<close> is the first zero bit of the bitmap.\<close>

lemma id_alloc_reachable_inv:
  assumes "bitvec_model B view sview" "with_capacity B n = Some s" "n \<le> MAX_BITS"
    "run_ops B calls s = Some s'"
  shows "id_inv view s'"
  using bitvec_model.run_ops_inv [OF assms(1) _ assms(4)] bitvec_model.with_capacity_spec [OF assms(1,3)]
    assms(2) by auto

end
