(* ===== verification/Mm_Layout.thy ===== *)
theory Mm_Layout
  imports Rust_Prelude
begin

text \<open>
  The constants of the address-space layout on x86-64: \<open>ostd/src/mm/mod.rs\<close>,
  \<open>ostd/src/arch/x86/mm/mod.rs\<close> and \<open>ostd/src/mm/kspace/mod.rs\<close>, with the linear mapping
  \<open>paddr_to_vaddr\<close>, and the error type of the crate, \<open>ostd/src/error.rs\<close>.  \<open>ADDR_WIDTH_SHIFT\<close> is \<open>48 - 48\<close>, so the literals are not shifted.
\<close>

definition PAGE_SIZE :: usize where "PAGE_SIZE = 4096"
definition NR_ENTRIES :: usize where "NR_ENTRIES = 512"
definition NR_LEVELS :: nat where "NR_LEVELS = 4"

definition MAX_PADDR :: Paddr where "MAX_PADDR = 0x80000000"
definition MAX_USERSPACE_VADDR :: Vaddr where "MAX_USERSPACE_VADDR = 0x0000800000000000 - 4096"

definition KERNEL_BASE_VADDR :: Vaddr where "KERNEL_BASE_VADDR = 0xffff800000000000"
definition KERNEL_END_VADDR :: Vaddr where "KERNEL_END_VADDR = 0xffffffffffff0000"
definition FRAME_METADATA_BASE_VADDR :: Vaddr where "FRAME_METADATA_BASE_VADDR = 0xffffe00000000000"
definition FRAME_METADATA_CAP_VADDR :: Vaddr where "FRAME_METADATA_CAP_VADDR = 0xffffe10000000000"
definition VMALLOC_BASE_VADDR :: Vaddr where "VMALLOC_BASE_VADDR = 0xffffc00000000000"
definition LINEAR_MAPPING_BASE_VADDR :: Vaddr where "LINEAR_MAPPING_BASE_VADDR = 0xffff800000000000"

lemmas layout_defs = PAGE_SIZE_def NR_ENTRIES_def NR_LEVELS_def MAX_PADDR_def MAX_USERSPACE_VADDR_def
  KERNEL_BASE_VADDR_def KERNEL_END_VADDR_def FRAME_METADATA_BASE_VADDR_def FRAME_METADATA_CAP_VADDR_def
  VMALLOC_BASE_VADDR_def LINEAR_MAPPING_BASE_VADDR_def

definition paddr_to_vaddr :: "Paddr \<Rightarrow> usize option" where
  "paddr_to_vaddr pa = uadd pa LINEAR_MAPPING_BASE_VADDR"

datatype Error = InvalidArgs | NoMemory | PageFault | AccessDenied | IoError | NotEnoughResources | Overflow

lemma PAGE_SIZE_pow: "PAGE_SIZE = 2 ^ 12"
  by (simp add: PAGE_SIZE_def)

lemma PAGE_SIZE_pos [simp]: "0 < PAGE_SIZE"
  by (simp add: PAGE_SIZE_def)

end
