(* ===== verification/Memory_Region.thy ===== *)
theory Memory_Region
  imports Align_Ext Mm_Layout
begin

text \<open>
  \<open>ostd/src/boot/memory_region.rs\<close>: the boot-time memory map.  Boot loaders report regions that may
  overlap; \<open>into_non_overlapping\<close> turns them into a gap-free sequence of page-aligned regions.  The
  definitions follow the code, in-place array writes included; the second half proves that the result
  is a partition of the addresses up to the last region, in which every address has its most
  restrictive type, and that adjacent regions have different types.
\<close>

section \<open>Region types\<close>

datatype MemoryRegionType = BadMemory | Unknown | NonVolatileSleep | Reserved | Kernel | Module
  | Framebuffer | Reclaimable | Usable

text \<open>The discriminants, which the derived \<open>Ord\<close> compares.\<close>

fun type_rank :: "MemoryRegionType \<Rightarrow> nat" where
  "type_rank BadMemory = 0" | "type_rank Unknown = 1" | "type_rank NonVolatileSleep = 2"
| "type_rank Reserved = 3" | "type_rank Kernel = 4" | "type_rank Module = 5"
| "type_rank Framebuffer = 6" | "type_rank Reclaimable = 7" | "type_rank Usable = 8"

lemma type_rank_inj: "type_rank a = type_rank b \<Longrightarrow> a = b"
  by (cases a; cases b) simp_all

instantiation MemoryRegionType :: linorder
begin

definition less_eq_MemoryRegionType :: "MemoryRegionType \<Rightarrow> MemoryRegionType \<Rightarrow> bool" where
  "a \<le> b \<longleftrightarrow> type_rank a \<le> type_rank b"

definition less_MemoryRegionType :: "MemoryRegionType \<Rightarrow> MemoryRegionType \<Rightarrow> bool" where
  "a < b \<longleftrightarrow> type_rank a < type_rank b"

instance
  by standard (auto simp: less_eq_MemoryRegionType_def less_MemoryRegionType_def type_rank_inj)

end

fun is_physical :: "MemoryRegionType \<Rightarrow> bool" where
  "is_physical BadMemory = False"
| "is_physical Unknown = False"
| "is_physical Reserved = False"
| "is_physical Framebuffer = False"
| "is_physical _ = True"

section \<open>Regions\<close>

record MemoryRegion =
  reg_base :: usize
  reg_len :: usize
  reg_typ :: MemoryRegionType

definition region :: "Paddr \<Rightarrow> usize \<Rightarrow> MemoryRegionType \<Rightarrow> MemoryRegion" where
  "region base len t = \<lparr>reg_base = base, reg_len = len, reg_typ = t\<rparr>"

definition region_bad :: MemoryRegion where
  "region_bad = \<lparr>reg_base = 0, reg_len = 0, reg_typ = BadMemory\<rparr>"

definition region_framebuffer :: "usize \<Rightarrow> usize \<Rightarrow> usize \<Rightarrow> usize \<Rightarrow> MemoryRegion option" where
  "region_framebuffer address width height bpp = do {
     a \<leftarrow> umul width height;
     b \<leftarrow> umul a bpp;
     l \<leftarrow> div_ceil b 8;
     Some \<lparr>reg_base = address, reg_len = l, reg_typ = Framebuffer\<rparr>
   }"

definition region_module :: "Vaddr \<Rightarrow> usize \<Rightarrow> MemoryRegion option" where
  "region_module vaddr bytes_len = do {
     rassert (LINEAR_MAPPING_BASE_VADDR \<le> vaddr \<and> vaddr < VMALLOC_BASE_VADDR);
     b \<leftarrow> usub vaddr LINEAR_MAPPING_BASE_VADDR;
     Some \<lparr>reg_base = b, reg_len = bytes_len, reg_typ = Reclaimable\<rparr>
   }"

definition reg_end :: "MemoryRegion \<Rightarrow> Paddr option" where
  "reg_end r = uadd (reg_base r) (reg_len r)"

definition reg_is_empty :: "MemoryRegion \<Rightarrow> bool" where
  "reg_is_empty r \<longleftrightarrow> reg_len r = 0"

definition as_aligned :: "MemoryRegion \<Rightarrow> MemoryRegion option" where
  "as_aligned self = do {
     (base, len) \<leftarrow> (case reg_typ self of
        Usable \<Rightarrow> do {
          aligned_base \<leftarrow> usize_align_up (reg_base self) PAGE_SIZE;
          e \<leftarrow> reg_end self;
          aligned_end \<leftarrow> usize_align_down e PAGE_SIZE;
          Some (aligned_base, aligned_end - aligned_base)
        }
      | _ \<Rightarrow> do {
          aligned_base \<leftarrow> usize_align_down (reg_base self) PAGE_SIZE;
          e \<leftarrow> reg_end self;
          aligned_end \<leftarrow> usize_align_up e PAGE_SIZE;
          len \<leftarrow> usub aligned_end aligned_base;
          Some (aligned_base, len)
        });
     Some \<lparr>reg_base = base, reg_len = len, reg_typ = reg_typ self\<rparr>
   }"

section \<open>The region array\<close>

text \<open>\<open>MemoryRegionArray<LEN>\<close>: the array \<open>regions\<close> has \<open>LEN\<close> elements, of which the first \<open>count\<close> are
  active.  \<open>deref\<close> is the slice of the active ones.\<close>

record MemoryRegionArray =
  regions :: "MemoryRegion list"
  count :: usize

definition MAX_REGIONS :: usize where "MAX_REGIONS = 512"

definition array_new :: "usize \<Rightarrow> MemoryRegionArray" where
  "array_new LEN = \<lparr>regions = replicate LEN region_bad, count = 0\<rparr>"

definition array_deref :: "MemoryRegionArray \<Rightarrow> MemoryRegion list option" where
  "array_deref self = (if count self \<le> length (regions self) then Some (take (count self) (regions self)) else None)"

datatype ArrayFullError = ArrayFullError

definition array_push :: "MemoryRegionArray \<Rightarrow> MemoryRegion \<Rightarrow> (ArrayFullError + MemoryRegionArray) option" where
  "array_push self r = (
     if count self \<ge> length (regions self) then Some (Inl ArrayFullError)
     else do {
       rs \<leftarrow> rset (regions self) (count self) r;
       c \<leftarrow> uadd (count self) 1;
       Some (Inr \<lparr>regions = rs, count = c\<rparr>)
     })"

text \<open>Regions with their ends; \<open>end()\<close> panics on an overflow.\<close>

definition with_ends :: "MemoryRegion list \<Rightarrow> (MemoryRegion \<times> Paddr) list option" where
  "with_ends rs = those (map (\<lambda>r. map_option (Pair r) (reg_end r)) rs)"

definition list_max :: "'a::linorder list \<Rightarrow> 'a option" where
  "list_max xs = (case xs of [] \<Rightarrow> None | _ \<Rightarrow> Some (fold max (tl xs) (hd xs)))"

definition list_min :: "'a::linorder list \<Rightarrow> 'a option" where
  "list_min xs = (case xs of [] \<Rightarrow> None | _ \<Rightarrow> Some (fold min (tl xs) (hd xs)))"

definition max_region_end :: "MemoryRegion list \<Rightarrow> usize option option" where
  "max_region_end rs = do { es \<leftarrow> with_ends rs; Some (list_max (map snd es)) }"

definition most_restrictive_type :: "MemoryRegion list \<Rightarrow> usize \<Rightarrow> MemoryRegionType option option" where
  "most_restrictive_type rs cur_right = do {
     es \<leftarrow> with_ends rs;
     Some (list_min (map (\<lambda>(r, e). reg_typ r)
       (filter (\<lambda>(r, e). reg_base r \<le> cur_right \<and> cur_right < e) es)))
   }"

definition next_region_boundary :: "MemoryRegion list \<Rightarrow> usize \<Rightarrow> usize option option" where
  "next_region_boundary rs cur_right = do {
     es \<leftarrow> with_ends rs;
     Some (list_min (map (\<lambda>(r, e). if reg_base r > cur_right then reg_base r else e)
       (filter (\<lambda>(r, e). e > cur_right) es)))
   }"

lemma list_max_fold: "set xs \<noteq> {} \<Longrightarrow> list_max xs = Some (Max (set xs))"
  by (cases xs) (simp_all add: list_max_def flip: Max.set_eq_fold)

lemma list_min_fold: "set xs \<noteq> {} \<Longrightarrow> list_min xs = Some (Min (set xs))"
  by (cases xs) (simp_all add: list_min_def flip: Min.set_eq_fold)

lemma list_max_Nil [simp]: "list_max [] = None" and list_min_Nil [simp]: "list_min [] = None"
  by (simp_all add: list_max_def list_min_def)

lemma list_min_SomeD: "list_min xs = Some m \<Longrightarrow> m \<in> set xs"
  by (metis List.finite_set Min_in list_min_Nil list_min_fold option.distinct(1) option.inject
      set_empty)

lemma next_region_boundary_gt: "next_region_boundary rs c = Some (Some r) \<Longrightarrow> c < r"
  by (auto simp: next_region_boundary_def bind_eq_Some_conv dest!: list_min_SomeD)

section \<open>The loops of \<open>into_non_overlapping\<close>\<close>

text \<open>Aligning in place and dropping what became empty: \<open>i\<close> is the loop index, \<open>n\<close> the old count.\<close>

function align_loop :: "MemoryRegion list \<Rightarrow> usize \<Rightarrow> usize \<Rightarrow> usize \<Rightarrow> (MemoryRegion list \<times> usize) option" where
  "align_loop arr i n cnt = (
     if i < n then do {
       r \<leftarrow> rindex arr i;
       a \<leftarrow> as_aligned r;
       if \<not> reg_is_empty a then do {
         arr' \<leftarrow> rset arr cnt a;
         align_loop arr' (i + 1) n (cnt + 1)
       } else align_loop arr (i + 1) n cnt
     } else Some (arr, cnt))"
  by pat_completeness auto
termination by (relation "measure (\<lambda>(arr, i, n, cnt). n - i)") auto

declare align_loop.simps [simp del]

text \<open>The sweep: one piece per step, from \<open>cur_right\<close> to the next boundary.\<close>

function sweep_loop :: "MemoryRegion list \<Rightarrow> usize \<Rightarrow> usize \<Rightarrow> MemoryRegionArray \<Rightarrow> MemoryRegionArray option" where
  "sweep_loop rs max_addr cur_right result = (
     if cur_right < max_addr then do {
       t \<leftarrow> most_restrictive_type rs cur_right;
       rt \<leftarrow> next_region_boundary rs cur_right;
       case rt of
         None \<Rightarrow> None
       | Some right \<Rightarrow> do {
           len \<leftarrow> usub right cur_right;
           p \<leftarrow> array_push result (region cur_right len (case t of None \<Rightarrow> Unknown | Some ty \<Rightarrow> ty));
           case p of
             Inl _ \<Rightarrow> None
           | Inr result' \<Rightarrow> sweep_loop rs max_addr right result'
         }
     } else Some result)"
  by pat_completeness auto
termination
  by (relation "measure (\<lambda>(rs, m, c, res). m - c)") (auto dest: next_region_boundary_gt)

declare sweep_loop.simps [simp del]

text \<open>Merging equal neighbours in place.\<close>

function merge_loop :: "MemoryRegion list \<Rightarrow> usize \<Rightarrow> usize \<Rightarrow> usize \<Rightarrow> (MemoryRegion list \<times> usize) option" where
  "merge_loop arr i n merged = (
     if i < n then do {
       r \<leftarrow> rindex arr i;
       k \<leftarrow> usub merged 1;
       l \<leftarrow> rindex arr k;
       if reg_typ r = reg_typ l then do {
         len \<leftarrow> uadd (reg_len l) (reg_len r);
         arr' \<leftarrow> rset arr k (region (reg_base l) len (reg_typ l));
         merge_loop arr' (i + 1) n merged
       } else do {
         arr' \<leftarrow> rset arr merged r;
         merge_loop arr' (i + 1) n (merged + 1)
       }
     } else Some (arr, merged))"
  by pat_completeness auto
termination by (relation "measure (\<lambda>(arr, i, n, m). n - i)") auto

declare merge_loop.simps [simp del]

definition into_non_overlapping :: "MemoryRegionArray \<Rightarrow> MemoryRegionArray option" where
  "into_non_overlapping self = do {
     (rs, cnt) \<leftarrow> align_loop (regions self) 0 (count self) 0;
     act \<leftarrow> array_deref \<lparr>regions = rs, count = cnt\<rparr>;
     m \<leftarrow> max_region_end act;
     let max_addr = (case m of None \<Rightarrow> 0 | Some e \<Rightarrow> e);
     result \<leftarrow> sweep_loop act max_addr 0 (array_new (length (regions self)));
     if count result = 0 then Some result
     else do {
       (ms, merged) \<leftarrow> merge_loop (regions result) 1 (count result) 1;
       Some \<lparr>regions = ms, count = merged\<rparr>
     }
   }"

section \<open>Reference notions\<close>

definition region_wf :: "MemoryRegion \<Rightarrow> bool" where
  "region_wf r \<longleftrightarrow> reg_base r + reg_len r \<le> USIZE_MAX"

definition region_end :: "MemoryRegion \<Rightarrow> nat" where
  "region_end r = reg_base r + reg_len r"

definition covers :: "MemoryRegion \<Rightarrow> nat \<Rightarrow> bool" where
  "covers r addr \<longleftrightarrow> reg_base r \<le> addr \<and> addr < region_end r"

text \<open>Rounding inward for usable memory and outward for everything else, and when it does not overflow.\<close>

definition aligned_region :: "MemoryRegion \<Rightarrow> MemoryRegion" where
  "aligned_region r = (
     if reg_typ r = Usable
     then region (nat_align_up (reg_base r) PAGE_SIZE)
            (nat_align_down (region_end r) PAGE_SIZE - nat_align_up (reg_base r) PAGE_SIZE) Usable
     else region (nat_align_down (reg_base r) PAGE_SIZE)
            (nat_align_up (region_end r) PAGE_SIZE - nat_align_down (reg_base r) PAGE_SIZE) (reg_typ r))"

definition alignable :: "MemoryRegion \<Rightarrow> bool" where
  "alignable r \<longleftrightarrow> (if reg_typ r = Usable then reg_base r + (PAGE_SIZE - 1) \<le> USIZE_MAX
                    else region_end r + (PAGE_SIZE - 1) \<le> USIZE_MAX)"

definition active :: "MemoryRegionArray \<Rightarrow> MemoryRegion list" where
  "active a = take (count a) (regions a)"

definition aligned_regions :: "MemoryRegionArray \<Rightarrow> MemoryRegion list" where
  "aligned_regions a = filter (\<lambda>r. reg_len r > 0) (map aligned_region (active a))"

text \<open>The most restrictive type among the regions that cover an address, \<open>Unknown\<close> when none does.\<close>

definition selected_type :: "MemoryRegion list \<Rightarrow> nat \<Rightarrow> MemoryRegionType" where
  "selected_type rs addr = (
     if \<exists>r \<in> set rs. covers r addr then Min (reg_typ ` {r \<in> set rs. covers r addr}) else Unknown)"

definition region_boundaries :: "MemoryRegion list \<Rightarrow> nat set" where
  "region_boundaries rs = (reg_base ` set rs \<union> region_end ` set rs) - {0}"

text \<open>A gap-free sequence of nonempty regions from one address to another.\<close>

fun chain :: "nat \<Rightarrow> MemoryRegion list \<Rightarrow> nat \<Rightarrow> bool" where
  "chain a [] b \<longleftrightarrow> a = b"
| "chain a (r # rs) b \<longleftrightarrow> reg_base r = a \<and> reg_len r > 0 \<and> chain (region_end r) rs b"

definition typed_by :: "MemoryRegion list \<Rightarrow> MemoryRegion list \<Rightarrow> bool" where
  "typed_by rs out \<longleftrightarrow> (\<forall>r \<in> set out. \<forall>addr. covers r addr \<longrightarrow> reg_typ r = selected_type rs addr)"

definition page_aligned :: "MemoryRegion \<Rightarrow> bool" where
  "page_aligned r \<longleftrightarrow> PAGE_SIZE dvd reg_base r \<and> PAGE_SIZE dvd region_end r"

lemma region_sel [simp]:
  "reg_base (region b l t) = b" "reg_len (region b l t) = l" "reg_typ (region b l t) = t"
  "region_end (region b l t) = b + l"
  by (simp_all add: region_def region_end_def)

lemma chain_append: "chain a (xs @ ys) c \<longleftrightarrow> (\<exists>b. chain a xs b \<and> chain b ys c)"
  by (induction xs arbitrary: a) auto

lemma chain_le: "chain a rs b \<Longrightarrow> a \<le> b"
  by (induction rs arbitrary: a) (force simp: region_end_def)+

lemma chain_bounds: "chain a rs b \<Longrightarrow> r \<in> set rs \<Longrightarrow> a \<le> reg_base r \<and> region_end r \<le> b"
proof (induction rs arbitrary: a)
  case (Cons x rs)
  then have "region_end x \<le> b" using chain_le by auto
  moreover have "a \<le> region_end x" using Cons.prems by (auto simp: region_end_def)
  ultimately show ?case using Cons by (fastforce simp: region_end_def)
qed simp

section \<open>Aligning\<close>

lemma as_aligned_eq:
  assumes "region_wf r" "alignable r"
  shows "as_aligned r = Some (aligned_region r)"
proof -
  have b: "reg_base r \<le> USIZE_MAX" "region_end r \<le> USIZE_MAX"
    using assms by (auto simp: region_wf_def region_end_def)
  have e: "reg_end r = Some (region_end r)"
    using b by (simp add: reg_end_def uadd_def region_end_def)
  note down = usize_align_down_eq [OF _ PAGE_SIZE_pow] and up = usize_align_up_eq [OF _ PAGE_SIZE_pow]
  have le: "nat_align_down (reg_base r) PAGE_SIZE \<le> nat_align_up (region_end r) PAGE_SIZE"
    using nat_align_down_le [of "reg_base r" PAGE_SIZE] nat_align_up_ge [OF PAGE_SIZE_pos, of "region_end r"]
    by (simp add: region_end_def)
  show ?thesis
  proof (cases "reg_typ r = Usable")
    case True
    then show ?thesis using assms(2) b e
      by (simp add: as_aligned_def down up alignable_def aligned_region_def region_def)
  next
    case False
    then show ?thesis using assms(2) b e le
      by (cases "reg_typ r")
         (simp_all add: as_aligned_def down up alignable_def aligned_region_def region_def usub_def)
  qed
qed

lemma aligned_region_wf:
  assumes "region_wf r" "alignable r"
  shows "region_wf (aligned_region r)"
proof -
  have "nat_align_up x PAGE_SIZE \<le> USIZE_MAX" if "x + (PAGE_SIZE - 1) \<le> USIZE_MAX" for x
    using nat_align_up_lt [OF PAGE_SIZE_pos, of x] that PAGE_SIZE_pos by linarith
  moreover have "nat_align_down (region_end r) PAGE_SIZE \<le> USIZE_MAX"
    "nat_align_down (reg_base r) PAGE_SIZE \<le> USIZE_MAX"
    using nat_align_down_le [of "region_end r" PAGE_SIZE] nat_align_down_le [of "reg_base r" PAGE_SIZE] assms(1)
    by (auto simp: region_wf_def region_end_def)
  moreover have "x + (y - x) \<le> USIZE_MAX" if "x \<le> USIZE_MAX" "y \<le> USIZE_MAX" for x y
    using that by (cases "x \<le> y") auto
  ultimately show ?thesis using assms(2)
    by (auto simp: region_wf_def aligned_region_def alignable_def split: if_splits)
qed

lemma aligned_region_page_aligned:
  "reg_len (aligned_region r) > 0 \<Longrightarrow> page_aligned (aligned_region r)"
  by (auto simp: page_aligned_def aligned_region_def split: if_splits)

lemma align_loop_ok:
  assumes "i \<le> n" "n \<le> length arr" "cnt \<le> i" "\<forall>r \<in> set (drop i (take n arr)). region_wf r \<and> alignable r"
  shows "\<exists>arr' cnt'. align_loop arr i n cnt = Some (arr', cnt') \<and> length arr' = length arr \<and> cnt' \<le> n \<and>
    take cnt' arr' = take cnt arr @ filter (\<lambda>r. reg_len r > 0) (map aligned_region (drop i (take n arr)))"
  using assms
proof (induction "n - i" arbitrary: arr i cnt)
  case 0
  have "\<not> i < n" using 0(1) by simp
  then have "align_loop arr i n cnt = Some (arr, cnt)" by (simp add: align_loop.simps [of arr i n cnt])
  then show ?case using 0 by simp
next
  case (Suc m)
  then have i: "i < n" "i < length arr" "m = n - (i + 1)" by auto
  have d: "drop i (take n arr) = arr ! i # drop (i + 1) (take n arr)"
    using i by (simp add: Cons_nth_drop_Suc [symmetric])
  let ?a = "aligned_region (arr ! i)"
  have a: "as_aligned (arr ! i) = Some ?a"
    using Suc.prems(4) d by (intro as_aligned_eq) auto
  have rest: "\<forall>r \<in> set (drop (i + 1) (take n arr)). region_wf r \<and> alignable r"
    using Suc.prems(4) d by auto
  show ?case
  proof (cases "reg_len ?a = 0")
    case True
    then have "align_loop arr i n cnt = align_loop arr (i + 1) n cnt"
      using i a by (simp add: align_loop.simps [of arr i n cnt] rindex_def reg_is_empty_def)
    then show ?thesis using Suc.hyps(1) [OF i(3), of arr cnt] Suc.prems i rest d True by simp
  next
    case False
    let ?arr = "arr[cnt := ?a]"
    have c: "cnt < length arr" using Suc.prems i by simp
    have "align_loop arr i n cnt = align_loop ?arr (i + 1) n (cnt + 1)"
      using i a c False by (simp add: align_loop.simps [of arr i n cnt] rindex_def rset_def reg_is_empty_def)
    moreover have "drop (i + 1) (take n ?arr) = drop (i + 1) (take n arr)"
      using Suc.prems by (simp add: take_update_swap)
    moreover have "take (cnt + 1) ?arr = take cnt arr @ [?a]"
      using c by (simp add: take_Suc_conv_app_nth)
    ultimately show ?thesis using Suc.hyps(1) [OF i(3), of ?arr "cnt + 1"] Suc.prems i rest d False by simp
  qed
qed

section \<open>The sweep\<close>

lemma with_ends_wf:
  "\<forall>r \<in> set rs. region_wf r \<Longrightarrow> with_ends rs = Some (map (\<lambda>r. (r, region_end r)) rs)"
  by (induction rs) (auto simp: with_ends_def reg_end_def region_wf_def region_end_def uadd_def)

lemma max_region_end_wf:
  assumes "\<forall>r \<in> set rs. region_wf r"
  shows "max_region_end rs = Some (if rs = [] then None else Some (Max (region_end ` set rs)))"
  using list_max_fold [of "map region_end rs"] assms
  by (auto simp: max_region_end_def with_ends_wf comp_def)

lemma most_restrictive_type_wf:
  assumes "\<forall>r \<in> set rs. region_wf r"
  shows "\<exists>t. most_restrictive_type rs c = Some t \<and>
    (case t of None \<Rightarrow> Unknown | Some ty \<Rightarrow> ty) = selected_type rs c"
proof -
  let ?ts = "map reg_typ (filter (\<lambda>r. covers r c) rs)"
  have m: "most_restrictive_type rs c = Some (list_min ?ts)"
    using assms by (simp add: most_restrictive_type_def with_ends_wf filter_map comp_def covers_def)
  show ?thesis
  proof (cases "\<exists>r \<in> set rs. covers r c")
    case True
    then have "list_min ?ts = Some (Min (set ?ts))" by (intro list_min_fold) auto
    then show ?thesis using m True by (simp add: selected_type_def)
  next
    case False
    then have "?ts = []" by (simp add: filter_empty_conv)
    then show ?thesis using m False by (simp add: selected_type_def del: map_is_Nil_conv)
  qed
qed

lemma next_region_boundary_wf:
  assumes wf: "\<forall>r \<in> set rs. region_wf r" and ex: "\<exists>r \<in> set rs. c < region_end r"
  shows "\<exists>right. next_region_boundary rs c = Some (Some right) \<and> c < right \<and>
    right \<in> region_boundaries rs \<and> (\<forall>b \<in> region_boundaries rs. c < b \<longrightarrow> right \<le> b)"
proof -
  let ?f = "\<lambda>r. if reg_base r > c then reg_base r else region_end r"
  let ?bs = "map ?f (filter (\<lambda>r. region_end r > c) rs)"
  have m: "next_region_boundary rs c = Some (list_min ?bs)"
    using wf by (simp add: next_region_boundary_def with_ends_wf filter_map comp_def)
  have ne: "set ?bs \<noteq> {}" using ex by (auto simp: filter_empty_conv)
  then have l: "list_min ?bs = Some (Min (set ?bs))" by (rule list_min_fold)
  have "Min (set ?bs) \<in> set ?bs" using ne by (intro Min_in) auto
  then have "c < Min (set ?bs) \<and> Min (set ?bs) \<in> region_boundaries rs"
    unfolding region_boundaries_def by auto
  moreover have "Min (set ?bs) \<le> b" if b: "b \<in> region_boundaries rs" "c < b" for b
  proof -
    obtain r where r: "r \<in> set rs" "b = reg_base r \<or> b = region_end r"
      using b(1) by (auto simp: region_boundaries_def)
    then have "region_end r > c" "?f r \<le> b" using b(2) by (auto simp: region_end_def)
    then show ?thesis using r(1) by (intro order_trans [OF Min_le [of "set ?bs" "?f r"]]) auto
  qed
  ultimately show ?thesis using m l by auto
qed

text \<open>Between two neighbouring boundaries nothing changes.\<close>

lemma selected_type_const:
  assumes "\<forall>b \<in> region_boundaries rs. c < b \<longrightarrow> right \<le> b" "c \<le> addr" "addr < right"
  shows "selected_type rs addr = selected_type rs c"
proof -
  have "covers r addr \<longleftrightarrow> covers r c" if r: "r \<in> set rs" for r
  proof -
    have "c < b \<Longrightarrow> right \<le> b" if "b = reg_base r \<or> b = region_end r" for b
      using assms(1) r that by (auto simp: region_boundaries_def)
    then have "c < reg_base r \<Longrightarrow> right \<le> reg_base r" "c < region_end r \<Longrightarrow> right \<le> region_end r"
      by blast+
    then have "reg_base r \<le> addr \<longleftrightarrow> reg_base r \<le> c" "addr < region_end r \<longleftrightarrow> c < region_end r"
      using assms(2,3) by linarith+
    then show ?thesis by (simp add: covers_def)
  qed
  then have "{r \<in> set rs. covers r addr} = {r \<in> set rs. covers r c}" by blast
  then show ?thesis by (auto simp: selected_type_def)
qed

lemma array_push_ok:
  assumes "count a < length (regions a)" "length (regions a) < USIZE_MAX"
  shows "\<exists>a'. array_push a r = Some (Inr a') \<and> active a' = active a @ [r] \<and>
    count a' = count a + 1 \<and> length (regions a') = length (regions a)"
  using assms by (auto simp: array_push_def rset_def uadd_def active_def take_Suc_conv_app_nth)

lemma card_boundaries_step:
  fixes c right :: nat
  assumes "finite B" "c < right" "right \<in> B" "\<forall>b \<in> B. c < b \<longrightarrow> right \<le> b"
  shows "card {b \<in> B. b \<le> right} = card {b \<in> B. b \<le> c} + 1"
proof -
  have "b \<le> right \<longleftrightarrow> b = right \<or> b \<le> c" if "b \<in> B" for b
    using assms(2,4) that by (cases "c < b") auto
  then have "{b \<in> B. b \<le> right} = insert right {b \<in> B. b \<le> c}" using assms(3) by blast
  then show ?thesis using assms by simp
qed

lemma finite_boundaries [simp]: "finite (region_boundaries rs)"
  by (simp add: region_boundaries_def)

lemma sweep_loop_ok:
  assumes wf: "\<forall>r \<in> set rs. region_wf r" and mx: "\<exists>r \<in> set rs. region_end r = m"
    and al: "\<forall>r \<in> set rs. page_aligned r"
    and room: "card (region_boundaries rs) \<le> length (regions res)" "length (regions res) < USIZE_MAX"
    and cnt: "count res = card {b \<in> region_boundaries rs. b \<le> c}" and c: "c \<le> m" "PAGE_SIZE dvd c"
  shows "\<exists>res' out. sweep_loop rs m c res = Some res' \<and> active res' = active res @ out \<and>
    count res' = count res + length out \<and> count res' \<le> length (regions res') \<and>
    length (regions res') = length (regions res) \<and>
    chain c out m \<and> typed_by rs out \<and> (\<forall>r \<in> set out. page_aligned r)"
  using room cnt c
proof (induction "m - c" arbitrary: c res rule: less_induct)
  case less
  let ?B = "region_boundaries rs"
  have le: "count res \<le> length (regions res)"
    using less.prems(1,3) card_mono [of ?B "{b \<in> ?B. b \<le> c}"] by simp
  show ?case
  proof (cases "c < m")
    case False
    then have "sweep_loop rs m c res = Some res" by (simp add: sweep_loop.simps [of rs m c res])
    then show ?thesis using False less.prems(4) le
      by (intro exI [of _ res] exI [of _ "[]"]) (simp add: typed_by_def)
  next
    case True
    obtain t where t: "most_restrictive_type rs c = Some t"
      "(case t of None \<Rightarrow> Unknown | Some ty \<Rightarrow> ty) = selected_type rs c"
      using most_restrictive_type_wf [OF wf] by blast
    obtain right where right: "next_region_boundary rs c = Some (Some right)" "c < right" "right \<in> ?B"
        "\<forall>b \<in> ?B. c < b \<longrightarrow> right \<le> b"
      using next_region_boundary_wf [OF wf] mx True by metis
    have rm: "right \<le> m" using right(4) mx True by (auto simp: region_boundaries_def)
    have ra: "PAGE_SIZE dvd right" using right(3) al by (auto simp: region_boundaries_def page_aligned_def)
    have card: "card {b \<in> ?B. b \<le> right} = count res + 1"
      using card_boundaries_step [OF finite_boundaries right(2-4)] less.prems(3) by simp
    then have "count res < length (regions res)"
      using card_mono [of ?B "{b \<in> ?B. b \<le> right}"] less.prems(1) by simp
    then obtain res1 where res1: "array_push res (region c (right - c) (selected_type rs c)) = Some (Inr res1)"
        "active res1 = active res @ [region c (right - c) (selected_type rs c)]"
        "count res1 = count res + 1" "length (regions res1) = length (regions res)"
      using array_push_ok less.prems(2) by blast
    have step: "sweep_loop rs m c res = sweep_loop rs m right res1"
      using True t right(1,2) res1(1) by (simp add: sweep_loop.simps [of rs m c res] usub_def)
    have room1: "card ?B \<le> length (regions res1)" "length (regions res1) < USIZE_MAX"
      and cnt1: "count res1 = card {b \<in> ?B. b \<le> right}"
      using less.prems(1,2) res1(3,4) card by simp_all
    obtain res' out where out: "sweep_loop rs m right res1 = Some res'" "active res' = active res1 @ out"
        "count res' = count res1 + length out" "count res' \<le> length (regions res')"
        "length (regions res') = length (regions res1)"
        "chain right out m" "typed_by rs out" "\<forall>r \<in> set out. page_aligned r"
      using less.hyps [OF diff_less_mono2 [OF right(2) True] room1 cnt1 rm ra]
      by (elim exE conjE) (rule that)
    let ?p = "region c (right - c) (selected_type rs c)"
    have "typed_by rs (?p # out)"
      unfolding typed_by_def
    proof (intro ballI allI impI)
      fix r addr assume r: "r \<in> set (?p # out)" and a: "covers r addr"
      show "reg_typ r = selected_type rs addr"
      proof (cases "r = ?p")
        case True
        then have "c \<le> addr" "addr < right" using a right(2) by (auto simp: covers_def)
        from selected_type_const [OF right(4) this] show ?thesis using True by simp
      next
        case False
        then show ?thesis using out(7) r a by (simp add: typed_by_def)
      qed
    qed
    moreover have "page_aligned ?p" using less.prems(5) ra right(2) by (simp add: page_aligned_def)
    ultimately show ?thesis using step out res1(2-4) right(2)
      by (intro exI [of _ res'] exI [of _ "?p # out"]) simp
  qed
qed

section \<open>Merging\<close>

text \<open>What the sweep establishes and the merge keeps, for a prefix that is already merged.\<close>

definition map_ok :: "MemoryRegion list \<Rightarrow> nat \<Rightarrow> MemoryRegion list \<Rightarrow> nat \<Rightarrow> bool" where
  "map_ok rs a out b \<longleftrightarrow> chain a out b \<and> typed_by rs out \<and> (\<forall>r \<in> set out. page_aligned r)"

lemma map_ok_append: "map_ok rs a (xs @ ys) c \<longleftrightarrow> (\<exists>b. map_ok rs a xs b \<and> map_ok rs b ys c)"
  by (auto simp: map_ok_def chain_append typed_by_def)

lemma map_ok_Cons:
  "map_ok rs a (x # xs) c \<longleftrightarrow> map_ok rs a [x] (region_end x) \<and> map_ok rs (region_end x) xs c"
  by (auto simp: map_ok_def typed_by_def)

lemma map_ok_Nil [simp]: "map_ok rs a [] b \<longleftrightarrow> a = b"
  by (simp add: map_ok_def typed_by_def)

lemma map_ok_merge:
  assumes "map_ok rs a [l] b" "map_ok rs b [r] c" "reg_typ r = reg_typ l"
  shows "map_ok rs a [region (reg_base l) (reg_len l + reg_len r) (reg_typ l)] c"
proof -
  have l: "reg_base l = a" "region_end l = b" "reg_base r = b" "region_end r = c"
      "reg_len l > 0" "reg_len r > 0" "page_aligned l" "page_aligned r"
    using assms by (auto simp: map_ok_def)
  have "reg_typ l = selected_type rs addr" if "a \<le> addr" "addr < c" for addr
  proof (cases "addr < b")
    case True
    then have "covers l addr" using l that by (simp add: covers_def)
    then show ?thesis using assms(1) by (simp add: map_ok_def typed_by_def)
  next
    case False
    then have "covers r addr" using l that by (simp add: covers_def)
    then show ?thesis using assms(2,3) by (auto simp: map_ok_def typed_by_def)
  qed
  moreover have "reg_base l + (reg_len l + reg_len r) = c" using l by (simp add: region_end_def)
  ultimately show ?thesis using l
    by (simp add: map_ok_def typed_by_def page_aligned_def covers_def)
qed

lemma distinct_adj_snoc:
  "distinct_adj (xs @ [x]) \<longleftrightarrow> distinct_adj xs \<and> (xs = [] \<or> last xs \<noteq> x)"
  by (auto simp: distinct_adj_append_iff)

lemma merge_loop_ok:
  assumes "0 < k" "k \<le> i" "i \<le> n" "n \<le> length arr" "map_ok rs 0 (take k arr) a"
    "map_ok rs a (drop i (take n arr)) m" "distinct_adj (map reg_typ (take k arr))" "m \<le> USIZE_MAX"
  shows "\<exists>arr' k'. merge_loop arr i n k = Some (arr', k') \<and> length arr' = length arr \<and>
    0 < k' \<and> k' \<le> n \<and> map_ok rs 0 (take k' arr') m \<and> distinct_adj (map reg_typ (take k' arr'))"
  using assms
proof (induction "n - i" arbitrary: arr i k a)
  case 0
  then have "\<not> i < n" "i = n" by simp_all
  moreover from this(1) have "merge_loop arr i n k = Some (arr, k)"
    by (simp add: merge_loop.simps [of arr i n k])
  ultimately show ?case using 0 by simp
next
  case (Suc d)
  then have i: "i < n" "i < length arr" "k - 1 < length arr" "d = n - (i + 1)" by auto
  let ?r = "arr ! i" and ?l = "arr ! (k - 1)" and ?out = "take (k - 1) arr"
  have dr: "drop i (take n arr) = ?r # drop (i + 1) (take n arr)"
    using i by (simp add: Cons_nth_drop_Suc [symmetric])
  have tk: "take k arr = ?out @ [?l]"
    using Suc.prems(1) i by (metis Suc_diff_1 take_Suc_conv_app_nth)
  have r: "map_ok rs a [?r] (region_end ?r)" "map_ok rs (region_end ?r) (drop (i + 1) (take n arr)) m"
    using Suc.prems(6) dr by (simp_all add: map_ok_Cons [of rs a ?r "drop (Suc i) (take n arr)"])
  obtain b where b: "map_ok rs 0 ?out b" "map_ok rs b [?l] a"
    using Suc.prems(5) tk by (auto simp: map_ok_append)
  show ?case
  proof (cases "reg_typ ?r = reg_typ ?l")
    case True
    let ?n = "region (reg_base ?l) (reg_len ?l + reg_len ?r) (reg_typ ?l)"
    let ?arr = "arr[k - 1 := ?n]"
    have new: "map_ok rs b [?n] (region_end ?r)" by (rule map_ok_merge [OF b(2) r(1) True])
    have "region_end ?r \<le> m" using r(2) chain_le by (auto simp: map_ok_def)
    moreover have "reg_base ?l + (reg_len ?l + reg_len ?r) = region_end ?r"
      using new by (simp add: map_ok_def)
    ultimately have "reg_len ?l + reg_len ?r \<le> USIZE_MAX" using Suc.prems(8) by linarith
    then have step: "merge_loop arr i n k = merge_loop ?arr (i + 1) n k"
      using i True Suc.prems(1)
      by (simp add: merge_loop.simps [of arr i n k] rindex_def rset_def usub_def uadd_def)
    have tk': "take k ?arr = ?out @ [?n]"
      using Suc.prems(1) i
      by (metis Suc_diff_1 length_list_update nth_list_update_eq take_Suc_conv_app_nth take_update_cancel order_refl)
    have "drop (i + 1) (take n ?arr) = drop (i + 1) (take n arr)"
      using Suc.prems(1,2) by (simp add: take_update_swap)
    moreover have "map_ok rs 0 (take k ?arr) (region_end ?r)" using tk' b(1) new by (auto simp: map_ok_append)
    moreover have "distinct_adj (map reg_typ (take k ?arr))" using Suc.prems(7) unfolding tk tk' by simp
    ultimately show ?thesis
      using Suc.hyps(1) [OF i(4), of k ?arr "region_end ?r"] Suc.prems step r(2) i by simp
  next
    case False
    let ?arr = "arr[k := ?r]"
    have kl: "k < length arr" using Suc.prems i by simp
    have step: "merge_loop arr i n k = merge_loop ?arr (i + 1) n (k + 1)"
      using i False Suc.prems(1) kl
      by (simp add: merge_loop.simps [of arr i n k] rindex_def rset_def usub_def)
    have tk': "take (k + 1) ?arr = take k arr @ [?r]"
      using kl by (simp add: take_Suc_conv_app_nth)
    have "drop (i + 1) (take n ?arr) = drop (i + 1) (take n arr)"
      using Suc.prems(2) by (simp add: take_update_swap)
    moreover have "map_ok rs 0 (take (k + 1) ?arr) (region_end ?r)"
      using tk' Suc.prems(5) r(1) by (auto simp: map_ok_append)
    moreover have "distinct_adj (map reg_typ (take (k + 1) ?arr))"
      using Suc.prems(7) False distinct_adj_snoc [of "map reg_typ (take k arr)" "reg_typ ?r"]
      unfolding tk' by (simp add: tk)
    ultimately show ?thesis
      using Suc.hyps(1) [OF i(4), of "k + 1" ?arr "region_end ?r"] Suc.prems step r(2) i by simp
  qed
qed

lemma into_non_overlapping_ok:
  assumes cnt: "count a \<le> length (regions a)" "length (regions a) < USIZE_MAX"
    and ok: "\<forall>r \<in> set (active a). region_wf r \<and> alignable r"
    and room: "card (region_boundaries (aligned_regions a)) \<le> length (regions a)"
  shows "\<exists>res. into_non_overlapping a = Some res \<and> count res \<le> length (regions res) \<and>
    length (regions res) = length (regions a) \<and>
    map_ok (aligned_regions a) 0 (active res)
      (if aligned_regions a = [] then 0 else Max (region_end ` set (aligned_regions a))) \<and>
    distinct_adj (map reg_typ (active res))"
proof -
  let ?rs = "aligned_regions a"
  let ?m = "if ?rs = [] then 0 else Max (region_end ` set ?rs)"
  obtain arr' cnt' where al: "align_loop (regions a) 0 (count a) 0 = Some (arr', cnt')"
      "length arr' = length (regions a)" "cnt' \<le> count a" "take cnt' arr' = ?rs"
    using align_loop_ok [of 0 "count a" "regions a" 0] cnt ok
    by (auto simp: active_def aligned_regions_def)
  have act: "array_deref \<lparr>regions = arr', count = cnt'\<rparr> = Some ?rs"
    using al cnt by (simp add: array_deref_def)
  have wf: "\<forall>r \<in> set ?rs. region_wf r"
    using ok aligned_region_wf by (auto simp: aligned_regions_def)
  have pa: "\<forall>r \<in> set ?rs. page_aligned r"
    using aligned_region_page_aligned by (auto simp: aligned_regions_def)
  have mx: "max_region_end ?rs = Some (if ?rs = [] then None else Some ?m)"
    using max_region_end_wf [OF wf] by auto
  let ?r0 = "array_new (length (regions a))"
  have into: "into_non_overlapping a = do {
     result \<leftarrow> sweep_loop ?rs ?m 0 ?r0;
     if count result = 0 then Some result
     else do { (ms, merged) \<leftarrow> merge_loop (regions result) 1 (count result) 1;
               Some \<lparr>regions = ms, count = merged\<rparr> } }"
    using al(1) act mx by (simp add: into_non_overlapping_def)
  show ?thesis
  proof (cases "?rs = []")
    case True
    then have "sweep_loop ?rs ?m 0 ?r0 = Some ?r0" by (simp add: sweep_loop.simps [of "[]" 0 0 ?r0])
    then show ?thesis using into True by (simp add: array_new_def active_def)
  next
    case False
    have "Max (region_end ` set ?rs) \<in> region_end ` set ?rs" using False by (intro Max_in) auto
    then obtain r where "r \<in> set ?rs" "Max (region_end ` set ?rs) = region_end r" by (rule imageE)
    then have m: "\<exists>r \<in> set ?rs. region_end r = ?m" using False by (intro bexI [of _ r]) simp_all
    have "{b \<in> region_boundaries ?rs. b \<le> 0} = {}" by (auto simp: region_boundaries_def)
    then have c0: "count ?r0 = card {b \<in> region_boundaries ?rs. b \<le> 0}" by (simp add: array_new_def)
    have room0: "card (region_boundaries ?rs) \<le> length (regions ?r0)" "length (regions ?r0) < USIZE_MAX"
      using room cnt by (simp_all add: array_new_def)
    obtain res out where out: "sweep_loop ?rs ?m 0 ?r0 = Some res" "active res = active ?r0 @ out"
        "count res = count ?r0 + length out" "count res \<le> length (regions res)"
        "length (regions res) = length (regions ?r0)"
        "chain 0 out ?m" "typed_by ?rs out" "\<forall>r \<in> set out. page_aligned r"
      using sweep_loop_ok [OF wf m pa room0 c0] by auto
    have mo: "map_ok ?rs 0 (active res) ?m" using out by (simp add: map_ok_def active_def array_new_def)
    have "?m > 0"
    proof -
      obtain r where "r \<in> set ?rs" "region_end r = ?m" using m by blast
      then show ?thesis by (auto simp: aligned_regions_def region_end_def)
    qed
    then have ne: "count res \<noteq> 0" using out(6) out(3) by (cases out) auto
    have mle: "?m \<le> USIZE_MAX" using m wf by (auto simp: region_wf_def region_end_def)
    obtain x where x: "take 1 (regions res) = [x]"
      using ne out(4) by (cases "regions res") auto
    have "active res = take 1 (regions res) @ drop 1 (take (count res) (regions res))"
      using ne by (metis active_def append_take_drop_id drop_take min.absorb1 take_take less_one not_less)
    then obtain b where b: "map_ok ?rs 0 (take 1 (regions res)) b"
        "map_ok ?rs b (drop 1 (take (count res) (regions res))) ?m"
      using mo by (auto simp: map_ok_append)
    obtain ms k where k: "merge_loop (regions res) 1 (count res) 1 = Some (ms, k)"
        "length ms = length (regions res)" "0 < k" "k \<le> count res" "map_ok ?rs 0 (take k ms) ?m"
        "distinct_adj (map reg_typ (take k ms))"
      using merge_loop_ok [of 1 1 "count res" "regions res" ?rs b ?m] ne out(4) b mle x by auto
    have "into_non_overlapping a = Some \<lparr>regions = ms, count = k\<rparr>"
      using into out(1) ne k(1) by simp
    then show ?thesis using k out(4,5) by (auto simp: active_def array_new_def)
  qed
qed

lemma card_boundaries_le: "card (region_boundaries rs) \<le> 2 * length rs"
proof -
  have "card (region_boundaries rs) \<le> card (reg_base ` set rs \<union> region_end ` set rs)"
    unfolding region_boundaries_def by (intro card_mono) auto
  also have "\<dots> \<le> card (reg_base ` set rs) + card (region_end ` set rs)" by (rule card_Un_le)
  also have "\<dots> \<le> card (set rs) + card (set rs)" by (intro add_mono card_image_le) auto
  also have "\<dots> \<le> 2 * length rs" using card_length [of rs] by simp
  finally show ?thesis .
qed

section \<open>Properties\<close>

text \<open>The array of the unit test \<open>sort_full_non_overlapping\<close>.\<close>

definition demo_regions :: MemoryRegionArray where
  "demo_regions = \<lparr>regions = [region 0 4097 Usable, region 4095 4098 Usable, region 8192 20480 Usable,
     region 12289 4094 BadMemory, region 36864 8192 Usable] @ replicate 59 region_bad, count = 5\<rparr>"

text \<open>C35: \<open>into_non_overlapping\<close> computes the memory map it documents.  When aligning does not overflow
  and the aligned regions have at most \<open>LEN\<close> distinct positive boundaries, the call returns; the result
  is a gap-free sequence of nonempty page-aligned regions from address 0 to the largest aligned end,
  every address has the most restrictive type of the aligned regions that cover it (\<open>Unknown\<close> when there
  is none), and neighbouring regions have different types.\<close>

theorem into_non_overlapping_partition:
  assumes "count a \<le> length (regions a)" "length (regions a) < USIZE_MAX"
    "\<forall>r \<in> set (active a). region_wf r \<and> alignable r"
    "card (region_boundaries (aligned_regions a)) \<le> length (regions a)"
  shows "\<exists>res. into_non_overlapping a = Some res \<and> count res \<le> length (regions res) \<and>
    chain 0 (active res)
      (if aligned_regions a = [] then 0 else Max (region_end ` set (aligned_regions a))) \<and>
    (\<forall>r \<in> set (active res). page_aligned r) \<and>
    (\<forall>r \<in> set (active res). \<forall>addr. covers r addr \<longrightarrow> reg_typ r = selected_type (aligned_regions a) addr) \<and>
    distinct_adj (map reg_typ (active res))"
  using into_non_overlapping_ok [OF assms] unfolding map_ok_def typed_by_def by blast

theorem into_non_overlapping_partition_witness:
  "\<exists>res. into_non_overlapping demo_regions = Some res \<and> distinct_adj (map reg_typ (active res)) \<and>
     (\<forall>r \<in> set (active res). page_aligned r)"
proof -
  have len: "length (regions demo_regions) = 64" and cnt: "count demo_regions = 5"
    by (simp_all add: demo_regions_def)
  have ok: "\<forall>r \<in> set (active demo_regions). region_wf r \<and> alignable r"
    by (simp add: active_def demo_regions_def region_wf_def alignable_def region_end_def region_def
        USIZE_MAX_def PAGE_SIZE_def)
  have "length (aligned_regions demo_regions) \<le> 5"
    using cnt length_filter_le [of _ "map aligned_region (active demo_regions)"]
    by (simp add: aligned_regions_def active_def)
  then have "card (region_boundaries (aligned_regions demo_regions)) \<le> 64"
    using card_boundaries_le [of "aligned_regions demo_regions"] by linarith
  then show ?thesis
    using into_non_overlapping_partition [of demo_regions] len cnt ok by (auto simp: USIZE_MAX_def)
qed

text \<open>Two overlapping usable regions in an array of capacity two.\<close>

definition tight_regions :: MemoryRegionArray where
  "tight_regions = \<lparr>regions = [region 0 8192 Usable, region 4096 8192 Usable], count = 2\<rparr>"

text \<open>The capacity limit applies to the pieces before merging.  The documented panic condition is
  that the number of output regions exceeds \<open>LEN\<close>; on this input the partition of \<open>[0, 12288)\<close> is one
  usable region, yet the call panics for \<open>LEN = 2\<close>, because the three pieces of the sweep are pushed
  before equal neighbours are merged.\<close>

lemma into_non_overlapping_capacity_panic:
  "into_non_overlapping tight_regions = None \<and>
   chain 0 [region 0 12288 Usable] (Max (region_end ` set (aligned_regions tight_regions))) \<and>
   typed_by (aligned_regions tight_regions) [region 0 12288 Usable] \<and>
   length [region 0 12288 Usable] \<le> length (regions tight_regions)"
proof -
  let ?r1 = "region 0 8192 Usable" and ?r2 = "region 4096 8192 Usable"
  let ?rs = "[?r1, ?r2]"
  have a: "aligned_region ?r1 = ?r1" "aligned_region ?r2 = ?r2"
    by (simp_all add: aligned_region_def nat_align_up_def nat_align_down_def PAGE_SIZE_def)
  have al: "as_aligned ?r1 = Some ?r1" "as_aligned ?r2 = Some ?r2"
    using as_aligned_eq [of ?r1] as_aligned_eq [of ?r2] a
    by (simp_all add: region_wf_def alignable_def USIZE_MAX_def PAGE_SIZE_def)
  have ar: "aligned_regions tight_regions = ?rs"
    by (simp add: aligned_regions_def active_def tight_regions_def a)
  have loop: "align_loop ?rs 0 2 0 = Some (?rs, 2)"
    by (simp add: align_loop.simps [of ?rs 0 2 0] align_loop.simps [of ?rs "Suc 0" 2 "Suc 0"]
        align_loop.simps [of ?rs 2 2 2] rindex_def rset_def al reg_is_empty_def numeral_2_eq_2 [symmetric])
  have wf: "\<forall>r \<in> set ?rs. region_wf r" by (simp add: region_wf_def USIZE_MAX_def)
  note ev = with_ends_wf [OF wf] most_restrictive_type_def next_region_boundary_def max_region_end_def
  have e: "max_region_end ?rs = Some (Some 12288)"
    by (simp add: ev list_max_def)
  have s: "most_restrictive_type ?rs 0 = Some (Some Usable)" "next_region_boundary ?rs 0 = Some (Some 4096)"
    "most_restrictive_type ?rs 4096 = Some (Some Usable)" "next_region_boundary ?rs 4096 = Some (Some 8192)"
    "most_restrictive_type ?rs 8192 = Some (Some Usable)" "next_region_boundary ?rs 8192 = Some (Some 12288)"
    by (simp_all add: ev list_min_def)
  have sw: "sweep_loop ?rs 12288 0 (array_new 2) = None"
    by (simp add: sweep_loop.simps [of ?rs 12288 0] sweep_loop.simps [of ?rs 12288 4096]
        sweep_loop.simps [of ?rs 12288 8192] s array_new_def array_push_def rset_def uadd_def usub_def
        USIZE_MAX_def numeral_2_eq_2)
  have n: "into_non_overlapping tight_regions = None"
    using loop e sw
    by (simp add: into_non_overlapping_def tight_regions_def array_deref_def numeral_2_eq_2)
  have t: "typed_by ?rs [region 0 12288 Usable]"
  proof -
    have "selected_type ?rs addr = Usable" if "addr < 12288" for addr
    proof -
      have ex: "\<exists>r \<in> set ?rs. covers r addr"
        using that by (cases "addr < 8192") (simp_all add: covers_def)
      moreover have "reg_typ r = Usable" if "r \<in> set ?rs" for r using that by auto
      ultimately have "reg_typ ` {r \<in> set ?rs. covers r addr} = {Usable}" by force
      then show ?thesis using ex by (simp add: selected_type_def)
    qed
    then show ?thesis by (auto simp: typed_by_def covers_def)
  qed
  show ?thesis using n t by (simp add: ar) (simp add: tight_regions_def)
qed

end
