(* ===== verification/Paging.thy ===== *)
theory Paging
  imports Align_Ext Mm_Layout
begin

text \<open>
  The paging arithmetic: \<open>page_size\<close> and \<open>nr_subpage_per_huge\<close> of \<open>ostd/src/mm/mod.rs\<close>, and the address
  computations of \<open>ostd/src/mm/page_table/mod.rs\<close> (index of an address at a level, the address range a
  page-table configuration manages, sign extension, \<open>largest_pages\<close>).  The trait \<open>PagingConstsTrait\<close> is the
  record \<open>PagingConsts\<close>; its documented requirements are the locale \<open>paging\<close>, in which the lemmas about the
  arithmetic are proved, and which is interpreted for the x86-64 and the RISC-V constants.
\<close>

section \<open>The constants\<close>

record PagingConsts =
  BASE_PAGE_SIZE :: usize
  PC_NR_LEVELS :: nat
  HIGHEST_TRANSLATION_LEVEL :: nat
  PTE_SIZE :: usize
  ADDRESS_WIDTH :: usize
  VA_SIGN_EXT :: bool

definition x86_paging :: PagingConsts where
  "x86_paging = \<lparr>BASE_PAGE_SIZE = 4096, PC_NR_LEVELS = 4, HIGHEST_TRANSLATION_LEVEL = 2, PTE_SIZE = 8,
     ADDRESS_WIDTH = 48, VA_SIGN_EXT = True\<rparr>"

lemma x86_paging_sel [simp]:
  "BASE_PAGE_SIZE x86_paging = 4096" "PC_NR_LEVELS x86_paging = 4"
  "HIGHEST_TRANSLATION_LEVEL x86_paging = 2" "PTE_SIZE x86_paging = 8"
  "ADDRESS_WIDTH x86_paging = 48" "VA_SIGN_EXT x86_paging"
  by (simp_all add: x86_paging_def)

definition riscv_paging :: PagingConsts where
  "riscv_paging = \<lparr>BASE_PAGE_SIZE = 4096, PC_NR_LEVELS = 4, HIGHEST_TRANSLATION_LEVEL = 4, PTE_SIZE = 8,
     ADDRESS_WIDTH = 48, VA_SIGN_EXT = True\<rparr>"

text \<open>The part of \<open>PageTableConfig\<close> that the address computations use.\<close>

record PtRange =
  TOP_LEVEL_INDEX_START :: usize
  TOP_LEVEL_INDEX_END :: usize

definition user_range :: PtRange where
  "user_range = \<lparr>TOP_LEVEL_INDEX_START = 0, TOP_LEVEL_INDEX_END = 256\<rparr>"

definition kernel_range :: PtRange where
  "kernel_range = \<lparr>TOP_LEVEL_INDEX_START = 256, TOP_LEVEL_INDEX_END = 512\<rparr>"

section \<open>The computations\<close>

definition nr_subpage_per_huge :: "PagingConsts \<Rightarrow> usize option" where
  "nr_subpage_per_huge C = (if PTE_SIZE C = 0 then None else Some (BASE_PAGE_SIZE C div PTE_SIZE C))"

definition page_size :: "PagingConsts \<Rightarrow> nat \<Rightarrow> usize option" where
  "page_size C level = do {
     nr \<leftarrow> nr_subpage_per_huge C;
     lg \<leftarrow> uilog2 nr;
     l \<leftarrow> usub level 1;
     s \<leftarrow> umul lg l;
     ushl (BASE_PAGE_SIZE C) s
   }"

definition nr_pte_index_bits :: "PagingConsts \<Rightarrow> usize option" where
  "nr_pte_index_bits C = do { nr \<leftarrow> nr_subpage_per_huge C; uilog2 nr }"

definition pte_index_bit_offset :: "PagingConsts \<Rightarrow> nat \<Rightarrow> usize option" where
  "pte_index_bit_offset C level = do {
     lg \<leftarrow> uilog2 (BASE_PAGE_SIZE C);
     bits \<leftarrow> nr_pte_index_bits C;
     l \<leftarrow> usub level 1;
     m \<leftarrow> umul bits l;
     uadd lg m
   }"

definition pte_index :: "PagingConsts \<Rightarrow> Vaddr \<Rightarrow> nat \<Rightarrow> usize option" where
  "pte_index C va level = do {
     off \<leftarrow> pte_index_bit_offset C level;
     x \<leftarrow> ushr va off;
     nr \<leftarrow> nr_subpage_per_huge C;
     m \<leftarrow> usub nr 1;
     Some (x AND m)
   }"

definition top_level_index_width :: "PagingConsts \<Rightarrow> usize option" where
  "top_level_index_width C = do {
     off \<leftarrow> pte_index_bit_offset C (PC_NR_LEVELS C);
     usub (ADDRESS_WIDTH C) off
   }"

definition pt_va_range_start :: "PagingConsts \<Rightarrow> PtRange \<Rightarrow> Vaddr option" where
  "pt_va_range_start C R = do {
     off \<leftarrow> pte_index_bit_offset C (PC_NR_LEVELS C);
     ushl (TOP_LEVEL_INDEX_START R) off
   }"

definition pt_va_range_end :: "PagingConsts \<Rightarrow> PtRange \<Rightarrow> Vaddr option" where
  "pt_va_range_end C R = do {
     off \<leftarrow> pte_index_bit_offset C (PC_NR_LEVELS C);
     shifted \<leftarrow> ushl (TOP_LEVEL_INDEX_END R) off;
     Some (if shifted = 0 then USIZE_MAX else shifted - 1)
   }"

definition sign_bit_of_va :: "PagingConsts \<Rightarrow> Vaddr \<Rightarrow> bool option" where
  "sign_bit_of_va C va = do {
     w \<leftarrow> usub (ADDRESS_WIDTH C) 1;
     x \<leftarrow> ushr va w;
     Some ((x AND 1) \<noteq> 0)
   }"

definition apply_sign_ext :: "PagingConsts \<Rightarrow> Vaddr \<Rightarrow> Vaddr option" where
  "apply_sign_ext C va = do {
     low_bit \<leftarrow> ushl 1 (ADDRESS_WIDTH C);
     low_mask \<leftarrow> usub low_bit 1;
     let sign_ext_mask = USIZE_MAX XOR low_mask;
     Some (va OR sign_ext_mask)
   }"

text \<open>The inclusive range \<open>start..=end\<close> of the addresses a configuration manages.\<close>

definition vaddr_range :: "PagingConsts \<Rightarrow> PtRange \<Rightarrow> (Vaddr \<times> Vaddr) option" where
  "vaddr_range C R = do {
     start \<leftarrow> pt_va_range_start C R;
     end \<leftarrow> pt_va_range_end C R;
     sgn \<leftarrow> sign_bit_of_va C start;
     if VA_SIGN_EXT C \<and> sgn
     then do { s \<leftarrow> apply_sign_ext C start; e \<leftarrow> apply_sign_ext C end; Some (s, e) }
     else Some (start, end)
   }"

definition is_valid_range :: "PagingConsts \<Rightarrow> PtRange \<Rightarrow> Vaddr \<times> Vaddr \<Rightarrow> bool option" where
  "is_valid_range C R r = do {
     (s, e) \<leftarrow> vaddr_range C R;
     Some (fst r < snd r \<and> s \<le> fst r \<and> snd r - 1 \<le> e)
   }"

text \<open>The closure of \<open>largest_pages\<close>: the \<open>while\<close> loop that lowers the level, and the items produced.
  The remainder by a page size of zero panics.\<close>

fun lower_level :: "PagingConsts \<Rightarrow> nat \<Rightarrow> Vaddr \<Rightarrow> Paddr \<Rightarrow> usize \<Rightarrow> nat option" where
  "lower_level C level va pa len = do {
     ps \<leftarrow> page_size C level;
     rassert (ps > len \<or> ps \<noteq> 0);
     if ps > len \<or> va mod ps \<noteq> 0 \<or> pa mod ps \<noteq> 0
     then (case level of 0 \<Rightarrow> None | Suc l \<Rightarrow> lower_level C l va pa len)
     else Some level
   }"

declare lower_level.simps [simp del]

lemma lower_level_SomeD:
  "lower_level C level va pa len = Some l \<Longrightarrow> page_size C l = Some ps \<Longrightarrow>
     0 < ps \<and> ps \<le> len \<and> ps dvd va \<and> ps dvd pa \<and> l \<le> level"
proof (induction level)
  case 0
  then show ?case
    by (auto simp: lower_level.simps [of C 0] bind_eq_Some_conv split: if_splits)
next
  case (Suc level)
  then show ?case
    by (auto simp: lower_level.simps [of C "Suc level"] bind_eq_Some_conv split: if_splits)
qed

function largest_pages_items ::
    "PagingConsts \<Rightarrow> Vaddr \<Rightarrow> Paddr \<Rightarrow> usize \<Rightarrow> (Paddr \<times> nat) list option" where
  "largest_pages_items C va pa len = (
     if len = 0 then Some []
     else do {
       level \<leftarrow> lower_level C (HIGHEST_TRANSLATION_LEVEL C) va pa len;
       ps \<leftarrow> page_size C level;
       va' \<leftarrow> uadd va ps;
       pa' \<leftarrow> uadd pa ps;
       len' \<leftarrow> usub len ps;
       rest \<leftarrow> largest_pages_items C va' pa' len';
       Some ((pa, level) # rest)
     })"
  by pat_completeness auto
termination
  by (relation "measure (\<lambda>(C, va, pa, len). len)") (auto simp: checked dest: lower_level_SomeD)

declare largest_pages_items.simps [simp del]

definition largest_pages ::
    "PagingConsts \<Rightarrow> PtRange \<Rightarrow> Vaddr \<Rightarrow> Paddr \<Rightarrow> usize \<Rightarrow> (Paddr \<times> nat) list option" where
  "largest_pages C R va pa len = do {
     rassert (BASE_PAGE_SIZE C \<noteq> 0 \<and> va mod BASE_PAGE_SIZE C = 0);
     rassert (pa mod BASE_PAGE_SIZE C = 0);
     rassert (len mod BASE_PAGE_SIZE C = 0);
     e \<leftarrow> uadd va len;
     ok \<leftarrow> is_valid_range C R (va, e);
     rassert ok;
     largest_pages_items C va pa len
   }"

section \<open>The laws of the constants\<close>

text \<open>\<open>lemma_paging_consts_requirements\<close> of the trait, with the two logarithms named: pages have \<open>2 ^ k\<close>
  bytes and nodes \<open>2 ^ b\<close> entries.\<close>

definition level_bytes :: "nat \<Rightarrow> nat \<Rightarrow> nat \<Rightarrow> nat" where
  "level_bytes k b l = 2 ^ (k + b * (l - 1))"

text \<open>A tiling of a physical range: the items follow each other, each is aligned in both address spaces
  and of the largest level up to \<open>H\<close> that fits; \<open>ps\<close> is the page size of a level.\<close>

fun tiles :: "(nat \<Rightarrow> nat) \<Rightarrow> nat \<Rightarrow> (Paddr \<times> nat) list \<Rightarrow> Vaddr \<Rightarrow> Paddr \<Rightarrow> usize \<Rightarrow> bool" where
  "tiles ps H [] va pa len \<longleftrightarrow> len = 0"
| "tiles ps H ((p, l) # items) va pa len \<longleftrightarrow>
     p = pa \<and> 1 \<le> l \<and> l \<le> H \<and> ps l \<le> len \<and> ps l dvd va \<and> ps l dvd pa \<and>
     (\<forall>m. l < m \<and> m \<le> H \<longrightarrow> \<not> (ps m \<le> len \<and> ps m dvd va \<and> ps m dvd pa)) \<and>
     tiles ps H items (va + ps l) (pa + ps l) (len - ps l)"

locale paging =
  fixes C :: PagingConsts and k b :: nat
  assumes base_pow: "BASE_PAGE_SIZE C = 2 ^ k"
    and pte_size_pos: "0 < PTE_SIZE C"
    and nr_pow: "BASE_PAGE_SIZE C div PTE_SIZE C = 2 ^ b"
    and k_pos: "0 < k"
    and levels: "0 < HIGHEST_TRANSLATION_LEVEL C" "HIGHEST_TRANSLATION_LEVEL C \<le> PC_NR_LEVELS C"
      "PC_NR_LEVELS C < 255"
    and width: "k + b * PC_NR_LEVELS C \<le> ADDRESS_WIDTH C" "ADDRESS_WIDTH C < 64"
begin

abbreviation psz :: "nat \<Rightarrow> nat" where
  "psz \<equiv> level_bytes k b"

lemmas psz_def = level_bytes_def

lemma psz_pos [simp]: "0 < psz l"
  by (simp add: psz_def)

lemma psz_1: "psz 1 = 2 ^ k"
  by (simp add: psz_def)

lemma psz_Suc: "1 \<le> l \<Longrightarrow> psz (Suc l) = psz l * 2 ^ b"
  by (cases l) (simp_all add: psz_def power_add add.assoc add.commute mult.commute)

lemma psz_dvd: "1 \<le> l \<Longrightarrow> l \<le> m \<Longrightarrow> psz l dvd psz m"
proof -
  assume "1 \<le> l" "l \<le> m"
  then have "k + b * (l - 1) \<le> k + b * (m - 1)" by (simp add: diff_le_mono)
  then show ?thesis unfolding psz_def by (rule le_imp_power_dvd)
qed

lemma psz_mono: "1 \<le> l \<Longrightarrow> l \<le> m \<Longrightarrow> psz l \<le> psz m"
  by (rule dvd_imp_le [OF psz_dvd]) simp_all

lemma offset_lt: "l \<le> PC_NR_LEVELS C + 1 \<Longrightarrow> k + b * (l - 1) < 64"
proof -
  assume "l \<le> PC_NR_LEVELS C + 1"
  then have "b * (l - 1) \<le> b * PC_NR_LEVELS C" by (intro mult_le_mono2) simp
  then show ?thesis using width by linarith
qed

lemma psz_usize: "l \<le> PC_NR_LEVELS C + 1 \<Longrightarrow> psz l < 2 ^ 64"
  unfolding psz_def by (rule power_strict_increasing [OF offset_lt]) simp_all

lemma nr_subpage [simp]: "nr_subpage_per_huge C = Some (2 ^ b)"
  using pte_size_pos nr_pow by (simp add: nr_subpage_per_huge_def)

lemma page_size_eq: "1 \<le> l \<Longrightarrow> l \<le> PC_NR_LEVELS C + 1 \<Longrightarrow> page_size C l = Some (psz l)"
  using offset_lt [of l] psz_usize [of l]
  by (simp add: page_size_def usub_def umul_def ushl_def USIZE_MAX_def base_pow psz_def power_add)

lemma pte_index_bit_offset_eq:
  "1 \<le> l \<Longrightarrow> l \<le> PC_NR_LEVELS C + 1 \<Longrightarrow> pte_index_bit_offset C l = Some (k + b * (l - 1))"
  using offset_lt [of l]
  by (simp add: pte_index_bit_offset_def nr_pte_index_bits_def base_pow usub_def umul_def uadd_def USIZE_MAX_def)

lemma pte_index_eq:
  "1 \<le> l \<Longrightarrow> l \<le> PC_NR_LEVELS C + 1 \<Longrightarrow> pte_index C va l = Some (va div psz l mod 2 ^ b)"
  using offset_lt [of l] take_bit_eq_mask [of b "va div psz l"]
  by (simp add: pte_index_def pte_index_bit_offset_eq ushr_def usub_def psz_def take_bit_eq_mod
      mask_eq_exp_minus_1)

lemma page_size_Suc: "1 \<le> l \<Longrightarrow> l \<le> PC_NR_LEVELS C \<Longrightarrow> page_size C (l + 1) = Some (psz l * 2 ^ b)"
  by (simp add: page_size_eq psz_Suc)

lemma align_down_psz:
  "va \<le> USIZE_MAX \<Longrightarrow> l \<le> PC_NR_LEVELS C + 1 \<Longrightarrow>
     usize_align_down va (psz l) = Some (va div psz l * psz l)"
  using usize_align_down_eq [of va "psz l" "k + b * (l - 1)"] offset_lt [of l] k_pos
  by (simp add: psz_def nat_align_down_def)

section \<open>Largest pages\<close>

lemma lower_level_ok:
  assumes "1 \<le> level" "level \<le> PC_NR_LEVELS C" "psz 1 dvd va" "psz 1 dvd pa" "psz 1 \<le> len"
  shows "\<exists>l. lower_level C level va pa len = Some l \<and> 1 \<le> l \<and> l \<le> level \<and>
    psz l \<le> len \<and> psz l dvd va \<and> psz l dvd pa \<and>
    (\<forall>m. l < m \<and> m \<le> level \<longrightarrow> \<not> (psz m \<le> len \<and> psz m dvd va \<and> psz m dvd pa))"
  using assms
proof (induction level)
  case (Suc level)
  have ps: "page_size C (Suc level) = Some (psz (Suc level))" using Suc.prems by (simp add: page_size_eq)
  show ?case
  proof (cases "psz (Suc level) \<le> len \<and> psz (Suc level) dvd va \<and> psz (Suc level) dvd pa")
    case True
    then have "lower_level C (Suc level) va pa len = Some (Suc level)"
      using ps by (simp add: lower_level.simps [of C "Suc level"] dvd_eq_mod_eq_0)
    then show ?thesis using True by auto
  next
    case False
    then have "lower_level C (Suc level) va pa len = lower_level C level va pa len"
      using ps by (auto simp: lower_level.simps [of C "Suc level"] dvd_eq_mod_eq_0)
    moreover have "1 \<le> level" using False Suc.prems by (cases level) auto
    ultimately show ?thesis using Suc False by (fastforce simp: le_Suc_eq)
  qed
qed simp

lemma largest_pages_items_ok:
  assumes "psz 1 dvd va" "psz 1 dvd pa" "psz 1 dvd len" "va + len \<le> USIZE_MAX" "pa + len \<le> USIZE_MAX"
  shows "\<exists>items. largest_pages_items C va pa len = Some items \<and> tiles psz (HIGHEST_TRANSLATION_LEVEL C) items va pa len"
  using assms
proof (induction len arbitrary: va pa rule: less_induct)
  case (less len)
  show ?case
  proof (cases "len = 0")
    case True
    then show ?thesis by (simp add: largest_pages_items.simps [of C va pa 0])
  next
    case False
    then have "psz 1 \<le> len" using less.prems by (simp add: dvd_imp_le)
    then obtain l where l: "lower_level C (HIGHEST_TRANSLATION_LEVEL C) va pa len = Some l" "1 \<le> l"
        "l \<le> HIGHEST_TRANSLATION_LEVEL C" "psz l \<le> len" "psz l dvd va" "psz l dvd pa"
        "\<forall>m. l < m \<and> m \<le> HIGHEST_TRANSLATION_LEVEL C \<longrightarrow> \<not> (psz m \<le> len \<and> psz m dvd va \<and> psz m dvd pa)"
      using lower_level_ok [of "HIGHEST_TRANSLATION_LEVEL C" va pa len] levels less.prems by auto
    have d: "psz 1 dvd psz l" using l(2) by (intro psz_dvd) auto
    obtain items where items: "largest_pages_items C (va + psz l) (pa + psz l) (len - psz l) = Some items"
        "tiles psz (HIGHEST_TRANSLATION_LEVEL C) items (va + psz l) (pa + psz l) (len - psz l)"
      using less.IH [of "len - psz l" "va + psz l" "pa + psz l"] less.prems False l(4) d
      by (auto simp: dvd_diff_nat)
    have "largest_pages_items C va pa len = Some ((pa, l) # items)"
      using False l items(1) less.prems levels
      by (simp add: largest_pages_items.simps [of C va pa len] page_size_eq uadd_def usub_def)
    then show ?thesis using l items(2) by auto
  qed
qed

end

interpretation x86: paging x86_paging 12 9
  by unfold_locales simp_all

interpretation riscv: paging riscv_paging 12 9
  by unfold_locales (simp_all add: riscv_paging_def)

section \<open>Properties\<close>

lemma x86_page_size:
  "page_size x86_paging 1 = Some 0x1000" "page_size x86_paging 2 = Some 0x200000"
  "page_size x86_paging 3 = Some 0x40000000" "page_size x86_paging 4 = Some 0x8000000000"
  by (simp_all add: x86.page_size_eq level_bytes_def)

lemma x86_offset: "pte_index_bit_offset x86_paging 4 = Some 39"
  using x86.pte_index_bit_offset_eq [of 4] by simp

lemma x86_range_start: "pt_va_range_start x86_paging R = Some (TOP_LEVEL_INDEX_START R * 2 ^ 39 mod 2 ^ 64)"
  by (simp add: pt_va_range_start_def x86_offset ushl_def)

lemma x86_range_end: "pt_va_range_end x86_paging R =
    Some (if TOP_LEVEL_INDEX_END R * 2 ^ 39 mod 2 ^ 64 = 0 then USIZE_MAX
          else TOP_LEVEL_INDEX_END R * 2 ^ 39 mod 2 ^ 64 - 1)"
  by (simp add: pt_va_range_end_def x86_offset ushl_def)

lemma x86_vaddr_range:
  "vaddr_range x86_paging user_range = Some (0, 0x7fffffffffff)"
  "vaddr_range x86_paging kernel_range = Some (0xffff800000000000, 0xffffffffffffffff)"
  by (simp_all add: vaddr_range_def x86_range_start x86_range_end user_range_def kernel_range_def
      sign_bit_of_va_def apply_sign_ext_def ushr_def ushl_def usub_def USIZE_MAX_def)

text \<open>Which ranges a cursor may be created for on x86-64.  A user page table accepts exactly the
  nonempty ranges of the lower canonical half, the kernel page table exactly the nonempty ranges that
  start in the upper canonical half, and no range is valid for both.\<close>

lemma x86_valid_ranges:
  "is_valid_range x86_paging user_range (s, e) = Some (s < e \<and> e \<le> 0x800000000000) \<and>
   is_valid_range x86_paging kernel_range (s, e) =
     Some (s < e \<and> 0xffff800000000000 \<le> s \<and> e \<le> 2 ^ 64) \<and>
   \<not> (is_valid_range x86_paging user_range (s, e) = Some True \<and>
      is_valid_range x86_paging kernel_range (s, e) = Some True)"
  by (auto simp: is_valid_range_def x86_vaddr_range)

text \<open>\<open>largest_pages\<close> tiles the requested range.  For every architecture whose constants meet the
  trait's requirements and every aligned range that the configuration manages, the iterator does not
  panic and its items follow each other without a gap from \<open>pa\<close> to \<open>pa + len\<close>; each item is aligned both
  virtually and physically and no larger level up to the highest translation level would fit there.\<close>

lemma largest_pages_tiles:
  assumes "paging C k b" "2 ^ k dvd va" "2 ^ k dvd pa" "2 ^ k dvd len"
    "is_valid_range C R (va, va + len) = Some True" "va + len \<le> USIZE_MAX" "pa + len \<le> USIZE_MAX"
  shows "\<exists>items. largest_pages C R va pa len = Some items \<and>
    tiles (level_bytes k b) (HIGHEST_TRANSLATION_LEVEL C) items va pa len"
proof -
  have base: "BASE_PAGE_SIZE C = 2 ^ k" by (rule paging.base_pow [OF assms(1)])
  have one: "level_bytes k b 1 = 2 ^ k" by (simp add: level_bytes_def)
  obtain items where "largest_pages_items C va pa len = Some items"
      "tiles (level_bytes k b) (HIGHEST_TRANSLATION_LEVEL C) items va pa len"
    using paging.largest_pages_items_ok [OF assms(1), of va pa len] assms one by auto
  then show ?thesis using assms base by (simp add: largest_pages_def uadd_def dvd_eq_mod_eq_0)
qed

end
