(* ===== verification/Page_Prop.thy ===== *)
theory Page_Prop
  imports Paging
begin

text \<open>
  Page properties (\<open>ostd/src/mm/page_prop.rs\<close>) and page-table entries.  The trait
  \<open>PageTableEntryTrait\<close> of \<open>ostd/src/mm/page_table/mod.rs\<close> is the record \<open>pte_ops\<close>, and the contracts of its
  methods are the locale \<open>pte_laws\<close>.  The implementation of \<open>ostd/src/arch/x86/mm/mod.rs\<close> is modelled on
  64-bit words and interpreted as an instance.  The cargo feature \<open>cvm_guest\<close>, which adds the \<open>SHARED\<close>
  flags, is the boolean parameter \<open>cvm\<close>.
\<close>

section \<open>Page properties\<close>

datatype CachePolicy = Uncacheable | WriteCombining | WriteProtected | Writethrough | Writeback

record PageProperty =
  flags :: "8 word"
  cache :: CachePolicy
  priv_flags :: "8 word"

definition PF_R :: "8 word" where "PF_R = 1"
definition PF_W :: "8 word" where "PF_W = 2"
definition PF_X :: "8 word" where "PF_X = 4"
definition PF_ACCESSED :: "8 word" where "PF_ACCESSED = 8"
definition PF_DIRTY :: "8 word" where "PF_DIRTY = 16"
definition PF_AVAIL1 :: "8 word" where "PF_AVAIL1 = 64"
definition PF_AVAIL2 :: "8 word" where "PF_AVAIL2 = 128"
definition PPF_USER :: "8 word" where "PPF_USER = 1"
definition PPF_GLOBAL :: "8 word" where "PPF_GLOBAL = 2"
definition PPF_SHARED :: "8 word" where "PPF_SHARED = 128"

lemmas page_flag_defs = PF_R_def PF_W_def PF_X_def PF_ACCESSED_def PF_DIRTY_def PF_AVAIL1_def
  PF_AVAIL2_def PPF_USER_def PPF_GLOBAL_def PPF_SHARED_def

definition page_flags_all :: "8 word" where
  "page_flags_all = PF_R OR PF_W OR PF_X OR PF_ACCESSED OR PF_DIRTY OR PF_AVAIL1 OR PF_AVAIL2"

definition priv_flags_all :: "bool \<Rightarrow> 8 word" where
  "priv_flags_all cvm = (PPF_USER OR PPF_GLOBAL OR (if cvm then PPF_SHARED else 0))"

text \<open>\<open>from_bits\<close> rejects bits outside the declared flags.\<close>

definition from_bits :: "8 word \<Rightarrow> 8 word \<Rightarrow> 8 word option" where
  "from_bits all w = (if w AND NOT all = 0 then Some w else None)"

definition prop_new_user :: "8 word \<Rightarrow> CachePolicy \<Rightarrow> PageProperty" where
  "prop_new_user fl c = \<lparr>flags = fl, cache = c, priv_flags = PPF_USER\<rparr>"

definition prop_new_absent :: PageProperty where
  "prop_new_absent = \<lparr>flags = 0, cache = Writeback, priv_flags = 0\<rparr>"

text \<open>The invariant \<open>inv\<close> of \<open>PageProperty\<close>.\<close>

definition prop_inv :: "bool \<Rightarrow> PageProperty \<Rightarrow> bool" where
  "prop_inv cvm p \<longleftrightarrow> flags p AND page_flags_all = flags p \<and>
     priv_flags p AND priv_flags_all cvm = priv_flags p"

section \<open>The entry interface\<close>

record 'e pte_ops =
  new_absent :: 'e
  is_present :: "'e \<Rightarrow> bool"
  new_page :: "Paddr \<Rightarrow> nat \<Rightarrow> PageProperty \<Rightarrow> 'e option"
  new_pt :: "Paddr \<Rightarrow> 'e"
  pte_paddr :: "'e \<Rightarrow> Paddr"
  pte_prop :: "'e \<Rightarrow> PageProperty option"
  set_prop :: "'e \<Rightarrow> PageProperty \<Rightarrow> 'e option"
  is_last :: "'e \<Rightarrow> nat \<Rightarrow> bool"

locale pte_laws =
  fixes E :: "'e pte_ops"
    and valid_paddr :: "Paddr \<Rightarrow> bool"
    and valid_prop :: "PageProperty \<Rightarrow> bool"
  assumes absent_law: "\<not> is_present E (new_absent E)"
    and pt_law: "valid_paddr p \<Longrightarrow> is_present E (new_pt E p) \<and> pte_paddr E (new_pt E p) = p \<and>
        (1 < l \<longrightarrow> \<not> is_last E (new_pt E p) l)"
    and page_law: "valid_paddr p \<Longrightarrow> valid_prop q \<Longrightarrow>
        \<exists>e. new_page E p l q = Some e \<and> is_present E e \<and> pte_paddr E e = p \<and> is_last E e l \<and>
            pte_prop E e = Some q"
    and set_prop_law: "is_present E e \<Longrightarrow> is_last E e l \<Longrightarrow> valid_prop q \<Longrightarrow>
        \<exists>e'. set_prop E e q = Some e' \<and> is_present E e' \<and> pte_paddr E e' = pte_paddr E e \<and>
             is_last E e' l \<and> pte_prop E e' = Some q"
    and prop_law: "\<exists>q. pte_prop E e = Some q \<and> valid_prop q"

section \<open>The x86-64 entry\<close>

type_synonym x86_pte = "64 word"

definition X_PRESENT :: x86_pte where "X_PRESENT = push_bit 0 1"
definition X_WRITABLE :: x86_pte where "X_WRITABLE = push_bit 1 1"
definition X_USER :: x86_pte where "X_USER = push_bit 2 1"
definition X_WRITE_THROUGH :: x86_pte where "X_WRITE_THROUGH = push_bit 3 1"
definition X_NO_CACHE :: x86_pte where "X_NO_CACHE = push_bit 4 1"
definition X_ACCESSED :: x86_pte where "X_ACCESSED = push_bit 5 1"
definition X_DIRTY :: x86_pte where "X_DIRTY = push_bit 6 1"
definition X_HUGE :: x86_pte where "X_HUGE = push_bit 7 1"
definition X_GLOBAL :: x86_pte where "X_GLOBAL = push_bit 8 1"
definition X_SHARED :: x86_pte where "X_SHARED = push_bit 51 1"
definition X_HIGH_IGN1 :: x86_pte where "X_HIGH_IGN1 = push_bit 52 1"
definition X_HIGH_IGN2 :: x86_pte where "X_HIGH_IGN2 = push_bit 53 1"
definition X_NO_EXECUTE :: x86_pte where "X_NO_EXECUTE = push_bit 63 1"

lemmas x86_flag_defs = X_PRESENT_def X_WRITABLE_def X_USER_def X_WRITE_THROUGH_def X_NO_CACHE_def
  X_ACCESSED_def X_DIRTY_def X_HUGE_def X_GLOBAL_def X_SHARED_def X_HIGH_IGN1_def X_HIGH_IGN2_def
  X_NO_EXECUTE_def

definition PHYS_ADDR_MASK :: x86_pte where "PHYS_ADDR_MASK = 0xFFFFFFFFFF000"
definition PROP_MASK :: x86_pte where "PROP_MASK = NOT PHYS_ADDR_MASK AND NOT 0x80"

text \<open>The macro \<open>parse_flags!\<close>: move the flag \<open>from\<close> of \<open>val\<close> to the position of \<open>to\<close>.\<close>

definition parse_flags :: "64 word \<Rightarrow> 64 word \<Rightarrow> 64 word \<Rightarrow> 64 word" where
  "parse_flags v src dst = push_bit (nat_log2 (unat dst)) (drop_bit (nat_log2 (unat src)) (v AND src))"

definition x86_new_absent :: x86_pte where "x86_new_absent = 0"

definition x86_is_present :: "x86_pte \<Rightarrow> bool" where
  "x86_is_present self \<longleftrightarrow> self AND X_PRESENT \<noteq> 0 \<or> self AND X_HUGE \<noteq> 0"

definition x86_is_last :: "x86_pte \<Rightarrow> nat \<Rightarrow> bool" where
  "x86_is_last self level \<longleftrightarrow> self AND X_HUGE \<noteq> 0"

definition x86_new_pt :: "Paddr \<Rightarrow> x86_pte" where
  "x86_new_pt paddr = (of_nat paddr AND PHYS_ADDR_MASK) OR (X_PRESENT OR X_WRITABLE OR X_USER)"

definition x86_paddr :: "x86_pte \<Rightarrow> Paddr" where
  "x86_paddr self = unat (self AND PHYS_ADDR_MASK)"

definition x86_prop :: "bool \<Rightarrow> x86_pte \<Rightarrow> PageProperty option" where
  "x86_prop cvm self = (
     let fl = parse_flags self X_PRESENT (ucast PF_R)
           OR parse_flags self X_WRITABLE (ucast PF_W)
           OR parse_flags (NOT self) X_NO_EXECUTE (ucast PF_X)
           OR parse_flags self X_ACCESSED (ucast PF_ACCESSED)
           OR parse_flags self X_DIRTY (ucast PF_DIRTY)
           OR parse_flags self X_HIGH_IGN1 (ucast PF_AVAIL1)
           OR parse_flags self X_HIGH_IGN2 (ucast PF_AVAIL2);
         pf0 = parse_flags self X_USER (ucast PPF_USER)
           OR parse_flags self X_GLOBAL (ucast PPF_GLOBAL);
         pf = (if cvm then pf0 OR parse_flags self X_SHARED (ucast PPF_SHARED) else pf0);
         c = (if self AND X_NO_CACHE \<noteq> 0 then Uncacheable
              else if self AND X_WRITE_THROUGH \<noteq> 0 then Writethrough else Writeback)
     in do {
       f \<leftarrow> from_bits page_flags_all (ucast fl);
       p \<leftarrow> from_bits (priv_flags_all cvm) (ucast pf);
       Some \<lparr>flags = f, cache = c, priv_flags = p\<rparr>
     })"

definition x86_prop_flags :: "bool \<Rightarrow> PageProperty \<Rightarrow> x86_pte" where
  "x86_prop_flags cvm prop = (
     let fl = parse_flags (ucast (flags prop)) (ucast PF_R) X_PRESENT
           OR parse_flags (ucast (flags prop)) (ucast PF_W) X_WRITABLE
           OR parse_flags (ucast (NOT (flags prop))) (ucast PF_X) X_NO_EXECUTE
           OR parse_flags (ucast (flags prop)) (ucast PF_ACCESSED) X_ACCESSED
           OR parse_flags (ucast (flags prop)) (ucast PF_DIRTY) X_DIRTY
           OR parse_flags (ucast (flags prop)) (ucast PF_AVAIL1) X_HIGH_IGN1
           OR parse_flags (ucast (flags prop)) (ucast PF_AVAIL2) X_HIGH_IGN2
           OR parse_flags (ucast (priv_flags prop)) (ucast PPF_USER) X_USER
           OR parse_flags (ucast (priv_flags prop)) (ucast PPF_GLOBAL) X_GLOBAL
     in if cvm then fl OR parse_flags (ucast (priv_flags prop)) (ucast PPF_SHARED) X_SHARED else fl)"

definition x86_set_prop :: "bool \<Rightarrow> x86_pte \<Rightarrow> PageProperty \<Rightarrow> x86_pte option" where
  "x86_set_prop cvm self prop = (
     if \<not> x86_is_present self then Some self
     else do {
       fl \<leftarrow> (case cache prop of
                Writeback \<Rightarrow> Some (x86_prop_flags cvm prop)
              | Writethrough \<Rightarrow> Some (x86_prop_flags cvm prop OR X_WRITE_THROUGH)
              | Uncacheable \<Rightarrow> Some (x86_prop_flags cvm prop OR X_NO_CACHE)
              | _ \<Rightarrow> None);
       Some ((self AND NOT PROP_MASK) OR fl)
     })"

definition x86_new_page :: "bool \<Rightarrow> Paddr \<Rightarrow> nat \<Rightarrow> PageProperty \<Rightarrow> x86_pte option" where
  "x86_new_page cvm paddr level prop =
     x86_set_prop cvm ((of_nat paddr AND PHYS_ADDR_MASK) OR X_HUGE) prop"

definition x86_pte_ops :: "bool \<Rightarrow> x86_pte pte_ops" where
  "x86_pte_ops cvm = \<lparr>new_absent = x86_new_absent, is_present = x86_is_present,
     new_page = x86_new_page cvm, new_pt = x86_new_pt, pte_paddr = x86_paddr,
     pte_prop = x86_prop cvm, set_prop = x86_set_prop cvm, is_last = x86_is_last\<rparr>"

section \<open>Bits of the x86-64 entry\<close>

lemma x86_flag_exp:
  "X_PRESENT = 2 ^ 0" "X_WRITABLE = 2 ^ 1" "X_USER = 2 ^ 2" "X_WRITE_THROUGH = 2 ^ 3"
  "X_NO_CACHE = 2 ^ 4" "X_ACCESSED = 2 ^ 5" "X_DIRTY = 2 ^ 6" "X_HUGE = 2 ^ 7" "X_GLOBAL = 2 ^ 8"
  "X_SHARED = 2 ^ 51" "X_HIGH_IGN1 = 2 ^ 52" "X_HIGH_IGN2 = 2 ^ 53" "X_NO_EXECUTE = 2 ^ 63"
  by (simp_all add: x86_flag_defs push_bit_eq_mult)

lemma page_flag_exp:
  "ucast PF_R = (2 ^ 0 :: 64 word)" "ucast PF_W = (2 ^ 1 :: 64 word)" "ucast PF_X = (2 ^ 2 :: 64 word)"
  "ucast PF_ACCESSED = (2 ^ 3 :: 64 word)" "ucast PF_DIRTY = (2 ^ 4 :: 64 word)"
  "ucast PF_AVAIL1 = (2 ^ 6 :: 64 word)" "ucast PF_AVAIL2 = (2 ^ 7 :: 64 word)"
  "ucast PPF_USER = (2 ^ 0 :: 64 word)" "ucast PPF_GLOBAL = (2 ^ 1 :: 64 word)"
  "ucast PPF_SHARED = (2 ^ 7 :: 64 word)"
  by (simp_all add: page_flag_defs)

lemma parse_flags_bit:
  assumes "i < 64" "j < 64"
  shows "bit (parse_flags v (2 ^ i) (2 ^ j)) n \<longleftrightarrow> n = j \<and> bit v i"
proof -
  have u: "unat (2 ^ i :: 64 word) = 2 ^ i" "unat (2 ^ j :: 64 word) = 2 ^ j"
    using assms by (simp_all add: unat_exp)
  show ?thesis unfolding parse_flags_def u nat_log2_exp
    using assms by (auto simp: bit_simps)
qed

lemma parse_to_prop:
  "bit (parse_flags v X_PRESENT (ucast PF_R)) n \<longleftrightarrow> n = 0 \<and> bit v 0"
  "bit (parse_flags v X_WRITABLE (ucast PF_W)) n \<longleftrightarrow> n = 1 \<and> bit v 1"
  "bit (parse_flags v X_NO_EXECUTE (ucast PF_X)) n \<longleftrightarrow> n = 2 \<and> bit v 63"
  "bit (parse_flags v X_ACCESSED (ucast PF_ACCESSED)) n \<longleftrightarrow> n = 3 \<and> bit v 5"
  "bit (parse_flags v X_DIRTY (ucast PF_DIRTY)) n \<longleftrightarrow> n = 4 \<and> bit v 6"
  "bit (parse_flags v X_HIGH_IGN1 (ucast PF_AVAIL1)) n \<longleftrightarrow> n = 6 \<and> bit v 52"
  "bit (parse_flags v X_HIGH_IGN2 (ucast PF_AVAIL2)) n \<longleftrightarrow> n = 7 \<and> bit v 53"
  "bit (parse_flags v X_USER (ucast PPF_USER)) n \<longleftrightarrow> n = 0 \<and> bit v 2"
  "bit (parse_flags v X_GLOBAL (ucast PPF_GLOBAL)) n \<longleftrightarrow> n = 1 \<and> bit v 8"
  "bit (parse_flags v X_SHARED (ucast PPF_SHARED)) n \<longleftrightarrow> n = 7 \<and> bit v 51"
  unfolding x86_flag_exp page_flag_exp by (rule parse_flags_bit; simp)+

lemma parse_to_x86:
  "bit (parse_flags v (ucast PF_R) X_PRESENT) n \<longleftrightarrow> n = 0 \<and> bit v 0"
  "bit (parse_flags v (ucast PF_W) X_WRITABLE) n \<longleftrightarrow> n = 1 \<and> bit v 1"
  "bit (parse_flags v (ucast PF_X) X_NO_EXECUTE) n \<longleftrightarrow> n = 63 \<and> bit v 2"
  "bit (parse_flags v (ucast PF_ACCESSED) X_ACCESSED) n \<longleftrightarrow> n = 5 \<and> bit v 3"
  "bit (parse_flags v (ucast PF_DIRTY) X_DIRTY) n \<longleftrightarrow> n = 6 \<and> bit v 4"
  "bit (parse_flags v (ucast PF_AVAIL1) X_HIGH_IGN1) n \<longleftrightarrow> n = 52 \<and> bit v 6"
  "bit (parse_flags v (ucast PF_AVAIL2) X_HIGH_IGN2) n \<longleftrightarrow> n = 53 \<and> bit v 7"
  "bit (parse_flags v (ucast PPF_USER) X_USER) n \<longleftrightarrow> n = 2 \<and> bit v 0"
  "bit (parse_flags v (ucast PPF_GLOBAL) X_GLOBAL) n \<longleftrightarrow> n = 8 \<and> bit v 1"
  "bit (parse_flags v (ucast PPF_SHARED) X_SHARED) n \<longleftrightarrow> n = 51 \<and> bit v 7"
  unfolding x86_flag_exp page_flag_exp by (rule parse_flags_bit; simp)+

lemma phys_addr_mask_bit: "bit PHYS_ADDR_MASK n \<longleftrightarrow> 12 \<le> n \<and> n < 52"
proof -
  have "PHYS_ADDR_MASK = push_bit 12 (mask 40)"
    by (simp add: PHYS_ADDR_MASK_def mask_eq_exp_minus_1 push_bit_eq_mult)
  then show ?thesis unfolding \<open>PHYS_ADDR_MASK = push_bit 12 (mask 40)\<close>
    by (auto simp: bit_push_bit_iff bit_mask_iff)
qed

lemma prop_mask_bit: "n < 64 \<Longrightarrow> bit PROP_MASK n \<longleftrightarrow> \<not> (12 \<le> n \<and> n < 52) \<and> n \<noteq> 7"
proof -
  have h: "(0x80 :: 64 word) = X_HUGE" by (simp add: X_HUGE_def push_bit_eq_mult)
  have "bit (0x80 :: 64 word) n \<longleftrightarrow> n = 7" unfolding h x86_flag_exp bit_exp_iff by auto
  then show "n < 64 \<Longrightarrow> ?thesis"
    unfolding PROP_MASK_def bit_and_iff bit_not_iff_eq phys_addr_mask_bit by simp
qed

lemma word_and_exp: "(a AND 2 ^ n :: 'w::len word) \<noteq> 0 \<longleftrightarrow> bit a n"
  by (simp add: and_exp_eq_0_iff_not_bit)

lemma x86_is_present_bit: "x86_is_present e \<longleftrightarrow> bit e 0 \<or> bit e 7"
  unfolding x86_is_present_def x86_flag_exp word_and_exp ..

lemma x86_is_last_bit: "x86_is_last e l \<longleftrightarrow> bit e 7"
  unfolding x86_is_last_def x86_flag_exp word_and_exp ..

lemma x86_prop_flags_bit:
  "bit (x86_prop_flags cvm p) n \<longleftrightarrow>
     n = 0 \<and> bit (flags p) 0 \<or> n = 1 \<and> bit (flags p) 1 \<or> n = 63 \<and> \<not> bit (flags p) 2 \<or>
     n = 5 \<and> bit (flags p) 3 \<or> n = 6 \<and> bit (flags p) 4 \<or> n = 52 \<and> bit (flags p) 6 \<or>
     n = 53 \<and> bit (flags p) 7 \<or> n = 2 \<and> bit (priv_flags p) 0 \<or> n = 8 \<and> bit (priv_flags p) 1 \<or>
     cvm \<and> n = 51 \<and> bit (priv_flags p) 7"
  unfolding x86_prop_flags_def Let_def
  by (cases cvm) (simp_all add: bit_or_iff parse_to_x86 bit_unsigned_iff bit_not_iff_eq disj_assoc)

lemma page_flags_all_bit: "bit page_flags_all n \<longleftrightarrow> n < 8 \<and> n \<noteq> 5"
proof -
  have "page_flags_all = NOT (2 ^ 5)" by (simp add: page_flags_all_def page_flag_defs)
  then show ?thesis unfolding \<open>page_flags_all = NOT (2 ^ 5)\<close> bit_not_iff_eq bit_exp_iff by auto
qed

lemma priv_flags_all_bit: "bit (priv_flags_all cvm) n \<longleftrightarrow> n = 0 \<or> n = 1 \<or> cvm \<and> n = 7"
proof -
  have e: "PPF_USER = 2 ^ 0" "PPF_GLOBAL = 2 ^ 1" "PPF_SHARED = 2 ^ 7" by (simp_all add: page_flag_defs)
  show ?thesis unfolding priv_flags_all_def e
    by (cases cvm) (auto simp only: if_True if_False bit_or_iff bit_exp_iff possible_bit_word bit_0_eq; simp)+
qed

lemma prop_inv_bits:
  "prop_inv cvm p \<longleftrightarrow> \<not> bit (flags p) 5 \<and>
     (\<forall>n. bit (priv_flags p) n \<longrightarrow> n = 0 \<or> n = 1 \<or> cvm \<and> n = 7)"
proof -
  have "flags p AND page_flags_all = flags p \<longleftrightarrow> \<not> bit (flags p) 5"
  proof
    assume "flags p AND page_flags_all = flags p"
    then show "\<not> bit (flags p) 5" by (metis bit_and_iff page_flags_all_bit)
  next
    assume "\<not> bit (flags p) 5"
    then show "flags p AND page_flags_all = flags p"
      by (intro bit_word_eqI) (auto simp: bit_and_iff page_flags_all_bit)
  qed
  moreover have "priv_flags p AND priv_flags_all cvm = priv_flags p \<longleftrightarrow>
      (\<forall>n. bit (priv_flags p) n \<longrightarrow> n = 0 \<or> n = 1 \<or> cvm \<and> n = 7)"
  proof
    assume "priv_flags p AND priv_flags_all cvm = priv_flags p"
    then show "\<forall>n. bit (priv_flags p) n \<longrightarrow> n = 0 \<or> n = 1 \<or> cvm \<and> n = 7"
      by (metis bit_and_iff priv_flags_all_bit)
  next
    assume "\<forall>n. bit (priv_flags p) n \<longrightarrow> n = 0 \<or> n = 1 \<or> cvm \<and> n = 7"
    then show "priv_flags p AND priv_flags_all cvm = priv_flags p"
      by (intro bit_word_eqI) (auto simp: bit_and_iff priv_flags_all_bit)
  qed
  ultimately show ?thesis by (simp add: prop_inv_def)
qed

lemma from_bits_bit: "(\<And>n. bit w n \<Longrightarrow> bit all n) \<Longrightarrow> from_bits all w = Some w"
proof -
  assume "\<And>n. bit w n \<Longrightarrow> bit all n"
  then have "w AND NOT all = 0" by (intro bit_word_eqI) (auto simp: bit_and_iff bit_not_iff_eq)
  then show ?thesis by (simp add: from_bits_def)
qed

lemma x86_prop_bits:
  "\<exists>q. x86_prop cvm e = Some q \<and>
     (\<forall>n. bit (flags q) n \<longleftrightarrow> n = 0 \<and> bit e 0 \<or> n = 1 \<and> bit e 1 \<or> n = 2 \<and> \<not> bit e 63 \<or>
        n = 3 \<and> bit e 5 \<or> n = 4 \<and> bit e 6 \<or> n = 6 \<and> bit e 52 \<or> n = 7 \<and> bit e 53) \<and>
     (\<forall>n. bit (priv_flags q) n \<longleftrightarrow> n = 0 \<and> bit e 2 \<or> n = 1 \<and> bit e 8 \<or> cvm \<and> n = 7 \<and> bit e 51) \<and>
     cache q = (if bit e 4 then Uncacheable else if bit e 3 then Writethrough else Writeback)"
proof -
  let ?fl = "ucast (parse_flags e X_PRESENT (ucast PF_R)
           OR parse_flags e X_WRITABLE (ucast PF_W)
           OR parse_flags (NOT e) X_NO_EXECUTE (ucast PF_X)
           OR parse_flags e X_ACCESSED (ucast PF_ACCESSED)
           OR parse_flags e X_DIRTY (ucast PF_DIRTY)
           OR parse_flags e X_HIGH_IGN1 (ucast PF_AVAIL1)
           OR parse_flags e X_HIGH_IGN2 (ucast PF_AVAIL2)) :: 8 word"
  let ?pf0 = "parse_flags e X_USER (ucast PPF_USER) OR parse_flags e X_GLOBAL (ucast PPF_GLOBAL)"
  let ?pf = "ucast (if cvm then ?pf0 OR parse_flags e X_SHARED (ucast PPF_SHARED) else ?pf0) :: 8 word"
  have f: "bit ?fl n \<longleftrightarrow> n = 0 \<and> bit e 0 \<or> n = 1 \<and> bit e 1 \<or> n = 2 \<and> \<not> bit e 63 \<or>
        n = 3 \<and> bit e 5 \<or> n = 4 \<and> bit e 6 \<or> n = 6 \<and> bit e 52 \<or> n = 7 \<and> bit e 53" for n
    unfolding bit_unsigned_iff bit_or_iff parse_to_prop bit_not_iff_eq by auto
  have p: "bit ?pf n \<longleftrightarrow> n = 0 \<and> bit e 2 \<or> n = 1 \<and> bit e 8 \<or> cvm \<and> n = 7 \<and> bit e 51" for n
    by (cases cvm) (auto simp only: if_True if_False bit_unsigned_iff bit_or_iff parse_to_prop; simp)+
  have "from_bits page_flags_all ?fl = Some ?fl"
    by (rule from_bits_bit) (auto simp only: f page_flags_all_bit; simp)
  moreover have "from_bits (priv_flags_all cvm) ?pf = Some ?pf"
    by (rule from_bits_bit) (auto simp only: p priv_flags_all_bit)
  ultimately have "x86_prop cvm e = Some \<lparr>flags = ?fl,
      cache = if bit e 4 then Uncacheable else if bit e 3 then Writethrough else Writeback, priv_flags = ?pf\<rparr>"
    unfolding x86_prop_def Let_def x86_flag_exp(4,5) word_and_exp by simp
  then show ?thesis using f p by auto
qed

section \<open>The entry meets its contract\<close>

definition cacheable :: "CachePolicy \<Rightarrow> bool" where
  "cacheable c \<longleftrightarrow> c = Writeback \<or> c = Writethrough \<or> c = Uncacheable"

definition x86_valid_prop :: "bool \<Rightarrow> PageProperty \<Rightarrow> bool" where
  "x86_valid_prop cvm p \<longleftrightarrow> prop_inv cvm p \<and> cacheable (cache p)"

definition x86_valid_paddr :: "Paddr \<Rightarrow> bool" where
  "x86_valid_paddr p \<longleftrightarrow> PAGE_SIZE dvd p \<and> p < 2 ^ 52"

lemma x86_set_prop_bits:
  assumes "x86_is_present e" "cacheable (cache p)"
  shows "\<exists>e'. x86_set_prop cvm e p = Some e' \<and>
    (\<forall>n. bit e' n \<longleftrightarrow> (12 \<le> n \<and> n < 52 \<or> n = 7) \<and> bit e n \<or> bit (x86_prop_flags cvm p) n \<or>
       n = 3 \<and> cache p = Writethrough \<or> n = 4 \<and> cache p = Uncacheable)"
proof -
  have m: "bit (e AND NOT PROP_MASK) n \<longleftrightarrow> (12 \<le> n \<and> n < 52 \<or> n = 7) \<and> bit e n" for n
  proof (cases "n < 64")
    case True
    then show ?thesis by (auto simp: bit_and_iff bit_not_iff_eq prop_mask_bit)
  next
    case False
    then show ?thesis by (auto dest: bit_imp_le_length)
  qed
  have w: "bit X_WRITE_THROUGH n \<longleftrightarrow> n = 3" "bit X_NO_CACHE n \<longleftrightarrow> n = 4" for n
    unfolding x86_flag_exp bit_exp_iff by auto
  show ?thesis using assms
    by (auto simp: x86_set_prop_def cacheable_def bit_or_iff m w)
qed

lemma word8_eqI: "(\<And>n. n < 8 \<Longrightarrow> bit a n = bit b n) \<Longrightarrow> a = (b :: 8 word)"
  by (rule bit_word_eqI) simp

lemma less_8_cases: "n < (8::nat) \<Longrightarrow> n = 0 \<or> n = 1 \<or> n = 2 \<or> n = 3 \<or> n = 4 \<or> n = 5 \<or> n = 6 \<or> n = 7"
  by auto

text \<open>Writing a property and reading it back.\<close>

lemma x86_set_prop_ok:
  assumes "x86_is_present e" "x86_valid_prop False p"
  shows "\<exists>e'. x86_set_prop False e p = Some e' \<and> x86_prop False e' = Some p \<and>
    x86_paddr e' = x86_paddr e \<and> (\<forall>l. x86_is_last e' l = x86_is_last e l) \<and>
    (x86_is_present e' \<longleftrightarrow> x86_is_last e 1 \<or> bit (flags p) 0)"
proof -
  obtain e' where e': "x86_set_prop False e p = Some e'"
    "\<forall>n. bit e' n \<longleftrightarrow> (12 \<le> n \<and> n < 52 \<or> n = 7) \<and> bit e n \<or> bit (x86_prop_flags False p) n \<or>
       n = 3 \<and> cache p = Writethrough \<or> n = 4 \<and> cache p = Uncacheable"
    using x86_set_prop_bits [of e p False] assms by (auto simp: x86_valid_prop_def)
  note b = e'(2) [rule_format, unfolded x86_prop_flags_bit]
  obtain q where q: "x86_prop False e' = Some q"
     "\<forall>n. bit (flags q) n \<longleftrightarrow> n = 0 \<and> bit e' 0 \<or> n = 1 \<and> bit e' 1 \<or> n = 2 \<and> \<not> bit e' 63 \<or>
        n = 3 \<and> bit e' 5 \<or> n = 4 \<and> bit e' 6 \<or> n = 6 \<and> bit e' 52 \<or> n = 7 \<and> bit e' 53"
     "\<forall>n. bit (priv_flags q) n \<longleftrightarrow> n = 0 \<and> bit e' 2 \<or> n = 1 \<and> bit e' 8 \<or> False \<and> n = 7 \<and> bit e' 51"
     "cache q = (if bit e' 4 then Uncacheable else if bit e' 3 then Writethrough else Writeback)"
    using x86_prop_bits [of False e'] by blast
  have inv: "\<not> bit (flags p) 5" "\<forall>n. bit (priv_flags p) n \<longrightarrow> n = 0 \<or> n = 1"
    using assms(2) by (auto simp: x86_valid_prop_def prop_inv_bits)
  have "flags q = flags p"
    by (rule word8_eqI, drule less_8_cases) (elim disjE; simp add: q(2) b inv)
  moreover have "priv_flags q = priv_flags p"
    by (rule word8_eqI, drule less_8_cases) (elim disjE; use inv(2) in \<open>simp add: q(3) b\<close>; auto)
  moreover have "cache q = cache p"
    using assms(2) by (auto simp: q(4) b x86_valid_prop_def cacheable_def)
  ultimately have "q = p" by simp
  moreover have "e' AND PHYS_ADDR_MASK = e AND PHYS_ADDR_MASK"
    by (rule bit_word_eqI) (auto simp: bit_and_iff phys_addr_mask_bit b)
  ultimately show ?thesis using e'(1) q(1)
    by (auto simp: x86_paddr_def x86_is_last_bit x86_is_present_bit b)
qed

lemma x86_valid_paddr_mask:
  assumes "x86_valid_paddr p"
  shows "p < 2 ^ 64" "bit (of_nat p :: 64 word) n \<longleftrightarrow> bit p n" "bit p n \<Longrightarrow> 12 \<le> n \<and> n < 52"
proof -
  show p64: "p < 2 ^ 64" using assms by (auto simp: x86_valid_paddr_def)
  show "bit (of_nat p :: 64 word) n \<longleftrightarrow> bit p n"
  proof (cases "n < 64")
    case True
    then show ?thesis by (simp add: bit_of_nat_iff)
  next
    case False
    have "p < 2 ^ n" using p64 False by (meson not_less order_less_le_trans power_increasing one_le_numeral)
    then have "\<not> bit p n" by (simp add: bit_iff_odd)
    then show ?thesis using False by (auto dest: bit_imp_le_length)
  qed
  assume n: "bit p n"
  have "n < 52"
  proof (rule ccontr)
    assume "\<not> n < 52"
    then have "p < 2 ^ n" using assms unfolding x86_valid_paddr_def
      by (meson not_less order_less_le_trans power_increasing one_le_numeral)
    then show False using n by (simp add: bit_iff_odd)
  qed
  moreover have "12 \<le> n"
  proof (rule ccontr)
    assume "\<not> 12 \<le> n"
    moreover have "(2::nat) ^ 12 dvd p" using assms by (simp add: x86_valid_paddr_def PAGE_SIZE_def)
    then obtain m where "p = push_bit 12 m" by (auto simp: push_bit_eq_mult elim: dvdE)
    ultimately show False using n by (simp add: bit_push_bit_iff)
  qed
  ultimately show "12 \<le> n \<and> n < 52" by simp
qed

lemma x86_paddr_of:
  assumes "x86_valid_paddr p" "\<And>n. 12 \<le> n \<Longrightarrow> n < 52 \<Longrightarrow> bit e n \<longleftrightarrow> bit p n"
  shows "x86_paddr e = p"
proof -
  have "e AND PHYS_ADDR_MASK = of_nat p"
    by (rule bit_word_eqI)
       (use assms x86_valid_paddr_mask [OF assms(1)] in \<open>auto simp: bit_and_iff phys_addr_mask_bit\<close>)
  then show ?thesis using x86_valid_paddr_mask(1) [OF assms(1)]
    by (simp add: x86_paddr_def unat_of_nat take_bit_eq_mod)
qed

lemma x86_new_page_base:
  assumes "x86_valid_paddr p"
  shows "x86_is_present ((of_nat p AND PHYS_ADDR_MASK) OR X_HUGE)"
    "x86_is_last ((of_nat p AND PHYS_ADDR_MASK) OR X_HUGE) l"
    "x86_paddr ((of_nat p AND PHYS_ADDR_MASK) OR X_HUGE) = p"
proof -
  have h: "bit X_HUGE n \<longleftrightarrow> n = 7" for n unfolding x86_flag_exp bit_exp_iff by auto
  show "x86_is_present ((of_nat p AND PHYS_ADDR_MASK) OR X_HUGE)"
    "x86_is_last ((of_nat p AND PHYS_ADDR_MASK) OR X_HUGE) l"
    by (simp_all add: x86_is_present_bit x86_is_last_bit bit_or_iff h)
  show "x86_paddr ((of_nat p AND PHYS_ADDR_MASK) OR X_HUGE) = p"
    by (rule x86_paddr_of [OF assms])
       (use x86_valid_paddr_mask [OF assms] in \<open>auto simp: bit_or_iff bit_and_iff phys_addr_mask_bit h\<close>)
qed

lemma x86_new_pt_ok:
  assumes "x86_valid_paddr p"
  shows "x86_is_present (x86_new_pt p)" "\<not> x86_is_last (x86_new_pt p) l" "x86_paddr (x86_new_pt p) = p"
proof -
  have f: "bit X_PRESENT n \<longleftrightarrow> n = 0" "bit X_WRITABLE n \<longleftrightarrow> n = 1" "bit X_USER n \<longleftrightarrow> n = 2" for n
    unfolding x86_flag_exp bit_exp_iff by auto
  show "x86_is_present (x86_new_pt p)" "\<not> x86_is_last (x86_new_pt p) l"
    by (simp_all add: x86_new_pt_def x86_is_present_bit x86_is_last_bit bit_or_iff bit_and_iff f
        phys_addr_mask_bit)
  show "x86_paddr (x86_new_pt p) = p"
    by (rule x86_paddr_of [OF assms])
       (use x86_valid_paddr_mask [OF assms] in
         \<open>auto simp: x86_new_pt_def bit_or_iff bit_and_iff phys_addr_mask_bit f\<close>)
qed

interpretation x86_pte: pte_laws "x86_pte_ops False" x86_valid_paddr "x86_valid_prop False"
proof
  show "\<not> is_present (x86_pte_ops False) (new_absent (x86_pte_ops False))"
    by (simp add: x86_pte_ops_def x86_new_absent_def x86_is_present_bit)
next
  fix p l assume "x86_valid_paddr p"
  then show "is_present (x86_pte_ops False) (new_pt (x86_pte_ops False) p) \<and>
      pte_paddr (x86_pte_ops False) (new_pt (x86_pte_ops False) p) = p \<and>
      (1 < l \<longrightarrow> \<not> is_last (x86_pte_ops False) (new_pt (x86_pte_ops False) p) l)"
    by (simp add: x86_pte_ops_def x86_new_pt_ok)
next
  fix p q l assume "x86_valid_paddr p" "x86_valid_prop False q"
  then show "\<exists>e. new_page (x86_pte_ops False) p l q = Some e \<and> is_present (x86_pte_ops False) e \<and>
      pte_paddr (x86_pte_ops False) e = p \<and> is_last (x86_pte_ops False) e l \<and>
      pte_prop (x86_pte_ops False) e = Some q"
    using x86_set_prop_ok [OF x86_new_page_base(1)] x86_new_page_base(2,3)
    by (fastforce simp: x86_pte_ops_def x86_new_page_def)
next
  fix e l q
  assume "is_present (x86_pte_ops False) e" "is_last (x86_pte_ops False) e l" "x86_valid_prop False q"
  then show "\<exists>e'. set_prop (x86_pte_ops False) e q = Some e' \<and> is_present (x86_pte_ops False) e' \<and>
      pte_paddr (x86_pte_ops False) e' = pte_paddr (x86_pte_ops False) e \<and>
      is_last (x86_pte_ops False) e' l \<and> pte_prop (x86_pte_ops False) e' = Some q"
    using x86_set_prop_ok [of e q] by (auto simp: x86_pte_ops_def x86_is_last_bit)
next
  fix e
  show "\<exists>q. pte_prop (x86_pte_ops False) e = Some q \<and> x86_valid_prop False q"
    using x86_prop_bits [of False e]
    by (auto simp: x86_pte_ops_def x86_valid_prop_def prop_inv_bits cacheable_def)
qed

section \<open>Properties\<close>

definition demo_prop :: PageProperty where
  "demo_prop = \<lparr>flags = PF_R OR PF_W, cache = Writeback, priv_flags = PPF_USER\<rparr>"

lemma demo_prop_valid: "x86_valid_prop False demo_prop"
  by (simp add: x86_valid_prop_def prop_inv_def demo_prop_def cacheable_def page_flags_all_def
      priv_flags_all_def page_flag_defs)

text \<open>An x86-64 leaf entry round-trips.  For a page-aligned physical address below \<open>2 ^ 52\<close> and a
  property with declared flags and a supported cache policy, \<open>new_page\<close> does not panic, and the entry is
  present, is a leaf at every level, holds exactly that address and decodes to exactly that property;
  rewriting the property of any leaf entry changes nothing but the property.\<close>

lemma x86_leaf_roundtrip:
  assumes "x86_valid_paddr p" "x86_valid_prop False q" "x86_valid_prop False q'"
  shows "\<exists>e e'. x86_new_page False p l q = Some e \<and> x86_is_present e \<and> x86_is_last e m \<and>
    x86_paddr e = p \<and> x86_prop False e = Some q \<and>
    x86_set_prop False e q' = Some e' \<and> x86_is_present e' \<and> x86_is_last e' m \<and>
    x86_paddr e' = p \<and> x86_prop False e' = Some q'"
proof -
  obtain e where e: "x86_new_page False p l q = Some e" "x86_is_present e" "x86_paddr e = p"
      "x86_is_last e l" "x86_prop False e = Some q"
    using x86_pte.page_law [OF assms(1,2), where l = l] by (auto simp: x86_pte_ops_def)
  obtain e' where "x86_set_prop False e q' = Some e'" "x86_is_present e'" "x86_paddr e' = x86_paddr e"
      "x86_is_last e' l" "x86_prop False e' = Some q'"
    using x86_pte.set_prop_law [of e l q'] e assms(3) by (auto simp: x86_pte_ops_def)
  then show ?thesis using e by (auto simp: x86_is_last_bit)
qed

definition shared_prop :: PageProperty where
  "shared_prop = \<lparr>flags = PF_R, cache = Writeback, priv_flags = PPF_SHARED\<rparr>"

definition unshared_prop :: PageProperty where
  "unshared_prop = \<lparr>flags = PF_R, cache = Writeback, priv_flags = 0\<rparr>"

text \<open>With the feature \<open>cvm_guest\<close> the contract of the entry fails.  The \<open>SHARED\<close> flag (bit 51) lies
  inside the physical-address mask, so a shared page reads back a different physical address, and
  making the page private again leaves it shared.\<close>

lemma x86_cvm_shared_leaks:
  "x86_valid_prop True shared_prop \<and> x86_valid_prop True unshared_prop \<and>
   (\<exists>e e'. x86_new_page True 0x1000 1 shared_prop = Some e \<and> x86_paddr e = 0x1000 + 2 ^ 51 \<and>
      x86_set_prop True e unshared_prop = Some e' \<and> x86_prop True e' = Some shared_prop)"
proof -
  have v: "x86_valid_prop True shared_prop" "x86_valid_prop True unshared_prop"
    by (simp_all add: x86_valid_prop_def prop_inv_def shared_prop_def unshared_prop_def cacheable_def
      page_flags_all_def priv_flags_all_def page_flag_defs)
  have pf: "bit (flags shared_prop) n \<longleftrightarrow> n = 0" "bit (flags unshared_prop) n \<longleftrightarrow> n = 0"
      "bit (priv_flags shared_prop) n \<longleftrightarrow> n = 7" "\<not> bit (priv_flags unshared_prop) n"
      "cache shared_prop = Writeback" "cache unshared_prop = Writeback" for n
  proof -
    have eq: "priv_flags shared_prop = 2 ^ 7" by (simp add: page_flag_defs shared_prop_def)
    show "bit (priv_flags shared_prop) n \<longleftrightarrow> n = 7" unfolding eq bit_exp_iff by auto
  qed (auto simp: shared_prop_def unshared_prop_def PF_R_def bit_1_iff)
  have va: "x86_valid_paddr 0x1000" by (simp add: x86_valid_paddr_def PAGE_SIZE_def)
  let ?b = "(of_nat 0x1000 AND PHYS_ADDR_MASK) OR X_HUGE"
  have hb: "bit ?b n \<longleftrightarrow> n = 12 \<or> n = 7" for n
  proof -
    have "(of_nat 0x1000 :: 64 word) = 2 ^ 12" by simp
    then have "bit (of_nat 0x1000 :: 64 word) n \<longleftrightarrow> n = 12" by (simp only: bit_exp_iff) auto
    moreover have "bit X_HUGE n \<longleftrightarrow> n = 7" unfolding x86_flag_exp bit_exp_iff by auto
    ultimately show ?thesis unfolding bit_or_iff bit_and_iff phys_addr_mask_bit by auto
  qed
  have c: "cacheable (cache shared_prop)" "cacheable (cache unshared_prop)"
    by (simp_all add: pf cacheable_def)
  obtain e where e0: "x86_set_prop True ?b shared_prop = Some e"
    "\<forall>n. bit e n \<longleftrightarrow> (12 \<le> n \<and> n < 52 \<or> n = 7) \<and> bit ?b n \<or> bit (x86_prop_flags True shared_prop) n \<or>
       n = 3 \<and> cache shared_prop = Writethrough \<or> n = 4 \<and> cache shared_prop = Uncacheable"
    using x86_set_prop_bits [OF x86_new_page_base(1) [OF va] c(1), of True] by blast
  have e: "x86_new_page True 0x1000 1 shared_prop = Some e" using e0(1) by (simp add: x86_new_page_def)
  have eb: "bit e n \<longleftrightarrow> n = 0 \<or> n = 7 \<or> n = 12 \<or> n = 51 \<or> n = 63" for n
    unfolding e0(2) [rule_format] hb x86_prop_flags_bit pf by auto
  have "x86_is_present e" by (simp add: x86_is_present_bit eb)
  then obtain e' where e': "x86_set_prop True e unshared_prop = Some e'"
    "\<forall>n. bit e' n \<longleftrightarrow> (12 \<le> n \<and> n < 52 \<or> n = 7) \<and> bit e n \<or> bit (x86_prop_flags True unshared_prop) n \<or>
       n = 3 \<and> cache unshared_prop = Writethrough \<or> n = 4 \<and> cache unshared_prop = Uncacheable"
    using x86_set_prop_bits [OF _ c(2), of e True] by blast
  have eb': "bit e' n \<longleftrightarrow> n = 0 \<or> n = 7 \<or> n = 12 \<or> n = 51 \<or> n = 63" for n
    unfolding e'(2) [rule_format] eb x86_prop_flags_bit pf by (auto simp: pf)
  obtain q where q: "x86_prop True e' = Some q" "\<forall>n. bit (flags q) n \<longleftrightarrow> n = 0"
      "\<forall>n. bit (priv_flags q) n \<longleftrightarrow> n = 7" "cache q = Writeback"
    using x86_prop_bits [of True e'] unfolding eb' by auto
  have "flags q = flags shared_prop" "priv_flags q = priv_flags shared_prop"
    by (rule bit_word_eqI; simp add: q pf)+
  then have "q = shared_prop" using q(4) pf(5) by simp
  moreover have "x86_paddr e = 0x1000 + 2 ^ 51"
  proof -
    have "e AND PHYS_ADDR_MASK = 2 ^ 12 OR 2 ^ 51"
      by (rule bit_word_eqI) (auto simp only: bit_and_iff bit_or_iff bit_exp_iff phys_addr_mask_bit eb; simp)
    then show ?thesis by (simp add: x86_paddr_def)
  qed
  ultimately show ?thesis using v e e'(1) q(1) by blast
qed

end
