(* ===== verification/Page_Table.thy ===== *)
theory Page_Table
  imports Page_Prop
begin

text \<open>
  Page-table nodes and entries: \<open>ostd/src/mm/page_table/node/{mod,child,entry}.rs\<close> and the page walk of
  \<open>ostd/src/mm/page_table/mod.rs\<close>.  Physical memory is an explicit store that maps the physical address
  of a page-table frame to its node: the \<open>2 ^ b\<close> entries in the frame and the fields of
  \<open>PageTablePageMeta\<close>.  A \<open>PageTableNode\<close>, a \<open>PageTableNodeRef\<close> and a \<open>PageTableGuard\<close> are the physical
  address of their node; \<open>paddr_to_vaddr\<close> only has to succeed for it.  Reading or writing at an address that holds no node is a panic of the model.

  The trait \<open>PageTableConfig\<close> is the record \<open>pt_config\<close>.  Two services that are not part of the code are the
  record \<open>pt_env\<close>: the frame allocator behind \<open>FrameAllocOptions\<close>, and \<open>dfs_mark_stray_and_unlock\<close>, whose body
  is \<open>unimplemented!()\<close> in the repository.
\<close>

section \<open>Nodes\<close>

record 'e pt_node =
  nlevel :: nat
  nr_children :: nat
  stray :: bool
  ptes :: "'e list"

type_synonym 'e pt_store = "Paddr \<Rightarrow> 'e pt_node option"

record ('e, 'i) pt_config =
  pconsts :: PagingConsts
  index_range :: PtRange
  TOP_LEVEL_CAN_UNMAP :: bool
  pte :: "'e pte_ops"
  item_into_raw :: "'i \<Rightarrow> (Paddr \<times> nat \<times> PageProperty) option"
  item_from_raw :: "Paddr \<Rightarrow> nat \<Rightarrow> PageProperty \<Rightarrow> 'i option"

record 'e pt_env =
  alloc_frame :: "'e pt_store \<Rightarrow> Paddr option"
  mark_stray :: "'e pt_store \<Rightarrow> Paddr \<Rightarrow> nat \<times> 'e pt_store"

definition node_new :: "('e, 'i) pt_config \<Rightarrow> nat \<Rightarrow> usize \<Rightarrow> 'e pt_node" where
  "node_new C level nr = \<lparr>nlevel = level, nr_children = 0, stray = False,
     ptes = replicate nr (new_absent (pte C))\<rparr>"

text \<open>\<open>PageTableNode::alloc\<close>: a zeroed frame; the all-zero entry is the absent entry.\<close>

definition node_alloc ::
    "('e, 'i) pt_config \<Rightarrow> 'e pt_env \<Rightarrow> 'e pt_store \<Rightarrow> nat \<Rightarrow> (Paddr \<times> 'e pt_store) option" where
  "node_alloc C env st level = do {
     nr \<leftarrow> nr_subpage_per_huge (pconsts C);
     p \<leftarrow> alloc_frame env st;
     Some (p, st(p \<mapsto> node_new C level nr))
   }"

definition read_pte :: "'e pt_store \<Rightarrow> Paddr \<Rightarrow> usize \<Rightarrow> 'e option" where
  "read_pte st n idx = do {
     v \<leftarrow> paddr_to_vaddr n;
     nd \<leftarrow> st n;
     rindex (ptes nd) idx
   }"

definition write_pte :: "'e pt_store \<Rightarrow> Paddr \<Rightarrow> usize \<Rightarrow> 'e \<Rightarrow> 'e pt_store option" where
  "write_pte st n idx e = do {
     v \<leftarrow> paddr_to_vaddr n;
     nd \<leftarrow> st n;
     es \<leftarrow> rset (ptes nd) idx e;
     Some (st(n \<mapsto> nd\<lparr>ptes := es\<rparr>))
   }"

definition node_level :: "'e pt_store \<Rightarrow> Paddr \<Rightarrow> nat option" where
  "node_level st n = map_option nlevel (st n)"

text \<open>The counter is a \<open>u16\<close>.\<close>

definition inc_children :: "'e pt_store \<Rightarrow> Paddr \<Rightarrow> 'e pt_store option" where
  "inc_children st n = do {
     nd \<leftarrow> st n;
     rassert (nr_children nd + 1 < 65536);
     Some (st(n \<mapsto> nd\<lparr>nr_children := nr_children nd + 1\<rparr>))
   }"

definition dec_children :: "'e pt_store \<Rightarrow> Paddr \<Rightarrow> 'e pt_store option" where
  "dec_children st n = do {
     nd \<leftarrow> st n;
     c \<leftarrow> usub (nr_children nd) 1;
     Some (st(n \<mapsto> nd\<lparr>nr_children := c\<rparr>))
   }"

section \<open>Children\<close>

datatype Child = PageTable Paddr | Frame Paddr nat PageProperty | Absent

fun child_into_pte :: "('e, 'i) pt_config \<Rightarrow> Child \<Rightarrow> 'e option" where
  "child_into_pte C (PageTable p) = Some (new_pt (pte C) p)"
| "child_into_pte C (Frame p level prop) = new_page (pte C) p level prop"
| "child_into_pte C Absent = Some (new_absent (pte C))"

definition child_from_pte :: "('e, 'i) pt_config \<Rightarrow> 'e \<Rightarrow> nat \<Rightarrow> Child option" where
  "child_from_pte C e level = (
     if \<not> is_present (pte C) e then Some Absent
     else if \<not> is_last (pte C) e level then Some (PageTable (pte_paddr (pte C) e))
     else do { prop \<leftarrow> pte_prop (pte C) e; Some (Frame (pte_paddr (pte C) e) level prop) })"

section \<open>Entries\<close>

text \<open>An \<open>Entry\<close> is a node and an index, with the entry's value as read when it was created.\<close>

record 'e Entry =
  e_pte :: 'e
  e_idx :: usize
  e_node :: Paddr

definition guard_entry :: "('e, 'i) pt_config \<Rightarrow> 'e pt_store \<Rightarrow> Paddr \<Rightarrow> usize \<Rightarrow> 'e Entry option" where
  "guard_entry C st n idx = do {
     nr \<leftarrow> nr_subpage_per_huge (pconsts C);
     rassert (idx < nr);
     e \<leftarrow> read_pte st n idx;
     Some \<lparr>e_pte = e, e_idx = idx, e_node = n\<rparr>
   }"

definition entry_is_none :: "('e, 'i) pt_config \<Rightarrow> 'e Entry \<Rightarrow> bool" where
  "entry_is_none C ent \<longleftrightarrow> \<not> is_present (pte C) (e_pte ent)"

definition entry_is_node :: "('e, 'i) pt_config \<Rightarrow> 'e pt_store \<Rightarrow> 'e Entry \<Rightarrow> bool option" where
  "entry_is_node C st ent = do {
     l \<leftarrow> node_level st (e_node ent);
     Some (is_present (pte C) (e_pte ent) \<and> \<not> is_last (pte C) (e_pte ent) l)
   }"

definition entry_to_ref :: "('e, 'i) pt_config \<Rightarrow> 'e pt_store \<Rightarrow> 'e Entry \<Rightarrow> Child option" where
  "entry_to_ref C st ent = do {
     l \<leftarrow> node_level st (e_node ent);
     child_from_pte C (e_pte ent) l
   }"

definition protect_child ::
    "('e, 'i) pt_config \<Rightarrow> 'e pt_store \<Rightarrow> Paddr \<Rightarrow> usize \<Rightarrow> (PageProperty \<Rightarrow> PageProperty) \<Rightarrow> 'e pt_store option" where
  "protect_child C st n idx op = do {
     e \<leftarrow> read_pte st n idx;
     prop \<leftarrow> pte_prop (pte C) e;
     e' \<leftarrow> set_prop (pte C) e (op prop);
     write_pte st n idx e'
   }"

text \<open>The level check at the start of \<open>replace\<close> and \<open>replace_child\<close>.\<close>

fun replace_level_ok :: "'e pt_store \<Rightarrow> nat \<Rightarrow> Child \<Rightarrow> unit option" where
  "replace_level_ok st guard_level (PageTable p) = do {
     l \<leftarrow> node_level st p; g \<leftarrow> usub guard_level 1; rassert (l = g) }"
| "replace_level_ok st guard_level (Frame p l prop) = rassert (l = guard_level)"
| "replace_level_ok st guard_level Absent = Some ()"

definition replace_child ::
    "('e, 'i) pt_config \<Rightarrow> 'e pt_store \<Rightarrow> Paddr \<Rightarrow> usize \<Rightarrow> Child \<Rightarrow> (Child \<times> 'e pt_store) option" where
  "replace_child C st n idx new = do {
     level \<leftarrow> node_level st n;
     replace_level_ok st level new;
     e \<leftarrow> read_pte st n idx;
     old \<leftarrow> child_from_pte C e level;
     st1 \<leftarrow> (if old = Absent \<and> new \<noteq> Absent then inc_children st n
             else if old \<noteq> Absent \<and> new = Absent then dec_children st n
             else Some st);
     e' \<leftarrow> child_into_pte C new;
     st2 \<leftarrow> write_pte st1 n idx e';
     Some (old, st2)
   }"

text \<open>\<open>Entry::alloc_if_none\<close> answers \<open>None\<close> for a present entry or at level 1.\<close>

definition alloc_if_none ::
    "('e, 'i) pt_config \<Rightarrow> 'e pt_env \<Rightarrow> 'e pt_store \<Rightarrow> 'e Entry \<Rightarrow> (Paddr option \<times> 'e pt_store) option" where
  "alloc_if_none C env st ent = do {
     level \<leftarrow> node_level st (e_node ent);
     if is_present (pte C) (e_pte ent) \<or> level \<le> 1 then Some (None, st)
     else do {
       (p, st1) \<leftarrow> node_alloc C env st (level - 1);
       e' \<leftarrow> child_into_pte C (PageTable p);
       st2 \<leftarrow> write_pte st1 (e_node ent) (e_idx ent) e';
       st3 \<leftarrow> inc_children st2 (e_node ent);
       Some (Some p, st3)
     }
   }"

definition alloc_absent_child ::
    "('e, 'i) pt_config \<Rightarrow> 'e pt_env \<Rightarrow> 'e pt_store \<Rightarrow> Paddr \<Rightarrow> usize \<Rightarrow> (Paddr \<times> 'e pt_store) option" where
  "alloc_absent_child C env st n idx = do {
     level \<leftarrow> node_level st n;
     l \<leftarrow> usub level 1;
     (p, st1) \<leftarrow> node_alloc C env st l;
     e' \<leftarrow> child_into_pte C (PageTable p);
     st2 \<leftarrow> write_pte st1 n idx e';
     st3 \<leftarrow> inc_children st2 n;
     Some (p, st3)
   }"

definition replace_absent_with_frame ::
    "('e, 'i) pt_config \<Rightarrow> 'e pt_store \<Rightarrow> Paddr \<Rightarrow> usize \<Rightarrow> Paddr \<Rightarrow> nat \<Rightarrow> PageProperty \<Rightarrow> 'e pt_store option" where
  "replace_absent_with_frame C st n idx p level prop = do {
     st1 \<leftarrow> inc_children st n;
     e \<leftarrow> child_into_pte C (Frame p level prop);
     write_pte st1 n idx e
   }"

text \<open>The loop of \<open>split_if_mapped_huge\<close> over the entries of the new node.\<close>

fun split_fill ::
    "('e, 'i) pt_config \<Rightarrow> 'e pt_store \<Rightarrow> Paddr \<Rightarrow> Paddr \<Rightarrow> nat \<Rightarrow> PageProperty \<Rightarrow> usize list \<Rightarrow> 'e pt_store option" where
  "split_fill C st n pa level prop [] = Some st"
| "split_fill C st n pa level prop (i # is) = do {
     l \<leftarrow> usub level 1;
     ps \<leftarrow> page_size (pconsts C) l;
     off \<leftarrow> umul i ps;
     small_pa \<leftarrow> uadd pa off;
     st1 \<leftarrow> replace_absent_with_frame C st n i small_pa l prop;
     split_fill C st1 n pa level prop is
   }"

definition split_if_mapped_huge ::
    "('e, 'i) pt_config \<Rightarrow> 'e pt_env \<Rightarrow> 'e pt_store \<Rightarrow> 'e Entry \<Rightarrow> (Paddr option \<times> 'e pt_store) option" where
  "split_if_mapped_huge C env st ent = do {
     level \<leftarrow> node_level st (e_node ent);
     if \<not> (is_last (pte C) (e_pte ent) level \<and> level > 1) then Some (None, st)
     else do {
       prop \<leftarrow> pte_prop (pte C) (e_pte ent);
       (p, st1) \<leftarrow> node_alloc C env st (level - 1);
       nr \<leftarrow> nr_subpage_per_huge (pconsts C);
       st2 \<leftarrow> split_fill C st1 p (pte_paddr (pte C) (e_pte ent)) level prop [0..<nr];
       e' \<leftarrow> child_into_pte C (PageTable p);
       st3 \<leftarrow> write_pte st2 (e_node ent) (e_idx ent) e';
       Some (Some p, st3)
     }
   }"

section \<open>The page walk\<close>

text \<open>\<open>page_walk\<close>: the outer \<open>option\<close> is the panic (the \<open>unreachable!\<close> below level 1, the \<open>debug_assert!\<close>, or
  a walk that leaves the page tables), the inner one the answer.\<close>

fun page_walk_from ::
    "('e, 'i) pt_config \<Rightarrow> 'e pt_store \<Rightarrow> Paddr \<Rightarrow> nat \<Rightarrow> Vaddr \<Rightarrow> (Paddr \<times> PageProperty) option option" where
  "page_walk_from C st n 0 va = None"
| "page_walk_from C st n (Suc l) va = do {
     offset \<leftarrow> pte_index (pconsts C) va (Suc l);
     e \<leftarrow> read_pte st n offset;
     if \<not> is_present (pte C) e then Some None
     else if is_last (pte C) e (Suc l) then do {
       rassert (Suc l \<le> HIGHEST_TRANSLATION_LEVEL (pconsts C));
       ps \<leftarrow> page_size (pconsts C) (Suc l);
       m \<leftarrow> usub ps 1;
       pa \<leftarrow> uadd (pte_paddr (pte C) e) (va AND m);
       prop \<leftarrow> pte_prop (pte C) e;
       Some (Some (pa, prop))
     }
     else page_walk_from C st (pte_paddr (pte C) e) l va
   }"

definition page_walk ::
    "('e, 'i) pt_config \<Rightarrow> 'e pt_store \<Rightarrow> Paddr \<Rightarrow> Vaddr \<Rightarrow> (Paddr \<times> PageProperty) option option" where
  "page_walk C st root va = page_walk_from C st root (PC_NR_LEVELS (pconsts C)) va"

end
