(* ===== verification/Pt_Cursor.thy ===== *)
theory Pt_Cursor
  imports Page_Table
begin

text \<open>
  The page-table cursor: \<open>ostd/src/mm/page_table/cursor/mod.rs\<close> and the choice of the subtree root in
  \<open>ostd/src/mm/page_table/cursor/locking.rs\<close>.  An operation takes the page-table store and the cursor and
  returns both; \<open>None\<close> is a panic.  Loops are functions whose termination is proved: descending lowers the
  level, and moving forward raises the virtual address.
\<close>

section \<open>The cursor\<close>

datatype PageTableError = InvalidVaddrRange Vaddr Vaddr | InvalidVaddr Vaddr | UnalignedVaddr

record Cursor =
  path :: "Paddr option list"
  level :: nat
  guard_level :: nat
  va :: Vaddr
  barrier_start :: Vaddr
  barrier_end :: Vaddr

definition MAX_NR_LEVELS :: nat where "MAX_NR_LEVELS = 4"

datatype 'i PageTableFrag =
    Mapped Vaddr 'i
  | StrayPageTable Paddr Vaddr usize usize

section \<open>Moving\<close>

definition path_slot :: "Cursor \<Rightarrow> nat \<Rightarrow> Paddr option" where
  "path_slot c l = do { i \<leftarrow> usub l 1; s \<leftarrow> rindex (path c) i; s }"

definition cur_va_range :: "('e, 'i) pt_config \<Rightarrow> Cursor \<Rightarrow> (Vaddr \<times> Vaddr) option" where
  "cur_va_range C c = do {
     ps \<leftarrow> page_size (pconsts C) (level c);
     start \<leftarrow> usize_align_down (va c) ps;
     e \<leftarrow> uadd start ps;
     Some (start, e)
   }"

definition cur_entry :: "('e, 'i) pt_config \<Rightarrow> 'e pt_store \<Rightarrow> Cursor \<Rightarrow> 'e Entry option" where
  "cur_entry C st c = do {
     n \<leftarrow> path_slot c (level c);
     i \<leftarrow> pte_index (pconsts C) (va c) (level c);
     guard_entry C st n i
   }"

definition push_level :: "Cursor \<Rightarrow> Paddr \<Rightarrow> Cursor option" where
  "push_level c child = do {
     l \<leftarrow> usub (level c) 1;
     i \<leftarrow> usub l 1;
     p \<leftarrow> rset (path c) i (Some child);
     Some (c\<lparr>level := l, path := p\<rparr>)
   }"

definition pop_level :: "Cursor \<Rightarrow> Cursor option" where
  "pop_level c = do {
     i \<leftarrow> usub (level c) 1;
     s \<leftarrow> rindex (path c) i;
     n \<leftarrow> s;
     p \<leftarrow> rset (path c) i None;
     Some (c\<lparr>path := p, level := level c + 1\<rparr>)
   }"

lemma pop_level_SomeD:
  "pop_level c = Some c' \<Longrightarrow> level c' = level c + 1 \<and> 1 \<le> level c \<and> level c \<le> length (path c) \<and>
     length (path c') = length (path c) \<and> guard_level c' = guard_level c \<and> va c' = va c \<and>
     barrier_start c' = barrier_start c \<and> barrier_end c' = barrier_end c"
  by (auto simp: pop_level_def bind_eq_Some_conv checked)

lemma push_level_SomeD:
  "push_level c n = Some c' \<Longrightarrow> level c = level c' + 1 \<and> 1 \<le> level c' \<and> va c' = va c \<and>
     length (path c') = length (path c) \<and> guard_level c' = guard_level c \<and>
     barrier_start c' = barrier_start c \<and> barrier_end c' = barrier_end c"
  by (auto simp: push_level_def bind_eq_Some_conv checked)

text \<open>The \<open>while\<close> loop of \<open>move_forward\<close>.\<close>

function pop_while_zero :: "('e, 'i) pt_config \<Rightarrow> Vaddr \<Rightarrow> Cursor \<Rightarrow> Cursor option" where
  "pop_while_zero C next_va c = (
     if level c < guard_level c then do {
       i \<leftarrow> pte_index (pconsts C) next_va (level c);
       if i = 0 then do { c' \<leftarrow> pop_level c; pop_while_zero C next_va c' } else Some c
     } else Some c)"
  by pat_completeness auto
termination
  by (relation "measure (\<lambda>(C, v, c). guard_level c - level c)") (auto dest!: pop_level_SomeD)

declare pop_while_zero.simps [simp del]

definition move_forward :: "('e, 'i) pt_config \<Rightarrow> Cursor \<Rightarrow> Cursor option" where
  "move_forward C c = do {
     r \<leftarrow> cur_va_range C c;
     c' \<leftarrow> pop_while_zero C (snd r) c;
     Some (c'\<lparr>va := snd r\<rparr>)
   }"

lemma cur_va_range_SomeD:
  "cur_va_range C c = Some (s, e) \<Longrightarrow> s \<le> va c \<and> va c < e"
proof -
  assume "cur_va_range C c = Some (s, e)"
  then obtain ps where ps: "s = nat_align_down (va c) ps" "2 \<le> ps" "e = s + ps"
    by (auto simp: cur_va_range_def bind_eq_Some_conv checked dest: usize_align_down_SomeD)
  have "va c mod ps < ps" using ps(2) by (intro mod_less_divisor) simp
  then have "va c < nat_align_down (va c) ps + ps"
    unfolding nat_align_down_def using div_mult_mod_eq [of "va c" ps] by linarith
  then show ?thesis using ps nat_align_down_le [of "va c" ps] by simp
qed

lemma pop_while_zero_SomeD:
  "pop_while_zero C v c = Some c' \<Longrightarrow> guard_level c' = guard_level c \<and> va c' = va c \<and>
     barrier_start c' = barrier_start c \<and> barrier_end c' = barrier_end c \<and>
     length (path c') = length (path c)"
proof (induction C v c rule: pop_while_zero.induct)
  case (1 C next_va c)
  show ?case
  proof (cases "level c < guard_level c \<and> pte_index (pconsts C) next_va (level c) = Some 0")
    case True
    then obtain c1 where "pop_level c = Some c1" "pop_while_zero C next_va c1 = Some c'"
      using 1(2) by (auto simp: pop_while_zero.simps [of C next_va c] bind_eq_Some_conv)
    then show ?thesis using 1(1) [of 0 c1] True pop_level_SomeD [of c c1] by auto
  next
    case False
    then show ?thesis using 1(2)
      by (auto simp: pop_while_zero.simps [of C next_va c] bind_eq_Some_conv split: if_splits)
  qed
qed

lemma move_forward_SomeD:
  "move_forward C c = Some c' \<Longrightarrow> va c < va c' \<and> guard_level c' = guard_level c \<and>
     barrier_start c' = barrier_start c \<and> barrier_end c' = barrier_end c"
  by (auto simp: move_forward_def bind_eq_Some_conv dest!: cur_va_range_SomeD pop_while_zero_SomeD)

text \<open>The loop of \<open>jump\<close>; popping past the path panics.\<close>

function jump_loop :: "('e, 'i) pt_config \<Rightarrow> Vaddr \<Rightarrow> Cursor \<Rightarrow> Cursor option" where
  "jump_loop C v c = do {
     node_size \<leftarrow> page_size (pconsts C) (level c + 1);
     node_start \<leftarrow> usize_align_down (va c) node_size;
     if level c \<le> guard_level c \<and> node_start \<le> v \<and> v - node_start < node_size
     then Some (c\<lparr>va := v\<rparr>)
     else do { c' \<leftarrow> pop_level c; jump_loop C v c' }
   }"
  by pat_completeness auto
termination
  by (relation "measure (\<lambda>(C, v, c). length (path c) + 1 - level c)") (auto dest!: pop_level_SomeD)

declare jump_loop.simps [simp del]

definition jump :: "('e, 'i) pt_config \<Rightarrow> Cursor \<Rightarrow> Vaddr \<Rightarrow> (PageTableError + Cursor) option" where
  "jump C c v = do {
     rassert (v mod PAGE_SIZE = 0);
     if \<not> (barrier_start c \<le> v \<and> v < barrier_end c) then Some (Inl (InvalidVaddr v))
     else map_option Inr (jump_loop C v c)
   }"

section \<open>Querying\<close>

function query_loop ::
    "('e, 'i) pt_config \<Rightarrow> 'e pt_store \<Rightarrow> Cursor \<Rightarrow> (((Vaddr \<times> Vaddr) \<times> 'i option) \<times> Cursor) option" where
  "query_loop C st c = do {
     ent \<leftarrow> cur_entry C st c;
     child \<leftarrow> entry_to_ref C st ent;
     case child of
       PageTable pt \<Rightarrow> do { c' \<leftarrow> push_level c pt; query_loop C st c' }
     | Absent \<Rightarrow> do { r \<leftarrow> cur_va_range C c; Some ((r, None), c) }
     | Frame pa ch_level prop \<Rightarrow> do {
         item \<leftarrow> item_from_raw C pa (level c) prop;
         r \<leftarrow> cur_va_range C c;
         Some ((r, Some item), c)
       }
   }"
  by pat_completeness auto
termination
  by (relation "measure (\<lambda>(C, st, c). level c)") (auto dest!: push_level_SomeD)

declare query_loop.simps [simp del]

definition query ::
    "('e, 'i) pt_config \<Rightarrow> 'e pt_store \<Rightarrow> Cursor \<Rightarrow>
     ((PageTableError + (Vaddr \<times> Vaddr) \<times> 'i option) \<times> Cursor) option" where
  "query C st c = (
     if va c \<ge> barrier_end c then Some (Inl (InvalidVaddr (va c)), c)
     else map_option (map_prod Inr id) (query_loop C st c))"

section \<open>Finding the next mapping\<close>

function find_next_loop ::
    "('e, 'i) pt_config \<Rightarrow> 'e pt_env \<Rightarrow> bool \<Rightarrow> bool \<Rightarrow> Vaddr \<Rightarrow> 'e pt_store \<Rightarrow> Cursor \<Rightarrow>
     (Vaddr option \<times> 'e pt_store \<times> Cursor) option" where
  "find_next_loop C env find_unmap_subtree split_huge end st c = (
     if va c < end then do {
       r \<leftarrow> cur_va_range C c;
       let fits = (va c = fst r \<and> snd r \<le> end);
       ent \<leftarrow> cur_entry C st c;
       child \<leftarrow> entry_to_ref C st ent;
       case child of
         PageTable pt \<Rightarrow>
           if find_unmap_subtree \<and> fits \<and> (TOP_LEVEL_CAN_UNMAP C \<or> level c \<noteq> PC_NR_LEVELS (pconsts C))
           then Some (Some (va c), st, c)
           else do {
             nd \<leftarrow> st pt;
             c' \<leftarrow> (if nr_children nd \<noteq> 0 then push_level c pt else move_forward C c);
             find_next_loop C env find_unmap_subtree split_huge end st c'
           }
       | Absent \<Rightarrow> do {
           c' \<leftarrow> move_forward C c;
           find_next_loop C env find_unmap_subtree split_huge end st c'
         }
       | Frame pa l prop \<Rightarrow>
           if fits \<or> \<not> split_huge then Some (Some (va c), st, c)
           else do {
             (sp, st') \<leftarrow> split_if_mapped_huge C env st ent;
             p \<leftarrow> sp;
             c' \<leftarrow> push_level c p;
             find_next_loop C env find_unmap_subtree split_huge end st' c'
           }
     } else Some (None, st, c))"
  by pat_completeness auto
termination
  by (relation "measures [\<lambda>(C, env, u, s, e, st, c). e - va c, \<lambda>(C, env, u, s, e, st, c). level c]")
     (auto dest!: push_level_SomeD move_forward_SomeD split: if_splits)

declare find_next_loop.simps [simp del]

definition find_next_impl ::
    "('e, 'i) pt_config \<Rightarrow> 'e pt_env \<Rightarrow> 'e pt_store \<Rightarrow> Cursor \<Rightarrow> usize \<Rightarrow> bool \<Rightarrow> bool \<Rightarrow>
     (Vaddr option \<times> 'e pt_store \<times> Cursor) option" where
  "find_next_impl C env st c len find_unmap_subtree split_huge = do {
     rassert (BASE_PAGE_SIZE (pconsts C) \<noteq> 0 \<and> len mod BASE_PAGE_SIZE (pconsts C) = 0);
     room \<leftarrow> usub (barrier_end c) (va c);
     rassert (len \<le> room);
     end \<leftarrow> uadd (va c) len;
     (r, st', c') \<leftarrow> find_next_loop C env find_unmap_subtree split_huge end st c;
     Some (r, st', (case r of
        Some v \<Rightarrow> c'
      | None \<Rightarrow> if va c' > barrier_end c' then c'\<lparr>va := barrier_end c'\<rparr> else c'))
   }"

definition find_next ::
    "('e, 'i) pt_config \<Rightarrow> 'e pt_env \<Rightarrow> 'e pt_store \<Rightarrow> Cursor \<Rightarrow> usize \<Rightarrow>
     (Vaddr option \<times> 'e pt_store \<times> Cursor) option" where
  "find_next C env st c len = find_next_impl C env st c len False False"

section \<open>Modifying\<close>

function map_loop ::
    "('e, 'i) pt_config \<Rightarrow> 'e pt_env \<Rightarrow> nat \<Rightarrow> 'e pt_store \<Rightarrow> Cursor \<Rightarrow> ('e pt_store \<times> Cursor) option" where
  "map_loop C env lvl st c = (
     if level c = lvl then Some (st, c)
     else if level c < lvl then do { c' \<leftarrow> pop_level c; map_loop C env lvl st c' }
     else do {
       ent \<leftarrow> cur_entry C st c;
       child \<leftarrow> entry_to_ref C st ent;
       case child of
         PageTable pt \<Rightarrow> do { c' \<leftarrow> push_level c pt; map_loop C env lvl st c' }
       | Absent \<Rightarrow> do {
           i \<leftarrow> pte_index (pconsts C) (va c) (level c);
           n \<leftarrow> path_slot c (level c);
           (p, st') \<leftarrow> alloc_absent_child C env st n i;
           c' \<leftarrow> push_level c p;
           map_loop C env lvl st' c'
         }
       | Frame pa l prop \<Rightarrow> do {
           (sp, st') \<leftarrow> split_if_mapped_huge C env st ent;
           p \<leftarrow> sp;
           c' \<leftarrow> push_level c p;
           map_loop C env lvl st' c'
         }
     })"
  by pat_completeness auto
termination
  by (relation "measure (\<lambda>(C, env, lvl, st, c). (level c - lvl) + (lvl - level c))")
     (auto dest!: push_level_SomeD pop_level_SomeD)

declare map_loop.simps [simp del]

definition replace_cur_entry ::
    "('e, 'i) pt_config \<Rightarrow> 'e pt_env \<Rightarrow> 'e pt_store \<Rightarrow> Cursor \<Rightarrow> Child \<Rightarrow>
     ('i PageTableFrag option \<times> 'e pt_store) option" where
  "replace_cur_entry C env st c new = do {
     i \<leftarrow> pte_index (pconsts C) (va c) (level c);
     n \<leftarrow> path_slot c (level c);
     (old, st1) \<leftarrow> replace_child C st n i new;
     case old of
       Absent \<Rightarrow> Some (None, st1)
     | Frame pa l prop \<Rightarrow> do {
         item \<leftarrow> item_from_raw C pa (level c) prop;
         Some (Some (Mapped (va c) item), st1)
       }
     | PageTable pt \<Rightarrow> do {
         rassert (TOP_LEVEL_CAN_UNMAP C \<or> level c \<noteq> NR_LEVELS);
         len \<leftarrow> page_size (pconsts C) (level c);
         Some (Some (StrayPageTable pt (va c) len (fst (mark_stray env st1 pt))), snd (mark_stray env st1 pt))
       }
   }"

definition cursor_map ::
    "('e, 'i) pt_config \<Rightarrow> 'e pt_env \<Rightarrow> 'e pt_store \<Rightarrow> Cursor \<Rightarrow> 'i \<Rightarrow>
     (('i PageTableFrag + unit) \<times> 'e pt_store \<times> Cursor) option" where
  "cursor_map C env st c item = do {
     rassert (va c < barrier_end c);
     (pa, lvl, prop) \<leftarrow> item_into_raw C item;
     rassert (lvl \<le> HIGHEST_TRANSLATION_LEVEL (pconsts C) \<and> lvl \<le> guard_level c);
     size \<leftarrow> page_size (pconsts C) lvl;
     rassert (size \<noteq> 0 \<and> va c mod size = 0);
     room \<leftarrow> usub (barrier_end c) (va c);
     rassert (size \<le> room);
     (st1, c1) \<leftarrow> map_loop C env lvl st c;
     (frag, st2) \<leftarrow> replace_cur_entry C env st1 c1 (Frame pa lvl prop);
     c2 \<leftarrow> move_forward C c1;
     Some ((case frag of None \<Rightarrow> Inr () | Some f \<Rightarrow> Inl f), st2, c2)
   }"

definition take_next ::
    "('e, 'i) pt_config \<Rightarrow> 'e pt_env \<Rightarrow> 'e pt_store \<Rightarrow> Cursor \<Rightarrow> usize \<Rightarrow>
     ('i PageTableFrag option \<times> 'e pt_store \<times> Cursor) option" where
  "take_next C env st c len = do {
     (r, st1, c1) \<leftarrow> find_next_impl C env st c len True True;
     case r of
       None \<Rightarrow> Some (None, st1, c1)
     | Some v \<Rightarrow> do {
         (frag, st2) \<leftarrow> replace_cur_entry C env st1 c1 Absent;
         c2 \<leftarrow> move_forward C c1;
         Some (frag, st2, c2)
       }
   }"

definition protect_cur_entry ::
    "('e, 'i) pt_config \<Rightarrow> 'e pt_store \<Rightarrow> Cursor \<Rightarrow> (PageProperty \<Rightarrow> PageProperty) \<Rightarrow> 'e pt_store option" where
  "protect_cur_entry C st c op = do {
     i \<leftarrow> pte_index (pconsts C) (va c) (level c);
     n \<leftarrow> path_slot c (level c);
     protect_child C st n i op
   }"

definition protect_next ::
    "('e, 'i) pt_config \<Rightarrow> 'e pt_env \<Rightarrow> 'e pt_store \<Rightarrow> Cursor \<Rightarrow> usize \<Rightarrow> (PageProperty \<Rightarrow> PageProperty) \<Rightarrow>
     ((Vaddr \<times> Vaddr) option \<times> 'e pt_store \<times> Cursor) option" where
  "protect_next C env st c len op = do {
     (r, st1, c1) \<leftarrow> find_next_impl C env st c len False True;
     case r of
       None \<Rightarrow> Some (None, st1, c1)
     | Some v \<Rightarrow> do {
         st2 \<leftarrow> protect_cur_entry C st1 c1 op;
         protected_va \<leftarrow> cur_va_range C c1;
         c2 \<leftarrow> move_forward C c1;
         Some (Some protected_va, st2, c2)
       }
   }"

section \<open>Creating a cursor\<close>

text \<open>\<open>try_traverse_and_lock_subtree_root\<close>: descend while the range lies below one entry, allocating
  missing nodes; the node where the descent stops is the subtree root.  A stray node makes the attempt
  fail (the inner \<open>None\<close>), and \<open>lock_range\<close> retries.\<close>

fun traverse ::
    "('e, 'i) pt_config \<Rightarrow> 'e pt_env \<Rightarrow> Vaddr \<times> Vaddr \<Rightarrow> nat \<Rightarrow> 'e pt_store \<Rightarrow> Paddr \<Rightarrow>
     (Paddr option \<times> 'e pt_store) option" where
  "traverse C env r 0 st cur = Some (Some cur, st)"
| "traverse C env r (Suc l) st cur = do {
     start_idx \<leftarrow> pte_index (pconsts C) (fst r) (Suc l);
     last \<leftarrow> usub (snd r) 1;
     end_idx \<leftarrow> pte_index (pconsts C) last (Suc l);
     if \<not> (Suc l > 1 \<and> start_idx = end_idx) then Some (Some cur, st)
     else do {
       e \<leftarrow> read_pte st cur start_idx;
       if is_present (pte C) e then
         (if is_last (pte C) e (Suc l) then Some (Some cur, st)
          else traverse C env r l st (pte_paddr (pte C) e))
       else do {
         nd \<leftarrow> st cur;
         if stray nd then Some (None, st)
         else do {
           ent \<leftarrow> guard_entry C st cur start_idx;
           node \<leftarrow> entry_is_node C st ent;
           if entry_is_none C ent then do {
             (p, st1) \<leftarrow> alloc_if_none C env st ent;
             child \<leftarrow> p;
             traverse C env r l st1 child
           }
           else if node then do {
             ch \<leftarrow> entry_to_ref C st ent;
             (case ch of PageTable pt \<Rightarrow> traverse C env r l st pt | _ \<Rightarrow> None)
           }
           else Some (Some cur, st)
         }
       }
     }
   }"

definition try_traverse_and_lock_subtree_root ::
    "('e, 'i) pt_config \<Rightarrow> 'e pt_env \<Rightarrow> 'e pt_store \<Rightarrow> Paddr \<Rightarrow> Vaddr \<times> Vaddr \<Rightarrow>
     (Paddr option \<times> 'e pt_store) option" where
  "try_traverse_and_lock_subtree_root C env st root r = do {
     (p, st1) \<leftarrow> traverse C env r (PC_NR_LEVELS (pconsts C)) st root;
     case p of
       None \<Rightarrow> Some (None, st1)
     | Some n \<Rightarrow> do { nd \<leftarrow> st1 n; Some (if stray nd then None else Some n, st1) }
   }"

text \<open>\<open>lock_range\<close> when the first attempt succeeds; the inner \<open>None\<close> is an attempt that met a stray node.\<close>

definition lock_range ::
    "('e, 'i) pt_config \<Rightarrow> 'e pt_env \<Rightarrow> 'e pt_store \<Rightarrow> Paddr \<Rightarrow> Vaddr \<times> Vaddr \<Rightarrow>
     (Cursor option \<times> 'e pt_store) option" where
  "lock_range C env st root r = do {
     (p, st1) \<leftarrow> try_traverse_and_lock_subtree_root C env st root r;
     case p of
       None \<Rightarrow> Some (None, st1)
     | Some n \<Rightarrow> do {
         g \<leftarrow> node_level st1 n;
         i \<leftarrow> usub g 1;
         pth \<leftarrow> rset (replicate MAX_NR_LEVELS None) i (Some n);
         Some (Some \<lparr>path = pth, level = g, guard_level = g, va = fst r,
                 barrier_start = fst r, barrier_end = snd r\<rparr>, st1)
       }
   }"

definition cursor_new ::
    "('e, 'i) pt_config \<Rightarrow> 'e pt_env \<Rightarrow> 'e pt_store \<Rightarrow> Paddr \<Rightarrow> Vaddr \<times> Vaddr \<Rightarrow>
     ((PageTableError + Cursor option) \<times> 'e pt_store) option" where
  "cursor_new C env st root r = do {
     valid \<leftarrow> is_valid_range (pconsts C) (index_range C) r;
     if \<not> valid \<or> fst r \<ge> snd r then Some (Inl (InvalidVaddrRange (fst r) (snd r)), st)
     else do {
       rassert (BASE_PAGE_SIZE (pconsts C) \<noteq> 0);
       if fst r mod BASE_PAGE_SIZE (pconsts C) \<noteq> 0 \<or> snd r mod BASE_PAGE_SIZE (pconsts C) \<noteq> 0
       then Some (Inl UnalignedVaddr, st)
       else do { (c, st1) \<leftarrow> lock_range C env st root r; Some (Inr c, st1) }
     }
   }"

end
