(* ===== verification/Pt_Inv.thy ===== *)
theory Pt_Inv
  imports Page_Table
begin

text \<open>
  The invariant of a page table and what the primitive updates of its nodes do to translations.  A
  labelling assigns to each node of the tree its level and the address prefix it is responsible for; the
  invariant says that an entry that points to a page table points to the node with the extended prefix,
  that every labelled node below the root is pointed to, and that two nodes never share a label.  So a
  write to one entry concerns exactly the addresses with that entry's prefix, whatever the shape of the
  rest of the tree.  The lemmas are proved in the locale \<open>page_table\<close>, over any configuration that meets the
  contracts of its parts.
\<close>

section \<open>Addresses\<close>

text \<open>The parameters of the invariant: logarithms of page size and node size, bound of physical addresses,
  number of frames the allocator can serve, admissible properties and items.\<close>

record pt_ghost =
  g_k :: nat
  g_b :: nat
  g_limit :: nat
  g_nodes :: nat
  g_prop :: "PageProperty \<Rightarrow> bool"
  g_item :: "Paddr \<Rightarrow> nat \<Rightarrow> PageProperty \<Rightarrow> bool"

definition gsz :: "pt_ghost \<Rightarrow> nat \<Rightarrow> nat" where
  "gsz G l = level_bytes (g_k G) (g_b G) l"

definition gW :: "pt_ghost \<Rightarrow> nat" where
  "gW G = gsz G (NR_LEVELS + 1)"

definition va_pre :: "pt_ghost \<Rightarrow> nat \<Rightarrow> Vaddr \<Rightarrow> nat" where
  "va_pre G l va = va mod gW G div gsz G (l + 1)"

definition va_idx :: "pt_ghost \<Rightarrow> nat \<Rightarrow> Vaddr \<Rightarrow> nat" where
  "va_idx G l va = va div gsz G l mod 2 ^ g_b G"

lemma gsz_pos [simp]: "0 < gsz G l"
  by (simp add: gsz_def level_bytes_def)

lemma gsz_Suc: "1 \<le> l \<Longrightarrow> gsz G (l + 1) = gsz G l * 2 ^ g_b G"
  by (cases l) (simp_all add: gsz_def level_bytes_def power_add add.assoc add.commute mult.commute)

lemma gsz_dvd: "1 \<le> l \<Longrightarrow> l \<le> m \<Longrightarrow> gsz G l dvd gsz G m"
proof -
  assume "1 \<le> l" "l \<le> m"
  then have "g_k G + g_b G * (l - 1) \<le> g_k G + g_b G * (m - 1)" by (simp add: diff_le_mono)
  then show ?thesis unfolding gsz_def level_bytes_def by (rule le_imp_power_dvd)
qed

lemma gsz_le: "1 \<le> l \<Longrightarrow> l \<le> m \<Longrightarrow> gsz G l \<le> gsz G m"
  by (rule dvd_imp_le [OF gsz_dvd]) simp_all

lemma gW_pos [simp]: "0 < gW G"
  by (simp add: gW_def)

lemma gsz_dvd_gW: "1 \<le> l \<Longrightarrow> l \<le> NR_LEVELS + 1 \<Longrightarrow> gsz G l dvd gW G"
  unfolding gW_def by (rule gsz_dvd)

lemma mod_div_mod:
  fixes x s n w :: nat
  assumes "s * n dvd w"
  shows "x mod w div s mod n = x div s mod n"
proof (cases "s = 0 \<or> n = 0")
  case False
  obtain t where w: "w = s * n * t" using assms by (elim dvdE)
  have "x mod w div s = x div s mod (n * t)"
    using w mod_mult2_eq [of x s "n * t"] False by (simp add: mult.assoc)
  then show ?thesis by (simp add: mod_mod_cancel)
next
  case True
  then show ?thesis using assms by auto
qed

lemma va_pre_step:
  assumes "1 \<le> l" "l \<le> NR_LEVELS"
  shows "va_pre G (l - 1) va = va_pre G l va * 2 ^ g_b G + va_idx G l va"
proof -
  let ?x = "va mod gW G"
  have s: "gsz G (l + 1) = gsz G l * 2 ^ g_b G" by (rule gsz_Suc [OF assms(1)])
  have "gsz G l * 2 ^ g_b G dvd gW G" using gsz_dvd_gW [of "l + 1" G] assms s by simp
  then have i: "?x div gsz G l mod 2 ^ g_b G = va_idx G l va"
    unfolding va_idx_def by (rule mod_div_mod)
  have "va_pre G (l - 1) va = ?x div gsz G l" using assms by (simp add: va_pre_def)
  also have "\<dots> = ?x div gsz G l div 2 ^ g_b G * 2 ^ g_b G + ?x div gsz G l mod 2 ^ g_b G"
    by (simp only: div_mult_mod_eq)
  also have "?x div gsz G l div 2 ^ g_b G = va_pre G l va"
    by (simp only: va_pre_def s div_mult2_eq)
  finally show ?thesis using i by simp
qed

lemma va_pre_top [simp]: "va_pre G NR_LEVELS va = 0"
  by (simp add: va_pre_def gW_def)

lemma va_idx_lt [simp]: "va_idx G l va < 2 ^ g_b G"
  by (simp add: va_idx_def)

lemma radix_eq:
  fixes p q i j n :: nat
  assumes "i < n" "j < n"
  shows "p * n + i = q * n + j \<longleftrightarrow> p = q \<and> i = j"
proof
  assume e: "p * n + i = q * n + j"
  have "(p * n + i) div n = p" "(q * n + j) div n = q" using assms by simp_all
  then show "p = q \<and> i = j" using e by simp
qed simp

lemma va_pre_eq_step:
  assumes "1 \<le> l" "l \<le> NR_LEVELS" "i < 2 ^ g_b G"
  shows "va_pre G (l - 1) v = p * 2 ^ g_b G + i \<longleftrightarrow> va_pre G l v = p \<and> va_idx G l v = i"
  using va_pre_step [OF assms(1,2), of G v] radix_eq [OF va_idx_lt assms(3)] by simp

section \<open>The invariant\<close>

lemma map_leD: "m \<subseteq>\<^sub>m m' \<Longrightarrow> m k = Some v \<Longrightarrow> m' k = Some v"
  by (metis domI map_le_def)

type_synonym pt_pos = "Paddr \<Rightarrow> (nat \<times> nat) option"

definition leaf_ok :: "pt_ghost \<Rightarrow> Paddr \<Rightarrow> nat \<Rightarrow> PageProperty \<Rightarrow> bool" where
  "leaf_ok G pa l q \<longleftrightarrow> gsz G l dvd pa \<and> pa + gsz G l \<le> g_limit G \<and> g_prop G q \<and> g_item G pa l q"

definition entry_ok :: "('e, 'i) pt_config \<Rightarrow> pt_ghost \<Rightarrow> pt_pos \<Rightarrow> nat \<Rightarrow> nat \<Rightarrow> nat \<Rightarrow> 'e \<Rightarrow> bool" where
  "entry_ok C G pos l p i e \<longleftrightarrow> (is_present (pte C) e \<longrightarrow>
     (if is_last (pte C) e l
      then l \<le> HIGHEST_TRANSLATION_LEVEL (pconsts C) \<and>
        (\<exists>q. pte_prop (pte C) e = Some q \<and> leaf_ok G (pte_paddr (pte C) e) l q)
      else 1 < l \<and> pos (pte_paddr (pte C) e) = Some (l - 1, p * 2 ^ g_b G + i)))"

definition children_count :: "('e, 'i) pt_config \<Rightarrow> 'e list \<Rightarrow> nat" where
  "children_count C es = length (filter (is_present (pte C)) es)"

definition node_ok :: "('e, 'i) pt_config \<Rightarrow> pt_ghost \<Rightarrow> pt_pos \<Rightarrow> nat \<Rightarrow> nat \<Rightarrow> 'e pt_node \<Rightarrow> bool" where
  "node_ok C G pos l p nd \<longleftrightarrow> nlevel nd = l \<and> length (ptes nd) = 2 ^ g_b G \<and>
     nr_children nd = children_count C (ptes nd) \<and>
     (\<forall>i < 2 ^ g_b G. entry_ok C G pos l p i (ptes nd ! i))"

definition points_to :: "('e, 'i) pt_config \<Rightarrow> 'e \<Rightarrow> nat \<Rightarrow> Paddr \<Rightarrow> bool" where
  "points_to C e l c \<longleftrightarrow> is_present (pte C) e \<and> \<not> is_last (pte C) e l \<and> pte_paddr (pte C) e = c"

definition pt_wf :: "('e, 'i) pt_config \<Rightarrow> pt_ghost \<Rightarrow> 'e pt_store \<Rightarrow> pt_pos \<Rightarrow> Paddr \<Rightarrow> bool" where
  "pt_wf C G st pos root \<longleftrightarrow> finite (dom st) \<and> pos root = Some (NR_LEVELS, 0) \<and>
     (\<forall>n l p. pos n = Some (l, p) \<longrightarrow> 1 \<le> l \<and> l \<le> NR_LEVELS \<and> n + LINEAR_MAPPING_BASE_VADDR \<le> USIZE_MAX \<and>
        (\<exists>nd. st n = Some nd \<and> node_ok C G pos l p nd)) \<and>
     (\<forall>n m x. pos n = Some x \<longrightarrow> pos m = Some x \<longrightarrow> n = m) \<and>
     (\<forall>c l q. pos c = Some (l, q) \<longrightarrow> l < NR_LEVELS \<longrightarrow>
        (\<exists>n nd. pos n = Some (l + 1, q div 2 ^ g_b G) \<and> st n = Some nd \<and>
           points_to C (ptes nd ! (q mod 2 ^ g_b G)) (l + 1) c))"

lemma pt_wfD:
  assumes "pt_wf C G st pos root"
  shows "finite (dom st)" "pos root = Some (NR_LEVELS, 0)"
    "pos n = Some (l, p) \<Longrightarrow> 1 \<le> l \<and> l \<le> NR_LEVELS \<and> n + LINEAR_MAPPING_BASE_VADDR \<le> USIZE_MAX"
    "pos n = Some x \<Longrightarrow> pos m = Some x \<Longrightarrow> n = m"
    "pos c = Some (l, q) \<Longrightarrow> l < NR_LEVELS \<Longrightarrow>
       \<exists>n nd. pos n = Some (l + 1, q div 2 ^ g_b G) \<and> st n = Some nd \<and>
           points_to C (ptes nd ! (q mod 2 ^ g_b G)) (l + 1) c"
  using assms unfolding pt_wf_def by blast+

lemma pt_wf_node:
  assumes "pt_wf C G st pos root" "pos n = Some (l, p)"
  obtains nd where "st n = Some nd" "nlevel nd = l" "length (ptes nd) = 2 ^ g_b G"
    "nr_children nd = children_count C (ptes nd)"
    "\<And>i. i < 2 ^ g_b G \<Longrightarrow> entry_ok C G pos l p i (ptes nd ! i)"
    "\<And>i. i < 2 ^ g_b G \<Longrightarrow> read_pte st n i = Some (ptes nd ! i)"
proof -
  obtain nd where nd: "st n = Some nd" "node_ok C G pos l p nd"
    using assms unfolding pt_wf_def by blast
  have v: "paddr_to_vaddr n = Some (n + LINEAR_MAPPING_BASE_VADDR)"
    using pt_wfD(3) [OF assms] by (simp add: paddr_to_vaddr_def uadd_def)
  show thesis
    by (rule that [of nd]) (use nd v in \<open>auto simp: node_ok_def read_pte_def rindex_def\<close>)
qed

section \<open>Prefixes\<close>

text \<open>The labels at or below a slot: the slot of entry \<open>i\<close> of a node labelled \<open>(l, p)\<close> is
  \<open>(l - 1, p * 2 ^ b + i)\<close>, and the addresses it is responsible for are those with that prefix.\<close>

definition in_slot :: "pt_ghost \<Rightarrow> nat \<Rightarrow> nat \<Rightarrow> nat \<times> nat \<Rightarrow> bool" where
  "in_slot G l q x \<longleftrightarrow> fst x \<le> l \<and> snd x div 2 ^ (g_b G * (l - fst x)) = q"

lemma in_slot_self [simp]: "in_slot G l q (l, q') \<longleftrightarrow> q' = q"
  by (simp add: in_slot_def)

lemma in_slot_child:
  assumes "j < 2 ^ g_b G" "1 \<le> lm"
  shows "in_slot G l q (lm - 1, pm * 2 ^ g_b G + j) \<longleftrightarrow>
    in_slot G l q (lm, pm) \<or> lm = l + 1 \<and> pm * 2 ^ g_b G + j = q"
proof (cases "lm \<le> l")
  case True
  have e: "g_b G * (l - (lm - 1)) = g_b G + g_b G * (l - lm)"
  proof -
    have "l - (lm - 1) = Suc (l - lm)" using True assms(2) by simp
    then show ?thesis by simp
  qed
  have "(pm * 2 ^ g_b G + j) div 2 ^ (g_b G * (l - (lm - 1))) = pm div 2 ^ (g_b G * (l - lm))"
    unfolding e power_add div_mult2_eq using assms(1) by simp
  then show ?thesis using True assms(2) by (auto simp: in_slot_def)
next
  case False
  then show ?thesis by (cases "lm = l + 1") (auto simp: in_slot_def)
qed

lemma in_slot_parent:
  assumes "in_slot G l q (lc + 1, qc div 2 ^ g_b G)"
  shows "in_slot G l q (lc, qc)"
  using in_slot_child [of "qc mod 2 ^ g_b G" G "lc + 1" l q "qc div 2 ^ g_b G"] assms
  by (simp add: div_mult_mod_eq)

lemma va_pre_in_slot:
  assumes "lm \<le> l" "l \<le> NR_LEVELS"
  shows "in_slot G l (va_pre G l v) (lm, va_pre G lm v)"
  using assms
proof (induction "l - lm" arbitrary: lm)
  case (Suc d)
  then have s: "va_pre G lm v = va_pre G (lm + 1) v * 2 ^ g_b G + va_idx G (lm + 1) v"
    using va_pre_step [of "lm + 1" G v] by simp
  have "in_slot G l (va_pre G l v) (lm + 1, va_pre G (lm + 1) v)" using Suc by simp
  then show ?case using in_slot_child [of "va_idx G (lm + 1) v" G "lm + 1"] s by simp
qed (simp add: in_slot_def)

lemma in_slot_va_pre:
  assumes "in_slot G l q (lm, va_pre G lm v)" "l \<le> NR_LEVELS"
  shows "va_pre G l v = q"
  using assms va_pre_in_slot [of lm l G v] by (simp add: in_slot_def)

section \<open>Entries and counters\<close>

definition pt_ent :: "'e pt_store \<Rightarrow> Paddr \<Rightarrow> usize \<Rightarrow> 'e" where
  "pt_ent st n i = ptes (the (st n)) ! i"

text \<open>The effect of a write to one entry together with the update of the child counter.\<close>

definition slot_set :: "('e, 'i) pt_config \<Rightarrow> 'e pt_store \<Rightarrow> Paddr \<Rightarrow> usize \<Rightarrow> 'e \<Rightarrow> 'e pt_store" where
  "slot_set C st n i e = (let nd = the (st n); es = (ptes nd)[i := e] in
     st(n \<mapsto> nd\<lparr>ptes := es, nr_children := children_count C es\<rparr>))"

definition drop_slot :: "pt_ghost \<Rightarrow> pt_pos \<Rightarrow> nat \<Rightarrow> nat \<Rightarrow> pt_pos" where
  "drop_slot G pos l q = (\<lambda>m. case pos m of None \<Rightarrow> None | Some x \<Rightarrow> if in_slot G l q x then None else Some x)"

lemma drop_slot_Some [simp]: "drop_slot G pos l q m = Some x \<longleftrightarrow> pos m = Some x \<and> \<not> in_slot G l q x"
  by (auto simp: drop_slot_def split: option.splits)

lemma children_count_update:
  "i < length es \<Longrightarrow> children_count C (es[i := e]) + (if is_present (pte C) (es ! i) then 1 else 0) =
     children_count C es + (if is_present (pte C) e then 1 else 0)"
proof (induction es arbitrary: i)
  case (Cons a es)
  then show ?case by (cases i) (auto simp: children_count_def)
qed simp

lemma children_count_le: "children_count C es \<le> length es"
  by (simp add: children_count_def)

lemma slot_set_ent:
  assumes "st n = Some nd" "i < length (ptes nd)"
  shows "pt_ent (slot_set C st n i e) m j = (if m = n \<and> j = i then e else pt_ent st m j)"
  using assms by (simp add: slot_set_def pt_ent_def Let_def)

lemma slot_set_dom: "st n = Some nd \<Longrightarrow> dom (slot_set C st n i e) = dom st"
  by (auto simp: slot_set_def Let_def)

lemma wf_entry:
  assumes "pt_wf C G st pos root" "pos n = Some (l, p)" "i < 2 ^ g_b G"
  shows "entry_ok C G pos l p i (pt_ent st n i)" "read_pte st n i = Some (pt_ent st n i)"
  using assms by (auto elim!: pt_wf_node [of C G st pos root n l p] simp: pt_ent_def)

lemma wf_child:
  assumes "pt_wf C G st pos root" "pos n = Some (l, va_pre G l v)"
    and "is_present (pte C) (pt_ent st n (va_idx G l v))" "\<not> is_last (pte C) (pt_ent st n (va_idx G l v)) l"
  shows "1 < l \<and> pos (pte_paddr (pte C) (pt_ent st n (va_idx G l v))) = Some (l - 1, va_pre G (l - 1) v)"
  using wf_entry(1) [OF assms(1,2) va_idx_lt, of l v] assms(3,4) va_pre_step [of l G v] pt_wfD(3) [OF assms(1,2)]
  by (simp add: entry_ok_def)

declare page_walk_from.simps [simp del]

section \<open>The contracts a page table relies on\<close>

definition stray_only :: "'e pt_store \<Rightarrow> 'e pt_store \<Rightarrow> bool" where
  "stray_only st st' \<longleftrightarrow> (\<forall>n. \<exists>s. st' n = map_option (\<lambda>nd. nd\<lparr>stray := s\<rparr>) (st n))"

locale page_table =
  pg: paging "pconsts C" "g_k G" "g_b G" +
  pt: pte_laws "pte C" "\<lambda>p. 2 ^ g_k G dvd p \<and> p < g_limit G" "g_prop G"
  for C :: "('e, 'i) pt_config" and G :: pt_ghost +
  fixes env :: "'e pt_env"
  assumes nr_levels: "PC_NR_LEVELS (pconsts C) = NR_LEVELS"
    and base_page: "2 ^ g_k G = PAGE_SIZE"
    and counter: "2 ^ g_b G < (65536 :: nat)"
    and limit: "g_limit G \<le> USIZE_MAX"
    and alloc_fresh: "alloc_frame env st = Some p \<Longrightarrow>
      st p = None \<and> 2 ^ g_k G dvd p \<and> p < g_limit G \<and> p + LINEAR_MAPPING_BASE_VADDR \<le> USIZE_MAX"
    and alloc_room: "finite (dom st) \<Longrightarrow> card (dom st) < g_nodes G \<Longrightarrow> \<exists>p. alloc_frame env st = Some p"
    and mark_stray_law: "stray_only st (snd (mark_stray env st n))"
    and item_law: "g_item G pa l q \<Longrightarrow> \<exists>i. item_from_raw C pa l q = Some i"
    and item_split: "g_item G pa l q \<Longrightarrow> 1 < l \<Longrightarrow> g_item G pa' (l - 1) q"
begin

lemma psz_gsz: "level_bytes (g_k G) (g_b G) l = gsz G l"
  by (simp add: gsz_def)

lemma size_eq: "1 \<le> l \<Longrightarrow> l \<le> NR_LEVELS + 1 \<Longrightarrow> page_size (pconsts C) l = Some (gsz G l)"
  using pg.page_size_eq [of l] by (simp add: nr_levels psz_gsz)

lemma index_eq: "1 \<le> l \<Longrightarrow> l \<le> NR_LEVELS + 1 \<Longrightarrow> pte_index (pconsts C) v l = Some (va_idx G l v)"
  using pg.pte_index_eq [of l v] by (simp add: nr_levels psz_gsz va_idx_def)

lemma align_eq:
  "v \<le> USIZE_MAX \<Longrightarrow> l \<le> NR_LEVELS + 1 \<Longrightarrow> usize_align_down v (gsz G l) = Some (v div gsz G l * gsz G l)"
  using pg.align_down_psz [of v l] by (simp add: nr_levels psz_gsz)

lemma gsz_exp: "gsz G l = 2 ^ (g_k G + g_b G * (l - 1))"
  by (simp add: gsz_def level_bytes_def)

lemma and_gsz: "v AND (gsz G l - 1) = v mod gsz G l"
  unfolding gsz_exp mask_eq_exp_minus_1 [symmetric] by (simp only: take_bit_eq_mask [symmetric] take_bit_eq_mod)

lemma base_dvd: "1 \<le> l \<Longrightarrow> 2 ^ g_k G dvd gsz G l"
  unfolding gsz_exp by (rule le_imp_power_dvd) simp

lemma leaf_valid: "leaf_ok G pa l q \<Longrightarrow> 1 \<le> l \<Longrightarrow> 2 ^ g_k G dvd pa \<and> pa < g_limit G"
  using dvd_trans [OF base_dvd [of l], of pa] gsz_pos [of G l] by (simp add: leaf_ok_def del: gsz_pos)

section \<open>Translations\<close>

definition leaf_trans :: "nat \<Rightarrow> 'e \<Rightarrow> Vaddr \<Rightarrow> (Paddr \<times> PageProperty) option" where
  "leaf_trans l e v = (if is_present (pte C) e
     then Some (pte_paddr (pte C) e + v mod gsz G l, the (pte_prop (pte C) e)) else None)"

lemma walk_node:
  assumes wf: "pt_wf C G st pos root" and n: "pos n = Some (l, p)"
  shows "page_walk_from C st n l v = (let e = pt_ent st n (va_idx G l v) in
    if is_present (pte C) e \<and> \<not> is_last (pte C) e l then page_walk_from C st (pte_paddr (pte C) e) (l - 1) v
    else Some (leaf_trans l e v))"
proof -
  obtain l0 where l: "l = Suc l0" "l \<le> NR_LEVELS" using pt_wfD(3) [OF wf n] by (cases l) auto
  let ?e = "pt_ent st n (va_idx G l v)"
  have r: "read_pte st n (va_idx G (Suc l0) v) = Some ?e" using wf_entry(2) [OF wf n va_idx_lt] l(1) by simp
  have ok: "entry_ok C G pos l p (va_idx G l v) ?e" using wf_entry(1) [OF wf n va_idx_lt] .
  have i: "pte_index (pconsts C) v (Suc l0) = Some (va_idx G (Suc l0) v)" using index_eq [of "Suc l0" v] l by simp
  have s: "page_size (pconsts C) (Suc l0) = Some (gsz G (Suc l0))" using size_eq [of "Suc l0"] l by simp
  show ?thesis
  proof (cases "is_present (pte C) ?e \<and> is_last (pte C) ?e l")
    case True
    then obtain q where q: "l \<le> HIGHEST_TRANSLATION_LEVEL (pconsts C)" "pte_prop (pte C) ?e = Some q"
      "leaf_ok G (pte_paddr (pte C) ?e) l q"
      using ok by (auto simp: entry_ok_def)
    have "v mod gsz G l < gsz G l" by simp
    then have "pte_paddr (pte C) ?e + v mod gsz G l \<le> USIZE_MAX"
      using q(3) limit unfolding leaf_ok_def by linarith
    then have u: "uadd (pte_paddr (pte C) ?e) (v mod gsz G l) = Some (pte_paddr (pte C) ?e + v mod gsz G l)"
      by (simp add: uadd_def)
    have "v AND (gsz G l - 1) = v mod gsz G l" by (rule and_gsz)
    moreover have "usub (gsz G l) 1 = Some (gsz G l - 1)"
      using gsz_pos [of G l] by (simp add: usub_def Suc_le_eq)
    ultimately show ?thesis using True q u i s r l(1) by (simp add: leaf_trans_def rassert_def page_walk_from.simps)
  next
    case False
    then show ?thesis using l(1) i r by (auto simp: leaf_trans_def Let_def page_walk_from.simps)
  qed
qed

lemma walk_total:
  assumes wf: "pt_wf C G st pos root"
  shows "pos n = Some (l, va_pre G l v) \<Longrightarrow> \<exists>t. page_walk_from C st n l v = Some t"
proof (induction l arbitrary: n)
  case 0
  then show ?case using pt_wfD(3) [OF wf] by fastforce
next
  case (Suc l)
  show ?case
    using Suc.IH wf_child [OF wf Suc.prems] walk_node [OF wf Suc.prems, of v] by (auto simp: Let_def)
qed

text \<open>A walk passes through the node that carries the prefix of the address.\<close>

lemma walk_through:
  assumes wf: "pt_wf C G st pos root"
  shows "pos n = Some (l, va_pre G l v) \<Longrightarrow> page_walk C st root v = page_walk_from C st n l v"
proof (induction "NR_LEVELS - l" arbitrary: n l)
  case 0
  then have "l = NR_LEVELS" using pt_wfD(3) [OF wf, of n] by fastforce
  then have "n = root" using 0 pt_wfD(2,4) [OF wf] by auto
  then show ?case using \<open>l = NR_LEVELS\<close> by (simp add: page_walk_def nr_levels)
next
  case (Suc d)
  then have l: "1 \<le> l" "l < NR_LEVELS" using pt_wfD(3) [OF wf, of n] by fastforce+
  have s: "va_pre G l v = va_pre G (l + 1) v * 2 ^ g_b G + va_idx G (l + 1) v"
    using va_pre_step [of "l + 1" G v] l by simp
  obtain m nd where m: "pos m = Some (l + 1, va_pre G (l + 1) v)" "st m = Some nd"
    "points_to C (ptes nd ! va_idx G (l + 1) v) (l + 1) n"
    using pt_wfD(5) [OF wf Suc.prems l(2)] s by auto
  have "page_walk C st root v = page_walk_from C st m (l + 1) v" using Suc m(1) by simp
  then show ?case
    using walk_node [OF wf m(1), of v] m(2,3) by (simp add: Let_def points_to_def pt_ent_def)
qed

lemma walk_slot:
  assumes wf: "pt_wf C G st pos root" and n: "pos n = Some (l, p)"
    and v: "va_pre G (l - 1) v = p * 2 ^ g_b G + i" "i < 2 ^ g_b G"
    and e: "\<not> (is_present (pte C) (pt_ent st n i) \<and> \<not> is_last (pte C) (pt_ent st n i) l)"
  shows "page_walk C st root v = Some (leaf_trans l (pt_ent st n i) v)"
proof -
  have "va_pre G l v = p \<and> va_idx G l v = i"
    using va_pre_eq_step [of l i G v p] v pt_wfD(3) [OF wf n] by simp
  then show ?thesis using walk_through [OF wf, of n l v] walk_node [OF wf n, of v] n e by (simp add: Let_def)
qed

text \<open>Translations agree where the entries on the path agree.\<close>

lemma walk_frame:
  assumes wf: "pt_wf C G st pos root" and wf': "pt_wf C G st' pos' root"
    and same: "\<And>n l. pos n = Some (l, va_pre G l v) \<Longrightarrow> pos' n = pos n \<and>
      pt_ent st' n (va_idx G l v) = pt_ent st n (va_idx G l v)"
  shows "page_walk C st' root v = page_walk C st root v"
proof -
  have "pos n = Some (l, va_pre G l v) \<Longrightarrow> page_walk_from C st' n l v = page_walk_from C st n l v" for n l
  proof (induction l arbitrary: n)
    case (Suc l)
    show ?case
      using Suc.IH wf_child [OF wf Suc.prems] walk_node [OF wf Suc.prems, of v]
        walk_node [OF wf', of n "Suc l" _ v] same [OF Suc.prems] Suc.prems
      by (simp add: Let_def)
  qed (simp add: page_walk_from.simps)
  then show ?thesis using pt_wfD(2) [OF wf] by (simp add: page_walk_def nr_levels)
qed

end

end
