(* ===== verification/Pt_Update.thy ===== *)
theory Pt_Update
  imports Pt_Inv
begin

text \<open>
  What the node operations of \<open>node/entry.rs\<close> do to the invariant and to translations: overwriting an
  entry with a mapping or with nothing, growing a page table under an absent entry, splitting a huge
  mapping, and changing the property of a mapping.
\<close>

definition leaf_entry :: "('e, 'i) pt_config \<Rightarrow> pt_ghost \<Rightarrow> nat \<Rightarrow> 'e \<Rightarrow> bool" where
  "leaf_entry C G l e \<longleftrightarrow> (is_present (pte C) e \<longrightarrow> is_last (pte C) e l \<and>
     l \<le> HIGHEST_TRANSLATION_LEVEL (pconsts C) \<and>
     (\<exists>q. pte_prop (pte C) e = Some q \<and> leaf_ok G (pte_paddr (pte C) e) l q))"

lemma leaf_entry_ok: "leaf_entry C G l e \<Longrightarrow> entry_ok C G pos l p i e"
  by (auto simp: leaf_entry_def entry_ok_def)

lemma entry_ok_cases:
  assumes "entry_ok C G pos l p i e"
  obtains "leaf_entry C G l e" | "points_to C e l (pte_paddr (pte C) e)" "1 < l"
    "pos (pte_paddr (pte C) e) = Some (l - 1, p * 2 ^ g_b G + i)"
  using assms by (cases "is_present (pte C) e \<and> \<not> is_last (pte C) e l")
    (auto simp: entry_ok_def leaf_entry_def points_to_def)

lemma leaf_not_points: "leaf_entry C G l e \<Longrightarrow> \<not> points_to C e l c"
  by (auto simp: leaf_entry_def points_to_def)

lemma entry_ok_mono:
  assumes "entry_ok C G pos l p i e"
    and "1 < l \<Longrightarrow> pos (pte_paddr (pte C) e) = Some (l - 1, p * 2 ^ g_b G + i) \<Longrightarrow>
      pos' (pte_paddr (pte C) e) = pos (pte_paddr (pte C) e)"
  shows "entry_ok C G pos' l p i e"
  using assms by (auto simp: entry_ok_def)

lemma pt_wf_dom: "pt_wf C G st pos root \<Longrightarrow> pos n = Some x \<Longrightarrow> \<exists>nd. st n = Some nd"
  by (cases x) (auto elim: pt_wf_node)

lemma pt_wf_fresh: "pt_wf C G st pos root \<Longrightarrow> st c = None \<Longrightarrow> pos c = None"
  using pt_wf_dom [of C G st pos root c] by (cases "pos c") auto

section \<open>Labels below a slot\<close>

lemma child_not_in_slot:
  assumes wf: "pt_wf C G st pos root" and n: "pos n = Some (l, p)" "i < 2 ^ g_b G"
    and m: "pos m = Some (lm, pm)" "j < 2 ^ g_b G" and ne: "m \<noteq> n \<or> j \<noteq> i"
    and nu: "\<not> in_slot G (l - 1) (p * 2 ^ g_b G + i) (lm, pm)"
  shows "\<not> in_slot G (l - 1) (p * 2 ^ g_b G + i) (lm - 1, pm * 2 ^ g_b G + j)"
proof
  assume u: "in_slot G (l - 1) (p * 2 ^ g_b G + i) (lm - 1, pm * 2 ^ g_b G + j)"
  have l: "1 \<le> l" "1 \<le> lm" using pt_wfD(3) [OF wf] n m by auto
  then have "lm = l" "pm * 2 ^ g_b G + j = p * 2 ^ g_b G + i"
    using u nu in_slot_child [OF m(2) l(2)] by auto
  then have "pos m = pos n \<and> j = i" using radix_eq [OF m(2) n(2)] n m by simp
  then show False using pt_wfD(4) [OF wf] ne n by metis
qed

lemma no_label_in_slot:
  assumes wf: "pt_wf C G st pos root" and n: "pos n = Some (l, p)" "i < 2 ^ g_b G"
    and e: "\<And>c. \<not> points_to C (pt_ent st n i) l c"
  shows "pos m = Some (lm, pm) \<Longrightarrow> \<not> in_slot G (l - 1) (p * 2 ^ g_b G + i) (lm, pm)"
proof (induction "l - 1 - lm" arbitrary: m lm pm)
  case 0
  show ?case
  proof
    assume "in_slot G (l - 1) (p * 2 ^ g_b G + i) (lm, pm)"
    then have lm: "lm = l - 1" "pm = p * 2 ^ g_b G + i" using 0 by (auto simp: in_slot_def)
    have l: "1 \<le> lm" "l \<le> NR_LEVELS" using pt_wfD(3) [OF wf] n 0(2) by auto
    then have "l - 1 < NR_LEVELS" using lm by linarith
    then obtain n' nd where "pos n' = Some (l, p)" "st n' = Some nd" "points_to C (ptes nd ! i) l m"
      using pt_wfD(5) [OF wf 0(2)] lm l n(2) by auto
    moreover then have "n' = n" using pt_wfD(4) [OF wf] n by metis
    ultimately show False using e by (simp add: pt_ent_def)
  qed
next
  case (Suc d)
  have l: "1 \<le> lm" "l \<le> NR_LEVELS" using pt_wfD(3) [OF wf] n Suc(3) by auto
  then have "lm < NR_LEVELS" using Suc(2) by linarith
  then obtain n' where n': "pos n' = Some (lm + 1, pm div 2 ^ g_b G)"
    using pt_wfD(5) [OF wf Suc(3)] Suc(2) by auto
  have "\<not> in_slot G (l - 1) (p * 2 ^ g_b G + i) (lm + 1, pm div 2 ^ g_b G)"
    by (rule Suc(1) [OF _ n']) (use Suc(2) in simp)
  moreover have "pm div 2 ^ g_b G * 2 ^ g_b G + pm mod 2 ^ g_b G = pm" by (rule div_mult_mod_eq)
  ultimately show ?case
    using in_slot_child [of "pm mod 2 ^ g_b G" G "lm + 1" "l - 1" "p * 2 ^ g_b G + i" "pm div 2 ^ g_b G"] Suc(2)
    by auto
qed

section \<open>Overwriting an entry\<close>

lemma slot_set_wf:
  assumes wf: "pt_wf C G st pos root" and n: "pos n = Some (l, p)" "i < 2 ^ g_b G"
    and e: "leaf_entry C G l e"
  shows "pt_wf C G (slot_set C st n i e) (drop_slot G pos (l - 1) (p * 2 ^ g_b G + i)) root"
    (is "pt_wf C G ?st ?pos root")
proof -
  let ?q = "p * 2 ^ g_b G + i"
  have l: "1 \<le> l" "l \<le> NR_LEVELS" using pt_wfD(3) [OF wf n(1)] by auto
  obtain nd where nd: "st n = Some nd" "nlevel nd = l" "length (ptes nd) = 2 ^ g_b G"
    by (rule pt_wf_node [OF wf n(1)]) simp
  have stn: "?st n = Some (nd\<lparr>ptes := (ptes nd)[i := e], nr_children := children_count C ((ptes nd)[i := e])\<rparr>)"
    "m \<noteq> n \<Longrightarrow> ?st m = st m" for m
    using nd by (simp_all add: slot_set_def Let_def)
  have keep: "entry_ok C G ?pos lm pm j f"
    if m: "pos m = Some (lm, pm)" "j < 2 ^ g_b G" "m \<noteq> n \<or> j \<noteq> i" "\<not> in_slot G (l - 1) ?q (lm, pm)"
      and f: "entry_ok C G pos lm pm j f" for m lm pm j f
    using child_not_in_slot [OF wf n m] by (intro entry_ok_mono [OF f]) simp
  have nodes: "\<exists>nd'. ?st m = Some nd' \<and> node_ok C G ?pos lm pm nd'"
    if m: "pos m = Some (lm, pm)" "\<not> in_slot G (l - 1) ?q (lm, pm)" for m lm pm
  proof -
    obtain md where md: "st m = Some md" "nlevel md = lm" "length (ptes md) = 2 ^ g_b G"
      "nr_children md = children_count C (ptes md)"
      "\<And>j. j < 2 ^ g_b G \<Longrightarrow> entry_ok C G pos lm pm j (ptes md ! j)"
      by (rule pt_wf_node [OF wf m(1)]) simp
    show ?thesis
    proof (cases "m = n")
      case True
      then have "lm = l" "pm = p" "md = nd" using n m md nd by auto
      then show ?thesis
        using True stn(1) nd md n(2) keep [OF m(1) _ _ m(2)] leaf_entry_ok [OF e]
        by (auto simp: node_ok_def nth_list_update)
    next
      case False
      then show ?thesis using stn(2) md keep [OF m(1) _ _ m(2)] by (auto simp: node_ok_def)
    qed
  qed
  have links: "\<exists>m md. ?pos m = Some (lc + 1, qc div 2 ^ g_b G) \<and> ?st m = Some md \<and>
      points_to C (ptes md ! (qc mod 2 ^ g_b G)) (lc + 1) c"
    if c: "pos c = Some (lc, qc)" "\<not> in_slot G (l - 1) ?q (lc, qc)" "lc < NR_LEVELS" for c lc qc
  proof -
    obtain m md where m: "pos m = Some (lc + 1, qc div 2 ^ g_b G)" "st m = Some md"
      "points_to C (ptes md ! (qc mod 2 ^ g_b G)) (lc + 1) c"
      using pt_wfD(5) [OF wf c(1,3)] by blast
    have u: "\<not> in_slot G (l - 1) ?q (lc + 1, qc div 2 ^ g_b G)" using c(2) in_slot_parent by blast
    show ?thesis
    proof (cases "m = n \<and> qc mod 2 ^ g_b G = i")
      case True
      then have "lc = l - 1" "qc = ?q" using m(1) n(1) div_mult_mod_eq [of qc "2 ^ g_b G"] by auto
      then show ?thesis using c(2) by simp
    next
      case False
      then show ?thesis using m u stn nd(1) by (cases "m = n") (auto simp: nth_list_update)
    qed
  qed
  show ?thesis unfolding pt_wf_def
  proof (intro conjI allI impI)
    show "finite (dom ?st)" using pt_wfD(1) [OF wf] slot_set_dom [of st n nd C i e] nd(1) by simp
    show "?pos root = Some (NR_LEVELS, 0)" using pt_wfD(2) [OF wf] l by (auto simp: in_slot_def)
  qed (use pt_wfD(3,4) [OF wf] nodes links in \<open>auto dest: pt_wfD(4) [OF wf]\<close>)
qed

section \<open>Growing a page table under an entry\<close>

text \<open>A node whose entries are all mappings or absent.\<close>

definition leaf_node :: "('e, 'i) pt_config \<Rightarrow> pt_ghost \<Rightarrow> nat \<Rightarrow> 'e pt_node \<Rightarrow> bool" where
  "leaf_node C G l nd \<longleftrightarrow> nlevel nd = l \<and> length (ptes nd) = 2 ^ g_b G \<and>
     nr_children nd = children_count C (ptes nd) \<and> (\<forall>j < 2 ^ g_b G. leaf_entry C G l (ptes nd ! j))"

definition graft :: "('e, 'i) pt_config \<Rightarrow> 'e pt_store \<Rightarrow> Paddr \<Rightarrow> usize \<Rightarrow> Paddr \<Rightarrow> 'e pt_node \<Rightarrow> 'e pt_store" where
  "graft C st n i c nd = (slot_set C st n i (new_pt (pte C) c))(c \<mapsto> nd)"

context page_table
begin

lemma graft_wf:
  assumes wf: "pt_wf C G st pos root" and n: "pos n = Some (l, p)" "i < 2 ^ g_b G" and l1: "1 < l"
    and e: "leaf_entry C G l (pt_ent st n i)"
    and c: "st c = None" "2 ^ g_k G dvd c" "c < g_limit G" "c + LINEAR_MAPPING_BASE_VADDR \<le> USIZE_MAX"
    and cn: "leaf_node C G (l - 1) cnd"
  shows "pt_wf C G (graft C st n i c cnd) (pos(c \<mapsto> (l - 1, p * 2 ^ g_b G + i))) root"
    (is "pt_wf C G ?st ?pos root")
proof -
  let ?q = "p * 2 ^ g_b G + i" and ?e = "new_pt (pte C) c"
  have l: "l \<le> NR_LEVELS" using pt_wfD(3) [OF wf n(1)] by auto
  obtain nd where nd: "st n = Some nd" "nlevel nd = l" "length (ptes nd) = 2 ^ g_b G"
    by (rule pt_wf_node [OF wf n(1)]) simp
  have cp: "pos c = None" using pt_wf_fresh [OF wf c(1)] .
  have cne: "c \<noteq> n" using c(1) nd(1) by auto
  have stn: "?st n = Some (nd\<lparr>ptes := (ptes nd)[i := ?e], nr_children := children_count C ((ptes nd)[i := ?e])\<rparr>)"
    "?st c = Some cnd" "m \<noteq> n \<Longrightarrow> m \<noteq> c \<Longrightarrow> ?st m = st m" for m
    using nd cne by (simp_all add: graft_def slot_set_def Let_def)
  have nu: "pos m = Some (lm, pm) \<Longrightarrow> \<not> in_slot G (l - 1) ?q (lm, pm)" for m lm pm
    by (rule no_label_in_slot [OF wf n]) (use leaf_not_points [OF e] in auto)
  have keep: "entry_ok C G pos lm pm j f \<Longrightarrow> entry_ok C G ?pos lm pm j f" for lm pm j f
    by (erule entry_ok_mono) (use cp in auto)
  have pl: "is_present (pte C) ?e" "pte_paddr (pte C) ?e = c" "\<not> is_last (pte C) ?e l"
    using pt.pt_law [of c l] c l1 by auto
  have eok: "entry_ok C G ?pos l p i ?e" using pl l1 by (simp add: entry_ok_def)
  have nodes: "\<exists>nd'. ?st m = Some nd' \<and> node_ok C G ?pos lm pm nd'" if m: "pos m = Some (lm, pm)" for m lm pm
  proof -
    obtain md where md: "st m = Some md" "nlevel md = lm" "length (ptes md) = 2 ^ g_b G"
      "nr_children md = children_count C (ptes md)"
      "\<And>j. j < 2 ^ g_b G \<Longrightarrow> entry_ok C G pos lm pm j (ptes md ! j)"
      by (rule pt_wf_node [OF wf m]) simp
    show ?thesis
    proof (cases "m = n")
      case True
      then have "lm = l" "pm = p" "md = nd" using n m md nd by auto
      then show ?thesis using True stn(1) nd md n(2) keep eok by (auto simp: node_ok_def nth_list_update)
    next
      case False
      have "m \<noteq> c" using c(1) md(1) by auto
      then show ?thesis using False stn(3) [of m] md keep by (auto simp: node_ok_def)
    qed
  qed
  have new: "node_ok C G ?pos (l - 1) ?q cnd"
    using cn by (auto simp: node_ok_def leaf_node_def intro!: leaf_entry_ok)
  have links: "\<exists>m md. ?pos m = Some (lc + 1, qc div 2 ^ g_b G) \<and> ?st m = Some md \<and>
      points_to C (ptes md ! (qc mod 2 ^ g_b G)) (lc + 1) d"
    if d: "pos d = Some (lc, qc)" "lc < NR_LEVELS" for d lc qc
  proof -
    obtain m md where m: "pos m = Some (lc + 1, qc div 2 ^ g_b G)" "st m = Some md"
      "points_to C (ptes md ! (qc mod 2 ^ g_b G)) (lc + 1) d"
      using pt_wfD(5) [OF wf d] by blast
    have mc: "m \<noteq> c" using m(1) cp by auto
    have "\<not> (m = n \<and> qc mod 2 ^ g_b G = i)"
      using m(1) n(1) nu [OF d(1)] div_mult_mod_eq [of qc "2 ^ g_b G"] by auto
    then show ?thesis using m mc stn nd(1) by (cases "m = n") (auto simp: nth_list_update)
  qed
  have newlink: "\<exists>m md. ?pos m = Some (l, ?q div 2 ^ g_b G) \<and> ?st m = Some md \<and>
      points_to C (ptes md ! (?q mod 2 ^ g_b G)) l c"
    using n cne stn(1) nd pl by (auto simp: points_to_def)
  show ?thesis unfolding pt_wf_def
  proof (intro conjI allI impI)
    have "dom ?st \<subseteq> insert c (dom st)" using nd(1) by (auto simp: graft_def slot_set_def Let_def)
    then show "finite (dom ?st)" using pt_wfD(1) [OF wf] finite_subset by auto
    show "?pos root = Some (NR_LEVELS, 0)" using pt_wfD(2) [OF wf] cp by auto
    have "pos m \<noteq> Some (l - 1, ?q)" for m using nu [of m "l - 1" ?q] by auto
    then show "m = m'" if "?pos m = Some x" "?pos m' = Some x" for m m' x
      using that pt_wfD(4) [OF wf, of m x m'] by (auto split: if_splits)
    show "\<exists>m md. ?pos m = Some (lc + 1, qc div 2 ^ g_b G) \<and> ?st m = Some md \<and>
        points_to C (ptes md ! (qc mod 2 ^ g_b G)) (lc + 1) d"
      if "?pos d = Some (lc, qc)" "lc < NR_LEVELS" for d lc qc
    proof (cases "d = c")
      case True
      then have "lc + 1 = l" "qc = ?q" using that(1) l1 by auto
      then show ?thesis using newlink True by simp
    next
      case False
      then show ?thesis using links [of d lc qc] that by simp
    qed
  qed (use pt_wfD(3) [OF wf] nodes stn(2) new l l1 c(4) in \<open>auto split: if_splits\<close>)
qed

lemma graft_ent:
  assumes "st n = Some nd" "i < length (ptes nd)" "c \<noteq> n" "m \<noteq> c"
  shows "pt_ent (graft C st n i c cnd) m j = (if m = n \<and> j = i then new_pt (pte C) c else pt_ent st m j)"
  using assms slot_set_ent [of st n nd i C] by (simp add: graft_def pt_ent_def)

lemma graft_walk:
  assumes wf: "pt_wf C G st pos root" and n: "pos n = Some (l, p)" "i < 2 ^ g_b G" and l1: "1 < l"
    and e: "leaf_entry C G l (pt_ent st n i)"
    and c: "st c = None" "2 ^ g_k G dvd c" "c < g_limit G" "c + LINEAR_MAPPING_BASE_VADDR \<le> USIZE_MAX"
    and cn: "leaf_node C G (l - 1) cnd"
  shows "page_walk C (graft C st n i c cnd) root v = (
    if va_pre G (l - 1) v = p * 2 ^ g_b G + i
    then Some (leaf_trans (l - 1) (ptes cnd ! va_idx G (l - 1) v) v) else page_walk C st root v)"
proof -
  let ?q = "p * 2 ^ g_b G + i" and ?st = "graft C st n i c cnd"
  let ?pos = "pos(c \<mapsto> (l - 1, ?q))"
  have wf': "pt_wf C G ?st ?pos root" by (rule graft_wf [OF assms])
  have l: "1 \<le> l" "l \<le> NR_LEVELS" using pt_wfD(3) [OF wf n(1)] by auto
  obtain nd where nd: "st n = Some nd" "length (ptes nd) = 2 ^ g_b G"
    by (rule pt_wf_node [OF wf n(1)]) simp
  have cne: "c \<noteq> n" "pos c = None" using c(1) nd(1) pt_wf_fresh [OF wf c(1)] by auto
  show ?thesis
  proof (cases "va_pre G (l - 1) v = ?q")
    case True
    have pc: "?pos c = Some (l - 1, va_pre G (l - 1) v)" using True by simp
    let ?j = "va_idx G (l - 1) v"
    have ce: "pt_ent ?st c ?j = ptes cnd ! ?j" by (simp add: pt_ent_def graft_def)
    have "leaf_entry C G (l - 1) (ptes cnd ! ?j)" using cn by (simp add: leaf_node_def)
    then have "\<not> (is_present (pte C) (ptes cnd ! ?j) \<and> \<not> is_last (pte C) (ptes cnd ! ?j) (l - 1))"
      by (auto simp: leaf_entry_def)
    then show ?thesis
      using walk_through [OF wf' pc] walk_node [OF wf' pc, of v] ce True by (auto simp: Let_def)
  next
    case False
    have "page_walk C ?st root v = page_walk C st root v"
    proof (rule walk_frame [OF wf wf'])
      fix m lm assume m: "pos m = Some (lm, va_pre G lm v)"
      have mc: "m \<noteq> c" using m cne by auto
      have "\<not> (m = n \<and> va_idx G lm v = i)"
        using False va_pre_step [OF l, of G v] m n(1) by auto
      then show "?pos m = pos m \<and> pt_ent ?st m (va_idx G lm v) = pt_ent st m (va_idx G lm v)"
        using graft_ent [of st n nd i c m cnd] nd n(2) cne mc by auto
    qed
    then show ?thesis using False by simp
  qed
qed

lemma slot_set_walk:
  assumes wf: "pt_wf C G st pos root" and n: "pos n = Some (l, p)" "i < 2 ^ g_b G"
    and e: "leaf_entry C G l e"
  shows "page_walk C (slot_set C st n i e) root v = (
    if va_pre G (l - 1) v = p * 2 ^ g_b G + i then Some (leaf_trans l e v) else page_walk C st root v)"
proof -
  let ?q = "p * 2 ^ g_b G + i" and ?st = "slot_set C st n i e"
  let ?pos = "drop_slot G pos (l - 1) ?q"
  have wf': "pt_wf C G ?st ?pos root" by (rule slot_set_wf [OF assms])
  have l: "1 \<le> l" "l \<le> NR_LEVELS" using pt_wfD(3) [OF wf n(1)] by auto
  obtain nd where nd: "st n = Some nd" "length (ptes nd) = 2 ^ g_b G"
    by (rule pt_wf_node [OF wf n(1)]) simp
  have ent: "pt_ent ?st m j = (if m = n \<and> j = i then e else pt_ent st m j)" for m j
    using slot_set_ent [of st n nd i C e] nd n(2) by simp
  show ?thesis
  proof (cases "va_pre G (l - 1) v = ?q")
    case True
    have "?pos n = Some (l, p)" using n(1) l by (auto simp: in_slot_def)
    moreover have "\<not> (is_present (pte C) e \<and> \<not> is_last (pte C) e l)" using e by (auto simp: leaf_entry_def)
    ultimately show ?thesis using walk_slot [OF wf', of n l p v i] True n(2) ent by simp
  next
    case False
    have "page_walk C ?st root v = page_walk C st root v"
    proof (rule walk_frame [OF wf wf'])
      fix m lm assume m: "pos m = Some (lm, va_pre G lm v)"
      have "l - 1 \<le> NR_LEVELS" using l by linarith
      then have "\<not> in_slot G (l - 1) ?q (lm, va_pre G lm v)"
        using False in_slot_va_pre [of G "l - 1" ?q lm v] by auto
      moreover have "\<not> (m = n \<and> va_idx G lm v = i)"
        using False va_pre_step [OF l, of G v] m n(1) by auto
      ultimately show "?pos m = pos m \<and> pt_ent ?st m (va_idx G lm v) = pt_ent st m (va_idx G lm v)"
        using ent m by auto
    qed
    then show ?thesis using False by simp
  qed
qed

end
section \<open>The operations on entries\<close>

definition new_leaf :: "Child \<Rightarrow> nat \<Rightarrow> pt_ghost \<Rightarrow> ('e, 'i) pt_config \<Rightarrow> bool" where
  "new_leaf ch l G C \<longleftrightarrow> (case ch of
     Absent \<Rightarrow> True
   | Frame pa l' q \<Rightarrow> l' = l \<and> l \<le> HIGHEST_TRANSLATION_LEVEL (pconsts C) \<and> leaf_ok G pa l q
   | PageTable p \<Rightarrow> False)"

definition child_trans :: "pt_ghost \<Rightarrow> nat \<Rightarrow> Child \<Rightarrow> Vaddr \<Rightarrow> (Paddr \<times> PageProperty) option" where
  "child_trans G l ch v = (case ch of Frame pa l' q \<Rightarrow> Some (pa + v mod gsz G l, q) | _ \<Rightarrow> None)"

context page_table
begin

lemma guard_entry_eq:
  assumes "pt_wf C G st pos root" "pos n = Some (l, p)" "i < 2 ^ g_b G"
  shows "guard_entry C st n i = Some \<lparr>e_pte = pt_ent st n i, e_idx = i, e_node = n\<rparr>"
  using wf_entry(2) [OF assms] assms(3) by (simp add: guard_entry_def rassert_def)

lemma child_from_ok:
  assumes ok: "entry_ok C G pos l p i e"
  obtains "child_from_pte C e l = Some Absent" "\<not> is_present (pte C) e" "leaf_entry C G l e"
  | c where "child_from_pte C e l = Some (PageTable c)" "points_to C e l c" "1 < l"
      "pos c = Some (l - 1, p * 2 ^ g_b G + i)"
  | q where "child_from_pte C e l = Some (Frame (pte_paddr (pte C) e) l q)" "is_present (pte C) e"
      "is_last (pte C) e l" "l \<le> HIGHEST_TRANSLATION_LEVEL (pconsts C)" "pte_prop (pte C) e = Some q"
      "leaf_ok G (pte_paddr (pte C) e) l q" "leaf_entry C G l e"
proof (cases "is_present (pte C) e")
  case False
  then show thesis using that(1) by (simp add: child_from_pte_def leaf_entry_def)
next
  case True
  show thesis
  proof (cases "is_last (pte C) e l")
    case False
    then show thesis using True ok that(2) by (simp add: child_from_pte_def points_to_def entry_ok_def)
  next
    case last: True
    then obtain q where "pte_prop (pte C) e = Some q" "leaf_ok G (pte_paddr (pte C) e) l q"
      "l \<le> HIGHEST_TRANSLATION_LEVEL (pconsts C)" using ok True by (auto simp: entry_ok_def)
    then show thesis using True last that(3) by (simp add: child_from_pte_def leaf_entry_def)
  qed
qed

lemma leaf_trans_child:
  "leaf_entry C G l e \<Longrightarrow> child_from_pte C e l = Some ch \<Longrightarrow> leaf_trans l e v = child_trans G l ch v"
  by (auto simp: leaf_trans_def child_trans_def child_from_pte_def leaf_entry_def)

lemma into_pte_leaf:
  assumes "new_leaf ch l G C" "1 \<le> l"
  shows "\<exists>e. child_into_pte C ch = Some e \<and> leaf_entry C G l e \<and> child_from_pte C e l = Some ch \<and>
    (is_present (pte C) e \<longleftrightarrow> ch \<noteq> Absent)"
proof (cases ch)
  case (Frame pa l' q)
  then have ok: "l' = l" "l \<le> HIGHEST_TRANSLATION_LEVEL (pconsts C)" "leaf_ok G pa l q"
    using assms(1) by (simp_all add: new_leaf_def)
  then obtain e where "new_page (pte C) pa l q = Some e" "is_present (pte C) e" "pte_paddr (pte C) e = pa"
    "is_last (pte C) e l" "pte_prop (pte C) e = Some q"
    using pt.page_law [of pa q l] leaf_valid [of pa l q] assms(2) by (auto simp: leaf_ok_def)
  then show ?thesis using ok Frame by (simp add: leaf_entry_def child_from_pte_def)
qed (use assms pt.absent_law in \<open>auto simp: new_leaf_def leaf_entry_def child_from_pte_def\<close>)

lemma write_eq:
  assumes wf: "pt_wf C G st pos root" and n: "pos n = Some (l, p)" "i < 2 ^ g_b G"
    and nd: "st' n = Some nd" "length (ptes nd) = 2 ^ g_b G"
  shows "write_pte st' n i e = Some (st'(n \<mapsto> nd\<lparr>ptes := (ptes nd)[i := e]\<rparr>))"
  using pt_wfD(3) [OF wf n(1)] n(2) nd by (simp add: write_pte_def paddr_to_vaddr_def uadd_def rset_def)

lemma same_children: "st n = Some nd \<Longrightarrow> k = nr_children nd \<Longrightarrow> st(n \<mapsto> nd\<lparr>nr_children := k\<rparr>) = st"
  by (cases nd) (simp add: fun_upd_idem)

lemma replace_child_ok:
  assumes wf: "pt_wf C G st pos root" and n: "pos n = Some (l, p)" "i < 2 ^ g_b G"
    and new: "new_leaf ch l G C"
  shows "\<exists>old e. child_from_pte C (pt_ent st n i) l = Some old \<and> leaf_entry C G l e \<and>
    child_from_pte C e l = Some ch \<and> replace_child C st n i ch = Some (old, slot_set C st n i e)"
proof -
  have l: "1 \<le> l" using pt_wfD(3) [OF wf n(1)] by auto
  obtain nd where nd: "st n = Some nd" "nlevel nd = l" "length (ptes nd) = 2 ^ g_b G"
    "nr_children nd = children_count C (ptes nd)"
    by (rule pt_wf_node [OF wf n(1)]) simp
  obtain e where e: "child_into_pte C ch = Some e" "leaf_entry C G l e" "child_from_pte C e l = Some ch"
    "is_present (pte C) e \<longleftrightarrow> ch \<noteq> Absent" using into_pte_leaf [OF new l] by blast
  obtain old where old: "child_from_pte C (pt_ent st n i) l = Some old"
    "is_present (pte C) (pt_ent st n i) \<longleftrightarrow> old \<noteq> Absent"
    by (rule child_from_ok [OF wf_entry(1) [OF wf n]]) (auto simp: points_to_def)
  have lev: "replace_level_ok st l ch = Some ()" using new by (cases ch) (auto simp: new_leaf_def rassert_def)
  have cnt: "children_count C ((ptes nd)[i := e]) + (if old \<noteq> Absent then 1 else 0) =
      nr_children nd + (if ch \<noteq> Absent then 1 else 0)"
    using children_count_update [of i "ptes nd" C e] nd n(2) old(2) e(4) by (simp add: pt_ent_def)
  have "children_count C ((ptes nd)[i := e]) < 65536"
    using children_count_le [of C "(ptes nd)[i := e]"] counter nd(3) by simp
  then have st1: "(if old = Absent \<and> ch \<noteq> Absent then inc_children st n
      else if old \<noteq> Absent \<and> ch = Absent then dec_children st n else Some st) =
      Some (st(n \<mapsto> nd\<lparr>nr_children := children_count C ((ptes nd)[i := e])\<rparr>))"
    using cnt nd(1) same_children [of st n nd] by (auto simp: inc_children_def dec_children_def rassert_def usub_def split: if_splits)
  have "write_pte (st(n \<mapsto> nd\<lparr>nr_children := children_count C ((ptes nd)[i := e])\<rparr>)) n i e = Some (slot_set C st n i e)"
    using write_eq [OF wf n, of _ _ e] nd by (cases nd) (simp add: slot_set_def Let_def)
  then show ?thesis
    using e old lev wf_entry(2) [OF wf n] nd(1,2) st1 by (auto simp: replace_child_def node_level_def)
qed

end
section \<open>Allocating and splitting\<close>

definition split_pte :: "('e, 'i) pt_config \<Rightarrow> pt_ghost \<Rightarrow> Paddr \<Rightarrow> nat \<Rightarrow> PageProperty \<Rightarrow> nat \<Rightarrow> 'e" where
  "split_pte C G pa l q j = the (new_page (pte C) (pa + j * gsz G (l - 1)) (l - 1) q)"

definition split_node :: "('e, 'i) pt_config \<Rightarrow> pt_ghost \<Rightarrow> Paddr \<Rightarrow> nat \<Rightarrow> PageProperty \<Rightarrow> nat \<Rightarrow> 'e pt_node" where
  "split_node C G pa l q j = \<lparr>nlevel = l - 1, nr_children = j, stray = False,
     ptes = map (split_pte C G pa l q) [0..<j] @ replicate (2 ^ g_b G - j) (new_absent (pte C))\<rparr>"

lemma split_node_0: "split_node C G pa l q 0 = node_new C (l - 1) (2 ^ g_b G)"
  by (simp add: split_node_def node_new_def)

context page_table
begin

lemma node_alloc_ok:
  assumes "finite (dom st)" "card (dom st) < g_nodes G"
  shows "\<exists>c. node_alloc C env st l = Some (c, st(c \<mapsto> node_new C l (2 ^ g_b G))) \<and> st c = None \<and>
    2 ^ g_k G dvd c \<and> c < g_limit G \<and> c + LINEAR_MAPPING_BASE_VADDR \<le> USIZE_MAX"
proof -
  obtain c where "alloc_frame env st = Some c" using alloc_room [OF assms] by blast
  then show ?thesis using alloc_fresh [of st c] by (auto simp: node_alloc_def)
qed

lemma leaf_node_new: "leaf_node C G l (node_new C l (2 ^ g_b G))"
  using pt.absent_law by (simp add: leaf_node_def node_new_def children_count_def leaf_entry_def)

lemma inc_after_write:
  assumes wf: "pt_wf C G st pos root" and n: "pos n = Some (l, p)" "i < 2 ^ g_b G"
    and e: "\<not> is_present (pte C) (pt_ent st n i)" and c: "st c = None"
    and f: "is_present (pte C) f"
  shows "write_pte (st(c \<mapsto> cnd)) n i f \<bind> (\<lambda>s. inc_children s n) = Some ((slot_set C st n i f)(c \<mapsto> cnd))"
proof -
  obtain nd where nd: "st n = Some nd" "nlevel nd = l" "length (ptes nd) = 2 ^ g_b G"
    "nr_children nd = children_count C (ptes nd)"
    by (rule pt_wf_node [OF wf n(1)]) simp
  have ne: "c \<noteq> n" using c nd by auto
  have cnt: "children_count C ((ptes nd)[i := f]) = nr_children nd + 1"
    using children_count_update [of i "ptes nd" C f] nd n(2) e f by (simp add: pt_ent_def)
  moreover have "children_count C ((ptes nd)[i := f]) < 65536"
    using children_count_le [of C "(ptes nd)[i := f]"] counter nd(3) by simp
  ultimately show ?thesis
    using write_eq [OF wf n, of "st(c \<mapsto> cnd)" nd f] nd ne
    by (auto simp: inc_children_def rassert_def slot_set_def Let_def)
qed

lemma alloc_absent_child_ok:
  assumes wf: "pt_wf C G st pos root" and n: "pos n = Some (l, p)" "i < 2 ^ g_b G" and l1: "1 < l"
    and e: "\<not> is_present (pte C) (pt_ent st n i)" and room: "card (dom st) < g_nodes G"
  shows "\<exists>c. alloc_absent_child C env st n i = Some (c, graft C st n i c (node_new C (l - 1) (2 ^ g_b G))) \<and>
    st c = None \<and> 2 ^ g_k G dvd c \<and> c < g_limit G \<and> c + LINEAR_MAPPING_BASE_VADDR \<le> USIZE_MAX"
proof -
  obtain nd where nd: "st n = Some nd" "nlevel nd = l" by (rule pt_wf_node [OF wf n(1)]) simp
  obtain c where c: "node_alloc C env st (l - 1) = Some (c, st(c \<mapsto> node_new C (l - 1) (2 ^ g_b G)))"
    "st c = None" "2 ^ g_k G dvd c" "c < g_limit G" "c + LINEAR_MAPPING_BASE_VADDR \<le> USIZE_MAX"
    using node_alloc_ok [OF pt_wfD(1) [OF wf] room] by blast
  have "is_present (pte C) (new_pt (pte C) c)" using pt.pt_law [of c] c by blast
  then show ?thesis
    using inc_after_write [OF wf n e c(2), of "new_pt (pte C) c" "node_new C (l - 1) (2 ^ g_b G)"] nd l1 c
    by (auto simp: alloc_absent_child_def node_level_def usub_def graft_def bind_eq_Some_conv)
qed

lemma alloc_if_none_ok:
  assumes wf: "pt_wf C G st pos root" and n: "pos n = Some (l, p)" "i < 2 ^ g_b G" and l1: "1 < l"
    and e: "\<not> is_present (pte C) (pt_ent st n i)" and room: "card (dom st) < g_nodes G"
  shows "\<exists>c. alloc_if_none C env st \<lparr>e_pte = pt_ent st n i, e_idx = i, e_node = n\<rparr> =
      Some (Some c, graft C st n i c (node_new C (l - 1) (2 ^ g_b G))) \<and>
    st c = None \<and> 2 ^ g_k G dvd c \<and> c < g_limit G \<and> c + LINEAR_MAPPING_BASE_VADDR \<le> USIZE_MAX"
proof -
  obtain nd where nd: "st n = Some nd" "nlevel nd = l" by (rule pt_wf_node [OF wf n(1)]) simp
  obtain c where c: "node_alloc C env st (l - 1) = Some (c, st(c \<mapsto> node_new C (l - 1) (2 ^ g_b G)))"
    "st c = None" "2 ^ g_k G dvd c" "c < g_limit G" "c + LINEAR_MAPPING_BASE_VADDR \<le> USIZE_MAX"
    using node_alloc_ok [OF pt_wfD(1) [OF wf] room] by blast
  have "is_present (pte C) (new_pt (pte C) c)" using pt.pt_law [of c] c by blast
  then show ?thesis
    using inc_after_write [OF wf n e c(2), of "new_pt (pte C) c" "node_new C (l - 1) (2 ^ g_b G)"] nd l1 c e
    by (auto simp: alloc_if_none_def node_level_def graft_def bind_eq_Some_conv)
qed

lemma graft_new_walk:
  assumes wf: "pt_wf C G st pos root" and n: "pos n = Some (l, p)" "i < 2 ^ g_b G" and l1: "1 < l"
    and e: "\<not> is_present (pte C) (pt_ent st n i)"
    and c: "st c = None" "2 ^ g_k G dvd c" "c < g_limit G" "c + LINEAR_MAPPING_BASE_VADDR \<le> USIZE_MAX"
  shows "page_walk C (graft C st n i c (node_new C (l - 1) (2 ^ g_b G))) root v = page_walk C st root v"
proof -
  have le: "leaf_entry C G l (pt_ent st n i)" using e by (simp add: leaf_entry_def)
  show ?thesis
    using graft_walk [OF wf n l1 le c leaf_node_new, of v] walk_slot [OF wf n(1) _ n(2), of v] e pt.absent_law
    by (auto simp: node_new_def leaf_trans_def)
qed

end
context page_table
begin

lemma split_leaf:
  assumes ok: "leaf_ok G pa l q" "l \<le> HIGHEST_TRANSLATION_LEVEL (pconsts C)" and l1: "1 < l" "l \<le> NR_LEVELS"
    and j: "j < 2 ^ g_b G"
  shows "leaf_ok G (pa + j * gsz G (l - 1)) (l - 1) q" "pa + j * gsz G (l - 1) + gsz G (l - 1) \<le> pa + gsz G l"
    "new_page (pte C) (pa + j * gsz G (l - 1)) (l - 1) q = Some (split_pte C G pa l q j)"
    "leaf_entry C G (l - 1) (split_pte C G pa l q j)" "is_present (pte C) (split_pte C G pa l q j)"
    "pte_paddr (pte C) (split_pte C G pa l q j) = pa + j * gsz G (l - 1)"
    "pte_prop (pte C) (split_pte C G pa l q j) = Some q"
proof -
  let ?s = "gsz G (l - 1)" and ?pa = "pa + j * gsz G (l - 1)"
  have s: "gsz G l = ?s * 2 ^ g_b G" using gsz_Suc [of "l - 1" G] l1 by simp
  have "j * ?s + ?s \<le> 2 ^ g_b G * ?s" using mult_le_mono1 [of "Suc j" "2 ^ g_b G" ?s] j by simp
  then show sz: "?pa + ?s \<le> pa + gsz G l" using s by (simp add: mult.commute)
  have "?s dvd pa" using ok(1) s by (auto simp: leaf_ok_def intro: dvd_mult_left)
  then show lo: "leaf_ok G ?pa (l - 1) q"
    using ok(1) sz item_split [of pa l q ?pa] l1 by (simp add: leaf_ok_def)
  obtain e where e: "new_page (pte C) ?pa (l - 1) q = Some e" "is_present (pte C) e" "pte_paddr (pte C) e = ?pa"
    "is_last (pte C) e (l - 1)" "pte_prop (pte C) e = Some q"
    using pt.page_law [of ?pa q "l - 1"] leaf_valid [OF lo] lo l1 by (auto simp: leaf_ok_def)
  then have "split_pte C G pa l q j = e" by (simp add: split_pte_def)
  then show "new_page (pte C) ?pa (l - 1) q = Some (split_pte C G pa l q j)"
    "leaf_entry C G (l - 1) (split_pte C G pa l q j)" "is_present (pte C) (split_pte C G pa l q j)"
    "pte_paddr (pte C) (split_pte C G pa l q j) = ?pa" "pte_prop (pte C) (split_pte C G pa l q j) = Some q"
    using e lo ok(2) l1 by (auto simp: leaf_entry_def)
qed

lemma split_node_step:
  assumes "j < 2 ^ g_b G"
  shows "(ptes (split_node C G pa l q j))[j := split_pte C G pa l q j] = ptes (split_node C G pa l q (Suc j))"
proof -
  have "replicate (2 ^ g_b G - j) (new_absent (pte C)) =
      new_absent (pte C) # replicate (2 ^ g_b G - Suc j) (new_absent (pte C))"
    using assms by (metis Suc_diff_Suc replicate_Suc)
  then show ?thesis using assms by (simp add: split_node_def list_update_append)
qed

lemma split_fill_ok:
  assumes ok: "leaf_ok G pa l q" "l \<le> HIGHEST_TRANSLATION_LEVEL (pconsts C)" and l1: "1 < l" "l \<le> NR_LEVELS"
    and c: "c + LINEAR_MAPPING_BASE_VADDR \<le> USIZE_MAX"
  shows "j \<le> 2 ^ g_b G \<Longrightarrow> split_fill C (st(c \<mapsto> split_node C G pa l q j)) c pa l q [j..<2 ^ g_b G] =
    Some (st(c \<mapsto> split_node C G pa l q (2 ^ g_b G)))"
proof (induction "2 ^ g_b G - j" arbitrary: j)
  case (Suc d)
  then have j: "j < 2 ^ g_b G" by simp
  let ?s = "gsz G (l - 1)"
  have u: "usub l 1 = Some (l - 1)" "page_size (pconsts C) (l - 1) = Some ?s"
    using l1 size_eq [of "l - 1"] by (simp_all add: usub_def)
  note sl = split_leaf [OF ok l1 j]
  have le: "pa + j * ?s + ?s \<le> USIZE_MAX" using sl(2) ok(1) limit by (simp add: leaf_ok_def)
  have m: "umul j ?s = Some (j * ?s)" "uadd pa (j * ?s) = Some (pa + j * ?s)"
    using le by (simp_all add: umul_def uadd_def)
  have "length (ptes (split_node C G pa l q j)) = 2 ^ g_b G" using j by (simp add: split_node_def)
  then have r: "replace_absent_with_frame C (st(c \<mapsto> split_node C G pa l q j)) c j (pa + j * ?s) (l - 1) q =
      Some (st(c \<mapsto> split_node C G pa l q (Suc j)))"
    using sl(3) c j counter split_node_step [OF j, of pa l q]
    by (simp add: replace_absent_with_frame_def inc_children_def rassert_def write_pte_def paddr_to_vaddr_def
        uadd_def rset_def split_node_def)
  have "[j..<2 ^ g_b G] = j # [Suc j..<2 ^ g_b G]" using j by (simp add: upt_conv_Cons)
  then show ?case using u m r Suc.hyps(1) [of "Suc j"] Suc.hyps(2) j by simp
qed simp

lemma split_leaf_node:
  assumes ok: "leaf_ok G pa l q" "l \<le> HIGHEST_TRANSLATION_LEVEL (pconsts C)" and l1: "1 < l" "l \<le> NR_LEVELS"
  shows "leaf_node C G (l - 1) (split_node C G pa l q (2 ^ g_b G))"
  using split_leaf(4,5) [OF ok l1]
  by (simp add: leaf_node_def split_node_def children_count_def filter_id_conv)

lemma split_ok:
  assumes wf: "pt_wf C G st pos root" and n: "pos n = Some (l, p)" "i < 2 ^ g_b G" and l1: "1 < l"
    and e: "is_present (pte C) (pt_ent st n i)" "is_last (pte C) (pt_ent st n i) l"
    and room: "card (dom st) < g_nodes G"
  shows "\<exists>c q. split_if_mapped_huge C env st \<lparr>e_pte = pt_ent st n i, e_idx = i, e_node = n\<rparr> =
      Some (Some c, graft C st n i c (split_node C G (pte_paddr (pte C) (pt_ent st n i)) l q (2 ^ g_b G))) \<and>
    st c = None \<and> 2 ^ g_k G dvd c \<and> c < g_limit G \<and> c + LINEAR_MAPPING_BASE_VADDR \<le> USIZE_MAX \<and>
    leaf_node C G (l - 1) (split_node C G (pte_paddr (pte C) (pt_ent st n i)) l q (2 ^ g_b G)) \<and>
    (\<forall>v. page_walk C (graft C st n i c (split_node C G (pte_paddr (pte C) (pt_ent st n i)) l q (2 ^ g_b G))) root v =
      page_walk C st root v)"
proof -
  let ?e = "pt_ent st n i"
  let ?pa = "pte_paddr (pte C) ?e"
  have l: "l \<le> NR_LEVELS" using pt_wfD(3) [OF wf n(1)] by auto
  obtain nd where nd: "st n = Some nd" "nlevel nd = l" "length (ptes nd) = 2 ^ g_b G"
    "nr_children nd = children_count C (ptes nd)"
    by (rule pt_wf_node [OF wf n(1)]) simp
  obtain q where q: "pte_prop (pte C) ?e = Some q" "l \<le> HIGHEST_TRANSLATION_LEVEL (pconsts C)" "leaf_ok G ?pa l q"
    using wf_entry(1) [OF wf n] e by (auto simp: entry_ok_def)
  obtain c where c: "node_alloc C env st (l - 1) = Some (c, st(c \<mapsto> node_new C (l - 1) (2 ^ g_b G)))"
    "st c = None" "2 ^ g_k G dvd c" "c < g_limit G" "c + LINEAR_MAPPING_BASE_VADDR \<le> USIZE_MAX"
    using node_alloc_ok [OF pt_wfD(1) [OF wf] room] by blast
  let ?nd = "split_node C G ?pa l q (2 ^ g_b G)" and ?f = "new_pt (pte C) c"
  have pr: "is_present (pte C) ?f" using pt.pt_law [of c] c by blast
  have ne: "c \<noteq> n" using c nd by auto
  have fill: "split_fill C (st(c \<mapsto> node_new C (l - 1) (2 ^ g_b G))) c ?pa l q [0..<2 ^ g_b G] = Some (st(c \<mapsto> ?nd))"
    using split_fill_ok [OF q(3,2) l1 l c(5), of 0 st] by (simp add: split_node_0)
  have cnt: "children_count C ((ptes nd)[i := ?f]) = nr_children nd"
    using children_count_update [of i "ptes nd" C ?f] nd n(2) e(1) pr by (simp add: pt_ent_def)
  have w: "write_pte (st(c \<mapsto> ?nd)) n i ?f = Some (graft C st n i c ?nd)"
    using write_eq [OF wf n, of "st(c \<mapsto> ?nd)" nd ?f] nd ne cnt
    by (cases nd) (auto simp: graft_def slot_set_def Let_def)
  have le: "leaf_entry C G l ?e" using q e by (simp add: leaf_entry_def)
  have ln: "leaf_node C G (l - 1) ?nd" by (rule split_leaf_node [OF q(3,2) l1 l])
  have walk: "page_walk C (graft C st n i c ?nd) root v = page_walk C st root v" for v
  proof (cases "va_pre G (l - 1) v = p * 2 ^ g_b G + i")
    case True
    let ?j = "va_idx G (l - 1) v"
    have "gsz G l = gsz G (l - 1) * 2 ^ g_b G" using gsz_Suc [of "l - 1" G] l1 by simp
    then have "v mod gsz G l = gsz G (l - 1) * ?j + v mod gsz G (l - 1)"
      by (simp add: va_idx_def mod_mult2_eq)
    then have "leaf_trans (l - 1) (split_pte C G ?pa l q ?j) v = leaf_trans l ?e v"
      using split_leaf(5-7) [OF q(3,2) l1 l va_idx_lt, of "l - 1" v] e(1) q(1) by (simp add: leaf_trans_def mult.commute)
    then show ?thesis
      using graft_walk [OF wf n l1 le c(2-5) ln, of v] walk_slot [OF wf n(1) _ n(2), of v] e True
      by (simp add: split_node_def)
  next
    case False
    then show ?thesis using graft_walk [OF wf n l1 le c(2-5) ln, of v] by simp
  qed
  have "split_if_mapped_huge C env st \<lparr>e_pte = ?e, e_idx = i, e_node = n\<rparr> = Some (Some c, graft C st n i c ?nd)"
    using nd(1,2) e(2) l1 q(1) c(1) fill w by (simp add: split_if_mapped_huge_def node_level_def)
  then show ?thesis using c ln walk by blast
qed

section \<open>Changing a property\<close>

lemma protect_ok:
  assumes wf: "pt_wf C G st pos root" and n: "pos n = Some (l, p)" "i < 2 ^ g_b G"
    and e: "is_present (pte C) (pt_ent st n i)" "is_last (pte C) (pt_ent st n i) l"
    and op: "\<And>q pa. pte_prop (pte C) (pt_ent st n i) = Some q \<Longrightarrow> g_prop G (op q) \<and>
      g_item G (pte_paddr (pte C) (pt_ent st n i)) l (op q)"
  shows "\<exists>f q. protect_child C st n i op = Some (slot_set C st n i f) \<and> leaf_entry C G l f \<and>
    pte_prop (pte C) (pt_ent st n i) = Some q \<and>
    child_from_pte C f l = Some (Frame (pte_paddr (pte C) (pt_ent st n i)) l (op q))"
proof -
  let ?e = "pt_ent st n i"
  obtain nd where nd: "st n = Some nd" "nlevel nd = l" "length (ptes nd) = 2 ^ g_b G"
    "nr_children nd = children_count C (ptes nd)"
    by (rule pt_wf_node [OF wf n(1)]) simp
  obtain q where q: "pte_prop (pte C) ?e = Some q" "l \<le> HIGHEST_TRANSLATION_LEVEL (pconsts C)"
    "leaf_ok G (pte_paddr (pte C) ?e) l q"
    using wf_entry(1) [OF wf n] e by (auto simp: entry_ok_def)
  obtain f where f: "set_prop (pte C) ?e (op q) = Some f" "is_present (pte C) f"
    "pte_paddr (pte C) f = pte_paddr (pte C) ?e" "is_last (pte C) f l" "pte_prop (pte C) f = Some (op q)"
    using pt.set_prop_law [OF e, of "op q"] op [OF q(1)] by blast
  have cnt: "children_count C ((ptes nd)[i := f]) = nr_children nd"
    using children_count_update [of i "ptes nd" C f] nd n(2) e(1) f(2) by (simp add: pt_ent_def)
  have w: "write_pte st n i f = Some (slot_set C st n i f)"
    using write_eq [OF wf n, of st nd f] nd cnt by (cases nd) (auto simp: slot_set_def Let_def)
  have "leaf_entry C G l f" using f q op [OF q(1)] by (simp add: leaf_entry_def leaf_ok_def)
  then show ?thesis
    using w f q wf_entry(2) [OF wf n] by (auto simp: protect_child_def child_from_pte_def)
qed

section \<open>Stray marks\<close>

lemma stray_only_wf:
  assumes wf: "pt_wf C G st pos root" and s: "stray_only st st'"
  shows "pt_wf C G st' pos root" "dom st' = dom st" "pt_ent st' n i = pt_ent st n i \<or> st n = None"
proof -
  have ex: "st n = Some nd \<Longrightarrow> \<exists>b. st' n = Some (nd\<lparr>stray := b\<rparr>)" for n nd
    using s unfolding stray_only_def by (metis option.simps(9))
  have none: "st n = None \<Longrightarrow> st' n = None" for n using s unfolding stray_only_def by (metis option.simps(8))
  show d: "dom st' = dom st"
  proof (rule set_eqI)
    show "m \<in> dom st' \<longleftrightarrow> m \<in> dom st" for m using ex [of m] none [of m] by (cases "st m") auto
  qed
  show "pt_ent st' n i = pt_ent st n i \<or> st n = None" using ex [of n] by (cases "st n") (auto simp: pt_ent_def)
  have nodes: "\<exists>nd. st' n = Some nd \<and> node_ok C G pos l p nd" if m: "pos n = Some (l, p)" for n l p
  proof -
    obtain nd where nd: "st n = Some nd" "node_ok C G pos l p nd" using wf m unfolding pt_wf_def by blast
    then show ?thesis using ex [OF nd(1)] by (auto simp: node_ok_def)
  qed
  have links: "\<exists>n nd. pos n = Some (l + 1, q div 2 ^ g_b G) \<and> st' n = Some nd \<and>
      points_to C (ptes nd ! (q mod 2 ^ g_b G)) (l + 1) c" if "pos c = Some (l, q)" "l < NR_LEVELS" for c l q
    using pt_wfD(5) [OF wf that] ex by fastforce
  show "pt_wf C G st' pos root"
    unfolding pt_wf_def using pt_wfD(1-4) [OF wf] d nodes links by simp
qed

lemma stray_only_walk:
  assumes wf: "pt_wf C G st pos root" and s: "stray_only st st'"
  shows "page_walk C st' root v = page_walk C st root v"
proof (rule walk_frame [OF wf stray_only_wf(1) [OF assms]])
  fix n l assume "pos n = Some (l, va_pre G l v)"
  then show "pos n = pos n \<and> pt_ent st' n (va_idx G l v) = pt_ent st n (va_idx G l v)"
    using stray_only_wf(3) [OF assms] pt_wf_dom [OF wf] by fastforce
qed

end

end
