(* ===== verification/Pt_Cursor_Move.thy ===== *)
theory Pt_Cursor_Move
  imports Pt_Cursor Pt_Update
begin

text \<open>
  The invariant of a cursor and the operations that move it: \<open>push_level\<close>, \<open>pop_level\<close>, \<open>move_forward\<close> and
  \<open>jump\<close>.  As long as the cursor is inside its range, its path holds, at every level from the current one
  to the guard level, the node that carries the prefix of the current address.
\<close>

section \<open>Addresses of one entry\<close>

definition slot_base :: "pt_ghost \<Rightarrow> nat \<Rightarrow> Vaddr \<Rightarrow> Vaddr" where
  "slot_base G l v = v div gsz G l * gsz G l"

lemma slot_base_le: "slot_base G l v \<le> v"
  by (simp add: slot_base_def)

lemma slot_base_gt: "v < slot_base G l v + gsz G l"
  unfolding slot_base_def using div_mult_mod_eq [of v "gsz G l"] mod_less_divisor [OF gsz_pos, of v G l]
  by linarith

lemma slot_base_mod: "v = slot_base G l v + v mod gsz G l"
  unfolding slot_base_def by (simp only: div_mult_mod_eq)

lemma in_slot_iff:
  "slot_base G l a \<le> v \<and> v < slot_base G l a + gsz G l \<longleftrightarrow> v div gsz G l = a div gsz G l"
proof
  assume h: "slot_base G l a \<le> v \<and> v < slot_base G l a + gsz G l"
  then have "a div gsz G l * gsz G l \<le> v" "v < (a div gsz G l + 1) * gsz G l" by (simp_all add: slot_base_def)
  then show "v div gsz G l = a div gsz G l"
    by (intro div_nat_eqI) (simp_all add: mult.commute)
next
  assume "v div gsz G l = a div gsz G l"
  then show "slot_base G l a \<le> v \<and> v < slot_base G l a + gsz G l"
    using slot_base_le [of G l v] slot_base_gt [of v G l] by (simp add: slot_base_def)
qed

lemma slot_base_aligned: "gsz G l dvd v \<Longrightarrow> slot_base G l v = v"
  by (simp add: slot_base_def)

lemma slot_base_eq_iff: "v = slot_base G l v \<longleftrightarrow> gsz G l dvd v"
  unfolding slot_base_def by (metis dvd_div_mult_self dvd_triv_right)

lemma div_gsz_mono:
  assumes "1 \<le> l" "l \<le> m" "a div gsz G l = b div gsz G l"
  shows "a div gsz G m = b div gsz G m"
proof -
  obtain t where t: "gsz G m = gsz G l * t" using gsz_dvd [OF assms(1,2), of G] by (elim dvdE)
  show ?thesis unfolding t div_mult2_eq using assms(3) by simp
qed

lemma va_pre_div:
  assumes "l \<le> NR_LEVELS"
  shows "va_pre G l v = v div gsz G (l + 1) mod (gW G div gsz G (l + 1))"
proof -
  have "gsz G (l + 1) dvd gW G" using gsz_dvd_gW [of "l + 1" G] assms by simp
  then obtain t where t: "gW G = gsz G (l + 1) * t" by (elim dvdE)
  show ?thesis unfolding va_pre_def t by (simp add: mod_mult2_eq)
qed

lemma va_pre_cong:
  assumes "L \<le> l" "l \<le> NR_LEVELS" "a div gsz G (L + 1) = b div gsz G (L + 1)"
  shows "va_pre G l a = va_pre G l b"
  using va_pre_div [OF assms(2)] div_gsz_mono [of "L + 1" "l + 1" a G b] assms by simp

lemma va_pre_eq_div:
  assumes "l \<le> NR_LEVELS" "a div gW G = b div gW G"
  shows "va_pre G l a = va_pre G l b \<longleftrightarrow> a div gsz G (l + 1) = b div gsz G (l + 1)"
proof -
  have "gsz G (l + 1) dvd gW G" using gsz_dvd_gW [of "l + 1" G] assms(1) by simp
  then obtain t where t: "gW G = gsz G (l + 1) * t" by (elim dvdE)
  let ?x = "a div gsz G (l + 1)" and ?y = "b div gsz G (l + 1)"
  have d: "?x div t = ?y div t" using assms(2) by (simp add: t div_mult2_eq)
  have p: "va_pre G l a = ?x mod t" "va_pre G l b = ?y mod t"
    unfolding va_pre_def t by (simp_all add: mod_mult2_eq)
  show ?thesis using d p div_mult_mod_eq [of ?x t] div_mult_mod_eq [of ?y t] by metis
qed

section \<open>The invariant of a cursor\<close>

definition path_ok :: "pt_ghost \<Rightarrow> pt_pos \<Rightarrow> Cursor \<Rightarrow> Vaddr \<Rightarrow> bool" where
  "path_ok G pos c v \<longleftrightarrow> (\<forall>l. level c \<le> l \<and> l \<le> guard_level c \<longrightarrow>
     (\<exists>n. path c ! (l - 1) = Some n \<and> pos n = Some (l, va_pre G l v)))"

definition cursor_core :: "pt_ghost \<Rightarrow> pt_pos \<Rightarrow> Cursor \<Rightarrow> bool" where
  "cursor_core G pos c \<longleftrightarrow> length (path c) = NR_LEVELS \<and> 1 \<le> level c \<and> level c \<le> guard_level c \<and>
     guard_level c \<le> NR_LEVELS \<and> barrier_start c \<le> va c \<and> barrier_start c < barrier_end c \<and>
     2 ^ g_k G dvd va c \<and> 2 ^ g_k G dvd barrier_end c \<and>
     (barrier_end c - 1) div gsz G (guard_level c + 1) = barrier_start c div gsz G (guard_level c + 1) \<and>
     slot_base G (guard_level c) (barrier_end c - 1) + gsz G (guard_level c) \<le> USIZE_MAX \<and>
     (va c < barrier_end c \<longrightarrow> path_ok G pos c (va c))"

definition cursor_wf :: "pt_ghost \<Rightarrow> pt_pos \<Rightarrow> Cursor \<Rightarrow> bool" where
  "cursor_wf G pos c \<longleftrightarrow> cursor_core G pos c \<and> va c \<le> barrier_end c"

definition same_range :: "Cursor \<Rightarrow> Cursor \<Rightarrow> bool" where
  "same_range c c' \<longleftrightarrow> guard_level c' = guard_level c \<and> barrier_start c' = barrier_start c \<and>
     barrier_end c' = barrier_end c"

lemma same_range_refl [simp]: "same_range c c"
  by (simp add: same_range_def)

lemma same_range_trans: "same_range a b \<Longrightarrow> same_range b c \<Longrightarrow> same_range a c"
  by (simp add: same_range_def)

lemma barrier_node:
  assumes "cursor_core G pos c" "barrier_start c \<le> v" "v < barrier_end c"
  shows "v div gsz G (guard_level c + 1) = barrier_start c div gsz G (guard_level c + 1)"
proof -
  let ?s = "gsz G (guard_level c + 1)"
  have "barrier_start c div ?s \<le> v div ?s" "v div ?s \<le> (barrier_end c - 1) div ?s"
    using assms(2,3) by (auto intro: div_le_mono)
  then show ?thesis using assms(1) by (simp add: cursor_core_def)
qed

lemma barrier_fits:
  assumes "cursor_core G pos c" "v < barrier_end c" "1 \<le> l" "l \<le> guard_level c"
  shows "slot_base G l v + gsz G l \<le> USIZE_MAX"
proof -
  let ?g = "guard_level c"
  have "v div gsz G ?g \<le> (barrier_end c - 1) div gsz G ?g" using assms(2) by (intro div_le_mono) simp
  then have "slot_base G ?g v \<le> slot_base G ?g (barrier_end c - 1)" by (simp add: slot_base_def)
  then have g: "slot_base G ?g v + gsz G ?g \<le> USIZE_MAX" using assms(1) by (simp add: cursor_core_def)
  obtain t where t: "gsz G ?g = gsz G l * t" using gsz_dvd [OF assms(3,4), of G] by (elim dvdE)
  have "v < (v div gsz G ?g + 1) * gsz G ?g" using slot_base_gt [of v G ?g] by (simp add: slot_base_def)
  then have "v < (v div gsz G ?g + 1) * t * gsz G l" by (simp add: t mult_ac distrib_left)
  then have "v div gsz G l < (v div gsz G ?g + 1) * t" by (simp add: less_mult_imp_div_less)
  then have "(v div gsz G l + 1) * gsz G l \<le> (v div gsz G ?g + 1) * t * gsz G l" by (intro mult_le_mono1) simp
  also have "\<dots> = slot_base G ?g v + gsz G ?g" by (simp add: slot_base_def t mult_ac add_mult_distrib distrib_left)
  finally show ?thesis using g by (simp add: slot_base_def add_mult_distrib)
qed
section \<open>Stepping\<close>

context page_table
begin

lemma path_slot_ok:
  assumes "cursor_core G pos c" "va c < barrier_end c" "level c \<le> l" "l \<le> guard_level c"
  obtains n where "path_slot c l = Some n" "pos n = Some (l, va_pre G l (va c))"
proof -
  obtain n where n: "path c ! (l - 1) = Some n" "pos n = Some (l, va_pre G l (va c))"
    using assms by (auto simp: cursor_core_def path_ok_def)
  moreover have "path_slot c l = Some n"
  proof -
    have "1 \<le> l" "l - 1 < length (path c)" using assms by (auto simp: cursor_core_def)
    then show ?thesis using n(1) by (simp add: path_slot_def usub_def rindex_def)
  qed
  ultimately show thesis using that by blast
qed

lemma va_usize: "cursor_core G pos c \<Longrightarrow> va c < barrier_end c \<Longrightarrow> va c \<le> USIZE_MAX"
  using barrier_fits [of G pos c "va c" "guard_level c"] slot_base_gt [of "va c" G "guard_level c"]
  by (simp add: cursor_core_def)

lemma cur_va_range_ok:
  assumes "cursor_core G pos c" "va c < barrier_end c"
  shows "cur_va_range C c = Some (slot_base G (level c) (va c), slot_base G (level c) (va c) + gsz G (level c))"
  using assms size_eq [of "level c"] align_eq [OF va_usize [OF assms], of "level c"]
    barrier_fits [OF assms, of "level c"]
  by (simp add: cur_va_range_def cursor_core_def uadd_def slot_base_def)

lemma cur_entry_ok:
  assumes wf: "pt_wf C G st pos root" and c: "cursor_core G pos c" "va c < barrier_end c"
  obtains n where "path_slot c (level c) = Some n" "pos n = Some (level c, va_pre G (level c) (va c))"
    "pte_index (pconsts C) (va c) (level c) = Some (va_idx G (level c) (va c))"
    "cur_entry C st c = Some \<lparr>e_pte = pt_ent st n (va_idx G (level c) (va c)), e_idx = va_idx G (level c) (va c),
       e_node = n\<rparr>"
    "node_level st n = Some (level c)"
proof -
  have l: "level c \<le> guard_level c" "1 \<le> level c" "guard_level c \<le> NR_LEVELS" using c by (auto simp: cursor_core_def)
  obtain n where n: "path_slot c (level c) = Some n" "pos n = Some (level c, va_pre G (level c) (va c))"
    using path_slot_ok [OF c, of "level c"] l by blast
  have i: "pte_index (pconsts C) (va c) (level c) = Some (va_idx G (level c) (va c))"
    using index_eq [of "level c"] l by simp
  have "node_level st n = Some (level c)"
    by (rule pt_wf_node [OF wf n(2)]) (simp add: node_level_def)
  then show thesis
    using that n i guard_entry_eq [OF wf n(2) va_idx_lt] by (simp add: cur_entry_def)
qed

lemma push_level_ok:
  assumes c: "cursor_core G pos c" "va c < barrier_end c" and l: "1 < level c"
    and ext: "pos \<subseteq>\<^sub>m pos'"
    and child: "pos' ch = Some (level c - 1, va_pre G (level c - 1) (va c))"
  shows "\<exists>c'. push_level c ch = Some c' \<and> cursor_core G pos' c' \<and> level c' = level c - 1 \<and> va c' = va c \<and>
    same_range c c'"
proof -
  have len: "length (path c) = NR_LEVELS" "level c \<le> NR_LEVELS" using c by (auto simp: cursor_core_def)
  let ?c = "c\<lparr>level := level c - 1, path := (path c)[level c - 2 := Some ch]\<rparr>"
  have p: "push_level c ch = Some ?c"
  proof -
    have "1 \<le> level c - 1" "level c - 1 - 1 < length (path c)" "1 \<le> level c" using l len by auto
    then show ?thesis by (simp add: push_level_def usub_def rset_def numeral_2_eq_2)
  qed
  have "path_ok G pos' ?c (va c)"
    unfolding path_ok_def
  proof (intro allI impI)
    fix m assume m: "level ?c \<le> m \<and> m \<le> guard_level ?c"
    show "\<exists>n. path ?c ! (m - 1) = Some n \<and> pos' n = Some (m, va_pre G m (va c))"
    proof (cases "m = level c - 1")
      case True
      then show ?thesis using child l len by (simp add: numeral_2_eq_2)
    next
      case False
      then have "level c \<le> m \<and> m \<le> guard_level c" "m - 1 \<noteq> level c - 2" using m l by auto
      moreover obtain n where "path c ! (m - 1) = Some n" "pos n = Some (m, va_pre G m (va c))"
        using c calculation(1) by (auto simp: cursor_core_def path_ok_def)
      ultimately show ?thesis using map_leD [OF ext] by auto
    qed
  qed
  then have "cursor_core G pos' ?c" using c l by (auto simp: cursor_core_def)
  then show ?thesis using p by (auto simp: same_range_def)
qed

lemma pop_level_ok:
  assumes c: "length (path c) = NR_LEVELS" "1 \<le> level c" "level c < guard_level c" "guard_level c \<le> NR_LEVELS"
    and p: "path_ok G pos c v"
  shows "\<exists>c'. pop_level c = Some c' \<and> length (path c') = NR_LEVELS \<and> level c' = level c + 1 \<and> va c' = va c \<and>
    same_range c c' \<and> path_ok G pos c' v"
proof -
  obtain n where n: "path c ! (level c - 1) = Some n" using p c by (auto simp: path_ok_def)
  let ?c = "c\<lparr>path := (path c)[level c - 1 := None], level := level c + 1\<rparr>"
  have pop: "pop_level c = Some ?c"
    using n c by (simp add: pop_level_def usub_def rindex_def rset_def)
  have "path_ok G pos ?c v"
    unfolding path_ok_def
  proof (intro allI impI)
    fix m assume m: "level ?c \<le> m \<and> m \<le> guard_level ?c"
    then have "level c \<le> m \<and> m \<le> guard_level c" "m - 1 \<noteq> level c - 1" using c by auto
    then show "\<exists>n. path ?c ! (m - 1) = Some n \<and> pos n = Some (m, va_pre G m v)"
      using p by (auto simp: path_ok_def)
  qed
  then show ?thesis using pop c(1) by (auto simp: same_range_def)
qed

lemma core_pop:
  assumes "cursor_core G pos c" "va c < barrier_end c" "level c < guard_level c"
  shows "\<exists>c'. pop_level c = Some c' \<and> cursor_core G pos c' \<and> level c' = level c + 1 \<and> va c' = va c \<and> same_range c c'"
proof -
  have "\<exists>c'. pop_level c = Some c' \<and> length (path c') = NR_LEVELS \<and> level c' = level c + 1 \<and> va c' = va c \<and>
      same_range c c' \<and> path_ok G pos c' (va c)"
    by (rule pop_level_ok) (use assms in \<open>auto simp: cursor_core_def\<close>)
  then show ?thesis using assms by (auto simp: cursor_core_def same_range_def)
qed

text \<open>The address after the current entry: popping while its index is zero reaches the level whose
  node contains it.\<close>

lemma next_up:
  assumes l: "1 \<le> l" and w: "w = (v div gsz G l + 1) * gsz G l" and i: "va_idx G l w = 0"
  shows "w = (v div gsz G (l + 1) + 1) * gsz G (l + 1)"
proof -
  let ?x = "v div gsz G l" and ?n = "(2 :: nat) ^ g_b G"
  have "(?x + 1) mod ?n = 0" using i w by (simp add: va_idx_def)
  then obtain t where t: "?x + 1 = ?n * t" by (metis mod_0_imp_dvd dvdE)
  then have "0 < t" by (cases t) auto
  then obtain u where u: "t = Suc u" by (cases t) auto
  have "1 \<le> ?n" "?x + 1 = ?n + ?n * u" using t u by simp_all
  then have "?n * u \<le> ?x" "?x < ?n * Suc u" by (linarith, simp)
  then have "?x div ?n = t - 1" using u div_nat_eqI [of ?n u ?x] by simp
  then have "v div gsz G (l + 1) = t - 1" using gsz_Suc [OF l, of G] by (simp add: div_mult2_eq)
  moreover have "w = ?n * t * gsz G l" using w [unfolded t] .
  ultimately show ?thesis using \<open>0 < t\<close> gsz_Suc [OF l, of G] by (simp add: mult_ac)
qed

lemma next_same:
  assumes l: "1 \<le> l" and w: "w = (v div gsz G l + 1) * gsz G l" and i: "va_idx G l w \<noteq> 0"
  shows "w div gsz G (l + 1) = v div gsz G (l + 1)"
proof -
  let ?x = "v div gsz G l" and ?n = "(2 :: nat) ^ g_b G"
  have "(?x + 1) mod ?n \<noteq> 0" using i w by (simp add: va_idx_def)
  then have "(?x + 1) div ?n = ?x div ?n" by (metis Suc_eq_plus1 div_Suc)
  moreover have "w div gsz G l = ?x + 1" using w by simp
  ultimately show ?thesis using gsz_Suc [OF l, of G] by (simp add: div_mult2_eq)
qed

lemma pop_while_zero_ok:
  assumes "length (path c) = NR_LEVELS" "1 \<le> level c" "level c \<le> guard_level c" "guard_level c \<le> NR_LEVELS"
    and "path_ok G pos c v" "w = (v div gsz G (level c) + 1) * gsz G (level c)"
  shows "\<exists>c'. pop_while_zero C w c = Some c' \<and> length (path c') = NR_LEVELS \<and> level c \<le> level c' \<and>
    level c' \<le> guard_level c \<and> same_range c c' \<and> path_ok G pos c' v \<and>
    gsz G (level c') dvd w \<and> w = (v div gsz G (level c') + 1) * gsz G (level c') \<and>
    (w div gsz G (guard_level c + 1) = v div gsz G (guard_level c + 1) \<longrightarrow>
       w div gsz G (level c' + 1) = v div gsz G (level c' + 1))"
  using assms
proof (induction "guard_level c - level c" arbitrary: c)
  case 0
  then have l: "level c = guard_level c" by simp
  then have "pop_while_zero C w c = Some c" by (simp add: pop_while_zero.simps [of C w c])
  then show ?case using 0 l by auto
next
  case (Suc d)
  then have lt: "level c < guard_level c" by simp
  have idx: "pte_index (pconsts C) w (level c) = Some (va_idx G (level c) w)"
    using index_eq [of "level c" w] Suc.prems by simp
  show ?case
  proof (cases "va_idx G (level c) w = 0")
    case True
    obtain c1 where c1: "pop_level c = Some c1" "length (path c1) = NR_LEVELS" "level c1 = level c + 1"
      "same_range c c1" "path_ok G pos c1 v"
      using pop_level_ok [OF Suc.prems(1,2) lt Suc.prems(4,5)] by blast
    have w1: "w = (v div gsz G (level c1) + 1) * gsz G (level c1)"
      using next_up [OF Suc.prems(2,6) True] c1(3) by simp
    have g: "guard_level c1 = guard_level c" using c1(4) by (simp add: same_range_def)
    have "\<exists>c'. pop_while_zero C w c1 = Some c' \<and> length (path c') = NR_LEVELS \<and> level c1 \<le> level c' \<and>
      level c' \<le> guard_level c1 \<and> same_range c1 c' \<and> path_ok G pos c' v \<and>
      gsz G (level c') dvd w \<and> w = (v div gsz G (level c') + 1) * gsz G (level c') \<and>
      (w div gsz G (guard_level c1 + 1) = v div gsz G (guard_level c1 + 1) \<longrightarrow>
         w div gsz G (level c' + 1) = v div gsz G (level c' + 1))"
      by (rule Suc.hyps(1)) (use Suc.hyps(2) Suc.prems lt c1 g w1 in auto)
    moreover have "pop_while_zero C w c = pop_while_zero C w c1"
      using lt idx True c1(1) by (simp add: pop_while_zero.simps [of C w c])
    ultimately show ?thesis using c1 g by (auto simp: same_range_def)
  next
    case False
    then have "w div gsz G (level c + 1) = v div gsz G (level c + 1)"
      using next_same [OF Suc.prems(2,6)] by simp
    moreover have "pop_while_zero C w c = Some c"
      using False lt idx by (simp add: pop_while_zero.simps [of C w c])
    ultimately show ?thesis using Suc.prems by auto
  qed
qed

end
context page_table
begin

lemma move_forward_ok:
  assumes c: "cursor_core G pos c" "va c < barrier_end c"
  shows "\<exists>c'. move_forward C c = Some c' \<and> cursor_core G pos c' \<and>
    va c' = slot_base G (level c) (va c) + gsz G (level c) \<and> level c \<le> level c' \<and>
    gsz G (level c') dvd va c' \<and> same_range c c'"
proof -
  let ?w = "slot_base G (level c) (va c) + gsz G (level c)" and ?g = "guard_level c"
  have w: "?w = (va c div gsz G (level c) + 1) * gsz G (level c)" by (simp add: slot_base_def add_mult_distrib)
  have cc: "length (path c) = NR_LEVELS" "1 \<le> level c" "level c \<le> ?g" "?g \<le> NR_LEVELS" "path_ok G pos c (va c)"
    using c by (auto simp: cursor_core_def)
  obtain c1 where c1: "pop_while_zero C ?w c = Some c1" "length (path c1) = NR_LEVELS" "level c \<le> level c1"
    "level c1 \<le> ?g" "same_range c c1" "path_ok G pos c1 (va c)" "gsz G (level c1) dvd ?w"
    "?w div gsz G (?g + 1) = va c div gsz G (?g + 1) \<longrightarrow> ?w div gsz G (level c1 + 1) = va c div gsz G (level c1 + 1)"
    using pop_while_zero_ok [OF cc w] by blast
  let ?c = "c1\<lparr>va := ?w\<rparr>"
  have mf: "move_forward C c = Some ?c" using cur_va_range_ok [OF c] c1(1) by (simp add: move_forward_def)
  have gt: "va c < ?w" by (rule slot_base_gt)
  have path: "path_ok G pos ?c ?w" if "?w < barrier_end c"
  proof -
    have "?w div gsz G (?g + 1) = va c div gsz G (?g + 1)"
      using barrier_node [OF c(1), of ?w] barrier_node [OF c(1), of "va c"] that c gt by (simp add: cursor_core_def)
    then have d: "?w div gsz G (level c1 + 1) = va c div gsz G (level c1 + 1)" using c1(8) by simp
    have g1: "guard_level c1 = ?g" using c1(5) by (simp add: same_range_def)
    have "va_pre G l ?w = va_pre G l (va c)" if "level c1 \<le> l" "l \<le> ?g" for l
      using va_pre_cong [of "level c1" l ?w G "va c"] that d cc(4) by simp
    then show ?thesis using c1(6) g1 by (simp add: path_ok_def)
  qed
  have "2 ^ g_k G dvd gsz G (level c1)" using base_dvd [of "level c1"] c1(3) cc(2) by simp
  then have "2 ^ g_k G dvd ?w" using c1(7) dvd_trans by blast
  then have "cursor_core G pos ?c"
    using c c1 gt path cc by (auto simp: cursor_core_def same_range_def)
  then show ?thesis using mf c1 by (auto simp: same_range_def)
qed

section \<open>Jumping\<close>

lemma jump_loop_ok:
  assumes "cursor_core G pos c" "va c < barrier_end c" "barrier_start c \<le> v" "v < barrier_end c" "2 ^ g_k G dvd v"
  shows "\<exists>c'. jump_loop C v c = Some c' \<and> cursor_core G pos c' \<and> va c' = v \<and> level c \<le> level c' \<and> same_range c c'"
  using assms
proof (induction "guard_level c - level c" arbitrary: c)
  case (0 c)
  let ?L = "level c + 1"
  have l: "level c = guard_level c" "1 \<le> ?L" "?L \<le> NR_LEVELS + 1" using 0 by (auto simp: cursor_core_def)
  have d: "v div gsz G ?L = va c div gsz G ?L"
    using barrier_node [OF 0(2), of v] barrier_node [OF 0(2), of "va c"] 0 l by (simp add: cursor_core_def)
  then have "slot_base G ?L (va c) \<le> v \<and> v - slot_base G ?L (va c) < gsz G ?L"
    using in_slot_iff [of G ?L "va c" v] by auto
  then have j: "jump_loop C v c = Some (c\<lparr>va := v\<rparr>)"
    using l size_eq [of ?L] align_eq [OF va_usize [OF 0(2,3)], of ?L]
    by (simp add: jump_loop.simps [of C v c] slot_base_def)
  have "path_ok G pos (c\<lparr>va := v\<rparr>) v"
    using 0(2,3) va_pre_cong [of "level c" _ v G "va c"] d by (auto simp: cursor_core_def path_ok_def)
  then have "cursor_core G pos (c\<lparr>va := v\<rparr>)" using 0 by (auto simp: cursor_core_def)
  then show ?case using j by (auto simp: same_range_def)
next
  case (Suc d c)
  let ?L = "level c + 1"
  have l: "level c < guard_level c" "1 \<le> ?L" "?L \<le> NR_LEVELS + 1" using Suc.prems Suc.hyps(2) by (auto simp: cursor_core_def)
  note sa = size_eq [of ?L] align_eq [OF va_usize [OF Suc.prems(1,2)], of ?L]
  show ?case
  proof (cases "slot_base G ?L (va c) \<le> v \<and> v - slot_base G ?L (va c) < gsz G ?L")
    case True
    then have j: "jump_loop C v c = Some (c\<lparr>va := v\<rparr>)"
      using l sa by (simp add: jump_loop.simps [of C v c] slot_base_def)
    have d: "v div gsz G ?L = va c div gsz G ?L" using True in_slot_iff [of G ?L "va c" v] by auto
    have "path_ok G pos (c\<lparr>va := v\<rparr>) v"
      using Suc.prems(1,2) va_pre_cong [of "level c" _ v G "va c"] d by (auto simp: cursor_core_def path_ok_def)
    then have "cursor_core G pos (c\<lparr>va := v\<rparr>)" using Suc.prems by (auto simp: cursor_core_def)
    then show ?thesis using j by (auto simp: same_range_def)
  next
    case False
    obtain c1 where c1: "pop_level c = Some c1" "cursor_core G pos c1" "level c1 = level c + 1" "va c1 = va c"
      "same_range c c1" using core_pop [OF Suc.prems(1,2) l(1)] by blast
    have "\<exists>c'. jump_loop C v c1 = Some c' \<and> cursor_core G pos c' \<and> va c' = v \<and> level c1 \<le> level c' \<and> same_range c1 c'"
      by (rule Suc.hyps(1)) (use Suc.hyps(2) Suc.prems c1 in \<open>auto simp: same_range_def\<close>)
    moreover have "jump_loop C v c = jump_loop C v c1"
      using False l sa c1(1) by (auto simp: jump_loop.simps [of C v c] slot_base_def)
    ultimately show ?thesis using c1 by (auto simp: same_range_def)
  qed
qed

section \<open>Translations under the current entry\<close>

lemma slot_walk:
  assumes wf: "pt_wf C G st pos root" and n: "pos n = Some (l, va_pre G l a)"
    and d: "v div gsz G l = a div gsz G l"
    and e: "\<not> (is_present (pte C) (pt_ent st n (va_idx G l a)) \<and> \<not> is_last (pte C) (pt_ent st n (va_idx G l a)) l)"
  shows "page_walk C st root v = Some (leaf_trans l (pt_ent st n (va_idx G l a)) v)"
proof -
  have l: "1 \<le> l" "l \<le> NR_LEVELS" using pt_wfD(3) [OF wf n] by auto
  have "va_pre G (l - 1) v = va_pre G (l - 1) a"
    using va_pre_cong [of "l - 1" "l - 1" v G a] d l by simp
  then show ?thesis using walk_slot [OF wf n, of v "va_idx G l a"] va_pre_step [OF l, of G a] e by simp
qed

lemma slot_key:
  assumes "1 \<le> l" "l \<le> NR_LEVELS" "v div gW G = a div gW G"
  shows "va_pre G (l - 1) v = va_pre G l a * 2 ^ g_b G + va_idx G l a \<longleftrightarrow>
    slot_base G l a \<le> v \<and> v < slot_base G l a + gsz G l"
  using va_pre_eq_div [of "l - 1" v G a] va_pre_step [OF assms(1,2), of G a] in_slot_iff [of G l a v] assms by simp

lemma empty_table_walk:
  assumes wf: "pt_wf C G st pos root" and n: "pos n = Some (l, va_pre G l a)" and nd: "st n = Some nd" "nr_children nd = 0"
    and d: "v div gsz G (l + 1) = a div gsz G (l + 1)"
  shows "page_walk C st root v = Some None"
proof -
  have l: "1 \<le> l" "l \<le> NR_LEVELS" using pt_wfD(3) [OF wf n] by auto
  have p: "va_pre G l v = va_pre G l a" using va_pre_cong [of l l v G a] d l by simp
  have "length (ptes nd) = 2 ^ g_b G \<and> nr_children nd = children_count C (ptes nd)"
    by (rule pt_wf_node [OF wf n]) (use nd in simp)
  then have "\<not> is_present (pte C) (pt_ent st n (va_idx G l v))"
    using nd va_idx_lt [of G l v] by (auto simp: children_count_def filter_empty_conv pt_ent_def)
  then show ?thesis
    using walk_through [OF wf, of n l v] walk_node [OF wf n, of v] n p by (simp add: leaf_trans_def Let_def)
qed

end

end
