(* ===== verification/Pt_Cursor_Correct.thy ===== *)
theory Pt_Cursor_Correct
  imports Pt_Cursor_Move
begin

text \<open>
  Correctness of the cursor operations with respect to translations: what \<open>page_walk\<close> answers before and
  after.  \<open>query\<close> reports the mapping of the current address; \<open>find_next\<close> skips exactly the unmapped
  addresses; \<open>map\<close>, \<open>take_next\<close> and \<open>protect_next\<close> change the translation of one page-sized range and of no
  other address.
\<close>

section \<open>What an operation returns\<close>

text \<open>The fragment an operation hands back describes the former translation \<open>T\<close> of the slot it replaced:
  nothing was mapped, one item was, or a whole page table is detached.\<close>

definition frag_ok :: "('e, 'i) pt_config \<Rightarrow> pt_ghost \<Rightarrow> (Vaddr \<Rightarrow> (Paddr \<times> PageProperty) option option) \<Rightarrow>
    nat \<Rightarrow> Vaddr \<Rightarrow> 'i PageTableFrag option \<Rightarrow> bool" where
  "frag_ok C G T l a frag \<longleftrightarrow> (case frag of
     None \<Rightarrow> \<forall>v. v div gsz G l = a div gsz G l \<longrightarrow> T v = Some None
   | Some (Mapped a' i) \<Rightarrow> a' = a \<and> (\<exists>pa q. leaf_ok G pa l q \<and> item_from_raw C pa l q = Some i \<and>
       (\<forall>v. v div gsz G l = a div gsz G l \<longrightarrow> T v = Some (Some (pa + v mod gsz G l, q))))
   | Some (StrayPageTable p a' len m) \<Rightarrow> a' = a \<and> len = gsz G l \<and> 1 < l)"

section \<open>Querying\<close>

context page_table
begin

lemma to_ref_eq:
  "node_level st n = Some l \<Longrightarrow> entry_to_ref C st \<lparr>e_pte = e, e_idx = i, e_node = n\<rparr> = child_from_pte C e l"
  by (simp add: entry_to_ref_def)

lemma leaf_item: "leaf_ok G pa l q \<Longrightarrow> \<exists>i. item_from_raw C pa l q = Some i"
  using item_law [of pa l q] by (simp add: leaf_ok_def)

lemma query_loop_ok:
  assumes wf: "pt_wf C G st pos root" and c: "cursor_core G pos c" "va c < barrier_end c"
  shows "\<exists>l it c'. query_loop C st c =
      Some (((slot_base G l (va c), slot_base G l (va c) + gsz G l), it), c') \<and>
    cursor_core G pos c' \<and> va c' = va c \<and> same_range c c' \<and> 1 \<le> l \<and> l \<le> NR_LEVELS \<and>
    (case it of
       None \<Rightarrow> \<forall>v. v div gsz G l = va c div gsz G l \<longrightarrow> page_walk C st root v = Some None
     | Some i \<Rightarrow> \<exists>pa q. item_from_raw C pa l q = Some i \<and> gsz G l dvd pa \<and>
         (\<forall>v. v div gsz G l = va c div gsz G l \<longrightarrow> page_walk C st root v = Some (Some (pa + v mod gsz G l, q))))"
  using c
proof (induction "level c" arbitrary: c rule: less_induct)
  case less
  let ?l = "level c" and ?i = "va_idx G (level c) (va c)"
  obtain n where n: "path_slot c ?l = Some n" "pos n = Some (?l, va_pre G ?l (va c))"
    "cur_entry C st c = Some \<lparr>e_pte = pt_ent st n ?i, e_idx = ?i, e_node = n\<rparr>" "node_level st n = Some ?l"
    by (rule cur_entry_ok [OF wf less.prems])
  let ?e = "pt_ent st n ?i"
  have l: "1 \<le> ?l" "?l \<le> NR_LEVELS" using pt_wfD(3) [OF wf n(2)] by auto
  note range = cur_va_range_ok [OF less.prems]
  note ql = query_loop.simps [of C st c]
  show ?case
  proof (cases rule: child_from_ok [OF wf_entry(1) [OF wf n(2) va_idx_lt, of ?l "va c"]])
    case 1
    then have "query_loop C st c = Some (((slot_base G ?l (va c), slot_base G ?l (va c) + gsz G ?l), None), c)"
      using n range by (simp add: ql to_ref_eq)
    moreover have "page_walk C st root v = Some None" if "v div gsz G ?l = va c div gsz G ?l" for v
      using slot_walk [OF wf n(2) that] 1(2) by (simp add: leaf_trans_def)
    ultimately show ?thesis using less.prems l by fastforce
  next
    case (2 ch)
    have ch: "pos ch = Some (?l - 1, va_pre G (?l - 1) (va c))" using 2(4) va_pre_step [OF l] by simp
    obtain c1 where c1: "push_level c ch = Some c1" "cursor_core G pos c1" "level c1 = ?l - 1" "va c1 = va c"
      "same_range c c1" using push_level_ok [OF less.prems 2(3) map_le_refl ch] by blast
    have eq: "query_loop C st c = query_loop C st c1" using n 2(1) c1(1) by (simp add: ql to_ref_eq)
    have "level c1 < level c" "va c1 < barrier_end c1" using c1 2(3) less.prems by (auto simp: same_range_def)
    note ih = less.hyps [OF this(1) c1(2) this(2), folded eq, unfolded c1(4)]
    show ?thesis using ih same_range_trans [OF c1(5)] by blast
  next
    case (3 q)
    let ?pa = "pte_paddr (pte C) ?e"
    obtain it where it: "item_from_raw C ?pa ?l q = Some it" using leaf_item [OF 3(6)] by blast
    have "query_loop C st c = Some (((slot_base G ?l (va c), slot_base G ?l (va c) + gsz G ?l), Some it), c)"
      using n range 3(1) it by (simp add: ql to_ref_eq)
    moreover have "page_walk C st root v = Some (Some (?pa + v mod gsz G ?l, q))"
      if "v div gsz G ?l = va c div gsz G ?l" for v
      using slot_walk [OF wf n(2) that] 3 by (simp add: leaf_trans_def)
    moreover have "gsz G ?l dvd ?pa" using 3(6) by (simp add: leaf_ok_def)
    ultimately show ?thesis using less.prems l it by fastforce
  qed
qed

section \<open>Mapping\<close>

lemma graft_cursor:
  assumes wf: "pt_wf C G st pos root" and n: "pos n = Some (level c, va_pre G (level c) (va c))"
    and c: "cursor_core G pos c" "va c < barrier_end c" "1 < level c"
    and e: "leaf_entry C G (level c) (pt_ent st n (va_idx G (level c) (va c)))"
    and ch: "st ch = None" "2 ^ g_k G dvd ch" "ch < g_limit G" "ch + LINEAR_MAPPING_BASE_VADDR \<le> USIZE_MAX"
    and cn: "leaf_node C G (level c - 1) cnd"
  shows "\<exists>c' pos'. push_level c ch = Some c' \<and> cursor_core G pos' c' \<and> level c' = level c - 1 \<and> va c' = va c \<and>
    same_range c c' \<and> pt_wf C G (graft C st n (va_idx G (level c) (va c)) ch cnd) pos' root \<and>
    card (dom (graft C st n (va_idx G (level c) (va c)) ch cnd)) = Suc (card (dom st))"
proof -
  let ?l = "level c" and ?i = "va_idx G (level c) (va c)"
  let ?pos = "pos(ch \<mapsto> (?l - 1, va_pre G ?l (va c) * 2 ^ g_b G + ?i))"
  have l: "1 \<le> ?l" "?l \<le> NR_LEVELS" using pt_wfD(3) [OF wf n] by auto
  have wf': "pt_wf C G (graft C st n ?i ch cnd) ?pos root" by (rule graft_wf [OF wf n va_idx_lt c(3) e ch cn])
  have chp: "?pos ch = Some (?l - 1, va_pre G (?l - 1) (va c))" using va_pre_step [OF l] by simp
  have ext: "pos \<subseteq>\<^sub>m ?pos" using pt_wf_fresh [OF wf ch(1)] by (auto simp: map_le_def)
  obtain nd where nd: "st n = Some nd" using pt_wf_dom [OF wf n] by blast
  have "dom (graft C st n ?i ch cnd) = insert ch (dom st)"
    using nd by (auto simp: graft_def slot_set_def Let_def)
  then have "card (dom (graft C st n ?i ch cnd)) = Suc (card (dom st))"
    using ch(1) pt_wfD(1) [OF wf] by (simp add: card_insert_if dom_def)
  then show ?thesis using push_level_ok [OF c ext chp] wf' by blast
qed

lemma map_loop_down:
  assumes "pt_wf C G st pos root" "cursor_core G pos c" "va c < barrier_end c"
    "1 \<le> lvl" "lvl \<le> level c" "card (dom st) + (level c - lvl) \<le> g_nodes G"
  shows "\<exists>st' c' pos'. map_loop C env lvl st c = Some (st', c') \<and> pt_wf C G st' pos' root \<and> cursor_core G pos' c' \<and>
    level c' = lvl \<and> va c' = va c \<and> same_range c c' \<and> card (dom st') \<le> card (dom st) + (level c - lvl) \<and>
    (\<forall>v. page_walk C st' root v = page_walk C st root v)"
  using assms
proof (induction "level c - lvl" arbitrary: st pos c)
  case (0 c)
  then have "map_loop C env lvl st c = Some (st, c)" by (simp add: map_loop.simps [of C env lvl st c])
  then show ?case using 0 by auto
next
  case (Suc d)
  let ?l = "level c" and ?i = "va_idx G (level c) (va c)"
  note wf = Suc.prems(1) and c = Suc.prems(2,3)
  obtain n where n: "path_slot c ?l = Some n" "pos n = Some (?l, va_pre G ?l (va c))"
    "pte_index (pconsts C) (va c) ?l = Some ?i"
    "cur_entry C st c = Some \<lparr>e_pte = pt_ent st n ?i, e_idx = ?i, e_node = n\<rparr>" "node_level st n = Some ?l"
    by (rule cur_entry_ok [OF wf c])
  have l: "1 < ?l" "lvl < ?l" "1 \<le> ?l" "?l \<le> NR_LEVELS" using pt_wfD(3) [OF wf n(2)] Suc by auto
  have room: "card (dom st) < g_nodes G" using Suc.prems(6) l(2) by simp
  note ml = map_loop.simps [of C env lvl st c]
  have step: ?case if h: "push_level c ch = Some c1" "cursor_core G pos1 c1" "level c1 = ?l - 1" "va c1 = va c"
      "same_range c c1" "pt_wf C G st1 pos1 root" "card (dom st1) \<le> Suc (card (dom st))"
      "\<And>v. page_walk C st1 root v = page_walk C st root v"
      "map_loop C env lvl st c = map_loop C env lvl st1 c1" for ch c1 pos1 st1
  proof -
    have "\<exists>st' c' pos'. map_loop C env lvl st1 c1 = Some (st', c') \<and> pt_wf C G st' pos' root \<and>
        cursor_core G pos' c' \<and> level c' = lvl \<and> va c' = va c1 \<and> same_range c1 c' \<and>
        card (dom st') \<le> card (dom st1) + (level c1 - lvl) \<and> (\<forall>v. page_walk C st' root v = page_walk C st1 root v)"
      by (rule Suc.hyps(1) [OF _ h(6,2)]) (use h Suc.prems Suc.hyps(2) l in \<open>auto simp: same_range_def\<close>)
    then obtain st' c' pos' where r: "map_loop C env lvl st1 c1 = Some (st', c')" "pt_wf C G st' pos' root"
        "cursor_core G pos' c'" "level c' = lvl" "va c' = va c1" "same_range c1 c'"
        "card (dom st') \<le> card (dom st1) + (level c1 - lvl)" "\<And>v. page_walk C st' root v = page_walk C st1 root v"
      by blast
    have "card (dom st') \<le> card (dom st) + (?l - lvl)" using r(7) h(3,7) l(2) by linarith
    then show ?thesis using r h same_range_trans [OF h(5)] by fastforce
  qed
  show ?case
  proof (cases rule: child_from_ok [OF wf_entry(1) [OF wf n(2) va_idx_lt, of ?l "va c"]])
    case 1
    obtain p where p: "alloc_absent_child C env st n ?i = Some (p, graft C st n ?i p (node_new C (?l - 1) (2 ^ g_b G)))"
      "st p = None" "2 ^ g_k G dvd p" "p < g_limit G" "p + LINEAR_MAPPING_BASE_VADDR \<le> USIZE_MAX"
      using alloc_absent_child_ok [OF wf n(2) va_idx_lt l(1) 1(2) room] by blast
    obtain c1 pos1 where h: "push_level c p = Some c1" "cursor_core G pos1 c1" "level c1 = ?l - 1" "va c1 = va c"
      "same_range c c1" "pt_wf C G (graft C st n ?i p (node_new C (?l - 1) (2 ^ g_b G))) pos1 root"
      "card (dom (graft C st n ?i p (node_new C (?l - 1) (2 ^ g_b G)))) = Suc (card (dom st))"
      using graft_cursor [OF wf n(2) c l(1) 1(3) p(2-5) leaf_node_new] by blast
    show ?thesis
      by (rule step [OF h(1-6)])
        (use h(1,7) graft_new_walk [OF wf n(2) va_idx_lt l(1) 1(2) p(2-5)] n 1(1) p(1) l
          in \<open>auto simp: ml to_ref_eq\<close>)
  next
    case (2 ch)
    have ch: "pos ch = Some (?l - 1, va_pre G (?l - 1) (va c))" using 2(4) va_pre_step [OF l(3,4)] by simp
    obtain c1 where h: "push_level c ch = Some c1" "cursor_core G pos c1" "level c1 = ?l - 1" "va c1 = va c"
      "same_range c c1" using push_level_ok [OF c l(1) map_le_refl ch] by blast
    show ?thesis by (rule step [OF h wf]) (use h(1) n 2(1) l in \<open>auto simp: ml to_ref_eq\<close>)
  next
    case (3 q)
    let ?s = "\<lambda>q. split_node C G (pte_paddr (pte C) (pt_ent st n ?i)) ?l q (2 ^ g_b G)"
    obtain p q' where p: "split_if_mapped_huge C env st \<lparr>e_pte = pt_ent st n ?i, e_idx = ?i, e_node = n\<rparr> =
        Some (Some p, graft C st n ?i p (?s q'))"
      "st p = None" "2 ^ g_k G dvd p" "p < g_limit G" "p + LINEAR_MAPPING_BASE_VADDR \<le> USIZE_MAX"
      "leaf_node C G (?l - 1) (?s q')" "\<And>v. page_walk C (graft C st n ?i p (?s q')) root v = page_walk C st root v"
      using split_ok [OF wf n(2) va_idx_lt l(1) 3(2,3) room] by blast
    obtain c1 pos1 where h: "push_level c p = Some c1" "cursor_core G pos1 c1" "level c1 = ?l - 1" "va c1 = va c"
      "same_range c c1" "pt_wf C G (graft C st n ?i p (?s q')) pos1 root"
      "card (dom (graft C st n ?i p (?s q'))) = Suc (card (dom st))"
      using graft_cursor [OF wf n(2) c l(1) 3(7) p(2-6)] by blast
    show ?thesis
      by (rule step [OF h(1-6)]) (use h(1,7) n 3(1) p(1,7) l in \<open>auto simp: ml to_ref_eq\<close>)
  qed
qed

lemma map_loop_ok:
  assumes "pt_wf C G st pos root" "cursor_core G pos c" "va c < barrier_end c"
    "1 \<le> lvl" "lvl \<le> guard_level c" "card (dom st) + (level c - lvl) \<le> g_nodes G"
  shows "\<exists>st' c' pos'. map_loop C env lvl st c = Some (st', c') \<and> pt_wf C G st' pos' root \<and> cursor_core G pos' c' \<and>
    level c' = lvl \<and> va c' = va c \<and> same_range c c' \<and> card (dom st') \<le> card (dom st) + (level c - lvl) \<and>
    (\<forall>v. page_walk C st' root v = page_walk C st root v)"
  using assms
proof (induction "lvl - level c" arbitrary: c)
  case (0 c)
  then show ?case using map_loop_down [of st pos root c lvl] by simp
next
  case (Suc d c)
  then have lt: "level c < lvl" by simp
  obtain c1 where c1: "pop_level c = Some c1" "cursor_core G pos c1" "level c1 = level c + 1" "va c1 = va c"
    "same_range c c1" using core_pop [OF Suc.prems(2,3)] lt Suc.prems(5) by auto
  have "\<exists>st' c' pos'. map_loop C env lvl st c1 = Some (st', c') \<and> pt_wf C G st' pos' root \<and> cursor_core G pos' c' \<and>
    level c' = lvl \<and> va c' = va c1 \<and> same_range c1 c' \<and> card (dom st') \<le> card (dom st) + (level c1 - lvl) \<and> (\<forall>v. page_walk C st' root v = page_walk C st root v)"
    by (rule Suc.hyps(1)) (use Suc c1 lt in \<open>auto simp: same_range_def\<close>)
  moreover have "map_loop C env lvl st c = map_loop C env lvl st c1"
    using lt c1(1) by (simp add: map_loop.simps [of C env lvl st c])
  moreover have "level c1 - lvl = level c - lvl" using c1(3) lt by simp
  ultimately show ?case using c1 same_range_trans [OF c1(5)] by fastforce
qed

end
section \<open>Replacing the current entry\<close>

context page_table
begin

lemma core_drop:
  assumes c: "cursor_core G pos c"
  shows "cursor_core G (drop_slot G pos (level c - 1) q) c"
proof -
  have "\<not> in_slot G (level c - 1) q (l, p)" if "level c \<le> l" for l p
    using that c by (auto simp: in_slot_def cursor_core_def)
  then show ?thesis using c unfolding cursor_core_def path_ok_def by simp
qed

lemma replace_cur_ok:
  assumes wf: "pt_wf C G st pos root" and c: "cursor_core G pos c" "va c < barrier_end c"
    and new: "new_leaf ch (level c) G C"
    and top: "\<And>n p. pos n = Some (level c, va_pre G (level c) (va c)) \<Longrightarrow>
      points_to C (pt_ent st n (va_idx G (level c) (va c))) (level c) p \<Longrightarrow>
      TOP_LEVEL_CAN_UNMAP C \<or> level c \<noteq> NR_LEVELS"
  shows "\<exists>frag st' pos'. replace_cur_entry C env st c ch = Some (frag, st') \<and> pt_wf C G st' pos' root \<and>
    cursor_core G pos' c \<and> dom st' = dom st \<and> frag_ok C G (page_walk C st root) (level c) (va c) frag \<and>
    (\<forall>v. v div gW G = va c div gW G \<longrightarrow> page_walk C st' root v =
       (if v div gsz G (level c) = va c div gsz G (level c) then Some (child_trans G (level c) ch v)
        else page_walk C st root v))"
proof -
  let ?l = "level c" and ?i = "va_idx G (level c) (va c)"
  let ?p = "va_pre G ?l (va c)"
  obtain n where n: "path_slot c ?l = Some n" "pos n = Some (?l, ?p)"
    "pte_index (pconsts C) (va c) ?l = Some ?i" "node_level st n = Some ?l"
    by (rule cur_entry_ok [OF wf c])
  have l: "1 \<le> ?l" "?l \<le> NR_LEVELS" using pt_wfD(3) [OF wf n(2)] by auto
  let ?pos = "drop_slot G pos (?l - 1) (?p * 2 ^ g_b G + ?i)"
  obtain old e where o: "child_from_pte C (pt_ent st n ?i) ?l = Some old" "leaf_entry C G ?l e"
    "child_from_pte C e ?l = Some ch" "replace_child C st n ?i ch = Some (old, slot_set C st n ?i e)"
    using replace_child_ok [OF wf n(2) va_idx_lt new] by blast
  let ?st = "slot_set C st n ?i e"
  have wf': "pt_wf C G ?st ?pos root" by (rule slot_set_wf [OF wf n(2) va_idx_lt o(2)])
  have core: "cursor_core G ?pos c" by (rule core_drop [OF c(1)])
  obtain nd where nd: "st n = Some nd" using pt_wf_dom [OF wf n(2)] by blast
  have d: "dom ?st = dom st" by (rule slot_set_dom [of st n nd]) (rule nd)
  have walk: "page_walk C ?st root v = (if v div gsz G ?l = va c div gsz G ?l then Some (child_trans G ?l ch v)
      else page_walk C st root v)" if "v div gW G = va c div gW G" for v
    using slot_set_walk [OF wf n(2) va_idx_lt [of G ?l "va c"] o(2), of v] leaf_trans_child [OF o(2,3)]
      slot_key [OF l that] in_slot_iff [of G ?l "va c" v] by simp
  note rc = replace_cur_entry_def [of C env st c ch]
  show ?thesis
  proof (cases rule: child_from_ok [OF wf_entry(1) [OF wf n(2) va_idx_lt, of ?l "va c"]])
    case 1
    then have "old = Absent" using o(1) by simp
    then have "replace_cur_entry C env st c ch = Some (None, ?st)" using n o(4) by (simp add: rc)
    moreover have "page_walk C st root v = Some None" if "v div gsz G ?l = va c div gsz G ?l" for v
      using slot_walk [OF wf n(2) that] 1(2) by (simp add: leaf_trans_def)
    then have "frag_ok C G (page_walk C st root) ?l (va c) None" by (simp add: frag_ok_def)
    ultimately show ?thesis using wf' core d walk by blast
  next
    case (2 p)
    then have old: "old = PageTable p" using o(1) by simp
    let ?m = "mark_stray env ?st p"
    let ?f = "StrayPageTable p (va c) (gsz G ?l) (fst ?m)"
    have "replace_cur_entry C env st c ch = Some (Some ?f, snd ?m)"
      using n o(4) old size_eq [of ?l] l top [OF n(2) 2(2)] by (auto simp: rc rassert_def)
    moreover note stray_only_wf(1,2) [OF wf' mark_stray_law [of ?st p]] stray_only_walk [OF wf' mark_stray_law [of ?st p]]
    moreover have "frag_ok C G (page_walk C st root) ?l (va c) (Some ?f)" using 2(3) by (simp add: frag_ok_def)
    ultimately show ?thesis using core d walk by metis
  next
    case (3 q)
    let ?pa = "pte_paddr (pte C) (pt_ent st n ?i)"
    have old: "old = Frame ?pa ?l q" using 3(1) o(1) by simp
    obtain it where it: "item_from_raw C ?pa ?l q = Some it" using leaf_item [OF 3(6)] by blast
    then have "replace_cur_entry C env st c ch = Some (Some (Mapped (va c) it), ?st)"
      using n o(4) old by (simp add: rc)
    moreover have "page_walk C st root v = Some (Some (?pa + v mod gsz G ?l, q))"
      if "v div gsz G ?l = va c div gsz G ?l" for v
      using slot_walk [OF wf n(2) that] 3 by (simp add: leaf_trans_def)
    then have "frag_ok C G (page_walk C st root) ?l (va c) (Some (Mapped (va c) it))"
      using it 3(6) by (auto simp: frag_ok_def)
    ultimately show ?thesis using wf' core d walk by blast
  qed
qed

lemma replace_present:
  assumes wf: "pt_wf C G st pos root" and c: "cursor_core G pos c" "va c < barrier_end c"
    and r: "replace_cur_entry C env st c ch = Some (None, st')" and n: "pos n = Some (level c, va_pre G (level c) (va c))"
  shows "\<not> is_present (pte C) (pt_ent st n (va_idx G (level c) (va c)))"
proof
  let ?l = "level c" and ?i = "va_idx G (level c) (va c)"
  assume p: "is_present (pte C) (pt_ent st n ?i)"
  obtain m where m: "path_slot c ?l = Some m" "pos m = Some (?l, va_pre G ?l (va c))"
    "pte_index (pconsts C) (va c) ?l = Some ?i" "node_level st m = Some ?l"
    by (rule cur_entry_ok [OF wf c])
  have "m = n" by (rule pt_wfD(4) [OF wf m(2) n])
  then obtain old st1 where rc: "replace_child C st n ?i ch = Some (old, st1)"
    using r m by (auto simp: replace_cur_entry_def bind_eq_Some_conv)
  moreover have "old = Absent"
    using r m rc \<open>m = n\<close> by (cases old) (auto simp: replace_cur_entry_def bind_eq_Some_conv)
  ultimately have "child_from_pte C (pt_ent st n ?i) ?l = Some Absent"
    using m(4) \<open>m = n\<close> wf_entry(2) [OF wf n va_idx_lt [of G ?l "va c"]] by (auto simp: replace_child_def bind_eq_Some_conv)
  then show False using p by (auto simp: child_from_pte_def bind_eq_Some_conv split: if_splits)
qed

lemma cursor_map_ok:
  assumes wf: "pt_wf C G st pos root" and c: "cursor_wf G pos c"
    and item: "item_into_raw C item = Some (pa, lvl, q)" "leaf_ok G pa lvl q" "1 \<le> lvl"
      "lvl \<le> HIGHEST_TRANSLATION_LEVEL (pconsts C)" "lvl \<le> guard_level c"
      "TOP_LEVEL_CAN_UNMAP C \<or> lvl \<noteq> NR_LEVELS"
    and fit: "gsz G lvl dvd va c" "va c + gsz G lvl \<le> barrier_end c"
    and room: "card (dom st) + (level c - lvl) \<le> g_nodes G"
  shows "\<exists>r st' c' pos'. cursor_map C env st c item = Some (r, st', c') \<and> pt_wf C G st' pos' root \<and>
    cursor_wf G pos' c' \<and> va c' = va c + gsz G lvl \<and> same_range c c' \<and>
    card (dom st') \<le> card (dom st) + (level c - lvl) \<and>
    frag_ok C G (page_walk C st root) lvl (va c) (case r of Inl f \<Rightarrow> Some f | Inr u \<Rightarrow> None) \<and>
    (\<forall>v. v div gW G = va c div gW G \<longrightarrow> page_walk C st' root v =
       (if va c \<le> v \<and> v < va c + gsz G lvl then Some (Some (pa + (v - va c), q)) else page_walk C st root v))"
proof -
  have cc: "cursor_core G pos c" using c by (simp add: cursor_wf_def)
  have lt: "va c < barrier_end c" using fit(2) gsz_pos [of G lvl] by linarith
  have lv: "lvl \<le> NR_LEVELS" using item(5) cc by (simp add: cursor_core_def)
  obtain st1 c1 pos1 where m: "map_loop C env lvl st c = Some (st1, c1)" "pt_wf C G st1 pos1 root"
    "cursor_core G pos1 c1" "level c1 = lvl" "va c1 = va c" "same_range c c1"
    "\<And>v. page_walk C st1 root v = page_walk C st root v" "card (dom st1) \<le> card (dom st) + (level c - lvl)"
    using map_loop_ok [OF wf cc lt item(3,5) room] by blast
  have lt1: "va c1 < barrier_end c1" using m lt by (simp add: same_range_def)
  have nl: "new_leaf (Frame pa lvl q) (level c1) G C" using item m(4) by (simp add: new_leaf_def)
  have t1: "page_walk C st1 root = page_walk C st root" using m(7) by auto
  obtain frag st2 pos2 where r: "replace_cur_entry C env st1 c1 (Frame pa lvl q) = Some (frag, st2)"
    "pt_wf C G st2 pos2 root" "cursor_core G pos2 c1" "frag_ok C G (page_walk C st1 root) lvl (va c) frag"
    "\<And>v. v div gW G = va c div gW G \<Longrightarrow> page_walk C st2 root v =
       (if v div gsz G lvl = va c div gsz G lvl then Some (child_trans G lvl (Frame pa lvl q) v)
        else page_walk C st root v)" "dom st2 = dom st1"
    using replace_cur_ok [OF m(2,3) lt1 nl] item(6) t1 by (auto simp: m(4,5))
  obtain c2 where c2: "move_forward C c1 = Some c2" "cursor_core G pos2 c2"
    "va c2 = slot_base G lvl (va c) + gsz G lvl" "same_range c1 c2"
    using move_forward_ok [OF r(3) lt1] m(4,5) by auto
  have sb: "slot_base G lvl (va c) = va c" by (rule slot_base_aligned [OF fit(1)])
  let ?r = "case frag of None \<Rightarrow> Inr () | Some f \<Rightarrow> Inl f"
  have "cursor_map C env st c item = Some (?r, st2, c2)"
    using item lt fit size_eq [OF item(3)] lv m(1) r(1) c2(1)
    by (simp add: cursor_map_def rassert_def usub_def dvd_eq_mod_eq_0)
  moreover have "cursor_wf G pos2 c2" using c2 sb fit(2) m(6) by (simp add: cursor_wf_def same_range_def)
  moreover have "(case ?r of Inl f \<Rightarrow> Some f | Inr u \<Rightarrow> None) = frag" by (cases frag) auto
  moreover have "page_walk C st2 root v = (if va c \<le> v \<and> v < va c + gsz G lvl then Some (Some (pa + (v - va c), q))
      else page_walk C st root v)" if "v div gW G = va c div gW G" for v
  proof -
    have s: "va c \<le> v \<and> v < va c + gsz G lvl \<longleftrightarrow> v div gsz G lvl = va c div gsz G lvl"
      using in_slot_iff [of G lvl "va c" v] sb by simp
    have "v mod gsz G lvl = v - va c" if "v div gsz G lvl = va c div gsz G lvl"
      using that slot_base_mod [of v G lvl] sb by (simp add: slot_base_def)
    then show ?thesis using r(5) [OF that] s by (simp add: child_trans_def)
  qed
  moreover have "same_range c c2" by (rule same_range_trans [OF m(6) c2(4)])
  ultimately show ?thesis using r(2,4,6) m(8) t1 c2(3) sb by (intro exI [of _ ?r] exI [of _ st2] exI [of _ c2] exI [of _ pos2]) simp
qed

end
section \<open>Finding the next mapping\<close>

text \<open>The number of splits the search may still need: at most one per level below the current one while
  the address is inside a huge page, and at most one per level below the smallest node that contains the
  end of the range.\<close>

definition slack :: "pt_ghost \<Rightarrow> Cursor \<Rightarrow> nat" where
  "slack G c = (if gsz G (level c) dvd va c then 0 else level c - 1)"

definition covers :: "pt_ghost \<Rightarrow> Cursor \<Rightarrow> Vaddr \<Rightarrow> nat \<Rightarrow> bool" where
  "covers G c e L \<longleftrightarrow> level c \<le> L \<and> e \<le> slot_base G (L + 1) (va c) + gsz G (L + 1)"

definition fits :: "pt_ghost \<Rightarrow> Cursor \<Rightarrow> Vaddr \<Rightarrow> bool" where
  "fits G c e \<longleftrightarrow> gsz G (level c) dvd va c \<and> va c + gsz G (level c) \<le> e"

lemma slack_push: "slack G c \<ge> slack G c'" if "level c' = level c - 1" "va c' = va c" "1 < level c"
  using gsz_dvd [of "level c - 1" "level c" G] dvd_trans that by (auto simp: slack_def)

lemma covers_push: "covers G c e L \<Longrightarrow> level c' = level c - 1 \<Longrightarrow> va c' = va c \<Longrightarrow> covers G c' e L"
  by (auto simp: covers_def)

lemma slack_aligned: "gsz G (level c) dvd va c \<Longrightarrow> slack G c = 0"
  by (simp add: slack_def)

lemma covers_move:
  assumes cov: "covers G c e L" and l: "1 \<le> level c" "level c \<le> level c'" and v: "va c < va c'" "va c' < e"
    and a: "gsz G (level c') dvd va c'"
  shows "covers G c' e L"
proof -
  let ?s = "gsz G (L + 1)"
  have d: "va c' div ?s = va c div ?s"
    using in_slot_iff [of G "L + 1" "va c" "va c'"] slot_base_le [of G "L + 1" "va c"] cov v by (simp add: covers_def)
  have "level c' \<le> L"
  proof (rule ccontr)
    assume "\<not> level c' \<le> L"
    then have "?s dvd va c'" using gsz_dvd [of "L + 1" "level c'" G] a dvd_trans by fastforce
    then have "va c' = slot_base G (L + 1) (va c)" unfolding slot_base_def d [symmetric] by simp
    then show False using slot_base_le [of G "L + 1" "va c"] v(1) by simp
  qed
  then show ?thesis using cov d by (simp add: covers_def slot_base_def)
qed

lemma aligned_gap: "(d :: nat) dvd a \<Longrightarrow> d dvd b \<Longrightarrow> a < b \<Longrightarrow> a + d \<le> b"
proof -
  assume "d dvd a" "d dvd b" "a < b"
  then have "d dvd b - a" "0 < b - a" by (auto intro: dvd_diff_nat)
  then have "d \<le> b - a" by (intro dvd_imp_le)
  then show "a + d \<le> b" using \<open>a < b\<close> by linarith
qed

lemma split_progress:
  assumes nf: "\<not> fits G c e" and k: "gsz G 1 dvd va c" "gsz G 1 dvd e" and v: "va c < e" and l: "1 \<le> level c"
    and cov: "covers G c e L"
  shows "1 < level c \<and> 1 \<le> slack G c + (L - 1) \<and> (\<forall>c'. level c' = level c - 1 \<longrightarrow> va c' = va c \<longrightarrow>
    (\<exists>L'. covers G c' e L' \<and> slack G c' + (L' - 1) < slack G c + (L - 1)))"
proof -
  have l1: "1 < level c"
  proof (rule ccontr)
    assume "\<not> 1 < level c"
    then have "level c = 1" using l by simp
    then show False using nf k aligned_gap [OF k v] by (simp add: fits_def)
  qed
  show ?thesis
  proof (cases "gsz G (level c) dvd va c")
    case False
    have "slack G c' < slack G c" if "level c' = level c - 1" "va c' = va c" for c'
      using False that l1 by (auto simp: slack_def)
    then show ?thesis using False l1 covers_push [OF cov] by (fastforce simp: slack_def)
  next
    case True
    then have e: "e < va c + gsz G (level c)" using nf by (simp add: fits_def)
    have L: "level c \<le> L" using cov by (simp add: covers_def)
    have "covers G c' e (level c - 1) \<and> slack G c' = 0" if "level c' = level c - 1" "va c' = va c" for c'
    proof -
      have "gsz G (level c - 1) dvd va c" using gsz_dvd [of "level c - 1" "level c" G] True l1 dvd_trans by fastforce
      then show ?thesis using that e slot_base_aligned [OF True] l1 by (simp add: covers_def slack_def)
    qed
    then show ?thesis using True l1 L by (fastforce simp: slack_def)
  qed
qed
text \<open>A configuration that maps base pages only.\<close>

definition no_huge :: "pt_ghost \<Rightarrow> bool" where
  "no_huge G \<longleftrightarrow> (\<forall>pa l q. g_item G pa l q \<longrightarrow> l = 1)"

definition hit :: "('e, 'i) pt_config \<Rightarrow> pt_ghost \<Rightarrow> pt_pos \<Rightarrow> 'e pt_store \<Rightarrow> bool \<Rightarrow> bool \<Rightarrow> Vaddr \<Rightarrow> Cursor \<Rightarrow> bool" where
  "hit C G pos st u s e c \<longleftrightarrow> (\<exists>n. pos n = Some (level c, va_pre G (level c) (va c)) \<and>
     (let f = pt_ent st n (va_idx G (level c) (va c)) in is_present (pte C) f \<and> (s \<longrightarrow> is_last (pte C) f (level c) \<longrightarrow> fits G c e) \<and>
       (\<not> is_last (pte C) f (level c) \<longrightarrow> u \<and> fits G c e \<and> (TOP_LEVEL_CAN_UNMAP C \<or> level c \<noteq> NR_LEVELS))))"

context page_table
begin

lemma find_next_loop_ok:
  assumes "pt_wf C G st pos root" "cursor_core G pos c" "e \<le> barrier_end c" "2 ^ g_k G dvd e"
    "va c < e \<Longrightarrow> covers G c e L" "s \<Longrightarrow> va c < e \<Longrightarrow> card (dom st) + slack G c + (L - 1) \<le> g_nodes G"
  shows "\<exists>r st' c' pos'. find_next_loop C env u s e st c = Some (r, st', c') \<and> pt_wf C G st' pos' root \<and>
    cursor_core G pos' c' \<and> same_range c c' \<and> va c \<le> va c' \<and>
    (\<forall>v. page_walk C st' root v = page_walk C st root v) \<and>
    (\<forall>v. va c \<le> v \<and> v < va c' \<longrightarrow> page_walk C st root v = Some None) \<and>
    (case r of None \<Rightarrow> e \<le> va c' | Some a \<Rightarrow> a = va c' \<and> a < e \<and> hit C G pos' st' u s e c') \<and>
    (no_huge G \<longrightarrow> dom st' = dom st)"
  using assms
proof (induction "(e - va c) * 5 + level c" arbitrary: st pos c L rule: less_induct)
  case less
  note wf = less.prems(1) and cc = less.prems(2)
  note fl = find_next_loop.simps [of C env u s e st c]
  let ?l = "level c" and ?i = "va_idx G (level c) (va c)"
  show ?case
  proof (cases "va c < e")
    case False
    then have "find_next_loop C env u s e st c = Some (None, st, c)" by (simp add: fl)
    then show ?thesis using False wf cc by auto
  next
    case ve: True
    then have lt: "va c < barrier_end c" using less.prems(3) by simp
    obtain n where n: "path_slot c ?l = Some n" "pos n = Some (?l, va_pre G ?l (va c))"
      "cur_entry C st c = Some \<lparr>e_pte = pt_ent st n ?i, e_idx = ?i, e_node = n\<rparr>" "node_level st n = Some ?l"
      by (rule cur_entry_ok [OF wf cc lt])
    have l: "1 \<le> ?l" "?l \<le> NR_LEVELS" using pt_wfD(3) [OF wf n(2)] by auto
    have cov: "covers G c e L" using less.prems(5) ve by simp
    note range = cur_va_range_ok [OF cc lt]
    have fit: "(va c = slot_base G ?l (va c) \<and> slot_base G ?l (va c) + gsz G ?l \<le> e) = fits G c e"
      using slot_base_eq_iff [of "va c" G ?l] slot_base_aligned [of G ?l "va c"] by (auto simp: fits_def)
    have step: ?thesis
      if h: "pt_wf C G st1 pos1 root" "cursor_core G pos1 c1" "same_range c c1" "va c \<le> va c1"
        "(e - va c1) * 5 + level c1 < (e - va c) * 5 + ?l"
        "\<And>v. page_walk C st1 root v = page_walk C st root v"
        "\<And>v. va c \<le> v \<Longrightarrow> v < va c1 \<Longrightarrow> page_walk C st root v = Some None"
        "va c1 < e \<Longrightarrow> covers G c1 e L1"
        "s \<Longrightarrow> va c1 < e \<Longrightarrow> card (dom st1) + slack G c1 + (L1 - 1) \<le> g_nodes G"
        "find_next_loop C env u s e st c = find_next_loop C env u s e st1 c1"
        "no_huge G \<Longrightarrow> dom st1 = dom st" for st1 pos1 c1 L1
    proof -
      have "\<exists>r st' c' pos'. find_next_loop C env u s e st1 c1 = Some (r, st', c') \<and> pt_wf C G st' pos' root \<and>
        cursor_core G pos' c' \<and> same_range c1 c' \<and> va c1 \<le> va c' \<and>
        (\<forall>v. page_walk C st' root v = page_walk C st1 root v) \<and>
        (\<forall>v. va c1 \<le> v \<and> v < va c' \<longrightarrow> page_walk C st1 root v = Some None) \<and>
        (case r of None \<Rightarrow> e \<le> va c' | Some a \<Rightarrow> a = va c' \<and> a < e \<and> hit C G pos' st' u s e c') \<and>
        (no_huge G \<longrightarrow> dom st' = dom st1)"
        by (rule less.hyps [OF h(5,1,2)]) (use h(3,8,9) less.prems(3,4) in \<open>auto simp: same_range_def\<close>)
      then obtain r st' c' pos' where r: "find_next_loop C env u s e st c = Some (r, st', c')" "pt_wf C G st' pos' root"
        "cursor_core G pos' c'" "same_range c1 c'" "va c1 \<le> va c'"
        "\<And>v. page_walk C st' root v = page_walk C st root v"
        "\<And>v. va c1 \<le> v \<Longrightarrow> v < va c' \<Longrightarrow> page_walk C st root v = Some None"
        "case r of None \<Rightarrow> e \<le> va c' | Some a \<Rightarrow> a = va c' \<and> a < e \<and> hit C G pos' st' u s e c'"
        "no_huge G \<Longrightarrow> dom st' = dom st"
        using h(6,10,11) by auto
      have "page_walk C st root v = Some None" if "va c \<le> v" "v < va c'" for v
        using h(7) [of v] r(7) [of v] that by (cases "v < va c1") auto
      moreover have "va c \<le> va c'" using h(4) r(5) by simp
      ultimately show ?thesis using r same_range_trans [OF h(3) r(4)] by blast
    qed
    have forward: ?thesis
      if skip: "\<And>v. v div gsz G ?l = va c div gsz G ?l \<Longrightarrow> page_walk C st root v = Some None"
        and eq: "\<And>c1. move_forward C c = Some c1 \<Longrightarrow>
          find_next_loop C env u s e st c = find_next_loop C env u s e st c1"
    proof -
      obtain c1 where c1: "move_forward C c = Some c1" "cursor_core G pos c1"
        "va c1 = slot_base G ?l (va c) + gsz G ?l" "?l \<le> level c1" "gsz G (level c1) dvd va c1" "same_range c c1"
        using move_forward_ok [OF cc lt] by blast
      have gt: "va c < va c1" using c1(3) slot_base_gt [of "va c" G ?l] by simp
      have m: "(e - va c1) * 5 + level c1 < (e - va c) * 5 + ?l"
        using gt ve c1(2) l by (auto simp: cursor_core_def NR_LEVELS_def)
      show ?thesis
      proof (rule step [OF wf c1(2,6) less_imp_le [OF gt] m _ _ _ _ eq [OF c1(1)]])
        show "page_walk C st root v = Some None" if "va c \<le> v" "v < va c1" for v
          using skip [of v] in_slot_iff [of G ?l "va c" v] that slot_base_le [of G ?l "va c"] c1(3) by simp
        show "va c1 < e \<Longrightarrow> covers G c1 e L" by (rule covers_move [OF cov l(1) c1(4) gt _ c1(5)])
        show "s \<Longrightarrow> va c1 < e \<Longrightarrow> card (dom st) + slack G c1 + (L - 1) \<le> g_nodes G"
          using less.prems(6) ve slack_aligned [OF c1(5)] by simp
      qed simp_all
    qed
    show ?thesis
    proof (cases rule: child_from_ok [OF wf_entry(1) [OF wf n(2) va_idx_lt, of ?l "va c"]])
      case 1
      show ?thesis
      proof (rule forward)
        show "v div gsz G ?l = va c div gsz G ?l \<Longrightarrow> page_walk C st root v = Some None" for v
          using slot_walk [OF wf n(2)] 1(2) by (simp add: leaf_trans_def)
      qed (use n ve 1(1) range in \<open>simp add: fl to_ref_eq\<close>)
    next
      case (2 ch)
      have ch: "pos ch = Some (?l - 1, va_pre G (?l - 1) (va c))" using 2(4) va_pre_step [OF l] by simp
      obtain nd where nd: "st ch = Some nd" using pt_wf_dom [OF wf ch] by blast
      let ?take = "u \<and> fits G c e \<and> (TOP_LEVEL_CAN_UNMAP C \<or> ?l \<noteq> NR_LEVELS)"
      have e: "is_present (pte C) (pt_ent st n ?i)" "\<not> is_last (pte C) (pt_ent st n ?i) ?l"
        using 2(2) by (auto simp: points_to_def)
      show ?thesis
      proof (cases ?take)
        case True
        then have "find_next_loop C env u s e st c = Some (Some (va c), st, c)"
          unfolding fl using n ve 2(1) range fit by (simp add: to_ref_eq nr_levels)
        moreover have "hit C G pos st u s e c" using True n(2) e by (auto simp: hit_def Let_def)
        ultimately show ?thesis using wf cc ve by auto
      next
        case nt: False
        show ?thesis
        proof (cases "nr_children nd = 0")
          case True
          show ?thesis
          proof (rule forward)
            show "page_walk C st root v = Some None" if "v div gsz G ?l = va c div gsz G ?l" for v
              using empty_table_walk [OF wf ch nd True, of v] that l by simp
          qed (unfold fl, use n ve 2(1) range fit nt nd True in \<open>auto simp: to_ref_eq nr_levels\<close>)
        next
          case False
          obtain c1 where c1: "push_level c ch = Some c1" "cursor_core G pos c1" "level c1 = ?l - 1" "va c1 = va c"
            "same_range c c1" using push_level_ok [OF cc lt 2(3) map_le_refl ch] by blast
          have eq: "find_next_loop C env u s e st c = find_next_loop C env u s e st c1"
            unfolding fl using n ve 2(1) range fit nt nd False c1(1) by (auto simp: to_ref_eq nr_levels)
          have sl: "slack G c1 \<le> slack G c" by (rule slack_push [OF c1(3,4) 2(3)])
          show ?thesis
          proof (rule step [OF wf c1(2,5), of L])
            show "s \<Longrightarrow> va c1 < e \<Longrightarrow> card (dom st) + slack G c1 + (L - 1) \<le> g_nodes G"
              using less.prems(6) ve sl by simp
          qed (use c1(3,4) 2(3) covers_push [OF cov c1(3,4)] eq in auto)
        qed
      qed
    next
      case (3 q)
      show ?thesis
      proof (cases "fits G c e \<or> \<not> s")
        case True
        then have "find_next_loop C env u s e st c = Some (Some (va c), st, c)"
          unfolding fl using n ve 3(1) range fit by (auto simp: to_ref_eq)
        moreover have "hit C G pos st u s e c" using True n(2) 3(2,3) by (auto simp: hit_def Let_def)
        ultimately show ?thesis using wf cc ve by auto
      next
        case nf: False
        have k: "gsz G 1 dvd va c" "gsz G 1 dvd e"
          using cc less.prems(4) by (simp_all add: gsz_exp cursor_core_def)
        have pr: "1 < ?l" "1 \<le> slack G c + (L - 1)"
          "\<And>c'. level c' = ?l - 1 \<Longrightarrow> va c' = va c \<Longrightarrow>
            \<exists>L'. covers G c' e L' \<and> slack G c' + (L' - 1) < slack G c + (L - 1)"
          using split_progress [of G c e L] nf k ve l(1) cov by auto
        have room: "card (dom st) < g_nodes G" using less.prems(6) nf ve pr(2) by simp
        let ?s = "\<lambda>q. split_node C G (pte_paddr (pte C) (pt_ent st n ?i)) ?l q (2 ^ g_b G)"
        obtain p q' where p: "split_if_mapped_huge C env st \<lparr>e_pte = pt_ent st n ?i, e_idx = ?i, e_node = n\<rparr> =
            Some (Some p, graft C st n ?i p (?s q'))"
          "st p = None" "2 ^ g_k G dvd p" "p < g_limit G" "p + LINEAR_MAPPING_BASE_VADDR \<le> USIZE_MAX"
          "leaf_node C G (?l - 1) (?s q')" "\<And>v. page_walk C (graft C st n ?i p (?s q')) root v = page_walk C st root v"
          using split_ok [OF wf n(2) va_idx_lt pr(1) 3(2,3) room] by blast
        obtain c1 pos1 where h: "push_level c p = Some c1" "cursor_core G pos1 c1" "level c1 = ?l - 1" "va c1 = va c"
          "same_range c c1" "pt_wf C G (graft C st n ?i p (?s q')) pos1 root"
          "card (dom (graft C st n ?i p (?s q'))) = Suc (card (dom st))"
          using graft_cursor [OF wf n(2) cc lt pr(1) 3(7) p(2-6)] by blast
        obtain L' where L': "covers G c1 e L'" "slack G c1 + (L' - 1) < slack G c + (L - 1)"
          using pr(3) [OF h(3,4)] by blast
        have eq: "find_next_loop C env u s e st c = find_next_loop C env u s e (graft C st n ?i p (?s q')) c1"
          unfolding fl using n ve range fit nf 3(1) p(1) h(1) by (auto simp: to_ref_eq)
        show ?thesis
        proof (rule step [OF h(6,2,5), of L'])
          show "s \<Longrightarrow> va c1 < e \<Longrightarrow>
            card (dom (graft C st n ?i p (?s q'))) + slack G c1 + (L' - 1) \<le> g_nodes G"
            using less.prems(6) ve h(7) L'(2) by simp
          show "no_huge G \<Longrightarrow> dom (graft C st n ?i p (?s q')) = dom st"
            using 3(6) pr(1) unfolding no_huge_def leaf_ok_def by (metis less_irrefl)
        qed (use h(3,4) pr(1) L'(1) eq p(7) in auto)
      qed
    qed
  qed
qed

end
context page_table
begin

lemma hit_walk:
  assumes wf: "pt_wf C G st pos root" and h: "hit C G pos st False s e c"
  shows "\<exists>x. page_walk C st root (va c) = Some (Some x)"
proof -
  obtain n where n: "pos n = Some (level c, va_pre G (level c) (va c))"
    "is_present (pte C) (pt_ent st n (va_idx G (level c) (va c)))"
    "is_last (pte C) (pt_ent st n (va_idx G (level c) (va c))) (level c)"
    using h by (auto simp: hit_def Let_def)
  then show ?thesis using slot_walk [OF wf n(1), of "va c"] by (simp add: leaf_trans_def)
qed

lemma find_next_impl_ok:
  assumes wf: "pt_wf C G st pos root" and c: "cursor_wf G pos c" and len: "2 ^ g_k G dvd len" "va c + len \<le> barrier_end c"
    and room: "s \<Longrightarrow> card (dom st) + 2 * (NR_LEVELS - 1) \<le> g_nodes G"
  shows "\<exists>r st' c' pos'. find_next_impl C env st c len u s = Some (r, st', c') \<and> pt_wf C G st' pos' root \<and>
    cursor_wf G pos' c' \<and> same_range c c' \<and> (\<forall>v. page_walk C st' root v = page_walk C st root v) \<and>
    (case r of
       None \<Rightarrow> va c + len \<le> va c' \<and> (\<forall>v. va c \<le> v \<and> v < va c + len \<longrightarrow> page_walk C st root v = Some None)
     | Some a \<Rightarrow> a = va c' \<and> va c \<le> a \<and> a < va c + len \<and> hit C G pos' st' u s (va c + len) c' \<and>
         (\<forall>v. va c \<le> v \<and> v < a \<longrightarrow> page_walk C st root v = Some None)) \<and>
    (no_huge G \<longrightarrow> dom st' = dom st)"
proof -
  let ?e = "va c + len"
  have cc: "cursor_core G pos c" and vb: "va c \<le> barrier_end c" using c by (simp_all add: cursor_wf_def)
  have base: "BASE_PAGE_SIZE (pconsts C) = 2 ^ g_k G" by (rule pg.base_pow)
  have ev: "2 ^ g_k G dvd ?e" using cc len(1) by (simp add: cursor_core_def)
  have le: "barrier_end c \<le> USIZE_MAX"
    using slot_base_gt [of "barrier_end c - 1" G "guard_level c"] cc unfolding cursor_core_def by linarith
  have cov: "covers G c ?e (guard_level c)" if v: "va c < ?e"
  proof -
    let ?L = "guard_level c + 1"
    have "(barrier_end c - 1) div gsz G ?L = va c div gsz G ?L"
      using barrier_node [OF cc, of "va c"] cc v len(2) by (simp add: cursor_core_def)
    then have "barrier_end c - 1 < slot_base G ?L (va c) + gsz G ?L"
      using in_slot_iff [of G ?L "va c" "barrier_end c - 1"] by blast
    then show ?thesis using len(2) cc v by (simp add: covers_def cursor_core_def)
  qed
  have "slack G c \<le> NR_LEVELS - 1" "guard_level c - 1 \<le> NR_LEVELS - 1" using cc by (auto simp: slack_def cursor_core_def)
  then have rm: "s \<Longrightarrow> card (dom st) + slack G c + (guard_level c - 1) \<le> g_nodes G" using room by simp
  obtain r st' c1 pos' where h: "find_next_loop C env u s ?e st c = Some (r, st', c1)" "pt_wf C G st' pos' root"
    "cursor_core G pos' c1" "same_range c c1" "va c \<le> va c1" "\<And>v. page_walk C st' root v = page_walk C st root v"
    "\<And>v. va c \<le> v \<and> v < va c1 \<Longrightarrow> page_walk C st root v = Some None"
    "case r of None \<Rightarrow> ?e \<le> va c1 | Some a \<Rightarrow> a = va c1 \<and> a < ?e \<and> hit C G pos' st' u s ?e c1"
    "no_huge G \<Longrightarrow> dom st' = dom st"
    using find_next_loop_ok [OF wf cc len(2) ev, of "guard_level c" s u] cov rm by blast
  let ?c = "case r of Some v \<Rightarrow> c1 | None \<Rightarrow> if va c1 > barrier_end c1 then c1\<lparr>va := barrier_end c1\<rparr> else c1"
  have eq: "find_next_impl C env st c len u s = Some (r, st', ?c)"
    using base len h(1) le vb by (simp add: find_next_impl_def rassert_def usub_def uadd_def dvd_eq_mod_eq_0)
  have be: "barrier_end c1 = barrier_end c" using h(4) by (simp add: same_range_def)
  have wfc: "cursor_wf G pos' ?c"
  proof (cases r)
    case None
    then show ?thesis using h(3) by (auto simp: cursor_wf_def cursor_core_def)
  next
    case (Some a)
    then show ?thesis using h(3,8) be len(2) by (simp add: cursor_wf_def)
  qed
  have sr: "same_range c ?c" using h(4) by (auto simp: same_range_def split: option.splits)
  have res: "case r of
       None \<Rightarrow> ?e \<le> va ?c \<and> (\<forall>v. va c \<le> v \<and> v < ?e \<longrightarrow> page_walk C st root v = Some None)
     | Some a \<Rightarrow> a = va ?c \<and> va c \<le> a \<and> a < ?e \<and> hit C G pos' st' u s ?e ?c \<and>
         (\<forall>v. va c \<le> v \<and> v < a \<longrightarrow> page_walk C st root v = Some None)"
    using h(5,7,8) len(2) be by (cases r) auto
  show ?thesis
    by (rule exI [of _ r], rule exI [of _ st'], rule exI [of _ ?c], rule exI [of _ pos'], intro conjI)
      (use eq h(2,6,9) wfc sr res in auto)
qed

lemma take_next_ok:
  assumes wf: "pt_wf C G st pos root" and c: "cursor_wf G pos c" and len: "2 ^ g_k G dvd len" "va c + len \<le> barrier_end c"
    and room: "card (dom st) + 2 * (NR_LEVELS - 1) \<le> g_nodes G"
  shows "\<exists>r st' c' pos'. take_next C env st c len = Some (r, st', c') \<and> pt_wf C G st' pos' root \<and>
    cursor_wf G pos' c' \<and> same_range c c' \<and>
    (case r of
       None \<Rightarrow> va c + len \<le> va c' \<and> (\<forall>v. page_walk C st' root v = page_walk C st root v) \<and>
         (\<forall>v. va c \<le> v \<and> v < va c + len \<longrightarrow> page_walk C st root v = Some None)
     | Some f \<Rightarrow> \<exists>a l. va c \<le> a \<and> a + gsz G l = va c' \<and> va c' \<le> va c + len \<and> gsz G l dvd a \<and>
         frag_ok C G (page_walk C st root) l a r \<and>
         (\<forall>v. va c \<le> v \<and> v < a \<longrightarrow> page_walk C st root v = Some None) \<and>
         (\<forall>v. v div gW G = a div gW G \<longrightarrow> page_walk C st' root v =
            (if a \<le> v \<and> v < a + gsz G l then Some None else page_walk C st root v))) \<and>
    (no_huge G \<longrightarrow> dom st' = dom st)"
proof -
  let ?e = "va c + len"
  obtain r st1 c1 pos1 where h: "find_next_impl C env st c len True True = Some (r, st1, c1)" "pt_wf C G st1 pos1 root"
    "cursor_wf G pos1 c1" "same_range c c1" "\<And>v. page_walk C st1 root v = page_walk C st root v"
    "case r of
       None \<Rightarrow> ?e \<le> va c1 \<and> (\<forall>v. va c \<le> v \<and> v < ?e \<longrightarrow> page_walk C st root v = Some None)
     | Some a \<Rightarrow> a = va c1 \<and> va c \<le> a \<and> a < ?e \<and> hit C G pos1 st1 True True ?e c1 \<and>
         (\<forall>v. va c \<le> v \<and> v < a \<longrightarrow> page_walk C st root v = Some None)"
    "no_huge G \<Longrightarrow> dom st1 = dom st"
    using find_next_impl_ok [OF wf c len, of True True] room by blast
  show ?thesis
  proof (cases r)
    case None
    then have "take_next C env st c len = Some (None, st1, c1)" using h(1) by (simp add: take_next_def)
    moreover have "?e \<le> va c1 \<and> (\<forall>v. va c \<le> v \<and> v < ?e \<longrightarrow> page_walk C st root v = Some None)"
      using h(6) None by simp
    ultimately show ?thesis using h(2-5,7) by (intro exI [of _ None] exI [of _ st1] exI [of _ c1] exI [of _ pos1]) simp
  next
    case (Some a)
    then have a: "a = va c1" "va c \<le> a" "a < ?e" "hit C G pos1 st1 True True ?e c1"
      "\<And>v. va c \<le> v \<and> v < a \<Longrightarrow> page_walk C st root v = Some None" using h(6) by simp_all
    have be: "barrier_end c1 = barrier_end c" using h(4) by (simp add: same_range_def)
    have cc1: "cursor_core G pos1 c1" "va c1 < barrier_end c1" using h(3) a(1,3) len(2) be by (simp_all add: cursor_wf_def)
    let ?l = "level c1"
    have ft: "gsz G ?l dvd a" "a + gsz G ?l \<le> ?e" using a(1,4) by (auto simp: hit_def fits_def Let_def)
    have top: "TOP_LEVEL_CAN_UNMAP C \<or> ?l \<noteq> NR_LEVELS"
      if p: "pos1 n = Some (?l, va_pre G ?l (va c1))" "points_to C (pt_ent st1 n (va_idx G ?l (va c1))) ?l p" for n p
    proof -
      obtain m where m: "pos1 m = Some (?l, va_pre G ?l (va c1))"
        "\<not> is_last (pte C) (pt_ent st1 m (va_idx G ?l (va c1))) ?l \<Longrightarrow> TOP_LEVEL_CAN_UNMAP C \<or> ?l \<noteq> NR_LEVELS"
        using a(4) by (auto simp: hit_def Let_def)
      have "m = n" by (rule pt_wfD(4) [OF h(2) m(1) p(1)])
      then show ?thesis using m(2) p(2) by (auto simp: points_to_def)
    qed
    have nl: "new_leaf Absent ?l G C" by (simp add: new_leaf_def)
    have t1: "page_walk C st1 root = page_walk C st root" using h(5) by auto
    have rc: "\<exists>frag st' pos'. replace_cur_entry C env st1 c1 Absent = Some (frag, st') \<and> pt_wf C G st' pos' root \<and>
      cursor_core G pos' c1 \<and> dom st' = dom st1 \<and> frag_ok C G (page_walk C st1 root) ?l (va c1) frag \<and>
      (\<forall>v. v div gW G = va c1 div gW G \<longrightarrow> page_walk C st' root v =
         (if v div gsz G ?l = va c1 div gsz G ?l then Some (child_trans G ?l Absent v) else page_walk C st1 root v))"
      by (rule replace_cur_ok [OF h(2) cc1 nl]) (erule (1) top)
    obtain frag st2 pos2 where r: "replace_cur_entry C env st1 c1 Absent = Some (frag, st2)" "pt_wf C G st2 pos2 root"
      "cursor_core G pos2 c1" "frag_ok C G (page_walk C st root) ?l a frag"
      "\<And>v. v div gW G = a div gW G \<Longrightarrow> page_walk C st2 root v =
        (if v div gsz G ?l = a div gsz G ?l then Some (child_trans G ?l Absent v) else page_walk C st root v)"
      "dom st2 = dom st1"
      using rc t1 a(1) by auto
    have fs: "\<exists>f. frag = Some f"
    proof (rule ccontr)
      assume "\<nexists>f. frag = Some f"
      then have "replace_cur_entry C env st1 c1 Absent = Some (None, st2)" using r(1) by (cases frag) auto
      then show False using replace_present [OF h(2) cc1, of Absent st2] a(4) by (auto simp: hit_def Let_def)
    qed
    obtain c2 where c2: "move_forward C c1 = Some c2" "cursor_core G pos2 c2"
      "va c2 = slot_base G ?l a + gsz G ?l" "same_range c1 c2"
      using move_forward_ok [OF r(3) cc1(2)] a(1) by auto
    have sb: "slot_base G ?l a = a" by (rule slot_base_aligned [OF ft(1)])
    have "take_next C env st c len = Some (frag, st2, c2)" using h(1) Some r(1) c2(1) by (simp add: take_next_def)
    moreover have "cursor_wf G pos2 c2" using c2 sb ft(2) len(2) h(4) by (simp add: cursor_wf_def same_range_def)
    moreover have "page_walk C st2 root v = (if a \<le> v \<and> v < a + gsz G ?l then Some None else page_walk C st root v)"
      if "v div gW G = a div gW G" for v
      using r(5) [OF that] in_slot_iff [of G ?l a v] sb by (simp add: child_trans_def)
    moreover have "same_range c c2" by (rule same_range_trans [OF h(4) c2(4)])
    moreover obtain f where "frag = Some f" using fs by blast
    ultimately show ?thesis using r(2,4,6) h(7) a(2,5) ft sb c2(3)
      by (intro exI [of _ frag] exI [of _ st2] exI [of _ c2] exI [of _ pos2])
        (simp, intro exI [of _ a] exI [of _ ?l] conjI, simp_all)
  qed
qed

end
section \<open>Changing the property of the next mapping\<close>

definition op_ok :: "pt_ghost \<Rightarrow> (PageProperty \<Rightarrow> PageProperty) \<Rightarrow> bool" where
  "op_ok G op \<longleftrightarrow> (\<forall>pa l q. g_prop G q \<longrightarrow> g_item G pa l q \<longrightarrow> g_prop G (op q) \<and> g_item G pa l (op q))"

context page_table
begin

lemma protect_cur_ok:
  assumes wf: "pt_wf C G st pos root" and c: "cursor_core G pos c" "va c < barrier_end c"
    and h: "hit C G pos st False s e c"
    and op: "op_ok G op"
  shows "\<exists>st' pos' pa q. protect_cur_entry C st c op = Some st' \<and> pt_wf C G st' pos' root \<and> cursor_core G pos' c \<and>
    (\<forall>v. v div gsz G (level c) = va c div gsz G (level c) \<longrightarrow>
       page_walk C st root v = Some (Some (pa + v mod gsz G (level c), q))) \<and>
    (\<forall>v. v div gW G = va c div gW G \<longrightarrow> page_walk C st' root v =
       (if v div gsz G (level c) = va c div gsz G (level c) then Some (Some (pa + v mod gsz G (level c), op q))
        else page_walk C st root v))"
proof -
  let ?l = "level c" and ?i = "va_idx G (level c) (va c)"
  obtain n where n: "path_slot c ?l = Some n" "pos n = Some (?l, va_pre G ?l (va c))"
    "pte_index (pconsts C) (va c) ?l = Some ?i" "node_level st n = Some ?l"
    by (rule cur_entry_ok [OF wf c])
  have l: "1 \<le> ?l" "?l \<le> NR_LEVELS" using pt_wfD(3) [OF wf n(2)] by auto
  let ?e = "pt_ent st n ?i"
  have e: "is_present (pte C) ?e" "is_last (pte C) ?e ?l"
    using h pt_wfD(4) [OF wf n(2)] by (auto simp: hit_def Let_def)
  have opq: "g_prop G (op q) \<and> g_item G (pte_paddr (pte C) ?e) ?l (op q)" if "pte_prop (pte C) ?e = Some q" for q
    using wf_entry(1) [OF wf n(2) va_idx_lt [of G ?l "va c"]] e op that by (auto simp: entry_ok_def leaf_ok_def op_ok_def)
  obtain f q where f: "protect_child C st n ?i op = Some (slot_set C st n ?i f)" "leaf_entry C G ?l f"
    "pte_prop (pte C) ?e = Some q" "child_from_pte C f ?l = Some (Frame (pte_paddr (pte C) ?e) ?l (op q))"
    using protect_ok [OF wf n(2) va_idx_lt e] opq by blast
  have "page_walk C st root v = Some (Some (pte_paddr (pte C) ?e + v mod gsz G ?l, q))"
    if "v div gsz G ?l = va c div gsz G ?l" for v
    using slot_walk [OF wf n(2) that] e f(3) by (simp add: leaf_trans_def)
  moreover have "page_walk C (slot_set C st n ?i f) root v =
      (if v div gsz G ?l = va c div gsz G ?l then Some (Some (pte_paddr (pte C) ?e + v mod gsz G ?l, op q))
       else page_walk C st root v)" if "v div gW G = va c div gW G" for v
    using slot_set_walk [OF wf n(2) va_idx_lt [of G ?l "va c"] f(2), of v] leaf_trans_child [OF f(2,4)]
      slot_key [OF l that] in_slot_iff [of G ?l "va c" v] by (simp add: child_trans_def)
  moreover have "protect_cur_entry C st c op = Some (slot_set C st n ?i f)"
    using n f(1) by (simp add: protect_cur_entry_def)
  ultimately show ?thesis
    using slot_set_wf [OF wf n(2) va_idx_lt [of G ?l "va c"] f(2)] core_drop [OF c(1)] by blast
qed

lemma protect_next_ok:
  assumes wf: "pt_wf C G st pos root" and c: "cursor_wf G pos c" and len: "2 ^ g_k G dvd len" "va c + len \<le> barrier_end c"
    and room: "card (dom st) + 2 * (NR_LEVELS - 1) \<le> g_nodes G"
    and op: "op_ok G op"
  shows "\<exists>r st' c' pos'. protect_next C env st c len op = Some (r, st', c') \<and> pt_wf C G st' pos' root \<and>
    cursor_wf G pos' c' \<and> same_range c c' \<and>
    (case r of
       None \<Rightarrow> va c + len \<le> va c' \<and> (\<forall>v. page_walk C st' root v = page_walk C st root v) \<and>
         (\<forall>v. va c \<le> v \<and> v < va c + len \<longrightarrow> page_walk C st root v = Some None)
     | Some (a, b) \<Rightarrow> va c \<le> a \<and> a < b \<and> b = va c' \<and> b \<le> va c + len \<and>
         (\<forall>v. va c \<le> v \<and> v < a \<longrightarrow> page_walk C st root v = Some None) \<and>
         (\<exists>pa q. (\<forall>v. a \<le> v \<and> v < b \<longrightarrow> page_walk C st root v = Some (Some (pa + (v - a), q))) \<and>
           (\<forall>v. v div gW G = a div gW G \<longrightarrow> page_walk C st' root v =
            (if a \<le> v \<and> v < b then Some (Some (pa + (v - a), op q)) else page_walk C st root v))))"
proof -
  let ?e = "va c + len"
  obtain r st1 c1 pos1 where h: "find_next_impl C env st c len False True = Some (r, st1, c1)" "pt_wf C G st1 pos1 root"
    "cursor_wf G pos1 c1" "same_range c c1" "\<And>v. page_walk C st1 root v = page_walk C st root v"
    "case r of
       None \<Rightarrow> ?e \<le> va c1 \<and> (\<forall>v. va c \<le> v \<and> v < ?e \<longrightarrow> page_walk C st root v = Some None)
     | Some a \<Rightarrow> a = va c1 \<and> va c \<le> a \<and> a < ?e \<and> hit C G pos1 st1 False True ?e c1 \<and>
         (\<forall>v. va c \<le> v \<and> v < a \<longrightarrow> page_walk C st root v = Some None)"
    using find_next_impl_ok [OF wf c len, of True False] room by blast
  show ?thesis
  proof (cases r)
    case None
    then have "protect_next C env st c len op = Some (None, st1, c1)" using h(1) by (simp add: protect_next_def)
    moreover have "?e \<le> va c1 \<and> (\<forall>v. va c \<le> v \<and> v < ?e \<longrightarrow> page_walk C st root v = Some None)"
      using h(6) None by simp
    ultimately show ?thesis using h(2-5) by (intro exI [of _ None] exI [of _ st1] exI [of _ c1] exI [of _ pos1]) simp
  next
    case (Some a)
    then have a: "a = va c1" "va c \<le> a" "a < ?e" "hit C G pos1 st1 False True ?e c1"
      "\<And>v. va c \<le> v \<and> v < a \<Longrightarrow> page_walk C st root v = Some None" using h(6) by simp_all
    have be: "barrier_end c1 = barrier_end c" using h(4) by (simp add: same_range_def)
    have cc1: "cursor_core G pos1 c1" "va c1 < barrier_end c1" using h(3) a(1,3) len(2) be by (simp_all add: cursor_wf_def)
    let ?l = "level c1"
    have ft: "gsz G ?l dvd a" "a + gsz G ?l \<le> ?e" using a(1,4) by (auto simp: hit_def fits_def Let_def)
    obtain st2 pos2 pa q where p: "protect_cur_entry C st1 c1 op = Some st2" "pt_wf C G st2 pos2 root"
      "cursor_core G pos2 c1"
      "\<And>v. v div gsz G ?l = a div gsz G ?l \<Longrightarrow> page_walk C st root v = Some (Some (pa + v mod gsz G ?l, q))"
      "\<And>v. v div gW G = a div gW G \<Longrightarrow> page_walk C st2 root v =
       (if v div gsz G ?l = a div gsz G ?l then Some (Some (pa + v mod gsz G ?l, op q)) else page_walk C st root v)"
      using protect_cur_ok [OF h(2) cc1 a(4) op] h(5) a(1) by auto
    obtain c2 where c2: "move_forward C c1 = Some c2" "cursor_core G pos2 c2"
      "va c2 = slot_base G ?l a + gsz G ?l" "same_range c1 c2"
      using move_forward_ok [OF p(3) cc1(2)] a(1) by auto
    have sb: "slot_base G ?l a = a" by (rule slot_base_aligned [OF ft(1)])
    let ?b = "a + gsz G ?l"
    have eq: "protect_next C env st c len op = Some (Some (a, ?b), st2, c2)"
      using h(1) Some p(1) c2(1) cur_va_range_ok [OF cc1] sb a(1) by (simp add: protect_next_def)
    have in_slot: "a \<le> v \<and> v < ?b \<longleftrightarrow> v div gsz G ?l = a div gsz G ?l" for v
      using in_slot_iff [of G ?l a v] sb by simp
    have off: "v mod gsz G ?l = v - a" if "a \<le> v \<and> v < ?b" for v
      using that in_slot slot_base_mod [of v G ?l] sb by (simp add: slot_base_def)
    have "cursor_wf G pos2 c2" using c2 sb ft(2) len(2) h(4) by (simp add: cursor_wf_def same_range_def)
    moreover have "page_walk C st root v = Some (Some (pa + (v - a), q))" if "a \<le> v \<and> v < ?b" for v
      using p(4) [of v] off [OF that] iffD1 [OF in_slot that] by simp
    moreover have "page_walk C st2 root v = (if a \<le> v \<and> v < ?b then Some (Some (pa + (v - a), op q))
        else page_walk C st root v)" if "v div gW G = a div gW G" for v
      using p(5) [OF that] in_slot off by auto
    moreover have "same_range c c2" by (rule same_range_trans [OF h(4) c2(4)])
    ultimately show ?thesis using eq p(2) a(2,5) ft sb c2(3)
      by (intro exI [of _ "Some (a, ?b)"] exI [of _ st2] exI [of _ c2] exI [of _ pos2]) auto
  qed
qed

end

end
