(* ===== verification/Pt_Cursor_New.thy ===== *)
theory Pt_Cursor_New
  imports Pt_Cursor_Correct
begin

text \<open>
  Creating a cursor: the descent of \<open>try_traverse_and_lock_subtree_root\<close> ends at the smallest node, among
  those reachable without crossing a mapping, that contains the whole range, and the cursor it starts satisfies the invariant.
\<close>

definition no_stray :: "pt_pos \<Rightarrow> 'e pt_store \<Rightarrow> bool" where
  "no_stray pos st \<longleftrightarrow> (\<forall>n nd. pos n \<noteq> None \<longrightarrow> st n = Some nd \<longrightarrow> \<not> stray nd)"

lemma no_stray_graft:
  assumes "no_stray pos st" "\<not> stray cnd" "st n = Some nd" "pos n \<noteq> None"
  shows "no_stray (pos(c \<mapsto> x)) (graft C st n i c cnd)"
  using assms by (auto simp: no_stray_def graft_def slot_set_def Let_def)

lemma same_child:
  assumes "1 \<le> l" "a div gsz G (l + 1) = b div gsz G (l + 1)" "va_idx G l a = va_idx G l b"
  shows "a div gsz G l = b div gsz G l"
proof -
  let ?x = "a div gsz G l" and ?y = "b div gsz G l"
  have "?x div 2 ^ g_b G = ?y div 2 ^ g_b G" using assms(2) gsz_Suc [OF assms(1), of G] by (simp add: div_mult2_eq)
  then show ?thesis using assms(3) div_mult_mod_eq [of ?x "2 ^ g_b G"] div_mult_mod_eq [of ?y "2 ^ g_b G"]
    unfolding va_idx_def by metis
qed

context page_table
begin

lemma traverse_ok:
  assumes "pt_wf C G st pos root" "no_stray pos st" "pos cur = Some (l, va_pre G l a)" "a < b"
    "a div gsz G (l + 1) = (b - 1) div gsz G (l + 1)" "card (dom st) + (l - 1) \<le> g_nodes G"
  shows "\<exists>n st' pos' l'. traverse C env (a, b) l st cur = Some (Some n, st') \<and> pt_wf C G st' pos' root \<and>
    no_stray pos' st' \<and> pos' n = Some (l', va_pre G l' a) \<and> a div gsz G (l' + 1) = (b - 1) div gsz G (l' + 1) \<and>
    card (dom st') \<le> card (dom st) + (l - 1) \<and>
    (1 < l' \<and> va_idx G l' a = va_idx G l' (b - 1) \<longrightarrow> page_walk C st root a \<noteq> Some None) \<and> (\<forall>v. page_walk C st' root v = page_walk C st root v)"
  using assms
proof (induction l arbitrary: st pos cur)
  case 0
  then show ?case by auto
next
  case (Suc l)
  note wf = Suc.prems(1) and cur = Suc.prems(3)
  let ?i = "va_idx G (Suc l) a"
  have l: "1 \<le> Suc l" "Suc l \<le> NR_LEVELS" using pt_wfD(3) [OF wf cur] by auto
  have idx: "pte_index (pconsts C) v (Suc l) = Some (va_idx G (Suc l) v)" for v using index_eq [of "Suc l" v] l by simp
  have b1: "usub b 1 = Some (b - 1)" using Suc.prems(4) by (simp add: usub_def)
  note tr = traverse.simps(2) [of C env "(a, b)" l st cur]
  let ?e = "pt_ent st cur ?i"
  have rd: "read_pte st cur ?i = Some ?e" by (rule wf_entry(2) [OF wf cur va_idx_lt])
  obtain nd where nd: "st cur = Some nd" "nlevel nd = Suc l" by (rule pt_wf_node [OF wf cur]) simp
  have stop: ?case if "traverse C env (a, b) (Suc l) st cur = Some (Some cur, st)"
      "1 < Suc l \<and> ?i = va_idx G (Suc l) (b - 1) \<longrightarrow> page_walk C st root a \<noteq> Some None"
    using that Suc.prems by (intro exI [of _ cur] exI [of _ st] exI [of _ pos] exI [of _ "Suc l"]) simp
  show ?case
  proof (cases "Suc l > 1 \<and> ?i = va_idx G (Suc l) (b - 1)")
    case False
    show ?thesis by (rule stop) (use False idx b1 in \<open>auto simp: tr\<close>)
  next
    case True
    then have below: "a div gsz G (l + 1) = (b - 1) div gsz G (l + 1)"
      using same_child [of "Suc l" a G "b - 1"] Suc.prems(5) by simp
    have down: ?thesis
      if h: "pt_wf C G st1 pos1 root" "no_stray pos1 st1" "pos1 ch = Some (l, va_pre G l a)"
        "card (dom st1) + (l - 1) \<le> g_nodes G" "\<And>v. page_walk C st1 root v = page_walk C st root v"
        "card (dom st1) \<le> Suc (card (dom st))"
        "traverse C env (a, b) (Suc l) st cur = traverse C env (a, b) l st1 ch" for st1 pos1 ch
    proof -
      obtain n st' pos' l' where r: "traverse C env (a, b) l st1 ch = Some (Some n, st')" "pt_wf C G st' pos' root"
          "no_stray pos' st'" "pos' n = Some (l', va_pre G l' a)" "a div gsz G (l' + 1) = (b - 1) div gsz G (l' + 1)"
          "card (dom st') \<le> card (dom st1) + (l - 1)"
          "1 < l' \<and> va_idx G l' a = va_idx G l' (b - 1) \<longrightarrow> page_walk C st1 root a \<noteq> Some None" "\<And>v. page_walk C st' root v = page_walk C st1 root v"
        using Suc.IH [OF h(1-3) Suc.prems(4) below h(4)] by blast
      have "card (dom st') \<le> card (dom st) + (Suc l - 1)" using r(6) h(6) True by linarith
      then show ?thesis using r h(5,7) by (intro exI [of _ n] exI [of _ st'] exI [of _ pos'] exI [of _ l']) simp
    qed
    show ?thesis
    proof (cases rule: child_from_ok [OF wf_entry(1) [OF wf cur va_idx_lt, of "Suc l" a]])
      case 1
      have room: "card (dom st) < g_nodes G" using Suc.prems(6) True by simp
      have l1: "1 < Suc l" using True by simp
      let ?nd = "node_new C l (2 ^ g_b G)"
      obtain p where p: "alloc_if_none C env st \<lparr>e_pte = ?e, e_idx = ?i, e_node = cur\<rparr> = Some (Some p, graft C st cur ?i p ?nd)"
        "st p = None" "2 ^ g_k G dvd p" "p < g_limit G" "p + LINEAR_MAPPING_BASE_VADDR \<le> USIZE_MAX"
        using alloc_if_none_ok [OF wf cur va_idx_lt l1 1(2) room] by auto
      let ?pos = "pos(p \<mapsto> (l, va_pre G (Suc l) a * 2 ^ g_b G + ?i))"
      have ln: "leaf_node C G (Suc l - 1) ?nd" using leaf_node_new by simp
      have wf1: "pt_wf C G (graft C st cur ?i p ?nd) ?pos root"
        using graft_wf [OF wf cur va_idx_lt l1 1(3) p(2-5) ln] by simp
      have ns: "no_stray ?pos (graft C st cur ?i p ?nd)"
        by (rule no_stray_graft [OF Suc.prems(2) _ nd(1)]) (use cur in \<open>auto simp: node_new_def\<close>)
      have "dom (graft C st cur ?i p ?nd) = insert p (dom st)" using nd(1) by (auto simp: graft_def slot_set_def Let_def)
      then have cd: "card (dom (graft C st cur ?i p ?nd)) = Suc (card (dom st))"
        using p(2) pt_wfD(1) [OF wf] by (simp add: card_insert_if dom_def)
      have st: "\<not> stray nd" using Suc.prems(2) cur nd(1) by (auto simp: no_stray_def)
      show ?thesis
      proof (rule down [OF wf1 ns])
        show "?pos p = Some (l, va_pre G l a)" using va_pre_step [OF l, of G a] by simp
        show "page_walk C (graft C st cur ?i p ?nd) root v = page_walk C st root v" for v
          using graft_new_walk [OF wf cur va_idx_lt l1 1(2) p(2-5), of v] by simp
        show "traverse C env (a, b) (Suc l) st cur = traverse C env (a, b) l (graft C st cur ?i p ?nd) p"
          using True idx b1 rd 1(2) nd st p(1) guard_entry_eq [OF wf cur va_idx_lt]
          by (simp add: tr entry_is_node_def node_level_def entry_is_none_def)
      qed (use cd Suc.prems(6) True in auto)
    next
      case (2 ch)
      have "pos ch = Some (l, va_pre G l a)" using 2(4) va_pre_step [OF l, of G a] by simp
      then show ?thesis
        by (rule down [OF wf Suc.prems(2)])
          (use Suc.prems(6) 2(2) True idx b1 rd in \<open>auto simp: tr points_to_def\<close>)
    next
      case (3 q)
      have "page_walk C st root a \<noteq> Some None"
        using slot_walk [OF wf cur refl] 3 by (simp add: leaf_trans_def)
      then show ?thesis by (intro stop) (use 3(2,3) True idx b1 rd in \<open>auto simp: tr\<close>)
    qed
  qed
qed

lemma fits_below:
  assumes "slot_base G m v + gsz G m \<le> X" "1 \<le> l" "l \<le> m"
  shows "slot_base G l v + gsz G l \<le> X"
proof -
  obtain t where t: "gsz G m = gsz G l * t" using gsz_dvd [OF assms(2,3), of G] by (elim dvdE)
  have "v < (v div gsz G m + 1) * t * gsz G l"
    using slot_base_gt [of v G m] by (simp add: slot_base_def t mult_ac distrib_left)
  then have "v div gsz G l < (v div gsz G m + 1) * t" by (simp add: less_mult_imp_div_less)
  then have "(v div gsz G l + 1) * gsz G l \<le> (v div gsz G m + 1) * t * gsz G l" by (intro mult_le_mono1) simp
  also have "\<dots> = slot_base G m v + gsz G m" by (simp add: slot_base_def t mult_ac distrib_left)
  finally show ?thesis using assms(1) by (simp add: slot_base_def add_mult_distrib)
qed

lemma cursor_new_ok:
  assumes wf: "pt_wf C G st pos root" and ns: "no_stray pos st" and ab: "a < b" "2 ^ g_k G dvd a" "2 ^ g_k G dvd b"
    and valid: "is_valid_range (pconsts C) (index_range C) (a, b) = Some True"
    and half: "a div gW G = (b - 1) div gW G" "slot_base G NR_LEVELS (b - 1) + gsz G NR_LEVELS \<le> USIZE_MAX"
    and room: "card (dom st) + (NR_LEVELS - 1) \<le> g_nodes G"
  shows "\<exists>c st' pos'. cursor_new C env st root (a, b) = Some (Inr (Some c), st') \<and> pt_wf C G st' pos' root \<and>
    cursor_wf G pos' c \<and> va c = a \<and> barrier_start c = a \<and> barrier_end c = b \<and>
    card (dom st') \<le> card (dom st) + (NR_LEVELS - 1) \<and>
    (1 < guard_level c \<and> va_idx G (guard_level c) a = va_idx G (guard_level c) (b - 1) \<longrightarrow> page_walk C st root a \<noteq> Some None) \<and>
    (\<forall>v. page_walk C st' root v = page_walk C st root v)"
proof -
  have base: "BASE_PAGE_SIZE (pconsts C) = 2 ^ g_k G" by (rule pg.base_pow)
  have rt: "pos root = Some (NR_LEVELS, va_pre G NR_LEVELS a)" using pt_wfD(2) [OF wf] by simp
  obtain n st' pos' l where t: "traverse C env (a, b) NR_LEVELS st root = Some (Some n, st')" "pt_wf C G st' pos' root"
    "no_stray pos' st'" "pos' n = Some (l, va_pre G l a)" "a div gsz G (l + 1) = (b - 1) div gsz G (l + 1)"
    "\<And>v. page_walk C st' root v = page_walk C st root v" "card (dom st') \<le> card (dom st) + (NR_LEVELS - 1)"
    "1 < l \<and> va_idx G l a = va_idx G l (b - 1) \<longrightarrow> page_walk C st root a \<noteq> Some None"
    using traverse_ok [OF wf ns rt ab(1)] half(1) room by (auto simp: gW_def)
  have l: "1 \<le> l" "l \<le> NR_LEVELS" using pt_wfD(3) [OF t(2,4)] by auto
  obtain nd where nd: "st' n = Some nd" "nlevel nd = l" by (rule pt_wf_node [OF t(2,4)]) simp
  have str: "\<not> stray nd" using t(3,4) nd(1) by (auto simp: no_stray_def)
  let ?c = "\<lparr>path = (replicate MAX_NR_LEVELS None)[l - 1 := Some n], level = l, guard_level = l, va = a,
    barrier_start = a, barrier_end = b\<rparr>"
  have "cursor_new C env st root (a, b) = Some (Inr (Some ?c), st')"
    using valid ab base t(1) nd str l
    by (simp add: cursor_new_def lock_range_def try_traverse_and_lock_subtree_root_def nr_levels rassert_def
        node_level_def usub_def rset_def MAX_NR_LEVELS_def NR_LEVELS_def dvd_eq_mod_eq_0)
  moreover have "path_ok G pos' ?c a" using t(4) l by (auto simp: path_ok_def MAX_NR_LEVELS_def NR_LEVELS_def)
  then have "cursor_wf G pos' ?c"
    using l ab t(5) fits_below [OF half(2) l]
    by (simp add: cursor_wf_def cursor_core_def MAX_NR_LEVELS_def NR_LEVELS_def)
  ultimately show ?thesis using t(2,6-8) by (intro exI [of _ ?c] exI [of _ st'] exI [of _ pos']) simp
qed

end

end
