(* ===== verification/Pt_Configs.thy ===== *)
theory Pt_Configs
  imports Pt_Cursor_New
begin

text \<open>
  The two page-table configurations of the kernel, \<open>UserPtConfig\<close> of \<open>ostd/src/mm/vm_space.rs\<close> and
  \<open>KernelPtConfig\<close> of \<open>ostd/src/mm/kspace/mod.rs\<close>, on x86-64, as instances of the contracts in \<open>page_table\<close>.
  A frame handle is its physical address; \<open>map_level\<close> is 1 for every frame.  The frame allocator of the
  instance hands out the first free frame of a fixed pool, and detaching a subtree marks its root.
\<close>

section \<open>The configurations\<close>

record UserItem =
  uframe :: Paddr
  uprop :: PageProperty

datatype KernelItem = Tracked Paddr PageProperty | Untracked Paddr nat PageProperty

definition map_level :: "Paddr \<Rightarrow> nat" where
  "map_level frame = 1"

definition user_item_into_raw :: "UserItem \<Rightarrow> (Paddr \<times> nat \<times> PageProperty) option" where
  "user_item_into_raw item = Some (uframe item, map_level (uframe item), uprop item)"

definition user_item_from_raw :: "Paddr \<Rightarrow> nat \<Rightarrow> PageProperty \<Rightarrow> UserItem option" where
  "user_item_from_raw pa l prop = Some \<lparr>uframe = pa, uprop = prop\<rparr>"

definition has_avail1 :: "PageProperty \<Rightarrow> bool" where
  "has_avail1 prop \<longleftrightarrow> flags prop AND PF_AVAIL1 = PF_AVAIL1"

fun kernel_item_into_raw :: "KernelItem \<Rightarrow> (Paddr \<times> nat \<times> PageProperty) option" where
  "kernel_item_into_raw (Tracked frame prop) = do {
     rassert (\<not> has_avail1 prop);
     Some (frame, map_level frame, prop\<lparr>flags := flags prop OR PF_AVAIL1\<rparr>)
   }"
| "kernel_item_into_raw (Untracked pa l prop) = do {
     rassert (\<not> has_avail1 prop);
     Some (pa, l, prop\<lparr>flags := flags prop AND NOT PF_AVAIL1\<rparr>)
   }"

definition kernel_item_from_raw :: "Paddr \<Rightarrow> nat \<Rightarrow> PageProperty \<Rightarrow> KernelItem option" where
  "kernel_item_from_raw pa l prop = (
     if has_avail1 prop then do {
       rassert (l = 1);
       Some (Tracked pa (prop\<lparr>flags := flags prop AND NOT PF_AVAIL1\<rparr>))
     }
     else Some (Untracked pa l prop))"

definition user_pt_config :: "(x86_pte, UserItem) pt_config" where
  "user_pt_config = \<lparr>pconsts = x86_paging, index_range = user_range, TOP_LEVEL_CAN_UNMAP = True,
     pte = x86_pte_ops False, item_into_raw = user_item_into_raw, item_from_raw = user_item_from_raw\<rparr>"

definition kernel_pt_config :: "(x86_pte, KernelItem) pt_config" where
  "kernel_pt_config = \<lparr>pconsts = x86_paging, index_range = kernel_range, TOP_LEVEL_CAN_UNMAP = False,
     pte = x86_pte_ops False, item_into_raw = kernel_item_into_raw, item_from_raw = kernel_item_from_raw\<rparr>"

lemma config_sel [simp]:
  "pconsts user_pt_config = x86_paging" "index_range user_pt_config = user_range" "TOP_LEVEL_CAN_UNMAP user_pt_config"
  "pte user_pt_config = x86_pte_ops False" "item_into_raw user_pt_config = user_item_into_raw"
  "item_from_raw user_pt_config = user_item_from_raw"
  "pconsts kernel_pt_config = x86_paging" "index_range kernel_pt_config = kernel_range"
  "\<not> TOP_LEVEL_CAN_UNMAP kernel_pt_config" "pte kernel_pt_config = x86_pte_ops False"
  "item_into_raw kernel_pt_config = kernel_item_into_raw" "item_from_raw kernel_pt_config = kernel_item_from_raw"
  by (simp_all add: user_pt_config_def kernel_pt_config_def)

section \<open>The instance\<close>

definition pool :: "nat \<Rightarrow> Paddr list" where
  "pool n = map ((*) PAGE_SIZE) [1..<Suc n]"

definition pool_env :: "nat \<Rightarrow> 'e pt_env" where
  "pool_env n = \<lparr>alloc_frame = \<lambda>st. List.find (\<lambda>p. st p = None) (pool n),
     mark_stray = \<lambda>st p. (0, st(p := map_option (\<lambda>nd. nd\<lparr>stray := True\<rparr>) (st p)))\<rparr>"

definition user_ghost :: "nat \<Rightarrow> pt_ghost" where
  "user_ghost n = \<lparr>g_k = 12, g_b = 9, g_limit = 2 ^ 52, g_nodes = n, g_prop = x86_valid_prop False,
     g_item = \<lambda>pa l q. True\<rparr>"

definition kernel_ghost :: "nat \<Rightarrow> pt_ghost" where
  "kernel_ghost n = \<lparr>g_k = 12, g_b = 9, g_limit = 2 ^ 52, g_nodes = n, g_prop = x86_valid_prop False,
     g_item = \<lambda>pa l q. has_avail1 q \<longrightarrow> l = 1\<rparr>"

lemma ghost_sel [simp]:
  "g_k (user_ghost n) = 12" "g_b (user_ghost n) = 9" "g_limit (user_ghost n) = 2 ^ 52" "g_nodes (user_ghost n) = n"
  "g_prop (user_ghost n) = x86_valid_prop False" "g_item (user_ghost n) pa l q"
  "g_k (kernel_ghost n) = 12" "g_b (kernel_ghost n) = 9" "g_limit (kernel_ghost n) = 2 ^ 52"
  "g_nodes (kernel_ghost n) = n" "g_prop (kernel_ghost n) = x86_valid_prop False"
  "g_item (kernel_ghost n) pa l q \<longleftrightarrow> (has_avail1 q \<longrightarrow> l = 1)"
  by (simp_all add: user_ghost_def kernel_ghost_def)

lemma pool_fresh:
  assumes "alloc_frame (pool_env n) st = Some p" "n < 2 ^ 30"
  shows "st p = None \<and> 2 ^ 12 dvd p \<and> p < 2 ^ 52 \<and> p + LINEAR_MAPPING_BASE_VADDR \<le> USIZE_MAX"
proof -
  have h: "st p = None" "p \<in> set (pool n)"
    using assms(1) by (auto simp: pool_env_def find_Some_iff)
  have "p \<in> (*) PAGE_SIZE ` {1..<Suc n}" using h(2) by (simp add: pool_def del: upt_Suc)
  then obtain i where i: "p = PAGE_SIZE * i" "i \<in> {1..<Suc n}" by (elim imageE)
  then have "p < 2 ^ 42" using assms(2) by (simp add: PAGE_SIZE_def)
  then show ?thesis using h(1) i(1) by (simp add: PAGE_SIZE_def LINEAR_MAPPING_BASE_VADDR_def USIZE_MAX_def)
qed

lemma pool_room:
  assumes "finite (dom st)" "card (dom st) < n"
  shows "\<exists>p. alloc_frame (pool_env n) st = Some p"
proof (rule ccontr)
  assume "\<nexists>p. alloc_frame (pool_env n) st = Some p"
  then have "alloc_frame (pool_env n) st = None" by auto
  then have "set (pool n) \<subseteq> dom st" by (auto simp: pool_env_def find_None_iff)
  then have "card (set (pool n)) \<le> card (dom st)" by (rule card_mono [OF assms(1)])
  moreover have "card (set (pool n)) = n"
  proof -
    have "inj_on ((*) PAGE_SIZE) {1..<Suc n}" by (simp add: inj_on_def PAGE_SIZE_def)
    then show ?thesis by (simp add: pool_def card_image del: upt_Suc)
  qed
  ultimately show False using assms(2) by simp
qed

lemma pool_stray: "stray_only st (snd (mark_stray (pool_env n) st p))"
  unfolding stray_only_def
proof
  fix m
  show "\<exists>s. snd (mark_stray (pool_env n) st p) m = map_option (\<lambda>nd. nd\<lparr>stray := s\<rparr>) (st m)"
  proof (cases "m = p")
    case True
    then show ?thesis by (auto simp: pool_env_def)
  next
    case False
    then have "snd (mark_stray (pool_env n) st p) m = map_option (\<lambda>nd. nd\<lparr>stray := stray (the (st m))\<rparr>) (st m)"
      by (cases "st m") (simp_all add: pool_env_def)
    then show ?thesis by blast
  qed
qed

lemma x86_paddr_ok: "(\<lambda>p. 2 ^ 12 dvd p \<and> p < 2 ^ 52) = x86_valid_paddr"
  by (auto simp: x86_valid_paddr_def PAGE_SIZE_pow)

lemma page_tableI:
  assumes "pconsts C = x86_paging" "pte C = x86_pte_ops False" "n < 2 ^ 30"
    and "g_k G = 12" "g_b G = 9" "g_limit G = 2 ^ 52" "g_nodes G = n" "g_prop G = x86_valid_prop False"
    and "\<And>pa l q. g_item G pa l q \<Longrightarrow> \<exists>i. item_from_raw C pa l q = Some i"
    and "\<And>pa pa' l q. g_item G pa l q \<Longrightarrow> 1 < l \<Longrightarrow> g_item G pa' (l - 1) q"
  shows "page_table C G (pool_env n)"
proof -
  have "paging (pconsts C) (g_k G) (g_b G)" using assms x86.paging_axioms by simp
  moreover have "pte_laws (pte C) (\<lambda>p. 2 ^ g_k G dvd p \<and> p < g_limit G) (g_prop G)"
    unfolding assms x86_paddr_ok by (rule x86_pte.pte_laws_axioms)
  moreover have "page_table_axioms C G (pool_env n)"
  proof (rule page_table_axioms.intro)
    show "alloc_frame (pool_env n) st = Some p \<Longrightarrow> st p = None \<and> 2 ^ g_k G dvd p \<and> p < g_limit G \<and>
        p + LINEAR_MAPPING_BASE_VADDR \<le> USIZE_MAX" for st :: "x86_pte pt_store" and p
      using pool_fresh [OF _ assms(3), of st p] assms(4,6) by metis
    show "finite (dom st) \<Longrightarrow> card (dom st) < g_nodes G \<Longrightarrow> \<exists>p. alloc_frame (pool_env n) st = Some p"
      for st :: "x86_pte pt_store"
      using pool_room [of st n] assms(7) by simp
    show "stray_only st (snd (mark_stray (pool_env n) st p))" for st :: "x86_pte pt_store" and p
      by (rule pool_stray)
  qed (use assms in \<open>auto simp: NR_LEVELS_def PAGE_SIZE_def USIZE_MAX_def\<close>)
  ultimately show ?thesis by (simp add: page_table_def)
qed

interpretation user_pt: page_table user_pt_config "user_ghost 1024" "pool_env 1024"
  by (rule page_tableI) (simp_all add: user_item_from_raw_def)

interpretation kernel_pt: page_table kernel_pt_config "kernel_ghost 1024" "pool_env 1024"
  by (rule page_tableI) (auto simp: kernel_item_from_raw_def rassert_def)

end
