(* ===== verification/Pt_Properties.thy ===== *)
theory Pt_Properties
  imports Pt_Configs
begin

text \<open>
  The properties of the page table, stated over any configuration that meets the contracts of
  \<open>page_table\<close>, with a concrete user page table as the witness: a huge page of 2 MiB is mapped at address
  0 and everything else is absent.
\<close>

section \<open>A user page table\<close>

definition demo_leaf :: x86_pte where
  "demo_leaf = the (x86_new_page False 0x200000 2 demo_prop)"

definition demo_st0 :: "x86_pte pt_store" where
  "demo_st0 = [0x1000 \<mapsto> node_new user_pt_config 4 512]"

definition demo_st1 :: "x86_pte pt_store" where
  "demo_st1 = graft user_pt_config demo_st0 0x1000 0 0x2000 (node_new user_pt_config 3 512)"

definition demo_st2 :: "x86_pte pt_store" where
  "demo_st2 = graft user_pt_config demo_st1 0x2000 0 0x3000 (node_new user_pt_config 2 512)"

definition demo_st :: "x86_pte pt_store" where
  "demo_st = slot_set user_pt_config demo_st2 0x3000 0 demo_leaf"

definition demo_pos :: pt_pos where
  "demo_pos = [0x1000 \<mapsto> (4, 0), 0x2000 \<mapsto> (3, 0), 0x3000 \<mapsto> (2, 0)]"

definition demo_cursor :: Cursor where
  "demo_cursor = \<lparr>path = [None, None, None, Some 0x1000], level = 4, guard_level = 4, va = 0x3000,
     barrier_start = 0, barrier_end = 0x400000\<rparr>"

abbreviation G0 :: pt_ghost where "G0 \<equiv> user_ghost 1024"

lemma gsz_vals: "gsz G0 1 = 0x1000" "gsz G0 2 = 0x200000" "gsz G0 3 = 0x40000000" "gsz G0 4 = 0x8000000000"
  "gsz G0 5 = 0x1000000000000" "gsz G0 (Suc 0) = 0x1000" "gW G0 = 0x1000000000000"
  by (simp_all add: gsz_def gW_def level_bytes_def NR_LEVELS_def)

lemma demo_absent [simplified]:
  "leaf_entry user_pt_config G0 l (new_absent (pte user_pt_config))" "\<not> is_present (pte user_pt_config) (new_absent (pte user_pt_config))"
  using user_pt.pt.absent_law by (simp_all add: leaf_entry_def)

lemma demo_wf0: "pt_wf user_pt_config G0 demo_st0 [0x1000 \<mapsto> (4, 0)] 0x1000"
  using demo_absent
  by (auto simp: pt_wf_def demo_st0_def node_new_def node_ok_def children_count_def NR_LEVELS_def
      LINEAR_MAPPING_BASE_VADDR_def USIZE_MAX_def entry_ok_def split: if_splits)

lemma demo_leaf_props: "leaf_entry user_pt_config G0 2 demo_leaf" "is_present (pte user_pt_config) demo_leaf"
    "pte_paddr (pte user_pt_config) demo_leaf = 0x200000" "pte_prop (pte user_pt_config) demo_leaf = Some demo_prop"
    "is_last (pte user_pt_config) demo_leaf 2"
proof -
  obtain e where e: "x86_new_page False 0x200000 2 demo_prop = Some e" "x86_is_present e" "x86_paddr e = 0x200000"
      "x86_is_last e 2" "x86_prop False e = Some demo_prop"
    using x86_pte.page_law [of "0x200000" demo_prop 2] demo_prop_valid
    by (auto simp: x86_pte_ops_def x86_valid_paddr_def PAGE_SIZE_def)
  then have "demo_leaf = e" by (simp add: demo_leaf_def)
  then show "leaf_entry user_pt_config G0 2 demo_leaf" "is_present (pte user_pt_config) demo_leaf"
    "pte_paddr (pte user_pt_config) demo_leaf = 0x200000" "pte_prop (pte user_pt_config) demo_leaf = Some demo_prop"
    "is_last (pte user_pt_config) demo_leaf 2"
    using e demo_prop_valid by (auto simp: leaf_entry_def x86_pte_ops_def leaf_ok_def gsz_vals)
qed

lemma demo_wf1: "pt_wf user_pt_config G0 demo_st1 [0x1000 \<mapsto> (4, 0), 0x2000 \<mapsto> (3, 0)] 0x1000"
proof -
  have "pt_wf user_pt_config G0 (graft user_pt_config demo_st0 0x1000 0 0x2000 (node_new user_pt_config (4 - 1) (2 ^ g_b G0)))
      ([0x1000 \<mapsto> (4, 0)](0x2000 \<mapsto> (4 - 1, 0 * 2 ^ g_b G0 + 0))) 0x1000"
    by (rule user_pt.graft_wf [OF demo_wf0 _ _ _ _ _ _ _ _ user_pt.leaf_node_new])
      (auto simp: demo_st0_def pt_ent_def node_new_def demo_absent LINEAR_MAPPING_BASE_VADDR_def USIZE_MAX_def)
  then show ?thesis by (simp add: demo_st1_def)
qed

lemma demo_wf2: "pt_wf user_pt_config G0 demo_st2 demo_pos 0x1000"
proof -
  have "pt_wf user_pt_config G0 (graft user_pt_config demo_st1 0x2000 0 0x3000 (node_new user_pt_config (3 - 1) (2 ^ g_b G0)))
      ([0x1000 \<mapsto> (4, 0), 0x2000 \<mapsto> (3, 0)](0x3000 \<mapsto> (3 - 1, 0 * 2 ^ g_b G0 + 0))) 0x1000"
    by (rule user_pt.graft_wf [OF demo_wf1 _ _ _ _ _ _ _ _ user_pt.leaf_node_new])
      (auto simp: demo_st1_def demo_st0_def graft_def slot_set_def Let_def pt_ent_def node_new_def demo_absent
        LINEAR_MAPPING_BASE_VADDR_def USIZE_MAX_def)
  then show ?thesis by (simp add: demo_st2_def demo_pos_def)
qed

lemma demo_wf: "pt_wf user_pt_config G0 demo_st demo_pos 0x1000"
proof -
  have "pt_wf user_pt_config G0 (slot_set user_pt_config demo_st2 0x3000 0 demo_leaf)
      (drop_slot G0 demo_pos (2 - 1) (0 * 2 ^ g_b G0 + 0)) 0x1000"
    by (rule slot_set_wf [OF demo_wf2 _ _ demo_leaf_props(1)]) (simp_all add: demo_pos_def)
  moreover have "drop_slot G0 demo_pos (2 - 1) (0 * 2 ^ g_b G0 + 0) = demo_pos"
    by (auto simp: drop_slot_def demo_pos_def in_slot_def fun_eq_iff)
  ultimately show ?thesis by (simp add: demo_st_def)
qed

lemma demo_dom: "dom demo_st = {0x1000, 0x2000, 0x3000}"
  by (auto simp: demo_st_def demo_st2_def demo_st1_def demo_st0_def graft_def slot_set_def Let_def split: if_splits)

lemma demo_room: "card (dom demo_st) + 2 * (NR_LEVELS - 1) \<le> g_nodes G0"
  by (simp add: demo_dom NR_LEVELS_def)

lemma demo_cursor_wf: "cursor_wf G0 demo_pos demo_cursor"
proof -
  have "path_ok G0 demo_pos demo_cursor (va demo_cursor)"
    unfolding path_ok_def
  proof (intro allI impI)
    fix l assume "level demo_cursor \<le> l \<and> l \<le> guard_level demo_cursor"
    then have "l = 4" by (simp add: demo_cursor_def)
    then show "\<exists>n. path demo_cursor ! (l - 1) = Some n \<and> demo_pos n = Some (l, va_pre G0 l (va demo_cursor))"
      by (simp add: demo_cursor_def demo_pos_def va_pre_def gsz_vals)
  qed
  then show ?thesis
    by (simp add: cursor_wf_def cursor_core_def demo_cursor_def NR_LEVELS_def gsz_vals slot_base_def USIZE_MAX_def)
qed
section \<open>Properties\<close>

text \<open>A page walk on a well-formed page table always returns.  It never leaves the page tables, never
  meets an entry that is not decodable and never reaches the \<open>unreachable!\<close> below level 1.\<close>

lemma page_walk_total:
  assumes "page_table C G env" "pt_wf C G st pos root"
  shows "\<exists>t. page_walk C st root v = Some t"
  using page_table.walk_through [OF assms, of root NR_LEVELS v] page_table.walk_total [OF assms, of root NR_LEVELS v]
    pt_wfD(2) [OF assms(2)]
  by simp

text \<open>C22: \<open>query\<close> agrees with the page walk.  Inside its range a cursor answers with the largest aligned
  range around its address that one entry describes, the cursor stays at that address, and the answer is
  right for every address of the range: either no address in it translates, or the item is the one stored
  there and every address translates to it at its offset.\<close>

theorem query_agrees_with_walk:
  assumes "page_table C G env" "pt_wf C G st pos root" "cursor_wf G pos c" "va c < barrier_end c"
  shows "\<exists>s e it c'. query C st c = Some (Inr ((s, e), it), c') \<and> cursor_wf G pos c' \<and> va c' = va c \<and>
    s \<le> va c \<and> va c < e \<and>
    (case it of
       None \<Rightarrow> \<forall>v. s \<le> v \<and> v < e \<longrightarrow> page_walk C st root v = Some None
     | Some i \<Rightarrow> \<exists>pa l q. item_from_raw C pa l q = Some i \<and> page_size (pconsts C) l = Some (e - s) \<and>
         (\<forall>v. s \<le> v \<and> v < e \<longrightarrow> page_walk C st root v = Some (Some (pa + (v - s), q))))"
proof -
  have cc: "cursor_core G pos c" using assms(3) by (simp add: cursor_wf_def)
  obtain l it c' where q: "query_loop C st c = Some (((slot_base G l (va c), slot_base G l (va c) + gsz G l), it), c')"
    "cursor_core G pos c'" "va c' = va c" "same_range c c'" "1 \<le> l" "l \<le> NR_LEVELS"
    "case it of
       None \<Rightarrow> \<forall>v. v div gsz G l = va c div gsz G l \<longrightarrow> page_walk C st root v = Some None
     | Some i \<Rightarrow> \<exists>pa q. item_from_raw C pa l q = Some i \<and> gsz G l dvd pa \<and>
         (\<forall>v. v div gsz G l = va c div gsz G l \<longrightarrow> page_walk C st root v = Some (Some (pa + v mod gsz G l, q)))"
    using page_table.query_loop_ok [OF assms(1,2) cc assms(4)] by blast
  let ?s = "slot_base G l (va c)"
  have "query C st c = Some (Inr ((?s, ?s + gsz G l), it), c')" using q(1) assms(4) by (simp add: query_def)
  moreover have "cursor_wf G pos c'" using q(2-4) assms(4) by (simp add: cursor_wf_def same_range_def)
  moreover have "v mod gsz G l = v - ?s" if "?s \<le> v \<and> v < ?s + gsz G l" for v
    using that in_slot_iff [of G l "va c" v] slot_base_mod [of v G l] by (simp add: slot_base_def)
  then have "case it of
       None \<Rightarrow> \<forall>v. ?s \<le> v \<and> v < ?s + gsz G l \<longrightarrow> page_walk C st root v = Some None
     | Some i \<Rightarrow> \<exists>pa l' q. item_from_raw C pa l' q = Some i \<and> page_size (pconsts C) l' = Some (?s + gsz G l - ?s) \<and>
         (\<forall>v. ?s \<le> v \<and> v < ?s + gsz G l \<longrightarrow> page_walk C st root v = Some (Some (pa + (v - ?s), q)))"
    using q(5-7) in_slot_iff [of G l "va c"] page_table.size_eq [OF assms(1), of l]
    by (cases it) fastforce+
  ultimately show ?thesis using q(3) slot_base_le [of G l "va c"] slot_base_gt [of "va c" G l] by blast
qed

theorem query_agrees_with_walk_witness:
  "\<exists>s e it c'. query user_pt_config demo_st demo_cursor = Some (Inr ((s, e), it), c') \<and> s \<le> 0x3000 \<and> 0x3000 < e"
  using query_agrees_with_walk [OF user_pt.page_table_axioms demo_wf demo_cursor_wf]
  by (simp add: demo_cursor_def) blast

text \<open>C1: \<open>map\<close> installs exactly the requested mapping.  For an item that the configuration may map, an
  address aligned to its size, and enough frames for the missing tables, \<open>map\<close> does not panic, the
  invariant is kept, the cursor moves behind the mapping, the mapped range translates to the item and no
  other address of the address space changes its translation, whatever had to be allocated or split on
  the way; what \<open>map\<close> returns describes what was mapped there before.\<close>

theorem cursor_map_updates_translation:
  assumes "page_table C G env" "pt_wf C G st pos root" "cursor_wf G pos c"
    "item_into_raw C item = Some (pa, lvl, q)" "leaf_ok G pa lvl q" "1 \<le> lvl"
    "lvl \<le> HIGHEST_TRANSLATION_LEVEL (pconsts C)" "lvl \<le> guard_level c"
    "TOP_LEVEL_CAN_UNMAP C \<or> lvl < NR_LEVELS"
    "gsz G lvl dvd va c" "va c + gsz G lvl \<le> barrier_end c"
    "card (dom st) + (level c - lvl) \<le> g_nodes G"
  shows "\<exists>r st' c' pos'. cursor_map C env st c item = Some (r, st', c') \<and> pt_wf C G st' pos' root \<and>
    cursor_wf G pos' c' \<and> va c' = va c + gsz G lvl \<and> same_range c c' \<and>
    frag_ok C G (page_walk C st root) lvl (va c) (case r of Inl f \<Rightarrow> Some f | Inr u \<Rightarrow> None) \<and>
    (\<forall>v. v div gW G = va c div gW G \<longrightarrow> page_walk C st' root v =
       (if va c \<le> v \<and> v < va c + gsz G lvl then Some (Some (pa + (v - va c), q)) else page_walk C st root v))"
proof -
  have "TOP_LEVEL_CAN_UNMAP C \<or> lvl \<noteq> NR_LEVELS" using assms(9) by auto
  then show ?thesis using page_table.cursor_map_ok [OF assms(1-8) _ assms(10-12)] by blast
qed

theorem cursor_map_updates_translation_witness:
  "\<exists>r st' c'. cursor_map user_pt_config (pool_env 1024) demo_st demo_cursor \<lparr>uframe = 0x7000, uprop = demo_prop\<rparr> =
     Some (r, st', c') \<and> va c' = 0x4000 \<and>
     page_walk user_pt_config st' 0x1000 0x3abc = Some (Some (0x7abc, demo_prop))"
proof -
  have "\<exists>r st' c' pos'. cursor_map user_pt_config (pool_env 1024) demo_st demo_cursor \<lparr>uframe = 0x7000, uprop = demo_prop\<rparr> =
      Some (r, st', c') \<and> pt_wf user_pt_config G0 st' pos' 0x1000 \<and>
    cursor_wf G0 pos' c' \<and> va c' = va demo_cursor + gsz G0 1 \<and> same_range demo_cursor c' \<and>
    frag_ok user_pt_config G0 (page_walk user_pt_config demo_st 0x1000) 1 (va demo_cursor)
      (case r of Inl f \<Rightarrow> Some f | Inr u \<Rightarrow> None) \<and>
    (\<forall>v. v div gW G0 = va demo_cursor div gW G0 \<longrightarrow> page_walk user_pt_config st' 0x1000 v =
       (if va demo_cursor \<le> v \<and> v < va demo_cursor + gsz G0 1
        then Some (Some (0x7000 + (v - va demo_cursor), demo_prop)) else page_walk user_pt_config demo_st 0x1000 v))"
    by (rule cursor_map_updates_translation [OF user_pt.page_table_axioms demo_wf demo_cursor_wf])
      (simp_all add: user_item_into_raw_def map_level_def demo_dom demo_cursor_def gsz_vals leaf_ok_def
        demo_prop_valid)
  then obtain r st' c' where h: "cursor_map user_pt_config (pool_env 1024) demo_st demo_cursor
      \<lparr>uframe = 0x7000, uprop = demo_prop\<rparr> = Some (r, st', c')" "va c' = va demo_cursor + gsz G0 1"
    "\<And>v. v div gW G0 = va demo_cursor div gW G0 \<Longrightarrow> page_walk user_pt_config st' 0x1000 v =
       (if va demo_cursor \<le> v \<and> v < va demo_cursor + gsz G0 1
        then Some (Some (0x7000 + (v - va demo_cursor), demo_prop)) else page_walk user_pt_config demo_st 0x1000 v)"
    by blast
  have "page_walk user_pt_config st' 0x1000 0x3abc = Some (Some (0x7abc, demo_prop))"
    using h(3) [of "0x3abc"] by (simp add: demo_cursor_def gsz_vals)
  moreover have "va c' = 0x4000" using h(2) by (simp add: demo_cursor_def gsz_vals)
  ultimately show ?thesis using h(1) by blast
qed
text \<open>C23: \<open>find_next\<close> finds the first mapping.  It does not panic for an aligned length inside the range, it
  changes no translation, and it answers with an address that is mapped and before which no address of
  the searched range is, or with nothing if no address of the searched range is mapped.\<close>

theorem find_next_first_mapping:
  assumes "page_table C G env" "pt_wf C G st pos root" "cursor_wf G pos c"
    "BASE_PAGE_SIZE (pconsts C) dvd len" "va c + len \<le> barrier_end c"
  shows "\<exists>r st' c' pos'. find_next C env st c len = Some (r, st', c') \<and> pt_wf C G st' pos' root \<and>
    cursor_wf G pos' c' \<and> same_range c c' \<and> (\<forall>v. page_walk C st' root v = page_walk C st root v) \<and>
    (case r of
       None \<Rightarrow> va c + len \<le> va c' \<and> (\<forall>v. va c \<le> v \<and> v < va c + len \<longrightarrow> page_walk C st root v = Some None)
     | Some a \<Rightarrow> a = va c' \<and> va c \<le> a \<and> a < va c + len \<and> (\<exists>x. page_walk C st root a = Some (Some x)) \<and>
         (\<forall>v. va c \<le> v \<and> v < a \<longrightarrow> page_walk C st root v = Some None))"
proof -
  have len: "2 ^ g_k G dvd len" using assms(4) paging.base_pow [OF page_table.axioms(1) [OF assms(1)]] by simp
  obtain r st' c' pos' where h: "find_next C env st c len = Some (r, st', c')" "pt_wf C G st' pos' root"
    "cursor_wf G pos' c'" "same_range c c'" "\<And>v. page_walk C st' root v = page_walk C st root v"
    "case r of
       None \<Rightarrow> va c + len \<le> va c' \<and> (\<forall>v. va c \<le> v \<and> v < va c + len \<longrightarrow> page_walk C st root v = Some None)
     | Some a \<Rightarrow> a = va c' \<and> va c \<le> a \<and> a < va c + len \<and> hit C G pos' st' False False (va c + len) c' \<and>
         (\<forall>v. va c \<le> v \<and> v < a \<longrightarrow> page_walk C st root v = Some None)"
    using page_table.find_next_impl_ok [OF assms(1-3) len assms(5), of False False] by (auto simp: find_next_def)
  have "case r of
       None \<Rightarrow> va c + len \<le> va c' \<and> (\<forall>v. va c \<le> v \<and> v < va c + len \<longrightarrow> page_walk C st root v = Some None)
     | Some a \<Rightarrow> a = va c' \<and> va c \<le> a \<and> a < va c + len \<and> (\<exists>x. page_walk C st root a = Some (Some x)) \<and>
         (\<forall>v. va c \<le> v \<and> v < a \<longrightarrow> page_walk C st root v = Some None)"
    using h(5,6) page_table.hit_walk [OF assms(1) h(2), of False "va c + len" c'] by (cases r) auto
  then show ?thesis using h(1-5) by blast
qed

theorem find_next_first_mapping_witness:
  "\<exists>r st' c'. find_next user_pt_config (pool_env 1024) demo_st demo_cursor 0x300000 = Some (r, st', c') \<and>
     page_walk user_pt_config st' 0x1000 0 = page_walk user_pt_config demo_st 0x1000 0"
  using find_next_first_mapping [OF user_pt.page_table_axioms demo_wf demo_cursor_wf, of "0x300000"]
  by (simp add: demo_cursor_def) blast

text \<open>C2: \<open>take_next\<close> unmaps exactly the first mapping.  It returns either nothing, when no address of the
  requested range is mapped (and then changes no translation), or the item or page table at the first
  mapped entry, which lies inside the requested range because larger mappings are split first; then the
  addresses of that entry translate to nothing and no other address changes.\<close>

theorem take_next_unmaps_first:
  assumes "page_table C G env" "pt_wf C G st pos root" "cursor_wf G pos c"
    "BASE_PAGE_SIZE (pconsts C) dvd len" "va c + len \<le> barrier_end c"
    "card (dom st) + 2 * (NR_LEVELS - 1) \<le> g_nodes G"
  shows "\<exists>r st' c' pos'. take_next C env st c len = Some (r, st', c') \<and> pt_wf C G st' pos' root \<and>
    cursor_wf G pos' c' \<and> same_range c c' \<and>
    (case r of
       None \<Rightarrow> va c + len \<le> va c' \<and> (\<forall>v. page_walk C st' root v = page_walk C st root v) \<and>
         (\<forall>v. va c \<le> v \<and> v < va c + len \<longrightarrow> page_walk C st root v = Some None)
     | Some f \<Rightarrow> \<exists>a l. va c \<le> a \<and> a + gsz G l = va c' \<and> va c' \<le> va c + len \<and> gsz G l dvd a \<and>
         frag_ok C G (page_walk C st root) l a r \<and>
         (\<forall>v. va c \<le> v \<and> v < a \<longrightarrow> page_walk C st root v = Some None) \<and>
         (\<forall>v. v div gW G = a div gW G \<longrightarrow> page_walk C st' root v =
            (if a \<le> v \<and> v < a + gsz G l then Some None else page_walk C st root v)))"
proof -
  have "2 ^ g_k G dvd len" using assms(4) paging.base_pow [OF page_table.axioms(1) [OF assms(1)]] by simp
  then show ?thesis using page_table.take_next_ok [OF assms(1-3) _ assms(5,6)] by blast
qed

theorem take_next_unmaps_first_witness:
  "\<exists>r st' c'. take_next user_pt_config (pool_env 1024) demo_st demo_cursor 0x1000 = Some (r, st', c')"
  using take_next_unmaps_first [OF user_pt.page_table_axioms demo_wf demo_cursor_wf _ _ demo_room, of "0x1000"]
  by (simp add: demo_cursor_def) blast

text \<open>C3: \<open>protect_next\<close> changes the property of the first mapping and nothing else.  The mapping keeps its
  physical addresses, its property becomes the image of the old one, the returned range is exactly the
  range that changed and lies inside the requested one, and every other translation is as before.\<close>

theorem protect_next_changes_property:
  assumes "page_table C G env" "pt_wf C G st pos root" "cursor_wf G pos c"
    "BASE_PAGE_SIZE (pconsts C) dvd len" "va c + len \<le> barrier_end c"
    "card (dom st) + 2 * (NR_LEVELS - 1) \<le> g_nodes G" "op_ok G op"
  shows "\<exists>r st' c' pos'. protect_next C env st c len op = Some (r, st', c') \<and> pt_wf C G st' pos' root \<and>
    cursor_wf G pos' c' \<and> same_range c c' \<and>
    (case r of
       None \<Rightarrow> va c + len \<le> va c' \<and> (\<forall>v. page_walk C st' root v = page_walk C st root v) \<and>
         (\<forall>v. va c \<le> v \<and> v < va c + len \<longrightarrow> page_walk C st root v = Some None)
     | Some (a, b) \<Rightarrow> va c \<le> a \<and> a < b \<and> b = va c' \<and> b \<le> va c + len \<and>
         (\<forall>v. va c \<le> v \<and> v < a \<longrightarrow> page_walk C st root v = Some None) \<and>
         (\<exists>pa q. (\<forall>v. a \<le> v \<and> v < b \<longrightarrow> page_walk C st root v = Some (Some (pa + (v - a), q))) \<and>
           (\<forall>v. v div gW G = a div gW G \<longrightarrow> page_walk C st' root v =
            (if a \<le> v \<and> v < b then Some (Some (pa + (v - a), op q)) else page_walk C st root v))))"
proof -
  have "2 ^ g_k G dvd len" using assms(4) paging.base_pow [OF page_table.axioms(1) [OF assms(1)]] by simp
  then show ?thesis using page_table.protect_next_ok [OF assms(1-3) _ assms(5-7)] by simp
qed

definition read_only :: "PageProperty \<Rightarrow> PageProperty" where
  "read_only q = q\<lparr>flags := flags q AND NOT PF_W\<rparr>"

lemma read_only_ok: "op_ok G0 read_only"
  by (auto simp: op_ok_def read_only_def x86_valid_prop_def prop_inv_bits bit_and_iff)

theorem protect_next_changes_property_witness:
  "\<exists>r st' c'. protect_next user_pt_config (pool_env 1024) demo_st demo_cursor 0x1000 read_only = Some (r, st', c')"
  using protect_next_changes_property [OF user_pt.page_table_axioms demo_wf demo_cursor_wf _ _ demo_room read_only_ok,
      of "0x1000"]
  by (simp add: demo_cursor_def) blast

text \<open>C25: \<open>jump\<close> reaches every page of the range.  From any position inside its range the cursor gets to any
  aligned address of the range without panicking and the path is right for that address; an address
  outside the range is refused and the cursor is not returned.\<close>

theorem jump_reaches:
  assumes "page_table C G env" "cursor_wf G pos c" "va c < barrier_end c" "PAGE_SIZE dvd v"
  shows "if barrier_start c \<le> v \<and> v < barrier_end c
    then \<exists>c'. jump C c v = Some (Inr c') \<and> cursor_wf G pos c' \<and> va c' = v \<and> same_range c c'
    else jump C c v = Some (Inl (InvalidVaddr v))"
proof (cases "barrier_start c \<le> v \<and> v < barrier_end c")
  case True
  have "cursor_core G pos c" "2 ^ g_k G dvd v"
    using assms page_table.base_page [OF assms(1)] by (simp_all add: cursor_wf_def)
  then obtain c' where "jump_loop C v c = Some c'" "cursor_core G pos c'" "va c' = v" "same_range c c'"
    using page_table.jump_loop_ok [OF assms(1) _ assms(3), of pos v] True by blast
  then show ?thesis using True assms(4) by (auto simp: jump_def rassert_def cursor_wf_def same_range_def)
next
  case False
  then show ?thesis using assms(4) by (auto simp: jump_def rassert_def)
qed

theorem jump_reaches_witness:
  "\<exists>c'. jump user_pt_config demo_cursor 0x200000 = Some (Inr c') \<and> va c' = 0x200000"
  using jump_reaches [OF user_pt.page_table_axioms demo_cursor_wf, of "0x200000"]
  by (simp add: demo_cursor_def PAGE_SIZE_def) blast

lemma demo_align:
  "usize_align_down 0x1ff000 0x1000 = Some 0x1ff000" "usize_align_down 0x200000 0x200000 = Some 0x200000"
  "usize_align_down 0x200000 0x40000000 = Some 0"
  by (simp_all add: nat_align_down_def USIZE_MAX_def usize_align_down_eq [of "0x1ff000" "0x1000" 12]
      usize_align_down_eq [of "0x200000" "0x200000" 21] usize_align_down_eq [of "0x200000" "0x40000000" 30])

text \<open>A cursor that has run to the end of its range cannot always jump back.  A cursor over the last
  page of a page table stands, after moving forward, at the end of its range; jumping back to that page,
  an aligned address inside the range, panics, because no node up to the guard level contains both
  addresses.\<close>

lemma jump_depleted_panics:
  "\<exists>c'. move_forward user_pt_config
      \<lparr>path = [Some n, None, None, None], level = 1, guard_level = 1, va = 0x1ff000,
       barrier_start = 0x1ff000, barrier_end = 0x200000\<rparr> = Some c' \<and>
    va c' = barrier_end c' \<and> jump user_pt_config c' 0x1ff000 = None"
proof -
  let ?c = "\<lparr>path = [Some n, None, None, None], level = Suc 0, guard_level = Suc 0, va = 0x1ff000,
       barrier_start = 0x1ff000, barrier_end = 0x200000\<rparr>"
  let ?d = "?c\<lparr>va := 0x200000\<rparr>"
  let ?e = "?c\<lparr>va := 0x200000, path := [None, None, None, None], level := Suc (Suc 0)\<rparr>"
  note ps = x86_page_size(1) [unfolded One_nat_def] x86_page_size(2) [unfolded numeral_2_eq_2]
    x86_page_size(3) [unfolded numeral_3_eq_3]
  have "pop_while_zero user_pt_config 0x200000 ?c = Some ?c"
    by (subst pop_while_zero.simps) (simp only: Cursor.simps less_irrefl if_False)
  then have mf: "move_forward user_pt_config ?c = Some ?d"
    using ps demo_align by (simp add: move_forward_def cur_va_range_def uadd_def USIZE_MAX_def)
  have p1: "pop_level ?d = Some ?e" by (simp add: pop_level_def usub_def rindex_def rset_def)
  have p2: "pop_level ?e = None" by (simp add: pop_level_def usub_def rindex_def)
  have "jump_loop user_pt_config 0x1ff000 ?e = None"
    unfolding jump_loop.simps [of user_pt_config "0x1ff000" ?e] p2 using ps demo_align by simp
  moreover have "jump_loop user_pt_config 0x1ff000 ?d = jump_loop user_pt_config 0x1ff000 ?e"
    unfolding jump_loop.simps [of user_pt_config "0x1ff000" ?d] p1 using ps demo_align by simp
  ultimately have "jump user_pt_config ?d 0x1ff000 = None" by (simp add: jump_def rassert_def PAGE_SIZE_def)
  then show ?thesis using mf by simp
qed

text \<open>C24: creating a cursor.  Take a nonempty aligned range that the configuration accepts and that lies in one slot of the root table, on a
  table without detached nodes and with enough memory for the missing tables.  The slot must end at or below \<open>usize::MAX\<close>: this leaves out
  the last slot of the root, at the very top of the address space, such as the range of the kernel code, where
  the end of an entry need not be a \<open>usize\<close> and the invariant of cursors does not apply.  Then \<open>new\<close> returns a cursor that stands at the start of the range and satisfies the invariant,
  and the tables it had to allocate for the subtree root change no translation.\<close>

theorem cursor_new_starts:
  assumes "page_table C G env" "pt_wf C G st pos root" "no_stray pos st" "a < b" "BASE_PAGE_SIZE (pconsts C) dvd a"
    "BASE_PAGE_SIZE (pconsts C) dvd b" "is_valid_range (pconsts C) (index_range C) (a, b) = Some True"
    "a div gW G = (b - 1) div gW G" "slot_base G NR_LEVELS (b - 1) + gsz G NR_LEVELS \<le> USIZE_MAX"
    "card (dom st) + (NR_LEVELS - 1) \<le> g_nodes G"
  shows "\<exists>c st' pos'. cursor_new C env st root (a, b) = Some (Inr (Some c), st') \<and> pt_wf C G st' pos' root \<and>
    cursor_wf G pos' c \<and> va c = a \<and> barrier_start c = a \<and> barrier_end c = b \<and>
    (\<forall>v. page_walk C st' root v = page_walk C st root v)"
proof -
  have "2 ^ g_k G dvd a" "2 ^ g_k G dvd b"
    using assms(5,6) paging.base_pow [OF page_table.axioms(1) [OF assms(1)]] by simp_all
  then show ?thesis using page_table.cursor_new_ok [OF assms(1-4) _ _ assms(7-10)] by blast
qed

lemma demo_no_stray: "no_stray demo_pos demo_st"
  by (auto simp: no_stray_def demo_pos_def demo_st_def demo_st2_def demo_st1_def demo_st0_def graft_def
      slot_set_def Let_def node_new_def split: if_splits)

theorem cursor_new_starts_witness:
  "\<exists>c st'. cursor_new user_pt_config (pool_env 1024) demo_st 0x1000 (0x1000, 0x3000) = Some (Inr (Some c), st') \<and>
     va c = 0x1000 \<and> barrier_end c = 0x3000"
proof -
  have "\<exists>c st' pos'. cursor_new user_pt_config (pool_env 1024) demo_st 0x1000 (0x1000, 0x3000) = Some (Inr (Some c), st') \<and>
    pt_wf user_pt_config G0 st' pos' 0x1000 \<and> cursor_wf G0 pos' c \<and> va c = 0x1000 \<and> barrier_start c = 0x1000 \<and>
    barrier_end c = 0x3000 \<and>
    (\<forall>v. page_walk user_pt_config st' 0x1000 v = page_walk user_pt_config demo_st 0x1000 v)"
    by (rule cursor_new_starts [OF user_pt.page_table_axioms demo_wf demo_no_stray])
      (simp_all add: is_valid_range_def x86_vaddr_range gsz_vals slot_base_def NR_LEVELS_def USIZE_MAX_def demo_dom)
  then show ?thesis by blast
qed

text \<open>Which requests for a cursor are refused.  On x86-64 a user page table refuses exactly the ranges
  that are empty or leave the lower canonical half, then those that are not page-aligned, and leaves the
  table untouched; every other range goes on to locking.\<close>

lemma cursor_new_errors:
  "cursor_new user_pt_config env st root (a, b) = (
     if \<not> (a < b \<and> b \<le> 0x800000000000) then Some (Inl (InvalidVaddrRange a b), st)
     else if \<not> (a mod 4096 = 0 \<and> b mod 4096 = 0) then Some (Inl UnalignedVaddr, st)
     else map_option (map_prod Inr id) (lock_range user_pt_config env st root (a, b)))"
  by (cases "lock_range user_pt_config env st root (a, b)")
    (auto simp: cursor_new_def is_valid_range_def x86_vaddr_range rassert_def)

lemma avail1_bit_iff: "bit PF_AVAIL1 n \<longleftrightarrow> n = 6"
proof -
  have e: "PF_AVAIL1 = 2 ^ 6" by (simp add: PF_AVAIL1_def)
  show ?thesis unfolding e bit_exp_iff by auto
qed

lemma has_avail1_bit: "has_avail1 p \<longleftrightarrow> bit (flags p) 6"
proof
  assume "has_avail1 p"
  then have "bit (flags p AND PF_AVAIL1) 6" by (simp only: has_avail1_def avail1_bit_iff)
  then show "bit (flags p) 6" by (simp add: bit_and_iff)
next
  assume "bit (flags p) 6"
  then show "has_avail1 p" unfolding has_avail1_def by (intro bit_eqI) (auto simp: bit_and_iff avail1_bit_iff)
qed

lemma avail1_set_clear: "\<not> bit w 6 \<Longrightarrow> (w OR PF_AVAIL1) AND NOT PF_AVAIL1 = w" "\<not> bit w 6 \<Longrightarrow> w AND NOT PF_AVAIL1 = w"
  by (rule bit_word_eqI; auto simp: bit_and_iff bit_or_iff bit_not_iff avail1_bit_iff)+

text \<open>What the kernel maps is what it gets back.  The raw form in which a kernel item is stored in a
  page-table entry, with the tracking mark in an available flag, decodes to exactly that item, for tracked
  frames and for untracked memory of any level.\<close>

lemma kernel_item_roundtrip:
  assumes "kernel_item_into_raw item = Some (pa, l, q)"
  shows "kernel_item_from_raw pa l q = Some item"
proof (cases item)
  case (Tracked f p)
  then have "\<not> bit (flags p) 6" "q = p\<lparr>flags := flags p OR PF_AVAIL1\<rparr>" "pa = f" "l = 1"
    using assms by (auto simp: rassert_def has_avail1_bit map_level_def bind_eq_Some_conv split: if_splits)
  then show ?thesis using Tracked
    by (simp add: kernel_item_from_raw_def has_avail1_bit bit_or_iff avail1_bit_iff rassert_def avail1_set_clear)
next
  case (Untracked f m p)
  then have "\<not> bit (flags p) 6" "q = p\<lparr>flags := flags p AND NOT PF_AVAIL1\<rparr>" "pa = f" "l = m"
    using assms by (auto simp: rassert_def has_avail1_bit bind_eq_Some_conv split: if_splits)
  then show ?thesis using Untracked by (simp add: kernel_item_from_raw_def has_avail1_bit avail1_set_clear)
qed

end
