(* ===== verification/Range_Alloc.thy ===== *)
theory Range_Alloc
  imports Allocator_Spec
begin

text \<open>
  The first-fit range allocator of \<open>src/ostd/src/util/range_alloc.rs\<close>, which hands out kernel virtual
  areas and I/O memory.  Its free list is a \<open>BTreeMap\<close> from the start of a free block to the block, made
  on first use.  The map is a list of key-value pairs in ascending key order, which is the order \<open>iter\<close>
  visits them in.  Every operation holds the spin lock of the free list from beginning to end, so it is one
  step of the model.

  The invariant is stronger than disjointness: the blocks are \<open>coalesced\<close> (no two of them touch), which is
  what makes a failing \<open>alloc\<close> mean that no sufficiently long run of free addresses exists.
\<close>

section \<open>Ordered maps\<close>

type_synonym 'v btree_map = "(usize \<times> 'v) list"

fun bt_insert :: "usize \<Rightarrow> 'v \<Rightarrow> 'v btree_map \<Rightarrow> 'v btree_map" where
  "bt_insert k v [] = [(k, v)]"
| "bt_insert k v ((j, w) # xs) =
     (if k < j then (k, v) # (j, w) # xs else if k = j then (k, v) # xs else (j, w) # bt_insert k v xs)"

definition bt_get :: "usize \<Rightarrow> 'v btree_map \<Rightarrow> 'v option" where
  "bt_get k xs = map_of xs k"

definition bt_remove :: "usize \<Rightarrow> 'v btree_map \<Rightarrow> 'v btree_map" where
  "bt_remove k xs = filter (\<lambda>(j, w). j \<noteq> k) xs"

text \<open>A write through \<open>get_mut(&k)\<close>.\<close>

definition bt_modify :: "usize \<Rightarrow> ('v \<Rightarrow> 'v) \<Rightarrow> 'v btree_map \<Rightarrow> 'v btree_map" where
  "bt_modify k f xs = map (\<lambda>(j, w). (j, if j = k then f w else w)) xs"

text \<open>\<open>upper_bound_mut(Excluded(&k)).peek_prev()\<close> and \<open>lower_bound_mut(Excluded(&k)).peek_next()\<close>.\<close>

definition bt_prev :: "usize \<Rightarrow> 'v btree_map \<Rightarrow> (usize \<times> 'v) option" where
  "bt_prev k xs = (let below = filter (\<lambda>(j, w). j < k) xs in if below = [] then None else Some (last below))"

definition bt_next :: "usize \<Rightarrow> 'v btree_map \<Rightarrow> (usize \<times> 'v) option" where
  "bt_next k xs = find (\<lambda>(j, w). k < j) xs"

text \<open>How the operations act on a map that is split at a key.\<close>

definition keys_below :: "usize \<Rightarrow> 'v btree_map \<Rightarrow> bool" where
  "keys_below k xs \<longleftrightarrow> (\<forall>p \<in> set xs. fst p < k)"

definition keys_above :: "usize \<Rightarrow> 'v btree_map \<Rightarrow> bool" where
  "keys_above k xs \<longleftrightarrow> (\<forall>p \<in> set xs. k < fst p)"

named_theorems btree

lemma bt_insert_split [btree]:
  "keys_below k L \<Longrightarrow> keys_above k R \<Longrightarrow> bt_insert k v (L @ R) = L @ (k, v) # R"
  by (induction L) (cases R; force simp: keys_below_def keys_above_def)+

lemma bt_remove_other: "keys_below k xs \<or> keys_above k xs \<Longrightarrow> bt_remove k xs = xs"
  by (induction xs) (auto simp: bt_remove_def keys_below_def keys_above_def)

lemma bt_modify_other: "keys_below k xs \<or> keys_above k xs \<Longrightarrow> bt_modify k f xs = xs"
  by (induction xs) (auto simp: bt_modify_def keys_below_def keys_above_def)

lemma bt_remove_split [btree]:
  assumes "keys_below k L" "keys_above k R"
  shows "bt_remove k (L @ (k, v) # R) = L @ R"
  using bt_remove_other [of k L] bt_remove_other [of k R] assms by (simp add: bt_remove_def)

lemma bt_modify_split [btree]:
  assumes "keys_below k L" "keys_above k R"
  shows "bt_modify k f (L @ (k, v) # R) = L @ (k, f v) # R"
  using bt_modify_other [of k L f] bt_modify_other [of k R f] assms by (simp add: bt_modify_def)

lemma bt_get_split [btree]:
  "keys_below k L \<Longrightarrow> bt_get k (L @ (k, v) # R) = Some v"
  by (induction L) (auto simp: bt_get_def keys_below_def)

lemma bt_prev_split [btree]:
  assumes "keys_below k L" "keys_above k R"
  shows "bt_prev k (L @ R) = (if L = [] then None else Some (last L))"
proof -
  have "filter (\<lambda>(j, w). j < k) L = L" using assms(1) by (induction L) (auto simp: keys_below_def)
  moreover have "filter (\<lambda>(j, w). j < k) R = []" using assms(2) by (induction R) (auto simp: keys_above_def)
  ultimately show ?thesis by (simp add: bt_prev_def)
qed

lemma bt_next_split [btree]:
  assumes "keys_below k L" "keys_above k R"
  shows "bt_next k (L @ (k, v) # R) = (if R = [] then None else Some (hd R))"
  using assms by (induction L) (cases R; auto simp: bt_next_def keys_above_def keys_below_def)+

lemma keys_simps [simp]:
  "keys_below k []" "keys_above k []"
  "keys_below k (p # xs) \<longleftrightarrow> fst p < k \<and> keys_below k xs"
  "keys_above k (p # xs) \<longleftrightarrow> k < fst p \<and> keys_above k xs"
  "keys_below k (xs @ ys) \<longleftrightarrow> keys_below k xs \<and> keys_below k ys"
  "keys_above k (xs @ ys) \<longleftrightarrow> keys_above k xs \<and> keys_above k ys"
  by (auto simp: keys_below_def keys_above_def)

section \<open>The allocator\<close>

record FreeRange =
  block :: "usize \<times> usize"

definition FreeRange_new :: "usize \<times> usize \<Rightarrow> FreeRange" where
  "FreeRange_new r = \<lparr>block = r\<rparr>"

datatype RangeAllocError = RangeAllocError

record RangeAllocator =
  fullrange :: "usize \<times> usize"
  freelist :: "FreeRange btree_map option"

definition ra_new :: "usize \<times> usize \<Rightarrow> RangeAllocator" where
  "ra_new r = \<lparr>fullrange = r, freelist = None\<rparr>"

definition get_freelist_guard :: "RangeAllocator \<Rightarrow> FreeRange btree_map" where
  "get_freelist_guard self = (case freelist self of
     None \<Rightarrow> bt_insert (fst (fullrange self)) (FreeRange_new (fullrange self)) []
   | Some fl \<Rightarrow> fl)"

definition ra_alloc_specific ::
    "RangeAllocator \<Rightarrow> usize \<times> usize \<Rightarrow> ((RangeAllocError + unit) \<times> RangeAllocator) option" where
  "ra_alloc_specific self r = do {
     rassert (fst r < snd r);
     let fl = get_freelist_guard self;
     case find (\<lambda>(k, v). snd (block v) \<ge> snd r \<and> fst (block v) \<le> fst r) fl of
       None \<Rightarrow> Some (Inl RangeAllocError, self\<lparr>freelist := Some fl\<rparr>)
     | Some (key, value) \<Rightarrow> do {
         left_length \<leftarrow> usub (fst r) (fst (block value));
         right_length \<leftarrow> usub (snd (block value)) (snd r);
         let fl1 = (if left_length = 0 then bt_remove key fl
                    else bt_modify key (\<lambda>n. n\<lparr>block := (fst (block n), fst r)\<rparr>) fl);
         fl2 \<leftarrow> (if right_length \<noteq> 0 then do {
                    e \<leftarrow> uadd (snd r) right_length;
                    Some (bt_insert (snd r) (FreeRange_new (snd r, e)) fl1)
                  } else Some fl1);
         Some (Inr (), self\<lparr>freelist := Some fl2\<rparr>)
       }
   }"

text \<open>The \<open>for\<close> loop of \<open>alloc\<close>: the first block that is large enough; its end is what is handed out.\<close>

fun alloc_scan :: "usize \<Rightarrow> FreeRange btree_map \<Rightarrow> (usize \<times> usize \<times> usize) option option" where
  "alloc_scan sz [] = Some None"
| "alloc_scan sz ((key, value) # rest) = do {
     len \<leftarrow> usub (snd (block value)) (fst (block value));
     if len \<ge> sz then do {
       s \<leftarrow> usub (snd (block value)) sz;
       Some (Some (key, s, snd (block value)))
     } else alloc_scan sz rest
   }"

definition ra_alloc ::
    "RangeAllocator \<Rightarrow> usize \<Rightarrow> ((RangeAllocError + usize \<times> usize) \<times> RangeAllocator) option" where
  "ra_alloc self sz = do {
     let fl = get_freelist_guard self;
     found \<leftarrow> alloc_scan sz fl;
     case found of
       None \<Rightarrow> Some (Inl RangeAllocError, self\<lparr>freelist := Some fl\<rparr>)
     | Some (key, allocate_range) \<Rightarrow> do {
         fl' \<leftarrow> (case bt_get key fl of
            None \<Rightarrow> Some fl
          | Some freenode \<Rightarrow> do {
              e \<leftarrow> usub (snd (block freenode)) sz;
              Some (if e = fst (block freenode) then bt_remove key fl
                    else bt_modify key (\<lambda>n. n\<lparr>block := (fst (block n), e)\<rparr>) fl)
            });
         Some (Inr allocate_range, self\<lparr>freelist := Some fl'\<rparr>)
       }
   }"

text \<open>The two steps of \<open>free\<close>: taking out the block that ends where the range starts, and merging the block
  that starts where it ends.\<close>

definition free_merge_prev :: "usize \<Rightarrow> FreeRange btree_map \<Rightarrow> usize \<times> FreeRange btree_map" where
  "free_merge_prev start fl = (case bt_prev start fl of
     Some (prev_va, prev_node) \<Rightarrow>
       if snd (block prev_node) = start then (fst (block prev_node), bt_remove prev_va fl) else (start, fl)
   | None \<Rightarrow> (start, fl))"

definition free_merge_next :: "usize \<Rightarrow> usize \<Rightarrow> FreeRange btree_map \<Rightarrow> FreeRange btree_map option" where
  "free_merge_next start end fl = (case bt_next start fl of
     Some (next_va, next_node) \<Rightarrow>
       if end = fst (block next_node) then do {
         let fl' = bt_remove next_va fl;
         _ \<leftarrow> bt_get start fl';
         Some (bt_modify start (\<lambda>n. n\<lparr>block := (fst (block n), snd (block next_node))\<rparr>) fl')
       } else Some fl
   | None \<Rightarrow> Some fl)"

definition ra_free :: "RangeAllocator \<Rightarrow> usize \<times> usize \<Rightarrow> RangeAllocator option" where
  "ra_free self r = do {
     fl \<leftarrow> freelist self;
     let (start, fl1) = free_merge_prev (fst r) fl;
     let fl2 = bt_insert start (FreeRange_new (start, snd r)) fl1;
     fl3 \<leftarrow> free_merge_next start (snd r) fl2;
     Some (self\<lparr>freelist := Some fl3\<rparr>)
   }"

section \<open>The invariant and the abstract state\<close>

abbreviation blk :: "usize \<times> FreeRange \<Rightarrow> usize \<times> usize" where
  "blk p \<equiv> block (snd p)"

definition block_ok :: "usize \<times> usize \<Rightarrow> usize \<times> FreeRange \<Rightarrow> bool" where
  "block_ok full p \<longleftrightarrow> fst p = fst (blk p) \<and> fst full \<le> fst p \<and> fst p \<le> snd (blk p) \<and> snd (blk p) \<le> snd full \<and>
     (fst p < snd (blk p) \<or> fst full = snd full)"

definition coalesced :: "FreeRange btree_map \<Rightarrow> bool" where
  "coalesced fl \<longleftrightarrow> sorted_wrt (\<lambda>p q. snd (blk p) < fst q) fl"

definition freelist_ok :: "usize \<times> usize \<Rightarrow> FreeRange btree_map \<Rightarrow> bool" where
  "freelist_ok full fl \<longleftrightarrow> (\<forall>p \<in> set fl. block_ok full p) \<and> coalesced fl"

definition free_set :: "FreeRange btree_map \<Rightarrow> usize set" where
  "free_set fl = (\<Union>p \<in> set fl. units (blk p))"

definition ra_inv :: "RangeAllocator \<Rightarrow> bool" where
  "ra_inv a \<longleftrightarrow> fst (fullrange a) \<le> snd (fullrange a) \<and> snd (fullrange a) \<le> USIZE_MAX \<and>
     freelist_ok (fullrange a) (get_freelist_guard a)"

definition ra_free_units :: "RangeAllocator \<Rightarrow> usize set" where
  "ra_free_units a = free_set (get_freelist_guard a)"

definition ra_managed :: "RangeAllocator \<Rightarrow> usize set" where
  "ra_managed a = units (fullrange a)"

lemma free_set_simps [simp]:
  "free_set [] = {}" "free_set (p # xs) = units (blk p) \<union> free_set xs"
  "free_set (xs @ ys) = free_set xs \<union> free_set ys"
  by (auto simp: free_set_def)

lemma freelist_ok_append:
  "freelist_ok full (xs @ ys) \<longleftrightarrow> freelist_ok full xs \<and> freelist_ok full ys \<and>
     (\<forall>p \<in> set xs. \<forall>q \<in> set ys. snd (blk p) < fst q)"
  by (auto simp: freelist_ok_def coalesced_def sorted_wrt_append)

lemma freelist_ok_Cons:
  "freelist_ok full (p # ys) \<longleftrightarrow> block_ok full p \<and> freelist_ok full ys \<and> (\<forall>q \<in> set ys. snd (blk p) < fst q)"
  by (auto simp: freelist_ok_def coalesced_def)

lemma freelist_ok_Nil [simp]: "freelist_ok full []"
  by (simp add: freelist_ok_def coalesced_def)

lemma freelist_okD: "freelist_ok full fl \<Longrightarrow> p \<in> set fl \<Longrightarrow> block_ok full p"
  by (simp add: freelist_ok_def)

lemma block_okD:
  "block_ok full p \<Longrightarrow> fst p = fst (blk p)" "block_ok full p \<Longrightarrow> fst p \<le> snd (blk p)"
  "block_ok full p \<Longrightarrow> fst full \<le> fst p" "block_ok full p \<Longrightarrow> snd (blk p) \<le> snd full"
  by (simp_all add: block_ok_def)

lemmas freelist_ok_simps = freelist_ok_append freelist_ok_Cons

lemma guard_after [simp]: "get_freelist_guard (a\<lparr>freelist := Some fl\<rparr>) = fl"
  by (simp add: get_freelist_guard_def)

text \<open>A well-formed list is ordered around each of its blocks and around every address that is not free.\<close>

lemma around_block:
  assumes "freelist_ok full (L @ p # R)"
  shows "keys_below (fst p) L" "keys_above (fst p) R"
    "units (blk p) \<inter> free_set L = {}" "units (blk p) \<inter> free_set R = {}"
proof -
  note ok = freelist_okD [OF assms]
  have l: "fst q \<le> snd (blk q)" "snd (blk q) < fst p" if "q \<in> set L" for q
    using assms that block_okD(2) [OF ok, of q] by (auto simp: freelist_ok_append)
  have r: "fst q = fst (blk q)" "snd (blk p) < fst q" if "q \<in> set R" for q
    using assms that block_okD(1) [OF ok, of q] by (auto simp: freelist_ok_simps)
  have p: "fst p \<le> snd (blk p)" "fst p = fst (blk p)"
    using block_okD(1,2) [OF ok, of p] by auto
  show "keys_below (fst p) L" "keys_above (fst p) R"
    using l r p by (fastforce simp: keys_below_def keys_above_def)+
  show "units (blk p) \<inter> free_set L = {}" "units (blk p) \<inter> free_set R = {}"
    using l r p by (fastforce simp: free_set_def units_def)+
qed

lemma split_at_address:
  assumes ok: "freelist_ok full fl" and a: "a \<notin> free_set fl" "fst full \<noteq> snd full"
  obtains L R where "fl = L @ R" "keys_below a L" "keys_above a R" "\<forall>q \<in> set L. snd (blk q) \<le> a"
proof
  let ?P = "\<lambda>q. fst q < a"
  have q: "fst q = fst (blk q)" "fst q < snd (blk q)" "fst q \<noteq> a" "fst q < a \<Longrightarrow> snd (blk q) \<le> a"
    if "q \<in> set fl" for q
  proof -
    have b: "block_ok full q" using ok that by (auto simp: freelist_ok_def)
    then show "fst q = fst (blk q)" "fst q < snd (blk q)" using a(2) by (auto simp: block_ok_def)
    moreover have "a \<notin> units (blk q)" using a(1) that by (auto simp: free_set_def)
    ultimately show "fst q \<noteq> a" "fst q < a \<Longrightarrow> snd (blk q) \<le> a" by (auto simp: units_def)
  qed
  have s: "sorted_wrt (\<lambda>p q. fst p < fst q) fl"
  proof (rule sorted_wrt_mono_rel [where P = "\<lambda>p q. snd (blk p) < fst q"])
    show "sorted_wrt (\<lambda>p q. snd (blk p) < fst q) fl" using ok by (simp add: freelist_ok_def coalesced_def)
    show "fst p < fst q" if "p \<in> set fl" "q \<in> set fl" "snd (blk p) < fst q" for p q
      using block_okD(2) [OF freelist_okD [OF ok that(1)]] that(3) by simp
  qed
  show "fl = takeWhile ?P fl @ dropWhile ?P fl" by simp
  show "keys_below a (takeWhile ?P fl)" by (auto simp: keys_below_def dest: set_takeWhileD)
  show "\<forall>q \<in> set (takeWhile ?P fl). snd (blk q) \<le> a" using q by (auto dest!: set_takeWhileD)
  have "\<forall>q \<in> set (dropWhile ?P fl). a \<le> fst q"
    using s
  proof (induction fl)
    case (Cons x xs)
    show ?case
    proof (cases "fst x < a")
      case False
      then have "\<forall>q \<in> set xs. a \<le> fst q" using Cons.prems by (simp, meson le_trans less_imp_le not_less)
      then show ?thesis using False by auto
    qed (use Cons in simp)
  qed simp
  then show "keys_above a (dropWhile ?P fl)"
    using q by (metis keys_above_def le_neq_implies_less set_dropWhileD)
qed

text \<open>A run of free addresses lies in one block, since blocks never touch.\<close>

lemma run_in_block:
  assumes ok: "freelist_ok full fl" and run: "{a..<a + n} \<subseteq> free_set fl" "0 < n"
  shows "\<exists>p \<in> set fl. fst (blk p) \<le> a \<and> a + n \<le> snd (blk p)"
proof -
  obtain p where p: "p \<in> set fl" "fst (blk p) \<le> a" "a < snd (blk p)"
    using run by (fastforce simp: free_set_def units_def)
  have "a + n \<le> snd (blk p)"
  proof (rule ccontr)
    assume "\<not> a + n \<le> snd (blk p)"
    then have e: "snd (blk p) \<in> free_set fl" using run(1) p by auto
    obtain L R where fl: "fl = L @ p # R" using p(1) by (metis split_list)
    have "snd (blk p) \<notin> units (blk q)" if "q \<in> set fl" for q
    proof -
      have "fst p = fst (blk p)" "fst q = fst (blk q)" using block_okD(1) [OF freelist_okD [OF ok]] that p(1) by auto
      moreover have "q = p \<or> snd (blk p) < fst q \<or> snd (blk q) < fst p"
        using ok that unfolding fl by (auto simp: freelist_ok_simps)
      ultimately show ?thesis using p by (auto simp: units_def)
    qed
    then show False using e by (auto simp: free_set_def)
  qed
  then show ?thesis using p by blast
qed

section \<open>What the operations do\<close>

lemma alloc_scan_cases:
  assumes "\<forall>p \<in> set fl. fst (blk p) \<le> snd (blk p)"
  obtains (none) "alloc_scan sz fl = Some None" "\<forall>p \<in> set fl. snd (blk p) - fst (blk p) < sz"
  | (found) L k v R where "fl = L @ (k, v) # R" "fst (block v) + sz \<le> snd (block v)"
      "alloc_scan sz fl = Some (Some (k, snd (block v) - sz, snd (block v)))"
      "\<forall>p \<in> set L. snd (blk p) - fst (blk p) < sz"
  using assms
proof (induction fl arbitrary: thesis)
  case Nil
  then show ?case by simp
next
  case (Cons p fl)
  obtain k v where p [simp]: "p = (k, v)" by (cases p)
  have u: "usub (snd (block v)) (fst (block v)) = Some (snd (block v) - fst (block v))"
    using Cons.prems(3) by (simp add: usub_def)
  show ?case
  proof (cases "sz \<le> snd (block v) - fst (block v)")
    case True
    have sc: "alloc_scan sz (p # fl) = Some (Some (k, snd (block v) - sz, snd (block v)))"
      using u True by (simp add: usub_def)
    have le: "fst (block v) + sz \<le> snd (block v)" using True Cons.prems(3) by auto
    show ?thesis using Cons.prems(2) [of "[]" k v fl] sc le by simp
  next
    case False
    then have sc: "alloc_scan sz (p # fl) = alloc_scan sz fl" using u by simp
    show ?thesis
    proof (rule Cons.IH)
      assume "alloc_scan sz fl = Some None" "\<forall>p \<in> set fl. snd (blk p) - fst (blk p) < sz"
      then show thesis using sc False by (intro Cons.prems(1)) auto
    next
      fix L j w R
      assume *: "fl = L @ (j, w) # R" "fst (block w) + sz \<le> snd (block w)"
        "alloc_scan sz fl = Some (Some (j, snd (block w) - sz, snd (block w)))"
        "\<forall>p \<in> set L. snd (blk p) - fst (blk p) < sz"
      show thesis
        by (rule Cons.prems(2) [of "p # L" j w R]) (use * sc False in auto)
    next
      show "\<forall>p \<in> set fl. fst (blk p) \<le> snd (blk p)" using Cons.prems(3) by simp
    qed
  qed
qed

lemma guard_bounds:
  assumes "ra_inv a" "p \<in> set (get_freelist_guard a)"
  shows "block_ok (fullrange a) p" "snd (blk p) \<le> USIZE_MAX"
proof -
  have "freelist_ok (fullrange a) (get_freelist_guard a)" using assms(1) by (simp add: ra_inv_def)
  then show b: "block_ok (fullrange a) p" using assms(2) by (rule freelist_okD)
  show "snd (blk p) \<le> USIZE_MAX" using block_okD(4) [OF b] assms(1) by (simp add: ra_inv_def)
qed

text \<open>Replacing one block of a well-formed list by a part of it keeps the list well-formed.\<close>

lemma shrink_ok:
  assumes ok: "freelist_ok full (L @ p # R)"
    and ps: "\<forall>q \<in> set ps. block_ok full q \<and> fst p \<le> fst q \<and> snd (blk q) \<le> snd (blk p)" and co: "coalesced ps"
  shows "freelist_ok full (L @ ps @ R)"
  using assms by (fastforce simp: freelist_ok_append freelist_ok_Cons freelist_ok_def [of _ ps] intro: less_le_trans le_less_trans)

lemma shrink_free:
  assumes "freelist_ok full (L @ p # R)" "X \<subseteq> units (blk p)" "free_set ps = units (blk p) - X"
  shows "free_set (L @ ps @ R) = free_set (L @ p # R) - X"
  using around_block(3,4) [OF assms(1)] assms(2,3) by auto

lemma ra_alloc_ok:
  assumes inv: "ra_inv a" and sz: "0 < sz"
  shows "\<exists>r a'. ra_alloc a sz = Some (r, a') \<and> ra_inv a' \<and> fullrange a' = fullrange a \<and>
    (case r of
       Inl e \<Rightarrow> ra_free_units a' = ra_free_units a \<and> (\<forall>s. \<not> {s..<s + sz} \<subseteq> ra_free_units a)
     | Inr (s, e) \<Rightarrow> e = s + sz \<and> {s..<e} \<subseteq> ra_free_units a \<and>
         ra_free_units a' = ra_free_units a - {s..<e})"
proof -
  let ?fl = "get_freelist_guard a"
  have ok: "freelist_ok (fullrange a) ?fl" using inv by (simp add: ra_inv_def)
  have le: "\<forall>p \<in> set ?fl. fst (blk p) \<le> snd (blk p)"
    using guard_bounds(1) [OF inv] by (metis block_okD(1,2))
  show ?thesis
  proof (cases rule: alloc_scan_cases [OF le, of sz, case_names none found])
    case none
    have "\<not> {s..<s + sz} \<subseteq> ra_free_units a" for s
      using run_in_block [OF ok _ sz, of s] none(2) by (fastforce simp: ra_free_units_def)
    then show ?thesis using none(1) inv ok by (simp add: ra_alloc_def ra_inv_def ra_free_units_def)
  next
    case (found L k v R)
    let ?s = "snd (block v) - sz"
    define ps where "ps = (if ?s = fst (block v) then [] else [(k, v\<lparr>block := (fst (block v), ?s)\<rparr>)])"
    have ok': "freelist_ok (fullrange a) (L @ (k, v) # R)" using ok found(1) by simp
    note ar = around_block [OF ok', simplified]
    have bo: "block_ok (fullrange a) (k, v)" using ok' by (simp add: freelist_ok_simps)
    have us: "usub (snd (block v)) sz = Some ?s" using found(2) by (simp add: usub_def)
    have "ra_alloc a sz = Some (Inr (?s, snd (block v)), a\<lparr>freelist := Some (L @ ps @ R)\<rparr>)"
      unfolding ra_alloc_def Let_def found(3)
      using ar us by (simp add: found(1) btree ps_def)
    moreover have "freelist_ok (fullrange a) (L @ ps @ R)"
      by (rule shrink_ok [OF ok']) (use bo sz found(2) in \<open>auto simp: ps_def block_ok_def coalesced_def\<close>)
    moreover have "free_set (L @ ps @ R) = free_set ?fl - {?s..<snd (block v)}"
      unfolding found(1)
      by (rule shrink_free [OF ok']) (use bo found(2) sz in \<open>auto simp: ps_def units_def block_ok_def\<close>)
    moreover have "{?s..<snd (block v)} \<subseteq> free_set ?fl"
      using bo found(2) unfolding found(1) by (auto simp: units_def block_ok_def)
    ultimately show ?thesis using inv found(2) by (auto simp: ra_inv_def ra_free_units_def)
  qed
qed

lemma ra_alloc_specific_ok:
  assumes inv: "ra_inv a" and r: "s < e"
  shows "\<exists>res a'. ra_alloc_specific a (s, e) = Some (res, a') \<and> ra_inv a' \<and> fullrange a' = fullrange a \<and>
    (case res of
       Inl er \<Rightarrow> ra_free_units a' = ra_free_units a \<and> \<not> {s..<e} \<subseteq> ra_free_units a
     | Inr u \<Rightarrow> {s..<e} \<subseteq> ra_free_units a \<and> ra_free_units a' = ra_free_units a - {s..<e})"
proof -
  let ?fl = "get_freelist_guard a"
  let ?P = "\<lambda>(k, v). snd (block v) \<ge> e \<and> fst (block v) \<le> s"
  have ok: "freelist_ok (fullrange a) ?fl" using inv by (simp add: ra_inv_def)
  show ?thesis
  proof (cases "find ?P ?fl")
    case None
    have "\<not> {s..<e} \<subseteq> ra_free_units a"
      using run_in_block [OF ok, of s "e - s"] None r by (fastforce simp: find_None_iff ra_free_units_def)
    then show ?thesis using None r inv ok
      by (simp add: ra_alloc_specific_def ra_inv_def ra_free_units_def)
  next
    case (Some kv)
    then obtain k v where kv: "kv = (k, v)" "e \<le> snd (block v)" "fst (block v) \<le> s" "(k, v) \<in> set ?fl"
      by (cases kv) (auto simp: find_Some_iff, metis nth_mem)
    obtain L R where fl: "?fl = L @ (k, v) # R" using kv(4) by (metis split_list)
    have ok': "freelist_ok (fullrange a) (L @ (k, v) # R)" using ok fl by simp
    note ar = around_block [OF ok', simplified]
    have bo: "block_ok (fullrange a) (k, v)" "snd (block v) \<le> USIZE_MAX"
      using guard_bounds [OF inv kv(4)] by simp_all
    define lp where "lp = (if s = fst (block v) then [] else [(k, v\<lparr>block := (fst (block v), s)\<rparr>)])"
    define rp where "rp = (if e = snd (block v) then [] else [(e, FreeRange_new (e, snd (block v)))])"
    have us: "usub s (fst (block v)) = Some (s - fst (block v))" "usub (snd (block v)) e = Some (snd (block v) - e)"
      "uadd e (snd (block v) - e) = Some (snd (block v))"
      using kv bo by (simp_all add: usub_def uadd_def)
    have new: "freelist_ok (fullrange a) (L @ (lp @ rp) @ R)"
      by (rule shrink_ok [OF ok']) (use bo r kv in \<open>auto simp: lp_def rp_def block_ok_def coalesced_def FreeRange_new_def\<close>)
    have ks: "keys_below e (L @ lp)" "keys_above e R"
      using ok' ar bo r kv by (auto simp: lp_def block_ok_def freelist_ok_simps keys_below_def keys_above_def)
    have l: "(if s - fst (block v) = 0 then bt_remove k ?fl
        else bt_modify k (\<lambda>n. n\<lparr>block := (fst (block n), s)\<rparr>) ?fl) = (L @ lp) @ R"
      using ar kv(3) by (simp add: fl btree lp_def)
    have ri: "(if snd (block v) - e \<noteq> 0 then do { e' \<leftarrow> uadd e (snd (block v) - e);
          Some (bt_insert e (FreeRange_new (e, e')) ((L @ lp) @ R)) } else Some ((L @ lp) @ R)) =
        Some ((L @ lp) @ rp @ R)"
      using ks kv(2) us(3) by (simp add: btree rp_def del: append_assoc)
    have "ra_alloc_specific a (s, e) = Some (Inr (), a\<lparr>freelist := Some ((L @ lp) @ rp @ R)\<rparr>)"
      by (simp only: ra_alloc_specific_def Let_def fst_conv snd_conv eqTrueI [OF r] rassert_simps Some kv(1)
        option.case prod.case us(1,2) Option.bind_lunit l ri)
    moreover have "free_set (L @ (lp @ rp) @ R) = free_set ?fl - {s..<e}"
      unfolding fl by (rule shrink_free [OF ok'])
        (use bo kv r in \<open>auto simp: lp_def rp_def units_def block_ok_def FreeRange_new_def\<close>)
    moreover have "{s..<e} \<subseteq> free_set ?fl"
      using bo kv unfolding fl by (auto simp: units_def)
    ultimately show ?thesis using inv new by (auto simp: ra_inv_def ra_free_units_def)
  qed
qed

text \<open>Releasing: the new block absorbs the neighbour that ends at its start and the one that starts at
  its end.\<close>

lemma release_merge:
  assumes ok: "freelist_ok full (L @ R)" and full: "fst full \<le> s" "s < e" "e \<le> snd full"
    and L: "\<forall>q \<in> set L. snd (blk q) < s" and R: "\<forall>q \<in> set R. e < fst q"
  shows "freelist_ok full (L @ (s, FreeRange_new (s, e)) # R)"
  using assms by (auto simp: freelist_ok_simps block_ok_def FreeRange_new_def)

lemma merge_left:
  assumes ok: "freelist_ok full (L @ R)" and full: "fst full < snd full"
    and ks: "keys_below s L" "keys_above s R" "\<forall>q \<in> set L. snd (blk q) \<le> s" "fst full \<le> s"
  obtains s' L' where
    "free_merge_prev s (L @ R) = (s', L' @ R)"
    "freelist_ok full (L' @ R)" "keys_below s' L'" "keys_above s' R" "\<forall>q \<in> set L'. snd (blk q) < s'"
    "s' \<le> s" "fst full \<le> s'" "free_set L' \<union> {s'..<s} = free_set L"
proof (cases "L \<noteq> [] \<and> snd (blk (last L)) = s")
  case True
  then obtain L' k v where L: "L = L' @ [(k, v)]" by (metis append_butlast_last_id surj_pair)
  have ok': "freelist_ok full (L' @ (k, v) # R)" using ok L by simp
  have bo: "block_ok full (k, v)" using ok' by (simp add: freelist_ok_simps)
  note ar = around_block(1,2) [OF ok', simplified]
  show thesis
  proof (rule that [of k L'])
    show "free_merge_prev s (L @ R) = (k, L' @ R)"
      using bt_prev_split [OF ks(1,2)] True bo ar by (simp add: L btree block_ok_def free_merge_prev_def)
    show "freelist_ok full (L' @ R)" "\<forall>q \<in> set L'. snd (blk q) < k" using ok' by (auto simp: freelist_ok_simps)
    show "k \<le> s" "fst full \<le> k" using bo True L by (auto simp: block_ok_def)
    show "free_set L' \<union> {k..<s} = free_set L" using bo True L by (auto simp: block_ok_def units_def)
  qed (use ar in auto)
next
  case False
  have "snd (blk q) < s" if q: "q \<in> set L" for q
  proof -
    obtain L' p where L: "L = L' @ [p]" using q by (metis append_butlast_last_id empty_iff list.set(1))
    have p: "snd (blk p) < s" using False ks(3) L by (auto simp: le_less)
    have "block_ok full p" using ok L freelist_okD by fastforce
    then show ?thesis using q p ok L by (fastforce simp: freelist_ok_simps dest: block_okD(2))
  qed
  moreover have "free_merge_prev s (L @ R) = (s, L @ R)"
    using False by (cases "last L") (auto simp: free_merge_prev_def bt_prev_split [OF ks(1,2)])
  ultimately show thesis using that [of s L] ok ks by simp
qed

lemma merge_right:
  assumes ok: "freelist_ok full (L @ R)" and full: "fst full < snd full"
    and ks: "keys_below s L" "keys_above s R" "\<forall>q \<in> set L. snd (blk q) < s" "\<forall>q \<in> set R. e \<le> fst q"
    and se: "s < e" "e \<le> snd full" "fst full \<le> s"
  obtains fl' where
    "free_merge_next s e (bt_insert s (FreeRange_new (s, e)) (L @ R)) = Some fl'"
    "freelist_ok full fl'" "free_set fl' = free_set (L @ R) \<union> {s..<e}"
proof (cases "R \<noteq> [] \<and> fst (blk (hd R)) = e")
  case True
  then obtain k v R' where R: "R = (k, v) # R'" by (metis list.collapse surj_pair)
  have bo: "block_ok full (k, v)" using ok R by (simp add: freelist_ok_simps)
  have R': "keys_above s R'" "keys_below k (L @ [(s, FreeRange_new (s, e))])" "keys_above k R'"
    using ks R around_block(1,2) [of full L "(k, v)" R'] ok bo by (auto simp: block_ok_def)
  let ?fl = "L @ (s, FreeRange_new (s, snd (block v))) # R'"
  have rm: "bt_remove k (L @ (s, FreeRange_new (s, e)) # R) = L @ (s, FreeRange_new (s, e)) # R'"
    using bt_remove_split [OF R'(2,3)] R by simp
  show thesis
  proof (rule that [of ?fl])
    show "freelist_ok full ?fl"
      by (rule release_merge) (use ok R bo se ks(3) True in \<open>auto simp: freelist_ok_simps block_ok_def\<close>)
    show "free_set ?fl = free_set (L @ R) \<union> {s..<e}"
      using R bo True se by (auto simp: units_def FreeRange_new_def block_ok_def)
  qed (use ks R True R' rm bo in \<open>simp add: btree free_merge_next_def FreeRange_new_def block_ok_def\<close>)
next
  case False
  have R: "e < fst q" if q: "q \<in> set R" for q
  proof -
    obtain p R' where R: "R = p # R'" using q by (cases R) auto
    have "block_ok full p" using ok R by (simp add: freelist_ok_simps)
    then have p: "e < fst p" "fst p \<le> snd (blk p)" using False ks(4) R by (auto simp: le_less block_ok_def)
    then show ?thesis using q ok R by (fastforce simp: freelist_ok_simps)
  qed
  let ?fl = "L @ (s, FreeRange_new (s, e)) # R"
  show thesis
  proof (rule that [of ?fl])
    show "freelist_ok full ?fl" by (rule release_merge [OF ok]) (use se ks(3) R in auto)
    show "free_set ?fl = free_set (L @ R) \<union> {s..<e}" by (auto simp: units_def FreeRange_new_def)
  qed (use ks False in \<open>cases "hd R"; auto simp: btree free_merge_next_def\<close>)
qed

lemma ra_free_ok:
  assumes inv: "ra_inv a" and r: "s < e" "{s..<e} \<subseteq> ra_managed a - ra_free_units a"
  shows "\<exists>a'. ra_free a (s, e) = Some a' \<and> ra_inv a' \<and> fullrange a' = fullrange a \<and>
    ra_free_units a' = ra_free_units a \<union> {s..<e}"
proof -
  let ?full = "fullrange a"
  have "s \<in> {s..<e}" "e - 1 \<in> {s..<e}" using r(1) by auto
  then have "s \<in> ra_managed a" "e - 1 \<in> ra_managed a" using r(2) by blast+
  then have bnd: "fst ?full \<le> s" "e \<le> snd ?full" "s < snd ?full" by (auto simp: ra_managed_def units_def)
  have "freelist a \<noteq> None"
  proof
    assume "freelist a = None"
    then have "ra_free_units a = ra_managed a"
      by (simp add: ra_free_units_def ra_managed_def get_freelist_guard_def FreeRange_new_def)
    then show False using r by auto
  qed
  then obtain fl where fl: "freelist a = Some fl" "get_freelist_guard a = fl"
    by (auto simp: get_freelist_guard_def)
  have ok: "freelist_ok ?full fl" and nf: "s \<notin> free_set fl" "{s..<e} \<inter> free_set fl = {}"
    using inv r fl by (auto simp: ra_inv_def ra_free_units_def)
  obtain L R where LR: "fl = L @ R" "keys_below s L" "keys_above s R" "\<forall>q \<in> set L. snd (blk q) \<le> s"
    using split_at_address [OF ok nf(1)] bnd by auto
  have R: "e \<le> fst q" if q: "q \<in> set R" for q
  proof -
    have "block_ok ?full q" using ok q LR(1) freelist_okD by (metis UnCI set_append)
    then have "fst q \<in> units (blk q)" using bnd by (auto simp: block_ok_def units_def)
    then have "fst q \<in> free_set fl" using q LR(1) by (auto simp: free_set_def)
    moreover have "s < fst q" using LR(3) q by (auto simp: keys_above_def)
    ultimately show ?thesis using nf(2) by (meson atLeastLessThan_iff disjoint_iff less_imp_le not_less)
  qed
  have full: "fst ?full < snd ?full" using bnd by simp
  have ok': "freelist_ok ?full (L @ R)" using ok LR(1) by simp
  obtain s' L' where l: "free_merge_prev s (L @ R) = (s', L' @ R)"
    "freelist_ok ?full (L' @ R)" "keys_below s' L'" "keys_above s' R" "\<forall>q \<in> set L'. snd (blk q) < s'"
    "s' \<le> s" "fst ?full \<le> s'" "free_set L' \<union> {s'..<s} = free_set L"
    by (rule merge_left [OF ok' full LR(2-4) bnd(1)])
  have se: "s' < e" using l(6) r(1) by simp
  obtain fl' where m: "free_merge_next s' e (bt_insert s' (FreeRange_new (s', e)) (L' @ R)) = Some fl'"
      and f: "freelist_ok ?full fl'" "free_set fl' = free_set (L' @ R) \<union> {s'..<e}"
    by (rule merge_right [OF l(2) full l(3-5) _ se bnd(2) l(7)]) (use R in auto)
  have run: "ra_free a (s, e) = Some (a\<lparr>freelist := Some fl'\<rparr>)"
    using m l(1) fl(1) LR(1) by (simp add: ra_free_def)
  have "{s'..<e} = {s'..<s} \<union> {s..<e}" using l(6) r(1) by auto
  then have "free_set fl' = free_set fl \<union> {s..<e}" using f(2) l(8) LR(1) by auto
  then show ?thesis using f(1) run inv fl by (auto simp: ra_inv_def ra_free_units_def)
qed

section \<open>The allocator contract\<close>

text \<open>\<open>alloc\<close> in the form of the contract: its error carries no information.\<close>

definition ra_alloc_n :: "RangeAllocator \<Rightarrow> nat \<Rightarrow> ((nat \<times> nat) option \<times> RangeAllocator) option" where
  "ra_alloc_n a n = map_option (map_prod (case_sum Map.empty Some) id) (ra_alloc a n)"

lemma ra_alloc_n_iff:
  "ra_alloc_n a n = Some (Some r, a') \<longleftrightarrow> ra_alloc a n = Some (Inr r, a')"
  "ra_alloc_n a n = Some (None, a') \<longleftrightarrow> ra_alloc a n = Some (Inl RangeAllocError, a')"
  by (cases "ra_alloc a n"; simp add: ra_alloc_n_def map_prod_def split_beta prod_eq_iff
      split: sum.splits; metis RangeAllocError.exhaust Inl_Inr_False obj_sumE sum.sel)+

interpretation ra: range_allocator ra_inv ra_managed ra_free_units ra_alloc_n ra_free
proof
  fix a n s e a'
  note [simp] = ra_alloc_n_def ra_managed_def
  show "ra_free_units a \<subseteq> ra_managed a" if inv: "ra_inv a"
  proof
    fix x assume "x \<in> ra_free_units a"
    then obtain p where p: "p \<in> set (get_freelist_guard a)" "x \<in> units (blk p)"
      by (auto simp: ra_free_units_def free_set_def)
    then show "x \<in> ra_managed a" using block_okD [OF guard_bounds(1) [OF inv p(1)]] by (auto simp: units_def)
  qed
  assume a: "ra_inv a"
  show "\<exists>r a'. ra_alloc_n a n = Some (r, a') \<and> ra_inv a' \<and> ra_managed a' = ra_managed a" if "0 < n"
    using ra_alloc_ok [OF a that] by auto
  show "e = s + n \<and> {s..<e} \<subseteq> ra_free_units a \<and> ra_free_units a' = ra_free_units a - {s..<e}"
    if n: "0 < n" "ra_alloc_n a n = Some (Some (s, e), a')"
  proof -
    have "ra_alloc a n = Some (Inr (s, e), a')" using n(2) by (simp only: ra_alloc_n_iff)
    then show ?thesis using ra_alloc_ok [OF a n(1)] by (elim exE) auto
  qed
  show "ra_free_units a' = ra_free_units a \<and> (\<forall>s. \<not> {s..<s + n} \<subseteq> ra_free_units a)"
    if n: "0 < n" "ra_alloc_n a n = Some (None, a')"
  proof -
    have "ra_alloc a n = Some (Inl RangeAllocError, a')" using n(2) by (simp only: ra_alloc_n_iff)
    then show ?thesis using ra_alloc_ok [OF a n(1)] by simp
  qed
  show "\<exists>a'. ra_free a (s, e) = Some a' \<and> ra_inv a' \<and> ra_managed a' = ra_managed a \<and>
      ra_free_units a' = ra_free_units a \<union> {s..<e}" if "s < e" "{s..<e} \<subseteq> ra_managed a - ra_free_units a"
    using ra_free_ok [OF a that] by auto
qed

lemma ra_new_inv:
  assumes "lo \<le> hi" "hi \<le> USIZE_MAX"
  shows "ra_inv (ra_new (lo, hi))" "ra_free_units (ra_new (lo, hi)) = {lo..<hi}"
  using assms by (auto simp: ra_inv_def ra_new_def get_freelist_guard_def FreeRange_new_def freelist_ok_simps
    block_ok_def ra_free_units_def units_def)

section \<open>Reachable states\<close>

text \<open>Requests to the allocator; a client releases only what is allocated.\<close>

datatype ra_op = RaAlloc usize | RaAllocSpecific usize usize | RaFree usize usize

fun ra_step :: "RangeAllocator \<Rightarrow> ra_op \<Rightarrow> RangeAllocator option" where
  "ra_step a (RaAlloc n) = map_option snd (ra_alloc a n)"
| "ra_step a (RaAllocSpecific s e) = map_option snd (ra_alloc_specific a (s, e))"
| "ra_step a (RaFree s e) = ra_free a (s, e)"

fun ra_allowed :: "RangeAllocator \<Rightarrow> ra_op \<Rightarrow> bool" where
  "ra_allowed a (RaAlloc n) = (0 < n)"
| "ra_allowed a (RaAllocSpecific s e) = (s < e)"
| "ra_allowed a (RaFree s e) = (s < e \<and> {s..<e} \<subseteq> ra_managed a - ra_free_units a)"

inductive ra_reaches :: "RangeAllocator \<Rightarrow> RangeAllocator \<Rightarrow> bool" for a0 where
  start: "ra_reaches a0 a0"
| step: "ra_reaches a0 a \<Longrightarrow> ra_allowed a op \<Longrightarrow> ra_step a op = Some a' \<Longrightarrow> ra_reaches a0 a'"

lemma ra_step_ok:
  assumes "ra_inv a" "ra_allowed a op"
  shows "\<exists>a'. ra_step a op = Some a' \<and> ra_inv a' \<and> fullrange a' = fullrange a"
proof (cases op)
  case (RaAlloc n)
  then show ?thesis using ra_alloc_ok [OF assms(1), of n] assms(2) by auto
next
  case (RaAllocSpecific s e)
  then show ?thesis using ra_alloc_specific_ok [OF assms(1), of s e] assms(2) by auto
next
  case (RaFree s e)
  then show ?thesis using ra_free_ok [OF assms(1), of s e] assms(2) by auto
qed

lemma ra_reaches_inv:
  assumes "ra_reaches (ra_new (lo, hi)) a" "lo \<le> hi" "hi \<le> USIZE_MAX"
  shows "ra_inv a \<and> fullrange a = (lo, hi)"
  using assms(1)
proof (induction rule: ra_reaches.induct)
  case start
  then show ?case using ra_new_inv(1) [OF assms(2,3)] by (simp add: ra_new_def)
next
  case (step a op a')
  then show ?case using ra_step_ok [of a op] by auto
qed

text \<open>C31: the range allocator neither loses nor fragments addresses.  From every state that valid requests
  reach, \<open>alloc\<close> of a positive size returns; it fails exactly when no run of that many free addresses exists
  and then changes nothing, and otherwise hands out a free run of that size and removes exactly it; giving
  the run back restores the free set.\<close>

theorem range_alloc_complete:
  assumes "ra_reaches (ra_new (lo, hi)) a" "lo \<le> hi" "hi \<le> USIZE_MAX" "0 < n" "n \<le> USIZE_MAX"
  shows "\<exists>r a'. ra_alloc a n = Some (r, a') \<and>
    (case r of
       Inl err \<Rightarrow> ra_free_units a' = ra_free_units a \<and> (\<forall>s. \<not> {s..<s + n} \<subseteq> ra_free_units a)
     | Inr (s, e) \<Rightarrow> e = s + n \<and> {s..<e} \<subseteq> ra_free_units a \<and> ra_free_units a \<subseteq> {lo..<hi} \<and>
         ra_free_units a' = ra_free_units a - {s..<e} \<and>
         (\<exists>a''. ra_free a' (s, e) = Some a'' \<and> ra_free_units a'' = ra_free_units a))"
proof -
  have inv: "ra_inv a" and full: "fullrange a = (lo, hi)" using ra_reaches_inv [OF assms(1-3)] by auto
  obtain r a' where r: "ra_alloc a n = Some (r, a')" using ra_alloc_ok [OF inv assms(4)] by blast
  show ?thesis
  proof (cases r)
    case (Inl err)
    then show ?thesis using ra_alloc_ok [OF inv assms(4)] r by simp
  next
    case (Inr se)
    then have "ra_alloc_n a n = Some (Some se, a')" using r by (simp add: ra_alloc_n_def)
    note rel = ra.alloc_release [OF inv assms(4,5) this]
    have "ra_free_units a \<subseteq> {lo..<hi}" using ra.free_managed [OF inv] full by (simp add: ra_managed_def units_def)
    then show ?thesis using ra_alloc_ok [OF inv assms(4)] r Inr rel by (cases se) auto
  qed
qed

lemma demo_ra_steps:
  defines "full \<equiv> (100::nat, 200::nat)"
  shows "ra_step (ra_new full) (RaAllocSpecific 120 150) =
      Some \<lparr>fullrange = full, freelist = Some [(100, \<lparr>block = (100, 120)\<rparr>), (150, \<lparr>block = (150, 200)\<rparr>)]\<rparr>"
    "ra_step \<lparr>fullrange = full, freelist = Some [(100, \<lparr>block = (100, 120)\<rparr>), (150, \<lparr>block = (150, 200)\<rparr>)]\<rparr> (RaAlloc 10) =
      Some \<lparr>fullrange = full, freelist = Some [(100, \<lparr>block = (100, 110)\<rparr>), (150, \<lparr>block = (150, 200)\<rparr>)]\<rparr>"
    "ra_step \<lparr>fullrange = full, freelist = Some [(100, \<lparr>block = (100, 110)\<rparr>), (150, \<lparr>block = (150, 200)\<rparr>)]\<rparr> (RaFree 140 150) =
      Some \<lparr>fullrange = full, freelist = Some [(100, \<lparr>block = (100, 110)\<rparr>), (140, \<lparr>block = (140, 200)\<rparr>)]\<rparr>"
  by (simp_all add: full_def ra_new_def ra_alloc_specific_def ra_alloc_def ra_free_def get_freelist_guard_def
    FreeRange_new_def free_merge_prev_def free_merge_next_def bt_prev_def bt_next_def bt_remove_def bt_get_def
    bt_modify_def usub_def uadd_def USIZE_MAX_def)

abbreviation demo_ra :: RangeAllocator where
  "demo_ra \<equiv> \<lparr>fullrange = (100, 200), freelist = Some [(100, \<lparr>block = (100, 110)\<rparr>), (140, \<lparr>block = (140, 200)\<rparr>)]\<rparr>"

lemma demo_ra_reached: "ra_reaches (ra_new (100, 200)) demo_ra"
proof -
  note s = demo_ra_steps
  note one = ra_reaches.step [OF ra_reaches.start _ s(1)]
  note two = ra_reaches.step [OF one _ s(2)]
  show ?thesis
    by (rule ra_reaches.step [OF two _ s(3)])
      (auto simp: ra_managed_def ra_free_units_def get_freelist_guard_def units_def)
qed

theorem range_alloc_complete_witness:
  "ra_alloc demo_ra 60 \<noteq> None \<and> \<not> {120..<180} \<subseteq> ra_free_units demo_ra \<and>
   (\<exists>a'. ra_alloc demo_ra 60 = Some (Inr (140, 200), a') \<and> ra_free_units a' = ra_free_units demo_ra - {140..<200})"
proof -
  have run: "ra_alloc demo_ra 60 =
      Some (Inr (140, 200), \<lparr>fullrange = (100, 200), freelist = Some [(100, \<lparr>block = (100, 110)\<rparr>)]\<rparr>)"
    by (simp add: ra_alloc_def get_freelist_guard_def bt_remove_def bt_get_def usub_def)
  have "\<not> {120..<180} \<subseteq> ra_free_units demo_ra"
    by (auto simp: ra_free_units_def get_freelist_guard_def units_def subset_iff intro: exI [of _ 130])
  then show ?thesis
    using range_alloc_complete [OF demo_ra_reached, of 60] run by (auto simp: USIZE_MAX_def)
qed

end
