(* ===== verification/Io_Alloc.thy ===== *)
theory Io_Alloc
  imports Range_Alloc Id_Alloc Memory_Region
begin

text \<open>
  The allocators of device I/O: \<open>src/ostd/src/io/io_mem/allocator.rs\<close> gives drivers memory-mapped ranges out
  of range allocators, one per region that holds no physical memory, \<open>src/ostd/src/arch/x86/io.rs\<close> computes
  those regions from the memory map of the boot loader, and \<open>src/ostd/src/io/io_port/allocator.rs\<close> gives out
  I/O ports from an id allocator.  The theory composes three components: the memory map, the range
  allocator and the id allocator.
\<close>

section \<open>Memory-mapped I/O\<close>

record IoMemAllocator =
  allocators :: "RangeAllocator list"

text \<open>\<open>find_allocator\<close> answers with the index of the allocator instead of a reference to it.\<close>

definition find_allocator :: "RangeAllocator list \<Rightarrow> usize \<times> usize \<Rightarrow> usize option" where
  "find_allocator as r = position (\<lambda>a. \<not> (fst (fullrange a) \<ge> snd r \<or> snd (fullrange a) \<le> fst r)) as"

definition builder_new :: "(usize \<times> usize) list \<Rightarrow> IoMemAllocator" where
  "builder_new ranges = \<lparr>allocators = map ra_new ranges\<rparr>"

definition builder_remove :: "IoMemAllocator \<Rightarrow> usize \<times> usize \<Rightarrow> IoMemAllocator option" where
  "builder_remove self r = do {
     i \<leftarrow> find_allocator (allocators self) r;
     a \<leftarrow> rindex (allocators self) i;
     (res, a') \<leftarrow> ra_alloc_specific a r;
     case res of Inl err \<Rightarrow> None | Inr u \<Rightarrow> Some (self\<lparr>allocators := (allocators self)[i := a']\<rparr>)
   }"

text \<open>\<open>acquire\<close>, up to the call of \<open>IoMem::new\<close>: the range it is called with.\<close>

definition io_mem_acquire ::
    "IoMemAllocator \<Rightarrow> usize \<times> usize \<Rightarrow> ((usize \<times> usize) option \<times> IoMemAllocator) option" where
  "io_mem_acquire self r = (case find_allocator (allocators self) r of
     None \<Rightarrow> Some (None, self)
   | Some i \<Rightarrow> do {
       a \<leftarrow> rindex (allocators self) i;
       (res, a') \<leftarrow> ra_alloc_specific a r;
       Some (case res of Inl err \<Rightarrow> None | Inr u \<Rightarrow> Some r, self\<lparr>allocators := (allocators self)[i := a']\<rparr>)
     })"

definition io_mem_recycle :: "IoMemAllocator \<Rightarrow> usize \<times> usize \<Rightarrow> IoMemAllocator option" where
  "io_mem_recycle self r = do {
     i \<leftarrow> find_allocator (allocators self) r;
     a \<leftarrow> rindex (allocators self) i;
     a' \<leftarrow> ra_free a r;
     Some (self\<lparr>allocators := (allocators self)[i := a']\<rparr>)
   }"

subsection \<open>The regions without physical memory\<close>

definition LOW_MMIO_TOP :: usize where "LOW_MMIO_TOP = 0x100000000"
definition LOW_MMIO_ALIGN :: usize where "LOW_MMIO_ALIGN = 0x10000000"
definition HIGH_MMIO_TOP :: usize where "HIGH_MMIO_TOP = 0x800000000000"
definition HIGH_MMIO_ALIGN :: usize where "HIGH_MMIO_ALIGN = 0x100000000"
definition U32_MAX :: nat where "U32_MAX = 0xFFFFFFFF"

definition keeps_memory :: "MemoryRegion \<Rightarrow> bool" where
  "keeps_memory r \<longleftrightarrow> reg_typ r \<noteq> Unknown \<and> reg_typ r \<noteq> Reserved \<and> reg_typ r \<noteq> Framebuffer"

text \<open>\<open>max_by\<close> on the base address; of several maxima it returns the last.\<close>

fun max_by_base :: "MemoryRegion list \<Rightarrow> MemoryRegion option" where
  "max_by_base [] = None"
| "max_by_base (r # rs) = (case max_by_base rs of
     None \<Rightarrow> Some r | Some q \<Rightarrow> if reg_base r > reg_base q then Some r else Some q)"

definition construct_io_mem_allocator_builder :: "MemoryRegion list \<Rightarrow> IoMemAllocator option" where
  "construct_io_mem_allocator_builder rs = do {
     let kept = filter keeps_memory rs;
     low \<leftarrow> max_by_base (filter (\<lambda>r. reg_base r < U32_MAX) kept);
     low_end \<leftarrow> uadd (reg_base low) (reg_len low);
     low_start \<leftarrow> usize_align_up low_end LOW_MMIO_ALIGN;
     rassert (low_start < LOW_MMIO_TOP);
     let (base, len) = (case max_by_base (filter (\<lambda>r. reg_base r \<ge> U32_MAX) kept) of
          Some r \<Rightarrow> (reg_base r, reg_len r) | None \<Rightarrow> (HIGH_MMIO_ALIGN, 0));
     high_end \<leftarrow> uadd base len;
     high_start \<leftarrow> usize_align_up high_end HIGH_MMIO_ALIGN;
     rassert (high_start < HIGH_MMIO_TOP);
     Some (builder_new [(low_start, LOW_MMIO_TOP), (high_start, HIGH_MMIO_TOP)])
   }"

section \<open>I/O ports\<close>

text \<open>\<open>Iterator::any\<close> on \<open>&mut Range\<close>: it takes elements off the range until one satisfies the predicate.\<close>

function range_any :: "(usize \<Rightarrow> bool option) \<Rightarrow> usize \<times> usize \<Rightarrow> (bool \<times> (usize \<times> usize)) option" where
  "range_any f (s, e) = (
     if s < e then do { b \<leftarrow> f s; if b then Some (True, (s + 1, e)) else range_any f (s + 1, e) }
     else Some (False, (s, e)))"
  by pat_completeness auto
termination by (relation "measure (\<lambda>(f, (s, e)). e - s)") auto

declare range_any.simps [simp del]

fun alloc_each :: "('b, 's) bitvec_ops \<Rightarrow> 'b IdAlloc \<Rightarrow> usize list \<Rightarrow> 'b IdAlloc option" where
  "alloc_each B self [] = Some self"
| "alloc_each B self (i # is) = do { (r, self') \<leftarrow> alloc_specific B self i; alloc_each B self' is }"

definition u16add :: "nat \<Rightarrow> nat \<Rightarrow> nat option" where
  "u16add a b = (if a + b < 65536 then Some (a + b) else None)"

text \<open>\<open>IoPortAllocator::acquire::<T, A>(port)\<close>, with the size of \<open>T\<close> as an argument; the result is the port
  that \<open>IoPort::new\<close> is called with.\<close>

definition io_port_acquire ::
    "('b, 's) bitvec_ops \<Rightarrow> 'b IdAlloc \<Rightarrow> nat \<Rightarrow> nat \<Rightarrow> (nat option \<times> 'b IdAlloc) option" where
  "io_port_acquire B self port size_of_T = do {
     e \<leftarrow> u16add port size_of_T;
     (found, range) \<leftarrow> range_any (is_allocated B self) (port, e);
     if found then Some (None, self)
     else do {
       self' \<leftarrow> alloc_each B self [fst range..<snd range];
       Some (Some port, self')
     }
   }"

definition io_port_recycle :: "('b, 's) bitvec_ops \<Rightarrow> 'b IdAlloc \<Rightarrow> nat \<times> nat \<Rightarrow> 'b IdAlloc option" where
  "io_port_recycle B self r = free_consecutive B self r"

text \<open>\<open>Drop\<close> of an \<open>IoPort<T, A>\<close>.\<close>

definition io_port_drop :: "('b, 's) bitvec_ops \<Rightarrow> 'b IdAlloc \<Rightarrow> nat \<Rightarrow> nat \<Rightarrow> 'b IdAlloc option" where
  "io_port_drop B self port size_of_T = do { e \<leftarrow> u16add port size_of_T; io_port_recycle B self (port, e) }"

definition MAX_IO_PORT :: nat where "MAX_IO_PORT = 65535"

text \<open>\<open>init\<close>: the ranges of the section \<open>.sensitive_io_ports\<close> are taken out.\<close>

fun remove_sensitive :: "('b, 's) bitvec_ops \<Rightarrow> 'b IdAlloc \<Rightarrow> (nat \<times> nat) list \<Rightarrow> 'b IdAlloc option" where
  "remove_sensitive B self [] = Some self"
| "remove_sensitive B self (r # rs) = do {
     rassert (fst r < snd r);
     self' \<leftarrow> alloc_each B self [fst r..<snd r];
     remove_sensitive B self' rs
   }"

definition io_port_init :: "('b, 's) bitvec_ops \<Rightarrow> (nat \<times> nat) list \<Rightarrow> 'b IdAlloc option" where
  "io_port_init B ranges = do {
     a \<leftarrow> with_capacity B MAX_IO_PORT;
     remove_sensitive B a ranges
   }"

section \<open>Who owns which range\<close>

text \<open>The state of the system: the allocators and the set of ranges that were handed out or withdrawn.\<close>

definition owned_by :: "RangeAllocator list \<Rightarrow> (usize \<times> usize) set \<Rightarrow> usize \<Rightarrow> usize set" where
  "owned_by as G i = (\<Union>r \<in> {r \<in> G. find_allocator as r = Some i}. units r)"

definition io_inv :: "IoMemAllocator \<Rightarrow> (usize \<times> usize) set \<Rightarrow> bool" where
  "io_inv m G \<longleftrightarrow>
     (\<forall>a \<in> set (allocators m). ra_inv a) \<and>
     (\<forall>i < length (allocators m). ra_free_units (allocators m ! i) =
        ra_managed (allocators m ! i) - owned_by (allocators m) G i) \<and>
     (\<forall>r \<in> G. fst r < snd r \<and> (\<exists>i < length (allocators m). find_allocator (allocators m) r = Some i \<and>
        units r \<subseteq> ra_managed (allocators m ! i))) \<and>
     (\<forall>r \<in> G. \<forall>q \<in> G. r \<noteq> q \<longrightarrow> units r \<inter> units q = {})"

inductive io_run :: "IoMemAllocator \<Rightarrow> IoMemAllocator \<Rightarrow> (usize \<times> usize) set \<Rightarrow> bool" for m0 where
  start: "io_run m0 m0 {}"
| withdraw: "io_run m0 m G \<Longrightarrow> builder_remove m r = Some m' \<Longrightarrow> io_run m0 m' (insert r G)"
| granted: "io_run m0 m G \<Longrightarrow> io_mem_acquire m r = Some (Some q, m') \<Longrightarrow> io_run m0 m' (insert q G)"
| refused: "io_run m0 m G \<Longrightarrow> io_mem_acquire m r = Some (None, m') \<Longrightarrow> io_run m0 m' G"
| recycled: "io_run m0 m G \<Longrightarrow> r \<in> G \<Longrightarrow> io_mem_recycle m r = Some m' \<Longrightarrow> io_run m0 m' (G - {r})"

lemma position_map: "position P (map f xs) = position (\<lambda>x. P (f x)) xs"
  by (induction xs) auto

lemma find_allocator_update [simp]:
  assumes "fullrange a' = fullrange (as ! i)"
  shows "find_allocator (as[i := a']) r = find_allocator as r"
proof -
  have "map fullrange (as[i := a']) = map fullrange as" using assms by (metis list_update_id map_update)
  then show ?thesis
    unfolding find_allocator_def by (metis (no_types) position_map [where f = fullrange and
      P = "\<lambda>f. \<not> (fst f \<ge> snd r \<or> snd f \<le> fst r)"])
qed

lemma owned_by_update [simp]:
  "fullrange a' = fullrange (as ! i) \<Longrightarrow> owned_by (as[i := a']) G j = owned_by as G j"
  by (simp add: owned_by_def)

lemma find_allocator_SomeD:
  assumes "find_allocator as r = Some i"
  shows "i < length as" "j < i \<Longrightarrow> units r \<inter> ra_managed (as ! j) = {}"
  using assms by (auto simp: find_allocator_def position_Some ra_managed_def units_def)

text \<open>Ranges that belong to different allocators never overlap, even when the regions of the allocators
  do: the search stops at the first allocator that a range touches.\<close>

lemma owners_disjoint:
  assumes "find_allocator as r = Some i" "units r \<subseteq> ra_managed (as ! i)"
    "find_allocator as q = Some j" "units q \<subseteq> ra_managed (as ! j)" "i \<noteq> j"
  shows "units r \<inter> units q = {}"
proof (cases "i < j")
  case True
  then show ?thesis using find_allocator_SomeD(2) [OF assms(3), of i] assms(2) by blast
next
  case False
  then show ?thesis using find_allocator_SomeD(2) [OF assms(1), of j] assms(4,5) by fastforce
qed

lemma units_nonempty: "fst r < snd r \<Longrightarrow> units r \<noteq> {}"
  by (auto simp: units_def)

lemma ra_managed_cong: "fullrange a = fullrange b \<Longrightarrow> ra_managed a = ra_managed b"
  by (simp add: ra_managed_def)

lemma io_invD:
  assumes "io_inv m G"
  shows "i < length (allocators m) \<Longrightarrow> ra_inv (allocators m ! i)"
    "i < length (allocators m) \<Longrightarrow> ra_free_units (allocators m ! i) = ra_managed (allocators m ! i) - owned_by (allocators m) G i"
    "r \<in> G \<Longrightarrow> fst r < snd r"
    "r \<in> G \<Longrightarrow> find_allocator (allocators m) r = Some i \<Longrightarrow> units r \<subseteq> ra_managed (allocators m ! i)"
    "r \<in> G \<Longrightarrow> \<exists>i. find_allocator (allocators m) r = Some i"
    "r \<in> G \<Longrightarrow> q \<in> G \<Longrightarrow> r \<noteq> q \<Longrightarrow> units r \<inter> units q = {}"
  using assms unfolding io_inv_def by (simp, simp, blast, fastforce, blast, blast)

text \<open>What is free in the allocator a range belongs to is what no granted range overlaps.\<close>

lemma free_iff_unowned:
  assumes inv: "io_inv m G" and i: "find_allocator (allocators m) r = Some i"
  shows "units r \<subseteq> ra_free_units (allocators m ! i) \<longleftrightarrow>
    units r \<subseteq> ra_managed (allocators m ! i) \<and> (\<forall>q \<in> G. units r \<inter> units q = {})"
proof -
  note il = find_allocator_SomeD(1) [OF i]
  have "units r \<inter> units q = {}" if q: "units r \<subseteq> ra_managed (allocators m ! i)" "q \<in> G"
      "units r \<inter> owned_by (allocators m) G i = {}" for q
  proof -
    obtain j where j: "find_allocator (allocators m) q = Some j" using io_invD(5) [OF inv q(2)] by blast
    show ?thesis
    proof (cases "j = i")
      case True
      then show ?thesis using q j by (auto simp: owned_by_def)
    next
      case False
      then show ?thesis using owners_disjoint [OF i q(1) j io_invD(4) [OF inv q(2) j]] by simp
    qed
  qed
  moreover have "units r \<inter> owned_by (allocators m) G i = {}" if "\<forall>q \<in> G. units r \<inter> units q = {}"
    using that by (auto simp: owned_by_def)
  ultimately show ?thesis using io_invD(2) [OF inv il] by blast
qed

lemma io_inv_update:
  assumes inv: "io_inv m G" and i: "i < length (allocators m)"
    and a': "ra_inv a'" "fullrange a' = fullrange (allocators m ! i)"
      "ra_free_units a' = ra_managed (allocators m ! i) - owned_by (allocators m) G' i"
    and other: "\<And>j. j \<noteq> i \<Longrightarrow> owned_by (allocators m) G' j = owned_by (allocators m) G j"
    and G': "\<And>r. r \<in> G' \<Longrightarrow> fst r < snd r \<and>
        (\<exists>j. find_allocator (allocators m) r = Some j \<and> units r \<subseteq> ra_managed (allocators m ! j))"
      "\<And>r q. r \<in> G' \<Longrightarrow> q \<in> G' \<Longrightarrow> r \<noteq> q \<Longrightarrow> units r \<inter> units q = {}"
  shows "io_inv (m\<lparr>allocators := (allocators m)[i := a']\<rparr>) G'"
proof -
  let ?as = "allocators m" and ?bs = "(allocators m)[i := a']"
  have mg: "ra_managed (?bs ! j) = ra_managed (?as ! j)" if "j < length ?as" for j
    using ra_managed_cong [OF a'(2)] that by (cases "j = i") simp_all
  have "\<forall>a \<in> set ?bs. ra_inv a"
    using inv a'(1) set_update_subset_insert by (fastforce simp: io_inv_def)
  moreover have "ra_free_units (?bs ! j) = ra_managed (?bs ! j) - owned_by ?bs G' j" if "j < length ?as" for j
    using io_invD(2) [OF inv that] other [of j] that mg [OF that] a'(2,3) by (cases "j = i") simp_all
  moreover have "fst r < snd r \<and> (\<exists>j < length ?bs. find_allocator ?bs r = Some j \<and> units r \<subseteq> ra_managed (?bs ! j))"
    if "r \<in> G'" for r
    using G'(1) [OF that] mg a'(2) by (fastforce dest: find_allocator_SomeD(1))
  ultimately show ?thesis unfolding io_inv_def using G'(2) by simp
qed

lemma io_inv_take:
  assumes inv: "io_inv m G" and i: "find_allocator (allocators m) r = Some i" and r: "fst r < snd r"
    and a': "ra_inv a'" "fullrange a' = fullrange (allocators m ! i)"
      "ra_free_units a' = ra_free_units (allocators m ! i) - units r"
      "units r \<subseteq> ra_free_units (allocators m ! i)"
  shows "io_inv (m\<lparr>allocators := (allocators m)[i := a']\<rparr>) (insert r G)"
proof (rule io_inv_update [OF inv find_allocator_SomeD(1) [OF i] a'(1,2)])
  let ?as = "allocators m"
  have un: "units r \<subseteq> ra_managed (?as ! i)" "\<forall>q \<in> G. units r \<inter> units q = {}"
    using free_iff_unowned [OF inv i] a'(4) by auto
  have ow: "owned_by ?as (insert r G) j = (if j = i then units r else {}) \<union> owned_by ?as G j" for j
    using i by (auto simp: owned_by_def)
  show "ra_free_units a' = ra_managed (?as ! i) - owned_by ?as (insert r G) i"
    using a'(3) io_invD(2) [OF inv find_allocator_SomeD(1) [OF i]] by (auto simp: ow)
  show "owned_by ?as (insert r G) j = owned_by ?as G j" if "j \<noteq> i" for j using that by (simp add: ow)
  show "fst q < snd q \<and> (\<exists>j. find_allocator ?as q = Some j \<and> units q \<subseteq> ra_managed (?as ! j))"
    if "q \<in> insert r G" for q
    using that i un(1) r io_invD(3,4,5) [OF inv] by blast
  show "units p \<inter> units q = {}" if "p \<in> insert r G" "q \<in> insert r G" "p \<noteq> q" for p q
    using that un(2) io_invD(6) [OF inv] by blast
qed

lemma io_inv_give:
  assumes inv: "io_inv m G" and i: "find_allocator (allocators m) r = Some i" and r: "r \<in> G"
    and a': "ra_inv a'" "fullrange a' = fullrange (allocators m ! i)"
      "ra_free_units a' = ra_free_units (allocators m ! i) \<union> units r"
  shows "io_inv (m\<lparr>allocators := (allocators m)[i := a']\<rparr>) (G - {r})"
proof (rule io_inv_update [OF inv find_allocator_SomeD(1) [OF i] a'(1,2)])
  let ?as = "allocators m"
  have un: "\<forall>q \<in> G - {r}. units r \<inter> units q = {}" using io_invD(6) [OF inv r] by blast
  have ow: "owned_by ?as G j = (if j = i then units r else {}) \<union> owned_by ?as (G - {r}) j" for j
    using i r by (auto simp: owned_by_def)
  have dis: "units r \<inter> owned_by ?as (G - {r}) i = {}" using un by (auto simp: owned_by_def)
  show "ra_free_units a' = ra_managed (?as ! i) - owned_by ?as (G - {r}) i"
    using a'(3) io_invD(2) [OF inv find_allocator_SomeD(1) [OF i]] ow [of i] dis io_invD(4) [OF inv r i] by auto
  show "owned_by ?as (G - {r}) j = owned_by ?as G j" if "j \<noteq> i" for j using that by (simp add: ow)
  show "fst q < snd q \<and> (\<exists>j. find_allocator ?as q = Some j \<and> units q \<subseteq> ra_managed (?as ! j))"
    if "q \<in> G - {r}" for q
    using that io_invD(3,4,5) [OF inv] by blast
  show "units p \<inter> units q = {}" if "p \<in> G - {r}" "q \<in> G - {r}" "p \<noteq> q" for p q
    using that io_invD(6) [OF inv] by blast
qed

text \<open>What \<open>alloc_specific\<close> on the allocator of a range does to the system.\<close>

lemma io_take_cases:
  assumes inv: "io_inv m G" and i: "find_allocator (allocators m) r = Some i"
  obtains (panic) "\<not> fst r < snd r" "ra_alloc_specific (allocators m ! i) r = None"
  | (taken) a' where "ra_alloc_specific (allocators m ! i) r = Some (Inr (), a')" "fst r < snd r"
      "io_inv (m\<lparr>allocators := (allocators m)[i := a']\<rparr>) (insert r G)"
      "units r \<subseteq> ra_managed (allocators m ! i)" "\<forall>q \<in> G. units r \<inter> units q = {}"
      "map fullrange ((allocators m)[i := a']) = map fullrange (allocators m)"
  | (busy) a' err where "ra_alloc_specific (allocators m ! i) r = Some (Inl err, a')" "fst r < snd r"
      "io_inv (m\<lparr>allocators := (allocators m)[i := a']\<rparr>) G"
      "\<not> (units r \<subseteq> ra_managed (allocators m ! i) \<and> (\<forall>q \<in> G. units r \<inter> units q = {}))"
      "map fullrange ((allocators m)[i := a']) = map fullrange (allocators m)"
proof (cases "fst r < snd r")
  case False
  then show thesis using panic by (simp add: ra_alloc_specific_def)
next
  case True
  let ?a = "allocators m ! i"
  note il = find_allocator_SomeD(1) [OF i]
  obtain res a' where ra: "ra_alloc_specific ?a r = Some (res, a')" "ra_inv a'" "fullrange a' = fullrange ?a"
    "(case res of
       Inl er \<Rightarrow> ra_free_units a' = ra_free_units ?a \<and> \<not> units r \<subseteq> ra_free_units ?a
     | Inr u \<Rightarrow> units r \<subseteq> ra_free_units ?a \<and> ra_free_units a' = ra_free_units ?a - units r)"
    using ra_alloc_specific_ok [OF io_invD(1) [OF inv il], of "fst r" "snd r"] True
    unfolding units_def prod.collapse by blast
  have mp: "map fullrange ((allocators m)[i := a']) = map fullrange (allocators m)"
    using ra(3) by (metis list_update_id map_update)
  show thesis
  proof (cases res)
    case (Inr u)
    then have f: "units r \<subseteq> ra_free_units ?a" "ra_free_units a' = ra_free_units ?a - units r" using ra(4) by auto
    show thesis
      using taken [OF _ True io_inv_take [OF inv i True ra(2,3) f(2,1)] _ _ mp] ra(1) Inr f(1)
        free_iff_unowned [OF inv i] by simp
  next
    case (Inl err)
    then have f: "ra_free_units a' = ra_free_units ?a" "\<not> units r \<subseteq> ra_free_units ?a" using ra(4) by auto
    have "io_inv (m\<lparr>allocators := (allocators m)[i := a']\<rparr>) G"
    proof (rule io_inv_update [OF inv il ra(2,3)])
      show "fst q < snd q \<and> (\<exists>j. find_allocator (allocators m) q = Some j \<and> units q \<subseteq> ra_managed (allocators m ! j))"
        if "q \<in> G" for q
        using io_invD(3,4,5) [OF inv that] by blast
    qed (use f(1) io_invD(2) [OF inv il] io_invD(6) [OF inv] in simp_all)
    then show thesis using busy [OF _ True _ _ mp] ra(1) Inl f(2) free_iff_unowned [OF inv i] by simp
  qed
qed

lemma rindex_found: "find_allocator as r = Some i \<Longrightarrow> rindex as i = Some (as ! i)"
  using find_allocator_SomeD(1) by (simp add: rindex_def)

lemma io_mem_acquire_ok:
  assumes inv: "io_inv m G" and run: "io_mem_acquire m r = Some (res, m')"
  shows "io_inv m' (case res of None \<Rightarrow> G | Some q \<Rightarrow> insert q G) \<and>
    map fullrange (allocators m') = map fullrange (allocators m)"
proof (cases "find_allocator (allocators m) r")
  case None
  then show ?thesis using run inv by (auto simp: io_mem_acquire_def)
next
  case (Some i)
  show ?thesis
    by (cases rule: io_take_cases [OF inv Some])
      (use run in \<open>auto simp: io_mem_acquire_def Some rindex_found [OF Some]\<close>)
qed

lemma builder_remove_ok:
  assumes inv: "io_inv m G" and run: "builder_remove m r = Some m'"
  shows "io_inv m' (insert r G) \<and> map fullrange (allocators m') = map fullrange (allocators m)"
proof -
  obtain i where i: "find_allocator (allocators m) r = Some i"
    using run by (auto simp: builder_remove_def bind_eq_Some_conv)
  show ?thesis
    by (cases rule: io_take_cases [OF inv i])
      (use run in \<open>auto simp: builder_remove_def i rindex_found [OF i]\<close>)
qed

lemma io_mem_recycle_ok:
  assumes inv: "io_inv m G" and r: "r \<in> G"
  shows "\<exists>m'. io_mem_recycle m r = Some m' \<and> io_inv m' (G - {r}) \<and>
    map fullrange (allocators m') = map fullrange (allocators m)"
proof -
  obtain i where i: "find_allocator (allocators m) r = Some i" using io_invD(5) [OF inv r] by blast
  let ?a = "allocators m ! i"
  note il = find_allocator_SomeD(1) [OF i]
  have "units r \<subseteq> owned_by (allocators m) G i" using r i by (auto simp: owned_by_def)
  then have "{fst r..<snd r} \<subseteq> ra_managed ?a - ra_free_units ?a"
    using io_invD(2) [OF inv il] io_invD(4) [OF inv r i] by (auto simp: units_def)
  then obtain a' where a': "ra_free ?a r = Some a'" "ra_inv a'" "fullrange a' = fullrange ?a"
      "ra_free_units a' = ra_free_units ?a \<union> units r"
    using ra_free_ok [OF io_invD(1) [OF inv il] io_invD(3) [OF inv r]] unfolding units_def prod.collapse by blast
  have "map fullrange ((allocators m)[i := a']) = map fullrange (allocators m)"
    using a'(3) by (metis list_update_id map_update)
  then show ?thesis using io_inv_give [OF inv i r a'(2-4)] a'(1)
    by (simp add: io_mem_recycle_def i rindex_found [OF i])
qed

lemma io_run_inv:
  assumes "io_run m0 m G" "io_inv m0 {}"
  shows "io_inv m G \<and> map fullrange (allocators m) = map fullrange (allocators m0)"
  using assms
proof (induction rule: io_run.induct)
  case start
  then show ?case by simp
next
  case (withdraw m G r m')
  then show ?case using builder_remove_ok by metis
next
  case (granted m G r q m')
  then show ?case using io_mem_acquire_ok [of m G r "Some q" m'] by simp
next
  case (refused m G r m')
  then show ?case using io_mem_acquire_ok [of m G r None m'] by simp
next
  case (recycled m G r m')
  then show ?case using io_mem_recycle_ok [of m G r] by auto
qed

lemma builder_new_inv:
  assumes "\<forall>r \<in> set ranges. fst r \<le> snd r \<and> snd r \<le> USIZE_MAX"
  shows "io_inv (builder_new ranges) {}"
proof -
  have "ra_inv (ra_new r) \<and> ra_free_units (ra_new r) = ra_managed (ra_new r)" if "r \<in> set ranges" for r
    using ra_new_inv [of "fst r" "snd r"] assms that by (simp add: ra_managed_def ra_new_def units_def)
  then show ?thesis by (auto simp: io_inv_def builder_new_def owned_by_def)
qed

lemma io_mem_acquire_iff:
  assumes inv: "io_inv m G" and r: "fst r < snd r"
  shows "\<exists>res m'. io_mem_acquire m r = Some (res, m') \<and> res \<in> {None, Some r} \<and>
    (res = Some r \<longleftrightarrow> (\<exists>i. find_allocator (allocators m) r = Some i \<and> units r \<subseteq> ra_managed (allocators m ! i)) \<and>
       (\<forall>q \<in> G. units r \<inter> units q = {}))"
proof (cases "find_allocator (allocators m) r")
  case None
  then show ?thesis by (simp add: io_mem_acquire_def)
next
  case (Some i)
  show ?thesis
    by (cases rule: io_take_cases [OF inv Some])
      (use r in \<open>auto simp: io_mem_acquire_def Some rindex_found [OF Some]\<close>)
qed

section \<open>The memory map and the MMIO regions\<close>

lemma chain_mono:
  assumes "chain a rs b" "q \<in> set rs" "p \<in> set rs" "reg_base q \<le> reg_base p"
  shows "region_end q \<le> region_end p"
  using assms
proof (induction rs arbitrary: a)
  case (Cons r rs)
  have "region_end r \<le> reg_base s" if "s \<in> set rs" for s
    using Cons.prems(1) chain_bounds [of "region_end r" rs b s] that by simp
  then show ?case using Cons by (fastforce simp: region_end_def)
qed simp

lemma max_by_base_None_iff [simp]: "max_by_base rs = None \<longleftrightarrow> rs = []"
  by (cases rs) (auto split: option.splits)

lemma max_by_base_Some:
  "max_by_base rs = Some p \<Longrightarrow> p \<in> set rs \<and> (\<forall>q \<in> set rs. reg_base q \<le> reg_base p)"
  by (induction rs arbitrary: p) (auto split: option.splits if_splits)

lemma chain_covers: "chain a rs b \<Longrightarrow> a \<le> x \<Longrightarrow> x < b \<Longrightarrow> \<exists>r \<in> set rs. covers r x"
proof (induction rs arbitrary: a)
  case (Cons r rs)
  show ?case
  proof (cases "x < region_end r")
    case True
    then show ?thesis using Cons.prems by (auto simp: covers_def)
  next
    case False
    then show ?thesis using Cons.IH [of "region_end r"] Cons.prems by auto
  qed
qed simp

lemma usize_align_up_ge: "0 < k \<Longrightarrow> k < 64 \<Longrightarrow> usize_align_up x (2 ^ k) = Some y \<Longrightarrow> x \<le> y"
proof -
  assume k: "0 < k" "k < 64" and y: "usize_align_up x (2 ^ k) = Some y"
  have "x \<le> USIZE_MAX" using y by (auto simp: usize_align_up_def split: if_splits)
  then show ?thesis using usize_align_up_eq [OF _ refl k, of x] y nat_align_up_ge [of "2 ^ k" x]
    by (auto split: if_splits)
qed

lemma mmio_regions_free:
  assumes chain: "chain 0 rs b" and pa: "\<forall>r \<in> set rs. page_aligned r"
    and run: "construct_io_mem_allocator_builder rs = Some m"
  obtains lo hi where "m = builder_new [(lo, LOW_MMIO_TOP), (hi, HIGH_MMIO_TOP)]" "lo \<le> LOW_MMIO_TOP" "hi \<le> HIGH_MMIO_TOP"
    "\<forall>r \<in> set rs. keeps_memory r \<longrightarrow> (\<forall>x. covers r x \<longrightarrow> x \<notin> {lo..<LOW_MMIO_TOP} \<union> {hi..<HIGH_MMIO_TOP})"
proof -
  let ?kept = "filter keeps_memory rs"
  obtain low lo where low: "max_by_base (filter (\<lambda>r. reg_base r < U32_MAX) ?kept) = Some low"
      "usize_align_up (region_end low) LOW_MMIO_ALIGN = Some lo" "lo < LOW_MMIO_TOP"
    using run by (auto simp: construct_io_mem_allocator_builder_def bind_eq_Some_conv checked region_end_def)
  obtain base len hi where hi: "(case max_by_base (filter (\<lambda>r. reg_base r \<ge> U32_MAX) ?kept) of
          Some r \<Rightarrow> (reg_base r, reg_len r) | None \<Rightarrow> (HIGH_MMIO_ALIGN, 0)) = (base, len)"
      "usize_align_up (base + len) HIGH_MMIO_ALIGN = Some hi" "hi < HIGH_MMIO_TOP"
      "m = builder_new [(lo, LOW_MMIO_TOP), (hi, HIGH_MMIO_TOP)]"
    using run low by (auto simp: construct_io_mem_allocator_builder_def bind_eq_Some_conv checked region_end_def
        split: prod.splits option.splits)
  have lo_ge: "region_end low \<le> lo" and hi_ge: "base + len \<le> hi"
    using usize_align_up_ge [of 28] low(2) usize_align_up_ge [of 32] hi(2)
    by (simp_all add: LOW_MMIO_ALIGN_def HIGH_MMIO_ALIGN_def)
  have low_end: "region_end r \<le> lo" if "r \<in> set rs" "keeps_memory r" "reg_base r < U32_MAX" for r
    using chain_mono [OF chain, of r low] max_by_base_Some [OF low(1)] that lo_ge by fastforce
  have high_base: "LOW_MMIO_TOP \<le> reg_base r" if "r \<in> set rs" "\<not> reg_base r < U32_MAX" for r
    using pa that by (auto simp: page_aligned_def PAGE_SIZE_def LOW_MMIO_TOP_def U32_MAX_def dvd_def)
  have high_end: "region_end r \<le> hi" if "r \<in> set rs" "keeps_memory r" "\<not> reg_base r < U32_MAX" for r
  proof -
    have "max_by_base (filter (\<lambda>r. reg_base r \<ge> U32_MAX) ?kept) \<noteq> None" using that by (auto simp: filter_empty_conv)
    then obtain p where p: "max_by_base (filter (\<lambda>r. reg_base r \<ge> U32_MAX) ?kept) = Some p" by blast
    then have "region_end p \<le> hi" using hi(1) hi_ge by (simp add: region_end_def)
    then show ?thesis using chain_mono [OF chain, of r p] max_by_base_Some [OF p] that by fastforce
  qed
  have top: "LOW_MMIO_TOP \<le> hi"
  proof (cases "max_by_base (filter (\<lambda>r. reg_base r \<ge> U32_MAX) ?kept)")
    case None
    then show ?thesis using hi(1) hi_ge by (simp add: HIGH_MMIO_ALIGN_def LOW_MMIO_TOP_def)
  next
    case (Some p)
    then show ?thesis using max_by_base_Some [OF Some] high_base [of p] hi(1) hi_ge by auto
  qed
  show thesis
  proof (rule that [OF hi(4)], goal_cases)
    case 3
    have "x \<notin> {lo..<LOW_MMIO_TOP} \<union> {hi..<HIGH_MMIO_TOP}"
      if r: "r \<in> set rs" "keeps_memory r" "covers r x" for r x
    proof (cases "reg_base r < U32_MAX")
      case True
      then show ?thesis using low_end [OF r(1,2)] r(3) low(3) top by (auto simp: covers_def)
    next
      case False
      then show ?thesis using high_end [OF r(1,2)] high_base [OF r(1)] r(3) by (auto simp: covers_def)
    qed
    then show ?case by blast
  qed (use low(3) hi(3) in simp_all)
qed

section \<open>Properties\<close>

text \<open>C32: memory-mapped I/O is exclusive.  Whatever sequence of withdrawals, grants, refusals and recycled
  ranges led here, the ranges that are out are pairwise disjoint and each lies in one of the regions the
  system started with, even when those regions overlap; a further request for a nonempty range returns,
  and is granted exactly when the first region it touches contains it and no range that is out overlaps it.\<close>

theorem io_mem_exclusive:
  assumes run: "io_run (builder_new ranges) m G"
    and ranges: "\<forall>r \<in> set ranges. fst r \<le> snd r \<and> snd r \<le> USIZE_MAX" and r: "fst r < snd r"
  shows "(\<forall>p \<in> G. \<forall>q \<in> G. p = q \<or> units p \<inter> units q = {}) \<and>
    (\<forall>p \<in> G. \<exists>q \<in> set ranges. units p \<subseteq> units q) \<and>
    (\<exists>res m'. io_mem_acquire m r = Some (res, m') \<and> res \<in> {None, Some r} \<and>
      (res = Some r \<longleftrightarrow> (\<exists>i. find_allocator (allocators m) r = Some i \<and> units r \<subseteq> units (ranges ! i)) \<and>
         (\<forall>q \<in> G. units r \<inter> units q = {})))"
proof -
  have inv: "io_inv m G" and full: "map fullrange (allocators m) = ranges"
    using io_run_inv [OF run builder_new_inv [OF ranges]] by (auto simp: builder_new_def ra_new_def comp_def)
  have mg: "ra_managed (allocators m ! i) = units (ranges ! i)" "ranges ! i \<in> set ranges"
    if "find_allocator (allocators m) q = Some i" for q i
    using find_allocator_SomeD(1) [OF that] unfolding full [symmetric] by (auto simp: ra_managed_def)
  have reg: "\<exists>q \<in> set ranges. units p \<subseteq> units q" if "p \<in> G" for p
    using io_invD(4,5) [OF inv that] mg by metis
  have eq: "(\<exists>i. find_allocator (allocators m) r = Some i \<and> units r \<subseteq> units (ranges ! i)) \<longleftrightarrow>
      (\<exists>i. find_allocator (allocators m) r = Some i \<and> units r \<subseteq> ra_managed (allocators m ! i))"
    using mg(1) [of r] by auto
  show ?thesis unfolding eq using reg io_invD(6) [OF inv] io_mem_acquire_iff [OF inv r] by blast
qed

lemma demo_io_run:
  "io_run (builder_new [(100, 200), (150, 300)]) \<lparr>allocators =
      [\<lparr>fullrange = (100, 200), freelist = Some [(100, \<lparr>block = (100, 120)\<rparr>), (130, \<lparr>block = (130, 200)\<rparr>)]\<rparr>,
       ra_new (150, 300)]\<rparr> {(120, 130)}"
proof -
  have "io_mem_acquire (builder_new [(100, 200), (150, 300)]) (120, 130) = Some (Some (120, 130),
     \<lparr>allocators = [\<lparr>fullrange = (100, 200), freelist = Some [(100, \<lparr>block = (100, 120)\<rparr>), (130, \<lparr>block = (130, 200)\<rparr>)]\<rparr>,
       ra_new (150, 300)]\<rparr>)"
    by (simp add: io_mem_acquire_def builder_new_def find_allocator_def ra_new_def rindex_def ra_alloc_specific_def
      get_freelist_guard_def FreeRange_new_def bt_modify_def usub_def uadd_def USIZE_MAX_def)
  then show ?thesis by (rule io_run.granted [OF io_run.start])
qed

theorem io_mem_exclusive_witness:
  "\<exists>m. io_run (builder_new [(100, 200), (150, 300)]) m {(120, 130)} \<and>
     (\<exists>m'. io_mem_acquire m (125, 140) = Some (None, m')) \<and>
     (\<exists>m'. io_mem_acquire m (130, 140) = Some (Some (130, 140), m'))"
proof -
  let ?m = "\<lparr>allocators = [\<lparr>fullrange = (100, 200), freelist = Some [(100, \<lparr>block = (100, 120)\<rparr>), (130, \<lparr>block = (130, 200)\<rparr>)]\<rparr>,
       ra_new (150, 300)]\<rparr>"
  note ex = io_mem_exclusive [OF demo_io_run]
  have f: "find_allocator (allocators ?m) (125, 140) = Some 0" "find_allocator (allocators ?m) (130, 140) = Some 0"
    by (simp_all add: find_allocator_def)
  have "\<exists>m'. io_mem_acquire ?m (125, 140) = Some (None, m')"
    using ex [of "(125, 140)"] by (auto simp: units_def USIZE_MAX_def)
  moreover have "\<exists>m'. io_mem_acquire ?m (130, 140) = Some (Some (130, 140), m')"
    using ex [of "(130, 140)"] f by (auto simp: units_def USIZE_MAX_def)
  ultimately show ?thesis using demo_io_run by blast
qed

text \<open>C33: drivers never get physical memory.  From the regions the boot loader reports, through the memory
  map \<open>into_non_overlapping\<close> makes of them and the two MMIO regions computed from it, every address of every
  range that is ever granted or withdrawn is covered only by reserved or framebuffer regions, or by none.\<close>

theorem mmio_never_ram:
  assumes "count a \<le> length (regions a)" "length (regions a) < USIZE_MAX"
    "\<forall>r \<in> set (active a). region_wf r \<and> alignable r"
    "card (region_boundaries (aligned_regions a)) \<le> length (regions a)"
    and into: "into_non_overlapping a = Some res"
    and build: "construct_io_mem_allocator_builder (active res) = Some m0"
    and run: "io_run m0 m G" and q: "q \<in> G" "addr \<in> units q"
  shows "selected_type (aligned_regions a) addr \<in> {Unknown, Reserved, Framebuffer}"
proof -
  let ?rs = "aligned_regions a"
  let ?m = "if ?rs = [] then 0 else Max (region_end ` set ?rs)"
  have mo: "map_ok ?rs 0 (active res) ?m" using into_non_overlapping_ok [OF assms(1-4)] into by auto
  then have chain: "chain 0 (active res) ?m" and pa: "\<forall>r \<in> set (active res). page_aligned r"
    and ty: "typed_by ?rs (active res)" by (auto simp: map_ok_def)
  obtain lo hi where m0: "m0 = builder_new [(lo, LOW_MMIO_TOP), (hi, HIGH_MMIO_TOP)]" "lo \<le> LOW_MMIO_TOP" "hi \<le> HIGH_MMIO_TOP"
    and free: "\<forall>r \<in> set (active res). keeps_memory r \<longrightarrow> (\<forall>x. covers r x \<longrightarrow>
      x \<notin> {lo..<LOW_MMIO_TOP} \<union> {hi..<HIGH_MMIO_TOP})"
    by (rule mmio_regions_free [OF chain pa build])
  have inv: "io_inv m G" and full: "map fullrange (allocators m) = [(lo, LOW_MMIO_TOP), (hi, HIGH_MMIO_TOP)]"
    using io_run_inv [OF run] builder_new_inv [of "[(lo, LOW_MMIO_TOP), (hi, HIGH_MMIO_TOP)]"] m0
    by (auto simp: builder_new_def ra_new_def LOW_MMIO_TOP_def HIGH_MMIO_TOP_def USIZE_MAX_def)
  obtain i where i: "find_allocator (allocators m) q = Some i" "units q \<subseteq> ra_managed (allocators m ! i)"
    using io_invD(4,5) [OF inv q(1)] by blast
  have "fullrange (allocators m ! i) \<in> set (map fullrange (allocators m))"
    using find_allocator_SomeD(1) [OF i(1)] by simp
  then have addr: "addr \<in> {lo..<LOW_MMIO_TOP} \<union> {hi..<HIGH_MMIO_TOP}"
    using i(2) q(2) unfolding full by (auto simp: ra_managed_def units_def)
  show ?thesis
  proof (cases "addr < ?m")
    case True
    then obtain r where r: "r \<in> set (active res)" "covers r addr" using chain_covers [OF chain] by blast
    then have "\<not> keeps_memory r" using free addr by blast
    then show ?thesis using ty r by (auto simp: typed_by_def keeps_memory_def)
  next
    case False
    have "\<not> covers r addr" if r: "r \<in> set ?rs" for r
    proof -
      have "region_end r \<le> Max (region_end ` set ?rs)" using r by simp
      moreover have "?rs \<noteq> []" using r by auto
      ultimately show ?thesis using False by (simp add: covers_def)
    qed
    then show ?thesis by (simp add: selected_type_def)
  qed
qed

text \<open>A machine with two gigabytes of memory.\<close>

abbreviation demo_ram :: MemoryRegion where
  "demo_ram \<equiv> region 0 0x80000000 Usable"

abbreviation demo_boot :: MemoryRegionArray where
  "demo_boot \<equiv> \<lparr>regions = [demo_ram], count = 1\<rparr>"

lemma demo_ram_simps:
  "reg_base demo_ram = 0" "reg_len demo_ram = 0x80000000" "reg_typ demo_ram = Usable" "region_end demo_ram = 0x80000000"
  "reg_end demo_ram = Some 0x80000000"
  by (simp_all add: region_def region_end_def reg_end_def uadd_def USIZE_MAX_def)

lemma demo_boot_ok: "region_wf demo_ram" "alignable demo_ram" "aligned_regions demo_boot = [demo_ram]" "active demo_boot = [demo_ram]"
proof -
  have "aligned_region demo_ram = demo_ram"
    by (simp add: aligned_region_def demo_ram_simps nat_align_up_def nat_align_down_def PAGE_SIZE_def)
  then show "aligned_regions demo_boot = [demo_ram]" by (simp add: aligned_regions_def active_def demo_ram_simps)
qed (simp_all add: region_wf_def alignable_def demo_ram_simps USIZE_MAX_def PAGE_SIZE_def active_def)

lemma demo_boot_result: "into_non_overlapping demo_boot = Some demo_boot"
proof -
  have a: "as_aligned demo_ram = Some demo_ram"
    using as_aligned_eq [of demo_ram] demo_boot_ok
    by (simp add: aligned_regions_def active_def split: if_splits)
  have loop: "align_loop [demo_ram] 0 1 0 = Some ([demo_ram], 1)"
    by (simp add: align_loop.simps [of "[demo_ram]" 0 "Suc 0" 0] align_loop.simps [of "[demo_ram]" "Suc 0" "Suc 0" "Suc 0"]
        rindex_def rset_def a reg_is_empty_def demo_ram_simps)
  have e: "max_region_end [demo_ram] = Some (Some 0x80000000)"
    "most_restrictive_type [demo_ram] 0 = Some (Some Usable)" "next_region_boundary [demo_ram] 0 = Some (Some 0x80000000)"
    by (simp_all add: with_ends_def max_region_end_def most_restrictive_type_def next_region_boundary_def list_max_def
      list_min_def demo_ram_simps)
  have sw: "sweep_loop [demo_ram] 0x80000000 0 (array_new 1) = Some demo_boot"
    by (simp add: sweep_loop.simps [of "[demo_ram]" "0x80000000" 0] sweep_loop.simps [of "[demo_ram]" "0x80000000" "0x80000000"]
        e array_new_def array_push_def rset_def uadd_def usub_def USIZE_MAX_def)
  have "merge_loop [demo_ram] 1 1 1 = Some ([demo_ram], 1)" by (simp add: merge_loop.simps)
  then show ?thesis using loop e(1) sw by (simp add: into_non_overlapping_def array_deref_def)
qed

lemma demo_mmio:
  "construct_io_mem_allocator_builder [demo_ram] = Some (builder_new [(0x80000000, LOW_MMIO_TOP), (0x100000000, HIGH_MMIO_TOP)])"
proof -
  have "usize_align_up 0x80000000 (2 ^ 28) = Some 0x80000000" "usize_align_up 0x100000000 (2 ^ 32) = Some 0x100000000"
    by (subst usize_align_up_eq [OF _ refl]; simp add: USIZE_MAX_def nat_align_up_def)+
  then show ?thesis
    by (simp add: construct_io_mem_allocator_builder_def keeps_memory_def demo_ram_simps uadd_def USIZE_MAX_def
      U32_MAX_def LOW_MMIO_TOP_def LOW_MMIO_ALIGN_def HIGH_MMIO_TOP_def HIGH_MMIO_ALIGN_def)
qed

theorem mmio_never_ram_witness:
  "\<exists>m. io_run (builder_new [(0x80000000, LOW_MMIO_TOP), (0x100000000, HIGH_MMIO_TOP)]) m {(0xFEC00000, 0xFEC01000)} \<and>
     selected_type (aligned_regions demo_boot) 0xFEC00123 \<in> {Unknown, Reserved, Framebuffer}"
proof -
  let ?m0 = "builder_new [(0x80000000, LOW_MMIO_TOP), (0x100000000, HIGH_MMIO_TOP)]"
  obtain m where m: "io_run ?m0 m {(0xFEC00000, 0xFEC01000)}"
  proof -
    have "\<exists>m. io_mem_acquire ?m0 (0xFEC00000, 0xFEC01000) = Some (Some (0xFEC00000, 0xFEC01000), m)"
      by (simp add: io_mem_acquire_def builder_new_def find_allocator_def ra_new_def rindex_def ra_alloc_specific_def
        get_freelist_guard_def FreeRange_new_def bt_modify_def usub_def uadd_def USIZE_MAX_def LOW_MMIO_TOP_def)
    then show thesis using that io_run.granted [OF io_run.start] by blast
  qed
  have "card (region_boundaries [demo_ram]) \<le> 1"
    by (simp add: region_boundaries_def demo_ram_simps)
  then have "selected_type (aligned_regions demo_boot) 0xFEC00123 \<in> {Unknown, Reserved, Framebuffer}"
    using demo_boot_ok demo_boot_result demo_mmio m
    by (intro mmio_never_ram [of demo_boot demo_boot ?m0 m "{(0xFEC00000, 0xFEC01000)}" "(0xFEC00000, 0xFEC01000)"])
      (simp_all add: USIZE_MAX_def units_def)
  then show ?thesis using m by blast
qed

lemma range_any_False:
  assumes "range_any f (s, e) = Some (False, r)" "s \<le> e"
  shows "r = (e, e) \<and> (\<forall>i. s \<le> i \<and> i < e \<longrightarrow> f i = Some False)"
  using assms
proof (induction "e - s" arbitrary: s)
  case 0
  then show ?case by (auto simp: range_any.simps [of f s s])
next
  case (Suc n)
  then have lt: "s < e" by simp
  then have f: "f s = Some False" "range_any f (s + 1, e) = Some (False, r)"
    using Suc.prems by (auto simp: range_any.simps [of f s e] bind_eq_Some_conv split: if_splits)
  have "r = (e, e) \<and> (\<forall>i. s + 1 \<le> i \<and> i < e \<longrightarrow> f i = Some False)"
    by (rule Suc.hyps(1) [of "s + 1"]) (use Suc.hyps(2) lt f(2) in auto)
  moreover have "i = s \<or> s + 1 \<le> i" if "s \<le> i" for i using that by linarith
  ultimately show ?case using f(1) by metis
qed

text \<open>Acquiring an I/O port reserves nothing.  Checking the ports with \<open>any\<close> uses up the range, so the loop
  that should mark them runs over the empty rest: whenever \<open>acquire\<close> succeeds the allocator is unchanged, the
  same port is granted again, and dropping the first grant panics because the ports are not marked.\<close>

lemma io_port_acquire_reserves_nothing:
  assumes "io_port_acquire B self port sz = Some (Some p, self')" "0 < sz"
  shows "self' = self \<and> p = port \<and> io_port_acquire B self' port sz = Some (Some port, self') \<and>
    io_port_drop B self' port sz = None"
proof -
  obtain e r where e: "u16add port sz = Some e" "range_any (is_allocated B self) (port, e) = Some (False, r)"
      "alloc_each B self [fst r..<snd r] = Some self'" "p = port"
    using assms(1) by (auto simp: io_port_acquire_def bind_eq_Some_conv split: if_splits)
  have pe: "e = port + sz" using e(1) by (simp add: u16add_def split: if_splits)
  have r: "r = (e, e)" "is_allocated B self port = Some False"
    using range_any_False [OF e(2)] pe assms(2) by auto
  then have same: "self' = self" using e(3) by simp
  have "clear_each B self [port..<e] = None"
    using r(2) pe assms(2) upt_conv_Cons [of port e] by simp
  then have "io_port_drop B self port sz = None"
    using e(1) pe assms(2) by (simp add: io_port_drop_def io_port_recycle_def free_consecutive_def)
  then show ?thesis using same assms(1) e(4) by simp
qed

end
