(* ===== verification/Rw_Lock.thy ===== *)
theory Rw_Lock
  imports Rust_Prelude "HOL-Library.Multiset"
begin

text \<open>
  The spinning read-write lock of \<open>src/ostd/src/sync/rwlock.rs\<close>.  Its state is one atomic word: the low bits
  count readers, the four top bits are \<open>WRITER\<close>, \<open>UPGRADEABLE_READER\<close>, \<open>BEING_UPGRADED\<close> and \<open>MAX_READER\<close>.
  Each definition of the first section is one atomic operation of the code on that word.  The methods
  consist of one or two of them, with everything in between open to interference, so the system is a
  step relation over the word, the protected value and the multiset of activities in flight: guards that
  are held and calls that are between two atomic operations.
\<close>

section \<open>The atomic operations\<close>

type_synonym lock_word = "64 word"

definition READER :: lock_word where "READER = 1"
definition WRITER :: lock_word where "WRITER = push_bit 63 1"
definition UPGRADEABLE_READER :: lock_word where "UPGRADEABLE_READER = push_bit 62 1"
definition BEING_UPGRADED :: lock_word where "BEING_UPGRADED = push_bit 61 1"
definition MAX_READER :: lock_word where "MAX_READER = push_bit 60 1"

text \<open>\<open>try_read\<close>: \<open>fetch_add\<close> and the test of the old value; a refused reader takes its count back.\<close>

definition try_read_enter :: "lock_word \<Rightarrow> bool \<times> lock_word" where
  "try_read_enter w = (w AND (WRITER OR MAX_READER OR BEING_UPGRADED) = 0, w + READER)"

definition try_read_retract :: "lock_word \<Rightarrow> lock_word" where
  "try_read_retract w = w - READER"

definition try_write :: "lock_word \<Rightarrow> bool \<times> lock_word" where
  "try_write w = (if w = 0 then (True, WRITER) else (False, w))"

text \<open>\<open>try_upread\<close>: granted, refused, or refused with the bit to be taken back.\<close>

datatype upread_answer = Granted | Refused | RefusedRetract

definition try_upread_enter :: "lock_word \<Rightarrow> upread_answer \<times> lock_word" where
  "try_upread_enter w = (
     let lock = w AND (WRITER OR UPGRADEABLE_READER) in
     (if lock = 0 then Granted else if lock = WRITER then RefusedRetract else Refused,
      w OR UPGRADEABLE_READER))"

definition try_upread_retract :: "lock_word \<Rightarrow> lock_word" where
  "try_upread_retract w = w - UPGRADEABLE_READER"

definition read_guard_drop :: "lock_word \<Rightarrow> lock_word" where
  "read_guard_drop w = w - READER"

definition write_guard_drop :: "lock_word \<Rightarrow> lock_word" where
  "write_guard_drop w = w AND NOT WRITER"

definition upgrade_announce :: "lock_word \<Rightarrow> lock_word" where
  "upgrade_announce w = w OR BEING_UPGRADED"

definition try_upgrade :: "lock_word \<Rightarrow> bool \<times> lock_word" where
  "try_upgrade w = (if w = UPGRADEABLE_READER OR BEING_UPGRADED then (True, WRITER OR UPGRADEABLE_READER) else (False, w))"

definition try_upgrade_finish :: "lock_word \<Rightarrow> lock_word" where
  "try_upgrade_finish w = w - UPGRADEABLE_READER"

definition upgradeable_guard_drop :: "lock_word \<Rightarrow> lock_word" where
  "upgradeable_guard_drop w = w - UPGRADEABLE_READER"

section \<open>The system\<close>

text \<open>\<open>Reading\<close>, \<open>Writing\<close> and \<open>Upreading\<close> are held guards; \<open>Upgrading\<close> is the loop of \<open>upgrade\<close>,
  \<open>UpgradeFinish\<close> the end of \<open>try_upgrade\<close> after its exchange succeeded, the retracting activities are the
  refused \<open>try_read\<close> and \<open>try_upread\<close> before their second operation.\<close>

datatype activity = Reading | ReadRetract | Writing | Upreading | UpreadRetract | Upgrading | UpgradeFinish

record 'v rw_sys =
  lock_val :: lock_word
  cell :: 'v
  acts :: "activity multiset"

definition rw_new :: "'v \<Rightarrow> 'v rw_sys" where
  "rw_new v = \<lparr>lock_val = 0, cell = v, acts = {#}\<rparr>"

text \<open>The only bound is on calls of \<open>try_read\<close> that are between their two operations at the same time; the
  number of read guards, which may be leaked, is not bounded.\<close>

definition MAX_PENDING :: nat where "MAX_PENDING = 2 ^ 60 - 1"

inductive rw_step :: "'v rw_sys \<Rightarrow> 'v rw_sys \<Rightarrow> bool" where
  read_ok: "try_read_enter w = (True, w') \<Longrightarrow>
     rw_step \<lparr>lock_val = w, cell = v, acts = A\<rparr> \<lparr>lock_val = w', cell = v, acts = add_mset Reading A\<rparr>"
| read_refused: "try_read_enter w = (False, w') \<Longrightarrow> count A ReadRetract < MAX_PENDING \<Longrightarrow>
     rw_step \<lparr>lock_val = w, cell = v, acts = A\<rparr> \<lparr>lock_val = w', cell = v, acts = add_mset ReadRetract A\<rparr>"
| read_retract:
     "rw_step \<lparr>lock_val = w, cell = v, acts = add_mset ReadRetract A\<rparr> \<lparr>lock_val = try_read_retract w, cell = v, acts = A\<rparr>"
| read_drop:
     "rw_step \<lparr>lock_val = w, cell = v, acts = add_mset Reading A\<rparr> \<lparr>lock_val = read_guard_drop w, cell = v, acts = A\<rparr>"
| write_ok: "try_write w = (True, w') \<Longrightarrow>
     rw_step \<lparr>lock_val = w, cell = v, acts = A\<rparr> \<lparr>lock_val = w', cell = v, acts = add_mset Writing A\<rparr>"
| store:
     "rw_step \<lparr>lock_val = w, cell = v, acts = add_mset Writing A\<rparr> \<lparr>lock_val = w, cell = v', acts = add_mset Writing A\<rparr>"
| write_drop:
     "rw_step \<lparr>lock_val = w, cell = v, acts = add_mset Writing A\<rparr> \<lparr>lock_val = write_guard_drop w, cell = v, acts = A\<rparr>"
| upread_ok: "try_upread_enter w = (Granted, w') \<Longrightarrow>
     rw_step \<lparr>lock_val = w, cell = v, acts = A\<rparr> \<lparr>lock_val = w', cell = v, acts = add_mset Upreading A\<rparr>"
| upread_refused: "try_upread_enter w = (Refused, w') \<Longrightarrow>
     rw_step \<lparr>lock_val = w, cell = v, acts = A\<rparr> \<lparr>lock_val = w', cell = v, acts = A\<rparr>"
| upread_refused_retract: "try_upread_enter w = (RefusedRetract, w') \<Longrightarrow>
     rw_step \<lparr>lock_val = w, cell = v, acts = A\<rparr> \<lparr>lock_val = w', cell = v, acts = add_mset UpreadRetract A\<rparr>"
| upread_retract:
     "rw_step \<lparr>lock_val = w, cell = v, acts = add_mset UpreadRetract A\<rparr> \<lparr>lock_val = try_upread_retract w, cell = v, acts = A\<rparr>"
| upread_drop:
     "rw_step \<lparr>lock_val = w, cell = v, acts = add_mset Upreading A\<rparr> \<lparr>lock_val = upgradeable_guard_drop w, cell = v, acts = A\<rparr>"
| upgrade:
     "rw_step \<lparr>lock_val = w, cell = v, acts = add_mset Upreading A\<rparr>
        \<lparr>lock_val = upgrade_announce w, cell = v, acts = add_mset Upgrading A\<rparr>"
| upgrade_ok: "try_upgrade w = (True, w') \<Longrightarrow>
     rw_step \<lparr>lock_val = w, cell = v, acts = add_mset Upgrading A\<rparr> \<lparr>lock_val = w', cell = v, acts = add_mset UpgradeFinish A\<rparr>"
| upgrade_finish:
     "rw_step \<lparr>lock_val = w, cell = v, acts = add_mset UpgradeFinish A\<rparr>
        \<lparr>lock_val = try_upgrade_finish w, cell = v, acts = add_mset Writing A\<rparr>"

definition rw_reachable :: "'v rw_sys \<Rightarrow> bool" where
  "rw_reachable s \<longleftrightarrow> (\<exists>v. rw_step\<^sup>*\<^sup>* (rw_new v) s)"

section \<open>The word as a record of its fields\<close>

definition enc :: "nat \<Rightarrow> bool \<Rightarrow> bool \<Rightarrow> bool \<Rightarrow> lock_word" where
  "enc r w u b = of_nat r + (if b then BEING_UPGRADED else 0) + (if u then UPGRADEABLE_READER else 0) +
     (if w then WRITER else 0)"

lemma flag_bits:
  "bit WRITER n \<longleftrightarrow> n = 63" "bit UPGRADEABLE_READER n \<longleftrightarrow> n = 62" "bit BEING_UPGRADED n \<longleftrightarrow> n = 61"
  "bit MAX_READER n \<longleftrightarrow> n = 60"
  unfolding WRITER_def UPGRADEABLE_READER_def BEING_UPGRADED_def MAX_READER_def bit_push_bit_iff bit_1_iff
  by auto

lemma reader_bits:
  assumes "r < 2 ^ k"
  shows "bit (of_nat r :: lock_word) n \<longleftrightarrow> n < 64 \<and> n < k \<and> bit r n"
proof -
  have "take_bit k r = r" using assms by (simp add: take_bit_nat_eq_self)
  then have "bit r n \<Longrightarrow> n < k" by (metis bit_take_bit_iff)
  moreover have "unat (of_nat r :: lock_word) = take_bit 64 r" by (simp add: unat_of_nat take_bit_eq_mod)
  then have "bit (of_nat r :: lock_word) n \<longleftrightarrow> n < 64 \<and> bit r n" by (metis bit_take_bit_iff bit_unat)
  ultimately show ?thesis by blast
qed

lemma unat_reader: "r < 2 ^ 61 \<Longrightarrow> unat (of_nat r :: lock_word) = r"
  by (simp add: unat_of_nat)

lemma enc_bits:
  assumes "r < 2 ^ 61"
  shows "bit (enc r w u b) n \<longleftrightarrow> n < 61 \<and> bit r n \<or> n = 61 \<and> b \<or> n = 62 \<and> u \<or> n = 63 \<and> w"
proof -
  note rb = reader_bits [OF assms]
  let ?a = "of_nat r + (if b then BEING_UPGRADED else 0) :: lock_word"
  have a: "bit ?a n \<longleftrightarrow> n < 61 \<and> bit r n \<or> n = 61 \<and> b" for n
    by (subst bit_disjunctive_add_iff) (auto simp: rb flag_bits)
  let ?c = "?a + (if u then UPGRADEABLE_READER else 0)"
  have c: "bit ?c n \<longleftrightarrow> n < 61 \<and> bit r n \<or> n = 61 \<and> b \<or> n = 62 \<and> u" for n
    by (subst bit_disjunctive_add_iff) (auto simp: a flag_bits)
  show ?thesis unfolding enc_def by (subst bit_disjunctive_add_iff) (auto simp: c flag_bits)
qed

lemma bit_of_bound: "r < 2 ^ k \<Longrightarrow> bit r n \<Longrightarrow> n < (k :: nat)" for r :: nat
  by (metis bit_take_bit_iff take_bit_nat_eq_self)

lemma enc_inject:
  assumes "r < 2 ^ 61" "r' < 2 ^ 61"
  shows "enc r w u b = enc r' w' u' b' \<longleftrightarrow> r = r' \<and> w = w' \<and> u = u' \<and> b = b'"
proof
  assume eq: "enc r w u b = enc r' w' u' b'"
  have bits: "bit (enc r w u b) n \<longleftrightarrow> bit (enc r' w' u' b') n" for n by (simp add: eq)
  have "bit r n \<longleftrightarrow> bit r' n" for n
    using bits [of n] bit_of_bound [OF assms(1), of n] bit_of_bound [OF assms(2), of n]
    by (auto simp: enc_bits [OF assms(1)] enc_bits [OF assms(2)])
  then have "r = r'" by (rule bit_eqI)
  then show "r = r' \<and> w = w' \<and> u = u' \<and> b = b'"
    using bits [of 61] bits [of 62] bits [of 63] by (simp add: enc_bits [OF assms(1)] enc_bits [OF assms(2)])
qed simp

lemma enc_values:
  "0 = enc 0 False False False" "WRITER = enc 0 True False False"
  "UPGRADEABLE_READER = enc 0 False True False"
  by (simp_all add: enc_def)

lemma enc_or_values:
  "UPGRADEABLE_READER OR BEING_UPGRADED = enc 0 False True True"
  "WRITER OR UPGRADEABLE_READER = enc 0 True True False"
  by (rule bit_word_eqI; auto simp: bit_or_iff flag_bits enc_bits)+

lemma enc_add_reader [simp]: "enc r w u b + READER = enc (Suc r) w u b"
  by (simp add: enc_def READER_def)

lemma enc_sub_reader [simp]: "enc (Suc r) w u b - READER = enc r w u b"
  by (simp add: enc_def READER_def)

lemma enc_sub_upgradeable [simp]: "enc r w True b - UPGRADEABLE_READER = enc r w False b"
  by (simp add: enc_def)

lemma enc_or_upgradeable [simp]: "r < 2 ^ 61 \<Longrightarrow> enc r w u b OR UPGRADEABLE_READER = enc r w True b"
  by (rule bit_word_eqI) (auto simp: bit_or_iff flag_bits enc_bits)

lemma enc_or_being_upgraded [simp]: "r < 2 ^ 61 \<Longrightarrow> enc r w u b OR BEING_UPGRADED = enc r w u True"
  by (rule bit_word_eqI) (auto simp: bit_or_iff flag_bits enc_bits)

lemma enc_and_not_writer [simp]: "r < 2 ^ 61 \<Longrightarrow> enc r w u b AND NOT WRITER = enc r False u b"
  by (rule bit_word_eqI) (auto simp: bit_and_iff bit_not_iff flag_bits enc_bits)

lemma enc_and_upgradeable:
  "r < 2 ^ 61 \<Longrightarrow> enc r w u b AND (WRITER OR UPGRADEABLE_READER) = enc 0 w u False"
  by (rule bit_word_eqI) (auto simp: bit_and_iff bit_or_iff flag_bits enc_bits)

lemma bit60_iff:
  assumes "r < 2 ^ 61"
  shows "bit r 60 \<longleftrightarrow> 2 ^ 60 \<le> (r :: nat)"
proof -
  define q where "q = r div 2 ^ 60"
  have "q < 2" using assms by (simp add: q_def less_mult_imp_div_less)
  then have "odd q \<longleftrightarrow> q \<noteq> 0" by (auto simp: less_2_cases_iff)
  moreover have "q = 0 \<longleftrightarrow> r < 2 ^ 60" by (simp add: q_def div_eq_0_iff)
  moreover have "bit r 60 \<longleftrightarrow> odd q" by (simp only: bit_iff_odd q_def)
  ultimately show ?thesis by (metis not_less)
qed

lemma word_eq_0_bits: "x = 0 \<longleftrightarrow> (\<forall>n. \<not> bit (x :: lock_word) n)"
  by (metis bit_0_eq bit_word_eqI bot_apply bot_bool_def)

lemma enc_admits_reader:
  assumes "r < 2 ^ 61"
  shows "enc r w u b AND (WRITER OR MAX_READER OR BEING_UPGRADED) = 0 \<longleftrightarrow> \<not> w \<and> \<not> b \<and> r < 2 ^ 60"
proof -
  have "enc r w u b AND (WRITER OR MAX_READER OR BEING_UPGRADED) = 0 \<longleftrightarrow> \<not> w \<and> \<not> b \<and> \<not> bit r 60"
    (is "?m = 0 \<longleftrightarrow> _")
  proof
    have bits: "bit ?m n \<longleftrightarrow> n \<in> {60, 61, 63} \<and> bit (enc r w u b) n" for n
      by (auto simp: bit_and_iff bit_or_iff flag_bits)
    show "\<not> w \<and> \<not> b \<and> \<not> bit r 60" if "?m = 0"
      using that bits [of 60] bits [of 61] bits [of 63] by (simp add: enc_bits [OF assms])
    show "?m = 0" if "\<not> w \<and> \<not> b \<and> \<not> bit r 60"
      unfolding word_eq_0_bits bits using that by (auto simp: enc_bits [OF assms])
  qed
  then show ?thesis by (simp only: bit60_iff [OF assms] not_le)
qed

section \<open>The invariant\<close>

declare count_greater_zero_iff [simp del] count_eq_zero_iff [simp del]

definition writers :: "activity multiset \<Rightarrow> nat" where
  "writers A = count A Writing + count A UpgradeFinish"

definition upgrade_holders :: "activity multiset \<Rightarrow> nat" where
  "upgrade_holders A = count A Upreading + count A Upgrading + count A UpreadRetract + count A UpgradeFinish"

definition rw_inv :: "'v rw_sys \<Rightarrow> bool" where
  "rw_inv s \<longleftrightarrow>
     lock_val s = enc (count (acts s) Reading + count (acts s) ReadRetract) (0 < writers (acts s))
       (0 < upgrade_holders (acts s)) (0 < count (acts s) Upgrading) \<and>
     count (acts s) Reading \<le> 2 ^ 60 \<and> count (acts s) ReadRetract \<le> MAX_PENDING \<and>
     writers (acts s) \<le> 1 \<and> upgrade_holders (acts s) \<le> 1 \<and>
     (0 < writers (acts s) \<longrightarrow>
        count (acts s) Reading = 0 \<and> count (acts s) Upreading = 0 \<and> count (acts s) Upgrading = 0)"

lemma rw_inv_bound: "rw_inv s \<Longrightarrow> count (acts s) Reading + count (acts s) ReadRetract < 2 ^ 61"
  by (simp add: rw_inv_def MAX_PENDING_def)

lemmas rw_ops = try_read_enter_def try_read_retract_def try_write_def try_upread_enter_def try_upread_retract_def
  read_guard_drop_def write_guard_drop_def upgrade_announce_def try_upgrade_def try_upgrade_finish_def
  upgradeable_guard_drop_def

text \<open>What the tests of the code see, in terms of the activities.\<close>

lemma rw_tests:
  assumes "rw_inv \<lparr>lock_val = w, cell = v, acts = A\<rparr>"
  shows "w AND (WRITER OR MAX_READER OR BEING_UPGRADED) = 0 \<longleftrightarrow>
      writers A = 0 \<and> count A Upgrading = 0 \<and> count A Reading + count A ReadRetract < 2 ^ 60"
    "w = 0 \<longleftrightarrow> count A Reading + count A ReadRetract = 0 \<and> writers A = 0 \<and> upgrade_holders A = 0"
    "w AND (WRITER OR UPGRADEABLE_READER) = 0 \<longleftrightarrow> writers A = 0 \<and> upgrade_holders A = 0"
    "w AND (WRITER OR UPGRADEABLE_READER) = WRITER \<longleftrightarrow> writers A \<noteq> 0 \<and> upgrade_holders A = 0"
    "w = UPGRADEABLE_READER OR BEING_UPGRADED \<longleftrightarrow>
      count A Reading + count A ReadRetract = 0 \<and> writers A = 0 \<and> count A Upgrading \<noteq> 0"
proof -
  let ?r = "count A Reading + count A ReadRetract"
  have w: "w = enc ?r (0 < writers A) (0 < upgrade_holders A) (0 < count A Upgrading)"
    using assms by (simp add: rw_inv_def)
  have r: "?r < 2 ^ 61" using rw_inv_bound [OF assms] by simp
  have z: "(0::nat) < 2 ^ 61" by simp
  note inj = enc_inject [OF r z] enc_inject [OF z z]
  show "w AND (WRITER OR MAX_READER OR BEING_UPGRADED) = 0 \<longleftrightarrow>
      writers A = 0 \<and> count A Upgrading = 0 \<and> ?r < 2 ^ 60"
    unfolding w enc_admits_reader [OF r] by auto
  show "w = 0 \<longleftrightarrow> ?r = 0 \<and> writers A = 0 \<and> upgrade_holders A = 0"
    unfolding w enc_values(1) inj by (auto simp: upgrade_holders_def)
  show "w AND (WRITER OR UPGRADEABLE_READER) = 0 \<longleftrightarrow> writers A = 0 \<and> upgrade_holders A = 0"
    unfolding w enc_and_upgradeable [OF r] unfolding enc_values(1) inj by auto
  show "w AND (WRITER OR UPGRADEABLE_READER) = WRITER \<longleftrightarrow> writers A \<noteq> 0 \<and> upgrade_holders A = 0"
    unfolding w enc_and_upgradeable [OF r] unfolding enc_values(2) inj by auto
  show "w = UPGRADEABLE_READER OR BEING_UPGRADED \<longleftrightarrow> ?r = 0 \<and> writers A = 0 \<and> count A Upgrading \<noteq> 0"
    unfolding w enc_or_values inj by (auto simp: upgrade_holders_def)
qed

lemma rw_step_inv:
  assumes "rw_step s s'" "rw_inv s"
  shows "rw_inv s'"
  using assms
proof (induction rule: rw_step.induct)
  case (read_ok w w' v A)
  then have t: "writers A = 0" "count A Upgrading = 0" "count A Reading + count A ReadRetract < 2 ^ 60" "w' = w + READER"
    using rw_tests(1) [OF read_ok(2)] by (auto simp: try_read_enter_def)
  then show ?case using read_ok(2) by (auto simp: rw_inv_def writers_def upgrade_holders_def)
next
  case (read_refused w w' A v)
  then show ?case by (auto simp: rw_inv_def writers_def upgrade_holders_def try_read_enter_def)
next
  case (read_retract w v A)
  then show ?case by (auto simp: rw_inv_def writers_def upgrade_holders_def rw_ops)
next
  case (read_drop w v A)
  then show ?case by (auto simp: rw_inv_def writers_def upgrade_holders_def rw_ops)
next
  case (write_ok w w' v A)
  then have "count A Reading + count A ReadRetract = 0" "writers A = 0" "upgrade_holders A = 0" "w' = WRITER"
    using rw_tests(2) [OF write_ok(2)] by (auto simp: try_write_def split: if_splits)
  then show ?case by (auto simp: rw_inv_def writers_def upgrade_holders_def enc_values(2))
next
  case (store w v A v')
  then show ?case by (simp add: rw_inv_def)
next
  case (write_drop w v A)
  then show ?case using rw_inv_bound [OF write_drop] by (auto simp: rw_inv_def writers_def upgrade_holders_def rw_ops)
next
  case (upread_ok w w' v A)
  then have "writers A = 0" "upgrade_holders A = 0" "w' = w OR UPGRADEABLE_READER"
    using rw_tests(3) [OF upread_ok(2)] by (auto simp: try_upread_enter_def Let_def split: if_splits)
  then show ?case using upread_ok(2) rw_inv_bound [OF upread_ok(2)] by (auto simp: rw_inv_def writers_def upgrade_holders_def)
next
  case (upread_refused w w' v A)
  then have "upgrade_holders A \<noteq> 0" "w' = w OR UPGRADEABLE_READER"
    using rw_tests(3,4) [OF upread_refused(2)] by (auto simp: try_upread_enter_def Let_def split: if_splits)
  then show ?case using upread_refused(2) rw_inv_bound [OF upread_refused(2)] by (auto simp: rw_inv_def)
next
  case (upread_refused_retract w w' v A)
  then have "writers A \<noteq> 0" "upgrade_holders A = 0" "w' = w OR UPGRADEABLE_READER"
    using rw_tests(4) [OF upread_refused_retract(2)] by (auto simp: try_upread_enter_def Let_def split: if_splits)
  then show ?case using upread_refused_retract(2) rw_inv_bound [OF upread_refused_retract(2)]
    by (auto simp: rw_inv_def writers_def upgrade_holders_def)
next
  case (upread_retract w v A)
  then show ?case by (auto simp: rw_inv_def writers_def upgrade_holders_def rw_ops)
next
  case (upread_drop w v A)
  then show ?case by (auto simp: rw_inv_def writers_def upgrade_holders_def rw_ops)
next
  case (upgrade w v A)
  then show ?case using rw_inv_bound [OF upgrade] by (auto simp: rw_inv_def writers_def upgrade_holders_def rw_ops)
next
  case (upgrade_ok w w' v A)
  then have "count A Reading + count A ReadRetract = 0" "writers A = 0" "w' = WRITER OR UPGRADEABLE_READER"
    using rw_tests(5) [OF upgrade_ok(2)] by (auto simp: try_upgrade_def writers_def split: if_splits)
  then show ?case using upgrade_ok(2) by (auto simp: rw_inv_def writers_def upgrade_holders_def enc_or_values)
next
  case (upgrade_finish w v A)
  then show ?case by (auto simp: rw_inv_def writers_def upgrade_holders_def rw_ops)
qed

lemma rw_new_inv: "rw_inv (rw_new v)"
  by (simp add: rw_inv_def rw_new_def writers_def upgrade_holders_def enc_def)

lemma rw_steps_inv: "rw_step\<^sup>*\<^sup>* s s' \<Longrightarrow> rw_inv s \<Longrightarrow> rw_inv s'"
  by (induction rule: rtranclp_induct) (auto intro: rw_step_inv)

lemma rw_reachable_inv: "rw_reachable s \<Longrightarrow> rw_inv s"
  unfolding rw_reachable_def by (blast intro: rw_steps_inv rw_new_inv)

section \<open>The abstract lock\<close>

text \<open>What the documentation promises: any number of readers and at most one upgradeable reader, or one
  writer; an upgrade turns the upgradeable reader into the writer in one step once the readers are gone.\<close>

record 'v rw_spec =
  sp_readers :: nat
  sp_upreader :: bool
  sp_writer :: bool
  sp_val :: 'v

inductive rw_spec_step :: "'v rw_spec \<Rightarrow> 'v rw_spec \<Rightarrow> bool" where
  sp_read: "\<not> sp_writer a \<Longrightarrow> rw_spec_step a (a\<lparr>sp_readers := Suc (sp_readers a)\<rparr>)"
| sp_read_drop: "sp_readers a = Suc n \<Longrightarrow> rw_spec_step a (a\<lparr>sp_readers := n\<rparr>)"
| sp_write: "sp_readers a = 0 \<Longrightarrow> \<not> sp_upreader a \<Longrightarrow> \<not> sp_writer a \<Longrightarrow> rw_spec_step a (a\<lparr>sp_writer := True\<rparr>)"
| sp_store: "sp_writer a \<Longrightarrow> rw_spec_step a (a\<lparr>sp_val := v\<rparr>)"
| sp_write_drop: "sp_writer a \<Longrightarrow> rw_spec_step a (a\<lparr>sp_writer := False\<rparr>)"
| sp_upread: "\<not> sp_upreader a \<Longrightarrow> \<not> sp_writer a \<Longrightarrow> rw_spec_step a (a\<lparr>sp_upreader := True\<rparr>)"
| sp_upread_drop: "sp_upreader a \<Longrightarrow> rw_spec_step a (a\<lparr>sp_upreader := False\<rparr>)"
| sp_upgrade: "sp_upreader a \<Longrightarrow> \<not> sp_writer a \<Longrightarrow> sp_readers a = 0 \<Longrightarrow>
     rw_spec_step a (a\<lparr>sp_upreader := False, sp_writer := True\<rparr>)"

definition rw_abs :: "'v rw_sys \<Rightarrow> 'v rw_spec" where
  "rw_abs s = \<lparr>sp_readers = count (acts s) Reading, sp_upreader = (0 < count (acts s) Upreading + count (acts s) Upgrading),
     sp_writer = (0 < writers (acts s)), sp_val = cell s\<rparr>"

lemma rw_step_refines:
  assumes "rw_step s s'" "rw_inv s"
  shows "rw_abs s' = rw_abs s \<or> rw_spec_step (rw_abs s) (rw_abs s')"
  using assms
proof (induction rule: rw_step.induct)
  case (read_ok w w' v A)
  then have "writers A = 0" using rw_tests(1) [OF read_ok(2)] by (simp add: try_read_enter_def)
  then show ?case using rw_spec_step.sp_read [of "rw_abs \<lparr>lock_val = w, cell = v, acts = A\<rparr>"]
    by (simp add: rw_abs_def writers_def)
next
  case (read_drop w v A)
  then show ?case using rw_spec_step.sp_read_drop [of "rw_abs \<lparr>lock_val = w, cell = v, acts = add_mset Reading A\<rparr>"]
    by (simp add: rw_abs_def writers_def)
next
  case (write_ok w w' v A)
  then have "count A Reading = 0" "writers A = 0" "upgrade_holders A = 0"
    using rw_tests(2) [OF write_ok(2)] by (auto simp: try_write_def split: if_splits)
  then show ?case using rw_spec_step.sp_write [of "rw_abs \<lparr>lock_val = w, cell = v, acts = A\<rparr>"]
    by (simp add: rw_abs_def writers_def upgrade_holders_def)
next
  case (store w v A v')
  then show ?case using rw_spec_step.sp_store [of "rw_abs \<lparr>lock_val = w, cell = v, acts = add_mset Writing A\<rparr>" v']
    by (simp add: rw_abs_def writers_def)
next
  case (write_drop w v A)
  then have "writers A = 0" by (simp add: rw_inv_def writers_def)
  then show ?case using rw_spec_step.sp_write_drop [of "rw_abs \<lparr>lock_val = w, cell = v, acts = add_mset Writing A\<rparr>"]
    by (simp add: rw_abs_def writers_def)
next
  case (upread_ok w w' v A)
  then have "writers A = 0" "upgrade_holders A = 0"
    using rw_tests(3) [OF upread_ok(2)] by (auto simp: try_upread_enter_def Let_def split: if_splits)
  then show ?case using rw_spec_step.sp_upread [of "rw_abs \<lparr>lock_val = w, cell = v, acts = A\<rparr>"]
    by (simp add: rw_abs_def writers_def upgrade_holders_def)
next
  case (upread_drop w v A)
  then have "upgrade_holders A = 0" by (simp add: rw_inv_def upgrade_holders_def)
  then show ?case using rw_spec_step.sp_upread_drop [of "rw_abs \<lparr>lock_val = w, cell = v, acts = add_mset Upreading A\<rparr>"]
    by (simp add: rw_abs_def writers_def upgrade_holders_def)
next
  case (upgrade_ok w w' v A)
  then have "count A Reading = 0" "writers A = 0" "upgrade_holders A = 0"
    using rw_tests(5) [OF upgrade_ok(2)]
    by (auto simp: try_upgrade_def rw_inv_def writers_def upgrade_holders_def split: if_splits)
  then show ?case using rw_spec_step.sp_upgrade [of "rw_abs \<lparr>lock_val = w, cell = v, acts = add_mset Upgrading A\<rparr>"]
    by (simp add: rw_abs_def writers_def upgrade_holders_def)
qed (simp_all add: rw_abs_def writers_def)

section \<open>Draining\<close>

text \<open>The steps by which activities end.  Nothing else has to happen for them: an upgrade waits only for
  readers that are already in flight.\<close>

lemma rw_empty: "rw_inv s \<Longrightarrow> acts s = {#} \<Longrightarrow> lock_val s = 0"
  by (simp add: rw_inv_def enc_def writers_def upgrade_holders_def)

text \<open>Every activity except the loop of \<open>upgrade\<close> ends on its own; an upgrading thread comes through when it
  is alone.\<close>

fun rank :: "activity \<Rightarrow> nat" where
  "rank Upreading = 1"
| "rank Upgrading = 3"
| "rank UpgradeFinish = 2"
| "rank _ = 1"

definition total_rank :: "activity multiset \<Rightarrow> nat" where
  "total_rank A = (\<Sum>a \<in># A. rank a)"

definition rw_ending :: "'v rw_sys \<Rightarrow> 'v rw_sys \<Rightarrow> bool" where
  "rw_ending s s' \<longleftrightarrow> rw_step s s' \<and> size (acts s') \<le> size (acts s)"

lemma rw_drain_step:
  assumes inv: "rw_inv s" and ne: "acts s \<noteq> {#}"
  shows "\<exists>s'. rw_ending s s' \<and> cell s' = cell s \<and> total_rank (acts s') < total_rank (acts s)"
proof -
  obtain w v where s: "s = \<lparr>lock_val = w, cell = v, acts = acts s\<rparr>" by (cases s) simp
  show ?thesis
  proof (cases "acts s = {#Upgrading#}")
    case True
    then have "try_upgrade w = (True, WRITER OR UPGRADEABLE_READER)"
      using rw_tests(5) [of w v "acts s"] inv s by (simp add: try_upgrade_def writers_def)
    then show ?thesis using rw_step.upgrade_ok [of w _ v "{#}"] s True
      by (auto simp: rw_ending_def total_rank_def)
  next
    case False
    have "\<exists>a. a \<in># acts s \<and> a \<noteq> Upgrading"
    proof (rule ccontr)
      assume none: "\<not> ?thesis"
      then have o: "count (acts s) a = 0" if "a \<noteq> Upgrading" for a using that by (auto simp: count_eq_zero_iff)
      have "Upgrading \<in># acts s" using ne none by (metis multiset_nonemptyE)
      then have "count (acts s) Upgrading = 1"
        using inv by (auto simp: rw_inv_def upgrade_holders_def count_greater_zero_iff [symmetric])
      then have "acts s = {#Upgrading#}" using o by (intro multiset_eqI) auto
      then show False using False by simp
    qed
    then obtain a A where a: "acts s = add_mset a A" "a \<noteq> Upgrading" by (metis insert_DiffM)
    have "\<exists>s'. rw_step \<lparr>lock_val = w, cell = v, acts = add_mset a A\<rparr> s' \<and> cell s' = v \<and>
        size (acts s') \<le> Suc (size A) \<and> total_rank (acts s') < total_rank (add_mset a A)"
      using a(2) by (cases a) (fastforce intro: rw_step.intros simp: total_rank_def)+
    then show ?thesis using s a(1) by (metis rw_ending_def rw_sys.select_convs(2) size_add_mset)
  qed
qed

lemma rw_drain:
  assumes "rw_inv s"
  shows "\<exists>s'. rw_ending\<^sup>*\<^sup>* s s' \<and> acts s' = {#} \<and> lock_val s' = 0 \<and> cell s' = cell s"
  using assms
proof (induction "total_rank (acts s)" arbitrary: s rule: less_induct)
  case less
  show ?case
  proof (cases "acts s = {#}")
    case True
    then show ?thesis using rw_empty [OF less.prems] by blast
  next
    case False
    then obtain t where t: "rw_ending s t" "cell t = cell s" "total_rank (acts t) < total_rank (acts s)"
      using rw_drain_step [OF less.prems] by blast
    have "rw_inv t" using t(1) rw_step_inv [OF _ less.prems] by (simp add: rw_ending_def)
    then show ?thesis using less.hyps [OF t(3)] t(1,2)
      by (metis converse_rtranclp_into_rtranclp)
  qed
qed

text \<open>\<open>RwArc::get_cloned\<close> takes a read guard and never drops it: dropping is an explicit call in this code, and
  there is none.  This is the round of its \<open>read\<close> that succeeds.\<close>

definition get_cloned :: "lock_word \<Rightarrow> 'v \<Rightarrow> ('v \<times> lock_word) option" where
  "get_cloned w v = (case try_read_enter w of (True, w') \<Rightarrow> Some (v, w') | (False, w') \<Rightarrow> None)"

lemma get_cloned_keeps_the_lock:
  assumes "rw_reachable \<lparr>lock_val = w, cell = v, acts = A\<rparr>" "get_cloned w v = Some (x, w')"
  shows "x = v" "rw_reachable \<lparr>lock_val = w', cell = v, acts = add_mset Reading A\<rparr>" "\<not> fst (try_write w')"
proof -
  have e: "try_read_enter w = (True, w')" and x: "x = v"
    using assms(2) by (auto simp: get_cloned_def split: prod.splits bool.splits)
  show "x = v" by (rule x)
  have r: "rw_reachable \<lparr>lock_val = w', cell = v, acts = add_mset Reading A\<rparr>"
    using assms(1) rw_step.read_ok [OF e, of v A] unfolding rw_reachable_def by (meson rtranclp.rtrancl_into_rtrancl)
  then show "rw_reachable \<lparr>lock_val = w', cell = v, acts = add_mset Reading A\<rparr>" .
  show "\<not> fst (try_write w')" using rw_tests(2) [OF rw_reachable_inv [OF r]] by (simp add: try_write_def)
qed

section \<open>Properties\<close>

text \<open>C29: the read-write lock implements its abstract specification.  Under any interleaving of the atomic
  operations of any number of threads, every step of the code either is a step of the specification, in
  which readers, the upgradeable reader and the writer exclude each other as documented and an upgrade is
  atomic, or changes nothing that the specification sees.\<close>

theorem rw_lock_refines:
  assumes "rw_reachable s" "rw_step s s'"
  shows "rw_abs s' = rw_abs s \<or> rw_spec_step (rw_abs s) (rw_abs s')"
  using rw_step_refines [OF assms(2) rw_reachable_inv [OF assms(1)]] .

lemma demo_rw:
  "rw_reachable \<lparr>lock_val = UPGRADEABLE_READER OR BEING_UPGRADED, cell = v, acts = {#Upgrading#}\<rparr>"
  "rw_step \<lparr>lock_val = UPGRADEABLE_READER OR BEING_UPGRADED, cell = v, acts = {#Upgrading#}\<rparr>
     \<lparr>lock_val = WRITER OR UPGRADEABLE_READER, cell = v, acts = {#UpgradeFinish#}\<rparr>"
proof -
  have "rw_step (rw_new v) \<lparr>lock_val = UPGRADEABLE_READER, cell = v, acts = {#Upreading#}\<rparr>"
    unfolding rw_new_def by (rule rw_step.upread_ok) (simp add: try_upread_enter_def)
  moreover have "rw_step \<lparr>lock_val = UPGRADEABLE_READER, cell = v, acts = {#Upreading#}\<rparr>
     \<lparr>lock_val = UPGRADEABLE_READER OR BEING_UPGRADED, cell = v, acts = {#Upgrading#}\<rparr>"
    using rw_step.upgrade [of UPGRADEABLE_READER v "{#}"] by (simp add: upgrade_announce_def)
  ultimately show "rw_reachable \<lparr>lock_val = UPGRADEABLE_READER OR BEING_UPGRADED, cell = v, acts = {#Upgrading#}\<rparr>"
    unfolding rw_reachable_def by (metis converse_rtranclp_into_rtranclp rtranclp.rtrancl_refl)
  show "rw_step \<lparr>lock_val = UPGRADEABLE_READER OR BEING_UPGRADED, cell = v, acts = {#Upgrading#}\<rparr>
     \<lparr>lock_val = WRITER OR UPGRADEABLE_READER, cell = v, acts = {#UpgradeFinish#}\<rparr>"
    by (rule rw_step.upgrade_ok) (simp add: try_upgrade_def)
qed

theorem rw_lock_refines_witness:
  "rw_spec_step \<lparr>sp_readers = 0, sp_upreader = True, sp_writer = False, sp_val = 7 :: nat\<rparr>
     \<lparr>sp_readers = 0, sp_upreader = False, sp_writer = True, sp_val = 7\<rparr>"
  using rw_lock_refines [OF demo_rw(1) demo_rw(2), of "7 :: nat"]
  by (simp add: rw_abs_def writers_def)

text \<open>C30: a held guard means what it says.  In every reachable state there is at most one writer; with a
  writer there is no read guard and no upgradeable guard; there is at most one upgradeable guard; the count
  of readers never runs into the flag bits; and while a read guard or an upgradeable guard is held, no step
  of any thread changes the protected value.\<close>

theorem rw_lock_exclusion:
  assumes "rw_reachable s"
  shows "count (acts s) Writing \<le> 1 \<and> count (acts s) Upreading + count (acts s) Upgrading \<le> 1 \<and>
    (Writing \<in># acts s \<longrightarrow> Reading \<notin># acts s \<and> Upreading \<notin># acts s \<and> Upgrading \<notin># acts s) \<and>
    count (acts s) Reading + count (acts s) ReadRetract < 2 ^ 61 \<and>
    unat (take_bit 61 (lock_val s)) = count (acts s) Reading + count (acts s) ReadRetract \<and>
    (\<forall>s'. rw_step s s' \<longrightarrow> Reading \<in># acts s \<or> Upreading \<in># acts s \<or> Upgrading \<in># acts s \<longrightarrow> cell s' = cell s)"
proof -
  have inv: "rw_inv s" by (rule rw_reachable_inv [OF assms])
  note b = rw_inv_bound [OF inv]
  have c: "cell s' = cell s" if "rw_step s s'" "Writing \<notin># acts s" for s'
    using that by (induction rule: rw_step.induct) auto
  have t: "take_bit 61 (lock_val s) = of_nat (count (acts s) Reading + count (acts s) ReadRetract)"
    using inv enc_bits [OF b] reader_bits [OF b]
    by (intro bit_word_eqI) (auto simp: rw_inv_def bit_take_bit_iff dest: bit_of_bound [OF b])
  have "unat (take_bit 61 (lock_val s)) = count (acts s) Reading + count (acts s) ReadRetract"
    unfolding t by (rule unat_reader [OF b])
  moreover have "count (acts s) Writing \<le> 1" "count (acts s) Upreading + count (acts s) Upgrading \<le> 1"
    using inv by (auto simp: rw_inv_def writers_def upgrade_holders_def)
  moreover have "Writing \<in># acts s \<Longrightarrow> Reading \<notin># acts s \<and> Upreading \<notin># acts s \<and> Upgrading \<notin># acts s"
    using inv by (auto simp: rw_inv_def writers_def count_eq_zero_iff count_greater_zero_iff)
  ultimately show ?thesis using b c by blast
qed

theorem rw_lock_exclusion_witness:
  "Writing \<notin># {#Upgrading#} \<and>
   unat (take_bit 61 (UPGRADEABLE_READER OR BEING_UPGRADED)) = 0"
  using rw_lock_exclusion [OF demo_rw(1) [of "()"]] by simp

text \<open>C34: the lock never wedges.  From every reachable state the activities in flight can all end without any
  new one starting, with the value untouched, and the lock is then free: a writer gets it at once.\<close>

theorem rw_lock_drains:
  assumes "rw_reachable s"
  shows "\<exists>s'. rw_ending\<^sup>*\<^sup>* s s' \<and> acts s' = {#} \<and> cell s' = cell s \<and> try_write (lock_val s') = (True, WRITER)"
  using rw_drain [OF rw_reachable_inv [OF assms]] by (auto simp: try_write_def)

theorem rw_lock_drains_witness:
  "\<exists>s'. rw_ending\<^sup>*\<^sup>* \<lparr>lock_val = UPGRADEABLE_READER OR BEING_UPGRADED, cell = True, acts = {#Upgrading#}\<rparr> s' \<and>
     acts s' = {#} \<and> cell s'"
  using rw_lock_drains [OF demo_rw(1) [of True]] by auto

end
