(* ===== verification/Wait_Queue.thy ===== *)
theory Wait_Queue
  imports Rust_Prelude
begin

text \<open>
  Waiting and waking: \<open>src/ostd/src/sync/wait.rs\<close> with the two locks built on a boolean,
  \<open>src/ostd/src/sync/spin.rs\<close> and \<open>src/ostd/src/sync/mutex.rs\<close>.

  A waker is named by a number; \<open>has_woken\<close> is its atomic flag.  The body of \<open>Waker::wake_up\<close> is not part
  of the sources (it is \<open>unimplemented!()\<close>), so it is a parameter \<open>wu\<close> of the definitions, with its documented
  behaviour as the locale \<open>waker_contract\<close>; putting the thread to sleep (\<open>do_wait\<close>) likewise.  The spin lock of
  the queue is held over each removal or insertion together with the update of the counter, so each of
  them is one step.
\<close>

section \<open>Locks on a boolean\<close>

text \<open>\<open>SpinLock\<close>: \<open>try_acquire_lock\<close> is a compare-exchange, \<open>release_lock\<close> a store.\<close>

definition try_acquire_lock :: "bool \<Rightarrow> bool \<times> bool" where
  "try_acquire_lock l = (if l = False then (True, True) else (False, l))"

definition release_lock :: "bool \<Rightarrow> bool" where
  "release_lock l = False"

definition spin_try_lock :: "bool \<Rightarrow> unit option \<times> bool" where
  "spin_try_lock l = (let (ok, l') = try_acquire_lock l in (if ok then Some () else None, l'))"

text \<open>What a client of such a lock relies on, whatever else the lock stores.\<close>

locale excl_lock =
  fixes held :: "'l \<Rightarrow> bool"
    and try_acq :: "'l \<Rightarrow> bool \<times> 'l"
    and release :: "'l \<Rightarrow> 'l"
  assumes try_acq_free: "\<not> held l \<Longrightarrow> fst (try_acq l) \<and> held (snd (try_acq l))"
    and try_acq_held: "held l \<Longrightarrow> \<not> fst (try_acq l) \<and> held (snd (try_acq l))"
    and release_free: "\<not> held (release l)"
begin

text \<open>Threads that try, get in and leave again; the number is that of the threads inside.\<close>

inductive lock_run :: "'l \<Rightarrow> nat \<Rightarrow> bool" where
  start: "\<not> held l \<Longrightarrow> lock_run l 0"
| enter: "lock_run l n \<Longrightarrow> try_acq l = (True, l') \<Longrightarrow> lock_run l' (Suc n)"
| refused: "lock_run l n \<Longrightarrow> try_acq l = (False, l') \<Longrightarrow> lock_run l' n"
| leave: "lock_run l (Suc n) \<Longrightarrow> lock_run (release l) n"

lemma lock_run_inv: "lock_run l n \<Longrightarrow> n = (if held l then 1 else 0)"
proof (induction rule: lock_run.induct)
  case (enter l n l')
  then show ?case using try_acq_held [of l] try_acq_free [of l] by (auto split: if_splits)
next
  case (refused l n l')
  then show ?case using try_acq_held [of l] try_acq_free [of l] by (auto split: if_splits)
next
  case (leave l n)
  then show ?case using release_free by (auto split: if_splits)
qed auto

lemma mutual_exclusion: "lock_run l n \<Longrightarrow> n \<le> 1"
  using lock_run_inv by fastforce

end

interpretation spin: excl_lock id try_acquire_lock release_lock
  by unfold_locales (auto simp: try_acquire_lock_def release_lock_def)

section \<open>The wait queue\<close>

type_synonym waker = nat

record WaitQueue =
  num_wakers :: nat
  wakers :: "waker list"
  has_woken :: "waker \<Rightarrow> bool"

type_synonym wake_fn = "(waker \<Rightarrow> bool) \<Rightarrow> waker \<Rightarrow> bool \<times> (waker \<Rightarrow> bool)"

text \<open>\<open>fetch_add(1)\<close> and \<open>fetch_sub(1)\<close> on an \<open>AtomicU32\<close> wrap around.\<close>

definition u32_inc :: "nat \<Rightarrow> nat" where
  "u32_inc n = (if n = 2 ^ 32 - 1 then 0 else n + 1)"

definition u32_dec :: "nat \<Rightarrow> nat" where
  "u32_dec n = (if n = 0 then 2 ^ 32 - 1 else n - 1)"

definition wq_new :: WaitQueue where
  "wq_new = \<lparr>num_wakers = 0, wakers = [], has_woken = (\<lambda>k. False)\<rparr>"

definition wq_is_empty :: "WaitQueue \<Rightarrow> bool" where
  "wq_is_empty q \<longleftrightarrow> num_wakers q = 0"

definition enqueue :: "WaitQueue \<Rightarrow> waker \<Rightarrow> WaitQueue" where
  "enqueue q k = q\<lparr>wakers := wakers q @ [k], num_wakers := u32_inc (num_wakers q)\<rparr>"

text \<open>The loop of \<open>wake_one\<close> and the loop of \<open>wake_all\<close>, over the queue.\<close>

fun wake_one_loop :: "wake_fn \<Rightarrow> nat \<Rightarrow> waker list \<Rightarrow> (waker \<Rightarrow> bool) \<Rightarrow> bool \<times> nat \<times> waker list \<times> (waker \<Rightarrow> bool)" where
  "wake_one_loop wu n [] h = (False, n, [], h)"
| "wake_one_loop wu n (k # ks) h = (
     let n' = u32_dec n; (woken, h') = wu h k in
     if woken then (True, n', ks, h') else wake_one_loop wu n' ks h')"

definition wake_one :: "wake_fn \<Rightarrow> WaitQueue \<Rightarrow> bool \<times> WaitQueue" where
  "wake_one wu q = (
     if wq_is_empty q then (False, q)
     else let (r, n, ks, h) = wake_one_loop wu (num_wakers q) (wakers q) (has_woken q)
          in (r, \<lparr>num_wakers = n, wakers = ks, has_woken = h\<rparr>))"

fun wake_all_loop :: "wake_fn \<Rightarrow> nat \<Rightarrow> waker list \<Rightarrow> (waker \<Rightarrow> bool) \<Rightarrow> nat \<Rightarrow> nat \<times> nat \<times> (waker \<Rightarrow> bool)" where
  "wake_all_loop wu n [] h num_woken = (num_woken, n, h)"
| "wake_all_loop wu n (k # ks) h num_woken = (
     let n' = u32_dec n; (woken, h') = wu h k in
     wake_all_loop wu n' ks h' (if woken then num_woken + 1 else num_woken))"

definition wake_all :: "wake_fn \<Rightarrow> WaitQueue \<Rightarrow> nat \<times> WaitQueue" where
  "wake_all wu q = (
     if wq_is_empty q then (0, q)
     else let (r, n, h) = wake_all_loop wu (num_wakers q) (wakers q) (has_woken q) 0
          in (r, \<lparr>num_wakers = n, wakers = [], has_woken = h\<rparr>))"

text \<open>\<open>Waker::close\<close>, which \<open>Waiter::drop\<close> calls, and the flag of a new pair.\<close>

definition waker_close :: "WaitQueue \<Rightarrow> waker \<Rightarrow> WaitQueue" where
  "waker_close q k = q\<lparr>has_woken := (has_woken q)(k := True)\<rparr>"

definition waiter_drop :: "WaitQueue \<Rightarrow> waker \<Rightarrow> WaitQueue" where
  "waiter_drop q k = waker_close q k"

definition new_pair :: "WaitQueue \<Rightarrow> waker \<Rightarrow> WaitQueue" where
  "new_pair q k = q\<lparr>has_woken := (has_woken q)(k := False)\<rparr>"

text \<open>\<open>wait_until\<close> for a waiter \<open>k\<close>, on a state \<open>'w\<close> that holds the queue (\<open>on_q\<close> applies a function to it) and that the closure
  \<open>cond\<close> may change.  Other threads run between its actions: \<open>first\<close> is what they do after the first call of \<open>cond\<close>, and the list has
  for each round of the loop what they do between \<open>enqueue\<close> and \<open>cond\<close>, and what happens until \<open>waiter.wait()\<close> returns.  The
  answer \<open>None\<close> is a thread that is still in the loop when the list ends.\<close>

type_synonym 'w others = "'w \<Rightarrow> 'w"

fun wait_loop :: "((WaitQueue \<Rightarrow> WaitQueue) \<Rightarrow> 'w \<Rightarrow> 'w) \<Rightarrow> ('w \<Rightarrow> 'r option \<times> 'w) \<Rightarrow> waker \<Rightarrow> ('w others \<times> 'w others) list \<Rightarrow> 'w \<Rightarrow>
    'r option \<times> 'w" where
  "wait_loop on_q cond k [] w = (None, w)"
| "wait_loop on_q cond k ((between, wait) # es) w = (
     let w1 = on_q (\<lambda>q. enqueue q k) w in
     case cond (between w1) of
       (Some res, w2) \<Rightarrow> (Some res, w2)
     | (None, w2) \<Rightarrow> wait_loop on_q cond k es (wait w2))"

definition wait_until :: "((WaitQueue \<Rightarrow> WaitQueue) \<Rightarrow> 'w \<Rightarrow> 'w) \<Rightarrow> ('w \<Rightarrow> 'r option \<times> 'w) \<Rightarrow> waker \<Rightarrow> 'w others \<Rightarrow>
    ('w others \<times> 'w others) list \<Rightarrow> 'w \<Rightarrow> 'r option \<times> 'w" where
  "wait_until on_q cond k first es w = (case cond w of
       (Some res, w') \<Rightarrow> (Some res, w')
     | (None, w') \<Rightarrow> wait_loop on_q cond k es (on_q (\<lambda>q. new_pair q k) (first w')))"

section \<open>The contract of \<open>wake_up\<close>\<close>

text \<open>The documentation: it returns \<open>true\<close> if the waiter is woken by this call, and \<open>false\<close> if it was already
  woken by an earlier call or has been dropped.\<close>

locale waker_contract =
  fixes wu :: wake_fn
  assumes wake_answer: "fst (wu h k) \<longleftrightarrow> \<not> h k"
    and wake_effect: "snd (wu h k) = h(k := True)"
begin

lemma wu_eq: "wu h k = (\<not> h k, h(k := True))"
  using wake_answer [of h k] wake_effect [of h k] by (metis prod.collapse)

text \<open>\<open>wake_one\<close> takes wakers off the queue up to the first whose waiter still sleeps.\<close>

lemma wake_one_loop_eq:
  "length ks \<le> n \<Longrightarrow>
   wake_one_loop wu n ks h = (case dropWhile h ks of
      [] \<Rightarrow> (False, n - length ks, [], h)
    | k # rest \<Rightarrow> (True, n - (length ks - length rest), rest, h(k := True)))"
proof (induction ks arbitrary: n)
  case (Cons k ks)
  have n': "u32_dec n = n - 1" using Cons.prems by (simp add: u32_dec_def)
  show ?case
  proof (cases "h k")
    case True
    then have "h(k := True) = h" by (metis (full_types) fun_upd_triv)
    then have eq: "wake_one_loop wu n (k # ks) h = wake_one_loop wu (n - 1) ks h" using True n' by (simp add: wu_eq)
    have ih: "wake_one_loop wu (n - 1) ks h = (case dropWhile h ks of
        [] \<Rightarrow> (False, n - 1 - length ks, [], h)
      | k # rest \<Rightarrow> (True, n - 1 - (length ks - length rest), rest, h(k := True)))"
      using Cons.IH [of "n - 1"] Cons.prems by simp
    show ?thesis
    proof (cases "dropWhile h ks")
      case Nil
      then show ?thesis unfolding eq ih using True by (simp del: dropWhile_eq_Nil_conv)
    next
      case (Cons x rest)
      then have "length rest < length ks" by (metis length_dropWhile_le Suc_le_eq length_Cons)
      then show ?thesis unfolding eq ih using True Cons by (simp add: Suc_diff_le)
    qed
  next
    case False
    then show ?thesis using n' Cons.prems by (simp add: wu_eq)
  qed
qed simp

definition wq_ok :: "WaitQueue \<Rightarrow> bool" where
  "wq_ok q \<longleftrightarrow> num_wakers q = length (wakers q) \<and> length (wakers q) < 2 ^ 32"

lemma wake_one_eq:
  assumes "wq_ok q"
  shows "wake_one wu q = (case dropWhile (has_woken q) (wakers q) of
      [] \<Rightarrow> (False, \<lparr>num_wakers = 0, wakers = [], has_woken = has_woken q\<rparr>)
    | k # rest \<Rightarrow> (True, \<lparr>num_wakers = length rest, wakers = rest, has_woken = (has_woken q)(k := True)\<rparr>))"
proof (cases "wakers q = []")
  case True
  then show ?thesis using assms by (cases q) (simp add: wake_one_def wq_is_empty_def wq_ok_def)
next
  case False
  have "length (dropWhile (has_woken q) (wakers q)) \<le> length (wakers q)" by (rule length_dropWhile_le)
  then show ?thesis using wake_one_loop_eq [of "wakers q" "num_wakers q" "has_woken q"] assms False
    by (cases "dropWhile (has_woken q) (wakers q)")
      (simp_all add: wake_one_def wq_is_empty_def wq_ok_def del: dropWhile_eq_Nil_conv)
qed

end

text \<open>The behaviour the documentation describes, as a function: the instance of the contract.\<close>

definition swap_wake_up :: wake_fn where
  "swap_wake_up h k = (\<not> h k, h(k := True))"

interpretation sw: waker_contract swap_wake_up
  by unfold_locales (simp_all add: swap_wake_up_def)

section \<open>The mutex\<close>

record Mutex =
  m_lock :: bool
  m_queue :: WaitQueue

definition mutex_new :: Mutex where
  "mutex_new = \<lparr>m_lock = False, m_queue = wq_new\<rparr>"

definition acquire_lock :: "Mutex \<Rightarrow> bool \<times> Mutex" where
  "acquire_lock m = (if m_lock m = False then (True, m\<lparr>m_lock := True\<rparr>) else (False, m))"

definition mutex_try_lock :: "Mutex \<Rightarrow> unit option \<times> Mutex" where
  "mutex_try_lock m = (let (ok, m') = acquire_lock m in (if ok then Some () else None, m'))"

definition mutex_release_lock :: "Mutex \<Rightarrow> Mutex" where
  "mutex_release_lock m = m\<lparr>m_lock := False\<rparr>"

text \<open>\<open>unlock\<close>, which dropping the guard calls.\<close>

definition mutex_unlock :: "wake_fn \<Rightarrow> Mutex \<Rightarrow> Mutex" where
  "mutex_unlock wu m = (let m' = mutex_release_lock m in m'\<lparr>m_queue := snd (wake_one wu (m_queue m'))\<rparr>)"

interpretation mutex: excl_lock m_lock acquire_lock mutex_release_lock
  by unfold_locales (auto simp: acquire_lock_def mutex_release_lock_def)

text \<open>\<open>lock\<close> is \<open>wait_until(|| self.try_lock())\<close>.\<close>

definition on_m_queue :: "(WaitQueue \<Rightarrow> WaitQueue) \<Rightarrow> Mutex \<Rightarrow> Mutex" where
  "on_m_queue f m = m\<lparr>m_queue := f (m_queue m)\<rparr>"

definition mutex_lock :: "waker \<Rightarrow> Mutex others \<Rightarrow> (Mutex others \<times> Mutex others) list \<Rightarrow> Mutex \<Rightarrow> unit option \<times> Mutex" where
  "mutex_lock k first es m = wait_until on_m_queue mutex_try_lock k first es m"

section \<open>Properties\<close>

text \<open>Whatever the other threads do, \<open>lock\<close> returns only with the mutex taken.\<close>

lemma try_lock_eq: "mutex_try_lock m = (if m_lock m then (None, m) else (Some (), m\<lparr>m_lock := True\<rparr>))"
  by (simp add: mutex_try_lock_def acquire_lock_def)

lemma mutex_lock_holds: "mutex_lock k first es m = (Some (), m') \<Longrightarrow> m_lock m'"
proof -
  have "wait_loop on_m_queue mutex_try_lock k es m = (Some (), m') \<Longrightarrow> m_lock m'" for m
    by (induction on_m_queue "mutex_try_lock" k es m rule: wait_loop.induct) (auto simp: try_lock_eq Let_def split: if_splits)
  then show "mutex_lock k first es m = (Some (), m') \<Longrightarrow> m_lock m'"
    by (auto simp: mutex_lock_def wait_until_def try_lock_eq split: if_splits)
qed

text \<open>A call that finds the mutex taken and then free; a call that finds it taken in its first round and sleeps.\<close>

lemma mutex_lock_second:
  assumes "m_lock m" "\<not> m_lock (others m)"
  shows "mutex_lock k others [(id, id)] m =
    (Some (), (on_m_queue (\<lambda>q. enqueue (new_pair q k) k) (others m))\<lparr>m_lock := True\<rparr>)"
  using assms by (simp add: mutex_lock_def wait_until_def try_lock_eq on_m_queue_def)

lemma mutex_lock_sleeps:
  assumes "m_lock m"
  shows "mutex_lock k id [(id, id)] m = (None, on_m_queue (\<lambda>q. enqueue (new_pair q k) k) m)"
  using assms by (simp add: mutex_lock_def wait_until_def try_lock_eq on_m_queue_def)

text \<open>A queue in which nobody sleeps: the counter is right and the waker of every entry has been woken or closed.\<close>

definition nobody_sleeps :: "WaitQueue \<Rightarrow> bool" where
  "nobody_sleeps q \<longleftrightarrow> num_wakers q = length (wakers q) \<and> length (wakers q) < 2 ^ 32 - 2 \<and> (\<forall>x \<in> set (wakers q). has_woken q x)"

lemma wake_after_two:
  assumes "waker_contract wu" "nobody_sleeps q" "k \<notin> set (wakers q)" "j \<notin> set (wakers q)" "j \<noteq> k"
  defines "q2 \<equiv> enqueue (new_pair (enqueue (new_pair q k) k) j) j"
    and "q3 \<equiv> enqueue (new_pair (waiter_drop (enqueue (new_pair q k) k) k) j) j"
  shows "snd (wake_one wu q2) = \<lparr>num_wakers = 1, wakers = [j], has_woken = (has_woken q)(k := True, j := False)\<rparr>"
    and "snd (wake_one wu q3) = \<lparr>num_wakers = 0, wakers = [], has_woken = (has_woken q)(k := True, j := True)\<rparr>"
proof -
  note q = assms(2) [unfolded nobody_sleeps_def]
  have len: "length (wakers q) < 4294967294" using q by simp
  have q2: "q2 = \<lparr>num_wakers = length (wakers q) + 2, wakers = wakers q @ [k, j], has_woken = (has_woken q)(k := False, j := False)\<rparr>"
    and q3: "q3 = \<lparr>num_wakers = length (wakers q) + 2, wakers = wakers q @ [k, j], has_woken = (has_woken q)(k := True, j := False)\<rparr>"
    using q len by (simp_all add: q2_def q3_def enqueue_def new_pair_def waiter_drop_def waker_close_def u32_inc_def)
  have "dropWhile (has_woken q2) (wakers q2) = [k, j]" "dropWhile (has_woken q3) (wakers q3) = [j]"
    unfolding q2 q3 using q assms(3-5) by (auto simp: dropWhile_append)
  then show "snd (wake_one wu q2) = \<lparr>num_wakers = 1, wakers = [j], has_woken = (has_woken q)(k := True, j := False)\<rparr>"
    "snd (wake_one wu q3) = \<lparr>num_wakers = 0, wakers = [], has_woken = (has_woken q)(k := True, j := True)\<rparr>"
    using waker_contract.wake_one_eq [OF assms(1), of q2] waker_contract.wake_one_eq [OF assms(1), of q3] len assms(5)
    by (simp_all add: waker_contract.wq_ok_def [OF assms(1)] q2 q3 fun_upd_twist)
qed

text \<open>C40: a thread that got the mutex after queueing leaves its waker behind, and the next wake-up is lost on it.
  \<open>wait_until\<close> returns from its loop without dropping the waiter, so nothing closes the waker.  Thread \<open>k\<close> calls \<open>lock\<close>, finds the mutex
  taken, queues, and gets it in the loop because the other threads have freed it meanwhile, in whatever way, with nobody
  asleep in the queue; thread \<open>j\<close> calls \<open>lock\<close>, queues and sleeps; thread \<open>k\<close> releases the mutex.  For every \<open>wake_up\<close> that does
  what it documents, the wake-up goes to \<open>k\<close>, which does not wait: the mutex is free, and \<open>j\<close> is in the queue and has not been
  woken.  Had \<open>k\<close> dropped its waiter when \<open>lock\<close> returned, \<open>j\<close> would have been woken.\<close>

theorem mutex_wakeup_lost:
  assumes "waker_contract wu" "m_lock m" "\<not> m_lock (others m)" "nobody_sleeps (m_queue (others m))"
    "k \<notin> set (wakers (m_queue (others m)))" "j \<notin> set (wakers (m_queue (others m)))" "j \<noteq> k"
  shows "\<exists>m1 m2 m3. mutex_lock k others [(id, id)] m = (Some (), m1) \<and> mutex_lock j id [(id, id)] m1 = (None, m2) \<and>
    mutex_unlock wu m2 = m3 \<and> \<not> m_lock m3 \<and> wakers (m_queue m3) = [j] \<and> \<not> has_woken (m_queue m3) j \<and>
    has_woken (m_queue (mutex_unlock wu (snd (mutex_lock j id [(id, id)] (on_m_queue (\<lambda>q. waiter_drop q k) m1))))) j"
proof -
  define q where "q = m_queue (others m)"
  define m1 where "m1 = (on_m_queue (\<lambda>q. enqueue (new_pair q k) k) (others m))\<lparr>m_lock := True\<rparr>"
  define d1 where "d1 = on_m_queue (\<lambda>q. waiter_drop q k) m1"
  define m2 where "m2 = on_m_queue (\<lambda>q. enqueue (new_pair q j) j) m1"
  define d2 where "d2 = on_m_queue (\<lambda>q. enqueue (new_pair q j) j) d1"
  have held: "m_lock m1" "m_lock d1" by (simp_all add: m1_def d1_def on_m_queue_def)
  have "mutex_lock k others [(id, id)] m = (Some (), m1)" unfolding m1_def by (rule mutex_lock_second [where others = others, OF assms(2,3)])
  moreover have "mutex_lock j id [(id, id)] m1 = (None, m2)" "mutex_lock j id [(id, id)] d1 = (None, d2)"
    unfolding m2_def d2_def by (rule mutex_lock_sleeps [OF held(1)], rule mutex_lock_sleeps [OF held(2)])
  moreover note wake_after_two [OF assms(1,4-7)]
  then have "wakers (m_queue (mutex_unlock wu m2)) = [j]" "\<not> has_woken (m_queue (mutex_unlock wu m2)) j"
    "has_woken (m_queue (mutex_unlock wu d2)) j"
    by (simp_all add: mutex_unlock_def mutex_release_lock_def m2_def d2_def d1_def m1_def on_m_queue_def)
  moreover have "\<not> m_lock (mutex_unlock wu m2)" by (simp add: mutex_unlock_def mutex_release_lock_def)
  ultimately show ?thesis by (simp flip: d1_def)
qed

theorem mutex_wakeup_lost_witness:
  "\<exists>m1 m2. mutex_lock 1 (mutex_unlock swap_wake_up) [(id, id)] (mutex_new\<lparr>m_lock := True\<rparr>) = (Some (), m1) \<and>
     mutex_lock 2 id [(id, id)] m1 = (None, m2) \<and> \<not> m_lock (mutex_unlock swap_wake_up m2) \<and>
     \<not> has_woken (m_queue (mutex_unlock swap_wake_up m2)) 2"
  using mutex_wakeup_lost [OF sw.waker_contract_axioms, of "mutex_new\<lparr>m_lock := True\<rparr>" "mutex_unlock swap_wake_up" 1 2]
  by (auto simp: mutex_new_def wq_new_def mutex_unlock_def mutex_release_lock_def wake_one_def wq_is_empty_def nobody_sleeps_def)

text \<open>\<open>wake_one\<close> wakes the first thread that still waits.  For a queue whose counter agrees with it and a
  \<open>wake_up\<close> that does what it documents, it answers whether some waker of the queue was not woken or closed
  yet, marks the first such waker, and takes exactly the wakers up to it off the queue.\<close>

lemma wake_one_first_sleeper:
  assumes "waker_contract wu" "num_wakers q = length (wakers q)" "length (wakers q) < 2 ^ 32"
  shows "wake_one wu q = (case dropWhile (has_woken q) (wakers q) of
      [] \<Rightarrow> (False, \<lparr>num_wakers = 0, wakers = [], has_woken = has_woken q\<rparr>)
    | k # rest \<Rightarrow> (True, \<lparr>num_wakers = length rest, wakers = rest, has_woken = (has_woken q)(k := True)\<rparr>))"
  using waker_contract.wake_one_eq [OF assms(1), of q] assms(2,3) waker_contract.wq_ok_def [OF assms(1)] by simp

end
