(* ===== verification/Rw_Mutex.thy ===== *)
theory Rw_Mutex
  imports Rw_Lock Wait_Queue
begin

text \<open>
  The sleeping read-write lock of \<open>src/ostd/src/sync/rwmutex.rs\<close>.  Its word has the layout of the spinning
  lock's and its operations act on the word in the same way; in addition a writer can be downgraded, and
  dropping a guard wakes threads of the wait queue when the old value of the word satisfies a condition.
  Safety therefore reduces to the protocol of \<open>Rw_Lock\<close> plus one step; the wake-ups are what is new.
\<close>

section \<open>The operations\<close>

record RwMutex =
  rm_lock :: lock_word
  rm_queue :: WaitQueue

definition rw_mutex_new :: RwMutex where
  "rw_mutex_new = \<lparr>rm_lock = 0, rm_queue = wq_new\<rparr>"

definition rm_try_read_enter :: "RwMutex \<Rightarrow> bool \<times> RwMutex" where
  "rm_try_read_enter m = (
     let lock = rm_lock m
     in (lock AND (WRITER OR BEING_UPGRADED OR MAX_READER) = 0, m\<lparr>rm_lock := lock + READER\<rparr>))"

definition rm_try_read_retract :: "RwMutex \<Rightarrow> RwMutex" where
  "rm_try_read_retract m = m\<lparr>rm_lock := rm_lock m - READER\<rparr>"

definition rm_try_write :: "RwMutex \<Rightarrow> bool \<times> RwMutex" where
  "rm_try_write m = (if rm_lock m = 0 then (True, m\<lparr>rm_lock := WRITER\<rparr>) else (False, m))"

definition rm_try_upread_enter :: "RwMutex \<Rightarrow> upread_answer \<times> RwMutex" where
  "rm_try_upread_enter m = (
     let lock = rm_lock m AND (WRITER OR UPGRADEABLE_READER)
     in (if lock = 0 then Granted else if lock = WRITER then RefusedRetract else Refused,
         m\<lparr>rm_lock := rm_lock m OR UPGRADEABLE_READER\<rparr>))"

definition rm_try_upread_retract :: "RwMutex \<Rightarrow> RwMutex" where
  "rm_try_upread_retract m = m\<lparr>rm_lock := rm_lock m - UPGRADEABLE_READER\<rparr>"

definition rm_read_guard_drop :: "wake_fn \<Rightarrow> RwMutex \<Rightarrow> RwMutex" where
  "rm_read_guard_drop wu m = (
     let prev = rm_lock m; m' = m\<lparr>rm_lock := prev - READER\<rparr>
     in if prev = READER then m'\<lparr>rm_queue := snd (wake_one wu (rm_queue m'))\<rparr> else m')"

definition rm_write_guard_drop :: "wake_fn \<Rightarrow> RwMutex \<Rightarrow> RwMutex" where
  "rm_write_guard_drop wu m = m\<lparr>rm_lock := rm_lock m AND NOT WRITER, rm_queue := snd (wake_all wu (rm_queue m))\<rparr>"

definition rm_try_downgrade :: "RwMutex \<Rightarrow> bool \<times> RwMutex" where
  "rm_try_downgrade m = (if rm_lock m = WRITER then (True, m\<lparr>rm_lock := UPGRADEABLE_READER\<rparr>) else (False, m))"

definition rm_downgrade_finish :: "wake_fn \<Rightarrow> RwMutex \<Rightarrow> RwMutex" where
  "rm_downgrade_finish wu m = m\<lparr>rm_lock := rm_lock m AND NOT WRITER, rm_queue := snd (wake_all wu (rm_queue m))\<rparr>"

definition rm_upgrade_announce :: "RwMutex \<Rightarrow> RwMutex" where
  "rm_upgrade_announce m = m\<lparr>rm_lock := rm_lock m OR BEING_UPGRADED\<rparr>"

definition rm_try_upgrade :: "RwMutex \<Rightarrow> bool \<times> RwMutex" where
  "rm_try_upgrade m = (if rm_lock m = UPGRADEABLE_READER OR BEING_UPGRADED
     then (True, m\<lparr>rm_lock := WRITER OR UPGRADEABLE_READER\<rparr>) else (False, m))"

definition rm_try_upgrade_finish :: "RwMutex \<Rightarrow> RwMutex" where
  "rm_try_upgrade_finish m = m\<lparr>rm_lock := rm_lock m - UPGRADEABLE_READER\<rparr>"

definition rm_upgradeable_guard_drop :: "wake_fn \<Rightarrow> RwMutex \<Rightarrow> RwMutex" where
  "rm_upgradeable_guard_drop wu m = (
     let prev = rm_lock m; m' = m\<lparr>rm_lock := prev - UPGRADEABLE_READER\<rparr>
     in if prev = UPGRADEABLE_READER then m'\<lparr>rm_queue := snd (wake_all wu (rm_queue m'))\<rparr> else m')"

section \<open>The system\<close>

record 'v rm_sys =
  rm :: RwMutex
  rm_cell :: 'v
  rm_acts :: "activity multiset"

text \<open>The queue is also changed by threads that queue; that does not touch the word.  The second operation of a
  downgrade clears a bit that is already clear; it is allowed as long as the upgradeable guard is held.\<close>

inductive rm_step :: "wake_fn \<Rightarrow> 'v rm_sys \<Rightarrow> 'v rm_sys \<Rightarrow> bool" for wu where
  rm_queued: "rm_step wu \<lparr>rm = m, rm_cell = v, rm_acts = A\<rparr> \<lparr>rm = m\<lparr>rm_queue := q\<rparr>, rm_cell = v, rm_acts = A\<rparr>"
| rm_read_ok: "rm_try_read_enter m = (True, m') \<Longrightarrow>
     rm_step wu \<lparr>rm = m, rm_cell = v, rm_acts = A\<rparr> \<lparr>rm = m', rm_cell = v, rm_acts = add_mset Reading A\<rparr>"
| rm_read_refused: "rm_try_read_enter m = (False, m') \<Longrightarrow> count A ReadRetract < MAX_PENDING \<Longrightarrow>
     rm_step wu \<lparr>rm = m, rm_cell = v, rm_acts = A\<rparr> \<lparr>rm = m', rm_cell = v, rm_acts = add_mset ReadRetract A\<rparr>"
| rm_read_retract:
     "rm_step wu \<lparr>rm = m, rm_cell = v, rm_acts = add_mset ReadRetract A\<rparr> \<lparr>rm = rm_try_read_retract m, rm_cell = v, rm_acts = A\<rparr>"
| rm_read_drop:
     "rm_step wu \<lparr>rm = m, rm_cell = v, rm_acts = add_mset Reading A\<rparr> \<lparr>rm = rm_read_guard_drop wu m, rm_cell = v, rm_acts = A\<rparr>"
| rm_write_ok: "rm_try_write m = (True, m') \<Longrightarrow>
     rm_step wu \<lparr>rm = m, rm_cell = v, rm_acts = A\<rparr> \<lparr>rm = m', rm_cell = v, rm_acts = add_mset Writing A\<rparr>"
| rm_store:
     "rm_step wu \<lparr>rm = m, rm_cell = v, rm_acts = add_mset Writing A\<rparr> \<lparr>rm = m, rm_cell = v', rm_acts = add_mset Writing A\<rparr>"
| rm_write_drop:
     "rm_step wu \<lparr>rm = m, rm_cell = v, rm_acts = add_mset Writing A\<rparr> \<lparr>rm = rm_write_guard_drop wu m, rm_cell = v, rm_acts = A\<rparr>"
| rm_downgrade: "rm_try_downgrade m = (True, m') \<Longrightarrow>
     rm_step wu \<lparr>rm = m, rm_cell = v, rm_acts = add_mset Writing A\<rparr> \<lparr>rm = m', rm_cell = v, rm_acts = add_mset Upreading A\<rparr>"
| rm_downgraded:
     "rm_step wu \<lparr>rm = m, rm_cell = v, rm_acts = add_mset Upreading A\<rparr>
        \<lparr>rm = rm_downgrade_finish wu m, rm_cell = v, rm_acts = add_mset Upreading A\<rparr>"
| rm_upread: "rm_try_upread_enter m = (ans, m') \<Longrightarrow>
     rm_step wu \<lparr>rm = m, rm_cell = v, rm_acts = A\<rparr> \<lparr>rm = m', rm_cell = v,
       rm_acts = (case ans of Granted \<Rightarrow> add_mset Upreading A | RefusedRetract \<Rightarrow> add_mset UpreadRetract A | Refused \<Rightarrow> A)\<rparr>"
| rm_upread_retract:
     "rm_step wu \<lparr>rm = m, rm_cell = v, rm_acts = add_mset UpreadRetract A\<rparr> \<lparr>rm = rm_try_upread_retract m, rm_cell = v, rm_acts = A\<rparr>"
| rm_upread_drop:
     "rm_step wu \<lparr>rm = m, rm_cell = v, rm_acts = add_mset Upreading A\<rparr> \<lparr>rm = rm_upgradeable_guard_drop wu m, rm_cell = v, rm_acts = A\<rparr>"
| rm_upgrade:
     "rm_step wu \<lparr>rm = m, rm_cell = v, rm_acts = add_mset Upreading A\<rparr>
        \<lparr>rm = rm_upgrade_announce m, rm_cell = v, rm_acts = add_mset Upgrading A\<rparr>"
| rm_upgrade_ok: "rm_try_upgrade m = (True, m') \<Longrightarrow>
     rm_step wu \<lparr>rm = m, rm_cell = v, rm_acts = add_mset Upgrading A\<rparr> \<lparr>rm = m', rm_cell = v, rm_acts = add_mset UpgradeFinish A\<rparr>"
| rm_upgrade_finish:
     "rm_step wu \<lparr>rm = m, rm_cell = v, rm_acts = add_mset UpgradeFinish A\<rparr>
        \<lparr>rm = rm_try_upgrade_finish m, rm_cell = v, rm_acts = add_mset Writing A\<rparr>"

definition rm_reachable :: "wake_fn \<Rightarrow> 'v rm_sys \<Rightarrow> bool" where
  "rm_reachable wu s \<longleftrightarrow> (\<exists>v. (rm_step wu)\<^sup>*\<^sup>* \<lparr>rm = rw_mutex_new, rm_cell = v, rm_acts = {#}\<rparr> s)"

section \<open>Reduction to the spinning lock\<close>

definition rm_view :: "'v rm_sys \<Rightarrow> 'v rw_sys" where
  "rm_view s = \<lparr>lock_val = rm_lock (rm s), cell = rm_cell s, acts = rm_acts s\<rparr>"

lemmas rm_ops = rm_try_read_enter_def rm_try_read_retract_def rm_try_write_def rm_try_upread_enter_def
  rm_try_upread_retract_def rm_read_guard_drop_def rm_write_guard_drop_def rm_try_downgrade_def rm_downgrade_finish_def
  rm_upgrade_announce_def rm_try_upgrade_def rm_try_upgrade_finish_def rm_upgradeable_guard_drop_def

lemma mask_commute: "WRITER OR BEING_UPGRADED OR MAX_READER = WRITER OR MAX_READER OR BEING_UPGRADED"
  by (simp add: or.commute or.left_commute)

lemma writer_word: "rw_inv \<lparr>lock_val = WRITER, cell = v, acts = A\<rparr> \<Longrightarrow>
    count A Reading = 0 \<and> count A ReadRetract = 0 \<and> upgrade_holders A = 0"
proof -
  assume inv: "rw_inv \<lparr>lock_val = WRITER, cell = v, acts = A\<rparr>"
  have z: "(0::nat) < 2 ^ 61" by simp
  have "enc (count A Reading + count A ReadRetract) (0 < writers A) (0 < upgrade_holders A) (0 < count A Upgrading) =
      enc 0 True False False"
    using inv by (simp add: rw_inv_def flip: enc_values(2))
  then show ?thesis using enc_inject [OF rw_inv_bound [OF inv] z] by simp
qed

text \<open>Every step is one of the spinning lock, or leaves the word and the guards alone, or is a downgrade.\<close>

lemma rm_step_view:
  assumes "rm_step wu s s'" "rw_inv (rm_view s)"
  shows "rw_step (rm_view s) (rm_view s') \<or> rm_view s' = rm_view s \<or>
    (\<exists>A. rm_acts s = add_mset Writing A \<and> rm_acts s' = add_mset Upreading A \<and> rm_cell s' = rm_cell s \<and>
       rm_lock (rm s) = WRITER \<and> rm_lock (rm s') = UPGRADEABLE_READER)"
  using assms
proof (induction rule: rm_step.induct)
  case (rm_downgraded m v A)
  then have "rm_lock m AND NOT WRITER = rm_lock m"
    using rw_inv_bound [OF rm_downgraded] by (auto simp: rm_view_def rw_inv_def writers_def)
  then show ?case by (simp add: rm_view_def rm_downgrade_finish_def)
next
  case (rm_upread m ans m' v A)
  then show ?case
    by (cases ans) (auto simp: rm_view_def rm_try_upread_enter_def Let_def try_upread_enter_def split: if_splits
      intro!: rw_step.upread_ok rw_step.upread_refused rw_step.upread_refused_retract)
next
  case (rm_downgrade m m' v A)
  then show ?case by (auto simp: rm_try_downgrade_def split: if_splits)
next
  case (rm_queued m v A q)
  then show ?case by (simp add: rm_view_def)
next
  case (rm_store m v A v')
  then show ?case using rw_step.store [of "rm_lock m" v A v'] by (simp add: rm_view_def)
next
  case (rm_read_ok m m' v A)
  then show ?case using rw_step.read_ok [of "rm_lock m" _ v A] by (auto simp: rm_view_def rm_ops rw_ops Let_def mask_commute split: if_splits)
next
  case (rm_read_refused m m' A v)
  then show ?case using rw_step.read_refused [of "rm_lock m" _ A v] by (auto simp: rm_view_def rm_ops rw_ops Let_def mask_commute split: if_splits)
next
  case (rm_read_retract m v A)
  then show ?case using rw_step.read_retract [of "rm_lock m" v A] by (auto simp: rm_view_def rm_ops rw_ops Let_def split: if_splits)
next
  case (rm_read_drop m v A)
  then show ?case using rw_step.read_drop [of "rm_lock m" v A] by (auto simp: rm_view_def rm_ops rw_ops Let_def split: if_splits)
next
  case (rm_write_ok m m' v A)
  then show ?case using rw_step.write_ok [of "rm_lock m" _ v A] by (auto simp: rm_view_def rm_ops rw_ops Let_def split: if_splits)
next
  case (rm_write_drop m v A)
  then show ?case using rw_step.write_drop [of "rm_lock m" v A] by (auto simp: rm_view_def rm_ops rw_ops Let_def split: if_splits)
next
  case (rm_upread_retract m v A)
  then show ?case using rw_step.upread_retract [of "rm_lock m" v A] by (auto simp: rm_view_def rm_ops rw_ops Let_def split: if_splits)
next
  case (rm_upread_drop m v A)
  then show ?case using rw_step.upread_drop [of "rm_lock m" v A] by (auto simp: rm_view_def rm_ops rw_ops Let_def split: if_splits)
next
  case (rm_upgrade m v A)
  then show ?case using rw_step.upgrade [of "rm_lock m" v A] by (auto simp: rm_view_def rm_ops rw_ops Let_def split: if_splits)
next
  case (rm_upgrade_ok m m' v A)
  then show ?case using rw_step.upgrade_ok [of "rm_lock m" _ v A] by (auto simp: rm_view_def rm_ops rw_ops Let_def split: if_splits)
next
  case (rm_upgrade_finish m v A)
  then show ?case using rw_step.upgrade_finish [of "rm_lock m" v A] by (auto simp: rm_view_def rm_ops rw_ops Let_def split: if_splits)
qed

lemma rm_step_inv:
  assumes "rm_step wu s s'" "rw_inv (rm_view s)"
  shows "rw_inv (rm_view s')"
proof -
  consider "rw_step (rm_view s) (rm_view s')" | "rm_view s' = rm_view s"
    | A where "rm_acts s = add_mset Writing A" "rm_acts s' = add_mset Upreading A"
        "rm_lock (rm s) = WRITER" "rm_lock (rm s') = UPGRADEABLE_READER"
    using rm_step_view [OF assms] by blast
  then show ?thesis
  proof cases
    case 1
    then show ?thesis using rw_step_inv assms(2) by blast
  next
    case 2
    then show ?thesis using assms(2) by simp
  next
    case (3 A)
    have z: "count A Reading = 0" "count A ReadRetract = 0" "upgrade_holders A = 0"
      using writer_word [of "rm_cell s" "add_mset Writing A"] assms(2) 3 by (auto simp: rm_view_def upgrade_holders_def)
    moreover have "writers A = 0" using assms(2) 3 by (simp add: rm_view_def rw_inv_def writers_def)
    ultimately show ?thesis using 3
      by (simp add: rm_view_def rw_inv_def writers_def upgrade_holders_def enc_values(3))
  qed
qed

lemma rm_reachable_inv:
  assumes "rm_reachable wu s"
  shows "rw_inv (rm_view s)"
proof -
  obtain v where "(rm_step wu)\<^sup>*\<^sup>* \<lparr>rm = rw_mutex_new, rm_cell = v, rm_acts = {#}\<rparr> s"
    using assms by (auto simp: rm_reachable_def)
  then show ?thesis
  proof (induction rule: rtranclp_induct)
    case base
    show ?case using rw_new_inv [of v] by (simp add: rm_view_def rw_new_def rw_mutex_new_def)
  next
    case (step t u)
    then show ?case using rm_step_inv by blast
  qed
qed

section \<open>Properties\<close>

text \<open>The sleeping read-write lock excludes as the spinning one does, also with downgrades: under any
  interleaving there is at most one writer, with a writer there is no other guard, there is at most one
  upgradeable guard, and no step changes the value while a read or an upgradeable guard is held.\<close>

lemma rw_mutex_exclusion:
  assumes "rm_reachable wu s"
  shows "count (rm_acts s) Writing \<le> 1 \<and> count (rm_acts s) Upreading + count (rm_acts s) Upgrading \<le> 1 \<and>
    (Writing \<in># rm_acts s \<longrightarrow> Reading \<notin># rm_acts s \<and> Upreading \<notin># rm_acts s \<and> Upgrading \<notin># rm_acts s) \<and>
    (\<forall>s'. rm_step wu s s' \<longrightarrow>
       Reading \<in># rm_acts s \<or> Upreading \<in># rm_acts s \<or> Upgrading \<in># rm_acts s \<longrightarrow> rm_cell s' = rm_cell s)"
proof -
  have inv: "rw_inv (rm_view s)" by (rule rm_reachable_inv [OF assms])
  have w: "Writing \<in># rm_acts s \<Longrightarrow> Reading \<notin># rm_acts s \<and> Upreading \<notin># rm_acts s \<and> Upgrading \<notin># rm_acts s"
    using inv by (auto simp: rm_view_def rw_inv_def writers_def count_eq_zero_iff count_greater_zero_iff)
  have c: "rm_cell s' = rm_cell s" if "rm_step wu s s'" "Writing \<notin># rm_acts s" for s'
    using that by (induction rule: rm_step.induct) auto
  have "count (rm_acts s) Writing \<le> 1" "count (rm_acts s) Upreading + count (rm_acts s) Upgrading \<le> 1"
    using inv by (auto simp: rm_view_def rw_inv_def writers_def upgrade_holders_def)
  then show ?thesis using w c by blast
qed

lemma demo_rm: "rm_reachable wu \<lparr>rm = rw_mutex_new\<lparr>rm_lock := UPGRADEABLE_READER\<rparr>, rm_cell = v, rm_acts = {#Upreading#}\<rparr>"
proof -
  let ?s0 = "\<lparr>rm = rw_mutex_new, rm_cell = v, rm_acts = {#}\<rparr>"
  let ?s1 = "\<lparr>rm = rw_mutex_new\<lparr>rm_lock := WRITER\<rparr>, rm_cell = v, rm_acts = {#Writing#}\<rparr>"
  have "rm_step wu ?s0 ?s1" by (rule rm_step.rm_write_ok) (simp add: rm_try_write_def rw_mutex_new_def)
  moreover have "rm_step wu ?s1 \<lparr>rm = rw_mutex_new\<lparr>rm_lock := UPGRADEABLE_READER\<rparr>, rm_cell = v, rm_acts = {#Upreading#}\<rparr>"
    by (rule rm_step.rm_downgrade) (simp add: rm_try_downgrade_def)
  ultimately show ?thesis unfolding rm_reachable_def by (metis converse_rtranclp_into_rtranclp rtranclp.rtrancl_refl)
qed

text \<open>A refused \<open>try_read\<close> can cost a writer its wake-up.  While a writer holds the lock and thread 1 waits
  to write, another thread calls \<open>try_read\<close> and has added its count but not taken it back when the writer
  leaves and wakes thread 1.  Thread 1 queues again, finds the word nonzero and sleeps; then the refused
  reader takes its count back, which frees the lock and wakes nobody.  For every \<open>wake_up\<close> that does what it
  documents the lock ends up free, with no guard held, while thread 1 sleeps in the queue.\<close>

lemma rw_mutex_wakeup_lost:
  assumes "waker_contract wu"
  shows "let m0 = \<lparr>rm_lock = WRITER, rm_queue = enqueue (new_pair wq_new 1) 1\<rparr>;
      (ok, m1) = rm_try_read_enter m0;
      m2 = rm_write_guard_drop wu m1;
      m3 = m2\<lparr>rm_queue := enqueue ((rm_queue m2)\<lparr>has_woken := (has_woken (rm_queue m2))(1 := False)\<rparr>) 1\<rparr>;
      (got, m4) = rm_try_write m3;
      m5 = rm_try_read_retract m4
    in ok = False \<and> has_woken (rm_queue m2) 1 \<and> got = False \<and>
       rm_lock m5 = 0 \<and> wakers (rm_queue m5) = [1] \<and> \<not> has_woken (rm_queue m5) 1"
proof -
  note eq = waker_contract.wu_eq [OF assms]
  have w: "WRITER \<noteq> 0" by (metis bit_0_eq bot_apply bot_bool_def flag_bits(1))
  have r: "WRITER + READER = enc 1 True False False" by (simp add: enc_def READER_def)
  have "(WRITER + READER) AND NOT WRITER = enc 1 False False False" unfolding r by simp
  also have "\<dots> = READER" by (simp add: enc_def READER_def)
  finally have d: "(WRITER + READER) AND NOT WRITER = READER" .
  have ne: "READER \<noteq> 0" by (simp add: READER_def)
  show ?thesis
    by (simp add: eq w d ne rm_try_read_enter_def rm_write_guard_drop_def rm_try_write_def rm_try_read_retract_def
      wake_all_def wq_is_empty_def enqueue_def new_pair_def wq_new_def u32_inc_def Let_def)
qed

end
