(* ===== verification/Frame_Meta.thy ===== *)
theory Frame_Meta
  imports Mm_Layout "HOL-Library.Multiset"
begin

text \<open>
  The metadata slots of physical frames: \<open>src/ostd/src/mm/frame/meta.rs\<close>, with the handles of
  \<open>src/ostd/src/mm/frame/mod.rs\<close> (\<open>Frame\<close>, shared) and \<open>src/ostd/src/mm/frame/unique.rs\<close> (\<open>UniqueFrame\<close>).

  The first part is the arithmetic between frames and slots.  The second part is the life cycle of one
  slot.  Its \<open>ref_count\<close> is one atomic 64-bit word with two reserved values and a transient value 0; each
  definition is one atomic operation of the code or one access to the metadata, and the system is a step
  relation over the word, the stored metadata and the multiset of handles and operations in flight.
\<close>

section \<open>Slots of frames\<close>

definition META_SLOT_SIZE :: usize where "META_SLOT_SIZE = 64"

datatype GetFrameError = InUse | Unused | Busy | UniqueErr | OutOfBound | NotAligned

definition frame_to_meta :: "Paddr \<Rightarrow> Vaddr option" where
  "frame_to_meta paddr = do {
     offset \<leftarrow> (if PAGE_SIZE = 0 then None else Some (paddr div PAGE_SIZE));
     o' \<leftarrow> umul offset META_SLOT_SIZE;
     uadd FRAME_METADATA_BASE_VADDR o'
   }"

definition meta_to_frame :: "Vaddr \<Rightarrow> Paddr option" where
  "meta_to_frame vaddr = do {
     d \<leftarrow> usub vaddr FRAME_METADATA_BASE_VADDR;
     umul (d div META_SLOT_SIZE) PAGE_SIZE
   }"

text \<open>\<open>max_paddr()\<close> has no body in the sources; it is an argument.\<close>

definition get_slot :: "Paddr \<Rightarrow> Paddr \<Rightarrow> (GetFrameError + Vaddr) option" where
  "get_slot max_paddr paddr = (
     if paddr mod PAGE_SIZE \<noteq> 0 then Some (Inl NotAligned)
     else if paddr \<ge> max_paddr then Some (Inl OutOfBound)
     else map_option Inr (frame_to_meta paddr))"

section \<open>Atomic operations on the reference count\<close>

definition REF_COUNT_UNUSED :: nat where "REF_COUNT_UNUSED = 2 ^ 64 - 1"
definition REF_COUNT_UNIQUE :: nat where "REF_COUNT_UNIQUE = 2 ^ 64 - 2"
definition REF_COUNT_MAX :: nat where "REF_COUNT_MAX = 2 ^ 63 - 1"

lemmas ref_consts = REF_COUNT_UNUSED_def REF_COUNT_UNIQUE_def REF_COUNT_MAX_def

text \<open>\<open>get_from_unused\<close>: the exchange that claims the slot, with the error it reports otherwise, and the final
  store, after the metadata was written.\<close>

definition get_from_unused_claim :: "nat \<Rightarrow> (GetFrameError + unit) \<times> nat" where
  "get_from_unused_claim rc = (
     if rc = REF_COUNT_UNUSED then (Inr (), 0)
     else (Inl (if rc = REF_COUNT_UNIQUE then UniqueErr else if rc = 0 then Busy else InUse), rc))"

definition get_from_unused_publish :: "bool \<Rightarrow> nat" where
  "get_from_unused_publish as_unique_ptr = (if as_unique_ptr then REF_COUNT_UNIQUE else 1)"

text \<open>\<open>get_from_in_use\<close>: one round of its loop loads the count and then exchanges it; the outer \<open>None\<close> is the
  panic on a saturated count.\<close>

definition get_from_in_use_load :: "nat \<Rightarrow> (GetFrameError + nat) option" where
  "get_from_in_use_load rc = (
     if rc = REF_COUNT_UNUSED then Some (Inl Unused)
     else if rc = REF_COUNT_UNIQUE then Some (Inl UniqueErr)
     else if rc = 0 then Some (Inl Busy)
     else if rc \<ge> REF_COUNT_MAX then None
     else Some (Inr rc))"

definition get_from_in_use_exchange :: "nat \<Rightarrow> nat \<Rightarrow> bool \<times> nat" where
  "get_from_in_use_exchange last_ref_cnt rc = (if rc = last_ref_cnt then (True, last_ref_cnt + 1) else (False, rc))"

text \<open>\<open>inc_ref_count\<close>: the new count, and whether the caller now aborts.\<close>

definition inc_ref_count :: "nat \<Rightarrow> bool \<times> nat" where
  "inc_ref_count rc = (rc \<ge> REF_COUNT_MAX, (rc + 1) mod 2 ^ 64)"

text \<open>\<open>Frame::drop\<close>: whether this was the last handle.\<close>

definition frame_drop_dec :: "nat \<Rightarrow> bool \<times> nat" where
  "frame_drop_dec rc = (rc = 1, if rc = 0 then 2 ^ 64 - 1 else rc - 1)"

definition drop_last_release :: nat where
  "drop_last_release = REF_COUNT_UNUSED"

text \<open>\<open>UniqueFrame::drop\<close> and \<open>reset_as_unused\<close> store 0 before they drop the metadata.\<close>

definition unique_drop_store :: nat where
  "unique_drop_store = 0"

definition from_unique_store :: nat where
  "from_unique_store = 1"

definition try_from_shared_exchange :: "nat \<Rightarrow> bool \<times> nat" where
  "try_from_shared_exchange rc = (if rc = 1 then (True, REF_COUNT_UNIQUE) else (False, rc))"

section \<open>The life cycle of a slot\<close>

text \<open>Handles: \<open>Shared\<close>, \<open>Exclusive\<close>.  In flight: \<open>Claimed\<close> and \<open>Written\<close> are the two halves of
  \<open>get_from_unused\<close>, \<open>Loaded\<close> is a round of \<open>get_from_in_use\<close> after its load, \<open>Repurposing\<close> is between the two
  halves of \<open>repurpose\<close>, \<open>LastDrop\<close> and \<open>Cleared\<close> are \<open>drop_last_in_place\<close> before and after the metadata is
  dropped, \<open>Aborting\<close> is a clone that found the count at its limit and is about to abort the kernel.\<close>

datatype 'm slot_act = Shared | Exclusive | Claimed 'm bool | Written bool | Loaded nat | Repurposing 'm | LastDrop | Cleared | Aborting

record 'm slot_sys =
  ref_count :: nat
  storage :: "'m option"
  slot_acts :: "'m slot_act multiset"
  written :: "'m list"
  dropped :: "'m list"

text \<open>\<open>write_meta\<close> and \<open>drop_meta_in_place\<close>, with a log of both; dropping metadata that is not there is undefined
  behaviour, \<open>None\<close>.\<close>

definition write_meta :: "'m \<Rightarrow> 'm slot_sys \<Rightarrow> 'm slot_sys" where
  "write_meta m s = s\<lparr>storage := Some m, written := written s @ [m]\<rparr>"

definition drop_meta_in_place :: "'m slot_sys \<Rightarrow> 'm slot_sys option" where
  "drop_meta_in_place s = (case storage s of
     None \<Rightarrow> None | Some m \<Rightarrow> Some (s\<lparr>storage := None, dropped := dropped s @ [m]\<rparr>))"

definition slot_init :: "'m slot_sys" where
  "slot_init = \<lparr>ref_count = REF_COUNT_UNUSED, storage = None, slot_acts = {#}, written = [], dropped = []\<rparr>"

definition swap_act :: "'m slot_act \<Rightarrow> 'm slot_act multiset \<Rightarrow> 'm slot_sys \<Rightarrow> 'm slot_sys" where
  "swap_act a B s = s\<lparr>slot_acts := slot_acts s - {#a#} + B\<rparr>"

text \<open>The count overshoots its limit by at most the number of threads that are in a clone at the same time; the
  bound leaves that number a quarter of the range of the word.\<close>

definition MAX_CLONERS :: nat where "MAX_CLONERS = 2 ^ 62"

inductive slot_step :: "'m slot_sys \<Rightarrow> 'm slot_sys \<Rightarrow> bool" where
  claim: "get_from_unused_claim (ref_count s) = (Inr (), rc) \<Longrightarrow>
     slot_step s (s\<lparr>ref_count := rc, slot_acts := add_mset (Claimed m u) (slot_acts s)\<rparr>)"
| write_md: "Claimed m u \<in># slot_acts s \<Longrightarrow>
     slot_step s (write_meta m (swap_act (Claimed m u) {#Written u#} s))"
| publish: "Written u \<in># slot_acts s \<Longrightarrow>
     slot_step s (swap_act (Written u) {#if u then Exclusive else Shared#} (s\<lparr>ref_count := get_from_unused_publish u\<rparr>))"
| load: "get_from_in_use_load (ref_count s) = Some (Inr n) \<Longrightarrow>
     slot_step s (s\<lparr>slot_acts := add_mset (Loaded n) (slot_acts s)\<rparr>)"
| exchange: "Loaded n \<in># slot_acts s \<Longrightarrow> get_from_in_use_exchange n (ref_count s) = (ok, rc) \<Longrightarrow>
     slot_step s (swap_act (Loaded n) (if ok then {#Shared#} else {#}) (s\<lparr>ref_count := rc\<rparr>))"
| clone: "Shared \<in># slot_acts s \<Longrightarrow> inc_ref_count (ref_count s) = (aborts, rc) \<Longrightarrow>
     count (slot_acts s) Aborting < MAX_CLONERS \<Longrightarrow>
     slot_step s (s\<lparr>ref_count := rc, slot_acts := add_mset (if aborts then Aborting else Shared) (slot_acts s)\<rparr>)"
| drop: "Shared \<in># slot_acts s \<Longrightarrow> frame_drop_dec (ref_count s) = (is_last, rc) \<Longrightarrow>
     slot_step s (swap_act Shared (if is_last then {#LastDrop#} else {#}) (s\<lparr>ref_count := rc\<rparr>))"
| drop_meta: "LastDrop \<in># slot_acts s \<Longrightarrow> drop_meta_in_place (swap_act LastDrop {#Cleared#} s) = Some s' \<Longrightarrow> slot_step s s'"
| release: "Cleared \<in># slot_acts s \<Longrightarrow> slot_step s (swap_act Cleared {#} (s\<lparr>ref_count := drop_last_release\<rparr>))"
| unique_drop: "Exclusive \<in># slot_acts s \<Longrightarrow>
     slot_step s (swap_act Exclusive {#LastDrop#} (s\<lparr>ref_count := unique_drop_store\<rparr>))"
| repurpose: "Exclusive \<in># slot_acts s \<Longrightarrow>
     drop_meta_in_place (swap_act Exclusive {#Repurposing m#} s) = Some s' \<Longrightarrow> slot_step s s'"
| repurposed: "Repurposing m \<in># slot_acts s \<Longrightarrow>
     slot_step s (write_meta m (swap_act (Repurposing m) {#Exclusive#} s))"
| share: "Exclusive \<in># slot_acts s \<Longrightarrow>
     slot_step s (swap_act Exclusive {#Shared#} (s\<lparr>ref_count := from_unique_store\<rparr>))"
| unshare: "Shared \<in># slot_acts s \<Longrightarrow> try_from_shared_exchange (ref_count s) = (True, rc) \<Longrightarrow>
     slot_step s (swap_act Shared {#Exclusive#} (s\<lparr>ref_count := rc\<rparr>))"

definition slot_reachable :: "'m slot_sys \<Rightarrow> bool" where
  "slot_reachable s \<longleftrightarrow> slot_step\<^sup>*\<^sup>* slot_init s"


section \<open>The invariant\<close>

text \<open>A round of \<open>get_from_in_use\<close> that has only loaded the count holds nothing.\<close>

fun holds :: "'m slot_act \<Rightarrow> bool" where
  "holds (Loaded n) = False"
| "holds _ = True"

definition live :: "'m slot_sys \<Rightarrow> 'm slot_act multiset" where
  "live s = filter_mset holds (slot_acts s)"

inductive phase :: "nat \<Rightarrow> bool \<Rightarrow> 'm slot_act multiset \<Rightarrow> bool" where
  unused: "phase REF_COUNT_UNUSED False {#}"
| claimed: "phase 0 False {#Claimed m u#}"
| written: "phase 0 True {#Written u#}"
| last_drop: "phase 0 True {#LastDrop#}"
| cleared: "phase 0 False {#Cleared#}"
| exclusive: "phase REF_COUNT_UNIQUE True {#Exclusive#}"
| repurposing: "phase REF_COUNT_UNIQUE False {#Repurposing m#}"
| shared: "0 < n + k \<Longrightarrow> n + k \<le> REF_COUNT_MAX + k \<Longrightarrow> k \<le> MAX_CLONERS \<Longrightarrow>
    phase (n + k) True (replicate_mset n Shared + replicate_mset k Aborting)"

definition slot_inv :: "'m slot_sys \<Rightarrow> bool" where
  "slot_inv s \<longleftrightarrow> phase (ref_count s) (storage s \<noteq> None) (live s) \<and>
    (\<forall>n. Loaded n \<in># slot_acts s \<longrightarrow> 0 < n \<and> n < REF_COUNT_MAX) \<and>
    written s = dropped s @ (case storage s of None \<Rightarrow> [] | Some m \<Rightarrow> [m])"


lemma shared_le_limits: "n \<le> REF_COUNT_MAX \<Longrightarrow> k \<le> MAX_CLONERS \<Longrightarrow> n + k < REF_COUNT_UNIQUE"
  by (simp add: ref_consts MAX_CLONERS_def)

lemma ref_distinct [simp]:
  "REF_COUNT_UNIQUE \<noteq> 0" "REF_COUNT_UNUSED \<noteq> 0" "REF_COUNT_UNIQUE \<noteq> REF_COUNT_UNUSED"
  "REF_COUNT_UNUSED \<noteq> REF_COUNT_UNIQUE" "REF_COUNT_MAX < REF_COUNT_UNIQUE" "REF_COUNT_MAX < REF_COUNT_UNUSED"
  "REF_COUNT_UNIQUE < REF_COUNT_UNUSED" "0 < REF_COUNT_MAX"
  by (simp_all add: ref_consts)

lemma counted_mem [dest]:
  "{#a#} = replicate_mset n Shared + replicate_mset k Aborting \<Longrightarrow> a = Shared \<or> a = Aborting"
  by (metis in_replicate_mset union_iff union_single_eq_member empty_neutral(2))

lemma phase_shared:
  assumes "phase r st L" "Shared \<in># L"
  obtains n k where "n < REF_COUNT_MAX" "k \<le> MAX_CLONERS" "r = Suc (n + k)" "st"
    "L = replicate_mset (Suc n) Shared + replicate_mset k Aborting"
  using assms(1)
proof cases
  case (shared n k)
  then obtain n' where "n = Suc n'" using assms(2) by (cases n) auto
  then show ?thesis using shared that [of n' k] by simp
qed (use assms(2) in auto)

lemma phase_counted:
  assumes "phase n st L" "0 < n" "n < REF_COUNT_MAX"
  obtains i k where "i \<le> REF_COUNT_MAX" "k \<le> MAX_CLONERS" "n = i + k" "st"
    "L = replicate_mset i Shared + replicate_mset k Aborting"
  using assms(1)
proof cases
  case unused
  then show ?thesis using assms(3) by (simp add: ref_consts)
next
  case exclusive
  then show ?thesis using assms(3) by (simp add: ref_consts)
next
  case repurposing
  then show ?thesis using assms(3) by (simp add: ref_consts)
next
  case (shared i k)
  then show ?thesis using that [of i k] by simp
qed (use assms(2) in auto)

lemma phase_single:
  assumes "phase r st L" "a \<in># L" "a \<noteq> Shared" "a \<noteq> Aborting"
  shows "L = {#a#}"
  using assms by cases (auto split: if_splits)

lemma phase_unused:
  assumes "phase REF_COUNT_UNUSED st L"
  shows "\<not> st \<and> L = {#}"
  using assms
proof cases
  case (shared n k)
  then show ?thesis using shared_le_limits [of n k] by (simp add: ref_consts)
qed simp_all

lemma phase_empty: "phase r st {#} \<Longrightarrow> r = REF_COUNT_UNUSED \<and> \<not> st"
  by (erule phase.cases) auto

lemma phase_simps:
  "phase r st {#Exclusive#} \<longleftrightarrow> r = REF_COUNT_UNIQUE \<and> st"
  "phase r st {#Claimed m u#} \<longleftrightarrow> r = 0 \<and> \<not> st"
  "phase r st {#Written u#} \<longleftrightarrow> r = 0 \<and> st"
  "phase r st {#LastDrop#} \<longleftrightarrow> r = 0 \<and> st"
  "phase r st {#Cleared#} \<longleftrightarrow> r = 0 \<and> \<not> st"
  "phase r st {#Repurposing m#} \<longleftrightarrow> r = REF_COUNT_UNIQUE \<and> \<not> st"
  by (auto elim!: phase.cases intro: phase.intros simp del: replicate_mset_Suc)

lemma phase_sharedI:
  "n \<le> REF_COUNT_MAX \<Longrightarrow> k \<le> MAX_CLONERS \<Longrightarrow> 0 < r \<Longrightarrow> r = n + k \<Longrightarrow> st \<Longrightarrow>
   L = replicate_mset n Shared + replicate_mset k Aborting \<Longrightarrow> phase r st L"
  using phase.shared [of n k] by simp


lemma phase_one: "phase (Suc 0) True {#Shared#}"
  by (rule phase_sharedI [of 1 0]) (simp_all add: ref_consts)

lemma live_simps:
  "live (s\<lparr>ref_count := r\<rparr>) = live s"
  "live (s\<lparr>slot_acts := add_mset a (slot_acts s)\<rparr>) = filter_mset holds {#a#} + live s"
  "live (s\<lparr>ref_count := r, slot_acts := add_mset a (slot_acts s)\<rparr>) = filter_mset holds {#a#} + live s"
  "live (write_meta m s) = live s"
  "live (swap_act a B s) = live s - filter_mset holds {#a#} + filter_mset holds B"
  by (simp_all add: live_def swap_act_def write_meta_def)

lemma live_mem: "a \<in># slot_acts s \<Longrightarrow> holds a \<Longrightarrow> a \<in># live s"
  by (simp add: live_def)

lemma frame_fields [simp]:
  "ref_count (swap_act a B s) = ref_count s" "storage (swap_act a B s) = storage s"
  "written (swap_act a B s) = written s" "dropped (swap_act a B s) = dropped s"
  "slot_acts (swap_act a B s) = slot_acts s - {#a#} + B"
  "ref_count (write_meta m s) = ref_count s" "storage (write_meta m s) = Some m"
  "written (write_meta m s) = written s @ [m]" "dropped (write_meta m s) = dropped s"
  "slot_acts (write_meta m s) = slot_acts s"
  by (simp_all add: swap_act_def write_meta_def)

lemma drop_meta_fields:
  assumes "drop_meta_in_place s = Some s'"
  obtains m where "storage s = Some m" "storage s' = None" "dropped s' = dropped s @ [m]"
    "written s' = written s" "ref_count s' = ref_count s" "slot_acts s' = slot_acts s" "live s' = live s"
  using assms by (auto simp: drop_meta_in_place_def live_def split: option.splits)

lemma slot_inv_init: "slot_inv slot_init"
  by (simp add: slot_inv_def slot_init_def live_def phase.unused)

text \<open>A step that only replaces what it holds: the loaded counts stay in range.\<close>

lemma slot_invI:
  assumes "phase (ref_count s') (storage s' \<noteq> None) (live s')"
    and "\<And>n. Loaded n \<in># slot_acts s' \<Longrightarrow> 0 < n \<and> n < REF_COUNT_MAX"
    and "written s' = dropped s' @ (case storage s' of None \<Rightarrow> [] | Some m \<Rightarrow> [m])"
  shows "slot_inv s'"
  using assms by (simp add: slot_inv_def)

lemma slot_invD:
  assumes "slot_inv s"
  shows "phase (ref_count s) (storage s \<noteq> None) (live s)"
    and "Loaded n \<in># slot_acts s \<Longrightarrow> 0 < n \<and> n < REF_COUNT_MAX"
    and "written s = dropped s @ (case storage s of None \<Rightarrow> [] | Some m \<Rightarrow> [m])"
  using assms by (auto simp: slot_inv_def)

text \<open>An activity other than a counted handle is alone.\<close>

lemma slot_inv_single:
  assumes "slot_inv s" "a \<in># slot_acts s" "holds a" "a \<noteq> Shared" "a \<noteq> Aborting"
  shows "live s = {#a#}" "phase (ref_count s) (storage s \<noteq> None) {#a#}"
  using phase_single [OF slot_invD(1) [OF assms(1)] live_mem [OF assms(2,3)] assms(4,5)] slot_invD(1) [OF assms(1)]
  by simp_all

lemma slot_inv_shared:
  assumes "slot_inv s" "Shared \<in># slot_acts s"
  obtains n k where "n < REF_COUNT_MAX" "k \<le> MAX_CLONERS" "ref_count s = Suc (n + k)" "storage s \<noteq> None"
    "live s = replicate_mset (Suc n) Shared + replicate_mset k Aborting"
  by (rule phase_shared [OF slot_invD(1) [OF assms(1)] live_mem [OF assms(2)]]) (auto intro: that)

lemma slot_inv_step:
  assumes step: "slot_step s s'" and inv: "slot_inv s"
  shows "slot_inv s'"
  using step
proof cases
  case (claim rc m u)
  then have r: "ref_count s = REF_COUNT_UNUSED" "rc = 0" by (auto simp: get_from_unused_claim_def split: if_splits)
  have "storage s = None" "live s = {#}" using phase_unused [of "storage s \<noteq> None" "live s"] slot_invD(1) [OF inv] r by auto
  then show ?thesis using claim(1) r slot_invD [OF inv]
    by (intro slot_invI) (auto simp: live_simps phase_simps)
next
  case (write_md m u)
  note * = slot_inv_single [OF inv write_md(2)]
  show ?thesis using write_md(1) * slot_invD [OF inv]
    by (intro slot_invI) (auto simp: live_simps phase_simps dest: in_diffD)
next
  case (publish u)
  note * = slot_inv_single [OF inv publish(2)]
  show ?thesis using publish(1) * slot_invD [OF inv]
    by (intro slot_invI) (auto simp: live_simps phase_simps phase_one get_from_unused_publish_def dest: in_diffD split: if_splits)
next
  case (load n)
  then have "0 < n" "n < REF_COUNT_MAX" by (auto simp: get_from_in_use_load_def split: if_splits)
  then show ?thesis using load(1) slot_invD [OF inv]
    by (intro slot_invI) (auto simp: live_simps)
next
  case (exchange n ok rc)
  have n: "0 < n" "n < REF_COUNT_MAX" using slot_invD(2) [OF inv exchange(2)] by simp_all
  show ?thesis
  proof (cases ok)
    case True
    then have rc: "ref_count s = n" "rc = Suc n" using exchange(3) by (auto simp: get_from_in_use_exchange_def split: if_splits)
    obtain i k where "i \<le> REF_COUNT_MAX" "k \<le> MAX_CLONERS" "n = i + k" "storage s \<noteq> None"
      "live s = replicate_mset i Shared + replicate_mset k Aborting"
      using phase_counted [OF _ n] slot_invD(1) [OF inv] rc(1) by metis
    then show ?thesis using exchange(1) True rc n slot_invD [OF inv]
      by (intro slot_invI) (auto simp: live_simps dest: in_diffD intro!: phase_sharedI [of "Suc i" k])
  next
    case False
    then have "rc = ref_count s" using exchange(3) by (auto simp: get_from_in_use_exchange_def split: if_splits)
    then show ?thesis using exchange(1) False slot_invD [OF inv]
      by (intro slot_invI) (auto simp: live_simps dest: in_diffD)
  qed
next
  case (clone aborts rc)
  obtain n k where L: "n < REF_COUNT_MAX" "k \<le> MAX_CLONERS" "ref_count s = Suc (n + k)" "storage s \<noteq> None"
    "live s = replicate_mset (Suc n) Shared + replicate_mset k Aborting"
    using slot_inv_shared [OF inv clone(2)] .
  have "count (live s) Aborting = count (slot_acts s) Aborting" by (simp add: live_def)
  then have k: "k < MAX_CLONERS" using clone(4) L(5) by simp
  have rc: "rc = Suc (Suc (n + k))" using clone(3) shared_le_limits [of "Suc n" k] L
    by (simp add: inc_ref_count_def ref_consts)
  show ?thesis
  proof (cases aborts)
    case True
    then show ?thesis using clone(1) rc L k slot_invD [OF inv]
      by (intro slot_invI) (auto simp: live_simps intro!: phase_sharedI [of "Suc n" "Suc k"])
  next
    case False
    then have "Suc (n + k) < REF_COUNT_MAX" using clone(3) L by (auto simp: inc_ref_count_def)
    then show ?thesis using clone(1) False rc L k slot_invD [OF inv]
      by (intro slot_invI) (auto simp: live_simps intro!: phase_sharedI [of "Suc (Suc n)" "k"])
  qed
next
  case (drop is_last rc)
  obtain n k where L: "n < REF_COUNT_MAX" "k \<le> MAX_CLONERS" "ref_count s = Suc (n + k)" "storage s \<noteq> None"
    "live s = replicate_mset (Suc n) Shared + replicate_mset k Aborting"
    using slot_inv_shared [OF inv drop(2)] .
  show ?thesis
  proof (cases "n + k = 0")
    case True
    then show ?thesis using drop L slot_invD [OF inv]
      by (intro slot_invI) (auto simp: live_simps phase_simps frame_drop_dec_def dest: in_diffD)
  next
    case False
    then show ?thesis using drop L slot_invD [OF inv]
      by (intro slot_invI) (auto simp: live_simps frame_drop_dec_def dest: in_diffD intro!: phase_sharedI [of n k])
  qed
next
  case drop_meta
  note * = slot_inv_single [OF inv drop_meta(1)]
  show ?thesis using drop_meta(2) * slot_invD [OF inv]
    by (elim drop_meta_fields, intro slot_invI) (auto simp: live_simps phase_simps dest: in_diffD)
next
  case release
  note * = slot_inv_single [OF inv release(2)]
  show ?thesis using release(1) * slot_invD [OF inv]
    by (intro slot_invI) (auto simp: live_simps phase_simps phase.unused drop_last_release_def dest: in_diffD)
next
  case unique_drop
  note * = slot_inv_single [OF inv unique_drop(2)]
  show ?thesis using unique_drop(1) * slot_invD [OF inv]
    by (intro slot_invI) (auto simp: live_simps phase_simps unique_drop_store_def dest: in_diffD)
next
  case (repurpose m)
  note * = slot_inv_single [OF inv repurpose(1)]
  show ?thesis using repurpose(2) * slot_invD [OF inv]
    by (elim drop_meta_fields, intro slot_invI) (auto simp: live_simps phase_simps dest: in_diffD)
next
  case (repurposed m)
  note * = slot_inv_single [OF inv repurposed(2)]
  show ?thesis using repurposed(1) * slot_invD [OF inv]
    by (intro slot_invI) (auto simp: live_simps phase_simps dest: in_diffD)
next
  case share
  note * = slot_inv_single [OF inv share(2)]
  show ?thesis using share(1) * slot_invD [OF inv]
    by (intro slot_invI) (auto simp: live_simps phase_simps phase_one from_unique_store_def dest: in_diffD)
next
  case (unshare rc)
  obtain n k where L: "n < REF_COUNT_MAX" "k \<le> MAX_CLONERS" "ref_count s = Suc (n + k)" "storage s \<noteq> None"
    "live s = replicate_mset (Suc n) Shared + replicate_mset k Aborting"
    using slot_inv_shared [OF inv unshare(2)] .
  then have "n + k = 0" "rc = REF_COUNT_UNIQUE" using unshare(3) by (auto simp: try_from_shared_exchange_def split: if_splits)
  then show ?thesis using unshare(1) L slot_invD [OF inv]
    by (intro slot_invI) (auto simp: live_simps phase_simps dest: in_diffD)
qed


lemma slot_reachable_inv: "slot_reachable s \<Longrightarrow> slot_inv s"
  unfolding slot_reachable_def by (induction rule: rtranclp_induct) (auto intro: slot_inv_init slot_inv_step)

lemma slot_reachable_step: "slot_reachable s \<Longrightarrow> slot_step s s' \<Longrightarrow> slot_reachable s'"
  unfolding slot_reachable_def by (rule rtranclp.rtrancl_into_rtrancl)

lemma slot_reachable_init: "slot_reachable slot_init"
  by (simp add: slot_reachable_def)

lemma holds_iff: "holds a \<longleftrightarrow> (\<forall>n. a \<noteq> Loaded n)"
  by (cases a) simp_all

lemma live_count: "holds a \<Longrightarrow> count (live s) a = count (slot_acts s) a"
  by (simp add: live_def)

section \<open>Handles and metadata\<close>

text \<open>A frame obtained from an unused slot: shared, with metadata \<open>m\<close>.\<close>

definition shared_frame :: "'m \<Rightarrow> 'm slot_sys" where
  "shared_frame m = \<lparr>ref_count = 1, storage = Some m, slot_acts = {#Shared#}, written = [m], dropped = []\<rparr>"

lemma shared_frame_reachable: "slot_reachable (shared_frame m)"
proof -
  let ?s1 = "slot_init\<lparr>ref_count := 0, slot_acts := add_mset (Claimed m False) (slot_acts slot_init)\<rparr>"
  let ?s2 = "write_meta m (swap_act (Claimed m False) {#Written False#} ?s1)"
  have "slot_step slot_init ?s1"
    by (rule slot_step.claim) (simp add: get_from_unused_claim_def slot_init_def)
  moreover have "slot_step ?s1 ?s2" by (rule slot_step.write_md) simp
  moreover have "slot_step ?s2 (shared_frame m)"
    using slot_step.publish [of False ?s2]
    by (simp add: shared_frame_def slot_init_def write_meta_def swap_act_def get_from_unused_publish_def)
  ultimately show ?thesis using slot_reachable_init slot_reachable_step by blast
qed

text \<open>C26: In every state that a slot can reach, however its operations interleave, a unique handle is the only
  handle: no shared handle and no second unique handle exists beside it, and the slot's count is
  \<open>REF_COUNT_UNIQUE\<close>.  While a shared handle exists the metadata is initialised, the count is the number of
  shared handles together with the clones about to abort, and it is none of the reserved values.  The slot is marked
  unused exactly when nobody holds it, and then it holds no metadata.\<close>

theorem frame_handles_exclusive:
  assumes "slot_reachable s"
  shows "(Exclusive \<in># slot_acts s \<longrightarrow>
      ref_count s = REF_COUNT_UNIQUE \<and> count (slot_acts s) Exclusive = 1 \<and> Shared \<notin># slot_acts s \<and> storage s \<noteq> None) \<and>
    (Shared \<in># slot_acts s \<longrightarrow>
      ref_count s = count (slot_acts s) Shared + count (slot_acts s) Aborting \<and>
      count (slot_acts s) Shared \<le> REF_COUNT_MAX \<and> ref_count s < REF_COUNT_UNIQUE \<and> storage s \<noteq> None) \<and>
    (ref_count s = REF_COUNT_UNUSED \<longleftrightarrow> (\<forall>a \<in># slot_acts s. \<exists>n. a = Loaded n)) \<and>
    (ref_count s = REF_COUNT_UNUSED \<longrightarrow> storage s = None)"
proof -
  note inv = slot_reachable_inv [OF assms]
  have live_empty: "live s = {#} \<longleftrightarrow> (\<forall>a \<in># slot_acts s. \<exists>n. a = Loaded n)"
    by (auto simp: live_def holds_iff)
  show ?thesis
  proof (intro conjI impI)
    assume x: "Exclusive \<in># slot_acts s"
    note * = slot_inv_single [OF inv x, simplified]
    show "ref_count s = REF_COUNT_UNIQUE" "storage s \<noteq> None" using *(2) by (simp_all add: phase_simps)
    show "count (slot_acts s) Exclusive = 1" using live_count [of Exclusive s] *(1) by simp
    show "Shared \<notin># slot_acts s" using live_mem [of Shared s] *(1) by auto
  next
    assume x: "Shared \<in># slot_acts s"
    obtain n k where L: "n < REF_COUNT_MAX" "k \<le> MAX_CLONERS" "ref_count s = Suc (n + k)" "storage s \<noteq> None"
      "live s = replicate_mset (Suc n) Shared + replicate_mset k Aborting" using slot_inv_shared [OF inv x] .
    show "storage s \<noteq> None" by (rule L)
    show "ref_count s = count (slot_acts s) Shared + count (slot_acts s) Aborting"
      "count (slot_acts s) Shared \<le> REF_COUNT_MAX" "ref_count s < REF_COUNT_UNIQUE"
      using L shared_le_limits [of "Suc n" k] live_count [of Shared s] live_count [of Aborting s] by simp_all
  next
    show "ref_count s = REF_COUNT_UNUSED \<longleftrightarrow> (\<forall>a \<in># slot_acts s. \<exists>n. a = Loaded n)"
      using phase_unused phase_empty slot_invD(1) [OF inv] unfolding live_empty [symmetric] by metis
  next
    assume "ref_count s = REF_COUNT_UNUSED"
    then show "storage s = None" using phase_unused slot_invD(1) [OF inv] by metis
  qed
qed

theorem frame_handles_exclusive_witness:
  "ref_count (shared_frame (7::nat)) = count (slot_acts (shared_frame (7::nat))) Shared \<and>
   storage (shared_frame (7::nat)) \<noteq> None"
  using frame_handles_exclusive [OF shared_frame_reachable [of "7::nat"]] by (simp add: shared_frame_def)

text \<open>C27: The metadata of a slot is dropped exactly once.  In every reachable state the metadata written so far is
  the metadata dropped so far followed by what the slot holds now; the metadata is present whenever it is about
  to be dropped; and once nobody holds the slot everything written has been dropped.\<close>

theorem frame_metadata_dropped_once:
  assumes "slot_reachable s"
  shows "written s = dropped s @ (case storage s of None \<Rightarrow> [] | Some m \<Rightarrow> [m]) \<and>
    (LastDrop \<in># slot_acts s \<or> Exclusive \<in># slot_acts s \<longrightarrow> drop_meta_in_place s \<noteq> None) \<and>
    (ref_count s = REF_COUNT_UNUSED \<longrightarrow> written s = dropped s)"
proof -
  note inv = slot_reachable_inv [OF assms]
  have "storage s \<noteq> None" if "LastDrop \<in># slot_acts s \<or> Exclusive \<in># slot_acts s"
    using that slot_inv_single(2) [OF inv, of LastDrop] slot_inv_single(2) [OF inv, of Exclusive]
    by (auto simp: phase_simps)
  moreover have "storage s = None" if "ref_count s = REF_COUNT_UNUSED"
    using phase_unused slot_invD(1) [OF inv] that by metis
  ultimately show ?thesis using slot_invD(3) [OF inv] by (auto simp: drop_meta_in_place_def)
qed

theorem frame_metadata_dropped_once_witness:
  "written (shared_frame ''anon'') = dropped (shared_frame ''anon'') @ [''anon'']"
  using frame_metadata_dropped_once [OF shared_frame_reachable [of "''anon''"]] by (simp add: shared_frame_def)

text \<open>Metadata does not change under a shared handle.  A step of any thread from a reachable state that has a
  shared handle before and after it leaves the stored metadata as it is.\<close>

lemma frame_metadata_stable:
  assumes "slot_reachable s" "slot_step s s'" "Shared \<in># slot_acts s" "Shared \<in># slot_acts s'"
  shows "storage s' = storage s"
proof -
  note inv = slot_reachable_inv [OF assms(1)]
  have alone: "a \<notin># slot_acts s" if "holds a" "a \<noteq> Shared" "a \<noteq> Aborting" for a
  proof
    assume "a \<in># slot_acts s"
    then have "live s = {#a#}" using slot_inv_single(1) [OF inv] that by blast
    then show False using live_mem [OF assms(3)] that(2) by simp
  qed
  show ?thesis using assms(2) by cases (use alone in auto)
qed

text \<open>The same shared frame, cloned.\<close>

definition cloned_frame :: "'m \<Rightarrow> 'm slot_sys" where
  "cloned_frame m = (shared_frame m)\<lparr>ref_count := 2, slot_acts := {#Shared, Shared#}\<rparr>"

lemma clone_shared_frame: "slot_step (shared_frame m) (cloned_frame m)"
  using slot_step.clone [of "shared_frame m" False 2]
  by (simp add: shared_frame_def cloned_frame_def inc_ref_count_def REF_COUNT_MAX_def MAX_CLONERS_def)

text \<open>Every frame below the limit has a slot of its own inside the metadata region: for a page-aligned address
  below \<open>max_paddr\<close>, \<open>get_slot\<close> succeeds, the slot lies inside the region, and \<open>meta_to_frame\<close> recovers the frame
  from it, so no two frames share a slot.  Any other address is refused with \<open>NotAligned\<close> or \<open>OutOfBound\<close>.\<close>

lemma get_slot_roundtrip:
  assumes "max_paddr \<le> 2 ^ 46"
  shows "(paddr mod PAGE_SIZE \<noteq> 0 \<longrightarrow> get_slot max_paddr paddr = Some (Inl NotAligned)) \<and>
    (paddr mod PAGE_SIZE = 0 \<and> max_paddr \<le> paddr \<longrightarrow> get_slot max_paddr paddr = Some (Inl OutOfBound)) \<and>
    (paddr mod PAGE_SIZE = 0 \<and> paddr < max_paddr \<longrightarrow>
      (\<exists>v. get_slot max_paddr paddr = Some (Inr v) \<and> meta_to_frame v = Some paddr \<and>
        FRAME_METADATA_BASE_VADDR \<le> v \<and> v + META_SLOT_SIZE \<le> FRAME_METADATA_CAP_VADDR))"
proof (intro conjI impI)
  assume a: "paddr mod PAGE_SIZE = 0 \<and> paddr < max_paddr"
  obtain k where k: "paddr = 4096 * k" using a by (auto simp: PAGE_SIZE_def mod_eq_0_iff_dvd dvd_def)
  have "k < 2 ^ 34" using assms a k by simp
  then show "\<exists>v. get_slot max_paddr paddr = Some (Inr v) \<and> meta_to_frame v = Some paddr \<and>
    FRAME_METADATA_BASE_VADDR \<le> v \<and> v + META_SLOT_SIZE \<le> FRAME_METADATA_CAP_VADDR" using k a
    by (simp add: get_slot_def frame_to_meta_def meta_to_frame_def umul_def uadd_def usub_def layout_defs
      META_SLOT_SIZE_def USIZE_MAX_def)
qed (auto simp: get_slot_def)

section \<open>Whole calls\<close>

text \<open>The metadata of all frames, by slot address.  \<open>MetaSlot::get_from_unused\<close> and \<open>get_from_in_use\<close> as one call
  without interference; the handle they return is the slot address.\<close>

type_synonym 'm slots = "Vaddr \<Rightarrow> 'm slot_sys"

definition get_from_unused ::
  "Paddr \<Rightarrow> Paddr \<Rightarrow> 'm \<Rightarrow> bool \<Rightarrow> 'm slots \<Rightarrow> ((GetFrameError + Vaddr) \<times> 'm slots) option" where
  "get_from_unused max_paddr paddr metadata as_unique_ptr R = do {
     s \<leftarrow> get_slot max_paddr paddr;
     (case s of
       Inl e \<Rightarrow> Some (Inl e, R)
     | Inr slot \<Rightarrow> (case get_from_unused_claim (ref_count (R slot)) of
         (Inl e, _) \<Rightarrow> Some (Inl e, R)
       | (Inr _, rc) \<Rightarrow>
           Some (Inr slot, R(slot := (write_meta metadata (R slot))
             \<lparr>ref_count := get_from_unused_publish as_unique_ptr,
              slot_acts := add_mset (if as_unique_ptr then Exclusive else Shared) (slot_acts (R slot))\<rparr>)))) }"

definition get_from_in_use :: "Paddr \<Rightarrow> Paddr \<Rightarrow> 'm slots \<Rightarrow> ((GetFrameError + Vaddr) \<times> 'm slots) option" where
  "get_from_in_use max_paddr paddr R = do {
     s \<leftarrow> get_slot max_paddr paddr;
     (case s of
       Inl e \<Rightarrow> Some (Inl e, R)
     | Inr slot \<Rightarrow> do {
         l \<leftarrow> get_from_in_use_load (ref_count (R slot));
         (case l of
           Inl e \<Rightarrow> Some (Inl e, R)
         | Inr n \<Rightarrow> Some (Inr slot, R(slot := (R slot)
             \<lparr>ref_count := snd (get_from_in_use_exchange n (ref_count (R slot))),
              slot_acts := add_mset Shared (slot_acts (R slot))\<rparr>))) }) }"

text \<open>\<open>Frame::from_unused\<close>, \<open>UniqueFrame::from_unused\<close> and \<open>Frame::from_in_use\<close> wrap them.\<close>

definition frame_from_unused :: "Paddr \<Rightarrow> Paddr \<Rightarrow> 'm \<Rightarrow> 'm slots \<Rightarrow> ((GetFrameError + Vaddr) \<times> 'm slots) option" where
  "frame_from_unused max_paddr paddr metadata R = get_from_unused max_paddr paddr metadata False R"

definition unique_from_unused :: "Paddr \<Rightarrow> Paddr \<Rightarrow> 'm \<Rightarrow> 'm slots \<Rightarrow> ((GetFrameError + Vaddr) \<times> 'm slots) option" where
  "unique_from_unused max_paddr paddr metadata R = get_from_unused max_paddr paddr metadata True R"

definition frame_from_in_use :: "Paddr \<Rightarrow> Paddr \<Rightarrow> 'm slots \<Rightarrow> ((GetFrameError + Vaddr) \<times> 'm slots) option" where
  "frame_from_in_use max_paddr paddr R = get_from_in_use max_paddr paddr R"

text \<open>The calls are runs of the slot's life cycle, so what holds of every reachable state holds between calls.\<close>

lemma get_from_unused_cases:
  assumes "get_from_unused max_paddr paddr m u R = Some (res, R')"
  obtains (err) e where "res = Inl e" "R' = R"
      "\<forall>slot. get_slot max_paddr paddr = Some (Inr slot) \<longrightarrow> ref_count (R slot) \<noteq> REF_COUNT_UNUSED"
    | (ok) slot where "res = Inr slot" "get_slot max_paddr paddr = Some (Inr slot)" "ref_count (R slot) = REF_COUNT_UNUSED"
      "R' = R(slot := (write_meta m (R slot))\<lparr>ref_count := get_from_unused_publish u,
        slot_acts := add_mset (if u then Exclusive else Shared) (slot_acts (R slot))\<rparr>)"
proof (cases "get_slot max_paddr paddr")
  case None
  then show ?thesis using assms by (simp add: get_from_unused_def)
next
  case (Some s)
  show ?thesis
  proof (cases s)
    case (Inl e)
    then show ?thesis using Some assms err by (auto simp: get_from_unused_def)
  next
    case (Inr slot)
    show ?thesis
    proof (cases "ref_count (R slot) = REF_COUNT_UNUSED")
      case True
      show ?thesis by (rule ok [of slot]) (use True Some Inr assms in \<open>simp_all add: get_from_unused_def get_from_unused_claim_def\<close>)
    next
      case False
      then have "\<exists>e. res = Inl e \<and> R' = R"
        using Some Inr assms by (auto simp: get_from_unused_def get_from_unused_claim_def)
      then show ?thesis using err False Some Inr by auto
    qed
  qed
qed

lemma get_from_in_use_cases:
  assumes "get_from_in_use max_paddr paddr R = Some (res, R')"
  obtains (err) e where "res = Inl e" "R' = R"
    | (ok) slot n where "res = Inr slot" "get_from_in_use_load (ref_count (R slot)) = Some (Inr n)"
      "R' = R(slot := (R slot)\<lparr>ref_count := snd (get_from_in_use_exchange n (ref_count (R slot))),
        slot_acts := add_mset Shared (slot_acts (R slot))\<rparr>)"
proof (cases "get_slot max_paddr paddr")
  case None
  then show ?thesis using assms by (simp add: get_from_in_use_def)
next
  case (Some s)
  show ?thesis
  proof (cases s)
    case (Inl e)
    then show ?thesis using Some assms err by (auto simp: get_from_in_use_def)
  next
    case (Inr slot)
    then obtain l where l: "get_from_in_use_load (ref_count (R slot)) = Some l"
      using Some assms by (cases "get_from_in_use_load (ref_count (R slot))") (simp_all add: get_from_in_use_def)
    show ?thesis
    proof (cases l)
      case (Inl e)
      show ?thesis by (rule err [of e]) (use Inl Some \<open>s = Inr slot\<close> l assms in \<open>simp_all add: get_from_in_use_def\<close>)
    next
      case (Inr n)
      show ?thesis by (rule ok [of slot n]) (use Inr Some \<open>s = Inr slot\<close> l assms in \<open>simp_all add: get_from_in_use_def\<close>)
    qed
  qed
qed

lemma get_from_in_use_load_Inr:
  "get_from_in_use_load rc = Some (Inr n) \<Longrightarrow> n = rc \<and> 0 < n \<and> n < REF_COUNT_MAX"
  by (auto simp: get_from_in_use_load_def split: if_splits)

lemma get_from_unused_run:
  assumes "get_from_unused max_paddr paddr m u R = Some (res, R')"
  shows "slot_step\<^sup>*\<^sup>* (R v) (R' v)"
  using assms
proof (cases rule: get_from_unused_cases)
  case (ok slot)
  let ?s = "R slot"
  let ?s1 = "?s\<lparr>ref_count := 0, slot_acts := add_mset (Claimed m u) (slot_acts ?s)\<rparr>"
  let ?s2 = "write_meta m (swap_act (Claimed m u) {#Written u#} ?s1)"
  have "slot_step ?s ?s1" by (rule slot_step.claim) (simp add: get_from_unused_claim_def ok)
  moreover have "slot_step ?s1 ?s2" by (rule slot_step.write_md) simp
  moreover have "slot_step ?s2 (R' slot)"
    using slot_step.publish [of u ?s2] ok(4) by (simp add: write_meta_def swap_act_def)
  ultimately have "slot_step\<^sup>*\<^sup>* ?s (R' slot)" by (meson converse_rtranclp_into_rtranclp rtranclp.rtrancl_refl)
  then show ?thesis using ok(4) by (cases "v = slot") simp_all
qed simp

lemma get_from_in_use_run:
  assumes "get_from_in_use max_paddr paddr R = Some (res, R')"
  shows "slot_step\<^sup>*\<^sup>* (R v) (R' v)"
  using assms
proof (cases rule: get_from_in_use_cases)
  case (ok slot n)
  let ?s1 = "(R slot)\<lparr>slot_acts := add_mset (Loaded n) (slot_acts (R slot))\<rparr>"
  have n: "ref_count (R slot) = n" using get_from_in_use_load_Inr [OF ok(2)] by simp
  have "slot_step (R slot) ?s1" by (rule slot_step.load) (rule ok)
  moreover have "slot_step ?s1 (R' slot)"
    using slot_step.exchange [of n ?s1 True "Suc n"] n ok(3) by (simp add: get_from_in_use_exchange_def swap_act_def)
  ultimately have "slot_step\<^sup>*\<^sup>* (R slot) (R' slot)" by (meson converse_rtranclp_into_rtranclp rtranclp.rtrancl_refl)
  then show ?thesis using ok(3) by (cases "v = slot") simp_all
qed simp

text \<open>Taking frames by address is sound between calls: if every slot is in a reachable state, then after
  \<open>from_unused\<close> (shared or unique) or \<open>from_in_use\<close> of any address every slot still is; \<open>from_unused\<close> gives a
  frame exactly when the address is valid and its slot unused, and \<open>from_in_use\<close> only when the slot has a shared
  count, which it increments.\<close>

lemma frames_by_address_sound:
  assumes "\<forall>v. slot_reachable (R v)"
  shows "(get_from_unused max_paddr paddr m u R = Some (res, R') \<longrightarrow>
      (\<forall>v. slot_reachable (R' v)) \<and>
      ((\<exists>slot. res = Inr slot) \<longleftrightarrow>
        (\<exists>slot. get_slot max_paddr paddr = Some (Inr slot) \<and> ref_count (R slot) = REF_COUNT_UNUSED))) \<and>
    (get_from_in_use max_paddr paddr R = Some (res, R') \<longrightarrow>
      (\<forall>v. slot_reachable (R' v)) \<and>
      (\<forall>slot. res = Inr slot \<longrightarrow> 0 < ref_count (R slot) \<and> ref_count (R slot) < REF_COUNT_MAX \<and>
        ref_count (R' slot) = ref_count (R slot) + 1 \<and> storage (R' slot) = storage (R slot) \<and> storage (R slot) \<noteq> None))"
proof (intro conjI impI allI)
  fix v
  have run: "slot_reachable (R v) \<Longrightarrow> slot_step\<^sup>*\<^sup>* (R v) (R' v) \<Longrightarrow> slot_reachable (R' v)"
    unfolding slot_reachable_def by (rule rtranclp_trans)
  show "slot_reachable (R' v)" if "get_from_unused max_paddr paddr m u R = Some (res, R')"
    using run get_from_unused_run [OF that] assms by blast
  show "slot_reachable (R' v)" if "get_from_in_use max_paddr paddr R = Some (res, R')"
    using run get_from_in_use_run [OF that] assms by blast
next
  assume "get_from_unused max_paddr paddr m u R = Some (res, R')"
  then show "(\<exists>slot. res = Inr slot) \<longleftrightarrow>
      (\<exists>slot. get_slot max_paddr paddr = Some (Inr slot) \<and> ref_count (R slot) = REF_COUNT_UNUSED)"
    by (cases rule: get_from_unused_cases) auto
next
  fix slot
  assume g: "get_from_in_use max_paddr paddr R = Some (res, R')" and res: "res = Inr slot"
  then show c: "0 < ref_count (R slot)" "ref_count (R slot) < REF_COUNT_MAX"
      "ref_count (R' slot) = ref_count (R slot) + 1" "storage (R' slot) = storage (R slot)"
    by (cases rule: get_from_in_use_cases; auto simp: get_from_in_use_exchange_def dest: get_from_in_use_load_Inr)+
  have "slot_reachable (R slot)" using assms by blast
  then show "storage (R slot) \<noteq> None"
    using phase_counted [OF slot_invD(1) [OF slot_reachable_inv] c(1,2)] by blast
qed

end
