(* ===== verification/Frame_List.thy ===== *)
theory Frame_List
  imports Frame_Meta
begin

text \<open>
  The intrusive list of frames, \<open>src/ostd/src/mm/frame/linked_list.rs\<close>: a doubly linked list whose links are in
  the metadata of the frames themselves.  The metadata region is an explicit store from slot addresses to links,
  so that every pointer the code follows or overwrites is a lookup or an update of the store; following a pointer
  to a slot that holds no link is \<open>None\<close>.  A cursor is refined to a pair of lists, the frames before it and the
  frames from it on, and whole sequences of operations to operations on such pairs.
\<close>

section \<open>Lists, cursors and the metadata region\<close>

record 'm Link =
  next_link :: "Vaddr option"
  prev_link :: "Vaddr option"
  meta :: 'm

definition link_new :: "'m \<Rightarrow> 'm Link" where
  "link_new m = \<lparr>next_link = None, prev_link = None, meta = m\<rparr>"

record LinkedList =
  list_front :: "Vaddr option"
  list_back :: "Vaddr option"
  list_size :: usize
  list_id :: nat

definition list_new :: LinkedList where
  "list_new = \<lparr>list_front = None, list_back = None, list_size = 0, list_id = 0\<rparr>"

definition list_is_empty :: "LinkedList \<Rightarrow> bool" where
  "list_is_empty l \<longleftrightarrow> list_size l = 0"

record CursorMut =
  list_of :: LinkedList
  current :: "Vaddr option"

record 'm region =
  links :: "Vaddr \<rightharpoonup> 'm Link"
  in_list :: "Vaddr \<Rightarrow> nat"

text \<open>\<open>borrow_meta\<close> and assignments through \<open>borrow_meta_mut\<close>.\<close>

definition borrow_meta :: "Vaddr \<Rightarrow> 'm region \<Rightarrow> 'm Link option" where
  "borrow_meta p r = links r p"

definition update_meta :: "Vaddr \<Rightarrow> ('m Link \<Rightarrow> 'm Link) \<Rightarrow> 'm region \<Rightarrow> 'm region option" where
  "update_meta p f r = do { k \<leftarrow> links r p; Some (r\<lparr>links := (links r)(p \<mapsto> f k)\<rparr>) }"

definition set_in_list :: "Vaddr \<Rightarrow> nat \<Rightarrow> 'm region \<Rightarrow> 'm region" where
  "set_in_list p i r = r\<lparr>in_list := (in_list r)(p := i)\<rparr>"

text \<open>\<open>lazy_get_id\<close> has no body in the sources; what it promises is its contract.\<close>

type_synonym get_id = "LinkedList \<Rightarrow> nat \<times> LinkedList"

locale list_ids =
  fixes lazy_get_id :: get_id
  assumes keeps_ends: "lazy_get_id l = (i, l') \<Longrightarrow> list_front l' = list_front l \<and> list_back l' = list_back l \<and> list_size l' = list_size l"
    and keeps_id: "lazy_get_id l = (i, l') \<Longrightarrow> list_id l \<noteq> 0 \<Longrightarrow> i = list_id l"
    and sets_id: "lazy_get_id l = (i, l') \<Longrightarrow> i \<noteq> 0 \<and> list_id l' = i"

section \<open>Cursor operations\<close>

definition cursor_front_mut :: "LinkedList \<Rightarrow> CursorMut" where
  "cursor_front_mut l = \<lparr>list_of = l, current = list_front l\<rparr>"

definition cursor_back_mut :: "LinkedList \<Rightarrow> CursorMut" where
  "cursor_back_mut l = \<lparr>list_of = l, current = list_back l\<rparr>"

definition cursor_at_ghost_mut :: "LinkedList \<Rightarrow> CursorMut" where
  "cursor_at_ghost_mut l = \<lparr>list_of = l, current = None\<rparr>"

definition move_next :: "CursorMut \<Rightarrow> 'm region \<Rightarrow> CursorMut option" where
  "move_next c r = (case current c of
     Some p \<Rightarrow> do { k \<leftarrow> borrow_meta p r; Some (c\<lparr>current := next_link k\<rparr>) }
   | None \<Rightarrow> Some (c\<lparr>current := list_front (list_of c)\<rparr>))"

definition move_prev :: "CursorMut \<Rightarrow> 'm region \<Rightarrow> CursorMut option" where
  "move_prev c r = (case current c of
     Some p \<Rightarrow> do { k \<leftarrow> borrow_meta p r; Some (c\<lparr>current := prev_link k\<rparr>) }
   | None \<Rightarrow> Some (c\<lparr>current := list_back (list_of c)\<rparr>))"

text \<open>\<open>current_meta\<close> hands out a mutable reference: \<open>f\<close> is what the caller does with it.\<close>

definition current_meta :: "CursorMut \<Rightarrow> ('m \<Rightarrow> 'm) \<Rightarrow> 'm region \<Rightarrow> ('m option \<times> 'm region) option" where
  "current_meta c f r = (case current c of
     Some p \<Rightarrow> do {
       k \<leftarrow> borrow_meta p r;
       r \<leftarrow> update_meta p (\<lambda>k. k\<lparr>meta := f (meta k)\<rparr>) r;
       Some (Some (meta k), r) }
   | None \<Rightarrow> Some (None, r))"

text \<open>A \<open>UniqueFrame\<close> is the address of its slot; \<open>from_raw\<close> computes it from the frame's address.\<close>

definition take_current :: "CursorMut \<Rightarrow> 'm region \<Rightarrow> (Vaddr option \<times> CursorMut \<times> 'm region) option" where
  "take_current c r = (case current c of
     None \<Rightarrow> Some (None, c, r)
   | Some p \<Rightarrow> do {
       paddr \<leftarrow> meta_to_frame p;
       frame \<leftarrow> frame_to_meta paddr;
       k \<leftarrow> borrow_meta frame r;
       let next_ptr = next_link k;
       let prev_ptr = prev_link k;
       (l, r) \<leftarrow> (case prev_ptr of
           Some q \<Rightarrow> do { r \<leftarrow> update_meta q (\<lambda>k. k\<lparr>next_link := next_ptr\<rparr>) r; Some (list_of c, r) }
         | None \<Rightarrow> Some ((list_of c)\<lparr>list_front := next_ptr\<rparr>, r));
       (l, cur, r) \<leftarrow> (case next_ptr of
           Some q \<Rightarrow> do { r \<leftarrow> update_meta q (\<lambda>k. k\<lparr>prev_link := prev_ptr\<rparr>) r; Some (l, Some q, r) }
         | None \<Rightarrow> Some (l\<lparr>list_back := prev_ptr\<rparr>, None, r));
       r \<leftarrow> update_meta frame (\<lambda>k. k\<lparr>next_link := None\<rparr>) r;
       r \<leftarrow> update_meta frame (\<lambda>k. k\<lparr>prev_link := None\<rparr>) r;
       let r = set_in_list frame 0 r;
       n \<leftarrow> usub (list_size l) 1;
       Some (Some frame, c\<lparr>list_of := l\<lparr>list_size := n\<rparr>, current := cur\<rparr>, r) })"

text \<open>\<open>insert_before\<close>: first the pointers, then the id and the size.\<close>

definition insert_links :: "CursorMut \<Rightarrow> Vaddr \<Rightarrow> 'm region \<Rightarrow> (LinkedList \<times> 'm region) option" where
  "insert_links c frame r = (case current c of
       Some p \<Rightarrow> do {
         k \<leftarrow> borrow_meta p r;
         (case prev_link k of
           Some q \<Rightarrow> do {
             r \<leftarrow> update_meta frame (\<lambda>k. k\<lparr>prev_link := Some q\<rparr>) r;
             r \<leftarrow> update_meta frame (\<lambda>k. k\<lparr>next_link := Some p\<rparr>) r;
             r \<leftarrow> update_meta q (\<lambda>k. k\<lparr>next_link := Some frame\<rparr>) r;
             r \<leftarrow> update_meta p (\<lambda>k. k\<lparr>prev_link := Some frame\<rparr>) r;
             Some (list_of c, r) }
         | None \<Rightarrow> do {
             r \<leftarrow> update_meta frame (\<lambda>k. k\<lparr>next_link := Some p\<rparr>) r;
             r \<leftarrow> update_meta p (\<lambda>k. k\<lparr>prev_link := Some frame\<rparr>) r;
             Some ((list_of c)\<lparr>list_front := Some frame\<rparr>, r) }) }
     | None \<Rightarrow>
         (case list_back (list_of c) of
           Some q \<Rightarrow> do {
             r \<leftarrow> update_meta frame (\<lambda>k. k\<lparr>prev_link := Some q\<rparr>) r;
             r \<leftarrow> update_meta q (\<lambda>k. k\<lparr>next_link := Some frame\<rparr>) r;
             Some ((list_of c)\<lparr>list_back := Some frame\<rparr>, r) }
         | None \<Rightarrow> Some ((list_of c)\<lparr>list_front := Some frame, list_back := Some frame\<rparr>, r)))"

definition insert_before :: "get_id \<Rightarrow> CursorMut \<Rightarrow> Vaddr \<Rightarrow> 'm region \<Rightarrow> (CursorMut \<times> 'm region) option" where
  "insert_before lazy_get_id c frame r = do {
     (l, r) \<leftarrow> insert_links c frame r;
     let (list_id, l) = lazy_get_id l;
     let r = set_in_list frame list_id r;
     n \<leftarrow> uadd (list_size l) 1;
     Some (c\<lparr>list_of := l\<lparr>list_size := n\<rparr>\<rparr>, r)
   }"

section \<open>List operations\<close>

definition push_front :: "get_id \<Rightarrow> LinkedList \<Rightarrow> Vaddr \<Rightarrow> 'm region \<Rightarrow> (LinkedList \<times> 'm region) option" where
  "push_front lazy_get_id l frame r = do {
     (c, r) \<leftarrow> insert_before lazy_get_id \<lparr>list_of = l, current = list_front l\<rparr> frame r;
     Some (list_of c, r) }"

definition push_back :: "get_id \<Rightarrow> LinkedList \<Rightarrow> Vaddr \<Rightarrow> 'm region \<Rightarrow> (LinkedList \<times> 'm region) option" where
  "push_back lazy_get_id l frame r = do {
     (c, r) \<leftarrow> insert_before lazy_get_id (cursor_at_ghost_mut l) frame r;
     Some (list_of c, r) }"

definition pop_front :: "LinkedList \<Rightarrow> 'm region \<Rightarrow> (Vaddr option \<times> LinkedList \<times> 'm region) option" where
  "pop_front l r = do { (f, c, r) \<leftarrow> take_current (cursor_front_mut l) r; Some (f, list_of c, r) }"

definition pop_back :: "LinkedList \<Rightarrow> 'm region \<Rightarrow> (Vaddr option \<times> LinkedList \<times> 'm region) option" where
  "pop_back l r = do { (f, c, r) \<leftarrow> take_current (cursor_back_mut l) r; Some (f, list_of c, r) }"

definition list_contains :: "Paddr \<Rightarrow> get_id \<Rightarrow> LinkedList \<Rightarrow> Paddr \<Rightarrow> 'm region \<Rightarrow> (bool \<times> LinkedList) option" where
  "list_contains max_paddr lazy_get_id l frame r = do {
     s \<leftarrow> get_slot max_paddr frame;
     (case s of
       Inl _ \<Rightarrow> Some (False, l)
     | Inr slot \<Rightarrow> (case lazy_get_id l of (i, l) \<Rightarrow> Some (in_list r slot = i, l))) }"

text \<open>Without a cursor the list is still borrowed: the result carries it.\<close>

definition cursor_mut_at ::
  "Paddr \<Rightarrow> get_id \<Rightarrow> LinkedList \<Rightarrow> Paddr \<Rightarrow> 'm region \<Rightarrow> (LinkedList + CursorMut) option" where
  "cursor_mut_at max_paddr lazy_get_id l frame r = do {
     s \<leftarrow> get_slot max_paddr frame;
     (case s of
       Inl _ \<Rightarrow> Some (Inl l)
     | Inr slot \<Rightarrow> (case lazy_get_id l of (i, l) \<Rightarrow>
         if in_list r slot = i
         then do { p \<leftarrow> frame_to_meta frame; Some (Inr \<lparr>list_of = l, current = Some p\<rparr>) }
         else Some (Inl l))) }"

text \<open>\<open>UniqueFrame::drop\<close> drops the metadata of the frame.\<close>

definition unique_frame_drop :: "Vaddr \<Rightarrow> 'm region \<Rightarrow> 'm region option" where
  "unique_frame_drop frame r = do { _ \<leftarrow> links r frame; Some (r\<lparr>links := (links r)(frame := None)\<rparr>) }"

partial_function (option) list_drop_loop :: "CursorMut \<Rightarrow> 'm region \<Rightarrow> (CursorMut \<times> 'm region) option" where
  "list_drop_loop c r = do {
     (entry, c, r) \<leftarrow> take_current c r;
     (case entry of
       Some frame \<Rightarrow> do { r \<leftarrow> unique_frame_drop frame r; list_drop_loop c r }
     | None \<Rightarrow> Some (c, r)) }"

definition list_drop :: "LinkedList \<Rightarrow> 'm region \<Rightarrow> 'm region option" where
  "list_drop l r = do { (_, r) \<leftarrow> list_drop_loop (cursor_front_mut l) r; Some r }"


section \<open>Representation\<close>

fun first_or :: "Vaddr option \<Rightarrow> (Vaddr \<times> 'm) list \<Rightarrow> Vaddr option" where
  "first_or n [] = n"
| "first_or n (x # xs) = Some (fst x)"

fun last_or :: "Vaddr option \<Rightarrow> (Vaddr \<times> 'm) list \<Rightarrow> Vaddr option" where
  "last_or p [] = p"
| "last_or p (x # xs) = last_or (Some (fst x)) xs"

text \<open>A stretch of the list, from the pointer \<open>p\<close> before it to the pointer \<open>n\<close> after it.\<close>

fun seg :: "(Vaddr \<rightharpoonup> 'm Link) \<Rightarrow> Vaddr option \<Rightarrow> (Vaddr \<times> 'm) list \<Rightarrow> Vaddr option \<Rightarrow> bool" where
  "seg m p [] n = True"
| "seg m p (x # xs) n \<longleftrightarrow>
     m (fst x) = Some \<lparr>next_link = first_or n xs, prev_link = p, meta = snd x\<rparr> \<and> seg m (Some (fst x)) xs n"

definition is_slot :: "Vaddr \<Rightarrow> bool" where
  "is_slot v \<longleftrightarrow> (\<exists>i < 2 ^ 34. v = FRAME_METADATA_BASE_VADDR + META_SLOT_SIZE * i)"

definition list_rep :: "'m region \<Rightarrow> LinkedList \<Rightarrow> (Vaddr \<times> 'm) list \<Rightarrow> bool" where
  "list_rep r l zs \<longleftrightarrow> seg (links r) None zs None \<and> list_front l = first_or None zs \<and> list_back l = last_or None zs \<and>
     list_size l = length zs \<and> distinct (map fst zs) \<and>
     (\<forall>v \<in> fst ` set zs. is_slot v \<and> list_id l \<noteq> 0) \<and>
     (list_id l \<noteq> 0 \<longrightarrow> (\<forall>v. in_list r v = list_id l \<longleftrightarrow> v \<in> fst ` set zs))"

definition cursor_rep :: "'m region \<Rightarrow> CursorMut \<Rightarrow> (Vaddr \<times> 'm) list \<Rightarrow> (Vaddr \<times> 'm) list \<Rightarrow> bool" where
  "cursor_rep r c xs ys \<longleftrightarrow> list_rep r (list_of c) (xs @ ys) \<and> current c = first_or None ys"

definition fresh_ids :: "get_id \<Rightarrow> LinkedList \<Rightarrow> 'm region \<Rightarrow> bool" where
  "fresh_ids lazy_get_id l r \<longleftrightarrow> (list_id l = 0 \<longrightarrow> (\<forall>l v. list_id l = 0 \<longrightarrow> in_list r v \<noteq> fst (lazy_get_id l)))"

lemma first_or_append [simp]: "first_or n (xs @ ys) = first_or (first_or n ys) xs"
  by (cases xs) simp_all

lemma last_or_append [simp]: "last_or p (xs @ ys) = last_or (last_or p xs) ys"
  by (induction xs arbitrary: p) simp_all

lemma seg_append [simp]: "seg m p (xs @ ys) n \<longleftrightarrow> seg m p xs (first_or n ys) \<and> seg m (last_or p xs) ys n"
  by (induction xs arbitrary: p) auto

lemma seg_upd [simp]: "v \<notin> fst ` set xs \<Longrightarrow> seg (m(v := k)) p xs n = seg m p xs n"
  by (induction xs arbitrary: p) auto

lemma is_slot_roundtrip:
  assumes "is_slot v"
  obtains pa where "meta_to_frame v = Some pa" "frame_to_meta pa = Some v"
proof -
  obtain i where "i < 2 ^ 34" "v = FRAME_METADATA_BASE_VADDR + META_SLOT_SIZE * i"
    using assms unfolding is_slot_def by blast
  then show ?thesis using that [of "i * 4096"]
    by (simp add: frame_to_meta_def meta_to_frame_def umul_def uadd_def usub_def layout_defs
      META_SLOT_SIZE_def USIZE_MAX_def)
qed

lemma list_rep_length:
  assumes "list_rep r l zs"
  shows "length zs \<le> 2 ^ 34"
proof -
  let ?S = "(\<lambda>i. FRAME_METADATA_BASE_VADDR + META_SLOT_SIZE * i) ` {..<2 ^ 34}"
  have "fst ` set zs \<subseteq> ?S" using assms by (auto simp: list_rep_def is_slot_def)
  then have "card (fst ` set zs) \<le> card ?S" by (intro card_mono) auto
  also have "\<dots> \<le> 2 ^ 34" using card_image_le [of "{..<2 ^ 34 :: nat}"] by simp
  finally show ?thesis using assms distinct_card [of "map fst zs"] by (simp add: list_rep_def)
qed

lemma list_rep_grow: "list_rep r l zs \<Longrightarrow> uadd (length zs) 1 = Some (Suc (length zs))"
  using list_rep_length [of r l zs] by (simp add: uadd_def USIZE_MAX_def)

section \<open>Insertion and removal\<close>

lemma update_meta_Some: "links r p = Some k \<Longrightarrow> update_meta p f r = Some (r\<lparr>links := (links r)(p \<mapsto> f k)\<rparr>)"
  by (simp add: update_meta_def)

lemma insert_links_rep:
  assumes rep: "cursor_rep r c xs ys" and f: "links r f = Some (link_new d)" "f \<notin> fst ` set (xs @ ys)"
  obtains l' r' where "insert_links c f r = Some (l', r')" "seg (links r') None (xs @ (f, d) # ys) None"
    "list_front l' = first_or None (xs @ (f, d) # ys)" "list_back l' = last_or None (xs @ (f, d) # ys)"
    "list_size l' = list_size (list_of c)" "list_id l' = list_id (list_of c)" "in_list r' = in_list r"
    "\<forall>v. v \<notin> insert f (fst ` set (xs @ ys)) \<longrightarrow> links r' v = links r v"
proof -
  have L: "seg (links r) None (xs @ ys) None" "list_front (list_of c) = first_or None (xs @ ys)"
    "list_back (list_of c) = last_or None (xs @ ys)" "distinct (map fst (xs @ ys))" "current c = first_or None ys"
    using rep by (simp_all add: cursor_rep_def list_rep_def)
  have "\<exists>l' r'. insert_links c f r = Some (l', r') \<and> seg (links r') None (xs @ (f, d) # ys) None \<and>
    list_front l' = first_or None (xs @ (f, d) # ys) \<and> list_back l' = last_or None (xs @ (f, d) # ys) \<and>
    list_size l' = list_size (list_of c) \<and> list_id l' = list_id (list_of c) \<and> in_list r' = in_list r \<and>
    (\<forall>v. v \<notin> insert f (fst ` set (xs @ ys)) \<longrightarrow> links r' v = links r v)"
  proof (cases ys)
    case Nil
    show ?thesis
    proof (cases xs rule: rev_cases)
      case Nil
      then show ?thesis using \<open>ys = []\<close> L f by (simp add: insert_links_def link_new_def)
    next
      case (snoc xs' q)
      then show ?thesis using \<open>ys = []\<close> L f
        by (simp add: insert_links_def link_new_def update_meta_Some image_iff)
    qed
  next
    case (Cons p ys')
    show ?thesis
    proof (cases xs rule: rev_cases)
      case Nil
      then show ?thesis using Cons L f
        by (simp add: insert_links_def link_new_def borrow_meta_def update_meta_Some image_iff)
    next
      case (snoc xs' q)
      then show ?thesis using Cons L f
        by (simp add: insert_links_def link_new_def borrow_meta_def update_meta_Some image_iff)
    qed
  qed
  then show ?thesis using that by blast
qed


lemma insert_before_rep:
  assumes ids: "list_ids lazy_get_id" and rep: "cursor_rep r c xs ys"
    and f: "links r f = Some (link_new d)" "is_slot f" "f \<notin> fst ` set (xs @ ys)"
    and fresh: "fresh_ids lazy_get_id (list_of c) r"
  obtains c' r' where "insert_before lazy_get_id c f r = Some (c', r')" "cursor_rep r' c' (xs @ [(f, d)]) ys"
    "\<forall>v. v \<notin> insert f (fst ` set (xs @ ys)) \<longrightarrow> links r' v = links r v" "list_id (list_of c') \<noteq> 0"
proof -
  obtain l' r' where I: "insert_links c f r = Some (l', r')" "seg (links r') None (xs @ (f, d) # ys) None"
    "list_front l' = first_or None (xs @ (f, d) # ys)" "list_back l' = last_or None (xs @ (f, d) # ys)"
    "list_size l' = list_size (list_of c)" "list_id l' = list_id (list_of c)" "in_list r' = in_list r"
    "\<forall>v. v \<notin> insert f (fst ` set (xs @ ys)) \<longrightarrow> links r' v = links r v"
    using insert_links_rep [OF rep f(1,3)] by metis
  obtain i l'' where lz: "lazy_get_id l' = (i, l'')" by fastforce
  note laws = list_ids.keeps_ends [OF ids lz] list_ids.keeps_id [OF ids lz] list_ids.sets_id [OF ids lz]
  have L: "list_rep r (list_of c) (xs @ ys)" "current c = first_or None ys"
    using rep by (simp_all add: cursor_rep_def)
  have n: "uadd (list_size l'') 1 = Some (Suc (length (xs @ ys)))"
    using list_rep_grow [OF L(1)] laws I(5) L(1) by (simp add: list_rep_def)
  let ?c = "c\<lparr>list_of := l''\<lparr>list_size := Suc (length (xs @ ys))\<rparr>\<rparr>" and ?r = "set_in_list f i r'"
  have ins: "insert_before lazy_get_id c f r = Some (?c, ?r)"
    using I(1) lz n by (simp add: insert_before_def)
  have mem: "in_list r v = i \<longleftrightarrow> v \<in> fst ` set (xs @ ys)" for v
  proof (cases "list_id (list_of c) = 0")
    case True
    then have "xs @ ys = []" using L(1) by (cases "xs @ ys") (auto simp: list_rep_def)
    moreover have "in_list r v \<noteq> i" using fresh True I(6) lz unfolding fresh_ids_def by (metis fst_conv)
    ultimately show ?thesis by simp
  next
    case False
    then show ?thesis using L(1) I(6) laws by (simp add: list_rep_def)
  qed
  have "list_rep ?r (list_of ?c) (xs @ (f, d) # ys)"
    using I L(1) f(2,3) laws mem by (auto simp: list_rep_def set_in_list_def)
  then have "cursor_rep ?r ?c (xs @ [(f, d)]) ys" using L(2) by (simp add: cursor_rep_def)
  then show ?thesis using that [OF ins] I(8) laws by (simp add: set_in_list_def)
qed

lemmas take_simps = take_current_def borrow_meta_def update_meta_Some link_new_def set_in_list_def list_rep_def
  usub_def image_iff Let_def

lemma take_current_rep:
  assumes rep: "cursor_rep r c xs ((y, d) # ys)"
  obtains c' r' where "take_current c r = Some (Some y, c', r')" "cursor_rep r' c' xs ys"
    "links r' y = Some (link_new d)" "\<forall>v. v \<notin> fst ` set (xs @ (y, d) # ys) \<longrightarrow> links r' v = links r v"
    "list_id (list_of c') = list_id (list_of c)"
proof -
  have L: "list_rep r (list_of c) (xs @ (y, d) # ys)" "current c = Some y"
    using rep by (simp_all add: cursor_rep_def)
  then have S: "seg (links r) None (xs @ (y, d) # ys) None" "distinct (map fst (xs @ (y, d) # ys))" "is_slot y"
    by (simp_all add: list_rep_def)
  obtain pa where pa: "meta_to_frame y = Some pa" "frame_to_meta pa = Some y" using is_slot_roundtrip [OF S(3)] .
  have "\<exists>c' r'. take_current c r = Some (Some y, c', r') \<and> seg (links r') None (xs @ ys) None \<and>
      list_front (list_of c') = first_or None (xs @ ys) \<and> list_back (list_of c') = last_or None (xs @ ys) \<and>
      list_size (list_of c') = length (xs @ ys) \<and> current c' = first_or None ys \<and>
      list_id (list_of c') = list_id (list_of c) \<and> in_list r' = (in_list r)(y := 0) \<and>
      links r' y = Some (link_new d) \<and> (\<forall>v. v \<notin> fst ` set (xs @ (y, d) # ys) \<longrightarrow> links r' v = links r v)"
  proof (cases ys)
    case Nil
    show ?thesis
    proof (cases xs rule: rev_cases)
      case Nil
      then show ?thesis using \<open>ys = []\<close> L S pa
        by (simp add: take_simps)
    next
      case (snoc xs' q)
      then show ?thesis using \<open>ys = []\<close> L S pa
        by (simp add: take_simps)
    qed
  next
    case (Cons p ys')
    show ?thesis
    proof (cases xs rule: rev_cases)
      case Nil
      then show ?thesis using Cons L S pa
        by (simp add: take_simps)
    next
      case (snoc xs' q)
      then show ?thesis using Cons L S pa
        by (simp add: take_simps)
    qed
  qed
  then obtain c' r' where T: "take_current c r = Some (Some y, c', r')" "seg (links r') None (xs @ ys) None"
    "list_front (list_of c') = first_or None (xs @ ys)" "list_back (list_of c') = last_or None (xs @ ys)"
    "list_size (list_of c') = length (xs @ ys)" "current c' = first_or None ys"
    "list_id (list_of c') = list_id (list_of c)" "in_list r' = (in_list r)(y := 0)"
    "links r' y = Some (link_new d)" "\<forall>v. v \<notin> fst ` set (xs @ (y, d) # ys) \<longrightarrow> links r' v = links r v"
    by blast
  have "cursor_rep r' c' xs ys" using T(2-8) L(1) by (auto simp: cursor_rep_def list_rep_def)
  then show ?thesis using that [OF T(1) _ T(9,10,7)] by simp
qed

lemma take_current_end: "cursor_rep r c xs [] \<Longrightarrow> take_current c r = Some (None, c, r)"
  by (simp add: cursor_rep_def take_current_def)

section \<open>Sequences of operations\<close>

text \<open>A client of a list: operations on the list itself end the life of a cursor; the cursor operations act on the
  cursor made last.\<close>

datatype 'm list_op = PushFront Vaddr | PushBack Vaddr | PopFront | PopBack | Contains Paddr
  | CursorFront | CursorBack | CursorAt Paddr
  | MoveNext | MovePrev | InsertBefore Vaddr | TakeCurrent | CurrentMeta "'m \<Rightarrow> 'm"

datatype 'm list_out = Done | FrameOut "Vaddr option" | Found bool | MetaOut "'m option"

fun exec_op :: "Paddr \<Rightarrow> get_id \<Rightarrow> 'm list_op \<Rightarrow> CursorMut \<Rightarrow> 'm region \<Rightarrow> ('m list_out \<times> CursorMut \<times> 'm region) option" where
  "exec_op mp ids (PushFront f) c r = do {
     (l, r) \<leftarrow> push_front ids (list_of c) f r; Some (Done, cursor_at_ghost_mut l, r) }"
| "exec_op mp ids (PushBack f) c r = do {
     (l, r) \<leftarrow> push_back ids (list_of c) f r; Some (Done, cursor_at_ghost_mut l, r) }"
| "exec_op mp ids PopFront c r = do {
     (f, l, r) \<leftarrow> pop_front (list_of c) r; Some (FrameOut f, cursor_at_ghost_mut l, r) }"
| "exec_op mp ids PopBack c r = do {
     (f, l, r) \<leftarrow> pop_back (list_of c) r; Some (FrameOut f, cursor_at_ghost_mut l, r) }"
| "exec_op mp ids (Contains p) c r = do {
     (b, l) \<leftarrow> list_contains mp ids (list_of c) p r; Some (Found b, cursor_at_ghost_mut l, r) }"
| "exec_op mp ids CursorFront c r = Some (Done, cursor_front_mut (list_of c), r)"
| "exec_op mp ids CursorBack c r = Some (Done, cursor_back_mut (list_of c), r)"
| "exec_op mp ids (CursorAt p) c r = do {
     s \<leftarrow> cursor_mut_at mp ids (list_of c) p r;
     (case s of Inl l \<Rightarrow> Some (Found False, cursor_at_ghost_mut l, r) | Inr c \<Rightarrow> Some (Found True, c, r)) }"
| "exec_op mp ids MoveNext c r = do { c \<leftarrow> move_next c r; Some (Done, c, r) }"
| "exec_op mp ids MovePrev c r = do { c \<leftarrow> move_prev c r; Some (Done, c, r) }"
| "exec_op mp ids (InsertBefore f) c r = do { (c, r) \<leftarrow> insert_before ids c f r; Some (Done, c, r) }"
| "exec_op mp ids TakeCurrent c r = do { (f, c, r) \<leftarrow> take_current c r; Some (FrameOut f, c, r) }"
| "exec_op mp ids (CurrentMeta g) c r = do { (m, r) \<leftarrow> current_meta c g r; Some (MetaOut m, c, r) }"

fun exec_run :: "Paddr \<Rightarrow> get_id \<Rightarrow> 'm list_op list \<Rightarrow> CursorMut \<Rightarrow> 'm region \<Rightarrow> ('m list_out list \<times> CursorMut \<times> 'm region) option" where
  "exec_run mp ids [] c r = Some ([], c, r)"
| "exec_run mp ids (x # xs) c r = do {
     (o1, c, r) \<leftarrow> exec_op mp ids x c r;
     (os, c, r) \<leftarrow> exec_run mp ids xs c r;
     Some (o1 # os, c, r) }"

text \<open>The specification: a map of the frames the client owns, and the list split at the cursor.  Inserting a frame
  that the client does not own is not allowed.\<close>

type_synonym 'm zipper = "(Vaddr \<times> 'm) list \<times> (Vaddr \<times> 'm) list"
type_synonym 'm spec_state = "(Vaddr \<rightharpoonup> 'm) \<times> 'm zipper"

definition spec_slot :: "Paddr \<Rightarrow> Paddr \<Rightarrow> Vaddr option" where
  "spec_slot max_paddr p = (if p mod PAGE_SIZE = 0 \<and> p < max_paddr
     then Some (FRAME_METADATA_BASE_VADDR + META_SLOT_SIZE * (p div PAGE_SIZE)) else None)"

definition spec_has :: "Paddr \<Rightarrow> Paddr \<Rightarrow> (Vaddr \<times> 'm) list \<Rightarrow> bool" where
  "spec_has max_paddr p zs \<longleftrightarrow> (case spec_slot max_paddr p of None \<Rightarrow> False | Some v \<Rightarrow> v \<in> fst ` set zs)"

fun spec_give :: "(Vaddr \<rightharpoonup> 'm) \<Rightarrow> Vaddr \<Rightarrow> (Vaddr \<times> 'm \<Rightarrow> 'm zipper) \<Rightarrow> ('m list_out \<times> 'm spec_state) option" where
  "spec_give own f k = (case own f of None \<Rightarrow> None | Some d \<Rightarrow> Some (Done, own(f := None), k (f, d)))"

fun spec_take :: "(Vaddr \<rightharpoonup> 'm) \<Rightarrow> 'm zipper \<Rightarrow> 'm list_out \<times> 'm spec_state" where
  "spec_take own (xs, []) = (FrameOut None, own, (xs, []))"
| "spec_take own (xs, y # ys) = (FrameOut (Some (fst y)), own(fst y \<mapsto> snd y), (xs, ys))"

fun to_ghost :: "'m list_out \<times> 'm spec_state \<Rightarrow> 'm list_out \<times> 'm spec_state" where
  "to_ghost (o1, own, (xs, ys)) = (o1, own, (xs @ ys, []))"

definition spec_back :: "'m zipper \<Rightarrow> 'm zipper" where
  "spec_back z = (if fst z @ snd z = [] then ([], []) else (butlast (fst z @ snd z), [last (fst z @ snd z)]))"

fun spec_op :: "Paddr \<Rightarrow> 'm list_op \<Rightarrow> 'm spec_state \<Rightarrow> ('m list_out \<times> 'm spec_state) option" where
  "spec_op mp (PushFront f) (own, xs, ys) = spec_give own f (\<lambda>x. (x # xs @ ys, []))"
| "spec_op mp (PushBack f) (own, xs, ys) = spec_give own f (\<lambda>x. (xs @ ys @ [x], []))"
| "spec_op mp PopFront (own, xs, ys) = Some (to_ghost (spec_take own ([], xs @ ys)))"
| "spec_op mp PopBack (own, xs, ys) =
     Some (to_ghost (spec_take own (spec_back (xs, ys))))"
| "spec_op mp (Contains p) (own, xs, ys) = Some (Found (spec_has mp p (xs @ ys)), own, (xs @ ys, []))"
| "spec_op mp CursorFront (own, xs, ys) = Some (Done, own, ([], xs @ ys))"
| "spec_op mp CursorBack (own, xs, ys) =
     Some (Done, own, spec_back (xs, ys))"
| "spec_op mp (CursorAt p) (own, xs, ys) = Some (if spec_has mp p (xs @ ys)
     then (Found True, own, (takeWhile (\<lambda>x. Some (fst x) \<noteq> spec_slot mp p) (xs @ ys),
       dropWhile (\<lambda>x. Some (fst x) \<noteq> spec_slot mp p) (xs @ ys)))
     else (Found False, own, (xs @ ys, [])))"
| "spec_op mp MoveNext (own, xs, ys) = Some (Done, own, case ys of [] \<Rightarrow> ([], xs) | y # ys \<Rightarrow> (xs @ [y], ys))"
| "spec_op mp MovePrev (own, xs, ys) =
     Some (Done, own, if xs = [] then (ys, []) else (butlast xs, last xs # ys))"
| "spec_op mp (InsertBefore f) (own, xs, ys) = spec_give own f (\<lambda>x. (xs @ [x], ys))"
| "spec_op mp TakeCurrent (own, xs, ys) = Some (spec_take own (xs, ys))"
| "spec_op mp (CurrentMeta g) (own, xs, ys) = Some (case ys of
     [] \<Rightarrow> (MetaOut None, own, (xs, []))
   | y # ys \<Rightarrow> (MetaOut (Some (snd y)), own, (xs, (fst y, g (snd y)) # ys)))"

fun spec_run :: "Paddr \<Rightarrow> 'm list_op list \<Rightarrow> 'm spec_state \<Rightarrow> ('m list_out list \<times> 'm spec_state) option" where
  "spec_run mp [] s = Some ([], s)"
| "spec_run mp (x # xs) s = do {
     (o1, s) \<leftarrow> spec_op mp x s;
     (os, s) \<leftarrow> spec_run mp xs s;
     Some (o1 # os, s) }"

definition list_sim :: "get_id \<Rightarrow> 'm spec_state \<Rightarrow> CursorMut \<Rightarrow> 'm region \<Rightarrow> bool" where
  "list_sim ids s c r \<longleftrightarrow> (case s of (own, xs, ys) \<Rightarrow>
     cursor_rep r c xs ys \<and> fresh_ids ids (list_of c) r \<and>
     (\<forall>f d. own f = Some d \<longrightarrow> links r f = Some (link_new d) \<and> is_slot f \<and> f \<notin> fst ` set (xs @ ys)))"

section \<open>Simulation\<close>

lemma cursor_rep_front: "list_rep r l zs \<Longrightarrow> cursor_rep r (cursor_front_mut l) [] zs"
  by (simp add: cursor_rep_def cursor_front_mut_def list_rep_def)

lemma cursor_rep_ghost: "list_rep r l zs \<Longrightarrow> cursor_rep r (cursor_at_ghost_mut l) zs []"
  by (simp add: cursor_rep_def cursor_at_ghost_mut_def)

lemma cursor_rep_back: "list_rep r l (zs @ [z]) \<Longrightarrow> cursor_rep r (cursor_back_mut l) zs [z]"
  by (simp add: cursor_rep_def cursor_back_mut_def list_rep_def)

lemma cursor_rep_list: "cursor_rep r c xs ys \<Longrightarrow> list_rep r (list_of c) (xs @ ys)"
  by (simp add: cursor_rep_def)

lemma cursor_list_of [simp]:
  "list_of (cursor_front_mut l) = l" "list_of (cursor_back_mut l) = l" "list_of (cursor_at_ghost_mut l) = l"
  by (simp_all add: cursor_front_mut_def cursor_back_mut_def cursor_at_ghost_mut_def)

lemma fresh_ids_nonzero: "list_id l \<noteq> 0 \<Longrightarrow> fresh_ids ids l r"
  by (simp add: fresh_ids_def)

lemma list_rep_nonzero: "list_rep r l zs \<Longrightarrow> zs \<noteq> [] \<Longrightarrow> list_id l \<noteq> 0"
  by (cases zs) (auto simp: list_rep_def)

text \<open>The two operations that change the list, on the simulation relation.\<close>

lemma list_simI:
  "cursor_rep r c xs ys \<Longrightarrow> fresh_ids ids (list_of c) r \<Longrightarrow>
   (\<And>f d. own f = Some d \<Longrightarrow> links r f = Some (link_new d) \<and> is_slot f \<and> f \<notin> fst ` set (xs @ ys)) \<Longrightarrow>
   list_sim ids (own, xs, ys) c r"
  by (auto simp: list_sim_def)

lemma list_simD:
  assumes "list_sim ids (own, xs, ys) c r"
  shows "cursor_rep r c xs ys" "fresh_ids ids (list_of c) r" "list_rep r (list_of c) (xs @ ys)"
    and "own f = Some d \<Longrightarrow> links r f = Some (link_new d) \<and> is_slot f \<and> f \<notin> fst ` set (xs @ ys)"
  using assms by (auto simp: list_sim_def dest: cursor_rep_list)

lemma sim_insert:
  assumes ids: "list_ids ids" and sim: "list_sim ids (own, xs, ys) c r" and f: "own f = Some d"
  shows "\<exists>c' r'. insert_before ids c f r = Some (c', r') \<and> list_sim ids (own(f := None), xs @ [(f, d)], ys) c' r'"
proof -
  note S = list_simD [OF sim]
  have "links r f = Some (link_new d)" "is_slot f" "f \<notin> fst ` set (xs @ ys)" using S(4) [OF f] by auto
  from insert_before_rep [OF ids S(1) this S(2)] obtain c' r' where
    I: "insert_before ids c f r = Some (c', r')" "cursor_rep r' c' (xs @ [(f, d)]) ys"
    "\<forall>v. v \<notin> insert f (fst ` set (xs @ ys)) \<longrightarrow> links r' v = links r v" "list_id (list_of c') \<noteq> 0" by metis
  then have "list_sim ids (own(f := None), xs @ [(f, d)], ys) c' r'"
    using S(4) by (intro list_simI) (auto simp: fresh_ids_nonzero split: if_splits)
  then show ?thesis using I(1) by blast
qed

lemma sim_take:
  assumes sim: "list_sim ids (own, xs, ys) c r" and spec: "spec_take own (xs, ys) = (out, s)"
  shows "\<exists>f c' r'. out = FrameOut f \<and> take_current c r = Some (f, c', r') \<and> list_sim ids s c' r'"
proof (cases ys)
  case Nil
  then show ?thesis using take_current_end [of r c xs] list_simD(1) [OF sim] sim spec by auto
next
  case (Cons y ys')
  obtain v d where y: "y = (v, d)" by fastforce
  note S = list_simD [OF sim]
  from take_current_rep [of r c xs v d ys'] S(1) Cons y obtain c' r' where
    T: "take_current c r = Some (Some v, c', r')" "cursor_rep r' c' xs ys'"
    "links r' v = Some (link_new d)" "\<forall>u. u \<notin> fst ` set (xs @ (v, d) # ys') \<longrightarrow> links r' u = links r u"
    "list_id (list_of c') = list_id (list_of c)" by metis
  then have "is_slot v" "v \<notin> fst ` set (xs @ ys')" "list_id (list_of c') \<noteq> 0"
    using S(3) Cons y by (auto simp: list_rep_def)
  then have "list_sim ids (own(v \<mapsto> d), xs, ys') c' r'"
    using T S(4) Cons y by (intro list_simI) (auto simp: fresh_ids_nonzero split: if_splits)
  then show ?thesis using T(1) spec Cons y by auto
qed

lemma sim_ghost:
  "list_sim ids (own, xs, ys) c r \<Longrightarrow> list_sim ids (own, xs @ ys, []) (cursor_at_ghost_mut (list_of c)) r"
  by (auto simp: list_sim_def dest!: cursor_rep_list intro: cursor_rep_ghost)

lemma sim_lazy:
  assumes ids: "list_ids ids" and rep: "list_rep r l zs" and fresh: "fresh_ids ids l r" and lz: "ids l = (i, l')"
  shows "list_rep r l' zs" "fresh_ids ids l' r" "in_list r v = i \<longleftrightarrow> v \<in> fst ` set zs"
proof -
  note laws = list_ids.keeps_ends [OF ids lz] list_ids.keeps_id [OF ids lz] list_ids.sets_id [OF ids lz]
  have *: "in_list r v = i \<longleftrightarrow> v \<in> fst ` set zs" for v
  proof (cases "list_id l = 0")
    case True
    then have "zs = []" using list_rep_nonzero [OF rep] by blast
    moreover have "in_list r v \<noteq> i" using fresh True lz unfolding fresh_ids_def by (metis fst_conv)
    ultimately show ?thesis by simp
  next
    case False
    then show ?thesis using rep laws by (simp add: list_rep_def)
  qed
  then show "in_list r v = i \<longleftrightarrow> v \<in> fst ` set zs" .
  show "list_rep r l' zs" using rep laws * by (simp add: list_rep_def)
  show "fresh_ids ids l' r" using laws by (simp add: fresh_ids_nonzero)
qed

lemma spec_slot_get:
  assumes "mp \<le> 2 ^ 46" "spec_slot mp p = Some v"
  shows "get_slot mp p = Some (Inr v)" "frame_to_meta p = Some v"
proof -
  have p: "p mod PAGE_SIZE = 0" "p < mp" "v = FRAME_METADATA_BASE_VADDR + META_SLOT_SIZE * (p div PAGE_SIZE)"
    using assms(2) by (auto simp: spec_slot_def split: if_splits)
  have "p div 4096 < 2 ^ 34" using p(2) assms(1) by (simp add: less_mult_imp_div_less)
  then show "frame_to_meta p = Some v" using p(3)
    by (simp add: frame_to_meta_def umul_def uadd_def layout_defs META_SLOT_SIZE_def USIZE_MAX_def)
  then show "get_slot mp p = Some (Inr v)" using p by (simp add: get_slot_def)
qed

lemma spec_slot_refused: "spec_slot mp p = None \<Longrightarrow> \<exists>e. get_slot mp p = Some (Inl e)"
  by (auto simp: spec_slot_def get_slot_def split: if_splits)

lemma split_at_frame:
  assumes "v \<in> fst ` set zs"
  shows "first_or None (dropWhile (\<lambda>x. Some (fst x) \<noteq> Some v) zs) = Some v"
  using assms by (induction zs) auto

lemma cursor_rep_at:
  assumes "list_rep r l zs" "v \<in> fst ` set zs"
  shows "cursor_rep r \<lparr>list_of = l, current = Some v\<rparr> (takeWhile (\<lambda>x. Some (fst x) \<noteq> Some v) zs)
    (dropWhile (\<lambda>x. Some (fst x) \<noteq> Some v) zs)"
  using assms split_at_frame [OF assms(2)] by (simp add: cursor_rep_def del: option.inject)

lemma cursor_rep_move_next:
  assumes "cursor_rep r c xs ys"
  shows "\<exists>c'. move_next c r = Some c' \<and> list_of c' = list_of c \<and>
    (case ys of [] \<Rightarrow> cursor_rep r c' [] xs | y # ys' \<Rightarrow> cursor_rep r c' (xs @ [y]) ys')"
  using assms by (cases ys) (auto simp: cursor_rep_def move_next_def borrow_meta_def list_rep_def)

lemma cursor_rep_move_prev:
  assumes "cursor_rep r c xs ys"
  shows "\<exists>c'. move_prev c r = Some c' \<and> list_of c' = list_of c \<and>
    (if xs = [] then cursor_rep r c' ys [] else cursor_rep r c' (butlast xs) (last xs # ys))"
  using assms by (cases ys; cases xs rule: rev_cases)
    (auto simp: cursor_rep_def move_prev_def borrow_meta_def list_rep_def)

lemma cursor_rep_current_meta:
  assumes "cursor_rep r c xs (y # ys)"
  obtains r' where "current_meta c g r = Some (Some (snd y), r')" "cursor_rep r' c xs ((fst y, g (snd y)) # ys)"
    "\<forall>v. v \<noteq> fst y \<longrightarrow> links r' v = links r v" "in_list r' = in_list r"
proof -
  let ?r = "r\<lparr>links := (links r)(fst y \<mapsto> \<lparr>next_link = first_or None ys, prev_link = last_or None xs, meta = g (snd y)\<rparr>)\<rparr>"
  have "current_meta c g r = Some (Some (snd y), ?r)"
    using assms by (simp add: cursor_rep_def list_rep_def current_meta_def borrow_meta_def update_meta_Some)
  moreover have "cursor_rep ?r c xs ((fst y, g (snd y)) # ys)"
    using assms by (auto simp: cursor_rep_def list_rep_def)
  ultimately show ?thesis using that by simp
qed


lemma sim_front:
  "list_sim ids (own, xs, ys) c r \<Longrightarrow> list_sim ids (own, [], xs @ ys) (cursor_front_mut (list_of c)) r"
  by (auto simp: list_sim_def dest!: cursor_rep_list intro: cursor_rep_front)

lemma spec_back_append: "fst (spec_back z) @ snd (spec_back z) = fst z @ snd z"
  by (simp add: spec_back_def)

lemma sim_back:
  assumes "list_sim ids (own, xs, ys) c r"
  shows "list_sim ids (own, spec_back (xs, ys)) (cursor_back_mut (list_of c)) r"
proof (cases "xs @ ys" rule: rev_cases)
  case Nil
  then show ?thesis using assms
    by (auto simp: spec_back_def list_sim_def cursor_rep_def list_rep_def cursor_back_mut_def)
next
  case (snoc zs z)
  note S = list_simD [OF assms]
  have "cursor_rep r (cursor_back_mut (list_of c)) zs [z]" using S(3) snoc by (simp add: cursor_rep_back)
  moreover have "links r f = Some (link_new d) \<and> is_slot f \<and> f \<notin> fst ` set (zs @ [z])" if "own f = Some d" for f d
    using S(4) [OF that] snoc by simp
  ultimately have "list_sim ids (own, zs, [z]) (cursor_back_mut (list_of c)) r"
    using S(2) by (intro list_simI) simp_all
  moreover have "spec_back (xs, ys) = (zs, [z])" using snoc by (simp add: spec_back_def)
  ultimately show ?thesis by simp
qed

text \<open>Each operation.\<close>

lemma sim_push_front:
  assumes "list_ids ids" "list_sim ids (own, xs, ys) c r" "own f = Some d"
  shows "\<exists>l r'. push_front ids (list_of c) f r = Some (l, r') \<and>
    list_sim ids (own(f := None), (f, d) # xs @ ys, []) (cursor_at_ghost_mut l) r'"
proof -
  obtain c' r' where I: "insert_before ids (cursor_front_mut (list_of c)) f r = Some (c', r')"
    "list_sim ids (own(f := None), [] @ [(f, d)], xs @ ys) c' r'"
    using sim_insert [OF assms(1) sim_front [OF assms(2)] assms(3)] by blast
  show ?thesis using I(1) sim_ghost [OF I(2)] by (simp add: push_front_def cursor_front_mut_def)
qed

lemma sim_push_back:
  assumes "list_ids ids" "list_sim ids (own, xs, ys) c r" "own f = Some d"
  shows "\<exists>l r'. push_back ids (list_of c) f r = Some (l, r') \<and>
    list_sim ids (own(f := None), xs @ ys @ [(f, d)], []) (cursor_at_ghost_mut l) r'"
proof -
  obtain c' r' where I: "insert_before ids (cursor_at_ghost_mut (list_of c)) f r = Some (c', r')"
    "list_sim ids (own(f := None), (xs @ ys) @ [(f, d)], []) c' r'"
    using sim_insert [OF assms(1) sim_ghost [OF assms(2)] assms(3)] by blast
  show ?thesis using I(1) sim_ghost [OF I(2)] by (simp add: push_back_def)
qed

lemma sim_pop:
  assumes "list_sim ids (own, xs, ys) c r" "to_ghost (spec_take own (xs, ys)) = (out, s)"
  shows "\<exists>f c' r'. out = FrameOut f \<and> take_current c r = Some (f, c', r') \<and>
    list_sim ids s (cursor_at_ghost_mut (list_of c')) r'"
proof -
  obtain o1 own' xs' ys' where T: "spec_take own (xs, ys) = (o1, own', xs', ys')" by (metis prod.exhaust)
  then obtain f c' r' where I: "o1 = FrameOut f" "take_current c r = Some (f, c', r')"
    "list_sim ids (own', xs', ys') c' r'" using sim_take [OF assms(1) T] by blast
  show ?thesis using I(1,2) sim_ghost [OF I(3)] assms(2) T by auto
qed

lemma sim_contains:
  assumes "list_ids ids" "mp \<le> 2 ^ 46" "list_sim ids (own, xs, ys) c r"
  shows "\<exists>l. list_contains mp ids (list_of c) p r = Some (spec_has mp p (xs @ ys), l) \<and>
    list_sim ids (own, xs @ ys, []) (cursor_at_ghost_mut l) r"
proof (cases "spec_slot mp p")
  case None
  then show ?thesis using spec_slot_refused [OF None] sim_ghost [OF assms(3)]
    by (auto simp: list_contains_def spec_has_def)
next
  case (Some v)
  note S = list_simD [OF assms(3)]
  obtain i l where lz: "ids (list_of c) = (i, l)" by fastforce
  note Z = sim_lazy [OF assms(1) S(3,2) lz]
  have "list_sim ids (own, xs @ ys, []) (cursor_at_ghost_mut l) r"
    using Z(1,2) S(4) by (intro list_simI) (simp_all add: cursor_rep_ghost)
  then show ?thesis using spec_slot_get [OF assms(2) Some] Some lz Z(3)
    by (auto simp: list_contains_def spec_has_def)
qed

lemma sim_cursor_mut_at:
  assumes "list_ids ids" "mp \<le> 2 ^ 46" "list_sim ids (own, xs, ys) c r"
    and spec: "spec_op mp (CursorAt p) (own, xs, ys) = Some (o1, s)"
  shows "\<exists>c'. exec_op mp ids (CursorAt p) c r = Some (o1, c', r) \<and> list_sim ids s c' r"
proof (cases "spec_slot mp p")
  case None
  then show ?thesis using spec_slot_refused [OF None] sim_ghost [OF assms(3)] spec
    by (auto simp: cursor_mut_at_def spec_has_def)
next
  case (Some v)
  note S = list_simD [OF assms(3)]
  obtain i l where lz: "ids (list_of c) = (i, l)" by fastforce
  note Z = sim_lazy [OF assms(1) S(3,2) lz]
  show ?thesis
  proof (cases "v \<in> fst ` set (xs @ ys)")
    case True
    let ?P = "\<lambda>x :: Vaddr \<times> 'a. Some (fst x) \<noteq> Some v"
    have "list_sim ids (own, takeWhile ?P (xs @ ys), dropWhile ?P (xs @ ys)) \<lparr>list_of = l, current = Some v\<rparr> r"
      using cursor_rep_at [OF Z(1) True] Z(2) S(4) by (intro list_simI) (simp_all only: takeWhile_dropWhile_id CursorMut.simps simp_thms)
    then show ?thesis using spec_slot_get [OF assms(2) Some] Some lz Z(3) [of v] True spec
      by (auto simp: cursor_mut_at_def spec_has_def)
  next
    case False
    have "list_sim ids (own, xs @ ys, []) (cursor_at_ghost_mut l) r"
      using Z(1,2) S(4) by (intro list_simI) (simp_all add: cursor_rep_ghost)
    then show ?thesis using spec_slot_get [OF assms(2) Some] Some lz Z(3) [of v] False spec
      by (auto simp: cursor_mut_at_def spec_has_def)
  qed
qed


lemma sim_current_meta:
  assumes "list_sim ids (own, xs, y # ys) c r"
  shows "\<exists>r'. current_meta c g r = Some (Some (snd y), r') \<and> list_sim ids (own, xs, (fst y, g (snd y)) # ys) c r'"
proof -
  note S = list_simD [OF assms]
  obtain r' where r': "current_meta c g r = Some (Some (snd y), r')" "cursor_rep r' c xs ((fst y, g (snd y)) # ys)"
    "\<forall>v. v \<noteq> fst y \<longrightarrow> links r' v = links r v" "in_list r' = in_list r"
    using cursor_rep_current_meta [OF S(1)] by blast
  have "fresh_ids ids (list_of c) r'" using S(2) r'(4) by (simp add: fresh_ids_def)
  then have "list_sim ids (own, xs, (fst y, g (snd y)) # ys) c r'"
    using r' S(4) by (intro list_simI) auto
  then show ?thesis using r'(1) by blast
qed

lemma sim_same_region:
  assumes "list_sim ids (own, xs, ys) c r" "cursor_rep r c' xs' ys'" "list_of c' = list_of c" "set (xs' @ ys') = set (xs @ ys)"
  shows "list_sim ids (own, xs', ys') c' r"
  using assms(2-) list_simD [OF assms(1)] by (intro list_simI) simp_all

lemma sim_move_next:
  assumes "list_sim ids (own, xs, ys) c r"
  shows "\<exists>c'. move_next c r = Some c' \<and>
    list_sim ids (own, case ys of [] \<Rightarrow> ([], xs) | y # ys \<Rightarrow> (xs @ [y], ys)) c' r"
  using cursor_rep_move_next [OF list_simD(1) [OF assms]]
  by (cases ys) (auto intro!: sim_same_region [OF assms])

lemma sim_move_prev:
  assumes "list_sim ids (own, xs, ys) c r"
  shows "\<exists>c'. move_prev c r = Some c' \<and>
    list_sim ids (own, if xs = [] then (ys, []) else (butlast xs, last xs # ys)) c' r"
  using cursor_rep_move_prev [OF list_simD(1) [OF assms]]
  by (cases xs rule: rev_cases) (auto intro!: sim_same_region [OF assms])

lemma sim_op:
  assumes ids: "list_ids ids" and mp: "mp \<le> 2 ^ 46" and sim: "list_sim ids (own, xs, ys) c r"
    and spec: "spec_op mp x (own, xs, ys) = Some (o1, s')"
  shows "\<exists>c' r'. exec_op mp ids x c r = Some (o1, c', r') \<and> list_sim ids s' c' r'"
proof (cases x)
  case (PushFront f)
  then show ?thesis using spec sim_push_front [OF ids sim, of f] by (auto split: option.splits)
next
  case (PushBack f)
  then show ?thesis using spec sim_push_back [OF ids sim, of f] by (auto split: option.splits)
next
  case PopFront
  then show ?thesis using spec sim_pop [OF sim_front [OF sim], of o1 s'] by (auto simp: pop_front_def)
next
  case PopBack
  obtain zs ws where z: "spec_back (xs, ys) = (zs, ws)" by fastforce
  then show ?thesis using PopBack spec sim_pop [OF sim_back [OF sim, unfolded z], of o1 s'] by (auto simp: pop_back_def)
next
  case (Contains p)
  then show ?thesis using spec sim_contains [OF ids mp sim, of p] by auto
next
  case CursorFront
  then show ?thesis using spec sim_front [OF sim] by auto
next
  case CursorBack
  then show ?thesis using spec sim_back [OF sim] by auto
next
  case (CursorAt p)
  then show ?thesis using sim_cursor_mut_at [OF ids mp sim, of p o1 s'] spec by blast
next
  case MoveNext
  then show ?thesis using spec sim_move_next [OF sim] by auto
next
  case MovePrev
  then show ?thesis using spec sim_move_prev [OF sim] by auto
next
  case (InsertBefore f)
  then show ?thesis using spec sim_insert [OF ids sim, of f] by (auto split: option.splits)
next
  case TakeCurrent
  then show ?thesis using spec sim_take [OF sim, of o1 s'] by auto
next
  case (CurrentMeta g)
  show ?thesis
  proof (cases ys)
    case Nil
    then have "current_meta c g r = Some (None, r)"
      using list_simD(1) [OF sim] by (simp add: cursor_rep_def current_meta_def)
    then show ?thesis using CurrentMeta Nil spec sim by simp
  next
    case (Cons y ys')
    then show ?thesis using CurrentMeta spec sim_current_meta [of ids own xs y ys' c r g] sim by auto
  qed
qed

lemma sim_run:
  "list_ids ids \<Longrightarrow> mp \<le> 2 ^ 46 \<Longrightarrow> list_sim ids s c r \<Longrightarrow> spec_run mp ops s = Some (outs, s') \<Longrightarrow>
   \<exists>c' r'. exec_run mp ids ops c r = Some (outs, c', r') \<and> list_sim ids s' c' r'"
proof (induction ops arbitrary: s c r outs)
  case (Cons x ops)
  obtain own xs ys where s: "s = (own, xs, ys)" by (metis prod.exhaust)
  obtain o1 s1 os where *: "spec_op mp x s = Some (o1, s1)" "spec_run mp ops s1 = Some (os, s')" "outs = o1 # os"
    using Cons.prems(4) by (auto simp: bind_eq_Some_conv)
  obtain c1 r1 where "exec_op mp ids x c r = Some (o1, c1, r1)" "list_sim ids s1 c1 r1"
    using sim_op [OF Cons.prems(1,2)] Cons.prems(3) *(1) s by blast
  then show ?case using Cons.IH [OF Cons.prems(1,2) _ *(2)] *(3) by fastforce
qed auto

text \<open>An instance of the id contract: the body that the sources keep in a comment, with the allocator at 1.\<close>

definition first_id :: get_id where
  "first_id l = (if list_id l = 0 then (1, l\<lparr>list_id := 1\<rparr>) else (list_id l, l))"

interpretation fid: list_ids first_id
  by unfold_locales (auto simp: first_id_def split: if_splits)

text \<open>C28: A frame list behaves as a list with a cursor, for every sequence of operations.  Start from a new list and
  any set of frames owned by the client.  Whatever the client then does with pushes and pops at both ends,
  membership tests, cursors at the front, at the back or at a frame, cursor moves, insertions, removals and updates
  of metadata, as long as it inserts only frames it owns, no pointer access fails, every result is the one the list
  gives, and the links in the metadata region represent that list with its cursor.\<close>

theorem frame_list_refines:
  assumes "list_ids lazy_get_id" "max_paddr \<le> 2 ^ 46"
    and "\<forall>f d. own f = Some d \<longrightarrow> links r f = Some (link_new d) \<and> is_slot f"
    and "fresh_ids lazy_get_id list_new r"
    and "spec_run max_paddr ops (own, [], []) = Some (outs, own', xs, ys)"
  shows "\<exists>c r'. exec_run max_paddr lazy_get_id ops (cursor_at_ghost_mut list_new) r = Some (outs, c, r') \<and>
    cursor_rep r' c xs ys \<and> (\<forall>f d. own' f = Some d \<longrightarrow> links r' f = Some (link_new d) \<and> f \<notin> fst ` set (xs @ ys))"
proof -
  have "list_sim lazy_get_id (own, [], []) (cursor_at_ghost_mut list_new) r"
    using assms(3,4) by (intro list_simI) (simp_all add: cursor_rep_def list_rep_def cursor_at_ghost_mut_def list_new_def)
  from sim_run [OF assms(1,2) this assms(5)] show ?thesis by (auto simp: list_sim_def)
qed

text \<open>The region of two frames.\<close>

definition two_frames :: "nat region" where
  "two_frames = \<lparr>links = [FRAME_METADATA_BASE_VADDR \<mapsto> link_new 1, FRAME_METADATA_BASE_VADDR + 64 \<mapsto> link_new 2], in_list = \<lambda>_. 0\<rparr>"

lemma two_frames_slots:
  "\<forall>f d. [FRAME_METADATA_BASE_VADDR \<mapsto> 1, FRAME_METADATA_BASE_VADDR + 64 \<mapsto> 2] f = Some d \<longrightarrow>
    links two_frames f = Some (link_new d) \<and> is_slot f"
proof -
  have "is_slot (FRAME_METADATA_BASE_VADDR + 64 * i)" if "i < 2" for i
    using that unfolding is_slot_def META_SLOT_SIZE_def by (intro exI [of _ i]) simp
  from this [of 0] this [of 1] show ?thesis by (auto simp: two_frames_def)
qed

theorem frame_list_refines_witness:
  "\<exists>c r'. exec_run 0x80000000 first_id
      [PushFront FRAME_METADATA_BASE_VADDR, PushFront (FRAME_METADATA_BASE_VADDR + 64), Contains 4096, CursorBack, TakeCurrent]
      (cursor_at_ghost_mut list_new) two_frames =
    Some ([Done, Done, Found True, Done, FrameOut (Some FRAME_METADATA_BASE_VADDR)], c, r') \<and>
    cursor_rep r' c [(FRAME_METADATA_BASE_VADDR + 64, 2)] []"
proof -
  have mp: "0x80000000 \<le> (2 ^ 46 :: nat)" by simp
  have fresh: "fresh_ids first_id list_new two_frames" by (simp add: fresh_ids_def first_id_def two_frames_def)
  have spec: "spec_run 0x80000000
      [PushFront FRAME_METADATA_BASE_VADDR, PushFront (FRAME_METADATA_BASE_VADDR + 64), Contains 4096, CursorBack, TakeCurrent]
      ([FRAME_METADATA_BASE_VADDR \<mapsto> 1, FRAME_METADATA_BASE_VADDR + 64 \<mapsto> 2 :: nat], [], []) =
    Some ([Done, Done, Found True, Done, FrameOut (Some FRAME_METADATA_BASE_VADDR)],
      [FRAME_METADATA_BASE_VADDR \<mapsto> 1], [(FRAME_METADATA_BASE_VADDR + 64, 2)], [])"
    by (simp add: spec_has_def spec_slot_def spec_back_def layout_defs META_SLOT_SIZE_def)
  show ?thesis using frame_list_refines [OF fid.list_ids_axioms mp two_frames_slots fresh spec] by blast
qed

lemma list_drop_loop_rep:
  "cursor_rep r c [] ys \<Longrightarrow> \<exists>c' r'. list_drop_loop c r = Some (c', r') \<and>
    (\<forall>v. links r' v = (if v \<in> fst ` set ys then None else links r v))"
proof (induction ys arbitrary: c r)
  case Nil
  then show ?case using take_current_end [OF Nil] by (subst list_drop_loop.simps) simp
next
  case (Cons y ys)
  obtain v d where y: "y = (v, d)" by fastforce
  obtain c1 r1 where T: "take_current c r = Some (Some v, c1, r1)" "cursor_rep r1 c1 [] ys"
    "links r1 v = Some (link_new d)" "\<forall>u. u \<notin> fst ` set ([] @ (v, d) # ys) \<longrightarrow> links r1 u = links r u"
    using take_current_rep [of r c "[]" v d ys] Cons.prems y by metis
  have v: "v \<notin> fst ` set ys" using cursor_rep_list [OF Cons.prems] y by (simp add: list_rep_def)
  let ?r = "r1\<lparr>links := (links r1)(v := None)\<rparr>"
  have "cursor_rep ?r c1 [] ys" using T(2) v by (simp add: cursor_rep_def list_rep_def)
  from Cons.IH [OF this] obtain c' r' where
    "list_drop_loop c1 ?r = Some (c', r')" "\<forall>u. links r' u = (if u \<in> fst ` set ys then None else links ?r u)" by blast
  then show ?case using T y by (subst list_drop_loop.simps) (auto simp: unique_frame_drop_def)
qed

text \<open>Dropping a list terminates and drops every frame in it.  From any region in which the list is well formed,
  \<open>drop\<close> returns; the metadata of every frame of the list has been dropped, and the metadata of every other frame
  is untouched.\<close>

lemma list_drop_drops_all:
  assumes "list_rep r l zs"
  shows "\<exists>r'. list_drop l r = Some r' \<and> (\<forall>v. links r' v = (if v \<in> fst ` set zs then None else links r v))"
  using list_drop_loop_rep [OF cursor_rep_front [OF assms]] by (auto simp: list_drop_def)

end
