(* ===== verification/Tlb.thy ===== *)
theory Tlb
  imports Mm_Layout
begin

text \<open>
  Batching of TLB flushes, \<open>src/ostd/src/mm/tlb.rs\<close>: the bounded stack of flush requests that a cursor collects before
  it dispatches them.  The stack may flush more than was asked for, but never less of the entries that are not global.
\<close>

section \<open>Requests\<close>

datatype TlbFlushOp = FlushAll | FlushAddress Vaddr | FlushRange Vaddr Vaddr

definition FLUSH_ALL_RANGE_THRESHOLD :: usize where "FLUSH_ALL_RANGE_THRESHOLD = 32 * PAGE_SIZE"
definition FLUSH_ALL_OPS_THRESHOLD :: usize where "FLUSH_ALL_OPS_THRESHOLD = 32"

text \<open>The length of a \<open>Range<usize>\<close> is 0 when it is empty.\<close>

definition range_len :: "Vaddr \<Rightarrow> Vaddr \<Rightarrow> usize" where
  "range_len a b = (if a < b then b - a else 0)"

fun optimize_for_large_range :: "TlbFlushOp \<Rightarrow> TlbFlushOp" where
  "optimize_for_large_range (FlushRange a b) =
     (if range_len a b > FLUSH_ALL_RANGE_THRESHOLD then FlushAll else FlushRange a b)"
| "optimize_for_large_range op = op"

section \<open>The stack\<close>

record OpsStack =
  ops :: "TlbFlushOp option list"
  need_flush_all :: bool
  ops_size :: usize

definition ops_new :: OpsStack where
  "ops_new = \<lparr>ops = replicate FLUSH_ALL_OPS_THRESHOLD None, need_flush_all = False, ops_size = 0\<rparr>"

definition ops_is_empty :: "OpsStack \<Rightarrow> bool" where
  "ops_is_empty k \<longleftrightarrow> \<not> need_flush_all k \<and> ops_size k = 0"

definition ops_push :: "TlbFlushOp \<Rightarrow> OpsStack \<Rightarrow> OpsStack option" where
  "ops_push op k = (
     if need_flush_all k then Some k
     else let op = optimize_for_large_range op in
       if op = FlushAll \<or> ops_size k \<ge> FLUSH_ALL_OPS_THRESHOLD
       then Some (k\<lparr>need_flush_all := True, ops_size := 0\<rparr>)
       else do {
         xs \<leftarrow> rset (ops k) (ops_size k) (Some op);
         n \<leftarrow> uadd (ops_size k) 1;
         Some (k\<lparr>ops := xs, ops_size := n\<rparr>)
       })"

text \<open>The loop of \<open>push_from\<close> copies the first \<open>size\<close> entries of the other stack.\<close>

fun ops_copy :: "TlbFlushOp option list \<Rightarrow> nat list \<Rightarrow> OpsStack \<Rightarrow> OpsStack option" where
  "ops_copy src [] k = Some k"
| "ops_copy src (i # is) k = do {
     e \<leftarrow> rindex src i;
     xs \<leftarrow> rset (ops k) (ops_size k) e;
     n \<leftarrow> uadd (ops_size k) 1;
     ops_copy src is (k\<lparr>ops := xs, ops_size := n\<rparr>)
   }"

definition ops_push_from :: "OpsStack \<Rightarrow> OpsStack \<Rightarrow> OpsStack option" where
  "ops_push_from other k = (
     if need_flush_all k then Some k
     else do {
       n \<leftarrow> uadd (ops_size k) (ops_size other);
       if need_flush_all other \<or> n \<ge> FLUSH_ALL_OPS_THRESHOLD
       then Some (k\<lparr>need_flush_all := True, ops_size := 0\<rparr>)
       else ops_copy (ops other) [0..<ops_size other] k
     })"

definition ops_clear_without_flush :: "OpsStack \<Rightarrow> OpsStack" where
  "ops_clear_without_flush k = k\<lparr>need_flush_all := False, ops_size := 0\<rparr>"

text \<open>\<open>flush_all\<close>.  The processor's part, \<open>perform_on_current\<close>, has no body in the sources and is a parameter here; a stack that has to
  flush everything reaches \<open>unimplemented!()\<close>.\<close>

fun ops_perform :: "(TlbFlushOp \<Rightarrow> 'w \<Rightarrow> 'w) \<Rightarrow> TlbFlushOp option list \<Rightarrow> nat list \<Rightarrow> 'w \<Rightarrow> 'w option" where
  "ops_perform perform_on_current xs [] w = Some w"
| "ops_perform perform_on_current xs (i # is) w = do {
     e \<leftarrow> rindex xs i;
     ops_perform perform_on_current xs is (case e of Some op \<Rightarrow> perform_on_current op w | None \<Rightarrow> w)
   }"

definition ops_flush_all :: "(TlbFlushOp \<Rightarrow> 'w \<Rightarrow> 'w) \<Rightarrow> OpsStack \<Rightarrow> 'w \<Rightarrow> (OpsStack \<times> 'w) option" where
  "ops_flush_all perform_on_current k w = do {
     w \<leftarrow> (if need_flush_all k then None else ops_perform perform_on_current (ops k) [0..<ops_size k] w);
     Some (ops_clear_without_flush k, w)
   }"

section \<open>What is asked for\<close>

text \<open>The requests that are pending in a stack, oldest first.\<close>

definition ops_pending :: "OpsStack \<Rightarrow> TlbFlushOp list" where
  "ops_pending k = (if need_flush_all k then [FlushAll] else List.map_filter id (take (ops_size k) (ops k)))"

text \<open>Whether a request asks to flush the entries for an address, those of a global mapping (\<open>g\<close>) or the others: \<open>All\<close> is documented as
  all entries except for the global ones.\<close>

fun op_covers :: "TlbFlushOp \<Rightarrow> Vaddr \<Rightarrow> bool \<Rightarrow> bool" where
  "op_covers FlushAll v g \<longleftrightarrow> \<not> g"
| "op_covers (FlushAddress a) v g \<longleftrightarrow> v div PAGE_SIZE = a div PAGE_SIZE"
| "op_covers (FlushRange a b) v g \<longleftrightarrow> a \<le> v \<and> v < b"

definition stack_covers :: "OpsStack \<Rightarrow> Vaddr \<Rightarrow> bool \<Rightarrow> bool" where
  "stack_covers k v g \<longleftrightarrow> (\<exists>op \<in> set (ops_pending k). op_covers op v g)"

definition ops_ok :: "OpsStack \<Rightarrow> bool" where
  "ops_ok k \<longleftrightarrow> length (ops k) = FLUSH_ALL_OPS_THRESHOLD \<and> ops_size k \<le> FLUSH_ALL_OPS_THRESHOLD"

lemma optimize_covers:
  "op_covers op v g \<Longrightarrow> g \<longrightarrow> optimize_for_large_range op \<noteq> FlushAll \<Longrightarrow> op_covers (optimize_for_large_range op) v g"
  by (cases op) auto

lemma map_filter_id_append: "List.map_filter id (xs @ ys) = List.map_filter id xs @ List.map_filter id ys"
  by (simp add: List.map_filter_def)

lemma stack_covers_all: "need_flush_all k \<Longrightarrow> stack_covers k v False"
  by (simp add: stack_covers_def ops_pending_def)

lemma ops_perform_eq:
  "\<forall>i \<in> set is. i < length xs \<Longrightarrow> ops_perform p xs is w = Some (fold p (List.map_filter id (map ((!) xs) is)) w)"
  by (induction "is" arbitrary: w) (auto simp: rindex_def map_filter_simps split: option.splits)

lemma map_nth_upt: "n \<le> length xs \<Longrightarrow> map ((!) xs) [0..<n] = take n xs"
  by (intro nth_equalityI) simp_all

lemma ops_flush_all_eq:
  assumes "ops_ok k"
  shows "ops_flush_all p k w = (if need_flush_all k then None else Some (ops_clear_without_flush k, fold p (ops_pending k) w))"
  using assms ops_perform_eq [of "[0..<ops_size k]" "ops k" p w]
  by (auto simp: ops_flush_all_def ops_pending_def ops_ok_def map_nth_upt)

lemma take_update_Suc: "n < length xs \<Longrightarrow> take (Suc n) (xs[n := x]) = take n xs @ [x]"
  by (simp add: take_Suc_conv_app_nth)

lemma ops_new_ok: "ops_ok ops_new" "\<not> stack_covers ops_new v g"
  by (simp_all add: ops_ok_def ops_new_def stack_covers_def ops_pending_def List.map_filter_def)

text \<open>What a stack covers after it took something in: everything, except for the global entries once it has to flush all.\<close>

definition takes_in :: "(Vaddr \<Rightarrow> bool \<Rightarrow> bool) \<Rightarrow> OpsStack \<Rightarrow> OpsStack \<Rightarrow> bool" where
  "takes_in ask k k' \<longleftrightarrow> ops_ok k' \<and> (need_flush_all k \<longrightarrow> need_flush_all k') \<and>
     (\<forall>v g. (stack_covers k v g \<or> ask v g) \<and> (g \<longrightarrow> \<not> need_flush_all k') \<longrightarrow> stack_covers k' v g)"

lemma takes_in_all: "ops_ok k' \<Longrightarrow> need_flush_all k' \<Longrightarrow> takes_in ask k k'"
  using stack_covers_all by (auto simp: takes_in_def)

lemma ops_push_ok:
  assumes "ops_ok k"
  shows "\<exists>k'. ops_push op k = Some k' \<and> takes_in (op_covers op) k k'"
proof (cases "need_flush_all k \<or> optimize_for_large_range op = FlushAll \<or> ops_size k \<ge> FLUSH_ALL_OPS_THRESHOLD")
  case True
  then show ?thesis using assms by (auto simp: ops_push_def Let_def ops_ok_def FLUSH_ALL_OPS_THRESHOLD_def intro!: takes_in_all)
next
  case False
  let ?op = "optimize_for_large_range op"
  let ?k = "k\<lparr>ops := (ops k)[ops_size k := Some ?op], ops_size := Suc (ops_size k)\<rparr>"
  have len: "ops_size k < length (ops k)" "length (ops k) = 32" using False assms by (simp_all add: ops_ok_def FLUSH_ALL_OPS_THRESHOLD_def)
  have "ops_push op k = Some ?k"
    using False len by (simp add: ops_push_def Let_def rset_def uadd_def USIZE_MAX_def)
  moreover have "ops_ok ?k" using len by (simp add: ops_ok_def FLUSH_ALL_OPS_THRESHOLD_def)
  moreover have "ops_pending ?k = ops_pending k @ [?op]"
    using False len(1) by (simp add: ops_pending_def take_update_Suc map_filter_id_append)
  ultimately show ?thesis using optimize_covers [of op] False by (auto simp: takes_in_def stack_covers_def)
qed

lemma ops_push_local:
  assumes "ops_ok k"
  shows "\<exists>k'. ops_push op k = Some k' \<and> ops_ok k' \<and>
    (\<forall>v. stack_covers k v False \<or> op_covers op v False \<longrightarrow> stack_covers k' v False)"
  using ops_push_ok [OF assms, of op] by (auto simp: takes_in_def)

lemma ops_copy_ok:
  "ops_ok k \<Longrightarrow> \<not> need_flush_all k \<Longrightarrow> ops_size k + length is \<le> FLUSH_ALL_OPS_THRESHOLD \<Longrightarrow> \<forall>i \<in> set is. i < length src \<Longrightarrow>
   \<exists>k'. ops_copy src is k = Some k' \<and> ops_ok k' \<and> \<not> need_flush_all k' \<and>
     take (ops_size k') (ops k') = take (ops_size k) (ops k) @ map ((!) src) is"
proof (induction "is" arbitrary: k)
  case (Cons i "is")
  let ?k = "k\<lparr>ops := (ops k)[ops_size k := src ! i], ops_size := Suc (ops_size k)\<rparr>"
  have len: "ops_size k < length (ops k)" "length (ops k) = 32" using Cons.prems by (simp_all add: ops_ok_def FLUSH_ALL_OPS_THRESHOLD_def)
  have "\<exists>k'. ops_copy src is ?k = Some k' \<and> ops_ok k' \<and> \<not> need_flush_all k' \<and>
      take (ops_size k') (ops k') = take (ops_size ?k) (ops ?k) @ map ((!) src) is"
    by (rule Cons.IH) (use Cons.prems in \<open>simp_all add: ops_ok_def\<close>)
  then show ?case using Cons.prems len
    by (auto simp: rset_def rindex_def uadd_def USIZE_MAX_def take_update_Suc)
qed simp

lemma ops_push_from_ok:
  assumes "ops_ok k" "ops_ok other"
  shows "\<exists>k'. ops_push_from other k = Some k' \<and> takes_in (stack_covers other) k k'"
proof (cases "need_flush_all k \<or> need_flush_all other \<or> ops_size k + ops_size other \<ge> FLUSH_ALL_OPS_THRESHOLD")
  case True
  then show ?thesis using assms
    by (auto simp: ops_push_from_def uadd_def USIZE_MAX_def ops_ok_def FLUSH_ALL_OPS_THRESHOLD_def intro!: takes_in_all)
next
  case False
  have "map ((!) (ops other)) [0..<ops_size other] = take (ops_size other) (ops other)"
    using assms(2) by (intro map_nth_upt) (simp add: ops_ok_def)
  then obtain k' where k': "ops_copy (ops other) [0..<ops_size other] k = Some k'" "ops_ok k'" "\<not> need_flush_all k'"
    "take (ops_size k') (ops k') = take (ops_size k) (ops k) @ take (ops_size other) (ops other)"
    using ops_copy_ok [of k "[0..<ops_size other]" "ops other"] False assms by (auto simp: ops_ok_def)
  have "ops_pending k' = ops_pending k @ ops_pending other"
    using k' False by (simp add: ops_pending_def map_filter_id_append)
  then have "takes_in (stack_covers other) k k'" using k'(2) False by (auto simp: takes_in_def stack_covers_def)
  moreover have "ops_push_from other k = Some k'"
    using False k'(1) by (simp add: ops_push_from_def uadd_def USIZE_MAX_def FLUSH_ALL_OPS_THRESHOLD_def)
  ultimately show ?thesis by blast
qed

section \<open>Sequences of requests\<close>

datatype stack_op = Push TlbFlushOp | PushFrom OpsStack

fun run_stack :: "stack_op list \<Rightarrow> OpsStack \<Rightarrow> OpsStack option" where
  "run_stack [] k = Some k"
| "run_stack (Push op # xs) k = do { k \<leftarrow> ops_push op k; run_stack xs k }"
| "run_stack (PushFrom other # xs) k = do { k \<leftarrow> ops_push_from other k; run_stack xs k }"

fun asks :: "stack_op \<Rightarrow> Vaddr \<Rightarrow> bool \<Rightarrow> bool" where
  "asks (Push op) v g \<longleftrightarrow> op_covers op v g"
| "asks (PushFrom other) v g \<longleftrightarrow> stack_covers other v g"

lemma run_stack_ok:
  "ops_ok k \<Longrightarrow> (\<forall>other. PushFrom other \<in> set xs \<longrightarrow> ops_ok other) \<Longrightarrow>
   \<exists>k'. run_stack xs k = Some k' \<and> takes_in (\<lambda>v g. \<exists>x \<in> set xs. asks x v g) k k'"
proof (induction xs arbitrary: k)
  case (Cons x xs)
  have "\<exists>k1. run_stack (x # xs) k = run_stack xs k1 \<and> takes_in (asks x) k k1"
  proof (cases x)
    case (Push op)
    then show ?thesis using ops_push_ok [OF Cons.prems(1), of op] by (auto simp: takes_in_def)
  next
    case (PushFrom other)
    then show ?thesis using ops_push_from_ok [OF Cons.prems(1), of other] Cons.prems(2) by (auto simp: takes_in_def)
  qed
  then obtain k1 where k1: "run_stack (x # xs) k = run_stack xs k1" "takes_in (asks x) k k1" by blast
  then obtain k' where k': "run_stack xs k1 = Some k'" "takes_in (\<lambda>v g. \<exists>x \<in> set xs. asks x v g) k1 k'"
    using Cons.IH [of k1] Cons.prems(2) by (auto simp: takes_in_def)
  have "takes_in (\<lambda>v g. \<exists>x \<in> set (x # xs). asks x v g) k k'"
    unfolding takes_in_def
  proof (intro conjI allI impI)
    show "ops_ok k'" "need_flush_all k \<Longrightarrow> need_flush_all k'" using k1(2) k'(2) by (simp_all add: takes_in_def)
    fix v g
    assume a: "(stack_covers k v g \<or> (\<exists>y \<in> set (x # xs). asks y v g)) \<and> (g \<longrightarrow> \<not> need_flush_all k')"
    then have "stack_covers k1 v g \<or> (\<exists>y \<in> set xs. asks y v g)" using k1(2) k'(2) by (auto simp: takes_in_def)
    then show "stack_covers k' v g" using a k'(2) by (auto simp: takes_in_def)
  qed
  then show ?case using k1(1) k'(1) by auto
qed (simp add: takes_in_def)

text \<open>C37: No flush request is lost in a stack.  However requests are pushed and whole stacks merged into a new stack, nothing panics, at
  most 32 requests are pending, and they cover every entry that some request or some merged stack asks to flush: always for the
  entries that are not global, and for the global ones too unless the stack was turned into a flush of everything, which
  excludes them.  Then \<open>flush_all\<close> performs exactly the pending requests in their order and leaves an empty stack, except that it ends in
  \<open>unimplemented!()\<close> where everything has to be flushed.\<close>

theorem tlb_requests_not_lost:
  assumes "\<forall>other. PushFrom other \<in> set xs \<longrightarrow> ops_ok other"
  shows "\<exists>k. run_stack xs ops_new = Some k \<and> length (ops_pending k) \<le> 32 \<and>
    (\<forall>x \<in> set xs. \<forall>v. asks x v False \<longrightarrow> (\<exists>op \<in> set (ops_pending k). op_covers op v False)) \<and>
    (\<not> need_flush_all k \<longrightarrow> (\<forall>x \<in> set xs. \<forall>v. asks x v True \<longrightarrow> (\<exists>op \<in> set (ops_pending k). op_covers op v True))) \<and>
    (if need_flush_all k then ops_flush_all perform_on_current k w = None
     else \<exists>k'. ops_flush_all perform_on_current k w = Some (k', fold perform_on_current (ops_pending k) w) \<and> ops_is_empty k')"
proof -
  obtain k where k: "run_stack xs ops_new = Some k" "takes_in (\<lambda>v g. \<exists>x \<in> set xs. asks x v g) ops_new k"
    using run_stack_ok [OF ops_new_ok(1)] assms by blast
  have ok: "ops_ok k" and cov: "\<And>v g x. x \<in> set xs \<Longrightarrow> asks x v g \<Longrightarrow> g \<longrightarrow> \<not> need_flush_all k \<Longrightarrow> stack_covers k v g"
    using k(2) unfolding takes_in_def by blast+
  have "length (ops_pending k) \<le> 32"
    using ok length_filter_le [of "\<lambda>x. x \<noteq> None" "take (ops_size k) (ops k)"]
    by (auto simp: ops_pending_def ops_ok_def FLUSH_ALL_OPS_THRESHOLD_def List.map_filter_def)
  moreover have "ops_is_empty (ops_clear_without_flush k)" by (simp add: ops_is_empty_def ops_clear_without_flush_def)
  ultimately show ?thesis using k(1) cov ops_flush_all_eq [OF ok, of perform_on_current w] by (intro exI [of _ k]) (simp add: stack_covers_def)
qed

theorem tlb_requests_not_lost_witness:
  "\<exists>k. run_stack [Push (FlushAddress 0x3000), Push (FlushRange 0x10000 0x20000)] ops_new = Some k \<and>
    (\<exists>op \<in> set (ops_pending k). op_covers op 0x3abc False) \<and>
    (if need_flush_all k then ops_flush_all (#) k [] = None
     else \<exists>k'. ops_flush_all (#) k [] = Some (k', fold (#) (ops_pending k) []) \<and> ops_is_empty k')"
proof -
  let ?xs = "[Push (FlushAddress 0x3000), Push (FlushRange 0x10000 0x20000)]"
  have "\<forall>other. PushFrom other \<in> set ?xs \<longrightarrow> ops_ok other" by simp
  from tlb_requests_not_lost [OF this, of "(#)" "[]"] obtain k where "run_stack ?xs ops_new = Some k"
    "\<forall>x \<in> set ?xs. \<forall>v. asks x v False \<longrightarrow> (\<exists>op \<in> set (ops_pending k). op_covers op v False)"
    "if need_flush_all k then ops_flush_all (#) k [] = None
     else \<exists>k'. ops_flush_all (#) k [] = Some (k', fold (#) (ops_pending k) []) \<and> ops_is_empty k'" by blast
  then show ?thesis by (intro exI [of _ k]) (auto simp: PAGE_SIZE_def)
qed

text \<open>A range of more than 32 pages is turned into a flush that leaves its global entries.\<close>

lemma large_range_not_global:
  assumes "32 * PAGE_SIZE < b - a"
  shows "\<exists>k. ops_push (FlushRange a b) ops_new = Some k \<and> ops_pending k = [FlushAll] \<and> \<not> stack_covers k v True"
  using assms by (auto simp: ops_push_def Let_def ops_new_def range_len_def FLUSH_ALL_RANGE_THRESHOLD_def ops_pending_def stack_covers_def)

end
