(* ===== verification/Vm_Io.thy ===== *)
theory Vm_Io
  imports Align_Ext Mm_Layout
begin

text \<open>
  Access to untyped memory: \<open>src/ostd/src/mm/io.rs\<close>, with the pointers of \<open>src/ostd/specs/mm/virt_mem.rs\<close> and the
  plain data of \<open>src/ostd/libs/ostd-pod/src/lib.rs\<close>.

  Memory is a function from virtual addresses to bytes, passed along explicitly.  A reference to a value, a slice and a
  local variable are addresses of that memory, so what aliases what is part of every statement.  A value of a type
  \<open>T : Pod\<close> is the list of its bytes; of the type itself only the size and the alignment are used.  The markers
  \<open>Fallible\<close> and \<open>Infallible\<close> select the functions below and carry no data.
\<close>

type_synonym mem = "Vaddr \<Rightarrow> 8 word"

section \<open>Pointers\<close>

record VirtPtr =
  ptr_vaddr :: Vaddr

definition vp_from_vaddr :: "Vaddr \<Rightarrow> usize \<Rightarrow> VirtPtr" where
  "vp_from_vaddr v len = \<lparr>ptr_vaddr = v\<rparr>"

definition wrapping_add :: "VirtPtr \<Rightarrow> usize \<Rightarrow> VirtPtr" where
  "wrapping_add p n = \<lparr>ptr_vaddr = (ptr_vaddr p + n) mod 2 ^ 64\<rparr>"

definition vp_add :: "VirtPtr \<Rightarrow> usize \<Rightarrow> VirtPtr option" where
  "vp_add p n = do { a \<leftarrow> uadd (ptr_vaddr p) n; Some \<lparr>ptr_vaddr = a\<rparr> }"

definition vp_sub :: "VirtPtr \<Rightarrow> usize \<Rightarrow> VirtPtr option" where
  "vp_sub p n = do { a \<leftarrow> usub (ptr_vaddr p) n; Some \<lparr>ptr_vaddr = a\<rparr> }"

text \<open>Loads and stores of one byte.\<close>

definition vp_read :: "mem \<Rightarrow> VirtPtr \<Rightarrow> 8 word" where
  "vp_read m p = m (ptr_vaddr p)"

definition vp_write :: "mem \<Rightarrow> VirtPtr \<Rightarrow> 8 word \<Rightarrow> mem" where
  "vp_write m p x = m(ptr_vaddr p := x)"

definition read_offset :: "mem \<Rightarrow> VirtPtr \<Rightarrow> usize \<Rightarrow> 8 word option" where
  "read_offset m p n = do { tmp \<leftarrow> vp_add p n; Some (vp_read m tmp) }"

definition write_offset :: "mem \<Rightarrow> VirtPtr \<Rightarrow> usize \<Rightarrow> 8 word \<Rightarrow> mem option" where
  "write_offset m p n x = do { tmp \<leftarrow> vp_add p n; Some (vp_write m tmp x) }"

definition copy_offset :: "VirtPtr \<Rightarrow> VirtPtr \<Rightarrow> usize \<Rightarrow> mem \<Rightarrow> mem option" where
  "copy_offset src dst n m = do { x \<leftarrow> read_offset m src n; write_offset m dst n x }"

primrec copy_nonoverlapping :: "VirtPtr \<Rightarrow> VirtPtr \<Rightarrow> usize \<Rightarrow> mem \<Rightarrow> mem option" where
  "copy_nonoverlapping src dst 0 m = Some m"
| "copy_nonoverlapping src dst (Suc n) m = do {
     m1 \<leftarrow> copy_offset src dst n m;
     copy_nonoverlapping src dst n m1
   }"

section \<open>Plain data\<close>

record pod_ty =
  size_of :: usize
  align_of :: usize

text \<open>The bytes of \<open>n\<close> consecutive addresses, and storing bytes there.\<close>

definition load :: "mem \<Rightarrow> Vaddr \<Rightarrow> usize \<Rightarrow> 8 word list" where
  "load m a n = map (\<lambda>i. m (a + i)) [0..<n]"

primrec store :: "mem \<Rightarrow> Vaddr \<Rightarrow> 8 word list \<Rightarrow> mem" where
  "store m a [] = m"
| "store m a (b # bs) = store (m(a := b)) (Suc a) bs"

definition read_volatile :: "pod_ty \<Rightarrow> mem \<Rightarrow> VirtPtr \<Rightarrow> 8 word list" where
  "read_volatile T m p = load m (ptr_vaddr p) (size_of T)"

definition write_volatile :: "mem \<Rightarrow> VirtPtr \<Rightarrow> 8 word list \<Rightarrow> mem" where
  "write_volatile m p v = store m (ptr_vaddr p) v"

definition is_aligned :: "pod_ty \<Rightarrow> VirtPtr \<Rightarrow> bool" where
  "is_aligned T p \<longleftrightarrow> ptr_vaddr p mod align_of T = 0"

text \<open>A slice of bytes: its address and its length.  \<open>as_bytes\<close> and \<open>as_bytes_mut\<close> are the slice of a value that
  stands at a given address.\<close>

type_synonym slice = "Vaddr \<times> usize"

definition as_bytes :: "pod_ty \<Rightarrow> Vaddr \<Rightarrow> slice" where
  "as_bytes T v = (v, size_of T)"

definition as_virt_ptr :: "slice \<Rightarrow> VirtPtr" where
  "as_virt_ptr s = \<lparr>ptr_vaddr = fst s\<rparr>"

definition is_non_tearing :: "pod_ty \<Rightarrow> bool" where
  "is_non_tearing T \<longleftrightarrow> size_of T = 1 \<or> size_of T = 2 \<or> size_of T = 4 \<or> size_of T = 8"

section \<open>Readers and writers\<close>

record VmReader =
  rd_cursor :: VirtPtr
  rd_end :: VirtPtr

record VmWriter =
  wr_cursor :: VirtPtr
  wr_end :: VirtPtr

definition reader_from_kernel_space :: "VirtPtr \<Rightarrow> usize \<Rightarrow> VmReader" where
  "reader_from_kernel_space ptr len = \<lparr>rd_cursor = ptr, rd_end = wrapping_add ptr len\<rparr>"

definition reader_from_user_space :: "VirtPtr \<Rightarrow> usize \<Rightarrow> VmReader" where
  "reader_from_user_space ptr len = \<lparr>rd_cursor = ptr, rd_end = wrapping_add ptr len\<rparr>"

definition reader_from :: "slice \<Rightarrow> VmReader" where
  "reader_from s = reader_from_kernel_space (as_virt_ptr s) (snd s)"

definition remain :: "VmReader \<Rightarrow> usize option" where
  "remain r = usub (ptr_vaddr (rd_end r)) (ptr_vaddr (rd_cursor r))"

definition has_remain :: "VmReader \<Rightarrow> bool option" where
  "has_remain r = do { n \<leftarrow> remain r; Some (n > 0) }"

definition reader_limit :: "VmReader \<Rightarrow> usize \<Rightarrow> VmReader option" where
  "reader_limit r max_remain = do {
     n \<leftarrow> remain r;
     Some (if max_remain < n then r\<lparr>rd_end := wrapping_add (rd_cursor r) max_remain\<rparr> else r)
   }"

definition reader_skip :: "VmReader \<Rightarrow> usize \<Rightarrow> VmReader option" where
  "reader_skip r nbytes = do {
     n \<leftarrow> remain r;
     rassert (nbytes \<le> n);
     Some (r\<lparr>rd_cursor := wrapping_add (rd_cursor r) nbytes\<rparr>)
   }"

definition writer_from_kernel_space :: "VirtPtr \<Rightarrow> usize \<Rightarrow> VmWriter" where
  "writer_from_kernel_space ptr len = \<lparr>wr_cursor = ptr, wr_end = wrapping_add ptr len\<rparr>"

definition writer_from_user_space :: "VirtPtr \<Rightarrow> usize \<Rightarrow> VmWriter" where
  "writer_from_user_space ptr len = \<lparr>wr_cursor = ptr, wr_end = wrapping_add ptr len\<rparr>"

definition writer_from :: "slice \<Rightarrow> VmWriter" where
  "writer_from s = writer_from_kernel_space (as_virt_ptr s) (snd s)"

definition avail :: "VmWriter \<Rightarrow> usize option" where
  "avail w = usub (ptr_vaddr (wr_end w)) (ptr_vaddr (wr_cursor w))"

definition has_avail :: "VmWriter \<Rightarrow> bool option" where
  "has_avail w = do { n \<leftarrow> avail w; Some (n > 0) }"

definition writer_limit :: "VmWriter \<Rightarrow> usize \<Rightarrow> VmWriter option" where
  "writer_limit w max_avail = do {
     n \<leftarrow> avail w;
     Some (if max_avail < n then w\<lparr>wr_end := wrapping_add (wr_cursor w) max_avail\<rparr> else w)
   }"

definition writer_skip :: "VmWriter \<Rightarrow> usize \<Rightarrow> VmWriter option" where
  "writer_skip w nbytes = do {
     n \<leftarrow> avail w;
     rassert (nbytes \<le> n);
     Some (w\<lparr>wr_cursor := wrapping_add (wr_cursor w) nbytes\<rparr>)
   }"

section \<open>Copies that cannot fault\<close>

definition memcpy :: "VirtPtr \<Rightarrow> VirtPtr \<Rightarrow> usize \<Rightarrow> mem \<Rightarrow> mem option" where
  "memcpy dst src len m = copy_nonoverlapping src dst len m"

text \<open>\<open>VmReader<Infallible>::read\<close>: the number of bytes, the memory and both cursors after it.\<close>

definition reader_read :: "VmReader \<Rightarrow> VmWriter \<Rightarrow> mem \<Rightarrow> (usize \<times> VmReader \<times> VmWriter \<times> mem) option" where
  "reader_read r w m = do {
     n \<leftarrow> remain r;
     k \<leftarrow> avail w;
     let copy_len = min n k;
     if copy_len = 0 then Some (0, r, w, m)
     else do {
       m1 \<leftarrow> memcpy (wr_cursor w) (rd_cursor r) copy_len m;
       Some (copy_len, r\<lparr>rd_cursor := wrapping_add (rd_cursor r) copy_len\<rparr>,
             w\<lparr>wr_cursor := wrapping_add (wr_cursor w) copy_len\<rparr>, m1)
     }
   }"

definition writer_write :: "VmWriter \<Rightarrow> VmReader \<Rightarrow> mem \<Rightarrow> (usize \<times> VmWriter \<times> VmReader \<times> mem) option" where
  "writer_write w r m = do {
     (n, r', w', m') \<leftarrow> reader_read r w m;
     Some (n, w', r', m')
   }"

text \<open>\<open>read_val\<close> reads into a local variable, whose address is an argument here.\<close>

definition reader_read_val ::
    "pod_ty \<Rightarrow> VmReader \<Rightarrow> Vaddr \<Rightarrow> mem \<Rightarrow> ((Error + 8 word list) \<times> VmReader \<times> mem) option" where
  "reader_read_val T r val m = do {
     n \<leftarrow> remain r;
     if n < size_of T then Some (Inl InvalidArgs, r, m)
     else do {
       (_, r1, _, m1) \<leftarrow> reader_read r (writer_from (as_bytes T val)) m;
       Some (Inr (load m1 val (size_of T)), r1, m1)
     }
   }"

definition writer_write_val ::
    "pod_ty \<Rightarrow> VmWriter \<Rightarrow> Vaddr \<Rightarrow> mem \<Rightarrow> ((Error + unit) \<times> VmWriter \<times> mem) option" where
  "writer_write_val T w new_val m = do {
     n \<leftarrow> avail w;
     if n < size_of T then Some (Inl InvalidArgs, w, m)
     else do {
       (_, w1, _, m1) \<leftarrow> writer_write w (reader_from (as_bytes T new_val)) m;
       Some (Inr (), w1, m1)
     }
   }"

definition read_once :: "pod_ty \<Rightarrow> VmReader \<Rightarrow> mem \<Rightarrow> ((Error + 8 word list) \<times> VmReader) option" where
  "read_once T r m = do {
     n \<leftarrow> remain r;
     if n < size_of T then Some (Inl InvalidArgs, r)
     else do {
       rassert (is_aligned T (rd_cursor r));
       Some (Inr (read_volatile T m (rd_cursor r)), r\<lparr>rd_cursor := wrapping_add (rd_cursor r) (size_of T)\<rparr>)
     }
   }"

definition write_once :: "pod_ty \<Rightarrow> VmWriter \<Rightarrow> 8 word list \<Rightarrow> mem \<Rightarrow> ((Error + unit) \<times> VmWriter \<times> mem) option" where
  "write_once T w new_val m = do {
     n \<leftarrow> avail w;
     if n < size_of T then Some (Inl InvalidArgs, w, m)
     else do {
       rassert (is_aligned T (wr_cursor w));
       Some (Inr (), w\<lparr>wr_cursor := wrapping_add (wr_cursor w) (size_of T)\<rparr>, write_volatile m (wr_cursor w) new_val)
     }
   }"

text \<open>\<open>fill\<close>: \<open>n\<close> rounds of its loop.\<close>

primrec fill_loop :: "nat \<Rightarrow> usize \<Rightarrow> 8 word list \<Rightarrow> VirtPtr \<Rightarrow> mem \<Rightarrow> mem" where
  "fill_loop 0 len value cursor_i m = m"
| "fill_loop (Suc n) len value cursor_i m =
     fill_loop n len value (wrapping_add cursor_i len) (write_volatile m cursor_i value)"

definition fill :: "pod_ty \<Rightarrow> VmWriter \<Rightarrow> 8 word list \<Rightarrow> mem \<Rightarrow> (usize \<times> VmWriter \<times> mem) option" where
  "fill T w value m = do {
     rassert (is_aligned T (wr_cursor w));
     n \<leftarrow> avail w;
     rassert (size_of T \<noteq> 0);
     rassert (n mod size_of T = 0);
     let written_num = n div size_of T;
     Some (written_num, w\<lparr>wr_cursor := wr_end w\<rparr>, fill_loop written_num (size_of T) value (wr_cursor w) m)
   }"

section \<open>Copies that may fault\<close>

text \<open>\<open>__memcpy_fallible\<close> and \<open>__memset_fallible\<close> are assembly on x86; they are arguments, with the contract of their
  documentation: the result is the number of bytes that were not copied or set, and those before them were.\<close>

type_synonym raw_memcpy = "Vaddr \<Rightarrow> Vaddr \<Rightarrow> usize \<Rightarrow> mem \<Rightarrow> usize \<times> mem"
type_synonym raw_memset = "Vaddr \<Rightarrow> 8 word \<Rightarrow> usize \<Rightarrow> mem \<Rightarrow> usize \<times> mem"

definition memcpy_fallible :: "raw_memcpy \<Rightarrow> VirtPtr \<Rightarrow> VirtPtr \<Rightarrow> usize \<Rightarrow> mem \<Rightarrow> (usize \<times> mem) option" where
  "memcpy_fallible cp dst src len m = (case cp (ptr_vaddr dst) (ptr_vaddr src) len m of (failed_bytes, m1) \<Rightarrow> do {
     n \<leftarrow> usub len failed_bytes;
     Some (n, m1)
   })"

definition memset_fallible :: "raw_memset \<Rightarrow> VirtPtr \<Rightarrow> 8 word \<Rightarrow> usize \<Rightarrow> mem \<Rightarrow> (usize \<times> mem) option" where
  "memset_fallible ms dst value len m = (case ms (ptr_vaddr dst) value len m of (failed_bytes, m1) \<Rightarrow> do {
     n \<leftarrow> usub len failed_bytes;
     Some (n, m1)
   })"

definition read_fallible ::
    "raw_memcpy \<Rightarrow> VmReader \<Rightarrow> VmWriter \<Rightarrow> mem \<Rightarrow> (((Error \<times> usize) + usize) \<times> VmReader \<times> VmWriter \<times> mem) option" where
  "read_fallible cp r w m = do {
     n \<leftarrow> remain r;
     k \<leftarrow> avail w;
     let copy_len = min n k;
     if copy_len = 0 then Some (Inr 0, r, w, m)
     else do {
       (copied_len, m1) \<leftarrow> memcpy_fallible cp (wr_cursor w) (rd_cursor r) copy_len m;
       Some (if copied_len < copy_len then Inl (PageFault, copied_len) else Inr copied_len,
             r\<lparr>rd_cursor := wrapping_add (rd_cursor r) copied_len\<rparr>,
             w\<lparr>wr_cursor := wrapping_add (wr_cursor w) copied_len\<rparr>, m1)
     }
   }"

definition write_fallible ::
    "raw_memcpy \<Rightarrow> VmWriter \<Rightarrow> VmReader \<Rightarrow> mem \<Rightarrow> (((Error \<times> usize) + usize) \<times> VmWriter \<times> VmReader \<times> mem) option" where
  "write_fallible cp w r m = do {
     (res, r', w', m') \<leftarrow> read_fallible cp r w m;
     Some (res, w', r', m')
   }"

definition reader_read_val_fallible ::
    "raw_memcpy \<Rightarrow> pod_ty \<Rightarrow> VmReader \<Rightarrow> Vaddr \<Rightarrow> mem \<Rightarrow> ((Error + 8 word list) \<times> VmReader \<times> mem) option" where
  "reader_read_val_fallible cp T r val m = do {
     n \<leftarrow> remain r;
     if n < size_of T then Some (Inl InvalidArgs, r, m)
     else do {
       (res, r1, _, m1) \<leftarrow> read_fallible cp r (writer_from (as_bytes T val)) m;
       case res of
         Inr _ \<Rightarrow> Some (Inr (load m1 val (size_of T)), r1, m1)
       | Inl (err, copied_len) \<Rightarrow> do {
           c \<leftarrow> vp_sub (rd_cursor r1) copied_len;
           Some (Inl err, r1\<lparr>rd_cursor := c\<rparr>, m1)
         }
     }
   }"

text \<open>\<open>collect\<close> reads into a fresh zeroed vector, whose address is an argument.\<close>

definition collect ::
    "raw_memcpy \<Rightarrow> VmReader \<Rightarrow> Vaddr \<Rightarrow> mem \<Rightarrow> ((Error + 8 word list) \<times> VmReader \<times> mem) option" where
  "collect cp r buf m = do {
     len \<leftarrow> remain r;
     let m0 = store m buf (replicate len 0);
     (res, r1, _, m1) \<leftarrow> read_fallible cp r (writer_from_kernel_space (as_virt_ptr (buf, len)) len) m0;
     case res of
       Inr _ \<Rightarrow> Some (Inr (load m1 buf len), r1, m1)
     | Inl (err, copied_len) \<Rightarrow> do {
         c \<leftarrow> vp_sub (rd_cursor r1) copied_len;
         Some (Inl err, r1\<lparr>rd_cursor := c\<rparr>, m1)
       }
   }"

definition writer_write_val_fallible ::
    "raw_memcpy \<Rightarrow> pod_ty \<Rightarrow> VmWriter \<Rightarrow> Vaddr \<Rightarrow> mem \<Rightarrow> ((Error + unit) \<times> VmWriter \<times> mem) option" where
  "writer_write_val_fallible cp T w new_val m = do {
     n \<leftarrow> avail w;
     if n < size_of T then Some (Inl InvalidArgs, w, m)
     else do {
       (res, w1, _, m1) \<leftarrow> write_fallible cp w (reader_from (as_bytes T new_val)) m;
       case res of
         Inr _ \<Rightarrow> Some (Inr (), w1, m1)
       | Inl (err, copied_len) \<Rightarrow> do {
           c \<leftarrow> vp_sub (wr_cursor w1) copied_len;
           Some (Inl err, w1\<lparr>wr_cursor := c\<rparr>, m1)
         }
     }
   }"

definition fill_zeros :: "raw_memset \<Rightarrow> VmWriter \<Rightarrow> usize \<Rightarrow> mem \<Rightarrow> (((Error \<times> usize) + usize) \<times> VmWriter \<times> mem) option" where
  "fill_zeros ms w len m = do {
     n \<leftarrow> avail w;
     let len_to_set = min n len;
     if len_to_set = 0 then Some (Inr 0, w, m)
     else do {
       (set_len, m1) \<leftarrow> memset_fallible ms (wr_cursor w) 0 len_to_set m;
       Some (if set_len < len_to_set then Inl (PageFault, set_len) else Inr len_to_set,
             w\<lparr>wr_cursor := wrapping_add (wr_cursor w) set_len\<rparr>, m1)
     }
   }"

text \<open>The two functions on RISC-V, and on LoongArch: they copy and set everything.\<close>

definition copied :: "mem \<Rightarrow> Vaddr \<Rightarrow> Vaddr \<Rightarrow> nat \<Rightarrow> mem" where
  "copied m src dst n = (\<lambda>a. if dst \<le> a \<and> a < dst + n then m (src + (a - dst)) else m a)"

definition riscv_memcpy_fallible :: raw_memcpy where
  "riscv_memcpy_fallible dst src n m = (0, copied m src dst n)"

definition riscv_memset_fallible :: raw_memset where
  "riscv_memset_fallible dst value n m = (0, store m dst (replicate n value))"

definition loongarch_memcpy_fallible :: raw_memcpy where
  "loongarch_memcpy_fallible dst src n m = (0, copied m src dst n)"

definition loongarch_memset_fallible :: raw_memset where
  "loongarch_memset_fallible dst value n m = (0, store m dst (replicate n value))"

section \<open>The trait of memory objects\<close>

text \<open>\<open>VmIo\<close>: the two required methods of an object, and the provided methods on top of them.  The buffers, values and
  items are given by their addresses; \<open>size_of_val\<close> of a slice of \<open>n\<close> elements is \<open>n * size_of T\<close>.\<close>

type_synonym io_read = "usize \<Rightarrow> VmWriter \<Rightarrow> mem \<Rightarrow> ((Error + unit) \<times> VmWriter \<times> mem) option"
type_synonym io_write = "usize \<Rightarrow> VmReader \<Rightarrow> mem \<Rightarrow> ((Error + unit) \<times> VmReader \<times> mem) option"

definition io_read_bytes :: "io_read \<Rightarrow> usize \<Rightarrow> slice \<Rightarrow> mem \<Rightarrow> ((Error + unit) \<times> mem) option" where
  "io_read_bytes rd offset buf m = do {
     (res, _, m1) \<leftarrow> rd offset (writer_from buf) m;
     Some (res, m1)
   }"

definition io_read_val :: "io_read \<Rightarrow> pod_ty \<Rightarrow> usize \<Rightarrow> Vaddr \<Rightarrow> mem \<Rightarrow> ((Error + 8 word list) \<times> mem) option" where
  "io_read_val rd T offset val m = do {
     (res, m1) \<leftarrow> io_read_bytes rd offset (as_bytes T val) m;
     Some (case res of Inr _ \<Rightarrow> Inr (load m1 val (size_of T)) | Inl e \<Rightarrow> Inl e, m1)
   }"

definition io_read_slice :: "io_read \<Rightarrow> pod_ty \<Rightarrow> usize \<Rightarrow> slice \<Rightarrow> mem \<Rightarrow> ((Error + unit) \<times> mem) option" where
  "io_read_slice rd T offset s m = io_read_bytes rd offset (fst s, snd s * size_of T) m"

definition io_write_bytes :: "io_write \<Rightarrow> usize \<Rightarrow> slice \<Rightarrow> mem \<Rightarrow> ((Error + unit) \<times> mem) option" where
  "io_write_bytes wr offset buf m = do {
     (res, _, m1) \<leftarrow> wr offset (reader_from buf) m;
     Some (res, m1)
   }"

definition io_write_val :: "io_write \<Rightarrow> pod_ty \<Rightarrow> usize \<Rightarrow> Vaddr \<Rightarrow> mem \<Rightarrow> ((Error + unit) \<times> mem) option" where
  "io_write_val wr T offset new_val m = io_write_bytes wr offset (as_bytes T new_val) m"

definition io_write_slice :: "io_write \<Rightarrow> pod_ty \<Rightarrow> usize \<Rightarrow> slice \<Rightarrow> mem \<Rightarrow> ((Error + unit) \<times> mem) option" where
  "io_write_slice wr T offset s m = io_write_bytes wr offset (fst s, snd s * size_of T) m"

fun write_vals_loop ::
    "io_write \<Rightarrow> pod_ty \<Rightarrow> usize \<Rightarrow> Vaddr list \<Rightarrow> usize \<Rightarrow> usize \<Rightarrow> mem \<Rightarrow> ((Error + usize) \<times> mem) option" where
  "write_vals_loop wr T item_size [] offset nr_written m = Some (Inr nr_written, m)"
| "write_vals_loop wr T item_size (item # iter) offset nr_written m = (
     if nr_written = USIZE_MAX \<or> item_size > 0 \<and> offset > USIZE_MAX - item_size then Some (Inr nr_written, m)
     else do {
       (res, m1) \<leftarrow> io_write_val wr T offset item m;
       case res of
         Inr _ \<Rightarrow> do {
           offset' \<leftarrow> uadd offset item_size;
           nr_written' \<leftarrow> uadd nr_written 1;
           write_vals_loop wr T item_size iter offset' nr_written' m1
         }
       | Inl e \<Rightarrow> Some (if nr_written > 0 then Inr nr_written else Inl e, m1)
     })"

definition write_vals ::
    "io_write \<Rightarrow> pod_ty \<Rightarrow> usize \<Rightarrow> Vaddr list \<Rightarrow> usize \<Rightarrow> mem \<Rightarrow> ((Error + usize) \<times> mem) option" where
  "write_vals wr T offset iter align m = do {
     (offset', item_size) \<leftarrow> (
       if align \<le> 1 then Some (offset, size_of T)
       else do {
         o1 \<leftarrow> usize_align_up offset align;
         s1 \<leftarrow> usize_align_up (size_of T) align;
         Some (o1, s1)
       });
     write_vals_loop wr T item_size iter offset' 0 m
   }"

section \<open>Ranges and blocks of bytes\<close>

text \<open>A reader or writer is well formed when its cursor is not past its end.  Two blocks of bytes are apart when neither
  reaches into the other.\<close>

definition rd_wf :: "VmReader \<Rightarrow> bool" where
  "rd_wf r \<longleftrightarrow> ptr_vaddr (rd_cursor r) \<le> ptr_vaddr (rd_end r) \<and> ptr_vaddr (rd_end r) \<le> USIZE_MAX"

definition wr_wf :: "VmWriter \<Rightarrow> bool" where
  "wr_wf w \<longleftrightarrow> ptr_vaddr (wr_cursor w) \<le> ptr_vaddr (wr_end w) \<and> ptr_vaddr (wr_end w) \<le> USIZE_MAX"

definition apart :: "Vaddr \<Rightarrow> nat \<Rightarrow> Vaddr \<Rightarrow> nat \<Rightarrow> bool" where
  "apart a n b k \<longleftrightarrow> a + n \<le> b \<or> b + k \<le> a"

abbreviation rd_len :: "VmReader \<Rightarrow> nat" where
  "rd_len r \<equiv> ptr_vaddr (rd_end r) - ptr_vaddr (rd_cursor r)"

abbreviation wr_len :: "VmWriter \<Rightarrow> nat" where
  "wr_len w \<equiv> ptr_vaddr (wr_end w) - ptr_vaddr (wr_cursor w)"

definition rd_advance :: "nat \<Rightarrow> VmReader \<Rightarrow> VmReader" where
  "rd_advance n r = r\<lparr>rd_cursor := \<lparr>ptr_vaddr = ptr_vaddr (rd_cursor r) + n\<rparr>\<rparr>"

definition wr_advance :: "nat \<Rightarrow> VmWriter \<Rightarrow> VmWriter" where
  "wr_advance n w = w\<lparr>wr_cursor := \<lparr>ptr_vaddr = ptr_vaddr (wr_cursor w) + n\<rparr>\<rparr>"

lemma advance_fields [simp]:
  "ptr_vaddr (rd_cursor (rd_advance n r)) = ptr_vaddr (rd_cursor r) + n" "rd_end (rd_advance n r) = rd_end r"
  "ptr_vaddr (wr_cursor (wr_advance n w)) = ptr_vaddr (wr_cursor w) + n" "wr_end (wr_advance n w) = wr_end w"
  by (simp_all add: rd_advance_def wr_advance_def)

lemma advance_0 [simp]: "rd_advance 0 r = r" "wr_advance 0 w = w"
  by (simp_all add: rd_advance_def wr_advance_def)

lemma advance_wf [intro]:
  "rd_wf r \<Longrightarrow> n \<le> rd_len r \<Longrightarrow> rd_wf (rd_advance n r)"
  "wr_wf w \<Longrightarrow> n \<le> wr_len w \<Longrightarrow> wr_wf (wr_advance n w)"
  by (auto simp: rd_wf_def wr_wf_def)

lemma wrapping_add_small: "ptr_vaddr p + n \<le> USIZE_MAX \<Longrightarrow> wrapping_add p n = \<lparr>ptr_vaddr = ptr_vaddr p + n\<rparr>"
  by (simp add: wrapping_add_def USIZE_MAX_def)

lemma wrapping_add_within:
  "n \<le> e - ptr_vaddr p \<Longrightarrow> ptr_vaddr p \<le> e \<Longrightarrow> e \<le> USIZE_MAX \<Longrightarrow> wrapping_add p n = \<lparr>ptr_vaddr = ptr_vaddr p + n\<rparr>"
  by (rule wrapping_add_small) simp

lemma remain_wf [simp]: "rd_wf r \<Longrightarrow> remain r = Some (rd_len r)"
  by (simp add: remain_def rd_wf_def usub_def)

lemma avail_wf [simp]: "wr_wf w \<Longrightarrow> avail w = Some (wr_len w)"
  by (simp add: avail_def wr_wf_def usub_def)

lemma advance_update:
  "rd_wf r \<Longrightarrow> n \<le> rd_len r \<Longrightarrow> r\<lparr>rd_cursor := wrapping_add (rd_cursor r) n\<rparr> = rd_advance n r"
  "wr_wf w \<Longrightarrow> n \<le> wr_len w \<Longrightarrow> w\<lparr>wr_cursor := wrapping_add (wr_cursor w) n\<rparr> = wr_advance n w"
  by (auto simp: rd_wf_def wr_wf_def rd_advance_def wr_advance_def dest: wrapping_add_within)

lemma skip_wf:
  "rd_wf r \<Longrightarrow> reader_skip r n = (if n \<le> rd_len r then Some (rd_advance n r) else None)"
  "wr_wf w \<Longrightarrow> writer_skip w n = (if n \<le> wr_len w then Some (wr_advance n w) else None)"
  by (simp_all add: reader_skip_def writer_skip_def advance_update)

lemma rewind:
  "vp_sub (rd_cursor (rd_advance n r)) n = Some (rd_cursor r)"
  "vp_sub (wr_cursor (wr_advance n w)) n = Some (wr_cursor w)"
  "(rd_advance n r)\<lparr>rd_cursor := rd_cursor r\<rparr> = r"
  "(wr_advance n w)\<lparr>wr_cursor := wr_cursor w\<rparr> = w"
  by (simp_all add: vp_sub_def usub_def rd_advance_def wr_advance_def)

text \<open>Readers and writers over a block of memory.\<close>

lemma from_fields:
  assumes "fst s + snd s \<le> USIZE_MAX"
  shows "rd_wf (reader_from s)" "ptr_vaddr (rd_cursor (reader_from s)) = fst s" "ptr_vaddr (rd_end (reader_from s)) = fst s + snd s"
    "wr_wf (writer_from s)" "ptr_vaddr (wr_cursor (writer_from s)) = fst s" "ptr_vaddr (wr_end (writer_from s)) = fst s + snd s"
  using assms by (simp_all add: reader_from_def reader_from_kernel_space_def writer_from_def writer_from_kernel_space_def
      as_virt_ptr_def wrapping_add_small rd_wf_def wr_wf_def)

lemma load_length [simp]: "length (load m a n) = n"
  by (simp add: load_def)

lemma load_nth [simp]: "i < n \<Longrightarrow> load m a n ! i = m (a + i)"
  by (simp add: load_def)

lemma load_cong: "(\<And>i. i < n \<Longrightarrow> m (a + i) = m' (b + i)) \<Longrightarrow> load m a n = load m' b n"
  by (simp add: load_def)

lemma store_apply: "store m a bs x = (if a \<le> x \<and> x < a + length bs then bs ! (x - a) else m x)"
  by (induction bs arbitrary: m a) (auto simp: nth_Cons' Suc_diff_le)

lemma load_store [simp]: "load (store m a bs) a (length bs) = bs"
  by (rule nth_equalityI) (simp_all add: store_apply)

lemma copied_0 [simp]: "copied m src dst 0 = m"
  by (auto simp: copied_def fun_eq_iff)

lemma load_copied: "k \<le> n \<Longrightarrow> load (copied m src dst n) dst k = load m src k"
  by (intro load_cong) (simp add: copied_def)

lemma load_copied_apart: "apart a k dst n \<Longrightarrow> load (copied m src dst n) a k = load m a k"
  by (intro load_cong) (auto simp: copied_def apart_def)

lemma copied_store: "apart src n dst n \<Longrightarrow> copied m src dst n = store m dst (load m src n)"
  by (auto simp: copied_def store_apply fun_eq_iff)

text \<open>The copy runs from the last byte to the first; it is the block copy whenever the destination does not begin
  below a source it reaches into.\<close>

lemma copy_nonoverlapping_copied:
  assumes "ptr_vaddr src + n \<le> USIZE_MAX" "ptr_vaddr dst + n \<le> USIZE_MAX"
    and "ptr_vaddr src \<le> ptr_vaddr dst \<or> ptr_vaddr dst + n \<le> ptr_vaddr src"
  shows "copy_nonoverlapping src dst n m = Some (copied m (ptr_vaddr src) (ptr_vaddr dst) n)"
  using assms
proof (induction n arbitrary: m)
  case (Suc n)
  define m1 where "m1 = m(ptr_vaddr dst + n := m (ptr_vaddr src + n))"
  have "copy_offset src dst n m = Some m1"
    using Suc.prems by (simp add: copy_offset_def read_offset_def write_offset_def vp_add_def uadd_def vp_read_def
        vp_write_def m1_def)
  moreover have "copy_nonoverlapping src dst n m1 = Some (copied m1 (ptr_vaddr src) (ptr_vaddr dst) n)"
    using Suc.prems by (intro Suc.IH) auto
  moreover have "copied m1 (ptr_vaddr src) (ptr_vaddr dst) n = copied m (ptr_vaddr src) (ptr_vaddr dst) (Suc n)"
    using Suc.prems(3) by (auto simp: copied_def fun_eq_iff less_Suc_eq m1_def)
  ultimately show ?case by simp
qed simp

section \<open>Copies between a reader and a writer\<close>

definition io_apart :: "VmReader \<Rightarrow> VmWriter \<Rightarrow> bool" where
  "io_apart r w \<longleftrightarrow> apart (ptr_vaddr (rd_cursor r)) (min (rd_len r) (wr_len w)) (ptr_vaddr (wr_cursor w)) (min (rd_len r) (wr_len w))"

text \<open>The block copied by \<open>n\<close> bytes from the reader to the writer.\<close>

definition io_copied :: "VmReader \<Rightarrow> VmWriter \<Rightarrow> nat \<Rightarrow> mem \<Rightarrow> mem" where
  "io_copied r w n m = copied m (ptr_vaddr (rd_cursor r)) (ptr_vaddr (wr_cursor w)) n"

lemma io_copied_0 [simp]: "io_copied r w 0 m = m"
  by (simp add: io_copied_def)

lemma reader_read_eq:
  assumes "rd_wf r" "wr_wf w" "io_apart r w"
  defines "n \<equiv> min (rd_len r) (wr_len w)"
  shows "reader_read r w m = Some (n, rd_advance n r, wr_advance n w, io_copied r w n m)"
proof (cases "n = 0")
  case True
  then show ?thesis using assms(1,2) by (simp add: reader_read_def n_def)
next
  case False
  have "memcpy (wr_cursor w) (rd_cursor r) n m = Some (io_copied r w n m)"
    unfolding memcpy_def io_copied_def using assms
    by (intro copy_nonoverlapping_copied) (auto simp: rd_wf_def wr_wf_def io_apart_def apart_def)
  then show ?thesis using assms(1,2) False
    by (simp add: reader_read_def n_def advance_update Let_def)
qed

locale fallible_mem =
  fixes cp :: raw_memcpy and ms :: raw_memset
  assumes cp_len: "cp dst src n m = (failed, m') \<Longrightarrow> failed \<le> n"
    and cp_prefix: "cp dst src n m = (failed, m') \<Longrightarrow> apart src n dst n \<Longrightarrow> m' = copied m src dst (n - failed)"
    and ms_len: "ms dst v n m = (failed, m') \<Longrightarrow> failed \<le> n"
    and ms_prefix: "ms dst v n m = (failed, m') \<Longrightarrow> m' = store m dst (replicate (n - failed) v)"
begin

lemma read_fallible_eq:
  assumes "rd_wf r" "wr_wf w" "io_apart r w"
  defines "n \<equiv> min (rd_len r) (wr_len w)"
  shows "\<exists>k \<le> n. read_fallible cp r w m =
    Some (if k < n then Inl (PageFault, k) else Inr k, rd_advance k r, wr_advance k w, io_copied r w k m)"
proof (cases "n = 0")
  case True
  then show ?thesis using assms(1,2) by (simp add: read_fallible_def n_def)
next
  case False
  obtain f m1 where cp: "cp (ptr_vaddr (wr_cursor w)) (ptr_vaddr (rd_cursor r)) n m = (f, m1)" by fastforce
  have k: "f \<le> n" using cp_len [OF cp] .
  have m1: "m1 = io_copied r w (n - f) m"
    using cp_prefix [OF cp] assms(3) by (simp add: io_apart_def io_copied_def n_def)
  show ?thesis
    using assms(1,2) False cp k m1
    by (intro exI [of _ "n - f"]) (simp add: read_fallible_def memcpy_fallible_def usub_def Let_def flip: n_def,
      simp add: n_def advance_update)
qed

lemma read_fallible_ok:
  assumes "rd_wf r" "wr_wf w" "io_apart r w"
  shows "\<exists>res r' w' m'. read_fallible cp r w m = Some (res, r', w', m') \<and> rd_wf r' \<and> wr_wf w'"
proof -
  obtain k where "k \<le> min (rd_len r) (wr_len w)" and eq: "read_fallible cp r w m =
    Some (if k < min (rd_len r) (wr_len w) then Inl (PageFault, k) else Inr k, rd_advance k r, wr_advance k w, io_copied r w k m)"
    using read_fallible_eq [OF assms] by blast
  then show ?thesis using assms(1,2) by auto
qed

lemma fill_zeros_eq:
  fixes len :: usize
  assumes "wr_wf w"
  defines "n \<equiv> min (wr_len w) len"
  shows "\<exists>k \<le> n. fill_zeros ms w len m =
    Some (if k < n then Inl (PageFault, k) else Inr k, wr_advance k w, store m (ptr_vaddr (wr_cursor w)) (replicate k 0))"
proof (cases "n = 0")
  case True
  then show ?thesis using assms(1) by (simp add: fill_zeros_def n_def)
next
  case False
  obtain f m1 where ms: "ms (ptr_vaddr (wr_cursor w)) 0 n m = (f, m1)" by fastforce
  show ?thesis
    using assms(1) False ms ms_len [OF ms] ms_prefix [OF ms]
    by (intro exI [of _ "n - f"]) (simp add: fill_zeros_def memset_fallible_def usub_def Let_def flip: n_def,
      auto simp: n_def advance_update min_def split: if_splits)
qed

end

interpretation riscv_mem: fallible_mem riscv_memcpy_fallible riscv_memset_fallible
  by unfold_locales (auto simp: riscv_memcpy_fallible_def riscv_memset_fallible_def)

interpretation loongarch_mem: fallible_mem loongarch_memcpy_fallible loongarch_memset_fallible
  by unfold_locales (auto simp: loongarch_memcpy_fallible_def loongarch_memset_fallible_def)

text \<open>Copies that stop at the first byte whose address is not mapped, as the assembly on x86 does.\<close>

definition before_fault :: "(Vaddr \<Rightarrow> bool) \<Rightarrow> nat \<Rightarrow> Vaddr \<Rightarrow> Vaddr \<Rightarrow> nat" where
  "before_fault unmapped n a b = length (takeWhile (\<lambda>i. \<not> unmapped (a + i) \<and> \<not> unmapped (b + i)) [0..<n])"

definition faulting_memcpy :: "(Vaddr \<Rightarrow> bool) \<Rightarrow> raw_memcpy" where
  "faulting_memcpy unmapped dst src n m = (let k = before_fault unmapped n dst src in (n - k, copied m src dst k))"

definition faulting_memset :: "(Vaddr \<Rightarrow> bool) \<Rightarrow> raw_memset" where
  "faulting_memset unmapped dst v n m = (let k = before_fault unmapped n dst dst in (n - k, store m dst (replicate k v)))"

lemma before_fault_le: "before_fault unmapped n a b \<le> n"
  using length_takeWhile_le [of _ "[0..<n]"] by (simp add: before_fault_def)

interpretation faulting_mem: fallible_mem "faulting_memcpy unmapped" "faulting_memset unmapped" for unmapped
  using before_fault_le by unfold_locales (auto simp: faulting_memcpy_def faulting_memset_def Let_def)

section \<open>Values\<close>

text \<open>What is required of a block of memory that a value of type \<open>T\<close> is copied to or from.\<close>

definition local_ok :: "pod_ty \<Rightarrow> Vaddr \<Rightarrow> Vaddr \<Rightarrow> bool" where
  "local_ok T val a \<longleftrightarrow> val + size_of T \<le> USIZE_MAX \<and> apart a (size_of T) val (size_of T)"

lemma local_fields:
  assumes "val + size_of T \<le> USIZE_MAX"
  shows "rd_wf (reader_from (as_bytes T val))" "ptr_vaddr (rd_cursor (reader_from (as_bytes T val))) = val"
    "ptr_vaddr (rd_end (reader_from (as_bytes T val))) = val + size_of T"
    "wr_wf (writer_from (as_bytes T val))" "ptr_vaddr (wr_cursor (writer_from (as_bytes T val))) = val"
    "ptr_vaddr (wr_end (writer_from (as_bytes T val))) = val + size_of T"
  using from_fields [of "as_bytes T val"] assms by (simp_all add: as_bytes_def)

lemma io_apart_val:
  assumes "local_ok T val (ptr_vaddr (rd_cursor r))" "size_of T \<le> rd_len r"
  shows "io_apart r (writer_from (as_bytes T val))"
  using assms local_fields [of val T] by (simp add: io_apart_def local_ok_def)

lemma apart_commute: "apart a n b k \<longleftrightarrow> apart b k a n"
  by (auto simp: apart_def)

lemma io_apart_new_val:
  assumes "local_ok T val (ptr_vaddr (wr_cursor w))" "size_of T \<le> wr_len w"
  shows "io_apart (reader_from (as_bytes T val)) w"
  using assms local_fields [of val T] by (simp add: io_apart_def local_ok_def apart_commute)

lemma reader_read_val_eq:
  assumes "rd_wf r" "local_ok T val (ptr_vaddr (rd_cursor r))"
  shows "reader_read_val T r val m = Some (
    if rd_len r < size_of T then (Inl InvalidArgs, r, m)
    else (Inr (load m (ptr_vaddr (rd_cursor r)) (size_of T)), rd_advance (size_of T) r, copied m (ptr_vaddr (rd_cursor r)) val (size_of T)))"
proof (cases "rd_len r < size_of T")
  case False
  have v: "val + size_of T \<le> USIZE_MAX" using assms(2) by (simp add: local_ok_def)
  show ?thesis using False assms
    by (simp add: reader_read_val_def reader_read_eq local_fields [OF v] io_apart_val io_copied_def load_copied min_def)
qed (use assms in \<open>simp add: reader_read_val_def\<close>)

lemma writer_write_val_eq:
  assumes "wr_wf w" "local_ok T val (ptr_vaddr (wr_cursor w))"
  shows "writer_write_val T w val m = Some (
    if wr_len w < size_of T then (Inl InvalidArgs, w, m)
    else (Inr (), wr_advance (size_of T) w, copied m val (ptr_vaddr (wr_cursor w)) (size_of T)))"
proof (cases "wr_len w < size_of T")
  case False
  have v: "val + size_of T \<le> USIZE_MAX" using assms(2) by (simp add: local_ok_def)
  show ?thesis using False assms
    by (simp add: writer_write_val_def writer_write_def reader_read_eq local_fields [OF v] io_apart_new_val io_copied_def
        min_def)
qed (use assms in \<open>simp add: writer_write_val_def\<close>)

lemma fill_loop_eq:
  assumes "length value = len" "ptr_vaddr p + n * len \<le> USIZE_MAX"
  shows "fill_loop n len value p m = store m (ptr_vaddr p) (concat (replicate n value))"
  using assms
proof (induction n arbitrary: p m)
  case (Suc n)
  have store_append: "store m a (xs @ ys) = store (store m a xs) (a + length xs) ys" for m a xs ys
    by (rule ext) (auto simp: store_apply nth_append)
  have "wrapping_add p len = \<lparr>ptr_vaddr = ptr_vaddr p + len\<rparr>"
    using Suc.prems by (intro wrapping_add_small) simp
  then show ?case using Suc by (simp add: write_volatile_def store_append algebra_simps)
qed simp

lemma fill_eq:
  assumes "wr_wf w" "is_aligned T (wr_cursor w)" "size_of T > 0" "size_of T dvd wr_len w" "length value = size_of T"
  shows "fill T w value m = Some (wr_len w div size_of T, wr_advance (wr_len w) w,
    store m (ptr_vaddr (wr_cursor w)) (concat (replicate (wr_len w div size_of T) value)))"
proof -
  have "ptr_vaddr (wr_cursor w) + wr_len w div size_of T * size_of T \<le> USIZE_MAX"
    using assms by (simp add: wr_wf_def)
  moreover have "w\<lparr>wr_cursor := wr_end w\<rparr> = wr_advance (wr_len w) w"
    using assms(1) by (simp add: wr_advance_def wr_wf_def)
  ultimately show ?thesis using assms
    by (simp add: fill_def fill_loop_eq Let_def)
qed

text \<open>A value written by one access is the value that the next access reads.\<close>

lemma once_roundtrip:
  assumes "wr_wf w" "rd_wf r" "ptr_vaddr (rd_cursor r) = ptr_vaddr (wr_cursor w)" "size_of T \<le> wr_len w" "size_of T \<le> rd_len r"
    "is_aligned T (wr_cursor w)" "length v = size_of T"
  shows "\<exists>w' m'. write_once T w v m = Some (Inr (), w', m') \<and> read_once T r m' = Some (Inr v, rd_advance (size_of T) r)"
proof -
  have "load (store m (ptr_vaddr (wr_cursor w)) v) (ptr_vaddr (wr_cursor w)) (size_of T) = v"
    using load_store [of m "ptr_vaddr (wr_cursor w)" v] assms(7) by simp
  then show ?thesis using assms
    by (simp add: write_once_def read_once_def read_volatile_def write_volatile_def is_aligned_def advance_update)
qed

context fallible_mem
begin

lemma read_val_fallible_cases:
  assumes "rd_wf r" "local_ok T val (ptr_vaddr (rd_cursor r))"
  obtains (Short) "rd_len r < size_of T" "reader_read_val_fallible cp T r val m = Some (Inl InvalidArgs, r, m)"
  | (Ok) "size_of T \<le> rd_len r"
    "reader_read_val_fallible cp T r val m = Some (Inr (load m (ptr_vaddr (rd_cursor r)) (size_of T)),
       rd_advance (size_of T) r, copied m (ptr_vaddr (rd_cursor r)) val (size_of T))"
  | (Fault) k where "k < size_of T" "size_of T \<le> rd_len r"
    "reader_read_val_fallible cp T r val m = Some (Inl PageFault, r, copied m (ptr_vaddr (rd_cursor r)) val k)"
proof (cases "rd_len r < size_of T")
  case True
  then show ?thesis using assms by (intro Short) (simp_all add: reader_read_val_fallible_def)
next
  case False
  have v: "val + size_of T \<le> USIZE_MAX" using assms(2) by (simp add: local_ok_def)
  note f = local_fields [OF v]
  have n: "min (rd_len r) (wr_len (writer_from (as_bytes T val))) = size_of T" using False f by simp
  obtain k where k: "k \<le> size_of T" "read_fallible cp r (writer_from (as_bytes T val)) m =
      Some (if k < size_of T then Inl (PageFault, k) else Inr k, rd_advance k r,
            wr_advance k (writer_from (as_bytes T val)), copied m (ptr_vaddr (rd_cursor r)) val k)"
    using read_fallible_eq [OF assms(1) f(4) io_apart_val [OF assms(2)]] False f unfolding n io_copied_def by auto
  show ?thesis
  proof (cases "k < size_of T")
    case True
    then show ?thesis using False assms k by (intro Fault) (simp_all add: reader_read_val_fallible_def rewind)
  next
    case k': False
    then show ?thesis using False assms k by (intro Ok) (simp_all add: reader_read_val_fallible_def load_copied)
  qed
qed

lemma write_val_fallible_cases:
  assumes "wr_wf w" "local_ok T val (ptr_vaddr (wr_cursor w))"
  obtains (Short) "wr_len w < size_of T" "writer_write_val_fallible cp T w val m = Some (Inl InvalidArgs, w, m)"
  | (Ok) "size_of T \<le> wr_len w"
    "writer_write_val_fallible cp T w val m = Some (Inr (), wr_advance (size_of T) w,
       copied m val (ptr_vaddr (wr_cursor w)) (size_of T))"
  | (Fault) k where "k < size_of T" "size_of T \<le> wr_len w"
    "writer_write_val_fallible cp T w val m = Some (Inl PageFault, w, copied m val (ptr_vaddr (wr_cursor w)) k)"
proof (cases "wr_len w < size_of T")
  case True
  then show ?thesis using assms by (intro Short) (simp_all add: writer_write_val_fallible_def)
next
  case False
  have v: "val + size_of T \<le> USIZE_MAX" using assms(2) by (simp add: local_ok_def)
  note f = local_fields [OF v]
  have n: "min (rd_len (reader_from (as_bytes T val))) (wr_len w) = size_of T" using False f by simp
  obtain k where k: "k \<le> size_of T" "read_fallible cp (reader_from (as_bytes T val)) w m =
      Some (if k < size_of T then Inl (PageFault, k) else Inr k, rd_advance k (reader_from (as_bytes T val)),
            wr_advance k w, copied m val (ptr_vaddr (wr_cursor w)) k)"
    using read_fallible_eq [OF f(1) assms(1) io_apart_new_val [OF assms(2)]] False f unfolding n io_copied_def by auto
  show ?thesis
  proof (cases "k < size_of T")
    case True
    then show ?thesis using False assms k
      by (intro Fault) (simp_all add: writer_write_val_fallible_def write_fallible_def rewind)
  next
    case k': False
    then show ?thesis using False assms k
      by (intro Ok) (simp_all add: writer_write_val_fallible_def write_fallible_def)
  qed
qed

lemma collect_cases:
  assumes "rd_wf r" "apart (ptr_vaddr (rd_cursor r)) (rd_len r) buf (rd_len r)" "buf + rd_len r \<le> USIZE_MAX"
  obtains (Ok) m' where "collect cp r buf m = Some (Inr (load m (ptr_vaddr (rd_cursor r)) (rd_len r)), rd_advance (rd_len r) r, m')"
  | (Fault) m' where "collect cp r buf m = Some (Inl PageFault, r, m')"
proof -
  define w where "w = writer_from (buf, rd_len r)"
  define m0 where "m0 = store m buf (replicate (rd_len r) 0)"
  have f: "wr_wf w" "ptr_vaddr (wr_cursor w) = buf" "wr_len w = rd_len r"
    using from_fields [of "(buf, rd_len r)"] assms(3) by (simp_all add: w_def)
  have ap: "io_apart r w" using assms(2) f by (simp add: io_apart_def)
  have src: "load m0 (ptr_vaddr (rd_cursor r)) (rd_len r) = load m (ptr_vaddr (rd_cursor r)) (rd_len r)"
    using assms(2) by (intro load_cong) (auto simp: m0_def store_apply apart_def)
  obtain k where k: "k \<le> rd_len r" "read_fallible cp r w m0 =
      Some (if k < rd_len r then Inl (PageFault, k) else Inr k, rd_advance k r, wr_advance k w,
            copied m0 (ptr_vaddr (rd_cursor r)) buf k)"
    using read_fallible_eq [OF assms(1) f(1) ap, of m0] f by (auto simp: io_copied_def)
  have w: "writer_from_kernel_space (as_virt_ptr (buf, rd_len r)) (rd_len r) = w"
    by (simp add: w_def writer_from_def)
  show ?thesis
  proof (cases "k < rd_len r")
    case True
    then show ?thesis using assms(1) k w by (intro Fault) (simp add: collect_def rewind flip: m0_def)
  next
    case False
    then show ?thesis using assms(1) k w src by (intro Ok) (simp add: collect_def load_copied flip: m0_def)
  qed
qed

end

lemma kernel_space_fields:
  assumes "v + len \<le> USIZE_MAX"
  shows "rd_wf (reader_from_kernel_space \<lparr>ptr_vaddr = v\<rparr> len)"
    "ptr_vaddr (rd_cursor (reader_from_kernel_space \<lparr>ptr_vaddr = v\<rparr> len)) = v"
    "ptr_vaddr (rd_end (reader_from_kernel_space \<lparr>ptr_vaddr = v\<rparr> len)) = v + len"
    "wr_wf (writer_from_kernel_space \<lparr>ptr_vaddr = v\<rparr> len)"
    "ptr_vaddr (wr_cursor (writer_from_kernel_space \<lparr>ptr_vaddr = v\<rparr> len)) = v"
    "ptr_vaddr (wr_end (writer_from_kernel_space \<lparr>ptr_vaddr = v\<rparr> len)) = v + len"
  using from_fields [of "(v, len)"] assms by (simp_all add: reader_from_def writer_from_def as_virt_ptr_def)

section \<open>Memory objects\<close>

text \<open>The contract of \<open>VmIo\<close> for an object whose bytes stand at \<open>base\<close>: a successful access transfers all of the
  requested bytes, at the requested offset, and lies within the object; a failed one touches at most a prefix of the
  same bytes.  The second locale adds that a failed access leaves the cursor where it was.\<close>

definition outside :: "Vaddr \<Rightarrow> usize \<Rightarrow> pod_ty \<Rightarrow> Vaddr \<Rightarrow> bool" where
  "outside base len T val \<longleftrightarrow> val + size_of T \<le> USIZE_MAX \<and> apart base len val (size_of T)"

locale vm_io_object =
  fixes rd :: io_read and wr :: io_write and base :: Vaddr and len :: usize
  assumes base_bound: "base + len \<le> USIZE_MAX"
    and rd_law: "wr_wf w \<Longrightarrow> apart base len (ptr_vaddr (wr_cursor w)) (wr_len w) \<Longrightarrow>
      \<exists>res w' m'. rd offset w m = Some (res, w', m') \<and> (case res of
        Inr _ \<Rightarrow> offset + wr_len w \<le> len \<and> w' = wr_advance (wr_len w) w \<and>
                 m' = copied m (base + offset) (ptr_vaddr (wr_cursor w)) (wr_len w)
      | Inl e \<Rightarrow> \<exists>k \<le> wr_len w. m' = copied m (base + offset) (ptr_vaddr (wr_cursor w)) k)"
    and wr_law: "rd_wf r \<Longrightarrow> apart base len (ptr_vaddr (rd_cursor r)) (rd_len r) \<Longrightarrow>
      \<exists>res r' m'. wr offset r m = Some (res, r', m') \<and> (case res of
        Inr _ \<Rightarrow> offset + rd_len r \<le> len \<and> r' = rd_advance (rd_len r) r \<and>
                 m' = copied m (ptr_vaddr (rd_cursor r)) (base + offset) (rd_len r)
      | Inl e \<Rightarrow> \<exists>k \<le> rd_len r. (k > 0 \<longrightarrow> offset + k \<le> len) \<and> m' = copied m (ptr_vaddr (rd_cursor r)) (base + offset) k)"
begin

lemma write_val_cases:
  assumes "outside base len T val"
  obtains (Ok) "offset + size_of T \<le> len"
    "io_write_val wr T offset val m = Some (Inr (), copied m val (base + offset) (size_of T))"
  | (Err) e k where "k \<le> size_of T" "k > 0 \<longrightarrow> offset + k \<le> len"
    "io_write_val wr T offset val m = Some (Inl e, copied m val (base + offset) k)"
proof -
  define r where "r = reader_from (as_bytes T val)"
  have f: "rd_wf r" "ptr_vaddr (rd_cursor r) = val" "rd_len r = size_of T"
    using assms local_fields [of val T] by (simp_all add: outside_def r_def)
  obtain res r' m' where w: "wr offset r m = Some (res, r', m')" and law: "case res of
        Inr _ \<Rightarrow> offset + rd_len r \<le> len \<and> r' = rd_advance (rd_len r) r \<and> m' = copied m (ptr_vaddr (rd_cursor r)) (base + offset) (rd_len r)
      | Inl e \<Rightarrow> \<exists>k \<le> rd_len r. (k > 0 \<longrightarrow> offset + k \<le> len) \<and> m' = copied m (ptr_vaddr (rd_cursor r)) (base + offset) k"
    using wr_law [OF f(1), of offset m] assms f by (auto simp: outside_def)
  have eq: "io_write_val wr T offset val m = Some (res, m')"
    using w by (simp add: io_write_val_def io_write_bytes_def r_def)
  show ?thesis
  proof (cases res)
    case (Inl e)
    then obtain k where "k \<le> size_of T" "k > 0 \<longrightarrow> offset + k \<le> len" "m' = copied m val (base + offset) k"
      using law f by auto
    then show ?thesis using Err eq Inl by blast
  next
    case (Inr u)
    then show ?thesis using law f eq by (intro Ok) simp_all
  qed
qed

lemma read_val_ok:
  assumes "outside base len T val" "io_read_val rd T offset val m = Some (Inr v, m')"
  shows "v = load m (base + offset) (size_of T) \<and> offset + size_of T \<le> len"
proof -
  define w where "w = writer_from (as_bytes T val)"
  have f: "wr_wf w" "ptr_vaddr (wr_cursor w) = val" "wr_len w = size_of T"
    using assms(1) local_fields [of val T] by (simp_all add: outside_def w_def)
  obtain res w' m1 where r: "rd offset w m = Some (res, w', m1)" and law: "case res of
        Inr _ \<Rightarrow> offset + wr_len w \<le> len \<and> w' = wr_advance (wr_len w) w \<and> m1 = copied m (base + offset) (ptr_vaddr (wr_cursor w)) (wr_len w)
      | Inl e \<Rightarrow> \<exists>k \<le> wr_len w. m1 = copied m (base + offset) (ptr_vaddr (wr_cursor w)) k"
    using rd_law [OF f(1), of offset m] assms f by (auto simp: outside_def)
  have "res = Inr ()" "m' = m1" "v = load m1 val (size_of T)"
    using assms(2) r by (cases res; simp add: io_read_val_def io_read_bytes_def w_def)+
  then show ?thesis using law f by (simp add: load_copied)
qed

text \<open>A value that was written is read back.\<close>

lemma val_roundtrip:
  assumes "outside base len T val" "outside base len T dst"
    and "io_write_val wr T offset val m = Some (Inr (), m1)" "io_read_val rd T offset dst m1 = Some (Inr v, m2)"
  shows "v = load m val (size_of T)"
proof -
  have "m1 = copied m val (base + offset) (size_of T)"
    by (rule write_val_cases [OF assms(1), of offset m]) (use assms(3) in simp_all)
  then show ?thesis using read_val_ok [OF assms(2,4)] by (simp add: load_copied)
qed

text \<open>\<open>write_vals\<close>: the items that were counted are stored one after the other, with the given stride.\<close>

lemma write_vals_loop_spec:
  assumes "\<forall>x \<in> set items. outside base len T x" "size_of T \<le> item_size" "item_size \<le> USIZE_MAX"
    "nr \<le> USIZE_MAX" "offset \<le> USIZE_MAX"
  shows "\<exists>res m'. write_vals_loop wr T item_size items offset nr m = Some (res, m') \<and>
    (case res of
       Inl e \<Rightarrow> nr = 0
     | Inr n \<Rightarrow> nr \<le> n \<and> n - nr \<le> length items \<and>
         (\<forall>j < n - nr. load m' (base + offset + j * item_size) (size_of T) = load m (items ! j) (size_of T))) \<and>
    (\<forall>a. a < base + offset \<or> base + len \<le> a \<longrightarrow> m' a = m a)"
  using assms
proof (induction items arbitrary: offset nr m)
  case (Cons x xs)
  have x: "outside base len T x" using Cons.prems(1) by simp
  show ?case
  proof (cases "nr = USIZE_MAX \<or> item_size > 0 \<and> offset > USIZE_MAX - item_size")
    case True
    then show ?thesis by auto
  next
    case go: False
    show ?thesis
    proof (rule write_val_cases [OF x, of offset m])
      assume fits: "offset + size_of T \<le> len"
        and w: "io_write_val wr T offset x m = Some (Inr (), copied m x (base + offset) (size_of T))"
      define m1 where "m1 = copied m x (base + offset) (size_of T)"
      have up: "uadd offset item_size = Some (offset + item_size)" "uadd nr 1 = Some (nr + 1)"
        "offset + item_size \<le> USIZE_MAX" "nr + 1 \<le> USIZE_MAX"
        using go Cons.prems(3-5) by (auto simp: uadd_def)
      obtain res m' where eq: "write_vals_loop wr T item_size xs (offset + item_size) (nr + 1) m1 = Some (res, m')"
        and res: "case res of Inl e \<Rightarrow> nr + 1 = 0
          | Inr n \<Rightarrow> nr + 1 \<le> n \<and> n - (nr + 1) \<le> length xs \<and>
            (\<forall>j < n - (nr + 1). load m' (base + (offset + item_size) + j * item_size) (size_of T) = load m1 (xs ! j) (size_of T))"
        and keep: "\<forall>a. a < base + (offset + item_size) \<or> base + len \<le> a \<longrightarrow> m' a = m1 a"
        using Cons.IH [of "nr + 1" "offset + item_size" m1] Cons.prems up by auto
      obtain n where n: "res = Inr n" using res by (cases res) auto
      have step: "write_vals_loop wr T item_size (x # xs) offset nr m = Some (Inr n, m')"
        using go w eq up n by (auto simp: m1_def)
      have outer: "m' a = m a" if "a < base + offset \<or> base + len \<le> a" for a
        using that keep fits by (auto simp: m1_def copied_def)
      have stored: "load m' (base + offset + j * item_size) (size_of T) = load m ((x # xs) ! j) (size_of T)"
        if j: "j < n - nr" for j
      proof (cases j)
        case 0
        have "load m' (base + offset) (size_of T) = load m1 (base + offset) (size_of T)"
          using keep Cons.prems(2) by (intro load_cong) auto
        then show ?thesis using 0 by (simp add: m1_def load_copied)
      next
        case (Suc i)
        have i: "i < length xs" "i < n - (nr + 1)" using res n j Suc by auto
        then have "outside base len T (xs ! i)" using Cons.prems(1) by simp
        then have "load m1 (xs ! i) (size_of T) = load m (xs ! i) (size_of T)"
          unfolding m1_def using fits by (intro load_copied_apart) (auto simp: outside_def apart_def)
        then show ?thesis using res n i Suc by (simp add: algebra_simps)
      qed
      show ?thesis using step outer stored res n by (intro exI [of _ "Inr n"] exI [of _ m']) auto
    next
      fix e k
      assume k: "k > 0 \<longrightarrow> offset + k \<le> len"
        and w: "io_write_val wr T offset x m = Some (Inl e, copied m x (base + offset) k)"
      have "copied m x (base + offset) k a = m a" if "a < base + offset \<or> base + len \<le> a" for a
        using that k by (cases "k = 0") (auto simp: copied_def)
      then show ?thesis using go w by auto
    qed
  qed
qed auto

end

locale vm_io_restoring = vm_io_object +
  assumes rd_restores: "wr_wf w \<Longrightarrow> apart base len (ptr_vaddr (wr_cursor w)) (wr_len w) \<Longrightarrow>
      rd offset w m = Some (Inl e, w', m') \<Longrightarrow> w' = w"
    and wr_restores: "rd_wf r \<Longrightarrow> apart base len (ptr_vaddr (rd_cursor r)) (rd_len r) \<Longrightarrow>
      wr offset r m = Some (Inl e, r', m') \<Longrightarrow> r' = r"

section \<open>Properties\<close>

text \<open>Concrete memory for the examples: byte \<open>a\<close> holds \<open>a mod 256\<close>, and addresses from \<open>100\<close> on are not mapped.\<close>

definition byte_mem :: mem where
  "byte_mem a = of_nat a"

abbreviation ex_memcpy :: raw_memcpy where
  "ex_memcpy \<equiv> faulting_memcpy (\<lambda>a. a \<ge> 100)"

abbreviation ex_memset :: raw_memset where
  "ex_memset \<equiv> faulting_memset (\<lambda>a. a \<ge> 100)"

definition ex_rd :: VmReader where
  "ex_rd = reader_from (10, 8)"

definition ex_wr :: VmWriter where
  "ex_wr = writer_from (96, 8)"

lemma ex_wf: "rd_wf ex_rd" "wr_wf ex_wr" "io_apart ex_rd ex_wr" "rd_len ex_rd = 8" "wr_len ex_wr = 8"
  "ptr_vaddr (rd_cursor ex_rd) = 10" "ptr_vaddr (wr_cursor ex_wr) = 96"
  using from_fields [of "(10, 8)"] from_fields [of "(96, 8)"]
  by (simp_all add: ex_rd_def ex_wr_def USIZE_MAX_def io_apart_def apart_def)

text \<open>A copy from a reader to a writer is exact.  \<open>read\<close> moves as many bytes as both sides have, changes no other byte,
  and advances both cursors by that number.  \<open>read_fallible\<close> always returns, and does the same for a prefix of those bytes: it
  reports success only if that prefix is all of them, and otherwise a page fault with the length of the prefix.\<close>

lemma vm_copy_exact:
  assumes "fallible_mem cp ms" "rd_wf r" "wr_wf w" "io_apart r w"
  defines "n \<equiv> min (rd_len r) (wr_len w)"
  shows "reader_read r w m = Some (n, rd_advance n r, wr_advance n w, io_copied r w n m) \<and>
    (\<exists>k \<le> n. read_fallible cp r w m =
       Some (if k < n then Inl (PageFault, k) else Inr k, rd_advance k r, wr_advance k w, io_copied r w k m))"
  using reader_read_eq [OF assms(2-4), of m] fallible_mem.read_fallible_eq [OF assms(1-4), of m] by (simp add: n_def)

text \<open>Fallible accesses to values are all or nothing for the cursor.  \<open>read_val\<close>, \<open>write_val\<close> and \<open>collect\<close> on memory that may
  fault return either the whole value, with the cursor moved behind it, or an error with the cursor where it was.\<close>

lemma fallible_values_all_or_nothing:
  assumes "fallible_mem cp ms" "rd_wf r" "wr_wf w" "local_ok T val (ptr_vaddr (rd_cursor r))" "local_ok T val (ptr_vaddr (wr_cursor w))"
    "apart (ptr_vaddr (rd_cursor r)) (rd_len r) buf (rd_len r)" "buf + rd_len r \<le> USIZE_MAX"
  shows "(\<exists>res r' m'. reader_read_val_fallible cp T r val m = Some (res, r', m') \<and>
      (case res of Inr v \<Rightarrow> v = load m (ptr_vaddr (rd_cursor r)) (size_of T) \<and> r' = rd_advance (size_of T) r | Inl e \<Rightarrow> r' = r)) \<and>
    (\<exists>res w' m'. writer_write_val_fallible cp T w val m = Some (res, w', m') \<and>
      (case res of Inr _ \<Rightarrow> m' = copied m val (ptr_vaddr (wr_cursor w)) (size_of T) \<and> w' = wr_advance (size_of T) w | Inl e \<Rightarrow> w' = w)) \<and>
    (\<exists>res r' m'. collect cp r buf m = Some (res, r', m') \<and>
      (case res of Inr v \<Rightarrow> v = load m (ptr_vaddr (rd_cursor r)) (rd_len r) \<and> r' = rd_advance (rd_len r) r | Inl e \<Rightarrow> r' = r))"
proof -
  have *: "\<exists>res r' m'. reader_read_val_fallible cp T r val m = Some (res, r', m') \<and>
      (case res of Inr v \<Rightarrow> v = load m (ptr_vaddr (rd_cursor r)) (size_of T) \<and> r' = rd_advance (size_of T) r | Inl e \<Rightarrow> r' = r)"
    by (rule fallible_mem.read_val_fallible_cases [OF assms(1,2,4), of m]) auto
  have **: "\<exists>res w' m'. writer_write_val_fallible cp T w val m = Some (res, w', m') \<and>
      (case res of Inr _ \<Rightarrow> m' = copied m val (ptr_vaddr (wr_cursor w)) (size_of T) \<and> w' = wr_advance (size_of T) w | Inl e \<Rightarrow> w' = w)"
    by (rule fallible_mem.write_val_fallible_cases [OF assms(1,3,5), of m]) auto
  moreover have "\<exists>res r' m'. collect cp r buf m = Some (res, r', m') \<and>
      (case res of Inr v \<Rightarrow> v = load m (ptr_vaddr (rd_cursor r)) (rd_len r) \<and> r' = rd_advance (rd_len r) r | Inl e \<Rightarrow> r' = r)"
    by (rule fallible_mem.collect_cases [OF assms(1,2,6,7), of m]) auto
  ultimately show ?thesis using * ** by blast
qed

definition u32_ty :: pod_ty where
  "u32_ty = \<lparr>size_of = 4, align_of = 4\<rparr>"

lemma ex_local: "local_ok u32_ty 40 10" "local_ok u32_ty 40 96" "apart 10 8 60 8" "60 + 8 \<le> USIZE_MAX"
  by (simp_all add: local_ok_def u32_ty_def USIZE_MAX_def apart_def)

text \<open>A value written to memory is the value read from it: \<open>write_val\<close> through a writer, then \<open>read_val\<close> through a reader at the
  same address, both succeed when there is room and return the bytes of the original.\<close>

lemma vm_val_roundtrip:
  assumes "wr_wf w" "rd_wf r" "ptr_vaddr (rd_cursor r) = ptr_vaddr (wr_cursor w)" "size_of T \<le> wr_len w" "size_of T \<le> rd_len r"
    "local_ok T val (ptr_vaddr (wr_cursor w))" "local_ok T dst (ptr_vaddr (wr_cursor w))"
  shows "\<exists>m1 m2. writer_write_val T w val m = Some (Inr (), wr_advance (size_of T) w, m1) \<and>
    reader_read_val T r dst m1 = Some (Inr (load m val (size_of T)), rd_advance (size_of T) r, m2)"
  using assms by (simp add: writer_write_val_eq reader_read_val_eq load_copied)

text \<open>What is asked of the memory that the values and vectors of the caller live in.\<close>

definition io_locals :: "pod_ty \<Rightarrow> VmReader \<Rightarrow> VmWriter \<Rightarrow> Vaddr \<Rightarrow> Vaddr \<Rightarrow> bool" where
  "io_locals T r w val buf \<longleftrightarrow> local_ok T val (ptr_vaddr (rd_cursor r)) \<and> local_ok T val (ptr_vaddr (wr_cursor w)) \<and>
     apart (ptr_vaddr (rd_cursor r)) (rd_len r) buf (rd_len r) \<and> buf + rd_len r \<le> USIZE_MAX"

lemma values_typed:
  assumes "fallible_mem cp ms" "rd_wf r" "wr_wf w" "io_locals T r w val buf"
  shows "pred_option (\<lambda>(res, r', m'). rd_wf r' \<and> (\<forall>e. res = Inl e \<longrightarrow> r' = r)) (reader_read_val T r val m)"
    "pred_option (\<lambda>(res, w', m'). wr_wf w' \<and> (\<forall>e. res = Inl e \<longrightarrow> w' = w)) (writer_write_val T w val m)"
    "pred_option (\<lambda>(res, r', m'). rd_wf r' \<and> (\<forall>e. res = Inl e \<longrightarrow> r' = r)) (reader_read_val_fallible cp T r val m)"
    "pred_option (\<lambda>(res, w', m'). wr_wf w' \<and> (\<forall>e. res = Inl e \<longrightarrow> w' = w)) (writer_write_val_fallible cp T w val m)"
    "pred_option (\<lambda>(res, r', m'). rd_wf r' \<and> (\<forall>e. res = Inl e \<longrightarrow> r' = r)) (collect cp r buf m)"
proof -
  have l: "local_ok T val (ptr_vaddr (rd_cursor r))" "local_ok T val (ptr_vaddr (wr_cursor w))"
    "apart (ptr_vaddr (rd_cursor r)) (rd_len r) buf (rd_len r)" "buf + rd_len r \<le> USIZE_MAX"
    using assms(4) by (simp_all add: io_locals_def)
  show "pred_option (\<lambda>(res, r', m'). rd_wf r' \<and> (\<forall>e. res = Inl e \<longrightarrow> r' = r)) (reader_read_val T r val m)"
    "pred_option (\<lambda>(res, w', m'). wr_wf w' \<and> (\<forall>e. res = Inl e \<longrightarrow> w' = w)) (writer_write_val T w val m)"
    using assms(2,3) l(1,2) advance_wf by (auto simp: reader_read_val_eq writer_write_val_eq not_less)
  show "pred_option (\<lambda>(res, r', m'). rd_wf r' \<and> (\<forall>e. res = Inl e \<longrightarrow> r' = r)) (reader_read_val_fallible cp T r val m)"
    by (rule fallible_mem.read_val_fallible_cases [OF assms(1,2) l(1), of m]) (use assms(2) advance_wf in auto)
  show "pred_option (\<lambda>(res, w', m'). wr_wf w' \<and> (\<forall>e. res = Inl e \<longrightarrow> w' = w)) (writer_write_val_fallible cp T w val m)"
    by (rule fallible_mem.write_val_fallible_cases [OF assms(1,3) l(2), of m]) (use assms(3) advance_wf in auto)
  show "pred_option (\<lambda>(res, r', m'). rd_wf r' \<and> (\<forall>e. res = Inl e \<longrightarrow> r' = r)) (collect cp r buf m)"
    by (rule fallible_mem.collect_cases [OF assms(1,2) l(3,4), of m]) (use assms(2) advance_wf in auto)
qed

lemma constructed_typed:
  assumes "ptr_vaddr p + len \<le> USIZE_MAX"
  shows "rd_wf (reader_from_kernel_space p len)" "rd_wf (reader_from_user_space p len)" "rd_wf (reader_from (ptr_vaddr p, len))"
    "wr_wf (writer_from_kernel_space p len)" "wr_wf (writer_from_user_space p len)" "wr_wf (writer_from (ptr_vaddr p, len))"
  using assms from_fields [of "(ptr_vaddr p, len)"] by (simp_all add: reader_from_kernel_space_def reader_from_user_space_def writer_from_kernel_space_def
      writer_from_user_space_def rd_wf_def wr_wf_def wrapping_add_small)

text \<open>C14: Cursors stay within their ends.  The constructors \<open>from_kernel_space\<close>, \<open>from_user_space\<close> and \<open>from\<close>, for a
  range that does not wrap around, make readers and writers whose
  cursor is at or below their end.  Each of the following operations on them, when it returns, gives back such readers and writers: \<open>limit\<close>, \<open>skip\<close>,
  \<open>read\<close>, \<open>write\<close>, \<open>read_val\<close>, \<open>write_val\<close>, \<open>read_once\<close>, \<open>write_once\<close>, \<open>fill\<close>, and of the fallible ones \<open>read_fallible\<close>,
  \<open>write_fallible\<close>, \<open>read_val\<close>, \<open>write_val\<close>, \<open>collect\<close> and \<open>fill_zeros\<close>, whatever prefix the memory routines manage before a fault.  A
  failed \<open>read_val\<close>, \<open>write_val\<close> or \<open>collect\<close> has the cursor where it was.  So the subtraction in \<open>remain\<close> and \<open>avail\<close> never
  underflows.  The copied ranges, and the value or vector of the caller, do not overlap.\<close>

theorem vm_io_cursors_typed:
  assumes "fallible_mem cp ms" "rd_wf r" "wr_wf w" "io_apart r w" "io_locals T r w val buf" "ptr_vaddr p + len \<le> USIZE_MAX"
  shows "rd_wf (reader_from_kernel_space p len) \<and> rd_wf (reader_from_user_space p len) \<and> rd_wf (reader_from (ptr_vaddr p, len)) \<and>
    wr_wf (writer_from_kernel_space p len) \<and> wr_wf (writer_from_user_space p len) \<and> wr_wf (writer_from (ptr_vaddr p, len)) \<and>
    remain r \<noteq> None \<and> avail w \<noteq> None \<and>
    pred_option rd_wf (reader_limit r n) \<and> pred_option wr_wf (writer_limit w n) \<and>
    pred_option rd_wf (reader_skip r n) \<and> pred_option wr_wf (writer_skip w n) \<and>
    pred_option (\<lambda>(k, r', w', m'). rd_wf r' \<and> wr_wf w') (reader_read r w m) \<and>
    pred_option (\<lambda>(k, w', r', m'). rd_wf r' \<and> wr_wf w') (writer_write w r m) \<and>
    pred_option (\<lambda>(res, r', w', m'). rd_wf r' \<and> wr_wf w') (read_fallible cp r w m) \<and>
    pred_option (\<lambda>(res, w', r', m'). rd_wf r' \<and> wr_wf w') (write_fallible cp w r m) \<and>
    pred_option (\<lambda>(res, r', m'). rd_wf r' \<and> (\<forall>e. res = Inl e \<longrightarrow> r' = r)) (reader_read_val T r val m) \<and>
    pred_option (\<lambda>(res, w', m'). wr_wf w' \<and> (\<forall>e. res = Inl e \<longrightarrow> w' = w)) (writer_write_val T w val m) \<and>
    pred_option (\<lambda>(res, r', m'). rd_wf r' \<and> (\<forall>e. res = Inl e \<longrightarrow> r' = r)) (reader_read_val_fallible cp T r val m) \<and>
    pred_option (\<lambda>(res, w', m'). wr_wf w' \<and> (\<forall>e. res = Inl e \<longrightarrow> w' = w)) (writer_write_val_fallible cp T w val m) \<and>
    pred_option (\<lambda>(res, r', m'). rd_wf r' \<and> (\<forall>e. res = Inl e \<longrightarrow> r' = r)) (collect cp r buf m) \<and>
    pred_option (\<lambda>(res, r'). rd_wf r') (read_once T r m) \<and>
    pred_option (\<lambda>(res, w', m'). wr_wf w') (write_once T w v m) \<and>
    pred_option (\<lambda>(k, w', m'). wr_wf w') (fill T w v m) \<and>
    pred_option (\<lambda>(res, w', m'). wr_wf w') (fill_zeros ms w n m)"
proof -
  have lim: "pred_option rd_wf (reader_limit r n)" "pred_option wr_wf (writer_limit w n)"
    using assms(2,3) by (auto simp: reader_limit_def writer_limit_def rd_wf_def wr_wf_def wrapping_add_small)
  have skip: "pred_option rd_wf (reader_skip r n)" "pred_option wr_wf (writer_skip w n)"
    using assms(2,3) by (auto simp: skip_wf)
  have read: "pred_option (\<lambda>(k, r', w', m'). rd_wf r' \<and> wr_wf w') (reader_read r w m)"
    "pred_option (\<lambda>(k, w', r', m'). rd_wf r' \<and> wr_wf w') (writer_write w r m)"
    using assms(2,3) by (auto simp: writer_write_def reader_read_eq [OF assms(2-4)])
  have fread: "pred_option (\<lambda>(res, r', w', m'). rd_wf r' \<and> wr_wf w') (read_fallible cp r w m)"
    "pred_option (\<lambda>(res, w', r', m'). rd_wf r' \<and> wr_wf w') (write_fallible cp w r m)"
    using fallible_mem.read_fallible_ok [OF assms(1-4), of m] by (auto simp: write_fallible_def)
  have once: "pred_option (\<lambda>(res, r'). rd_wf r') (read_once T r m)"
    "pred_option (\<lambda>(res, w', m'). wr_wf w') (write_once T w v m)"
    using assms(2,3) advance_wf by (auto simp: read_once_def write_once_def rassert_def advance_update not_less)
  have fill: "pred_option (\<lambda>(k, w', m'). wr_wf w') (fill T w v m)"
    using assms(3) by (auto simp: fill_def rassert_def wr_wf_def Let_def)
  have zeros: "pred_option (\<lambda>(res, w', m'). wr_wf w') (fill_zeros ms w n m)"
    using fallible_mem.fill_zeros_eq [OF assms(1,3), of n m] assms(3) advance_wf(2) [OF assms(3)] by auto
  have rem: "remain r \<noteq> None" "avail w \<noteq> None" using assms(2,3) by simp_all
  show ?thesis
    by (intro conjI constructed_typed [OF assms(6)] rem lim skip read fread values_typed [OF assms(1-3,5)] once fill zeros)
qed

theorem vm_io_cursors_typed_witness:
  "remain ex_rd \<noteq> None \<and> avail ex_wr \<noteq> None \<and> pred_option rd_wf (reader_skip ex_rd 3) \<and>
   pred_option (\<lambda>(res, r', w', m'). rd_wf r' \<and> wr_wf w') (read_fallible ex_memcpy ex_rd ex_wr byte_mem) \<and>
   pred_option (\<lambda>(res, r', m'). rd_wf r' \<and> (\<forall>e. res = Inl e \<longrightarrow> r' = ex_rd)) (collect ex_memcpy ex_rd 60 byte_mem)"
proof -
  have "ptr_vaddr (rd_end ex_rd) = 18" using from_fields(3) [of "(10, 8)"] by (simp add: ex_rd_def USIZE_MAX_def)
  then have l: "io_locals u32_ty ex_rd ex_wr 40 60" using ex_local by (simp add: io_locals_def ex_wf)
  have p: "ptr_vaddr (rd_cursor ex_rd) + 8 \<le> USIZE_MAX" by (simp add: ex_wf USIZE_MAX_def)
  show ?thesis
    using vm_io_cursors_typed [OF faulting_mem.fallible_mem_axioms [of "\<lambda>a. a \<ge> 100"] ex_wf(1-3) l p, of 3 byte_mem "[]"] by simp
qed

end
