(* ===== verification/Vm_Space.thy ===== *)
theory Vm_Space
  imports Pt_Properties Tlb Vm_Io
begin

text \<open>
  Virtual address spaces, \<open>src/ostd/src/mm/vm_space.rs\<close>: cursors over the user page table together with the TLB
  flusher.  The cursor operations are those of \<open>Pt_Cursor\<close> at the user configuration; what is added here is the
  loop of \<open>unmap\<close>, the flush requests, and the checks of \<open>reader\<close> and \<open>writer\<close>.
\<close>

section \<open>Operations\<close>

text \<open>\<open>From<PageTableError> for Error\<close>.\<close>

definition error_from :: "PageTableError \<Rightarrow> Error" where
  "error_from e = AccessDenied"

record VmCursor =
  pt_cursor :: Cursor
  flusher :: OpsStack

text \<open>The TLBs of the processors: for an address, the translations that some processor may use for it, and those of them for which a
  dispatched flush is on its way.\<close>

type_synonym tlb_entries = "Vaddr \<Rightarrow> (Paddr \<times> PageProperty) set"

record tlb =
  held :: tlb_entries
  doomed :: tlb_entries

definition is_global :: "Paddr \<times> PageProperty \<Rightarrow> bool" where
  "is_global x \<longleftrightarrow> and (priv_flags (snd x)) PPF_GLOBAL = PPF_GLOBAL"

text \<open>What the TLBs hold for good, until some further request.\<close>

definition settled :: "tlb \<Rightarrow> tlb_entries" where
  "settled t v = held t v - doomed t v"

text \<open>\<open>dispatch_tlb_flush\<close> and \<open>sync_tlb_flush\<close> have no body in the sources.  Their contract is that of their documentation.  When
  \<open>dispatch\<close> returns, the flush of every entry that the pending requests cover has begun, and nothing says that it has
  ended: the entry may be held still.  After \<open>sync\<close>, the entries of the requests dispatched before are gone.  Both only
  remove entries.\<close>

type_synonym dispatch = "OpsStack \<Rightarrow> tlb \<Rightarrow> OpsStack \<times> tlb"

locale tlb_flush =
  fixes dispatch :: dispatch and sync :: "tlb \<Rightarrow> tlb"
  assumes dispatch_stack: "dispatch k t = (k', t') \<Longrightarrow> ops_ok k \<Longrightarrow> ops_ok k'"
    and dispatch_starts: "dispatch k t = (k', t') \<Longrightarrow> stack_covers k v (is_global x) \<Longrightarrow> x \<in> held t' v \<Longrightarrow> x \<in> doomed t' v"
    and dispatch_goes_on: "dispatch k t = (k', t') \<Longrightarrow> x \<in> doomed t v \<Longrightarrow> x \<in> held t' v \<Longrightarrow> x \<in> doomed t' v"
    and dispatch_keeps: "dispatch k t = (k', t') \<Longrightarrow> held t' v \<subseteq> held t v"
    and sync_completes: "held (sync t) v \<subseteq> settled t v"
begin

lemma after_dispatch:
  assumes "dispatch k t = (k', t')" "x \<in> settled t' v"
  shows "x \<in> settled t v" "\<not> stack_covers k v (is_global x)"
  using assms dispatch_starts [OF assms(1)] dispatch_goes_on [OF assms(1)] dispatch_keeps [OF assms(1)]
  unfolding settled_def by blast+

end

definition vm_cursor_mut ::
    "x86_pte pt_env \<Rightarrow> x86_pte pt_store \<Rightarrow> Paddr \<Rightarrow> Vaddr \<times> Vaddr \<Rightarrow>
     ((Error + VmCursor option) \<times> x86_pte pt_store) option" where
  "vm_cursor_mut env st root r = do {
     (res, st1) \<leftarrow> cursor_new user_pt_config env st root r;
     Some (case res of
       Inl e \<Rightarrow> Inl AccessDenied
     | Inr c \<Rightarrow> Inr (map_option (\<lambda>c. \<lparr>pt_cursor = c, flusher = ops_new\<rparr>) c), st1)
   }"

definition vm_query ::
    "x86_pte pt_store \<Rightarrow> VmCursor \<Rightarrow> ((Error + (Vaddr \<times> Vaddr) \<times> UserItem option) \<times> VmCursor) option" where
  "vm_query st c = do {
     (res, pc) \<leftarrow> query user_pt_config st (pt_cursor c);
     Some (case res of Inl e \<Rightarrow> Inl (error_from e) | Inr x \<Rightarrow> Inr x, c\<lparr>pt_cursor := pc\<rparr>)
   }"

definition vm_find_next ::
    "x86_pte pt_env \<Rightarrow> x86_pte pt_store \<Rightarrow> VmCursor \<Rightarrow> usize \<Rightarrow> (Vaddr option \<times> x86_pte pt_store \<times> VmCursor) option" where
  "vm_find_next env st c len = do {
     (r, st1, pc) \<leftarrow> find_next user_pt_config env st (pt_cursor c) len;
     Some (r, st1, c\<lparr>pt_cursor := pc\<rparr>)
   }"

definition vm_jump :: "VmCursor \<Rightarrow> Vaddr \<Rightarrow> (Error + VmCursor) option" where
  "vm_jump c v = do {
     r \<leftarrow> jump user_pt_config (pt_cursor c) v;
     Some (case r of Inl e \<Rightarrow> Inl (error_from e) | Inr pc \<Rightarrow> Inr (c\<lparr>pt_cursor := pc\<rparr>))
   }"

definition vm_map ::
    "x86_pte pt_env \<Rightarrow> dispatch \<Rightarrow> x86_pte pt_store \<Rightarrow> VmCursor \<Rightarrow> tlb \<Rightarrow> Paddr \<Rightarrow> PageProperty \<Rightarrow>
     (x86_pte pt_store \<times> VmCursor \<times> tlb) option" where
  "vm_map env dispatch st c t frame prop = do {
     let start_va = va (pt_cursor c);
     let item = \<lparr>uframe = frame, uprop = prop\<rparr>;
     (r, st1, pc) \<leftarrow> cursor_map user_pt_config env st (pt_cursor c) item;
     (case r of
       Inr _ \<Rightarrow> Some (st1, c\<lparr>pt_cursor := pc\<rparr>, t)
     | Inl (Mapped v old) \<Rightarrow> do {
         k \<leftarrow> ops_push (FlushAddress start_va) (flusher c);
         let (k', t') = dispatch k t;
         Some (st1, c\<lparr>pt_cursor := pc, flusher := k'\<rparr>, t')
       }
     | Inl (StrayPageTable p v len n) \<Rightarrow> None)
   }"

text \<open>The loop of \<open>unmap\<close>.\<close>

partial_function (option) vm_unmap_loop ::
    "x86_pte pt_env \<Rightarrow> Vaddr \<Rightarrow> x86_pte pt_store \<Rightarrow> VmCursor \<Rightarrow> usize \<Rightarrow>
     (usize \<times> x86_pte pt_store \<times> VmCursor) option" where
  "vm_unmap_loop env end_va st c num_unmapped = do {
     len \<leftarrow> usub end_va (va (pt_cursor c));
     (r, st1, pc) \<leftarrow> take_next user_pt_config env st (pt_cursor c) len;
     (case r of
       None \<Rightarrow> Some (num_unmapped, st1, c\<lparr>pt_cursor := pc\<rparr>)
     | Some (Mapped v item) \<Rightarrow> do {
         n \<leftarrow> uadd num_unmapped 1;
         k \<leftarrow> ops_push (FlushAddress v) (flusher c);
         vm_unmap_loop env end_va st1 \<lparr>pt_cursor = pc, flusher = k\<rparr> n
       }
     | Some (StrayPageTable pt v l num_frames) \<Rightarrow> do {
         n \<leftarrow> uadd num_unmapped num_frames;
         e \<leftarrow> uadd v l;
         k \<leftarrow> ops_push (FlushRange v e) (flusher c);
         vm_unmap_loop env end_va st1 \<lparr>pt_cursor = pc, flusher = k\<rparr> n
       })
   }"

definition vm_unmap ::
    "x86_pte pt_env \<Rightarrow> dispatch \<Rightarrow> x86_pte pt_store \<Rightarrow> VmCursor \<Rightarrow> tlb \<Rightarrow> usize \<Rightarrow>
     (usize \<times> x86_pte pt_store \<times> VmCursor \<times> tlb) option" where
  "vm_unmap env dispatch st c t len = do {
     rassert (len mod PAGE_SIZE = 0);
     end_va \<leftarrow> uadd (va (pt_cursor c)) len;
     rassert (end_va \<le> barrier_end (pt_cursor c));
     (n, st1, c1) \<leftarrow> vm_unmap_loop env end_va st c 0;
     let (k, t') = dispatch (flusher c1) t;
     Some (n, st1, c1\<lparr>flusher := k\<rparr>, t')
   }"

definition vm_protect_next ::
    "x86_pte pt_env \<Rightarrow> x86_pte pt_store \<Rightarrow> VmCursor \<Rightarrow> usize \<Rightarrow> (PageProperty \<Rightarrow> PageProperty) \<Rightarrow>
     ((Vaddr \<times> Vaddr) option \<times> x86_pte pt_store \<times> VmCursor) option" where
  "vm_protect_next env st c len op = do {
     (r, st1, pc) \<leftarrow> protect_next user_pt_config env st (pt_cursor c) len op;
     Some (r, st1, c\<lparr>pt_cursor := pc\<rparr>)
   }"

text \<open>\<open>reader\<close> and \<open>writer\<close>.  \<open>current_page_table_paddr\<close> reads a register of the processor.\<close>

definition vm_reader :: "Paddr \<Rightarrow> Paddr \<Rightarrow> Vaddr \<Rightarrow> usize \<Rightarrow> Error + VmReader" where
  "vm_reader current_page_table_paddr root vaddr len = (
     if current_page_table_paddr \<noteq> root then Inl AccessDenied
     else if (case uadd vaddr len of Some e \<Rightarrow> e | None \<Rightarrow> USIZE_MAX) > MAX_USERSPACE_VADDR then Inl AccessDenied
     else Inr (reader_from_user_space (vp_from_vaddr vaddr len) len))"

definition vm_writer :: "Paddr \<Rightarrow> Paddr \<Rightarrow> Vaddr \<Rightarrow> usize \<Rightarrow> Error + VmWriter" where
  "vm_writer current_page_table_paddr root vaddr len = (
     if current_page_table_paddr \<noteq> root then Inl AccessDenied
     else if (case uadd vaddr len of Some e \<Rightarrow> e | None \<Rightarrow> USIZE_MAX) > MAX_USERSPACE_VADDR then Inl AccessDenied
     else Inr (writer_from_user_space (vp_from_vaddr vaddr len) len))"

text \<open>What they hand out lies below the end of user space, and never wraps.\<close>

lemma vm_reader_user:
  assumes "vm_reader cur root v len = Inr r"
  shows "cur = root \<and> rd_wf r \<and> ptr_vaddr (rd_cursor r) = v \<and> rd_len r = len \<and> ptr_vaddr (rd_end r) \<le> MAX_USERSPACE_VADDR"
  using assms by (auto simp: vm_reader_def reader_from_user_space_def vp_from_vaddr_def wrapping_add_def rd_wf_def uadd_def
      USIZE_MAX_def MAX_USERSPACE_VADDR_def split: if_splits)

lemma vm_writer_user:
  assumes "vm_writer cur root v len = Inr w"
  shows "cur = root \<and> wr_wf w \<and> ptr_vaddr (wr_cursor w) = v \<and> wr_len w = len \<and> ptr_vaddr (wr_end w) \<le> MAX_USERSPACE_VADDR"
  using assms by (auto simp: vm_writer_def writer_from_user_space_def vp_from_vaddr_def wrapping_add_def wr_wf_def uadd_def
      USIZE_MAX_def MAX_USERSPACE_VADDR_def split: if_splits)

section \<open>Base pages\<close>

text \<open>User mappings are base pages: \<open>map_level\<close> is 1 for every frame.\<close>

definition base_ghost :: "nat \<Rightarrow> pt_ghost" where
  "base_ghost n = \<lparr>g_k = 12, g_b = 9, g_limit = 2 ^ 52, g_nodes = n, g_prop = x86_valid_prop False,
     g_item = \<lambda>pa l q. l = 1\<rparr>"

lemma base_ghost_sel [simp]:
  "g_k (base_ghost n) = 12" "g_b (base_ghost n) = 9" "g_limit (base_ghost n) = 2 ^ 52" "g_nodes (base_ghost n) = n"
  "g_prop (base_ghost n) = x86_valid_prop False" "g_item (base_ghost n) pa l q \<longleftrightarrow> l = 1" "no_huge (base_ghost n)"
  by (simp_all add: base_ghost_def no_huge_def)

interpretation base_pt: page_table user_pt_config "base_ghost 1024" "pool_env 1024"
  by (rule page_tableI) (simp_all add: user_item_from_raw_def)

definition tlb_coherent :: "pt_ghost \<Rightarrow> x86_pte pt_store \<Rightarrow> Paddr \<Rightarrow> Vaddr \<Rightarrow> tlb_entries \<Rightarrow> bool" where
  "tlb_coherent G st root a h \<longleftrightarrow>
     (\<forall>v x. v div gW G = a div gW G \<longrightarrow> x \<in> h v \<longrightarrow> page_walk user_pt_config st root v = Some (Some x))"

definition tlb_local :: "pt_ghost \<Rightarrow> Vaddr \<Rightarrow> tlb_entries \<Rightarrow> bool" where
  "tlb_local G a h \<longleftrightarrow> (\<forall>v x. v div gW G = a div gW G \<longrightarrow> x \<in> h v \<longrightarrow> \<not> is_global x)"

lemma tlb_coherent_mono: "tlb_coherent G st root a h \<Longrightarrow> (\<And>v. h' v \<subseteq> h v) \<Longrightarrow> tlb_coherent G st root a h'"
  unfolding tlb_coherent_def by blast

text \<open>A processor that walks the page table may load what it finds there at any time.\<close>

definition tlb_load :: "Vaddr \<Rightarrow> Paddr \<times> PageProperty \<Rightarrow> tlb \<Rightarrow> tlb" where
  "tlb_load v x t = t\<lparr>held := (held t)(v := insert x (held t v)), doomed := (doomed t)(v := doomed t v - {x})\<rparr>"

lemma tlb_load_coherent:
  "tlb_coherent G st root a (settled t) \<Longrightarrow> page_walk user_pt_config st root v = Some (Some x) \<Longrightarrow>
   tlb_coherent G st root a (settled (tlb_load v x t))"
  by (auto simp: tlb_coherent_def settled_def tlb_load_def)

text \<open>Processors that have done nothing when \<open>dispatch\<close> returns, and drop what is covered before \<open>sync\<close> does.\<close>

definition post_flush :: dispatch where
  "post_flush k t = (ops_clear_without_flush k,
     t\<lparr>doomed := \<lambda>v. doomed t v \<union> Set.filter (\<lambda>x. stack_covers k v (is_global x)) (held t v)\<rparr>)"

definition finish_flush :: "tlb \<Rightarrow> tlb" where
  "finish_flush t = \<lparr>held = settled t, doomed = \<lambda>v. {}\<rparr>"

interpretation late: tlb_flush post_flush finish_flush
  by unfold_locales (auto simp: post_flush_def finish_flush_def ops_ok_def ops_clear_without_flush_def FLUSH_ALL_OPS_THRESHOLD_def)

section \<open>Unmapping\<close>

lemma barrier_window:
  assumes "cursor_core G pos c" "barrier_start c \<le> v" "v < barrier_end c"
  shows "v div gW G = barrier_start c div gW G"
proof -
  let ?s = "gsz G (guard_level c + 1)"
  have "?s dvd gW G" using assms(1) by (intro gsz_dvd_gW) (simp_all add: cursor_core_def)
  then obtain t where t: "gW G = ?s * t" by (elim dvdE)
  show ?thesis using barrier_node [OF assms] by (simp add: t div_mult2_eq)
qed

text \<open>The flush request that \<open>unmap\<close> issues for what \<open>take_next\<close> took out.\<close>

fun frag_op :: "UserItem PageTableFrag \<Rightarrow> TlbFlushOp" where
  "frag_op (Mapped v item) = FlushAddress v"
| "frag_op (StrayPageTable p v l n) = FlushRange v (v + l)"

fun frag_count :: "UserItem PageTableFrag \<Rightarrow> usize" where
  "frag_count (Mapped v item) = 1"
| "frag_count (StrayPageTable p v l n) = n"

lemma unmap_step:
  assumes "usub e (va (pt_cursor c)) = Some len" "take_next user_pt_config env st (pt_cursor c) len = Some (Some f, st1, pc)"
    "n + frag_count f \<le> USIZE_MAX" "\<And>p v l m. f = StrayPageTable p v l m \<Longrightarrow> v + l \<le> USIZE_MAX"
    "ops_push (frag_op f) (flusher c) = Some k"
  shows "vm_unmap_loop env e st c n = vm_unmap_loop env e st1 \<lparr>pt_cursor = pc, flusher = k\<rparr> (n + frag_count f)"
  using assms by (subst vm_unmap_loop.simps) (cases f; simp add: uadd_def)

lemma replace_stray_count:
  assumes "replace_cur_entry C env st c ch = Some (Some (StrayPageTable p v l m), st1)"
  shows "\<exists>st'. m = fst (mark_stray env st' p)"
proof -
  obtain i n old st2 where o: "pte_index (pconsts C) (va c) (level c) = Some i" "path_slot c (level c) = Some n"
    "replace_child C st n i ch = Some (old, st2)"
    using assms by (auto simp: replace_cur_entry_def bind_eq_Some_conv)
  then show ?thesis using assms by (cases old) (auto simp: replace_cur_entry_def bind_eq_Some_conv)
qed

lemma stray_frag_count:
  assumes "\<forall>st p. fst (mark_stray env st p) \<le> B" "1 \<le> B" "take_next C env st c len = Some (Some f, st1, c1)"
  shows "frag_count f \<le> B"
proof (cases f)
  case (StrayPageTable p v l m)
  obtain st2 c2 where "replace_cur_entry C env st2 c2 Absent = Some (Some f, st1)"
    using assms(3) by (auto simp: take_next_def bind_eq_Some_conv split: option.splits)
  then show ?thesis using replace_stray_count [of C env st2 c2 Absent p v l m st1] assms(1) StrayPageTable by auto
qed (use assms(2) in simp)

lemma frag_flush:
  assumes "page_table user_pt_config G env" "no_huge G" "frag_ok user_pt_config G T l a (Some f)" "gsz G l dvd a"
    "a + gsz G l \<le> USIZE_MAX"
  shows "a \<le> v \<and> v < a + gsz G l \<Longrightarrow> op_covers (frag_op f) v False"
    and "f = StrayPageTable p v l' m \<Longrightarrow> v + l' \<le> USIZE_MAX"
proof -
  have one: "gsz G 1 = PAGE_SIZE"
    using page_table.gsz_exp [OF assms(1), of 1] page_table.base_page [OF assms(1)] by simp
  show "op_covers (frag_op f) v False" if v: "a \<le> v \<and> v < a + gsz G l"
  proof (cases f)
    case (Mapped a' i)
    then have l: "a' = a" "l = 1" using assms(2,3) by (auto simp: frag_ok_def no_huge_def leaf_ok_def)
    have "PAGE_SIZE dvd a" using assms(4) l one by simp
    then obtain m where m: "a = PAGE_SIZE * m" by (elim dvdE)
    have "v div PAGE_SIZE = m"
      by (rule div_nat_eqI) (use v l one m in \<open>simp_all add: algebra_simps\<close>)
    then show ?thesis using Mapped l m by simp
  next
    case (StrayPageTable p a' l' m)
    then show ?thesis using assms(3) v by (simp add: frag_ok_def)
  qed
  show "f = StrayPageTable p v l' m \<Longrightarrow> v + l' \<le> USIZE_MAX" using assms(3,5) by (simp add: frag_ok_def)
qed

lemma pages_left:
  assumes "PAGE_SIZE dvd a" "PAGE_SIZE dvd b" "PAGE_SIZE dvd e" "a < b" "b \<le> e"
  shows "Suc ((e - b) div PAGE_SIZE) \<le> (e - a) div PAGE_SIZE"
proof -
  obtain x y z where xyz: "a = PAGE_SIZE * x" "b = PAGE_SIZE * y" "e = PAGE_SIZE * z" using assms(1-3) by (auto elim!: dvdE)
  then have "x < y" "y \<le> z" using assms(4,5) by simp_all
  then show ?thesis using xyz by (simp flip: diff_mult_distrib2)
qed

lemma vm_unmap_loop_ok:
  assumes PT: "page_table user_pt_config G env" "no_huge G" "\<forall>st p. fst (mark_stray env st p) \<le> 2 ^ 27"
  shows "pt_wf user_pt_config G st pos root \<Longrightarrow> cursor_wf G pos (pt_cursor c) \<Longrightarrow> ops_ok (flusher c) \<Longrightarrow>
    PAGE_SIZE dvd e \<Longrightarrow> va (pt_cursor c) \<le> e \<Longrightarrow> e \<le> barrier_end (pt_cursor c) \<Longrightarrow>
    card (dom st) + 2 * (NR_LEVELS - 1) \<le> g_nodes G \<Longrightarrow>
    n + 2 ^ 27 * ((e - va (pt_cursor c)) div PAGE_SIZE) \<le> USIZE_MAX \<Longrightarrow>
    \<exists>m st' c' pos'. vm_unmap_loop env e st c n = Some (m, st', c') \<and> pt_wf user_pt_config G st' pos' root \<and>
      cursor_wf G pos' (pt_cursor c') \<and> same_range (pt_cursor c) (pt_cursor c') \<and> e \<le> va (pt_cursor c') \<and> ops_ok (flusher c') \<and>
      (\<forall>v. stack_covers (flusher c) v False \<longrightarrow> stack_covers (flusher c') v False) \<and>
      (\<forall>v. va (pt_cursor c) \<le> v \<and> v < e \<longrightarrow> page_walk user_pt_config st root v \<noteq> Some None \<longrightarrow> stack_covers (flusher c') v False) \<and>
      (\<forall>v. v div gW G = barrier_start (pt_cursor c) div gW G \<longrightarrow> page_walk user_pt_config st' root v =
         (if va (pt_cursor c) \<le> v \<and> v < e then Some None else page_walk user_pt_config st root v))"
proof (induction "e - va (pt_cursor c)" arbitrary: st pos c n rule: less_induct)
  case less
  let ?pc = "pt_cursor c" and ?W = "page_walk user_pt_config st root"
  let ?len = "e - va ?pc"
  have k: "2 ^ g_k G = PAGE_SIZE" by (rule page_table.base_page [OF PT(1)])
  have cc: "cursor_core G pos ?pc" using less.prems(2) by (simp add: cursor_wf_def)
  have len: "2 ^ g_k G dvd ?len" "va ?pc + ?len \<le> barrier_end ?pc"
    using less.prems(4-6) cc k by (simp_all add: cursor_core_def dvd_diff_nat)
  have us: "usub e (va ?pc) = Some ?len" using less.prems(5) by (simp add: usub_def)
  obtain r st1 c1 pos1 where T: "take_next user_pt_config env st ?pc ?len = Some (r, st1, c1)"
    "pt_wf user_pt_config G st1 pos1 root" "cursor_wf G pos1 c1" "same_range ?pc c1"
    "case r of
       None \<Rightarrow> va ?pc + ?len \<le> va c1 \<and> (\<forall>v. page_walk user_pt_config st1 root v = ?W v) \<and>
         (\<forall>v. va ?pc \<le> v \<and> v < va ?pc + ?len \<longrightarrow> ?W v = Some None)
     | Some f \<Rightarrow> \<exists>a l. va ?pc \<le> a \<and> a + gsz G l = va c1 \<and> va c1 \<le> va ?pc + ?len \<and> gsz G l dvd a \<and>
         frag_ok user_pt_config G ?W l a r \<and>
         (\<forall>v. va ?pc \<le> v \<and> v < a \<longrightarrow> ?W v = Some None) \<and>
         (\<forall>v. v div gW G = a div gW G \<longrightarrow> page_walk user_pt_config st1 root v =
            (if a \<le> v \<and> v < a + gsz G l then Some None else ?W v))"
    "dom st1 = dom st"
    using page_table.take_next_ok [OF PT(1) less.prems(1,2) len less.prems(7)] PT(2) by blast
  have e: "va ?pc + ?len = e" using less.prems(5) by simp
  show ?case
  proof (cases r)
    case None
    then have "vm_unmap_loop env e st c n = Some (n, st1, c\<lparr>pt_cursor := c1\<rparr>)"
      using us T(1) by (subst vm_unmap_loop.simps) simp
    then show ?thesis using T(2-5) None e less.prems(3)
      by (intro exI [of _ n] exI [of _ st1] exI [of _ "c\<lparr>pt_cursor := c1\<rparr>"] exI [of _ pos1]) auto
  next
    case (Some f)
    then obtain a l where a: "va ?pc \<le> a" "a + gsz G l = va c1" "va c1 \<le> e" "gsz G l dvd a"
      "frag_ok user_pt_config G ?W l a (Some f)" "\<And>v. va ?pc \<le> v \<and> v < a \<Longrightarrow> ?W v = Some None"
      "\<And>v. v div gW G = a div gW G \<Longrightarrow> page_walk user_pt_config st1 root v =
            (if a \<le> v \<and> v < a + gsz G l then Some None else ?W v)"
      using T(5) e by auto
    have gp: "0 < gsz G l" by (rule gsz_pos)
    have win: "a div gW G = barrier_start ?pc div gW G"
      using barrier_window [OF cc, of a] a(1-3) gp less.prems(6) cc by (simp add: cursor_core_def)
    have max: "va c1 \<le> USIZE_MAX"
      using barrier_fits [OF cc, of "barrier_end ?pc - 1" "guard_level ?pc"] slot_base_gt [of "barrier_end ?pc - 1" G "guard_level ?pc"]
        a(3) less.prems(6) cc unfolding cursor_core_def by linarith
    note fl = frag_flush [OF PT(1,2) a(5,4), unfolded a(2), OF max]
    obtain k' where k': "ops_push (frag_op f) (flusher c) = Some k'" "ops_ok k'"
      "\<forall>v. stack_covers (flusher c) v False \<or> op_covers (frag_op f) v False \<longrightarrow> stack_covers k' v False"
      using ops_push_local [OF less.prems(3)] by blast
    let ?c = "\<lparr>pt_cursor = c1, flusher = k'\<rparr>" and ?n = "n + frag_count f"
    have lt: "va ?pc < va c1" using a(1,2) gp by linarith
    have room: "?n + 2 ^ 27 * ((e - va c1) div PAGE_SIZE) \<le> USIZE_MAX"
    proof -
      have "Suc ((e - va c1) div PAGE_SIZE) \<le> (e - va ?pc) div PAGE_SIZE"
        using pages_left [of "va ?pc" "va c1" e] cc T(3) k less.prems(4) lt a(3) by (simp add: cursor_core_def cursor_wf_def)
      then have "2 ^ 27 * Suc ((e - va c1) div PAGE_SIZE) \<le> 2 ^ 27 * ((e - va ?pc) div PAGE_SIZE)" by (rule mult_le_mono2)
      moreover have "frag_count f \<le> 2 ^ 27"
        by (rule stray_frag_count [OF PT(3) _ T(1) [unfolded Some]]) simp
      ultimately show ?thesis using less.prems(8) by simp
    qed
    have step: "vm_unmap_loop env e st c n = vm_unmap_loop env e st1 ?c ?n"
      by (rule unmap_step [OF us T(1) [unfolded Some] _ _ k'(1)]) (use room fl(2) in auto)
    have "\<exists>m st' c' pos'. vm_unmap_loop env e st1 ?c ?n = Some (m, st', c') \<and> pt_wf user_pt_config G st' pos' root \<and>
      cursor_wf G pos' (pt_cursor c') \<and> same_range (pt_cursor ?c) (pt_cursor c') \<and> e \<le> va (pt_cursor c') \<and> ops_ok (flusher c') \<and>
      (\<forall>v. stack_covers (flusher ?c) v False \<longrightarrow> stack_covers (flusher c') v False) \<and>
      (\<forall>v. va (pt_cursor ?c) \<le> v \<and> v < e \<longrightarrow> page_walk user_pt_config st1 root v \<noteq> Some None \<longrightarrow> stack_covers (flusher c') v False) \<and>
      (\<forall>v. v div gW G = barrier_start (pt_cursor ?c) div gW G \<longrightarrow> page_walk user_pt_config st' root v =
         (if va (pt_cursor ?c) \<le> v \<and> v < e then Some None else page_walk user_pt_config st1 root v))"
      by (rule less.hyps) (use lt a(3) T(2-4,6) k'(2) less.prems(4,6,7) room in \<open>simp_all add: same_range_def\<close>)
    then obtain m st' c' pos' where R: "vm_unmap_loop env e st c n = Some (m, st', c')" "pt_wf user_pt_config G st' pos' root"
      "cursor_wf G pos' (pt_cursor c')" "same_range c1 (pt_cursor c')" "e \<le> va (pt_cursor c')" "ops_ok (flusher c')"
      "\<And>v. stack_covers k' v False \<Longrightarrow> stack_covers (flusher c') v False"
      "\<And>v. va c1 \<le> v \<Longrightarrow> v < e \<Longrightarrow> page_walk user_pt_config st1 root v \<noteq> Some None \<Longrightarrow> stack_covers (flusher c') v False"
      "\<And>v. v div gW G = barrier_start ?pc div gW G \<Longrightarrow> page_walk user_pt_config st' root v =
         (if va c1 \<le> v \<and> v < e then Some None else page_walk user_pt_config st1 root v)"
      using step T(4) by (auto simp: same_range_def)
    have walk: "page_walk user_pt_config st' root v = (if va ?pc \<le> v \<and> v < e then Some None else ?W v)"
      if "v div gW G = barrier_start ?pc div gW G" for v
      using R(9) [OF that] a(7) [of v] that win a(1-3,6) by (cases "v < a") auto
    have cov: "stack_covers (flusher c') v False" if v: "va ?pc \<le> v" "v < e" "?W v \<noteq> Some None" for v
    proof (cases "v < va c1")
      case True
      then have "a \<le> v \<and> v < va c1" using a(6) [of v] v by force
      then show ?thesis using fl(1) R(7) k'(3) by blast
    next
      case False
      have "v div gW G = barrier_start ?pc div gW G"
        using barrier_window [OF cc, of v] v less.prems(6) cc by (simp add: cursor_core_def)
      then have "page_walk user_pt_config st1 root v = ?W v" using a(7) [of v] win False a(2) by simp
      then show ?thesis using R(8) [of v] False v by simp
    qed
    show ?thesis using R(1-3,5,6) same_range_trans [OF T(4) R(4)] R(7) k'(3) walk cov by blast
  qed
qed


section \<open>An address space\<close>

text \<open>An empty user page table and a cursor over its first 4 MiB.\<close>

definition base_st :: "x86_pte pt_store" where
  "base_st = [0x1000 \<mapsto> node_new user_pt_config 4 512]"

definition base_cursor :: VmCursor where
  "base_cursor = \<lparr>pt_cursor = demo_cursor, flusher = ops_new\<rparr>"

lemma base_gsz: "gsz (base_ghost n) l = gsz G0 l" "gW (base_ghost n) = gW G0"
  by (simp_all add: gsz_def gW_def)

lemma base_wf: "pt_wf user_pt_config (base_ghost 1024) base_st [0x1000 \<mapsto> (4, 0)] 0x1000"
proof -
  have "leaf_entry user_pt_config (base_ghost 1024) l (new_absent (pte user_pt_config))"
    "\<not> is_present (pte user_pt_config) (new_absent (pte user_pt_config))" for l
    using base_pt.pt.absent_law by (simp_all add: leaf_entry_def)
  then show ?thesis
    by (auto simp: pt_wf_def base_st_def node_new_def node_ok_def children_count_def NR_LEVELS_def
      LINEAR_MAPPING_BASE_VADDR_def USIZE_MAX_def entry_ok_def split: if_splits)
qed

lemma base_cursor_wf:
  assumes "pos 0x1000 = Some (4, 0)"
  shows "cursor_wf (base_ghost 1024) pos (pt_cursor base_cursor)"
proof -
  have "path_ok (base_ghost 1024) pos demo_cursor (va demo_cursor)"
    unfolding path_ok_def
  proof (intro allI impI)
    fix l assume "level demo_cursor \<le> l \<and> l \<le> guard_level demo_cursor"
    then have "l = 4" by (simp add: demo_cursor_def)
    then show "\<exists>n. path demo_cursor ! (l - 1) = Some n \<and> pos n = Some (l, va_pre (base_ghost 1024) l (va demo_cursor))"
      using assms by (simp add: demo_cursor_def va_pre_def base_gsz gsz_vals)
  qed
  then show ?thesis
    by (simp add: base_cursor_def cursor_wf_def cursor_core_def demo_cursor_def NR_LEVELS_def base_gsz gsz_vals
      slot_base_def USIZE_MAX_def)
qed

lemma base_leaf: "leaf_ok (base_ghost 1024) 0x7000 1 demo_prop"
  by (simp add: leaf_ok_def base_gsz gsz_vals demo_prop_valid)

text \<open>The same table with the page at 0x3000 mapped.\<close>

definition leaf1 :: x86_pte where
  "leaf1 = the (x86_new_page False 0x7000 1 demo_prop)"

abbreviation fresh_node :: "nat \<Rightarrow> x86_pte pt_node" where
  "fresh_node l \<equiv> node_new user_pt_config l 512"

definition base_st1 :: "x86_pte pt_store" where
  "base_st1 = graft user_pt_config base_st 0x1000 0 0x2000 (fresh_node 3)"

definition base_st2 :: "x86_pte pt_store" where
  "base_st2 = graft user_pt_config base_st1 0x2000 0 0x3000 (fresh_node 2)"

definition base_st3 :: "x86_pte pt_store" where
  "base_st3 = graft user_pt_config base_st2 0x3000 0 0x4000 (fresh_node 1)"

definition mapped_st :: "x86_pte pt_store" where
  "mapped_st = slot_set user_pt_config base_st3 0x4000 3 leaf1"

definition mapped_pos :: pt_pos where
  "mapped_pos = [0x1000 \<mapsto> (4, 0), 0x2000 \<mapsto> (3, 0), 0x3000 \<mapsto> (2, 0), 0x4000 \<mapsto> (1, 0)]"

lemmas mapped_sts = mapped_st_def base_st3_def base_st2_def base_st1_def base_st_def graft_def slot_set_def Let_def
  pt_ent_def node_new_def

lemma base_absent [simplified]:
  "leaf_entry user_pt_config (base_ghost 1024) l (new_absent (pte user_pt_config))"
  using base_pt.pt.absent_law by (simp add: leaf_entry_def)

lemma base_graft:
  assumes "pt_wf user_pt_config (base_ghost 1024) st pos 0x1000" "pos n = Some (l, 0)" "1 < l"
    "leaf_entry user_pt_config (base_ghost 1024) l (pt_ent st n 0)" "st c = None" "0x1000 dvd c" "c < 0x10000"
  shows "pt_wf user_pt_config (base_ghost 1024) (graft user_pt_config st n 0 c (fresh_node (l - 1))) (pos(c \<mapsto> (l - 1, 0))) 0x1000"
  using base_pt.graft_wf [OF assms(1,2) _ assms(3,4,5) _ _ _ base_pt.leaf_node_new] assms(6,7)
  by (simp add: LINEAR_MAPPING_BASE_VADDR_def USIZE_MAX_def)

lemma base_wf3: "pt_wf user_pt_config (base_ghost 1024) base_st3 mapped_pos 0x1000"
proof -
  have 1: "pt_wf user_pt_config (base_ghost 1024) base_st1 [0x1000 \<mapsto> (4, 0), 0x2000 \<mapsto> (3, 0)] 0x1000"
    using base_graft [OF base_wf, of "0x1000" 4 "0x2000"] base_absent by (simp add: base_st1_def base_st_def pt_ent_def node_new_def)
  have 2: "pt_wf user_pt_config (base_ghost 1024) base_st2 [0x1000 \<mapsto> (4, 0), 0x2000 \<mapsto> (3, 0), 0x3000 \<mapsto> (2, 0)] 0x1000"
    using base_graft [OF 1, of "0x2000" 3 "0x3000"] base_absent by (simp add: mapped_sts)
  show ?thesis
    using base_graft [OF 2, of "0x3000" 2 "0x4000"] base_absent by (simp add: mapped_sts mapped_pos_def)
qed

lemma leaf1_props: "leaf_entry user_pt_config (base_ghost 1024) 1 leaf1" "is_present (pte user_pt_config) leaf1"
    "pte_paddr (pte user_pt_config) leaf1 = 0x7000" "pte_prop (pte user_pt_config) leaf1 = Some demo_prop"
    "is_last (pte user_pt_config) leaf1 1"
proof -
  obtain e where e: "x86_new_page False 0x7000 1 demo_prop = Some e" "x86_is_present e" "x86_paddr e = 0x7000"
      "x86_is_last e 1" "x86_prop False e = Some demo_prop"
    using x86_pte.page_law [of "0x7000" demo_prop 1] demo_prop_valid
    by (auto simp: x86_pte_ops_def x86_valid_paddr_def PAGE_SIZE_def)
  then have "leaf1 = e" by (simp add: leaf1_def)
  then show "leaf_entry user_pt_config (base_ghost 1024) 1 leaf1" "is_present (pte user_pt_config) leaf1"
    "pte_paddr (pte user_pt_config) leaf1 = 0x7000" "pte_prop (pte user_pt_config) leaf1 = Some demo_prop"
    "is_last (pte user_pt_config) leaf1 1"
    using e base_leaf by (auto simp: leaf_entry_def x86_pte_ops_def)
qed

lemma mapped_wf: "pt_wf user_pt_config (base_ghost 1024) mapped_st mapped_pos 0x1000"
proof -
  have "pt_wf user_pt_config (base_ghost 1024) mapped_st
      (drop_slot (base_ghost 1024) mapped_pos (1 - 1) (0 * 2 ^ g_b (base_ghost 1024) + 3)) 0x1000"
    unfolding mapped_st_def by (rule slot_set_wf [OF base_wf3 _ _ leaf1_props(1)]) (simp_all add: mapped_pos_def)
  moreover have "drop_slot (base_ghost 1024) mapped_pos (1 - 1) (0 * 2 ^ g_b (base_ghost 1024) + 3) = mapped_pos"
    by (auto simp: drop_slot_def mapped_pos_def in_slot_def fun_eq_iff)
  ultimately show ?thesis by simp
qed

lemma mapped_walk: "page_walk user_pt_config mapped_st 0x1000 0x3abc = Some (Some (0x7abc, demo_prop))"
proof -
  have i: "va_idx (base_ghost 1024) 1 0x3abc = 3" "va_pre (base_ghost 1024) 1 0x3abc = 0"
    using gsz_vals(2) [unfolded numeral_2_eq_2] by (simp_all add: va_idx_def va_pre_def base_gsz gsz_vals)
  have e: "pt_ent mapped_st 0x4000 3 = leaf1" by (simp add: mapped_sts)
  show ?thesis
    using base_pt.slot_walk [OF mapped_wf, of "0x4000" 1 "0x3abc" "0x3abc"] leaf1_props
    by (simp add: i [simplified] e mapped_pos_def base_pt.leaf_trans_def base_gsz gsz_vals)
qed

lemma mapped_dom: "dom mapped_st = {0x1000, 0x2000, 0x3000, 0x4000}"
  by (auto simp: mapped_sts split: if_splits)

text \<open>C4: \<open>unmap\<close> leaves no mapping, and no stale translation once its flushes are through.  On an address space of base pages
  whose entries in the TLBs are not global, it returns, exactly the addresses of the requested range lose their translation and all
  others keep it, however many pages and whole page tables are taken out.  \<open>unmap\<close> only dispatches the flushes, so on its
  return the TLBs may hold old translations.  But if the translations with no flush on its way agreed with the page table before, then
  those agree with the new one, and after a \<open>sync_tlb_flush\<close> everything that the TLBs hold does.\<close>

theorem vm_unmap_coherent:
  assumes "page_table user_pt_config G env" "no_huge G" "\<forall>st p. fst (mark_stray env st p) \<le> 2 ^ 27" "tlb_flush dispatch sync"
    "pt_wf user_pt_config G st pos root" "cursor_wf G pos (pt_cursor c)" "ops_ok (flusher c)"
    "PAGE_SIZE dvd len" "va (pt_cursor c) + len \<le> barrier_end (pt_cursor c)" "len \<le> MAX_USERSPACE_VADDR"
    "card (dom st) + 2 * (NR_LEVELS - 1) \<le> g_nodes G"
    "tlb_coherent G st root (barrier_start (pt_cursor c)) (settled t)" "tlb_local G (barrier_start (pt_cursor c)) (settled t)"
  shows "\<exists>n st' c' t' pos'. vm_unmap env dispatch st c t len = Some (n, st', c', t') \<and>
    pt_wf user_pt_config G st' pos' root \<and> cursor_wf G pos' (pt_cursor c') \<and>
    (\<forall>v. v div gW G = barrier_start (pt_cursor c) div gW G \<longrightarrow> page_walk user_pt_config st' root v =
       (if va (pt_cursor c) \<le> v \<and> v < va (pt_cursor c) + len then Some None else page_walk user_pt_config st root v)) \<and>
    tlb_coherent G st' root (barrier_start (pt_cursor c)) (settled t') \<and>
    tlb_coherent G st' root (barrier_start (pt_cursor c)) (held (sync t'))"
proof -
  let ?pc = "pt_cursor c" and ?W = "page_walk user_pt_config st root"
  let ?e = "va ?pc + len"
  have cc: "cursor_core G pos ?pc" using assms(6) by (simp add: cursor_wf_def)
  have k: "2 ^ g_k G = PAGE_SIZE" by (rule page_table.base_page [OF assms(1)])
  have ev: "PAGE_SIZE dvd ?e" using assms(8) cc k by (simp add: cursor_core_def)
  have max: "?e \<le> USIZE_MAX"
    using barrier_fits [OF cc, of "barrier_end ?pc - 1" "guard_level ?pc"] slot_base_gt [of "barrier_end ?pc - 1" G "guard_level ?pc"]
      assms(9) cc unfolding cursor_core_def by linarith
  have "(?e - va ?pc) div PAGE_SIZE \<le> MAX_USERSPACE_VADDR div PAGE_SIZE" using assms(10) by (simp add: div_le_mono)
  then have room: "0 + 2 ^ 27 * ((?e - va ?pc) div PAGE_SIZE) \<le> USIZE_MAX"
    by (simp add: MAX_USERSPACE_VADDR_def PAGE_SIZE_def USIZE_MAX_def)
  obtain m st' c' pos' where R: "vm_unmap_loop env ?e st c 0 = Some (m, st', c')" "pt_wf user_pt_config G st' pos' root"
    "cursor_wf G pos' (pt_cursor c')" "\<And>v. va ?pc \<le> v \<Longrightarrow> v < ?e \<Longrightarrow> ?W v \<noteq> Some None \<Longrightarrow> stack_covers (flusher c') v False"
    "\<And>v. v div gW G = barrier_start ?pc div gW G \<Longrightarrow> page_walk user_pt_config st' root v =
         (if va ?pc \<le> v \<and> v < ?e then Some None else ?W v)"
    using vm_unmap_loop_ok [OF assms(1-3,5-7) ev _ assms(9,11) room] by auto
  obtain k' t' where d: "dispatch (flusher c') t = (k', t')" by fastforce
  have coh: "tlb_coherent G st' root (barrier_start ?pc) (settled t')"
    unfolding tlb_coherent_def
  proof (intro allI impI)
    fix v x
    assume v: "v div gW G = barrier_start ?pc div gW G" and x: "x \<in> settled t' v"
    note a = tlb_flush.after_dispatch [OF assms(4) d x]
    have w: "?W v = Some (Some x)" "\<not> is_global x" using assms(12,13) v a(1) unfolding tlb_coherent_def tlb_local_def by blast+
    have "\<not> (va ?pc \<le> v \<and> v < ?e)" using R(4) [of v] w a(2) by auto
    then show "page_walk user_pt_config st' root v = Some (Some x)" using R(5) [OF v] w by simp
  qed
  moreover have "vm_unmap env dispatch st c t len = Some (m, st', c'\<lparr>flusher := k'\<rparr>, t')"
    using assms(8,9) max R(1) d by (simp add: vm_unmap_def rassert_def uadd_def dvd_eq_mod_eq_0)
  moreover note tlb_coherent_mono [OF coh tlb_flush.sync_completes [OF assms(4)]]
  ultimately show ?thesis using R(2,3,5)
    by (intro exI [of _ m] exI [of _ st'] exI [of _ "c'\<lparr>flusher := k'\<rparr>"] exI [of _ t'] exI [of _ pos']) simp
qed

abbreviation demo_tlb :: tlb where
  "demo_tlb \<equiv> \<lparr>held = \<lambda>v. if v = 0x3abc then {(0x7abc, demo_prop)} else {}, doomed = \<lambda>v. {}\<rparr>"

lemma demo_tlb_local: "tlb_local G a (settled demo_tlb)"
  by (simp add: tlb_local_def settled_def is_global_def demo_prop_def page_flag_defs)

theorem vm_unmap_coherent_witness:
  "\<exists>n st' c' t'. vm_unmap (pool_env 1024) post_flush mapped_st base_cursor demo_tlb 0x1000 = Some (n, st', c', t') \<and>
    page_walk user_pt_config st' 0x1000 0x3abc = Some None \<and> held (finish_flush t') 0x3abc = {}"
proof -
  have coh: "tlb_coherent (base_ghost 1024) mapped_st 0x1000 (barrier_start (pt_cursor base_cursor)) (settled demo_tlb)"
    using mapped_walk by (simp add: tlb_coherent_def settled_def)
  have stray: "\<forall>st p. fst (mark_stray (pool_env 1024 :: x86_pte pt_env) st p) \<le> 2 ^ 27" by (simp add: pool_env_def)
  have cw: "cursor_wf (base_ghost 1024) mapped_pos (pt_cursor base_cursor)" by (rule base_cursor_wf) (simp add: mapped_pos_def)
  have ok: "ops_ok (flusher base_cursor)" by (simp add: base_cursor_def ops_new_ok)
  have room: "card (dom mapped_st) + 2 * (NR_LEVELS - 1) \<le> g_nodes (base_ghost 1024)" by (simp add: mapped_dom NR_LEVELS_def)
  have len: "PAGE_SIZE dvd 0x1000" "va (pt_cursor base_cursor) + 0x1000 \<le> barrier_end (pt_cursor base_cursor)"
    "0x1000 \<le> MAX_USERSPACE_VADDR"
    by (simp_all add: base_cursor_def demo_cursor_def PAGE_SIZE_def MAX_USERSPACE_VADDR_def)
  obtain n st' c' t' where r: "vm_unmap (pool_env 1024) post_flush mapped_st base_cursor demo_tlb 0x1000 = Some (n, st', c', t')"
    "\<And>v. v div gW (base_ghost 1024) = barrier_start (pt_cursor base_cursor) div gW (base_ghost 1024) \<Longrightarrow>
      page_walk user_pt_config st' 0x1000 v = (if va (pt_cursor base_cursor) \<le> v \<and> v < va (pt_cursor base_cursor) + 0x1000
        then Some None else page_walk user_pt_config mapped_st 0x1000 v)"
    "tlb_coherent (base_ghost 1024) st' 0x1000 (barrier_start (pt_cursor base_cursor)) (held (finish_flush t'))"
    using vm_unmap_coherent [OF base_pt.page_table_axioms base_ghost_sel(7) stray late.tlb_flush_axioms mapped_wf cw ok len room coh
      demo_tlb_local] by blast
  have w: "page_walk user_pt_config st' 0x1000 0x3abc = Some None"
    using r(2) [of "0x3abc"] by (simp add: base_cursor_def demo_cursor_def base_gsz gsz_vals)
  then have "held (finish_flush t') 0x3abc = {}" using r(3) by (force simp: tlb_coherent_def base_cursor_def demo_cursor_def base_gsz gsz_vals)
  then show ?thesis using r(1) w by blast
qed

text \<open>C5: \<open>map\<close> replaces a mapping and leaves no stale translation once its flush is through.  On an address space of base pages
  whose entries in the TLBs are not global, for a frame and property that the entry can hold, \<open>map\<close> returns, the page at the cursor
  translates to the frame, and every other address keeps its translation.  Whether or not something was mapped there, if the
  translations in the TLBs with no flush on its way agreed with the page table before, then those agree with the new one, and after a
  \<open>sync_tlb_flush\<close> everything that the TLBs hold does.\<close>

theorem vm_map_coherent:
  assumes "page_table user_pt_config G env" "no_huge G" "tlb_flush dispatch sync"
    "pt_wf user_pt_config G st pos root" "cursor_wf G pos (pt_cursor c)" "ops_ok (flusher c)"
    "leaf_ok G frame 1 prop" "va (pt_cursor c) < barrier_end (pt_cursor c)"
    "card (dom st) + NR_LEVELS \<le> g_nodes G"
    "tlb_coherent G st root (barrier_start (pt_cursor c)) (settled t)" "tlb_local G (barrier_start (pt_cursor c)) (settled t)"
  shows "\<exists>st' c' t' pos'. vm_map env dispatch st c t frame prop = Some (st', c', t') \<and>
    pt_wf user_pt_config G st' pos' root \<and> cursor_wf G pos' (pt_cursor c') \<and> ops_ok (flusher c') \<and>
    (\<forall>v. v div gW G = barrier_start (pt_cursor c) div gW G \<longrightarrow> page_walk user_pt_config st' root v =
       (if va (pt_cursor c) \<le> v \<and> v < va (pt_cursor c) + PAGE_SIZE then Some (Some (frame + (v - va (pt_cursor c)), prop))
        else page_walk user_pt_config st root v)) \<and>
    tlb_coherent G st' root (barrier_start (pt_cursor c)) (settled t') \<and>
    tlb_coherent G st' root (barrier_start (pt_cursor c)) (held (sync t'))"
proof -
  let ?pc = "pt_cursor c" and ?W = "page_walk user_pt_config st root"
  let ?item = "\<lparr>uframe = frame, uprop = prop\<rparr>" and ?e = "va (pt_cursor c) + PAGE_SIZE"
  have cc: "cursor_core G pos ?pc" using assms(5) by (simp add: cursor_wf_def)
  have k: "2 ^ g_k G = PAGE_SIZE" "gsz G 1 = PAGE_SIZE"
    using page_table.gsz_exp [OF assms(1), of 1] page_table.base_page [OF assms(1)] by simp_all
  have al: "PAGE_SIZE dvd va ?pc" "PAGE_SIZE dvd barrier_end ?pc" using cc k(1) by (simp_all add: cursor_core_def)
  have fit: "?e \<le> barrier_end ?pc" by (rule aligned_gap [OF al assms(8)])
  have lv: "1 \<le> guard_level ?pc" "level ?pc \<le> NR_LEVELS" using cc by (simp_all add: cursor_core_def)
  have win: "va ?pc div gW G = barrier_start ?pc div gW G"
    using barrier_window [OF cc _ assms(8)] cc by (simp add: cursor_core_def)
  have room: "card (dom st) + (level ?pc - 1) \<le> g_nodes G" using assms(9) lv(2) by simp
  obtain r st' pc' pos' where M: "cursor_map user_pt_config env st ?pc ?item = Some (r, st', pc')"
    "pt_wf user_pt_config G st' pos' root" "cursor_wf G pos' pc'"
    "frag_ok user_pt_config G ?W 1 (va ?pc) (case r of Inl f \<Rightarrow> Some f | Inr u \<Rightarrow> None)"
    "\<And>v. v div gW G = barrier_start ?pc div gW G \<Longrightarrow> page_walk user_pt_config st' root v =
       (if va ?pc \<le> v \<and> v < ?e then Some (Some (frame + (v - va ?pc), prop)) else ?W v)"
    using page_table.cursor_map_ok [OF assms(1,4,5), of "?item" "frame" 1 "prop"] assms(7) room lv fit al k win
    by (auto simp: user_item_into_raw_def map_level_def x86_paging_def)
  have slot: "va ?pc \<le> v \<and> v < ?e \<longleftrightarrow> v div PAGE_SIZE = va ?pc div PAGE_SIZE" for v
    using in_slot_iff [of G 1 "va ?pc" v] slot_base_aligned [of G 1 "va ?pc"] al k by simp
  have coh: "tlb_coherent G st' root (barrier_start ?pc) (settled t')"
    if t': "\<And>v x. v div gW G = barrier_start ?pc div gW G \<Longrightarrow> x \<in> settled t' v \<Longrightarrow> x \<in> settled t v"
      "\<And>v. v div gW G = barrier_start ?pc div gW G \<Longrightarrow> v div PAGE_SIZE = va ?pc div PAGE_SIZE \<Longrightarrow> settled t' v = {}" for t'
    unfolding tlb_coherent_def
  proof (intro allI impI)
    fix v x
    assume v: "v div gW G = barrier_start ?pc div gW G" and x: "x \<in> settled t' v"
    then have "?W v = Some (Some x)" using assms(10) t'(1) unfolding tlb_coherent_def by blast
    then show "page_walk user_pt_config st' root v = Some (Some x)" using M(5) [OF v] slot [of v] t'(2) [OF v] x by auto
  qed
  note synced = tlb_coherent_mono [OF _ tlb_flush.sync_completes [OF assms(3)]]
  show ?thesis
  proof (cases r)
    case (Inr u)
    have "settled t v = {}" if "v div gW G = barrier_start ?pc div gW G" "v div PAGE_SIZE = va ?pc div PAGE_SIZE" for v
    proof -
      have "?W v = Some None" using M(4) Inr that k by (simp add: frag_ok_def)
      then show ?thesis using assms(10) that(1) unfolding tlb_coherent_def by fastforce
    qed
    then have "tlb_coherent G st' root (barrier_start ?pc) (settled t)" by (intro coh) simp_all
    moreover have "vm_map env dispatch st c t frame prop = Some (st', c\<lparr>pt_cursor := pc'\<rparr>, t)"
      using M(1) Inr by (simp add: vm_map_def)
    ultimately show ?thesis using M(2,3,5) assms(6) synced
      by (intro exI [of _ st'] exI [of _ "c\<lparr>pt_cursor := pc'\<rparr>"] exI [of _ t] exI [of _ pos']) simp
  next
    case (Inl f)
    then obtain v i where f: "f = Mapped v i" using M(4) by (cases f) (simp_all add: frag_ok_def)
    obtain k' where k': "ops_push (FlushAddress (va ?pc)) (flusher c) = Some k'" "ops_ok k'"
      "\<forall>v. stack_covers (flusher c) v False \<or> op_covers (FlushAddress (va ?pc)) v False \<longrightarrow> stack_covers k' v False"
      using ops_push_local [OF assms(6)] by blast
    obtain k'' t' where d: "dispatch k' t = (k'', t')" by fastforce
    note a = tlb_flush.after_dispatch [OF assms(3) d]
    have "settled t' v = {}" if "v div gW G = barrier_start ?pc div gW G" "v div PAGE_SIZE = va ?pc div PAGE_SIZE" for v
    proof -
      have "stack_covers k' v False" using k'(3) that(2) by simp
      then show ?thesis using a [of _ v] assms(11) that(1) unfolding tlb_local_def by fastforce
    qed
    then have "tlb_coherent G st' root (barrier_start ?pc) (settled t')" by (intro coh) (use a(1) in auto)
    moreover have "vm_map env dispatch st c t frame prop = Some (st', c\<lparr>pt_cursor := pc', flusher := k''\<rparr>, t')"
      using M(1) Inl f k'(1) d by (simp add: vm_map_def)
    moreover have "ops_ok k''" by (rule tlb_flush.dispatch_stack [OF assms(3) d k'(2)])
    ultimately show ?thesis using M(2,3,5) synced
      by (intro exI [of _ st'] exI [of _ "c\<lparr>pt_cursor := pc', flusher := k''\<rparr>"] exI [of _ t'] exI [of _ pos']) simp
  qed
qed


theorem vm_map_coherent_witness:
  "\<exists>st' c' t'. vm_map (pool_env 1024) post_flush mapped_st base_cursor demo_tlb 0x9000 demo_prop = Some (st', c', t') \<and>
    page_walk user_pt_config st' 0x1000 0x3abc = Some (Some (0x9abc, demo_prop)) \<and> held (finish_flush t') 0x3abc \<subseteq> {(0x9abc, demo_prop)}"
proof -
  have cw: "cursor_wf (base_ghost 1024) mapped_pos (pt_cursor base_cursor)" by (rule base_cursor_wf) (simp add: mapped_pos_def)
  have ok: "ops_ok (flusher base_cursor)" by (simp add: base_cursor_def ops_new_ok)
  have lt: "va (pt_cursor base_cursor) < barrier_end (pt_cursor base_cursor)" by (simp add: base_cursor_def demo_cursor_def)
  have coh: "tlb_coherent (base_ghost 1024) mapped_st 0x1000 (barrier_start (pt_cursor base_cursor)) (settled demo_tlb)"
    using mapped_walk by (simp add: tlb_coherent_def settled_def)
  have room: "card (dom mapped_st) + NR_LEVELS \<le> g_nodes (base_ghost 1024)" by (simp add: mapped_dom NR_LEVELS_def)
  have leaf: "leaf_ok (base_ghost 1024) 0x9000 1 demo_prop" using base_leaf by (simp add: leaf_ok_def base_gsz gsz_vals flip: One_nat_def)
  obtain st' c' t' where r: "vm_map (pool_env 1024) post_flush mapped_st base_cursor demo_tlb 0x9000 demo_prop = Some (st', c', t')"
    "\<And>v. v div gW (base_ghost 1024) = barrier_start (pt_cursor base_cursor) div gW (base_ghost 1024) \<Longrightarrow>
      page_walk user_pt_config st' 0x1000 v = (if va (pt_cursor base_cursor) \<le> v \<and> v < va (pt_cursor base_cursor) + PAGE_SIZE
        then Some (Some (0x9000 + (v - va (pt_cursor base_cursor)), demo_prop)) else page_walk user_pt_config mapped_st 0x1000 v)"
    "tlb_coherent (base_ghost 1024) st' 0x1000 (barrier_start (pt_cursor base_cursor)) (held (finish_flush t'))"
    using vm_map_coherent [OF base_pt.page_table_axioms base_ghost_sel(7) late.tlb_flush_axioms mapped_wf cw ok leaf
      lt room coh demo_tlb_local] by blast
  have w: "page_walk user_pt_config st' 0x1000 0x3abc = Some (Some (0x9abc, demo_prop))"
    using r(2) [of "0x3abc"] by (simp add: base_cursor_def demo_cursor_def base_gsz gsz_vals PAGE_SIZE_def)
  then have "held (finish_flush t') 0x3abc \<subseteq> {(0x9abc, demo_prop)}"
    using r(3) by (force simp: tlb_coherent_def base_cursor_def demo_cursor_def base_gsz gsz_vals)
  then show ?thesis using r(1) w by blast
qed

end
