(* ===== verification/Frame_Segment.thy ===== *)
theory Frame_Segment
  imports Frame_Meta Vm_Io
begin

text \<open>
  Contiguous ranges of frames: \<open>src/ostd/src/mm/frame/segment.rs\<close>, with the accessors of \<open>Frame\<close> that it uses from
  \<open>src/ostd/src/mm/frame/mod.rs\<close> and the readers and writers of \<open>src/ostd/src/mm/frame/untyped.rs\<close>.

  A segment is a range of physical addresses that stands for one forgotten handle on each of its frames.  The calls
  work on the metadata slots of \<open>Frame_Meta\<close>, one call after the other; a call that finds a reference count at its
  limit aborts the kernel, \<open>None\<close>.
\<close>

section \<open>Frames by address\<close>

definition frame_from_raw :: "Paddr \<Rightarrow> Vaddr option" where
  "frame_from_raw paddr = frame_to_meta paddr"

definition frame_start_paddr :: "Vaddr \<Rightarrow> Paddr option" where
  "frame_start_paddr slot = meta_to_frame slot"

definition inc_frame_ref_count :: "Paddr \<Rightarrow> 'm slots \<Rightarrow> 'm slots option" where
  "inc_frame_ref_count paddr R = do {
     slot \<leftarrow> frame_to_meta paddr;
     (case inc_ref_count (ref_count (R slot)) of (aborts, rc) \<Rightarrow>
       if aborts then None
       else Some (R(slot := (R slot)\<lparr>ref_count := rc, slot_acts := add_mset Shared (slot_acts (R slot))\<rparr>)))
   }"

definition frame_drop :: "Vaddr \<Rightarrow> 'm slots \<Rightarrow> 'm slots option" where
  "frame_drop slot R = (case frame_drop_dec (ref_count (R slot)) of (is_last, rc) \<Rightarrow>
     let s = (R slot)\<lparr>ref_count := rc, slot_acts := slot_acts (R slot) - {#Shared#}\<rparr> in
     if is_last then do {
       s' \<leftarrow> drop_meta_in_place s;
       Some (R(slot := s'\<lparr>ref_count := drop_last_release\<rparr>))
     }
     else Some (R(slot := s)))"

section \<open>Segments\<close>

record Segment =
  seg_start :: Paddr
  seg_end :: Paddr

text \<open>The loops of the code that step through a range of frames: the body at \<open>paddr\<close>, then \<open>paddr += PAGE_SIZE\<close>.\<close>

function for_pages :: "(Paddr \<Rightarrow> 's \<Rightarrow> 's option) \<Rightarrow> Paddr \<Rightarrow> Paddr \<Rightarrow> 's \<Rightarrow> 's option" where
  "for_pages body paddr end' s = (
     if paddr \<ge> end' then Some s
     else do {
       s1 \<leftarrow> body paddr s;
       paddr' \<leftarrow> uadd paddr PAGE_SIZE;
       for_pages body paddr' end' s1
     })"
  by pat_completeness auto
termination
  by (relation "measure (\<lambda>(body, paddr, end', s). end' - paddr)") (auto simp: uadd_eq_Some PAGE_SIZE_def)

declare for_pages.simps [simp del]

definition drop_at :: "Paddr \<Rightarrow> 'm slots \<Rightarrow> 'm slots option" where
  "drop_at p R = do {
     frame \<leftarrow> frame_from_raw p;
     frame_drop frame R
   }"

definition segment_clone :: "Segment \<Rightarrow> 'm slots \<Rightarrow> (Segment \<times> 'm slots) option" where
  "segment_clone self R = do {
     R1 \<leftarrow> for_pages inc_frame_ref_count (seg_start self) (seg_end self) R;
     Some (\<lparr>seg_start = seg_start self, seg_end = seg_end self\<rparr>, R1)
   }"

text \<open>\<open>from_unused\<close>: \<open>n\<close> rounds of its loop.\<close>

primrec from_unused_loop ::
    "nat \<Rightarrow> Paddr \<Rightarrow> Paddr \<Rightarrow> (Paddr \<Rightarrow> Paddr \<times> 'm) \<Rightarrow> usize \<Rightarrow> Segment \<Rightarrow> 'm slots \<Rightarrow>
     ((GetFrameError + Segment) \<times> 'm slots) option" where
  "from_unused_loop 0 max_paddr start metadata_fn i segment R = Some (Inr segment, R)"
| "from_unused_loop (Suc n) max_paddr start metadata_fn i segment R = do {
     offset \<leftarrow> umul i PAGE_SIZE;
     paddr_in \<leftarrow> uadd start offset;
     (case metadata_fn paddr_in of (paddr, meta) \<Rightarrow> do {
       (res, R1) \<leftarrow> frame_from_unused max_paddr paddr meta R;
       (case res of
         Inl e \<Rightarrow> do {
           R2 \<leftarrow> for_pages drop_at start (seg_end segment) R1;
           Some (Inl e, R2)
         }
       | Inr frame \<Rightarrow> do {
           e' \<leftarrow> uadd paddr PAGE_SIZE;
           i' \<leftarrow> uadd i 1;
           from_unused_loop n max_paddr start metadata_fn i' (segment\<lparr>seg_end := e'\<rparr>) R1
         })
     })
   }"

definition segment_from_unused ::
    "Paddr \<Rightarrow> Paddr \<times> Paddr \<Rightarrow> (Paddr \<Rightarrow> Paddr \<times> 'm) \<Rightarrow> 'm slots \<Rightarrow> ((GetFrameError + Segment) \<times> 'm slots) option" where
  "segment_from_unused max_paddr rng metadata_fn R = (case rng of (start, end') \<Rightarrow>
     if start mod PAGE_SIZE \<noteq> 0 \<or> end' mod PAGE_SIZE \<noteq> 0 then Some (Inl NotAligned, R)
     else if end' > MAX_PADDR then Some (Inl OutOfBound, R)
     else do {
       rassert (start < end');
       from_unused_loop ((end' - start) div PAGE_SIZE) max_paddr start metadata_fn 0 \<lparr>seg_start = start, seg_end = start\<rparr> R
     })"

definition segment_from_raw :: "Paddr \<times> Paddr \<Rightarrow> Segment" where
  "segment_from_raw rng = \<lparr>seg_start = fst rng, seg_end = snd rng\<rparr>"

definition segment_into_raw :: "Segment \<Rightarrow> Paddr \<times> Paddr" where
  "segment_into_raw self = (seg_start self, seg_end self)"

definition segment_size :: "Segment \<Rightarrow> usize option" where
  "segment_size self = usub (seg_end self) (seg_start self)"

definition segment_split :: "Segment \<Rightarrow> usize \<Rightarrow> (Segment \<times> Segment) option" where
  "segment_split self offset = do {
     rassert (offset mod PAGE_SIZE = 0);
     n \<leftarrow> segment_size self;
     rassert (0 < offset \<and> offset < n);
     at \<leftarrow> uadd (seg_start self) offset;
     Some (\<lparr>seg_start = seg_start self, seg_end = at\<rparr>, \<lparr>seg_start = at, seg_end = seg_end self\<rparr>)
   }"

definition segment_slice :: "Segment \<Rightarrow> usize \<times> usize \<Rightarrow> 'm slots \<Rightarrow> (Segment \<times> 'm slots) option" where
  "segment_slice self rng R = do {
     rassert (fst rng mod PAGE_SIZE = 0 \<and> snd rng mod PAGE_SIZE = 0);
     n \<leftarrow> segment_size self;
     rassert (fst rng \<le> snd rng \<and> snd rng \<le> n);
     start \<leftarrow> uadd (seg_start self) (fst rng);
     end' \<leftarrow> uadd (seg_start self) (snd rng);
     R1 \<leftarrow> for_pages inc_frame_ref_count start end' R;
     Some (\<lparr>seg_start = start, seg_end = end'\<rparr>, R1)
   }"

definition segment_from_frame :: "Vaddr \<Rightarrow> Segment option" where
  "segment_from_frame frame = do {
     pa \<leftarrow> frame_start_paddr frame;
     e \<leftarrow> uadd pa PAGE_SIZE;
     Some \<lparr>seg_start = pa, seg_end = e\<rparr>
   }"

definition segment_next :: "Segment \<Rightarrow> (Vaddr option \<times> Segment) option" where
  "segment_next self = (
     if seg_start self < seg_end self then do {
       frame \<leftarrow> frame_from_raw (seg_start self);
       s \<leftarrow> uadd (seg_start self) PAGE_SIZE;
       Some (Some frame, self\<lparr>seg_start := s\<rparr>)
     }
     else Some (None, self))"

definition segment_drop :: "Segment \<Rightarrow> 'm slots \<Rightarrow> 'm slots option" where
  "segment_drop self R = for_pages drop_at (seg_start self) (seg_end self) R"

text \<open>The memory of an untyped segment, through the linear mapping.\<close>

definition segment_reader :: "Segment \<Rightarrow> VmReader option" where
  "segment_reader self = do {
     v \<leftarrow> paddr_to_vaddr (seg_start self);
     len \<leftarrow> segment_size self;
     Some (reader_from_kernel_space \<lparr>ptr_vaddr = v\<rparr> len)
   }"

definition segment_writer :: "Segment \<Rightarrow> VmWriter option" where
  "segment_writer self = do {
     v \<leftarrow> paddr_to_vaddr (seg_start self);
     len \<leftarrow> segment_size self;
     Some (writer_from_kernel_space \<lparr>ptr_vaddr = v\<rparr> len)
   }"

section \<open>Handles\<close>

text \<open>The state between calls, as the number of shared handles on each slot: every slot is in a reachable state of its
  life cycle and nothing is in flight.  A slot with no shared handle is unused or exclusively owned.\<close>

definition rest :: "'m slots \<Rightarrow> (Vaddr \<Rightarrow> nat) \<Rightarrow> bool" where
  "rest R h \<longleftrightarrow> (\<forall>v. slot_reachable (R v) \<and>
     (slot_acts (R v) = replicate_mset (h v) Shared \<or> h v = 0 \<and> slot_acts (R v) = {#Exclusive#}))"

lemma rest_upd:
  "rest R h \<Longrightarrow> slot_reachable s \<Longrightarrow> slot_acts s = replicate_mset n Shared \<Longrightarrow> rest (R(v := s)) (h(v := n))"
  by (auto simp: rest_def)

lemma rest_run: "slot_reachable s \<Longrightarrow> slot_step\<^sup>*\<^sup>* s s' \<Longrightarrow> slot_reachable s'"
  unfolding slot_reachable_def by (rule rtranclp_trans)

lemma rest_count:
  assumes "rest R h" "h v > 0"
  shows "slot_acts (R v) = replicate_mset (h v) Shared \<and> ref_count (R v) = h v \<and> h v \<le> REF_COUNT_MAX \<and> storage (R v) \<noteq> None"
proof -
  have acts: "slot_acts (R v) = replicate_mset (h v) Shared" and r: "slot_reachable (R v)"
    using assms by (auto simp: rest_def)
  have live: "live (R v) = replicate_mset (h v) Shared"
    using acts by (simp add: live_def filter_mset_eq_conv)
  have "Shared \<in># live (R v)" using live assms(2) by simp
  then obtain n k where n: "n < REF_COUNT_MAX" "ref_count (R v) = Suc (n + k)" "storage (R v) \<noteq> None"
    "live (R v) = replicate_mset (Suc n) Shared + replicate_mset k Aborting"
    using phase_shared [OF slot_invD(1) [OF slot_reachable_inv [OF r]]] by metis
  have "count (live (R v)) Aborting = 0" "count (live (R v)) Shared = h v" using live by simp_all
  then have "k = 0" "Suc n = h v" using n(4) by (simp_all split: if_splits)
  then show ?thesis using n acts by simp
qed

lemma rest_none:
  assumes "rest R h" "h v = 0"
  shows "slot_acts (R v) = {#} \<and> ref_count (R v) = REF_COUNT_UNUSED \<and> storage (R v) = None \<or>
    slot_acts (R v) = {#Exclusive#} \<and> ref_count (R v) = REF_COUNT_UNIQUE"
proof -
  have "slot_acts (R v) = replicate_mset (h v) Shared \<or> slot_acts (R v) = {#Exclusive#}" and r: "slot_reachable (R v)"
    using assms(1) by (auto simp: rest_def)
  then have "slot_acts (R v) = {#} \<or> slot_acts (R v) = {#Exclusive#}" using assms(2) by simp
  then show ?thesis
  proof
    assume a: "slot_acts (R v) = {#}"
    then have "live (R v) = {#}" by (simp add: live_def)
    then show ?thesis using phase_empty slot_invD(1) [OF slot_reachable_inv [OF r]] a by fastforce
  next
    assume "slot_acts (R v) = {#Exclusive#}"
    then show ?thesis using slot_invD(1) [OF slot_reachable_inv [OF r]] by (simp add: live_def phase_simps)
  qed
qed

text \<open>The calls on one frame.\<close>

lemma inc_frame_ref_count_rest:
  assumes "rest R h" "frame_to_meta p = Some v" "0 < h v" "h v < REF_COUNT_MAX"
  shows "\<exists>R'. inc_frame_ref_count p R = Some R' \<and> rest R' (h(v := h v + 1))"
proof -
  note c = rest_count [OF assms(1,3)]
  have inc: "inc_ref_count (ref_count (R v)) = (False, h v + 1)"
    using c assms(4) by (simp add: inc_ref_count_def ref_consts)
  let ?s = "(R v)\<lparr>ref_count := h v + 1, slot_acts := add_mset Shared (slot_acts (R v))\<rparr>"
  have "slot_step (R v) ?s"
    using slot_step.clone [of "R v" False "h v + 1"] c inc assms(3) by (simp add: MAX_CLONERS_def)
  then have "slot_reachable ?s" using assms(1) by (auto simp: rest_def intro: slot_reachable_step)
  moreover have "slot_acts ?s = replicate_mset (h v + 1) Shared" using c by simp
  ultimately have "rest (R(v := ?s)) (h(v := h v + 1))" using rest_upd [OF assms(1)] by blast
  moreover have "inc_frame_ref_count p R = Some (R(v := ?s))"
    using assms(2) inc by (simp add: inc_frame_ref_count_def)
  ultimately show ?thesis by blast
qed

lemma frame_drop_run:
  assumes "Shared \<in># slot_acts (R v)" "frame_drop v R = Some R'"
  shows "slot_step\<^sup>*\<^sup>* (R v) (R' v)" "R' = R(v := R' v)"
proof -
  obtain is_last rc where d: "frame_drop_dec (ref_count (R v)) = (is_last, rc)" by fastforce
  note st = slot_step.drop [OF assms(1) d]
  show "R' = R(v := R' v)" using assms(2) d
    by (auto simp: frame_drop_def Let_def bind_eq_Some_conv split: if_splits)
  show "slot_step\<^sup>*\<^sup>* (R v) (R' v)"
  proof (cases is_last)
    case False
    then show ?thesis using assms(2) d st by (auto simp: frame_drop_def swap_act_def)
  next
    case True
    let ?s1 = "swap_act Shared {#LastDrop#} ((R v)\<lparr>ref_count := rc\<rparr>)"
    obtain m where m: "storage (R v) = Some m"
      using assms(2) d True by (cases "storage (R v)") (simp_all add: frame_drop_def Let_def drop_meta_in_place_def)
    let ?s2 = "(swap_act LastDrop {#Cleared#} ?s1)\<lparr>storage := None, dropped := dropped (R v) @ [m]\<rparr>"
    have "slot_step (R v) ?s1" using st True by simp
    moreover have "slot_step ?s1 ?s2" using m by (intro slot_step.drop_meta) (simp_all add: drop_meta_in_place_def)
    moreover have "R' v = swap_act Cleared {#} (?s2\<lparr>ref_count := drop_last_release\<rparr>)"
      by (rule slot_sys.equality) (use assms(2) d True m in \<open>auto simp: frame_drop_def Let_def drop_meta_in_place_def\<close>)
    then have "slot_step ?s2 (R' v)" using slot_step.release [of ?s2] by simp
    ultimately show ?thesis by (meson converse_rtranclp_into_rtranclp rtranclp.rtrancl_refl)
  qed
qed

lemma frame_drop_rest:
  assumes "rest R h" "0 < h v"
  shows "\<exists>R'. frame_drop v R = Some R' \<and> rest R' (h(v := h v - 1))"
proof -
  note c = rest_count [OF assms]
  have "frame_drop v R \<noteq> None"
    using c by (auto simp: frame_drop_def Let_def frame_drop_dec_def drop_meta_in_place_def)
  then obtain R' where d: "frame_drop v R = Some R'" by blast
  have mem: "Shared \<in># slot_acts (R v)" using c assms(2) by simp
  have "slot_reachable (R' v)" using frame_drop_run(1) [OF mem d] assms(1) by (auto simp: rest_def intro: rest_run)
  moreover have "slot_acts (R' v) = replicate_mset (h v - 1) Shared"
  proof -
    have "slot_acts (R' v) = slot_acts (R v) - {#Shared#}"
      using d by (auto simp: frame_drop_def Let_def frame_drop_dec_def drop_meta_in_place_def bind_eq_Some_conv
          split: if_splits option.splits)
    then show ?thesis using c assms(2) by (cases "h v") simp_all
  qed
  ultimately have "rest (R(v := R' v)) (h(v := h v - 1))" using rest_upd [OF assms(1)] by blast
  then show ?thesis using d frame_drop_run(2) [OF mem d] by auto
qed

lemma frame_from_unused_rest:
  assumes "rest R h" "get_slot max_paddr p = Some (Inr v)"
  obtains (ok) R' where "ref_count (R v) = REF_COUNT_UNUSED" "frame_from_unused max_paddr p m R = Some (Inr v, R')"
      "rest R' (h(v := 1))" "h v = 0" "\<forall>u. u \<noteq> v \<longrightarrow> R' u = R u"
    | (err) e where "ref_count (R v) \<noteq> REF_COUNT_UNUSED" "frame_from_unused max_paddr p m R = Some (Inl e, R)"
proof (cases "ref_count (R v) = REF_COUNT_UNUSED")
  case False
  then show ?thesis using assms(2) err by (auto simp: frame_from_unused_def get_from_unused_def get_from_unused_claim_def)
next
  case True
  let ?s = "(write_meta m (R v))\<lparr>ref_count := 1, slot_acts := add_mset Shared (slot_acts (R v))\<rparr>"
  have call: "get_from_unused max_paddr p m False R = Some (Inr v, R(v := ?s))"
    using True assms(2) by (simp add: get_from_unused_def get_from_unused_claim_def get_from_unused_publish_def)
  have h: "h v = 0" using rest_count [OF assms(1), of v] True by (cases "h v") (auto simp: ref_consts)
  have "slot_reachable ?s"
    using get_from_unused_run [OF call, of v] assms(1) by (auto simp: rest_def intro: rest_run)
  moreover have "slot_acts ?s = replicate_mset 1 Shared"
    using rest_none [OF assms(1) h] True by (auto simp: ref_consts)
  ultimately have "rest (R(v := ?s)) (h(v := 1))" using rest_upd [OF assms(1)] by blast
  then show ?thesis using ok True call h by (simp add: frame_from_unused_def)
qed

section \<open>Ranges of frames\<close>

definition meta_of :: "Paddr \<Rightarrow> Vaddr" where
  "meta_of p = FRAME_METADATA_BASE_VADDR + p div PAGE_SIZE * META_SLOT_SIZE"

definition seg_pages :: "Paddr \<Rightarrow> Paddr \<Rightarrow> Paddr set" where
  "seg_pages a b = {p. PAGE_SIZE dvd p \<and> a \<le> p \<and> p < b}"

definition seg_slots :: "Segment \<Rightarrow> Vaddr set" where
  "seg_slots seg = meta_of ` seg_pages (seg_start seg) (seg_end seg)"

definition seg_wf :: "Segment \<Rightarrow> bool" where
  "seg_wf seg \<longleftrightarrow> PAGE_SIZE dvd seg_start seg \<and> PAGE_SIZE dvd seg_end seg \<and> seg_start seg \<le> seg_end seg \<and> seg_end seg \<le> MAX_PADDR"

text \<open>One handle more, or one less, on each slot of a set.\<close>

definition plus_on :: "Vaddr set \<Rightarrow> (Vaddr \<Rightarrow> nat) \<Rightarrow> Vaddr \<Rightarrow> nat" where
  "plus_on A h = (\<lambda>v. if v \<in> A then h v + 1 else h v)"

definition minus_on :: "Vaddr set \<Rightarrow> (Vaddr \<Rightarrow> nat) \<Rightarrow> Vaddr \<Rightarrow> nat" where
  "minus_on A h = (\<lambda>v. if v \<in> A then h v - 1 else h v)"

lemma plus_minus [simp]: "minus_on A (plus_on A h) = h"
  by (auto simp: plus_on_def minus_on_def)

lemma plus_on_mem: "v \<in> A \<Longrightarrow> plus_on A h v = h v + 1"
  by (simp add: plus_on_def)

lemma plus_on_empty [simp]: "plus_on {} h = h" "minus_on {} h = h"
  by (simp_all add: plus_on_def minus_on_def)

lemma plus_on_insert: "v \<notin> A \<Longrightarrow> plus_on (insert v A) h = (plus_on A h)(v := h v + 1)"
  "v \<notin> A \<Longrightarrow> minus_on (insert v A) h = (minus_on A h)(v := h v - 1)"
  by (auto simp: plus_on_def minus_on_def)

lemma frame_to_meta_valid: "p \<le> MAX_PADDR \<Longrightarrow> frame_to_meta p = Some (meta_of p)"
  by (simp add: frame_to_meta_def meta_of_def umul_def uadd_def layout_defs META_SLOT_SIZE_def USIZE_MAX_def)

lemma meta_of_inj [simp]: "PAGE_SIZE dvd p \<Longrightarrow> PAGE_SIZE dvd q \<Longrightarrow> meta_of p = meta_of q \<longleftrightarrow> p = q"
  by (auto simp: meta_of_def META_SLOT_SIZE_def PAGE_SIZE_def dvd_def)

lemma seg_pages_empty [simp]: "b \<le> a \<Longrightarrow> seg_pages a b = {}"
  by (auto simp: seg_pages_def)

lemma seg_pages_last:
  assumes "PAGE_SIZE dvd a" "PAGE_SIZE dvd p" "a \<le> p"
  shows "seg_pages a (p + PAGE_SIZE) = insert p (seg_pages a p)"
proof -
  have "q = p" if "PAGE_SIZE dvd q" "p \<le> q" "q < p + PAGE_SIZE" for q
  proof -
    have "PAGE_SIZE dvd q - p" using that(1) assms(2) by (rule dvd_diff_nat)
    moreover have "q - p < PAGE_SIZE" using that by simp
    ultimately show ?thesis using that(2) by (auto dest: nat_dvd_not_less)
  qed
  then show ?thesis using assms by (force simp: seg_pages_def)
qed

lemma seg_pages_cut: "a \<le> c \<Longrightarrow> c \<le> b \<Longrightarrow> seg_pages a c \<union> seg_pages c b = seg_pages a b"
  by (auto simp: seg_pages_def)

lemma seg_pages_first:
  assumes "PAGE_SIZE dvd a" "a < b"
  shows "seg_pages a b = insert a (seg_pages (a + PAGE_SIZE) b)"
  using assms seg_pages_last [of a a] by (force simp: seg_pages_def)

text \<open>A loop over the frames of a range keeps what each round keeps, and ends.\<close>

lemma for_pages_rule:
  assumes step: "\<And>p s. PAGE_SIZE dvd p \<Longrightarrow> a \<le> p \<Longrightarrow> p < e \<Longrightarrow> P p s \<Longrightarrow> \<exists>s'. body p s = Some s' \<and> P (p + PAGE_SIZE) s'"
    and "PAGE_SIZE dvd p" "PAGE_SIZE dvd e" "a \<le> p" "p \<le> e" "e \<le> USIZE_MAX" "P p s"
  shows "\<exists>s'. for_pages body p e s = Some s' \<and> P e s'"
  using assms(2,4-)
proof (induction "e - p" arbitrary: p s rule: less_induct)
  case less
  show ?case
  proof (cases "p < e")
    case False
    then show ?thesis using less.prems by (simp add: for_pages.simps)
  next
    case True
    have "PAGE_SIZE dvd e - p" using less.prems(1) assms(3) by simp
    then have fits: "p + PAGE_SIZE \<le> e" using True by (auto dest: dvd_imp_le)
    obtain s' where s': "body p s = Some s'" "P (p + PAGE_SIZE) s'" using step less.prems True by blast
    have "\<exists>s''. for_pages body (p + PAGE_SIZE) e s' = Some s'' \<and> P e s''"
      using less.prems fits s'(2) True by (intro less.hyps) (simp_all add: PAGE_SIZE_def)
    then show ?thesis using True s'(1) fits less.prems(4) by (simp add: for_pages.simps [of body p] uadd_def)
  qed
qed

lemma inc_pages:
  assumes "rest R h" "PAGE_SIZE dvd a" "PAGE_SIZE dvd e" "a \<le> e" "e \<le> MAX_PADDR"
    and "\<forall>v \<in> meta_of ` seg_pages a e. 0 < h v \<and> h v < REF_COUNT_MAX"
  shows "\<exists>R'. for_pages inc_frame_ref_count a e R = Some R' \<and> rest R' (plus_on (meta_of ` seg_pages a e) h)"
proof (rule for_pages_rule [where P = "\<lambda>p R. rest R (plus_on (meta_of ` seg_pages a p) h)" and a = a])
  fix p s
  assume p: "PAGE_SIZE dvd p" "a \<le> p" "p < e" and r: "rest s (plus_on (meta_of ` seg_pages a p) h)"
  have new: "meta_of p \<notin> meta_of ` seg_pages a p" using p by (auto simp: seg_pages_def)
  have "p \<in> seg_pages a e" using p by (simp add: seg_pages_def)
  then have h: "0 < h (meta_of p)" "h (meta_of p) < REF_COUNT_MAX" using assms(6) by auto
  show "\<exists>s'. inc_frame_ref_count p s = Some s' \<and> rest s' (plus_on (meta_of ` seg_pages a (p + PAGE_SIZE)) h)"
    using inc_frame_ref_count_rest [OF r frame_to_meta_valid, of p] p assms(2,5) h new
    by (simp add: seg_pages_last plus_on_insert) (simp add: plus_on_def)
qed (use assms in \<open>simp_all add: MAX_PADDR_def USIZE_MAX_def\<close>)

lemma drop_pages:
  assumes "rest R h" "PAGE_SIZE dvd a" "PAGE_SIZE dvd e" "a \<le> e" "e \<le> MAX_PADDR"
    and "\<forall>v \<in> meta_of ` seg_pages a e. 0 < h v"
  shows "\<exists>R'. for_pages drop_at a e R = Some R' \<and> rest R' (minus_on (meta_of ` seg_pages a e) h)"
proof (rule for_pages_rule [where P = "\<lambda>p R. rest R (minus_on (meta_of ` seg_pages a p) h)" and a = a])
  fix p s
  assume p: "PAGE_SIZE dvd p" "a \<le> p" "p < e" and r: "rest s (minus_on (meta_of ` seg_pages a p) h)"
  have new: "meta_of p \<notin> meta_of ` seg_pages a p" using p by (auto simp: seg_pages_def)
  have "p \<in> seg_pages a e" using p by (simp add: seg_pages_def)
  then have h: "0 < h (meta_of p)" using assms(6) by auto
  show "\<exists>s'. drop_at p s = Some s' \<and> rest s' (minus_on (meta_of ` seg_pages a (p + PAGE_SIZE)) h)"
    using frame_drop_rest [OF r, of "meta_of p"] p assms(2,5) h new
    by (simp add: seg_pages_last plus_on_insert drop_at_def frame_from_raw_def frame_to_meta_valid) (simp add: minus_on_def)
qed (use assms in \<open>simp_all add: MAX_PADDR_def USIZE_MAX_def\<close>)

section \<open>Creating a segment\<close>

definition page_free :: "Paddr \<Rightarrow> 'm slots \<Rightarrow> Paddr \<Rightarrow> bool" where
  "page_free max_paddr R p \<longleftrightarrow> p < max_paddr \<and> ref_count (R (meta_of p)) = REF_COUNT_UNUSED"

lemma frame_from_unused_page:
  assumes "rest R h" "PAGE_SIZE dvd p" "p \<le> MAX_PADDR"
  obtains (ok) R' where "page_free max_paddr R p" "frame_from_unused max_paddr p m R = Some (Inr (meta_of p), R')"
      "rest R' (h(meta_of p := h (meta_of p) + 1))" "\<forall>u. u \<noteq> meta_of p \<longrightarrow> R' u = R u"
    | (err) e where "\<not> page_free max_paddr R p" "frame_from_unused max_paddr p m R = Some (Inl e, R)"
proof (cases "p < max_paddr")
  case False
  then have "frame_from_unused max_paddr p m R = Some (Inl OutOfBound, R)"
    using assms(2) by (simp add: frame_from_unused_def get_from_unused_def get_slot_def)
  then show ?thesis using err False by (simp add: page_free_def)
next
  case True
  then have "get_slot max_paddr p = Some (Inr (meta_of p))"
    using assms(2,3) by (simp add: get_slot_def frame_to_meta_valid)
  with assms(1) show ?thesis
  proof (rule frame_from_unused_rest [where m = m])
    fix R' assume "ref_count (R (meta_of p)) = REF_COUNT_UNUSED"
      "frame_from_unused max_paddr p m R = Some (Inr (meta_of p), R')" "rest R' (h(meta_of p := 1))"
      "h (meta_of p) = 0" "\<forall>u. u \<noteq> meta_of p \<longrightarrow> R' u = R u"
    then show ?thesis using True by (intro ok) (simp_all add: page_free_def)
  next
    fix e assume "ref_count (R (meta_of p)) \<noteq> REF_COUNT_UNUSED" "frame_from_unused max_paddr p m R = Some (Inl e, R)"
    then show ?thesis using err by (simp add: page_free_def)
  qed
qed

lemma from_unused_loop_spec:
  fixes R :: "'m slots" and start end' :: Paddr
  assumes "\<forall>p. fst (metadata_fn p) = p" "PAGE_SIZE dvd start" "end' = start + (i + n) * PAGE_SIZE" "end' \<le> MAX_PADDR"
    and "rest R (plus_on (meta_of ` seg_pages start (start + i * PAGE_SIZE)) h)"
  shows "\<exists>res R'. from_unused_loop n max_paddr start metadata_fn i \<lparr>seg_start = start, seg_end = start + i * PAGE_SIZE\<rparr> R = Some (res, R') \<and>
    (case res of
       Inr seg \<Rightarrow> seg = \<lparr>seg_start = start, seg_end = end'\<rparr> \<and> rest R' (plus_on (seg_slots seg) h) \<and>
         (\<forall>p \<in> seg_pages (start + i * PAGE_SIZE) end'. page_free max_paddr R p)
     | Inl e \<Rightarrow> rest R' h \<and> \<not> (\<forall>p \<in> seg_pages (start + i * PAGE_SIZE) end'. page_free max_paddr R p))"
  using assms(3,5)
proof (induction n arbitrary: i R)
  case 0
  then show ?case by (simp add: seg_slots_def)
next
  case (Suc n)
  define p where "p = start + i * PAGE_SIZE"
  define h' where "h' = plus_on (meta_of ` seg_pages start p) h"
  have pd: "PAGE_SIZE dvd p" and pe: "p + PAGE_SIZE \<le> end'" and sp: "start \<le> p"
    using assms(2) Suc.prems(1) by (simp_all add: p_def algebra_simps)
  have small: "umul i PAGE_SIZE = Some (i * PAGE_SIZE)" "uadd start (i * PAGE_SIZE) = Some p" "uadd p PAGE_SIZE = Some (p + PAGE_SIZE)"
    "uadd i 1 = Some (i + 1)"
    using pe assms(4) by (simp_all add: p_def umul_def uadd_def MAX_PADDR_def USIZE_MAX_def PAGE_SIZE_def)
  obtain m where m: "metadata_fn p = (p, m)" using assms(1) by (metis prod.collapse)
  have r: "rest R h'" using Suc.prems(2) by (simp add: h'_def p_def)
  have first: "seg_pages p end' = insert p (seg_pages (p + PAGE_SIZE) end')"
    using pd pe by (intro seg_pages_first) (simp_all add: PAGE_SIZE_def)
  have pm: "p \<le> MAX_PADDR" using pe assms(4) by simp
  have new: "meta_of p \<notin> meta_of ` seg_pages start p" using pd by (auto simp: seg_pages_def)
  show ?case
  proof (rule frame_from_unused_page [OF r pd pm, where max_paddr = max_paddr and m = m])
    fix R1
    assume free: "page_free max_paddr R p" and call: "frame_from_unused max_paddr p m R = Some (Inr (meta_of p), R1)"
      and r1: "rest R1 (h'(meta_of p := h' (meta_of p) + 1))" and keep: "\<forall>u. u \<noteq> meta_of p \<longrightarrow> R1 u = R u"
    have nxt: "start + (i + 1) * PAGE_SIZE = p + PAGE_SIZE" by (simp add: p_def)
    have "h'(meta_of p := h' (meta_of p) + 1) = plus_on (meta_of ` seg_pages start (p + PAGE_SIZE)) h"
      using new assms(2) pd sp by (simp add: seg_pages_last plus_on_insert h'_def) (simp add: plus_on_def)
    then have r1': "rest R1 (plus_on (meta_of ` seg_pages start (start + (i + 1) * PAGE_SIZE)) h)"
      using r1 unfolding nxt by simp
    have same: "page_free max_paddr R1 q = page_free max_paddr R q" if "q \<in> seg_pages (p + PAGE_SIZE) end'" for q
    proof -
      have "meta_of q \<noteq> meta_of p" using that pd by (auto simp: seg_pages_def PAGE_SIZE_def)
      then show ?thesis using keep by (simp add: page_free_def)
    qed
    have eq: "from_unused_loop (Suc n) max_paddr start metadata_fn i \<lparr>seg_start = start, seg_end = start + i * PAGE_SIZE\<rparr> R =
        from_unused_loop n max_paddr start metadata_fn (i + 1) \<lparr>seg_start = start, seg_end = start + (i + 1) * PAGE_SIZE\<rparr> R1"
      unfolding nxt using small m call by (simp flip: p_def)
    have e': "end' = start + (i + 1 + n) * PAGE_SIZE" using Suc.prems(1) by simp
    have all: "(\<forall>q \<in> seg_pages p end'. page_free max_paddr R q) \<longleftrightarrow> (\<forall>q \<in> seg_pages (p + PAGE_SIZE) end'. page_free max_paddr R1 q)"
      unfolding first using free same by auto
    show ?thesis
      using Suc.IH [OF e' r1'] unfolding eq [symmetric] unfolding nxt p_def [symmetric] all by blast
  next
    fix e
    assume free: "\<not> page_free max_paddr R p" and call: "frame_from_unused max_paddr p m R = Some (Inl e, R)"
    have "\<forall>v \<in> meta_of ` seg_pages start p. 0 < h' v" by (simp add: h'_def plus_on_def)
    then obtain R2 where R2: "for_pages drop_at start p R = Some R2" "rest R2 (minus_on (meta_of ` seg_pages start p) h')"
      using drop_pages [OF r assms(2) pd sp pm] by blast
    have "from_unused_loop (Suc n) max_paddr start metadata_fn i \<lparr>seg_start = start, seg_end = start + i * PAGE_SIZE\<rparr> R = Some (Inl e, R2)"
      using small m call R2(1) by (simp flip: p_def)
    then show ?thesis using R2(2) free first by (simp add: h'_def flip: p_def)
  qed
qed

section \<open>Properties\<close>

lemma segment_size_wf [simp]: "seg_wf seg \<Longrightarrow> segment_size seg = Some (seg_end seg - seg_start seg)"
  by (simp add: segment_size_def seg_wf_def usub_def)

lemma seg_wf_bounds: "seg_wf seg \<Longrightarrow> seg_end seg \<le> USIZE_MAX"
  by (simp add: seg_wf_def MAX_PADDR_def USIZE_MAX_def)

lemma segment_drop_rest:
  assumes "rest R h" "seg_wf seg" "\<forall>v \<in> seg_slots seg. 0 < h v"
  shows "\<exists>R'. segment_drop seg R = Some R' \<and> rest R' (minus_on (seg_slots seg) h)"
  using drop_pages [OF assms(1), of "seg_start seg" "seg_end seg"] assms(2,3)
  by (simp add: segment_drop_def seg_slots_def seg_wf_def)

lemma segment_clone_rest:
  assumes "rest R h" "seg_wf seg" "\<forall>v \<in> seg_slots seg. 0 < h v \<and> h v < REF_COUNT_MAX"
  shows "\<exists>R'. segment_clone seg R = Some (seg, R') \<and> rest R' (plus_on (seg_slots seg) h)"
  using inc_pages [OF assms(1), of "seg_start seg" "seg_end seg"] assms(2,3)
  by (auto simp: segment_clone_def seg_slots_def seg_wf_def)

lemma segment_slice_rest:
  assumes "rest R h" "seg_wf seg" "\<forall>v \<in> seg_slots seg. 0 < h v \<and> h v < REF_COUNT_MAX"
    and "PAGE_SIZE dvd a" "PAGE_SIZE dvd b" "a \<le> b" "seg_start seg + b \<le> seg_end seg"
  shows "\<exists>sub R'. segment_slice seg (a, b) R = Some (sub, R') \<and> seg_wf sub \<and> seg_slots sub \<subseteq> seg_slots seg \<and>
    rest R' (plus_on (seg_slots sub) h)"
proof -
  define sub where "sub = \<lparr>seg_start = seg_start seg + a, seg_end = seg_start seg + b\<rparr>"
  have sub: "seg_wf sub" "seg_slots sub \<subseteq> seg_slots seg"
    using assms by (auto simp: seg_wf_def sub_def seg_slots_def seg_pages_def)
  have "\<exists>R'. for_pages inc_frame_ref_count (seg_start sub) (seg_end sub) R = Some R' \<and> rest R' (plus_on (seg_slots sub) h)"
    unfolding seg_slots_def using sub assms(3) by (intro inc_pages [OF assms(1)]) (auto simp: seg_wf_def seg_slots_def)
  then obtain R' where R': "for_pages inc_frame_ref_count (seg_start sub) (seg_end sub) R = Some R'" "rest R' (plus_on (seg_slots sub) h)"
    by blast
  have "uadd (seg_start seg) a = Some (seg_start sub)" "uadd (seg_start seg) b = Some (seg_end sub)"
    using assms(6,7) seg_wf_bounds [OF assms(2)] by (simp_all add: uadd_def sub_def)
  moreover have "b \<le> seg_end seg - seg_start seg" using assms(7) by simp
  ultimately have "segment_slice seg (a, b) R = Some (sub, R')"
    using assms R'(1) by (simp add: segment_slice_def sub_def)
  then show ?thesis using sub R'(2) by blast
qed

text \<open>C11: \<open>Segment::from_unused\<close> is all or nothing.  For a valid range it returns; it succeeds exactly when every frame of the
  range is unused, and then the segment holds one handle on each of them; otherwise every frame has the handles it had
  before, the frames that were already taken having been released again.\<close>

theorem segment_from_unused_all_or_nothing:
  fixes R :: "'m slots"
  assumes "rest R h" "\<forall>p. fst (metadata_fn p) = p" "PAGE_SIZE dvd start" "PAGE_SIZE dvd end'" "start < end'" "end' \<le> MAX_PADDR"
  shows "\<exists>res R'. segment_from_unused max_paddr (start, end') metadata_fn R = Some (res, R') \<and>
    (case res of
       Inr seg \<Rightarrow> seg = \<lparr>seg_start = start, seg_end = end'\<rparr> \<and> rest R' (plus_on (seg_slots seg) h) \<and>
         (\<forall>p \<in> seg_pages start end'. page_free max_paddr R p)
     | Inl e \<Rightarrow> rest R' h \<and> \<not> (\<forall>p \<in> seg_pages start end'. page_free max_paddr R p))"
proof -
  have "PAGE_SIZE dvd end' - start" using assms(3,4) by simp
  then have "end' = start + (0 + (end' - start) div PAGE_SIZE) * PAGE_SIZE" using assms(5) by simp
  from from_unused_loop_spec [OF assms(2,3) this assms(6), where R = R and h = h and max_paddr = max_paddr] assms show ?thesis
    by (simp add: segment_from_unused_def dvd_eq_mod_eq_0 cong: sum.case_cong)
qed

definition fresh_slots :: "nat slots" where
  "fresh_slots = (\<lambda>_. slot_init)"

lemma rest_fresh: "rest fresh_slots (\<lambda>_. 0)"
  using slot_reachable_init by (auto simp: rest_def fresh_slots_def slot_init_def)

theorem segment_from_unused_all_or_nothing_witness:
  "\<exists>res R'. segment_from_unused MAX_PADDR (4096, 12288) (\<lambda>p. (p, 7)) fresh_slots = Some (res, R') \<and>
    (case res of
       Inr seg \<Rightarrow> seg = \<lparr>seg_start = 4096, seg_end = 12288\<rparr> \<and> rest R' (plus_on (seg_slots seg) (\<lambda>_. 0)) \<and>
         (\<forall>p \<in> seg_pages 4096 12288. page_free MAX_PADDR fresh_slots p)
     | Inl e \<Rightarrow> rest R' (\<lambda>_. 0) \<and> \<not> (\<forall>p \<in> seg_pages 4096 12288. page_free MAX_PADDR fresh_slots p))"
  by (rule segment_from_unused_all_or_nothing [OF rest_fresh]) (simp_all add: PAGE_SIZE_def MAX_PADDR_def)

text \<open>C10: A segment is one handle on each of its frames.  Dropping a segment gives back exactly one handle per frame, and the
  frames whose last handle it was become unused; cloning a segment and slicing it take exactly one more on each frame of the
  result, and dropping the clone restores the counts; splitting partitions the handles; iterating hands them out one by one.\<close>

theorem segment_handles_counted:
  fixes R :: "'m slots"
  assumes "rest R h" "seg_wf seg" "\<forall>v \<in> seg_slots seg. 0 < h v \<and> h v < REF_COUNT_MAX"
    and "PAGE_SIZE dvd a" "PAGE_SIZE dvd b" "0 < a" "a \<le> b" "seg_start seg + b \<le> seg_end seg" "seg_start seg + a < seg_end seg"
  shows "(\<exists>R'. segment_drop seg R = Some R' \<and> rest R' (minus_on (seg_slots seg) h)) \<and>
    (\<exists>R1 R2. segment_clone seg R = Some (seg, R1) \<and> rest R1 (plus_on (seg_slots seg) h) \<and>
       segment_drop seg R1 = Some R2 \<and> rest R2 h) \<and>
    (\<exists>sub R'. segment_slice seg (a, b) R = Some (sub, R') \<and> seg_wf sub \<and> seg_slots sub \<subseteq> seg_slots seg \<and>
       rest R' (plus_on (seg_slots sub) h)) \<and>
    (\<exists>l r. segment_split seg a = Some (l, r) \<and> seg_wf l \<and> seg_wf r \<and>
       seg_slots l \<union> seg_slots r = seg_slots seg \<and> seg_slots l \<inter> seg_slots r = {}) \<and>
    (\<exists>v tail. segment_next seg = Some (Some v, tail) \<and> seg_wf tail \<and>
       seg_slots seg = insert v (seg_slots tail) \<and> v \<notin> seg_slots tail)"
proof (intro conjI)
  show "\<exists>R'. segment_drop seg R = Some R' \<and> rest R' (minus_on (seg_slots seg) h)"
    using assms(1-3) by (intro segment_drop_rest) auto
  obtain R1 where R1: "segment_clone seg R = Some (seg, R1)" "rest R1 (plus_on (seg_slots seg) h)"
    using segment_clone_rest [OF assms(1-3)] by blast
  then show "\<exists>R1 R2. segment_clone seg R = Some (seg, R1) \<and> rest R1 (plus_on (seg_slots seg) h) \<and>
      segment_drop seg R1 = Some R2 \<and> rest R2 h"
    using segment_drop_rest [OF R1(2) assms(2)] by (force simp: plus_on_mem)
  show "\<exists>sub R'. segment_slice seg (a, b) R = Some (sub, R') \<and> seg_wf sub \<and> seg_slots sub \<subseteq> seg_slots seg \<and>
      rest R' (plus_on (seg_slots sub) h)"
    using assms by (intro segment_slice_rest) auto
  let ?l = "\<lparr>seg_start = seg_start seg, seg_end = seg_start seg + a\<rparr>"
  let ?r = "\<lparr>seg_start = seg_start seg + a, seg_end = seg_end seg\<rparr>"
  have "a < seg_end seg - seg_start seg" using assms(9) by simp
  then have "segment_split seg a = Some (?l, ?r)"
    using assms seg_wf_bounds [OF assms(2)] by (auto simp: segment_split_def uadd_def)
  moreover have "seg_wf ?l" "seg_wf ?r" using assms by (auto simp: seg_wf_def)
  moreover have "seg_slots ?l \<union> seg_slots ?r = seg_slots seg"
    using assms(9) seg_pages_cut [of "seg_start seg" "seg_start seg + a" "seg_end seg"] by (simp add: seg_slots_def flip: image_Un)
  moreover have "seg_slots ?l \<inter> seg_slots ?r = {}"
    by (auto simp: seg_slots_def seg_pages_def)
  ultimately show "\<exists>l r. segment_split seg a = Some (l, r) \<and> seg_wf l \<and> seg_wf r \<and>
      seg_slots l \<union> seg_slots r = seg_slots seg \<and> seg_slots l \<inter> seg_slots r = {}" by blast
  let ?t = "seg\<lparr>seg_start := seg_start seg + PAGE_SIZE\<rparr>"
  have wf: "PAGE_SIZE dvd seg_start seg" "PAGE_SIZE dvd seg_end seg" "seg_start seg < seg_end seg" "seg_end seg \<le> MAX_PADDR"
    using assms(2,9) by (auto simp: seg_wf_def)
  have le: "seg_start seg + PAGE_SIZE \<le> seg_end seg"
    using dvd_imp_le [of PAGE_SIZE "seg_end seg - seg_start seg"] wf by simp
  have "segment_next seg = Some (Some (meta_of (seg_start seg)), ?t)"
    using wf le seg_wf_bounds [OF assms(2)] by (simp add: segment_next_def frame_from_raw_def frame_to_meta_valid uadd_def)
  moreover have "seg_wf ?t" using wf le by (simp add: seg_wf_def)
  moreover have "seg_slots seg = insert (meta_of (seg_start seg)) (seg_slots ?t)"
    using seg_pages_first [OF wf(1,3)] by (simp add: seg_slots_def)
  moreover have "meta_of (seg_start seg) \<notin> seg_slots ?t"
    using wf(1) by (auto simp: seg_slots_def seg_pages_def PAGE_SIZE_def)
  ultimately show "\<exists>v tail. segment_next seg = Some (Some v, tail) \<and> seg_wf tail \<and>
      seg_slots seg = insert v (seg_slots tail) \<and> v \<notin> seg_slots tail" by blast
qed

definition one_slots :: "nat slots" where
  "one_slots = (\<lambda>_. shared_frame 7)"

lemma rest_one: "rest one_slots (\<lambda>_. 1)"
  using shared_frame_reachable by (auto simp: rest_def one_slots_def shared_frame_def)

theorem segment_handles_counted_witness:
  "\<exists>R1 R2. segment_clone \<lparr>seg_start = 4096, seg_end = 16384\<rparr> one_slots = Some (\<lparr>seg_start = 4096, seg_end = 16384\<rparr>, R1) \<and>
     segment_drop \<lparr>seg_start = 4096, seg_end = 16384\<rparr> R1 = Some R2 \<and> rest R2 (\<lambda>_. 1)"
  using segment_handles_counted [OF rest_one, of "\<lparr>seg_start = 4096, seg_end = 16384\<rparr>" 4096 8192]
  by (auto simp: seg_wf_def PAGE_SIZE_def MAX_PADDR_def REF_COUNT_MAX_def)

end
