(* ===== verification/Dma.thy ===== *)
theory Dma
  imports Frame_Segment
begin

text \<open>
  Memory shared with devices: \<open>src/ostd/src/mm/dma/mod.rs\<close>, \<open>dma_coherent.rs\<close> and \<open>dma_stream.rs\<close>.  A mapping
  wraps a segment of untyped frames; its bytes are reached through the linear mapping.  \<open>RwArc::read\<close> hands out the
  inner value.  \<open>dma_type\<close> has no body in the sources and is an argument, as are the copies that may fault.
\<close>

section \<open>The set of mapped frames\<close>

datatype DmaType = DmaDirect | DmaIommu
datatype DmaError = DmaInvalidArgs | AlreadyMapped
datatype DmaDirection = ToDevice | FromDevice | Bidirectional

text \<open>\<open>DMA_MAPPING_SET\<close>: \<open>None\<close> before \<open>init\<close>.\<close>

type_synonym dma_set = "Paddr set option"

definition dma_init :: "dma_set \<Rightarrow> dma_set" where
  "dma_init s = (case s of None \<Rightarrow> Some {} | Some x \<Rightarrow> Some x)"

text \<open>The two loops of \<open>check_and_insert_dma_mapping\<close>, \<open>n\<close> rounds from round \<open>i\<close> on.  The statement that inserts is a
  comment in the source: the second loop only computes the address.\<close>

primrec dma_any_mapped :: "nat \<Rightarrow> nat \<Rightarrow> Paddr \<Rightarrow> Paddr set \<Rightarrow> bool option" where
  "dma_any_mapped 0 i start_paddr S = Some False"
| "dma_any_mapped (Suc n) i start_paddr S = do {
     o' \<leftarrow> umul i PAGE_SIZE;
     paddr \<leftarrow> uadd start_paddr o';
     if paddr \<in> S then Some True else dma_any_mapped n (i + 1) start_paddr S
   }"

primrec dma_page_loop :: "nat \<Rightarrow> nat \<Rightarrow> Paddr \<Rightarrow> unit option" where
  "dma_page_loop 0 i start_paddr = Some ()"
| "dma_page_loop (Suc n) i start_paddr = do {
     o' \<leftarrow> umul i PAGE_SIZE;
     paddr \<leftarrow> uadd start_paddr o';
     dma_page_loop n (i + 1) start_paddr
   }"

definition check_and_insert_dma_mapping :: "Paddr \<Rightarrow> usize \<Rightarrow> dma_set \<Rightarrow> (bool \<times> dma_set) option" where
  "check_and_insert_dma_mapping start_paddr num_pages s = (case s of
     None \<Rightarrow> Some (False, s)
   | Some mapping_set \<Rightarrow> do {
       found \<leftarrow> dma_any_mapped num_pages 0 start_paddr mapping_set;
       if found then Some (False, s)
       else do {
         dma_page_loop num_pages 0 start_paddr;
         Some (True, Some mapping_set)
       }
     })"

section \<open>Accesses at an offset\<close>

text \<open>The common body of the \<open>read\<close> and \<open>write\<close> methods below, after the reader or writer of the object is made.\<close>

definition io_read_from ::
    "raw_memcpy \<Rightarrow> VmReader \<Rightarrow> usize \<Rightarrow> VmWriter \<Rightarrow> mem \<Rightarrow> ((Error + unit) \<times> VmWriter \<times> mem) option" where
  "io_read_from cp reader offset writer m = do {
     remain_before_skip \<leftarrow> remain reader;
     if offset > remain_before_skip then Some (Inl InvalidArgs, writer, m)
     else do {
       len \<leftarrow> avail writer;
       if remain_before_skip - offset < len then Some (Inl InvalidArgs, writer, m)
       else if len = 0 then Some (Inr (), writer, m)
       else do {
         r \<leftarrow> reader_skip reader offset;
         (res, _, w1, m1) \<leftarrow> read_fallible cp r writer m;
         (case res of
           Inr _ \<Rightarrow> Some (Inr (), w1, m1)
         | Inl (err, n) \<Rightarrow> do {
             c \<leftarrow> vp_sub (wr_cursor w1) n;
             Some (Inl err, w1\<lparr>wr_cursor := c\<rparr>, m1)
           })
       }
     }
   }"

definition io_write_to ::
    "raw_memcpy \<Rightarrow> VmWriter \<Rightarrow> usize \<Rightarrow> VmReader \<Rightarrow> mem \<Rightarrow> ((Error + unit) \<times> VmReader \<times> mem) option" where
  "io_write_to cp writer offset reader m = do {
     avail_before_skip \<leftarrow> avail writer;
     if offset > avail_before_skip then Some (Inl InvalidArgs, reader, m)
     else do {
       len \<leftarrow> remain reader;
       if avail_before_skip - offset < len then Some (Inl InvalidArgs, reader, m)
       else if len = 0 then Some (Inr (), reader, m)
       else do {
         w \<leftarrow> writer_skip writer offset;
         (res, _, r1, m1) \<leftarrow> write_fallible cp w reader m;
         (case res of
           Inr _ \<Rightarrow> Some (Inr (), r1, m1)
         | Inl (err, n) \<Rightarrow> do {
             c \<leftarrow> vp_sub (rd_cursor r1) n;
             Some (Inl err, r1\<lparr>rd_cursor := c\<rparr>, m1)
           })
       }
     }
   }"

section \<open>Coherent mappings\<close>

record DmaCoherent =
  dc_segment :: Segment
  dc_start_daddr :: usize
  dc_is_cache_coherent :: bool

definition coherent_map ::
    "DmaType \<Rightarrow> Segment \<Rightarrow> bool \<Rightarrow> dma_set \<Rightarrow> ((DmaError + DmaCoherent) \<times> dma_set) option" where
  "coherent_map dma_type segment is_cache_coherent s = do {
     n \<leftarrow> segment_size segment;
     let start_paddr = seg_start segment;
     let frame_count = n div PAGE_SIZE;
     (ok, s1) \<leftarrow> check_and_insert_dma_mapping start_paddr frame_count s;
     if \<not> ok then Some (Inl AlreadyMapped, s1)
     else do {
       start_daddr \<leftarrow> (case dma_type of
           DmaDirect \<Rightarrow> Some start_paddr
         | DmaIommu \<Rightarrow> do { dma_page_loop frame_count 0 start_paddr; Some start_paddr });
       Some (Inr \<lparr>dc_segment = segment, dc_start_daddr = start_daddr, dc_is_cache_coherent = is_cache_coherent\<rparr>, s1)
     }
   }"

definition coherent_daddr :: "DmaCoherent \<Rightarrow> usize" where
  "coherent_daddr self = dc_start_daddr self"

definition coherent_paddr :: "DmaCoherent \<Rightarrow> Paddr" where
  "coherent_paddr self = seg_start (dc_segment self)"

definition coherent_nbytes :: "DmaCoherent \<Rightarrow> usize option" where
  "coherent_nbytes self = segment_size (dc_segment self)"

definition coherent_nframes :: "DmaCoherent \<Rightarrow> usize option" where
  "coherent_nframes self = do { n \<leftarrow> segment_size (dc_segment self); Some (n div PAGE_SIZE) }"

definition coherent_reader :: "DmaCoherent \<Rightarrow> VmReader option" where
  "coherent_reader self = do {
     v \<leftarrow> paddr_to_vaddr (seg_start (dc_segment self));
     len \<leftarrow> segment_size (dc_segment self);
     Some (reader_from_kernel_space \<lparr>ptr_vaddr = v\<rparr> len)
   }"

definition coherent_writer :: "DmaCoherent \<Rightarrow> VmWriter option" where
  "coherent_writer self = do {
     v \<leftarrow> paddr_to_vaddr (seg_start (dc_segment self));
     len \<leftarrow> segment_size (dc_segment self);
     Some (writer_from_kernel_space \<lparr>ptr_vaddr = v\<rparr> len)
   }"

definition coherent_read :: "raw_memcpy \<Rightarrow> DmaCoherent \<Rightarrow> io_read" where
  "coherent_read cp self offset writer m = do {
     reader \<leftarrow> coherent_reader self;
     io_read_from cp reader offset writer m
   }"

definition coherent_write :: "raw_memcpy \<Rightarrow> DmaCoherent \<Rightarrow> io_write" where
  "coherent_write cp self offset reader m = do {
     writer \<leftarrow> coherent_writer self;
     io_write_to cp writer offset reader m
   }"

definition coherent_read_once :: "pod_ty \<Rightarrow> DmaCoherent \<Rightarrow> usize \<Rightarrow> mem \<Rightarrow> (Error + 8 word list) option" where
  "coherent_read_once T self offset m = do {
     r \<leftarrow> coherent_reader self;
     r1 \<leftarrow> reader_skip r offset;
     (res, _) \<leftarrow> read_once T r1 m;
     Some res
   }"

definition coherent_write_once :: "pod_ty \<Rightarrow> DmaCoherent \<Rightarrow> usize \<Rightarrow> 8 word list \<Rightarrow> mem \<Rightarrow> ((Error + unit) \<times> mem) option" where
  "coherent_write_once T self offset new_val m = do {
     w \<leftarrow> coherent_writer self;
     w1 \<leftarrow> writer_skip w offset;
     (res, _, m1) \<leftarrow> write_once T w1 new_val m;
     Some (res, m1)
   }"

section \<open>Streaming mappings\<close>

record DmaStream =
  ds_segment :: Segment
  ds_start_daddr :: usize
  ds_is_cache_coherent :: bool
  ds_direction :: DmaDirection

definition stream_map ::
    "DmaType \<Rightarrow> Segment \<Rightarrow> DmaDirection \<Rightarrow> bool \<Rightarrow> dma_set \<Rightarrow> ((DmaError + DmaStream) \<times> dma_set) option" where
  "stream_map dma_type segment direction is_cache_coherent s = do {
     n \<leftarrow> segment_size segment;
     let start_paddr = seg_start segment;
     let frame_count = n div PAGE_SIZE;
     (ok, s1) \<leftarrow> check_and_insert_dma_mapping start_paddr frame_count s;
     if \<not> ok then Some (Inl AlreadyMapped, s1)
     else do {
       start_daddr \<leftarrow> (case dma_type of
           DmaDirect \<Rightarrow> Some start_paddr
         | DmaIommu \<Rightarrow> do { dma_page_loop frame_count 0 start_paddr; Some start_paddr });
       Some (Inr \<lparr>ds_segment = segment, ds_start_daddr = start_daddr, ds_is_cache_coherent = is_cache_coherent,
                  ds_direction = direction\<rparr>, s1)
     }
   }"

definition stream_daddr :: "DmaStream \<Rightarrow> usize" where
  "stream_daddr self = ds_start_daddr self"

definition stream_direction :: "DmaStream \<Rightarrow> DmaDirection" where
  "stream_direction self = ds_direction self"

definition stream_paddr :: "DmaStream \<Rightarrow> Paddr" where
  "stream_paddr self = seg_start (ds_segment self)"

definition stream_nbytes :: "DmaStream \<Rightarrow> usize option" where
  "stream_nbytes self = segment_size (ds_segment self)"

definition stream_nframes :: "DmaStream \<Rightarrow> usize option" where
  "stream_nframes self = do { n \<leftarrow> segment_size (ds_segment self); Some (n div PAGE_SIZE) }"

definition stream_sync :: "DmaStream \<Rightarrow> usize \<times> usize \<Rightarrow> Error + unit" where
  "stream_sync self byte_range = Inr ()"

definition stream_reader_inner :: "DmaStream \<Rightarrow> VmReader option" where
  "stream_reader_inner self = do {
     v \<leftarrow> paddr_to_vaddr (seg_start (ds_segment self));
     len \<leftarrow> segment_size (ds_segment self);
     Some (reader_from_kernel_space \<lparr>ptr_vaddr = v\<rparr> len)
   }"

definition stream_writer_inner :: "DmaStream \<Rightarrow> VmWriter option" where
  "stream_writer_inner self = do {
     v \<leftarrow> paddr_to_vaddr (seg_start (ds_segment self));
     len \<leftarrow> segment_size (ds_segment self);
     Some (writer_from_kernel_space \<lparr>ptr_vaddr = v\<rparr> len)
   }"

definition stream_reader :: "DmaStream \<Rightarrow> (Error + VmReader) option" where
  "stream_reader self = (
     if ds_direction self = ToDevice then Some (Inl AccessDenied)
     else map_option Inr (stream_reader_inner self))"

definition stream_writer :: "DmaStream \<Rightarrow> (Error + VmWriter) option" where
  "stream_writer self = (
     if ds_direction self = FromDevice then Some (Inl AccessDenied)
     else map_option Inr (stream_writer_inner self))"

definition stream_read :: "raw_memcpy \<Rightarrow> DmaStream \<Rightarrow> io_read" where
  "stream_read cp self offset writer m = (
     if ds_direction self = ToDevice then Some (Inl AccessDenied, writer, m)
     else do {
       reader \<leftarrow> stream_reader_inner self;
       io_read_from cp reader offset writer m
     })"

definition stream_write :: "raw_memcpy \<Rightarrow> DmaStream \<Rightarrow> io_write" where
  "stream_write cp self offset reader m = (
     if ds_direction self = FromDevice then Some (Inl AccessDenied, reader, m)
     else do {
       writer \<leftarrow> stream_writer_inner self;
       io_write_to cp writer offset reader m
     })"

text \<open>\<open>read_inner_vmio\<close> and \<open>write_inner_vmio\<close>, which have no caller, only check.\<close>

definition read_inner_vmio :: "DmaStream \<Rightarrow> usize \<Rightarrow> VmWriter \<Rightarrow> (Error + unit) option" where
  "read_inner_vmio this offset writer = (
     if ds_direction this = ToDevice then Some (Inl AccessDenied)
     else case usub (seg_end (ds_segment this)) (seg_start (ds_segment this)) of
       None \<Rightarrow> Some (Inl InvalidArgs)
     | Some n \<Rightarrow> (case usub n offset of
         None \<Rightarrow> Some (Inl InvalidArgs)
       | Some k \<Rightarrow> do { a \<leftarrow> avail writer; if k \<ge> a then Some (Inl InvalidArgs) else Some (Inl InvalidArgs) }))"

definition write_inner_vmio :: "DmaStream \<Rightarrow> usize \<Rightarrow> VmReader \<Rightarrow> (Error + unit) option" where
  "write_inner_vmio this offset reader = (
     if ds_direction this = FromDevice then Some (Inl AccessDenied)
     else case usub (seg_end (ds_segment this)) (seg_start (ds_segment this)) of
       None \<Rightarrow> Some (Inl InvalidArgs)
     | Some n \<Rightarrow> (case usub n offset of
         None \<Rightarrow> Some (Inl InvalidArgs)
       | Some k \<Rightarrow> do { a \<leftarrow> remain reader; if k \<ge> a then Some (Inl InvalidArgs) else Some (Inl InvalidArgs) }))"

section \<open>Slices of a streaming mapping\<close>

record DmaStreamSlice =
  sl_stream :: DmaStream
  sl_offset :: usize
  sl_len :: usize

text \<open>The bounds assertions of \<open>new\<close> are a comment in the source.\<close>

definition slice_new :: "DmaStream \<Rightarrow> usize \<Rightarrow> usize \<Rightarrow> DmaStreamSlice" where
  "slice_new stream offset len = \<lparr>sl_stream = stream, sl_offset = offset, sl_len = len\<rparr>"

definition slice_sync :: "DmaStreamSlice \<Rightarrow> (Error + unit) option" where
  "slice_sync self = do {
     e \<leftarrow> uadd (sl_offset self) (sl_len self);
     Some (stream_sync (sl_stream self) (sl_offset self, e))
   }"

definition slice_daddr :: "DmaStreamSlice \<Rightarrow> usize option" where
  "slice_daddr self = uadd (stream_daddr (sl_stream self)) (sl_offset self)"

definition slice_reader :: "DmaStreamSlice \<Rightarrow> (Error + VmReader) option" where
  "slice_reader self = (
     if ds_direction (sl_stream self) = ToDevice then Some (Inl AccessDenied)
     else case uadd (sl_offset self) (sl_len self) of
       None \<Rightarrow> Some (Inl InvalidArgs)
     | Some e \<Rightarrow> do {
         n \<leftarrow> segment_size (ds_segment (sl_stream self));
         if e > n then Some (Inl InvalidArgs)
         else do {
           base_vaddr \<leftarrow> paddr_to_vaddr (seg_start (ds_segment (sl_stream self)));
           (case uadd base_vaddr (sl_offset self) of
             None \<Rightarrow> Some (Inl InvalidArgs)
           | Some v \<Rightarrow> (case uadd v (sl_len self) of
               None \<Rightarrow> Some (Inl InvalidArgs)
             | Some _ \<Rightarrow> Some (Inr (reader_from_kernel_space \<lparr>ptr_vaddr = v\<rparr> (sl_len self)))))
         }
       })"

definition slice_writer :: "DmaStreamSlice \<Rightarrow> (Error + VmWriter) option" where
  "slice_writer self = (
     if ds_direction (sl_stream self) = FromDevice then Some (Inl AccessDenied)
     else case uadd (sl_offset self) (sl_len self) of
       None \<Rightarrow> Some (Inl InvalidArgs)
     | Some e \<Rightarrow> do {
         n \<leftarrow> segment_size (ds_segment (sl_stream self));
         if e > n then Some (Inl InvalidArgs)
         else do {
           base_vaddr \<leftarrow> paddr_to_vaddr (seg_start (ds_segment (sl_stream self)));
           (case uadd base_vaddr (sl_offset self) of
             None \<Rightarrow> Some (Inl InvalidArgs)
           | Some v \<Rightarrow> (case uadd v (sl_len self) of
               None \<Rightarrow> Some (Inl InvalidArgs)
             | Some _ \<Rightarrow> Some (Inr (writer_from_kernel_space \<lparr>ptr_vaddr = v\<rparr> (sl_len self)))))
         }
       })"

definition slice_read :: "raw_memcpy \<Rightarrow> DmaStreamSlice \<Rightarrow> io_read" where
  "slice_read cp self offset writer m = do {
     res \<leftarrow> slice_reader self;
     (case res of
       Inl err \<Rightarrow> Some (Inl err, writer, m)
     | Inr reader \<Rightarrow> io_read_from cp reader offset writer m)
   }"

definition slice_write :: "raw_memcpy \<Rightarrow> DmaStreamSlice \<Rightarrow> io_write" where
  "slice_write cp self offset reader m = do {
     res \<leftarrow> slice_writer self;
     (case res of
       Inl err \<Rightarrow> Some (Inl err, reader, m)
     | Inr writer \<Rightarrow> io_write_to cp writer offset reader m)
   }"

section \<open>The accesses meet the contract of memory objects\<close>

lemma copied_none: "m = copied m a b 0"
  by simp

context fallible_mem
begin

lemma io_read_from_law:
  assumes "rd_wf r" "wr_wf w" "apart (ptr_vaddr (rd_cursor r)) (rd_len r) (ptr_vaddr (wr_cursor w)) (wr_len w)"
  shows "\<exists>res w' m'. io_read_from cp r offset w m = Some (res, w', m') \<and> (case res of
      Inr _ \<Rightarrow> offset + wr_len w \<le> rd_len r \<and> w' = wr_advance (wr_len w) w \<and>
               m' = copied m (ptr_vaddr (rd_cursor r) + offset) (ptr_vaddr (wr_cursor w)) (wr_len w)
    | Inl e \<Rightarrow> w' = w \<and> (\<exists>k \<le> wr_len w. m' = copied m (ptr_vaddr (rd_cursor r) + offset) (ptr_vaddr (wr_cursor w)) k))"
proof (cases "offset \<le> rd_len r \<and> wr_len w \<le> rd_len r - offset \<and> 0 < wr_len w")
  case False
  then have "io_read_from cp r offset w m = Some (Inl InvalidArgs, w, m) \<or>
      io_read_from cp r offset w m = Some (Inr (), w, m) \<and> wr_len w = 0 \<and> offset \<le> rd_len r"
    using assms(1,2) by (auto simp: io_read_from_def)
  then show ?thesis using copied_none [of m "ptr_vaddr (rd_cursor r) + offset" "ptr_vaddr (wr_cursor w)"] by fastforce
next
  case True
  define r1 where "r1 = rd_advance offset r"
  have skip: "reader_skip r offset = Some r1" using True assms(1) by (simp add: skip_wf r1_def)
  have wf1: "rd_wf r1" using True assms(1) by (auto simp: r1_def)
  have n: "min (rd_len r1) (wr_len w) = wr_len w" using True by (simp add: r1_def)
  have "io_apart r1 w" using assms(3) True by (auto simp: io_apart_def n apart_def r1_def)
  then obtain k where k: "k \<le> wr_len w" "read_fallible cp r1 w m =
      Some (if k < wr_len w then Inl (PageFault, k) else Inr k, rd_advance k r1, wr_advance k w,
            copied m (ptr_vaddr (rd_cursor r) + offset) (ptr_vaddr (wr_cursor w)) k)"
    using read_fallible_eq [OF wf1 assms(2), of m] unfolding n io_copied_def by (auto simp: r1_def)
  have fits: "offset + wr_len w \<le> rd_len r" using True by linarith
  show ?thesis
  proof (cases "k < wr_len w")
    case kl: True
    have "io_read_from cp r offset w m =
        Some (Inl PageFault, w, copied m (ptr_vaddr (rd_cursor r) + offset) (ptr_vaddr (wr_cursor w)) k)"
      using True assms(1,2) skip k kl by (simp add: io_read_from_def rewind)
    then show ?thesis using k(1) by auto
  next
    case False
    then have "io_read_from cp r offset w m = Some (Inr (), wr_advance (wr_len w) w,
        copied m (ptr_vaddr (rd_cursor r) + offset) (ptr_vaddr (wr_cursor w)) (wr_len w))"
      using True assms(1,2) skip k by (simp add: io_read_from_def)
    then show ?thesis using fits by auto
  qed
qed

lemma io_write_to_law:
  assumes "wr_wf w" "rd_wf r" "apart (ptr_vaddr (wr_cursor w)) (wr_len w) (ptr_vaddr (rd_cursor r)) (rd_len r)"
  shows "\<exists>res r' m'. io_write_to cp w offset r m = Some (res, r', m') \<and> (case res of
      Inr _ \<Rightarrow> offset + rd_len r \<le> wr_len w \<and> r' = rd_advance (rd_len r) r \<and>
               m' = copied m (ptr_vaddr (rd_cursor r)) (ptr_vaddr (wr_cursor w) + offset) (rd_len r)
    | Inl e \<Rightarrow> r' = r \<and> (\<exists>k \<le> rd_len r. (k > 0 \<longrightarrow> offset + k \<le> wr_len w) \<and>
               m' = copied m (ptr_vaddr (rd_cursor r)) (ptr_vaddr (wr_cursor w) + offset) k))"
proof (cases "offset \<le> wr_len w \<and> rd_len r \<le> wr_len w - offset \<and> 0 < rd_len r")
  case False
  then have "io_write_to cp w offset r m = Some (Inl InvalidArgs, r, m) \<or>
      io_write_to cp w offset r m = Some (Inr (), r, m) \<and> rd_len r = 0 \<and> offset \<le> wr_len w"
    using assms(1,2) by (auto simp: io_write_to_def)
  then show ?thesis using copied_none [of m "ptr_vaddr (rd_cursor r)" "ptr_vaddr (wr_cursor w) + offset"] by fastforce
next
  case True
  define w1 where "w1 = wr_advance offset w"
  have skip: "writer_skip w offset = Some w1" using True assms(1) by (simp add: skip_wf w1_def)
  have wf1: "wr_wf w1" using True assms(1) by (auto simp: w1_def)
  have n: "min (rd_len r) (wr_len w1) = rd_len r" using True by (simp add: w1_def)
  have "io_apart r w1" using assms(3) True by (auto simp: io_apart_def n apart_def w1_def)
  then obtain k where k: "k \<le> rd_len r" "read_fallible cp r w1 m =
      Some (if k < rd_len r then Inl (PageFault, k) else Inr k, rd_advance k r, wr_advance k w1,
            copied m (ptr_vaddr (rd_cursor r)) (ptr_vaddr (wr_cursor w) + offset) k)"
    using read_fallible_eq [OF assms(2) wf1, of m] unfolding n io_copied_def by (auto simp: w1_def)
  have fits: "offset + rd_len r \<le> wr_len w" using True by linarith
  show ?thesis
  proof (cases "k < rd_len r")
    case kl: True
    have "io_write_to cp w offset r m =
        Some (Inl PageFault, r, copied m (ptr_vaddr (rd_cursor r)) (ptr_vaddr (wr_cursor w) + offset) k)"
      using True assms(1,2) skip k kl by (simp add: io_write_to_def write_fallible_def rewind)
    then show ?thesis using k(1) fits by auto
  next
    case False
    then have "io_write_to cp w offset r m = Some (Inr (), rd_advance (rd_len r) r,
        copied m (ptr_vaddr (rd_cursor r)) (ptr_vaddr (wr_cursor w) + offset) (rd_len r))"
      using True assms(1,2) skip k by (simp add: io_write_to_def write_fallible_def)
    then show ?thesis using fits by auto
  qed
qed

end

text \<open>The reader and the writer over the bytes of a segment.\<close>

definition seg_base :: "Segment \<Rightarrow> Vaddr" where
  "seg_base seg = LINEAR_MAPPING_BASE_VADDR + seg_start seg"

definition seg_len :: "Segment \<Rightarrow> usize" where
  "seg_len seg = seg_end seg - seg_start seg"

lemma seg_vaddr:
  assumes "seg_wf seg"
  shows "paddr_to_vaddr (seg_start seg) = Some (seg_base seg)" "seg_base seg + seg_len seg \<le> USIZE_MAX"
    "segment_size seg = Some (seg_len seg)"
  using assms by (simp_all add: paddr_to_vaddr_def uadd_def seg_wf_def seg_base_def seg_len_def layout_defs USIZE_MAX_def)

text \<open>Accesses through the reader and the writer over \<open>len\<close> bytes at \<open>base\<close>.\<close>

locale io_window = fallible_mem +
  fixes base :: Vaddr and len :: usize
  assumes window_bound: "base + len \<le> USIZE_MAX"

sublocale io_window \<subseteq> window: vm_io_restoring
  "io_read_from cp (reader_from_kernel_space \<lparr>ptr_vaddr = base\<rparr> len)"
  "io_write_to cp (writer_from_kernel_space \<lparr>ptr_vaddr = base\<rparr> len)" base len
proof
  note f = kernel_space_fields [OF window_bound]
  let ?r = "reader_from_kernel_space \<lparr>ptr_vaddr = base\<rparr> len"
  let ?w = "writer_from_kernel_space \<lparr>ptr_vaddr = base\<rparr> len"
  show "base + len \<le> USIZE_MAX" by (rule window_bound)
  fix w :: VmWriter and offset m
  assume w: "wr_wf w" "apart base len (ptr_vaddr (wr_cursor w)) (wr_len w)"
  note law = io_read_from_law [OF f(1) w(1), of offset m, unfolded f(2,3) diff_add_inverse, OF w(2)]
  show "\<exists>res w' m'. io_read_from cp ?r offset w m = Some (res, w', m') \<and> (case res of
        Inl e \<Rightarrow> \<exists>k \<le> wr_len w. m' = copied m (base + offset) (ptr_vaddr (wr_cursor w)) k
      | Inr _ \<Rightarrow> offset + wr_len w \<le> len \<and> w' = wr_advance (wr_len w) w \<and>
                 m' = copied m (base + offset) (ptr_vaddr (wr_cursor w)) (wr_len w))"
    using law by (elim ex_forward conj_forward) (auto split: sum.splits)
  show "w' = w" if "io_read_from cp ?r offset w m = Some (Inl e, w', m')" for e w' m'
    using law that by auto
next
  note f = kernel_space_fields [OF window_bound]
  let ?w = "writer_from_kernel_space \<lparr>ptr_vaddr = base\<rparr> len"
  fix r :: VmReader and offset m
  assume r: "rd_wf r" "apart base len (ptr_vaddr (rd_cursor r)) (rd_len r)"
  note law = io_write_to_law [OF f(4) r(1), of offset m, unfolded f(5,6) diff_add_inverse, OF r(2)]
  show "\<exists>res r' m'. io_write_to cp ?w offset r m = Some (res, r', m') \<and> (case res of
        Inl e \<Rightarrow> \<exists>k \<le> rd_len r. (k > 0 \<longrightarrow> offset + k \<le> len) \<and> m' = copied m (ptr_vaddr (rd_cursor r)) (base + offset) k
      | Inr _ \<Rightarrow> offset + rd_len r \<le> len \<and> r' = rd_advance (rd_len r) r \<and>
                 m' = copied m (ptr_vaddr (rd_cursor r)) (base + offset) (rd_len r))"
    using law by (elim ex_forward conj_forward) (auto split: sum.splits)
  show "r' = r" if "io_write_to cp ?w offset r m = Some (Inl e, r', m')" for e r' m'
    using law that by auto
qed

context io_window
begin

lemma window_object:
  "vm_io_restoring (io_read_from cp (reader_from_kernel_space \<lparr>ptr_vaddr = base\<rparr> len))
     (io_write_to cp (writer_from_kernel_space \<lparr>ptr_vaddr = base\<rparr> len)) base len"
  by (rule window.vm_io_restoring_axioms)

end

text \<open>The mappings as memory objects.\<close>

lemma io_windowI: "fallible_mem cp ms \<Longrightarrow> base + len \<le> USIZE_MAX \<Longrightarrow> io_window cp ms base len"
  by (simp add: io_window_def io_window_axioms_def)

lemma coherent_via:
  assumes "seg_wf (dc_segment c)"
  shows "coherent_read cp c = io_read_from cp (reader_from_kernel_space \<lparr>ptr_vaddr = seg_base (dc_segment c)\<rparr> (seg_len (dc_segment c)))"
    "coherent_write cp c = io_write_to cp (writer_from_kernel_space \<lparr>ptr_vaddr = seg_base (dc_segment c)\<rparr> (seg_len (dc_segment c)))"
  using seg_vaddr [OF assms]
  by (simp_all add: fun_eq_iff coherent_read_def coherent_reader_def coherent_write_def coherent_writer_def)

lemma coherent_object:
  assumes "fallible_mem cp ms" "seg_wf (dc_segment c)"
  shows "vm_io_restoring (coherent_read cp c) (coherent_write cp c) (seg_base (dc_segment c)) (seg_len (dc_segment c))"
  unfolding coherent_via [OF assms(2)]
  by (rule io_window.window_object [OF io_windowI [OF assms(1) seg_vaddr(2) [OF assms(2)]]])

text \<open>A slice that gives a reader or a writer lies within its segment, whatever it was created with.\<close>

lemma slice_writer_cases:
  assumes "seg_wf (ds_segment (sl_stream sl))"
  defines "base \<equiv> seg_base (ds_segment (sl_stream sl)) + sl_offset sl"
  obtains (err) e where "slice_writer sl = Some (Inl e)"
    | (ok) "slice_writer sl = Some (Inr (writer_from_kernel_space \<lparr>ptr_vaddr = base\<rparr> (sl_len sl)))"
        "sl_offset sl + sl_len sl \<le> seg_len (ds_segment (sl_stream sl))" "base + sl_len sl \<le> USIZE_MAX"
        "ds_direction (sl_stream sl) \<noteq> FromDevice"
proof (cases "ds_direction (sl_stream sl) = FromDevice \<or> sl_offset sl + sl_len sl > seg_len (ds_segment (sl_stream sl))")
  case True
  then have "\<exists>e. slice_writer sl = Some (Inl e)"
    using seg_vaddr [OF assms(1)] by (auto simp: slice_writer_def uadd_def)
  then show ?thesis using err by blast
next
  case False
  then have "slice_writer sl = Some (Inr (writer_from_kernel_space \<lparr>ptr_vaddr = base\<rparr> (sl_len sl)))" "base + sl_len sl \<le> USIZE_MAX"
    using seg_vaddr [OF assms(1)] by (auto simp: slice_writer_def uadd_def base_def)
  then show ?thesis using ok False by simp
qed

lemma slice_write_confined:
  assumes "fallible_mem cp ms" "seg_wf (ds_segment (sl_stream sl))" "rd_wf r"
    "apart (seg_base (ds_segment (sl_stream sl))) (seg_len (ds_segment (sl_stream sl))) (ptr_vaddr (rd_cursor r)) (rd_len r)"
  defines "base \<equiv> seg_base (ds_segment (sl_stream sl)) + sl_offset sl"
  shows "\<exists>res r' m'. slice_write cp sl offset r m = Some (res, r', m') \<and>
    (case res of
       Inr _ \<Rightarrow> ds_direction (sl_stream sl) \<noteq> FromDevice \<and> offset + rd_len r \<le> sl_len sl \<and>
         sl_offset sl + sl_len sl \<le> seg_len (ds_segment (sl_stream sl)) \<and> r' = rd_advance (rd_len r) r \<and>
         m' = copied m (ptr_vaddr (rd_cursor r)) (base + offset) (rd_len r)
     | Inl e \<Rightarrow> r' = r \<and> (\<forall>a. a < seg_base (ds_segment (sl_stream sl)) \<or>
         seg_base (ds_segment (sl_stream sl)) + seg_len (ds_segment (sl_stream sl)) \<le> a \<longrightarrow> m' a = m a))"
proof (rule slice_writer_cases [OF assms(2)])
  fix e assume "slice_writer sl = Some (Inl e)"
  then show ?thesis by (simp add: slice_write_def)
next
  assume w: "slice_writer sl = Some (Inr (writer_from_kernel_space \<lparr>ptr_vaddr = seg_base (ds_segment (sl_stream sl)) + sl_offset sl\<rparr> (sl_len sl)))"
    and fits: "sl_offset sl + sl_len sl \<le> seg_len (ds_segment (sl_stream sl))"
    and bound: "seg_base (ds_segment (sl_stream sl)) + sl_offset sl + sl_len sl \<le> USIZE_MAX"
    and dir: "ds_direction (sl_stream sl) \<noteq> FromDevice"
  note f = kernel_space_fields [OF bound, folded base_def]
  have "apart base (sl_len sl) (ptr_vaddr (rd_cursor r)) (rd_len r)"
    using assms(4) fits by (auto simp: apart_def base_def)
  note law = fallible_mem.io_write_to_law [OF assms(1) f(4) assms(3), of offset m, unfolded f(5,6) diff_add_inverse, OF this]
  have eq: "slice_write cp sl offset r m = io_write_to cp (writer_from_kernel_space \<lparr>ptr_vaddr = base\<rparr> (sl_len sl)) offset r m"
    using w by (simp add: slice_write_def base_def)
  show ?thesis
    unfolding eq using law fits dir
    by (elim ex_forward conj_forward) (auto simp: copied_def base_def split: sum.splits)
qed

section \<open>Properties\<close>

definition ex_seg :: Segment where
  "ex_seg = \<lparr>seg_start = 4096, seg_end = 12288\<rparr>"

definition ex_coherent :: DmaCoherent where
  "ex_coherent = \<lparr>dc_segment = ex_seg, dc_start_daddr = 4096, dc_is_cache_coherent = True\<rparr>"

lemma ex_seg_wf: "seg_wf ex_seg" "seg_base ex_seg = 0xffff800000001000" "seg_len ex_seg = 8192"
  by (simp_all add: ex_seg_def seg_wf_def PAGE_SIZE_def MAX_PADDR_def seg_base_def seg_len_def LINEAR_MAPPING_BASE_VADDR_def)

interpretation ex_window: io_window riscv_memcpy_fallible riscv_memset_fallible "seg_base ex_seg" "seg_len ex_seg"
  by (rule io_windowI [OF riscv_mem.fallible_mem_axioms seg_vaddr(2) [OF ex_seg_wf(1)]])

text \<open>C12: A coherent mapping is memory: a value written at an offset is stored at that offset of the segment, within its bounds,
  and a later \<open>read_val\<close> there that succeeds returns it; a write that fails leaves everything outside the segment as it was.\<close>

theorem dma_coherent_roundtrip:
  assumes "fallible_mem cp ms" "seg_wf (dc_segment c)"
    "outside (seg_base (dc_segment c)) (seg_len (dc_segment c)) T val"
    "outside (seg_base (dc_segment c)) (seg_len (dc_segment c)) T dst"
  shows "\<exists>res m1. io_write_val (coherent_write cp c) T offset val m = Some (res, m1) \<and>
    (case res of
       Inr _ \<Rightarrow> offset + size_of T \<le> seg_len (dc_segment c) \<and>
         load m1 (seg_base (dc_segment c) + offset) (size_of T) = load m val (size_of T) \<and>
         (\<forall>v m2. io_read_val (coherent_read cp c) T offset dst m1 = Some (Inr v, m2) \<longrightarrow> v = load m val (size_of T))
     | Inl e \<Rightarrow> \<forall>a. a < seg_base (dc_segment c) \<or> seg_base (dc_segment c) + seg_len (dc_segment c) \<le> a \<longrightarrow> m1 a = m a)"
proof -
  note obj = vm_io_restoring.axioms(1) [OF coherent_object [OF assms(1,2)]]
  show ?thesis
  proof (rule vm_io_object.write_val_cases [OF obj assms(3), where offset = offset and m = m])
    assume fits: "offset + size_of T \<le> seg_len (dc_segment c)"
      and w: "io_write_val (coherent_write cp c) T offset val m = Some (Inr (), copied m val (seg_base (dc_segment c) + offset) (size_of T))"
    show ?thesis using w fits vm_io_object.val_roundtrip [OF obj assms(3,4) w] by (auto simp: load_copied)
  next
    fix e k
    assume k: "k > 0 \<longrightarrow> offset + k \<le> seg_len (dc_segment c)"
      and w: "io_write_val (coherent_write cp c) T offset val m = Some (Inl e, copied m val (seg_base (dc_segment c) + offset) k)"
    have "copied m val (seg_base (dc_segment c) + offset) k a = m a"
      if "a < seg_base (dc_segment c) \<or> seg_base (dc_segment c) + seg_len (dc_segment c) \<le> a" for a
      using that k by (cases "k = 0") (auto simp: copied_def)
    then show ?thesis using w by simp
  qed
qed

theorem dma_coherent_roundtrip_witness:
  "\<exists>res m1. io_write_val (coherent_write riscv_memcpy_fallible ex_coherent) u32_ty 16 40 byte_mem = Some (res, m1) \<and>
    (case res of
       Inr _ \<Rightarrow> 16 + 4 \<le> seg_len ex_seg \<and> load m1 (seg_base ex_seg + 16) 4 = load byte_mem 40 4 \<and>
         (\<forall>v m2. io_read_val (coherent_read riscv_memcpy_fallible ex_coherent) u32_ty 16 80 m1 = Some (Inr v, m2) \<longrightarrow> v = load byte_mem 40 4)
     | Inl e \<Rightarrow> \<forall>a. a < seg_base ex_seg \<or> seg_base ex_seg + seg_len ex_seg \<le> a \<longrightarrow> m1 a = byte_mem a)"
  using dma_coherent_roundtrip [OF riscv_mem.fallible_mem_axioms, of ex_coherent u32_ty 40 80 16 byte_mem] ex_seg_wf
  by (simp add: ex_coherent_def outside_def apart_def USIZE_MAX_def u32_ty_def cong: sum.case_cong)

text \<open>C13: A slice of a streaming mapping never reaches outside its segment, although \<open>DmaStreamSlice::new\<close> checks nothing: for
  every offset and length a write through it returns; it succeeds only in a direction that allows it and within the slice and
  the segment, and then stores exactly the bytes of the reader at the requested place; and in no case does it change a byte outside the segment.\<close>

theorem dma_slice_confined:
  assumes "fallible_mem cp ms" "seg_wf (ds_segment (sl_stream sl))" "rd_wf r"
    "apart (seg_base (ds_segment (sl_stream sl))) (seg_len (ds_segment (sl_stream sl))) (ptr_vaddr (rd_cursor r)) (rd_len r)"
  shows "\<exists>res r' m'. slice_write cp sl offset r m = Some (res, r', m') \<and>
    (case res of
       Inr _ \<Rightarrow> ds_direction (sl_stream sl) \<noteq> FromDevice \<and> offset + rd_len r \<le> sl_len sl \<and>
         sl_offset sl + sl_len sl \<le> seg_len (ds_segment (sl_stream sl)) \<and> r' = rd_advance (rd_len r) r \<and>
         m' = copied m (ptr_vaddr (rd_cursor r)) (seg_base (ds_segment (sl_stream sl)) + sl_offset sl + offset) (rd_len r)
     | Inl e \<Rightarrow> r' = r \<and> (\<forall>a. a < seg_base (ds_segment (sl_stream sl)) \<or>
         seg_base (ds_segment (sl_stream sl)) + seg_len (ds_segment (sl_stream sl)) \<le> a \<longrightarrow> m' a = m a))"
  by (rule slice_write_confined [OF assms])

definition ex_slice :: DmaStreamSlice where
  "ex_slice = slice_new \<lparr>ds_segment = ex_seg, ds_start_daddr = 4096, ds_is_cache_coherent = True, ds_direction = ToDevice\<rparr> 4096 4096"

theorem dma_slice_confined_witness:
  "\<exists>res r' m'. slice_write riscv_memcpy_fallible ex_slice 8 ex_rd byte_mem = Some (res, r', m') \<and>
     (case res of Inr _ \<Rightarrow> r' = rd_advance 8 ex_rd | Inl e \<Rightarrow> r' = ex_rd)"
proof -
  have "\<exists>res r' m'. slice_write riscv_memcpy_fallible ex_slice 8 ex_rd byte_mem = Some (res, r', m') \<and>
    (case res of
       Inr _ \<Rightarrow> ds_direction (sl_stream ex_slice) \<noteq> FromDevice \<and> 8 + rd_len ex_rd \<le> sl_len ex_slice \<and>
         sl_offset ex_slice + sl_len ex_slice \<le> seg_len (ds_segment (sl_stream ex_slice)) \<and> r' = rd_advance (rd_len ex_rd) ex_rd \<and>
         m' = copied byte_mem (ptr_vaddr (rd_cursor ex_rd)) (seg_base (ds_segment (sl_stream ex_slice)) + sl_offset ex_slice + 8) (rd_len ex_rd)
     | Inl e \<Rightarrow> r' = ex_rd \<and> (\<forall>a. a < seg_base (ds_segment (sl_stream ex_slice)) \<or>
         seg_base (ds_segment (sl_stream ex_slice)) + seg_len (ds_segment (sl_stream ex_slice)) \<le> a \<longrightarrow> m' a = byte_mem a))"
    by (rule dma_slice_confined [OF riscv_mem.fallible_mem_axioms])
      (use ex_wf ex_seg_wf in \<open>simp_all add: ex_slice_def slice_new_def apart_def\<close>)
  then show ?thesis using ex_wf(4) by (elim ex_forward conj_forward) (auto split: sum.splits)
qed

text \<open>\<open>write_vals\<close> on a coherent mapping stores the items one after the other with the requested alignment.  It returns; the
  number it reports is at most the number of items; every item it counted stands in the segment at the aligned offset plus
  a multiple of the aligned item size; and nothing outside the segment changes.\<close>

lemma dma_write_vals_strided:
  assumes "fallible_mem cp ms" "seg_wf (dc_segment c)" "\<forall>x \<in> set items. outside (seg_base (dc_segment c)) (seg_len (dc_segment c)) T x"
    "0 < k" "k < 64" "offset + 2 ^ k \<le> USIZE_MAX" "size_of T + 2 ^ k \<le> USIZE_MAX"
  shows "\<exists>res m'. write_vals (coherent_write cp c) T offset items (2 ^ k) m = Some (res, m') \<and>
    (case res of
       Inl e \<Rightarrow> True
     | Inr n \<Rightarrow> n \<le> length items \<and> (\<forall>j < n.
         load m' (seg_base (dc_segment c) + nat_align_up offset (2 ^ k) + j * nat_align_up (size_of T) (2 ^ k)) (size_of T)
         = load m (items ! j) (size_of T))) \<and>
    (\<forall>a. a < seg_base (dc_segment c) \<or> seg_base (dc_segment c) + seg_len (dc_segment c) \<le> a \<longrightarrow> m' a = m a)"
proof -
  note obj = vm_io_restoring.axioms(1) [OF coherent_object [OF assms(1,2)]]
  have k2: "1 < (2::nat) ^ k" using assms(4) by (intro one_less_power) simp_all
  have up: "usize_align_up offset (2 ^ k) = Some (nat_align_up offset (2 ^ k))"
    "usize_align_up (size_of T) (2 ^ k) = Some (nat_align_up (size_of T) (2 ^ k))"
    using assms(4-7) by (simp_all add: usize_align_up_eq [OF _ refl])
  have lt: "nat_align_up offset (2 ^ k) \<le> USIZE_MAX" "nat_align_up (size_of T) (2 ^ k) \<le> USIZE_MAX"
    using nat_align_up_lt [of "2 ^ k" offset] nat_align_up_lt [of "2 ^ k" "size_of T"] assms(6,7) by simp_all
  have "size_of T \<le> nat_align_up (size_of T) (2 ^ k)" by (simp add: nat_align_up_ge)
  from vm_io_object.write_vals_loop_spec [OF obj assms(3) this lt(2), of 0 "nat_align_up offset (2 ^ k)" m] lt(1)
  obtain res m' where loop: "write_vals_loop (coherent_write cp c) T (nat_align_up (size_of T) (2 ^ k)) items (nat_align_up offset (2 ^ k)) 0 m = Some (res, m')"
    and res: "case res of Inl e \<Rightarrow> (0::nat) = 0 | Inr n \<Rightarrow> 0 \<le> n \<and> n - 0 \<le> length items \<and> (\<forall>j < n - 0.
         load m' (seg_base (dc_segment c) + nat_align_up offset (2 ^ k) + j * nat_align_up (size_of T) (2 ^ k)) (size_of T)
         = load m (items ! j) (size_of T))"
    and out: "\<forall>a. a < seg_base (dc_segment c) + nat_align_up offset (2 ^ k) \<or> seg_base (dc_segment c) + seg_len (dc_segment c) \<le> a \<longrightarrow> m' a = m a"
    by auto
  have "write_vals (coherent_write cp c) T offset items (2 ^ k) m = Some (res, m')"
    using k2 up loop by (simp add: write_vals_def)
  then show ?thesis using res out by (intro exI [of _ res] exI [of _ m']) (auto split: sum.splits)
qed

lemma dma_page_loop_ok:
  "start + (i + n) * PAGE_SIZE \<le> USIZE_MAX \<Longrightarrow> dma_page_loop n i start = Some ()"
proof (induction n arbitrary: i)
  case (Suc n)
  have "i * PAGE_SIZE \<le> (i + Suc n) * PAGE_SIZE" by (rule mult_le_mono1) simp
  then have "i * PAGE_SIZE \<le> USIZE_MAX" "start + i * PAGE_SIZE \<le> USIZE_MAX" using Suc.prems by linarith+
  then show ?case using Suc.IH [of "i + 1"] Suc.prems by (simp add: umul_def uadd_def)
qed simp

lemma dma_any_mapped_ok:
  "start + (i + n) * PAGE_SIZE \<le> USIZE_MAX \<Longrightarrow>
   dma_any_mapped n i start S = Some (\<exists>j < n. start + (i + j) * PAGE_SIZE \<in> S)"
proof (induction n arbitrary: i)
  case (Suc n)
  have "i * PAGE_SIZE \<le> (i + Suc n) * PAGE_SIZE" by (rule mult_le_mono1) simp
  then have b: "i * PAGE_SIZE \<le> USIZE_MAX" "start + i * PAGE_SIZE \<le> USIZE_MAX" using Suc.prems by linarith+
  have "(\<exists>j < Suc n. start + (i + j) * PAGE_SIZE \<in> S) \<longleftrightarrow>
      start + i * PAGE_SIZE \<in> S \<or> (\<exists>j < n. start + (i + 1 + j) * PAGE_SIZE \<in> S)"
    by (auto simp: less_Suc_eq_0_disj)
  then show ?case using Suc.IH [of "i + 1"] Suc.prems b by (simp add: umul_def uadd_def)
qed simp

text \<open>A segment can be mapped for DMA twice.  \<open>map\<close> is documented to fail if the segment already belongs to a DMA mapping;
  the set of mapped frames is never extended, so after a successful \<open>map\<close> a second one of the same segment succeeds as well.\<close>

lemma dma_maps_segment_twice:
  assumes "seg_wf seg" "stream_map ty seg dir coh s = Some (Inr d, s1)"
  shows "s1 = s \<and> (\<exists>d'. coherent_map ty seg coh' s1 = Some (Inr d', s1) \<and> dc_segment d' = ds_segment d)"
proof -
  define n where "n = seg_len seg div PAGE_SIZE"
  have "n * PAGE_SIZE \<le> seg_len seg" by (simp add: n_def)
  then have bound: "seg_start seg + n * PAGE_SIZE \<le> USIZE_MAX"
    using assms(1) unfolding seg_wf_def seg_len_def MAX_PADDR_def USIZE_MAX_def by linarith
  note loops = dma_page_loop_ok [of "seg_start seg" 0 n] dma_any_mapped_ok [of "seg_start seg" 0 n]
  show ?thesis
  proof (cases s)
    case None
    then show ?thesis using assms seg_vaddr(3) [OF assms(1)]
      by (simp add: stream_map_def check_and_insert_dma_mapping_def Let_def)
  next
    case (Some S)
    have check: "check_and_insert_dma_mapping (seg_start seg) n s = Some (\<not> (\<exists>j < n. seg_start seg + j * PAGE_SIZE \<in> S), s)"
      using bound loops Some by (simp add: check_and_insert_dma_mapping_def)
    then have free: "\<not> (\<exists>j < n. seg_start seg + j * PAGE_SIZE \<in> S)" and s1: "s1 = s" and d: "ds_segment d = seg"
      using assms(2) seg_vaddr(3) [OF assms(1)] bound loops
      by (auto simp: stream_map_def Let_def simp flip: n_def split: if_splits DmaType.splits)
    have "\<exists>d'. coherent_map ty seg coh' s = Some (Inr d', s) \<and> dc_segment d' = seg"
      using check free seg_vaddr(3) [OF assms(1)] bound loops
      by (cases ty) (auto simp: coherent_map_def Let_def simp flip: n_def)
    then show ?thesis using s1 d by simp
  qed
qed

end
