(* ===== verification/Kvirt_Area.thy ===== *)
theory Kvirt_Area
  imports Pt_Properties Range_Alloc
begin

text \<open>
  Kernel virtual areas, \<open>src/ostd/src/mm/kspace/kvirt_area.rs\<close>: a range of the virtual address space is allocated and
  a cursor over the kernel page table maps frames into it.  The cursor is that of \<open>Pt_Cursor\<close> at the kernel
  configuration.  \<open>KVIRT_AREA_ALLOCATOR.alloc\<close> has no body in this file and is an argument, with the contract of a range
  allocator over \<open>VMALLOC_VADDR_RANGE\<close>; \<open>KERNEL_PAGE_TABLE\<close> is the argument \<open>root\<close>.  An attempt to lock the range that
  meets a detached node is repeated by the code; it gives no result here.
\<close>

section \<open>Operations\<close>

record KVirtArea =
  kv_start :: Vaddr
  kv_end :: Vaddr

type_synonym kv_alloc = "usize \<Rightarrow> RangeAllocError + Vaddr \<times> Vaddr"

definition kv_len :: "KVirtArea \<Rightarrow> usize" where
  "kv_len self = kv_end self - kv_start self"

text \<open>\<open>cursor\<close> and \<open>cursor_mut\<close> of the kernel page table, unwrapped.\<close>

definition kernel_cursor ::
    "x86_pte pt_env \<Rightarrow> x86_pte pt_store \<Rightarrow> Paddr \<Rightarrow> Vaddr \<times> Vaddr \<Rightarrow> (Cursor \<times> x86_pte pt_store) option" where
  "kernel_cursor env st root r = do {
     (res, st1) \<leftarrow> cursor_new kernel_pt_config env st root r;
     (case res of
       Inr (Some c) \<Rightarrow> Some (c, st1)
     | _ \<Rightarrow> None)
   }"

definition kv_query ::
    "x86_pte pt_env \<Rightarrow> x86_pte pt_store \<Rightarrow> Paddr \<Rightarrow> KVirtArea \<Rightarrow> Vaddr \<Rightarrow> (KernelItem option \<times> x86_pte pt_store) option" where
  "kv_query env st root self addr = do {
     rassert (kv_start self \<le> addr \<and> kv_end self \<ge> addr);
     start \<leftarrow> usize_align_down addr PAGE_SIZE;
     e \<leftarrow> uadd start PAGE_SIZE;
     (c, st1) \<leftarrow> kernel_cursor env st root (start, e);
     (res, c1) \<leftarrow> query kernel_pt_config st1 c;
     (case res of
       Inl err \<Rightarrow> None
     | Inr x \<Rightarrow> Some (snd x, st1))
   }"

text \<open>The loops that map one item after the other; what \<open>map\<close> returns is dropped.\<close>

primrec kv_map_loop ::
    "x86_pte pt_env \<Rightarrow> KernelItem list \<Rightarrow> x86_pte pt_store \<Rightarrow> Cursor \<Rightarrow> (x86_pte pt_store \<times> Cursor) option" where
  "kv_map_loop env [] st c = Some (st, c)"
| "kv_map_loop env (item # items) st c = do {
     (res, st1, c1) \<leftarrow> cursor_map kernel_pt_config env st c item;
     kv_map_loop env items st1 c1
   }"

definition map_frames ::
    "kv_alloc \<Rightarrow> x86_pte pt_env \<Rightarrow> x86_pte pt_store \<Rightarrow> Paddr \<Rightarrow> usize \<Rightarrow> usize \<Rightarrow> Paddr list \<Rightarrow> PageProperty \<Rightarrow>
     (KVirtArea \<times> x86_pte pt_store) option" where
  "map_frames alloc env st root area_size map_offset frames prop = do {
     rassert (map_offset mod PAGE_SIZE = 0);
     (case alloc area_size of
       Inl e \<Rightarrow> None
     | Inr (s, e) \<Rightarrow> do {
         cs \<leftarrow> uadd s map_offset;
         (c, st1) \<leftarrow> kernel_cursor env st root (cs, e);
         (st2, _) \<leftarrow> kv_map_loop env (map (\<lambda>frame. Tracked frame prop) frames) st1 c;
         Some (\<lparr>kv_start = s, kv_end = e\<rparr>, st2)
       })
   }"

definition collect_largest_pages :: "Vaddr \<Rightarrow> Paddr \<Rightarrow> usize \<Rightarrow> (Paddr \<times> nat) list option" where
  "collect_largest_pages v pa len = largest_pages (pconsts kernel_pt_config) (index_range kernel_pt_config) v pa len"

definition map_untracked_frames ::
    "kv_alloc \<Rightarrow> x86_pte pt_env \<Rightarrow> x86_pte pt_store \<Rightarrow> Paddr \<Rightarrow> usize \<Rightarrow> usize \<Rightarrow> Paddr \<times> Paddr \<Rightarrow> PageProperty \<Rightarrow>
     (KVirtArea \<times> x86_pte pt_store) option" where
  "map_untracked_frames alloc env st root area_size map_offset pa_range prop = (case alloc area_size of
     Inl e \<Rightarrow> None
   | Inr (s, e) \<Rightarrow>
       if fst pa_range < snd pa_range then do {
         len \<leftarrow> usub (snd pa_range) (fst pa_range);
         vs \<leftarrow> uadd s map_offset;
         ve \<leftarrow> uadd vs len;
         (c, st1) \<leftarrow> kernel_cursor env st root (vs, ve);
         pages \<leftarrow> collect_largest_pages vs (fst pa_range) len;
         (st2, _) \<leftarrow> kv_map_loop env (map (\<lambda>(pa, lvl). Untracked pa lvl prop) pages) st1 c;
         Some (\<lparr>kv_start = s, kv_end = e\<rparr>, st2)
       }
       else Some (\<lparr>kv_start = s, kv_end = e\<rparr>, st))"

section \<open>Mapping a run of items\<close>

text \<open>Items that follow each other from \<open>a\<close> on, with the physical address and the level of each, and the translation they
  stand for.\<close>

fun placed :: "pt_ghost \<Rightarrow> nat \<Rightarrow> PageProperty \<Rightarrow> (KernelItem \<times> Paddr \<times> nat) list \<Rightarrow> Vaddr \<Rightarrow> Vaddr \<Rightarrow> bool" where
  "placed G g q [] a e \<longleftrightarrow> a \<le> e"
| "placed G g q ((it, pa, l) # rs) a e \<longleftrightarrow> kernel_item_into_raw it = Some (pa, l, q) \<and> leaf_ok G pa l q \<and>
     1 \<le> l \<and> l \<le> 2 \<and> l \<le> g \<and> gsz G l dvd a \<and> a + gsz G l \<le> e \<and> placed G g q rs (a + gsz G l) e"

fun placed_walk :: "pt_ghost \<Rightarrow> PageProperty \<Rightarrow> (KernelItem \<times> Paddr \<times> nat) list \<Rightarrow> Vaddr \<Rightarrow> Vaddr \<Rightarrow> (Paddr \<times> PageProperty) option" where
  "placed_walk G q [] a v = None"
| "placed_walk G q ((it, pa, l) # rs) a v =
     (if a \<le> v \<and> v < a + gsz G l then Some (pa + (v - a), q) else placed_walk G q rs (a + gsz G l) v)"

lemma placed_walk_below: "v < a \<Longrightarrow> placed_walk G q rs a v = None"
  by (induction G q rs a v rule: placed_walk.induct) auto

lemma core_window:
  assumes "cursor_core G pos c" "barrier_start c \<le> v" "v < barrier_end c"
  shows "v div gW G = barrier_start c div gW G"
proof -
  let ?g = "gsz G (guard_level c + 1)"
  have c: "(barrier_end c - 1) div ?g = barrier_start c div ?g" "guard_level c \<le> NR_LEVELS"
    using assms(1) by (simp_all add: cursor_core_def)
  have "barrier_start c div ?g \<le> v div ?g" "v div ?g \<le> (barrier_end c - 1) div ?g"
    using assms(2,3) by (simp_all add: div_le_mono)
  then have "v div ?g = barrier_start c div ?g" using c(1) by simp
  moreover obtain t where "gW G = ?g * t" using gsz_dvd_gW [of "guard_level c + 1" G] c(2) by (auto elim: dvdE)
  ultimately show ?thesis by (simp add: div_mult2_eq)
qed

lemma kv_map_loop_ok:
  assumes "page_table kernel_pt_config G env" "pt_wf kernel_pt_config G st pos root" "cursor_wf G pos c"
    "placed G (guard_level c) q rs (va c) (barrier_end c)" "card (dom st) + 3 * length rs \<le> g_nodes G"
  shows "\<exists>st' c' pos'. kv_map_loop env (map fst rs) st c = Some (st', c') \<and> pt_wf kernel_pt_config G st' pos' root \<and>
    (\<forall>v. v div gW G = barrier_start c div gW G \<longrightarrow> page_walk kernel_pt_config st' root v =
       (case placed_walk G q rs (va c) v of Some x \<Rightarrow> Some (Some x) | None \<Rightarrow> page_walk kernel_pt_config st root v))"
  using assms(2-)
proof (induction rs arbitrary: st pos c)
  case Nil
  then show ?case by auto
next
  case (Cons r rs)
  obtain it pa l where r: "r = (it, pa, l)" by (metis prod.exhaust)
  have core: "cursor_core G pos c" using Cons.prems(2) by (simp add: cursor_wf_def)
  have lv: "level c \<le> 4" using core by (simp add: cursor_core_def NR_LEVELS_def)
  have p: "kernel_item_into_raw it = Some (pa, l, q)" "leaf_ok G pa l q" "1 \<le> l" "l \<le> 2" "l \<le> guard_level c"
    "gsz G l dvd va c" "va c + gsz G l \<le> barrier_end c" "placed G (guard_level c) q rs (va c + gsz G l) (barrier_end c)"
    using Cons.prems(3) r by simp_all
  have room: "card (dom st) + (level c - l) \<le> g_nodes G" using Cons.prems(4) p(3) lv by simp
  have "\<exists>res st1 c1 pos1. cursor_map kernel_pt_config env st c it = Some (res, st1, c1) \<and>
      pt_wf kernel_pt_config G st1 pos1 root \<and> cursor_wf G pos1 c1 \<and> va c1 = va c + gsz G l \<and> same_range c c1 \<and>
      card (dom st1) \<le> card (dom st) + (level c - l) \<and>
      frag_ok kernel_pt_config G (page_walk kernel_pt_config st root) l (va c) (case res of Inl f \<Rightarrow> Some f | Inr u \<Rightarrow> None) \<and>
      (\<forall>v. v div gW G = va c div gW G \<longrightarrow> page_walk kernel_pt_config st1 root v =
         (if va c \<le> v \<and> v < va c + gsz G l then Some (Some (pa + (v - va c), q)) else page_walk kernel_pt_config st root v))"
    by (rule page_table.cursor_map_ok [OF assms(1) Cons.prems(1,2)])
      (use p room in \<open>simp_all add: x86_paging_def NR_LEVELS_def\<close>)
  then obtain res st1 c1 pos1 where m: "cursor_map kernel_pt_config env st c it = Some (res, st1, c1)"
    "pt_wf kernel_pt_config G st1 pos1 root" "cursor_wf G pos1 c1" "va c1 = va c + gsz G l" "same_range c c1"
    "card (dom st1) \<le> card (dom st) + (level c - l)"
    "\<And>v. v div gW G = va c div gW G \<Longrightarrow> page_walk kernel_pt_config st1 root v =
       (if va c \<le> v \<and> v < va c + gsz G l then Some (Some (pa + (v - va c), q)) else page_walk kernel_pt_config st root v)"
    by blast
  have same: "guard_level c1 = guard_level c" "barrier_start c1 = barrier_start c" "barrier_end c1 = barrier_end c"
    using m(5) by (simp_all add: same_range_def)
  have room1: "card (dom st1) + 3 * length rs \<le> g_nodes G" using Cons.prems(4) m(6) lv p(3) by simp
  obtain st' c' pos' where ih: "kv_map_loop env (map fst rs) st1 c1 = Some (st', c')" "pt_wf kernel_pt_config G st' pos' root"
    "\<And>v. v div gW G = barrier_start c div gW G \<Longrightarrow> page_walk kernel_pt_config st' root v =
       (case placed_walk G q rs (va c + gsz G l) v of Some x \<Rightarrow> Some (Some x) | None \<Rightarrow> page_walk kernel_pt_config st1 root v)"
    using Cons.IH [OF m(2,3) _ room1] p(8) same m(4) by auto
  have bs: "barrier_start c \<le> va c" using core by (simp add: cursor_core_def)
  have w: "va c div gW G = barrier_start c div gW G"
    using core_window [OF core bs] p(7) gsz_pos [of G l] by linarith
  have "page_walk kernel_pt_config st' root v =
      (case placed_walk G q (r # rs) (va c) v of Some x \<Rightarrow> Some (Some x) | None \<Rightarrow> page_walk kernel_pt_config st root v)"
    if "v div gW G = barrier_start c div gW G" for v
    using ih(3) [OF that] m(7) [of v] that w r placed_walk_below [of v "va c + gsz G l" G q rs]
    by (auto split: option.splits)
  then show ?case using ih(1,2) m(1) r by auto
qed

section \<open>The areas\<close>

lemma demo_no_avail1: "\<not> has_avail1 demo_prop"
  by (simp add: has_avail1_def demo_prop_def page_flag_defs)


abbreviation VMALLOC_VADDR_RANGE :: "Vaddr \<times> Vaddr" where
  "VMALLOC_VADDR_RANGE \<equiv> (VMALLOC_BASE_VADDR, FRAME_METADATA_BASE_VADDR)"

text \<open>What the code relies on of \<open>KVIRT_AREA_ALLOCATOR\<close>: a range that is handed out has the requested size and lies in
  \<open>VMALLOC_VADDR_RANGE\<close>; as long as only whole pages are asked for, it starts on a page.\<close>

locale kvirt_allocator =
  fixes alloc :: kv_alloc
  assumes alloc_range: "alloc sz = Inr (s, e) \<Longrightarrow> e = s + sz \<and> VMALLOC_BASE_VADDR \<le> s \<and> e \<le> FRAME_METADATA_BASE_VADDR"
    and alloc_aligned: "alloc sz = Inr (s, e) \<Longrightarrow> PAGE_SIZE dvd sz \<Longrightarrow> PAGE_SIZE dvd s"
begin

lemma area_bounds:
  assumes "alloc sz = Inr (s, e)" "off + len \<le> sz"
  shows "VMALLOC_BASE_VADDR \<le> s + off" "s + off + len \<le> FRAME_METADATA_BASE_VADDR" "e = s + sz"
  using alloc_range [OF assms(1)] assms(2) by simp_all

end

definition first_area :: kv_alloc where
  "first_area sz = (case ra_alloc (ra_new VMALLOC_VADDR_RANGE) sz of
     None \<Rightarrow> Inl RangeAllocError
   | Some (r, a) \<Rightarrow> r)"

lemma first_area_eq:
  "first_area sz = (if sz \<le> FRAME_METADATA_BASE_VADDR - VMALLOC_BASE_VADDR
     then Inr (FRAME_METADATA_BASE_VADDR - sz, FRAME_METADATA_BASE_VADDR) else Inl RangeAllocError)"
  by (simp add: first_area_def ra_alloc_def ra_new_def get_freelist_guard_def FreeRange_new_def usub_def Let_def bt_get_def
      VMALLOC_BASE_VADDR_def FRAME_METADATA_BASE_VADDR_def)

interpretation fa: kvirt_allocator first_area
  by unfold_locales (auto simp: first_area_eq FRAME_METADATA_BASE_VADDR_def VMALLOC_BASE_VADDR_def PAGE_SIZE_def
      intro!: dvd_diff_nat split: if_splits)

lemma kernel_gsz:
  "gsz (kernel_ghost n) 1 = 0x1000" "gsz (kernel_ghost n) (Suc 0) = 0x1000" "gsz (kernel_ghost n) 2 = 0x200000"
  "gsz (kernel_ghost n) 4 = 0x8000000000" "gW (kernel_ghost n) = 0x1000000000000"
  by (simp_all add: gsz_def gW_def level_bytes_def NR_LEVELS_def)

lemma kernel_window:
  assumes "KERNEL_BASE_VADDR \<le> v" "v < 2 ^ 64"
  shows "v div 0x1000000000000 = 0xffff"
  using assms by (simp add: KERNEL_BASE_VADDR_def div_nat_eqI)

lemma avail1_bit: "bit PF_AVAIL1 i \<longleftrightarrow> i = 6"
proof -
  have e: "PF_AVAIL1 = 2 ^ 6" by (simp add: PF_AVAIL1_def)
  show ?thesis unfolding e by (auto simp only: bit_exp_iff possible_bit_word; simp)
qed

lemma avail1_bits:
  assumes "\<not> has_avail1 prop"
  shows "prop\<lparr>flags := flags prop AND NOT PF_AVAIL1\<rparr> = prop"
    and "x86_valid_prop False prop \<Longrightarrow> x86_valid_prop False (prop\<lparr>flags := flags prop OR PF_AVAIL1\<rparr>)"
proof -
  have b: "bit PF_AVAIL1 i \<longleftrightarrow> i = 6" for i by (rule avail1_bit)
  have "flags prop AND PF_AVAIL1 = PF_AVAIL1" if "bit (flags prop) 6"
    by (rule bit_word_eqI) (use that in \<open>auto simp: bit_simps b\<close>)
  then have "\<not> bit (flags prop) 6" using assms by (auto simp: has_avail1_def)
  then have "flags prop AND NOT PF_AVAIL1 = flags prop"
    by (intro bit_word_eqI) (auto simp: bit_simps b)
  then show "prop\<lparr>flags := flags prop AND NOT PF_AVAIL1\<rparr> = prop" by simp
  show "x86_valid_prop False prop \<Longrightarrow> x86_valid_prop False (prop\<lparr>flags := flags prop OR PF_AVAIL1\<rparr>)"
    by (auto simp: x86_valid_prop_def prop_inv_bits bit_simps b)
qed

text \<open>Locking a range of a virtual area.\<close>

lemma kernel_cursor_ok:
  assumes pt: "page_table kernel_pt_config (kernel_ghost n) env" and wf: "pt_wf kernel_pt_config (kernel_ghost n) st pos root"
    and ns: "no_stray pos st" and r: "a < b" "PAGE_SIZE dvd a" "PAGE_SIZE dvd b" "VMALLOC_BASE_VADDR \<le> a" "b \<le> FRAME_METADATA_BASE_VADDR"
    and room: "card (dom st) + 3 \<le> n"
  shows "\<exists>c st' pos'. kernel_cursor env st root (a, b) = Some (c, st') \<and> pt_wf kernel_pt_config (kernel_ghost n) st' pos' root \<and>
    cursor_wf (kernel_ghost n) pos' c \<and> va c = a \<and> barrier_start c = a \<and> barrier_end c = b \<and>
    card (dom st') \<le> card (dom st) + 3 \<and>
    (1 < guard_level c \<and> va_idx (kernel_ghost n) (guard_level c) a = va_idx (kernel_ghost n) (guard_level c) (b - 1) \<longrightarrow>
       page_walk kernel_pt_config st root a \<noteq> Some None) \<and>
    (\<forall>v. page_walk kernel_pt_config st' root v = page_walk kernel_pt_config st root v)"
proof -
  let ?G = "kernel_ghost n"
  have w: "v div 0x1000000000000 = 0xffff" if "a \<le> v" "v < b" for v
    using kernel_window [of v] that r by (simp add: KERNEL_BASE_VADDR_def VMALLOC_BASE_VADDR_def FRAME_METADATA_BASE_VADDR_def)
  have half: "a div gW ?G = (b - 1) div gW ?G" using w [of a] w [of "b - 1"] r(1) by (simp add: kernel_gsz)
  have "slot_base ?G NR_LEVELS (b - 1) \<le> b - 1" by (simp add: slot_base_def)
  then have top: "slot_base ?G NR_LEVELS (b - 1) + gsz ?G NR_LEVELS \<le> USIZE_MAX"
    using r(5) by (simp add: NR_LEVELS_def kernel_gsz USIZE_MAX_def FRAME_METADATA_BASE_VADDR_def)
  have valid: "is_valid_range (pconsts kernel_pt_config) (index_range kernel_pt_config) (a, b) = Some True"
    using r by (simp add: is_valid_range_def x86_vaddr_range VMALLOC_BASE_VADDR_def FRAME_METADATA_BASE_VADDR_def)
  obtain c st' pos' where "cursor_new kernel_pt_config env st root (a, b) = Some (Inr (Some c), st') \<and>
      pt_wf kernel_pt_config ?G st' pos' root \<and> cursor_wf ?G pos' c \<and> va c = a \<and> barrier_start c = a \<and> barrier_end c = b \<and>
      card (dom st') \<le> card (dom st) + (NR_LEVELS - 1) \<and>
      (1 < guard_level c \<and> va_idx ?G (guard_level c) a = va_idx ?G (guard_level c) (b - 1) \<longrightarrow>
         page_walk kernel_pt_config st root a \<noteq> Some None) \<and>
      (\<forall>v. page_walk kernel_pt_config st' root v = page_walk kernel_pt_config st root v)"
    using page_table.cursor_new_ok [OF pt wf ns r(1) _ _ valid half top] r(2,3) room
    by (auto simp: PAGE_SIZE_def NR_LEVELS_def)
  then show ?thesis by (auto simp: kernel_cursor_def NR_LEVELS_def)
qed

text \<open>A kernel page table without mappings, over pools of page-table frames of any size.\<close>

definition kernel_st :: "x86_pte pt_store" where
  "kernel_st = [0x1000 \<mapsto> node_new kernel_pt_config 4 512]"

lemma kernel_pt_of: "n < 2 ^ 30 \<Longrightarrow> page_table kernel_pt_config (kernel_ghost n) (pool_env n)"
  by (rule page_tableI) (auto simp: kernel_item_from_raw_def rassert_def)

lemma kernel_st_wf: "pt_wf kernel_pt_config (kernel_ghost n) kernel_st [0x1000 \<mapsto> (4, 0)] 0x1000"
proof -
  have "leaf_entry kernel_pt_config (kernel_ghost n) l (new_absent (pte kernel_pt_config))"
    "\<not> is_present (pte kernel_pt_config) (new_absent (pte kernel_pt_config))" for l
    using kernel_pt.pt.absent_law by (simp_all add: leaf_entry_def)
  then show ?thesis
    by (auto simp: pt_wf_def kernel_st_def node_new_def node_ok_def children_count_def NR_LEVELS_def
      LINEAR_MAPPING_BASE_VADDR_def USIZE_MAX_def entry_ok_def split: if_splits)
qed

lemma kernel_st_facts:
  "no_stray [0x1000 \<mapsto> (4, 0)] kernel_st" "card (dom kernel_st) = 1"
  "page_walk kernel_pt_config kernel_st 0x1000 v = Some None"
proof -
  show "no_stray [0x1000 \<mapsto> (4, 0)] kernel_st" by (simp add: no_stray_def kernel_st_def node_new_def)
  show "card (dom kernel_st) = 1" by (simp add: kernel_st_def)
  have e: "pt_ent kernel_st 0x1000 (va_idx (kernel_ghost 1024) 4 v) = new_absent (pte kernel_pt_config)"
    using va_idx_lt [of "kernel_ghost 1024" 4 v] by (simp add: pt_ent_def kernel_st_def node_new_def)
  have p: "va_pre (kernel_ghost 1024) 4 v = 0" by (simp add: va_pre_def gW_def NR_LEVELS_def)
  show "page_walk kernel_pt_config kernel_st 0x1000 v = Some None"
    using kernel_pt.slot_walk [OF kernel_st_wf, where n = "0x1000" and l = 4 and a = v and v = v] e p kernel_pt.pt.absent_law by (simp add: kernel_pt.leaf_trans_def)
qed

lemma tiles_item:
  "tiles ps H items a pa len \<Longrightarrow> (p, l) \<in> set items \<Longrightarrow>
     \<exists>d. p = pa + d \<and> d + ps l \<le> len \<and> ps l dvd a + d \<and> ps l dvd p \<and> 1 \<le> l \<and> l \<le> H"
proof (induction items arbitrary: a pa len)
  case (Cons x items)
  obtain p' l' where x: "x = (p', l')" by (cases x)
  show ?case
  proof (cases "(p, l) = x")
    case True
    then show ?thesis using Cons.prems(1) x by (intro exI [of _ 0]) auto
  next
    case False
    then obtain d where "p = pa + ps l' + d" "d + ps l \<le> len - ps l'" "ps l dvd a + ps l' + d" "ps l dvd p" "1 \<le> l" "l \<le> H"
      using Cons.IH [of "a + ps l'" "pa + ps l'" "len - ps l'"] Cons.prems x by auto
    then show ?thesis using Cons.prems(1) x by (intro exI [of _ "ps l' + d"]) (auto simp: add.assoc)
  qed
qed simp

lemma tiles_length:
  "tiles ps H items a pa len \<Longrightarrow> \<forall>l. 1 \<le> l \<longrightarrow> m \<le> ps l \<Longrightarrow> length items * m \<le> len"
proof (induction items arbitrary: a pa len)
  case (Cons x items)
  obtain p l where x: "x = (p, l)" by (cases x)
  have "length items * m \<le> len - ps l" using Cons x by auto
  moreover have "m \<le> ps l" "ps l \<le> len" using Cons.prems x by auto
  ultimately show ?case by simp
qed simp

lemma tiles_placed:
  assumes "tiles (level_bytes 12 9) 2 items a pa len" "a + len \<le> e" "pa + len \<le> 2 ^ 52" "\<forall>(p, l) \<in> set items. l \<le> g"
    "x86_valid_prop False prop" "\<not> has_avail1 prop"
  shows "placed (kernel_ghost n) g prop (map (\<lambda>(p, l). (Untracked p l prop, p, l)) items) a e \<and>
    placed_walk (kernel_ghost n) prop (map (\<lambda>(p, l). (Untracked p l prop, p, l)) items) a v =
      (if a \<le> v \<and> v < a + len then Some (pa + (v - a), prop) else None)"
  using assms(1-4)
proof (induction items arbitrary: a pa len)
  case (Cons x items)
  obtain p l where x: "x = (p, l)" by (cases x)
  have g: "level_bytes 12 9 l = gsz (kernel_ghost n) l" by (simp add: gsz_def)
  have t: "p = pa" "1 \<le> l" "l \<le> 2" "gsz (kernel_ghost n) l \<le> len" "gsz (kernel_ghost n) l dvd a" "gsz (kernel_ghost n) l dvd pa"
    "tiles (level_bytes 12 9) 2 items (a + gsz (kernel_ghost n) l) (pa + gsz (kernel_ghost n) l) (len - gsz (kernel_ghost n) l)"
    using Cons.prems(1) x by (simp_all add: g)
  have ih: "placed (kernel_ghost n) g prop (map (\<lambda>(p, l). (Untracked p l prop, p, l)) items) (a + gsz (kernel_ghost n) l) e \<and>
    placed_walk (kernel_ghost n) prop (map (\<lambda>(p, l). (Untracked p l prop, p, l)) items) (a + gsz (kernel_ghost n) l) v =
      (if a + gsz (kernel_ghost n) l \<le> v \<and> v < a + gsz (kernel_ghost n) l + (len - gsz (kernel_ghost n) l)
       then Some (pa + gsz (kernel_ghost n) l + (v - (a + gsz (kernel_ghost n) l)), prop) else None)"
    by (rule Cons.IH [OF t(7)]) (use Cons.prems t(4) in auto)
  have "kernel_item_into_raw (Untracked p l prop) = Some (p, l, prop)" using assms(6) by (simp add: avail1_bits(1))
  moreover have "leaf_ok (kernel_ghost n) p l prop" using t assms(5,6) Cons.prems(3) by (simp add: leaf_ok_def)
  moreover have "l \<le> g" using Cons.prems(4) x by simp
  ultimately show ?case using ih t Cons.prems(2) x by auto
qed simp

lemma tiles_levels:
  assumes t: "tiles (level_bytes 12 9) 2 items a pa len" and c: "cursor_core (kernel_ghost n) pos c"
    and r: "barrier_start c = a" "barrier_end c = a + len"
    and h: "\<not> (len = 0x200000 \<and> 0x200000 dvd a \<and> 0x200000 dvd pa)"
  shows "\<forall>(p, l) \<in> set items. l \<le> guard_level c"
proof (intro ballI, clarify)
  fix p l
  assume "(p, l) \<in> set items"
  then obtain d where d: "p = pa + d" "d + level_bytes 12 9 l \<le> len" "level_bytes 12 9 l dvd a + d" "level_bytes 12 9 l dvd p" "1 \<le> l" "l \<le> 2"
    using tiles_item [OF t] by blast
  have g: "1 \<le> guard_level c" "(a + len - 1) div gsz (kernel_ghost n) (guard_level c + 1) = a div gsz (kernel_ghost n) (guard_level c + 1)"
    using c r by (simp_all add: cursor_core_def)
  show "l \<le> guard_level c"
  proof (rule ccontr)
    assume "\<not> l \<le> guard_level c"
    then have l: "l = 2" "guard_level c = 1" using d(5,6) g(1) by auto
    have b: "d + 0x200000 \<le> len" "0x200000 dvd a + d" "0x200000 dvd pa + d" using d l by (simp_all add: level_bytes_def)
    have s: "(a + len - 1) div 0x200000 = a div 0x200000" using g(2) l(2) by (simp add: kernel_gsz numeral_2_eq_2 [symmetric])
    obtain k where k: "a + d = 0x200000 * k" using b(2) by (elim dvdE)
    have "k \<le> (a + len - 1) div 0x200000" using b(1) k by (simp add: less_eq_div_iff_mult_less_eq)
    then have "0x200000 * k \<le> a" using s by (metis div_le_mono le_trans mult.commute mult_le_mono2 times_div_less_eq_dividend)
    then have d0: "d = 0" using k by simp
    have "len \<le> 0x200000"
    proof (rule ccontr)
      assume "\<not> len \<le> 0x200000"
      then have "0x200000 * (k + 1) \<le> a + len - 1" using k d0 by simp
      then have "k + 1 \<le> (a + len - 1) div 0x200000" by (simp add: less_eq_div_iff_mult_less_eq algebra_simps)
      moreover have "a div 0x200000 = k" using k d0 by simp
      ultimately show False using s by simp
    qed
    then show False using h b d0 by simp
  qed
qed

lemma kernel_tiles:
  assumes "PAGE_SIZE dvd a" "PAGE_SIZE dvd pa" "PAGE_SIZE dvd len" "0 < len" "VMALLOC_BASE_VADDR \<le> a"
    "a + len \<le> FRAME_METADATA_BASE_VADDR" "pa + len \<le> 2 ^ 52"
  shows "\<exists>items. collect_largest_pages a pa len = Some items \<and> tiles (level_bytes 12 9) 2 items a pa len"
proof -
  have "is_valid_range x86_paging kernel_range (a, a + len) = Some True"
    using assms by (simp add: is_valid_range_def x86_vaddr_range VMALLOC_BASE_VADDR_def FRAME_METADATA_BASE_VADDR_def)
  then show ?thesis
    using largest_pages_tiles [OF x86.paging_axioms, of a pa len kernel_range] assms
    by (simp add: collect_largest_pages_def PAGE_SIZE_def USIZE_MAX_def FRAME_METADATA_BASE_VADDR_def)
qed

text \<open>Running the loop on a freshly locked range.\<close>

lemma kv_map_area:
  assumes pt: "page_table kernel_pt_config (kernel_ghost n) env" and wf: "pt_wf kernel_pt_config (kernel_ghost n) st pos root"
    and c: "cursor_wf (kernel_ghost n) pos c" "va c = a" "barrier_start c = a" "barrier_end c = e"
    and r: "VMALLOC_BASE_VADDR \<le> a" "a < FRAME_METADATA_BASE_VADDR" and room: "card (dom st) + 3 * length rs \<le> n"
    and pl: "\<And>v. placed (kernel_ghost n) (guard_level c) q rs a e \<and> placed_walk (kernel_ghost n) q rs a v = W v"
  shows "\<exists>st' c' pos'. kv_map_loop env (map fst rs) st c = Some (st', c') \<and> pt_wf kernel_pt_config (kernel_ghost n) st' pos' root \<and>
    (\<forall>v. KERNEL_BASE_VADDR \<le> v \<and> v < 2 ^ 64 \<longrightarrow> page_walk kernel_pt_config st' root v =
       (case W v of Some x \<Rightarrow> Some (Some x) | None \<Rightarrow> page_walk kernel_pt_config st root v))"
proof -
  have p: "placed (kernel_ghost n) (guard_level c) q rs (va c) (barrier_end c)" using pl c by simp
  have rm: "card (dom st) + 3 * length rs \<le> g_nodes (kernel_ghost n)" using room by simp
  obtain st' c' pos' where m: "kv_map_loop env (map fst rs) st c = Some (st', c')" "pt_wf kernel_pt_config (kernel_ghost n) st' pos' root"
    "\<forall>v. v div gW (kernel_ghost n) = barrier_start c div gW (kernel_ghost n) \<longrightarrow> page_walk kernel_pt_config st' root v =
       (case placed_walk (kernel_ghost n) q rs (va c) v of Some x \<Rightarrow> Some (Some x) | None \<Rightarrow> page_walk kernel_pt_config st root v)"
    using kv_map_loop_ok [OF pt wf c(1) p rm] by (elim exE conjE)
  have "a div 0x1000000000000 = 0xffff"
    using kernel_window [of a] r by (simp add: KERNEL_BASE_VADDR_def VMALLOC_BASE_VADDR_def FRAME_METADATA_BASE_VADDR_def)
  then have "page_walk kernel_pt_config st' root v =
      (case W v of Some x \<Rightarrow> Some (Some x) | None \<Rightarrow> page_walk kernel_pt_config st root v)" if "KERNEL_BASE_VADDR \<le> v" "v < 2 ^ 64" for v
    using m(3) kernel_window [OF that] pl [of v] c(2,3) by (simp add: kernel_gsz)
  then show ?thesis using m(1,2) by blast
qed

text \<open>\<open>map_untracked_frames\<close> maps the physical range and nothing else, unless the range is exactly one aligned huge page.
  Small and huge pages are mixed as \<open>largest_pages\<close> chooses.\<close>

lemma map_untracked_frames_maps:
  assumes pt: "page_table kernel_pt_config (kernel_ghost n) env" and al: "kvirt_allocator alloc"
    and wf: "pt_wf kernel_pt_config (kernel_ghost n) st pos root" "no_stray pos st"
    and area: "alloc area_size = Inr (s, e)" "PAGE_SIZE dvd area_size" "PAGE_SIZE dvd map_offset"
    and pa: "PAGE_SIZE dvd ps" "PAGE_SIZE dvd pe" "pe \<le> 2 ^ 52" "map_offset + (pe - ps) \<le> area_size"
    and pr: "x86_valid_prop False prop" "\<not> has_avail1 prop"
    and huge: "\<not> (pe - ps = 0x200000 \<and> 0x200000 dvd s + map_offset \<and> 0x200000 dvd ps)"
    and room: "card (dom st) + 3 * (1 + (pe - ps) div PAGE_SIZE) \<le> n"
  shows "\<exists>st' pos'. map_untracked_frames alloc env st root area_size map_offset (ps, pe) prop =
      Some (\<lparr>kv_start = s, kv_end = e\<rparr>, st') \<and> pt_wf kernel_pt_config (kernel_ghost n) st' pos' root \<and>
    (\<forall>v. KERNEL_BASE_VADDR \<le> v \<and> v < 2 ^ 64 \<longrightarrow> page_walk kernel_pt_config st' root v =
      (if s + map_offset \<le> v \<and> v < s + map_offset + (pe - ps) then Some (Some (ps + (v - (s + map_offset)), prop))
       else page_walk kernel_pt_config st root v))"
proof (cases "ps < pe")
  case False
  then show ?thesis using area(1) wf(1) by (auto simp: map_untracked_frames_def)
next
  case True
  define len a where "len = pe - ps" and "a = s + map_offset"
  note b = kvirt_allocator.area_bounds [OF al area(1) pa(4), folded len_def a_def]
  have d: "PAGE_SIZE dvd a" "PAGE_SIZE dvd len" "0 < len"
    using kvirt_allocator.alloc_aligned [OF al area(1,2)] area(3) pa(1,2) True by (simp_all add: a_def len_def dvd_diff_nat)
  have lim: "ps + len \<le> 2 ^ 52" using pa(3) True by (simp add: len_def)
  have room3: "card (dom st) + 3 \<le> n" using room by simp
  obtain c st1 pos1 where c: "kernel_cursor env st root (a, a + len) = Some (c, st1)"
    "pt_wf kernel_pt_config (kernel_ghost n) st1 pos1 root" "cursor_wf (kernel_ghost n) pos1 c" "va c = a" "barrier_start c = a"
    "barrier_end c = a + len" "card (dom st1) \<le> card (dom st) + 3"
    "\<And>v. page_walk kernel_pt_config st1 root v = page_walk kernel_pt_config st root v"
    using kernel_cursor_ok [OF pt wf _ d(1) _ b(1,2) room3] d by auto
  obtain items where t: "collect_largest_pages a ps len = Some items" "tiles (level_bytes 12 9) 2 items a ps len"
    using kernel_tiles [OF d(1) pa(1) d(2,3) b(1,2) lim] by blast
  have lv: "\<forall>(p, l) \<in> set items. l \<le> guard_level c"
    using tiles_levels [OF t(2) _ c(5,6), of n pos1] c(3) huge by (auto simp: cursor_wf_def a_def len_def)
  let ?rs = "map (\<lambda>(p, l). (Untracked p l prop, p, l)) items"
  note pl = tiles_placed [OF t(2) order.refl lim lv pr, of n]
  have "length items * PAGE_SIZE \<le> len"
    by (rule tiles_length [OF t(2)]) (simp add: level_bytes_def PAGE_SIZE_def power_add)
  then have "length items \<le> len div PAGE_SIZE" by (simp add: less_eq_div_iff_mult_less_eq PAGE_SIZE_def)
  then have rm: "card (dom st1) + 3 * length ?rs \<le> n" using room c(7) by (simp add: len_def)
  have a': "a < FRAME_METADATA_BASE_VADDR" using b(2) d(3) by simp
  obtain st' c' pos' where m: "kv_map_loop env (map fst ?rs) st1 c = Some (st', c')"
    "pt_wf kernel_pt_config (kernel_ghost n) st' pos' root"
    "\<forall>v. KERNEL_BASE_VADDR \<le> v \<and> v < 2 ^ 64 \<longrightarrow> page_walk kernel_pt_config st' root v =
       (case (if a \<le> v \<and> v < a + len then Some (ps + (v - a), prop) else None) of
          Some x \<Rightarrow> Some (Some x) | None \<Rightarrow> page_walk kernel_pt_config st1 root v)"
    using kv_map_area [OF pt c(2-6) b(1) a' rm pl] by (elim exE conjE)
  have ups: "uadd s map_offset = Some a" "uadd a len = Some (a + len)" "usub pe ps = Some len"
    using b(2) True by (simp_all add: uadd_def usub_def a_def len_def USIZE_MAX_def FRAME_METADATA_BASE_VADDR_def)
  have "map fst ?rs = map (\<lambda>(pa, lvl). Untracked pa lvl prop) items" by auto
  note m1 = m(1) [unfolded this]
  have run: "map_untracked_frames alloc env st root area_size map_offset (ps, pe) prop = Some (\<lparr>kv_start = s, kv_end = e\<rparr>, st')"
    using area(1) True ups c(1) t(1) m1 by (simp add: map_untracked_frames_def)
  show ?thesis using run m(2,3) c(8) by (auto simp: a_def len_def)
qed

text \<open>\<open>map_untracked_frames\<close> cannot map exactly one huge page.  For a physical range of 2 MiB that is aligned to 2 MiB both
  physically and in the area, where nothing is mapped yet, the call panics although the range is page-aligned and fits
  into the area: the cursor locks the level-1 node that the range fills, while \<open>largest_pages\<close> chooses the leaf of level 2
  above it.  The \<open># Panics\<close> section does not list the case.\<close>

lemma map_untracked_one_huge_page_panics:
  assumes pt: "page_table kernel_pt_config (kernel_ghost n) env" and al: "kvirt_allocator alloc"
    and wf: "pt_wf kernel_pt_config (kernel_ghost n) st pos root" "no_stray pos st"
    and area: "alloc area_size = Inr (s, e)" "map_offset + 0x200000 \<le> area_size" "0x200000 dvd s + map_offset"
    and pa: "0x200000 dvd ps" "ps + 0x200000 \<le> 2 ^ 52" "page_walk kernel_pt_config st root (s + map_offset) = Some None"
    and room: "card (dom st) + 3 \<le> n"
  shows "map_untracked_frames alloc env st root area_size map_offset (ps, ps + 0x200000) prop = None"
proof -
  define a where "a = s + map_offset"
  note b = kvirt_allocator.area_bounds [OF al area(1,2), folded a_def]
  have pd: "PAGE_SIZE dvd x" if "0x200000 dvd x" for x using that by (rule dvd_trans [rotated]) (simp add: PAGE_SIZE_def)
  have d: "PAGE_SIZE dvd a" "PAGE_SIZE dvd ps" "PAGE_SIZE dvd a + 0x200000" "PAGE_SIZE dvd (0x200000 :: nat)" using area(3) pa(1) pd by (simp_all add: a_def)
  obtain c st1 pos1 where c: "kernel_cursor env st root (a, a + 0x200000) = Some (c, st1)"
    "cursor_wf (kernel_ghost n) pos1 c" "barrier_start c = a" "barrier_end c = a + 0x200000"
    "1 < guard_level c \<and> va_idx (kernel_ghost n) (guard_level c) a = va_idx (kernel_ghost n) (guard_level c) (a + 0x200000 - 1) \<longrightarrow>
       page_walk kernel_pt_config st root a \<noteq> Some None"
    using kernel_cursor_ok [OF pt wf _ d(1,3) b(1,2) room] by auto
  have core: "1 \<le> guard_level c" "guard_level c \<le> NR_LEVELS" using c(2) by (simp_all add: cursor_wf_def cursor_core_def)
  have "va_idx (kernel_ghost n) (guard_level c) a = va_idx (kernel_ghost n) (guard_level c) (a + 0x200000 - 1)" if g2: "1 < guard_level c"
  proof -
    have "a div 0x200000 = (a + 0x200000 - 1) div 0x200000" using area(3) by (auto simp: a_def elim!: dvdE)
    moreover obtain t where "gsz (kernel_ghost n) (guard_level c) = 0x200000 * t"
      using gsz_dvd [of 2 "guard_level c" "kernel_ghost n"] g2 by (auto simp: kernel_gsz elim: dvdE)
    ultimately show ?thesis by (simp add: va_idx_def div_mult2_eq)
  qed
  then have g: "guard_level c = 1" using c(5) pa(3) core(1) by (force simp: a_def)
  obtain items where t: "collect_largest_pages a ps 0x200000 = Some items" "tiles (level_bytes 12 9) 2 items a ps 0x200000"
    using kernel_tiles [OF d(1,2,4) _ b(1,2) pa(2)] by auto
  obtain rest where "items = (ps, 2) # rest"
  proof (cases items)
    case Nil
    then show ?thesis using t(2) by simp
  next
    case (Cons x rest)
    obtain p l where x: "x = (p, l)" by (cases x)
    have h: "p = ps" "l \<le> 2" "\<forall>m. l < m \<and> m \<le> 2 \<longrightarrow>
        \<not> (level_bytes 12 9 m \<le> 0x200000 \<and> level_bytes 12 9 m dvd a \<and> level_bytes 12 9 m dvd ps)"
      using t(2) Cons x by simp_all
    have "l = 2" using h(2) h(3) [rule_format, of 2] area(3) pa(1) by (fastforce simp: level_bytes_def a_def)
    then show ?thesis using that Cons x h(1) by simp
  qed
  moreover have "cursor_map kernel_pt_config env st1 c (Untracked ps 2 prop) = None"
    using g by (cases "has_avail1 prop") (auto simp: cursor_map_def rassert_def)
  ultimately show ?thesis
    using area(1) c(1) t(1) by (auto simp: map_untracked_frames_def a_def usub_def uadd_def)
qed

text \<open>The frames of \<open>map_frames\<close>, one small page each.\<close>

lemma frames_placed:
  assumes "\<forall>f \<in> set frames. PAGE_SIZE dvd f \<and> f + PAGE_SIZE \<le> 2 ^ 52" "PAGE_SIZE dvd a" "a + length frames * PAGE_SIZE \<le> e"
    "x86_valid_prop False prop" "\<not> has_avail1 prop" "1 \<le> g"
  defines "q \<equiv> prop\<lparr>flags := flags prop OR PF_AVAIL1\<rparr>"
  shows "placed (kernel_ghost n) g q (map (\<lambda>f. (Tracked f prop, f, 1)) frames) a e \<and>
    placed_walk (kernel_ghost n) q (map (\<lambda>f. (Tracked f prop, f, 1)) frames) a v =
      (if a \<le> v \<and> v < a + length frames * PAGE_SIZE then Some (frames ! ((v - a) div PAGE_SIZE) + (v - a) mod PAGE_SIZE, q) else None)"
  using assms(1-3)
proof (induction frames arbitrary: a)
  case (Cons f frames)
  have ih: "placed (kernel_ghost n) g q (map (\<lambda>f. (Tracked f prop, f, 1)) frames) (a + PAGE_SIZE) e \<and>
    placed_walk (kernel_ghost n) q (map (\<lambda>f. (Tracked f prop, f, 1)) frames) (a + PAGE_SIZE) v =
      (if a + PAGE_SIZE \<le> v \<and> v < a + PAGE_SIZE + length frames * PAGE_SIZE
       then Some (frames ! ((v - (a + PAGE_SIZE)) div PAGE_SIZE) + (v - (a + PAGE_SIZE)) mod PAGE_SIZE, q) else None)"
    by (rule Cons.IH) (use Cons.prems in auto)
  have sh: "(v - (a + PAGE_SIZE)) div PAGE_SIZE = (v - a) div PAGE_SIZE - 1" "(v - (a + PAGE_SIZE)) mod PAGE_SIZE = (v - a) mod PAGE_SIZE"
    "0 < (v - a) div PAGE_SIZE" if "a + PAGE_SIZE \<le> v"
    using that by (simp_all add: PAGE_SIZE_def le_div_geq le_mod_geq diff_diff_left [symmetric] del: diff_diff_left)
  have "kernel_item_into_raw (Tracked f prop) = Some (f, 1, q)" using assms(5) by (simp add: q_def map_level_def)
  moreover have "leaf_ok (kernel_ghost n) f 1 q"
    using Cons.prems(1) avail1_bits(2) [OF assms(5,4)] by (simp add: leaf_ok_def q_def kernel_gsz PAGE_SIZE_def)
  ultimately show ?case using ih Cons.prems(2,3) assms(6) sh by (auto simp: kernel_gsz PAGE_SIZE_def nth_Cons')
qed simp

text \<open>C9: \<open>map_frames\<close> maps the frames in order.  For every well-formed kernel page table and every allocator that meets
  its contract, if the frames fit into the area after a page-aligned offset inside it, the call does not panic; it returns
  the allocated area, the page at index \<open>i\<close> after the offset translates to frame \<open>i\<close> with the property and the mark of a
  tracked page, and every other kernel address translates as before.\<close>

theorem map_frames_maps:
  assumes pt: "page_table kernel_pt_config (kernel_ghost n) env" and al: "kvirt_allocator alloc"
    and wf: "pt_wf kernel_pt_config (kernel_ghost n) st pos root" "no_stray pos st"
    and area: "alloc area_size = Inr (s, e)" "PAGE_SIZE dvd area_size" "PAGE_SIZE dvd map_offset" "map_offset < area_size"
      "map_offset + length frames * PAGE_SIZE \<le> area_size"
    and fr: "\<forall>f \<in> set frames. PAGE_SIZE dvd f \<and> f + PAGE_SIZE \<le> 2 ^ 52" "x86_valid_prop False prop" "\<not> has_avail1 prop"
    and room: "card (dom st) + 3 * (1 + length frames) \<le> n"
  shows "\<exists>st' pos'. map_frames alloc env st root area_size map_offset frames prop = Some (\<lparr>kv_start = s, kv_end = e\<rparr>, st') \<and>
    pt_wf kernel_pt_config (kernel_ghost n) st' pos' root \<and>
    (\<forall>v. KERNEL_BASE_VADDR \<le> v \<and> v < 2 ^ 64 \<longrightarrow> page_walk kernel_pt_config st' root v =
      (if s + map_offset \<le> v \<and> v < s + map_offset + length frames * PAGE_SIZE
       then Some (Some (frames ! ((v - (s + map_offset)) div PAGE_SIZE) + (v - (s + map_offset)) mod PAGE_SIZE,
         prop\<lparr>flags := flags prop OR PF_AVAIL1\<rparr>))
       else page_walk kernel_pt_config st root v))"
proof -
  define a q where "a = s + map_offset" and "q = prop\<lparr>flags := flags prop OR PF_AVAIL1\<rparr>"
  note b = kvirt_allocator.area_bounds [OF al area(1), of map_offset "area_size - map_offset", folded a_def]
  have ae: "a < e" "VMALLOC_BASE_VADDR \<le> a" "e \<le> FRAME_METADATA_BASE_VADDR" "a + length frames * PAGE_SIZE \<le> e"
    using b area(4,5) by (auto simp: a_def)
  have d: "PAGE_SIZE dvd a" "PAGE_SIZE dvd e"
    using kvirt_allocator.alloc_aligned [OF al area(1,2)] area(2,3,4) b(3) by (simp_all add: a_def)
  have room3: "card (dom st) + 3 \<le> n" using room by simp
  obtain c st1 pos1 where c: "kernel_cursor env st root (a, e) = Some (c, st1)"
    "pt_wf kernel_pt_config (kernel_ghost n) st1 pos1 root" "cursor_wf (kernel_ghost n) pos1 c" "va c = a" "barrier_start c = a"
    "barrier_end c = e" "card (dom st1) \<le> card (dom st) + 3"
    "\<And>v. page_walk kernel_pt_config st1 root v = page_walk kernel_pt_config st root v"
    using kernel_cursor_ok [OF pt wf ae(1) d ae(2,3) room3] by auto
  have g: "1 \<le> guard_level c" using c(3) by (simp add: cursor_wf_def cursor_core_def)
  let ?rs = "map (\<lambda>f. (Tracked f prop, f, 1 :: nat)) frames"
  note pl = frames_placed [OF fr(1) d(1) ae(4) fr(2,3) g, of n, folded q_def]
  have rm: "card (dom st1) + 3 * length ?rs \<le> n" using room c(7) by simp
  have a': "a < FRAME_METADATA_BASE_VADDR" using ae by simp
  obtain st' c' pos' where m: "kv_map_loop env (map fst ?rs) st1 c = Some (st', c')"
    "pt_wf kernel_pt_config (kernel_ghost n) st' pos' root"
    "\<forall>v. KERNEL_BASE_VADDR \<le> v \<and> v < 2 ^ 64 \<longrightarrow> page_walk kernel_pt_config st' root v =
       (case (if a \<le> v \<and> v < a + length frames * PAGE_SIZE
              then Some (frames ! ((v - a) div PAGE_SIZE) + (v - a) mod PAGE_SIZE, q) else None) of
          Some x \<Rightarrow> Some (Some x) | None \<Rightarrow> page_walk kernel_pt_config st1 root v)"
    using kv_map_area [OF pt c(2-6) ae(2) a' rm pl] by (elim exE conjE)
  have "uadd s map_offset = Some a"
    using ae by (simp add: uadd_def a_def USIZE_MAX_def FRAME_METADATA_BASE_VADDR_def)
  then have run: "map_frames alloc env st root area_size map_offset frames prop = Some (\<lparr>kv_start = s, kv_end = e\<rparr>, st')"
    using area(1,3) c(1) m(1) by (simp add: map_frames_def comp_def dvd_eq_mod_eq_0)
  show ?thesis using run m(2,3) c(8) by (auto simp: a_def q_def)
qed

theorem map_frames_maps_witness:
  "\<exists>st'. map_frames first_area (pool_env 1024) kernel_st 0x1000 0x3000 0x1000 [0x9000, 0x7000] demo_prop =
      Some (\<lparr>kv_start = 0xffffdfffffffd000, kv_end = 0xffffe00000000000\<rparr>, st') \<and>
    page_walk kernel_pt_config st' 0x1000 0xffffdffffffff123 =
      Some (Some (0x7123, demo_prop\<lparr>flags := flags demo_prop OR PF_AVAIL1\<rparr>)) \<and>
    page_walk kernel_pt_config st' 0x1000 0xffffdfffffffd123 = Some None"
proof -
  have "\<exists>st' pos'. map_frames first_area (pool_env 1024) kernel_st 0x1000 0x3000 0x1000 [0x9000, 0x7000] demo_prop =
      Some (\<lparr>kv_start = 0xffffdfffffffd000, kv_end = 0xffffe00000000000\<rparr>, st') \<and>
      pt_wf kernel_pt_config (kernel_ghost 1024) st' pos' 0x1000 \<and>
    (\<forall>v. KERNEL_BASE_VADDR \<le> v \<and> v < 2 ^ 64 \<longrightarrow> page_walk kernel_pt_config st' 0x1000 v =
      (if 0xffffdfffffffd000 + 0x1000 \<le> v \<and> v < 0xffffdfffffffd000 + 0x1000 + length [0x9000 :: nat, 0x7000] * PAGE_SIZE
       then Some (Some ([0x9000, 0x7000] ! ((v - (0xffffdfffffffd000 + 0x1000)) div PAGE_SIZE) +
         (v - (0xffffdfffffffd000 + 0x1000)) mod PAGE_SIZE, demo_prop\<lparr>flags := flags demo_prop OR PF_AVAIL1\<rparr>))
       else page_walk kernel_pt_config kernel_st 0x1000 v))"
    by (rule map_frames_maps [OF kernel_pt_of fa.kvirt_allocator_axioms kernel_st_wf kernel_st_facts(1)])
      (simp_all add: first_area_eq VMALLOC_BASE_VADDR_def FRAME_METADATA_BASE_VADDR_def PAGE_SIZE_def demo_prop_valid
        demo_no_avail1 kernel_st_facts(2))
  then obtain st' where "map_frames first_area (pool_env 1024) kernel_st 0x1000 0x3000 0x1000 [0x9000, 0x7000] demo_prop =
      Some (\<lparr>kv_start = 0xffffdfffffffd000, kv_end = 0xffffe00000000000\<rparr>, st')"
    and h: "\<And>v. KERNEL_BASE_VADDR \<le> v \<Longrightarrow> v < 2 ^ 64 \<Longrightarrow> page_walk kernel_pt_config st' 0x1000 v =
      (if 0xffffdfffffffe000 \<le> v \<and> v < 0xffffe00000000000
       then Some (Some ([0x9000, 0x7000] ! ((v - 0xffffdfffffffe000) div 0x1000) + (v - 0xffffdfffffffe000) mod 0x1000,
         demo_prop\<lparr>flags := flags demo_prop OR PF_AVAIL1\<rparr>))
       else Some None)"
    by (auto simp: kernel_st_facts(3) PAGE_SIZE_def)
  then show ?thesis using h [of "0xffffdffffffff123"] h [of "0xffffdfffffffd123"] by (simp add: KERNEL_BASE_VADDR_def)
qed

text \<open>\<open>query\<close> answers as the page walk does at the page of the address.\<close>

lemma kv_query_ok:
  assumes pt: "page_table kernel_pt_config (kernel_ghost n) env" and wf: "pt_wf kernel_pt_config (kernel_ghost n) st pos root" "no_stray pos st"
    and a: "kv_start self \<le> addr" "addr \<le> kv_end self" "VMALLOC_BASE_VADDR \<le> kv_start self" "addr < FRAME_METADATA_BASE_VADDR"
    and room: "card (dom st) + 3 \<le> n"
  shows "\<exists>it st'. kv_query env st root self addr = Some (it, st') \<and>
    (case it of
       None \<Rightarrow> page_walk kernel_pt_config st root addr = Some None
     | Some i \<Rightarrow> \<exists>pa l q. kernel_item_from_raw pa l q = Some i \<and>
         page_walk kernel_pt_config st root addr = Some (Some (pa + addr mod gsz (kernel_ghost n) l, q)))"
proof -
  define v where "v = nat_align_down addr PAGE_SIZE"
  have up: "addr \<le> USIZE_MAX" using a(4) by (simp add: USIZE_MAX_def FRAME_METADATA_BASE_VADDR_def)
  have v: "v \<le> addr" "PAGE_SIZE dvd v" "addr < v + PAGE_SIZE" "addr div PAGE_SIZE = v div PAGE_SIZE"
    using nat_align_down_le [of addr PAGE_SIZE] by (simp_all add: v_def nat_align_down_def PAGE_SIZE_def)
  have b: "VMALLOC_BASE_VADDR \<le> v"
    using nat_align_down_greatest [of PAGE_SIZE VMALLOC_BASE_VADDR addr] a(1,3) by (simp add: v_def PAGE_SIZE_def VMALLOC_BASE_VADDR_def)
  have e: "v + PAGE_SIZE \<le> FRAME_METADATA_BASE_VADDR"
    using v(1,2) a(4) by (auto simp: PAGE_SIZE_def FRAME_METADATA_BASE_VADDR_def elim!: dvdE)
  obtain c st1 pos1 where c: "kernel_cursor env st root (v, v + PAGE_SIZE) = Some (c, st1)"
    "pt_wf kernel_pt_config (kernel_ghost n) st1 pos1 root" "cursor_core (kernel_ghost n) pos1 c" "va c = v" "barrier_end c = v + PAGE_SIZE"
    "\<And>v. page_walk kernel_pt_config st1 root v = page_walk kernel_pt_config st root v"
    using kernel_cursor_ok [OF pt wf _ v(2) _ b e room] v(2) by (auto simp: PAGE_SIZE_def cursor_wf_def)
  obtain l it c' where q: "query_loop kernel_pt_config st1 c =
      Some (((slot_base (kernel_ghost n) l (va c), slot_base (kernel_ghost n) l (va c) + gsz (kernel_ghost n) l), it), c')" "1 \<le> l"
    "case it of
       None \<Rightarrow> \<forall>w. w div gsz (kernel_ghost n) l = va c div gsz (kernel_ghost n) l \<longrightarrow> page_walk kernel_pt_config st1 root w = Some None
     | Some i \<Rightarrow> \<exists>pa q. item_from_raw kernel_pt_config pa l q = Some i \<and> gsz (kernel_ghost n) l dvd pa \<and>
         (\<forall>w. w div gsz (kernel_ghost n) l = va c div gsz (kernel_ghost n) l \<longrightarrow>
            page_walk kernel_pt_config st1 root w = Some (Some (pa + w mod gsz (kernel_ghost n) l, q)))"
    using page_table.query_loop_ok [OF pt c(2,3)] c(4,5) by (auto simp: PAGE_SIZE_def)
  obtain t where "gsz (kernel_ghost n) l = PAGE_SIZE * t"
    using gsz_dvd [of 1 l "kernel_ghost n"] q(2) by (auto simp: kernel_gsz PAGE_SIZE_def elim: dvdE)
  then have w: "addr div gsz (kernel_ghost n) l = va c div gsz (kernel_ghost n) l" using v(4) c(4) by (simp add: div_mult2_eq)
  have "usize_align_down addr PAGE_SIZE = Some v" using usize_align_down_eq [OF up PAGE_SIZE_pow] by (simp add: v_def)
  moreover have "uadd v PAGE_SIZE = Some (v + PAGE_SIZE)" using e by (simp add: uadd_def USIZE_MAX_def FRAME_METADATA_BASE_VADDR_def)
  ultimately have "kv_query env st root self addr = Some (it, st1)"
    using a(1,2) c q(1) by (simp add: kv_query_def query_def PAGE_SIZE_def)
  moreover have "case it of
       None \<Rightarrow> page_walk kernel_pt_config st root addr = Some None
     | Some i \<Rightarrow> \<exists>pa l q. kernel_item_from_raw pa l q = Some i \<and>
         page_walk kernel_pt_config st root addr = Some (Some (pa + addr mod gsz (kernel_ghost n) l, q))"
    using q(3) w c(6) by (cases it) (simp, fastforce)
  ultimately show ?thesis by blast
qed

end
