(* ===== verification/Io_Mem.thy ===== *)
theory Io_Mem
  imports Kvirt_Area Io_Alloc Vm_Io
begin

text \<open>
  Memory-mapped I/O regions, \<open>src/ostd/src/io/io_mem/mod.rs\<close>.  Acquiring a region composes three components: the range is
  reserved in the I/O memory allocator, its pages are mapped into a kernel virtual area, and readers and writers over
  the area transfer the data.  The machine is not a TDX guest, as in the page-table configurations.
\<close>

section \<open>Operations\<close>

record IoMem =
  im_area :: KVirtArea
  im_offset :: usize
  im_limit :: usize
  im_pa :: Paddr

definition im_paddr :: "IoMem \<Rightarrow> Paddr" where
  "im_paddr self = im_pa self"

definition im_length :: "IoMem \<Rightarrow> usize" where
  "im_length self = im_limit self"

definition im_slice :: "IoMem \<Rightarrow> usize \<times> usize \<Rightarrow> IoMem option" where
  "im_slice self r = do {
     rassert (fst r < snd r \<and> snd r \<le> im_limit self);
     offset \<leftarrow> uadd (im_offset self) (fst r);
     pa \<leftarrow> uadd (im_pa self) (fst r);
     Some \<lparr>im_area = im_area self, im_offset = offset, im_limit = snd r - fst r, im_pa = pa\<rparr>
   }"

definition im_new ::
    "kv_alloc \<Rightarrow> x86_pte pt_env \<Rightarrow> x86_pte pt_store \<Rightarrow> Paddr \<Rightarrow> Paddr \<times> Paddr \<Rightarrow> 8 word \<Rightarrow> CachePolicy \<Rightarrow>
     (IoMem \<times> x86_pte pt_store) option" where
  "im_new kalloc env st root r fl ca = do {
     first_page_start \<leftarrow> usize_align_down (fst r) PAGE_SIZE;
     last_page_end \<leftarrow> usize_align_up (snd r) PAGE_SIZE;
     let area_size = last_page_end - first_page_start;
     let prop = \<lparr>flags = fl, cache = ca, priv_flags = 0\<rparr>;
     (kva, st1) \<leftarrow> map_untracked_frames kalloc env st root area_size 0 (first_page_start, last_page_end) prop;
     offset \<leftarrow> usub (fst r) first_page_start;
     Some (\<lparr>im_area = kva, im_offset = offset, im_limit = snd r - fst r, im_pa = fst r\<rparr>, st1)
   }"

text \<open>\<open>IoMem::acquire\<close> with the body of \<open>IoMemAllocator::acquire\<close>: the reservation is \<open>io_mem_acquire\<close>.\<close>

definition im_acquire ::
    "kv_alloc \<Rightarrow> x86_pte pt_env \<Rightarrow> Paddr \<Rightarrow> Paddr \<times> Paddr \<Rightarrow> IoMemAllocator \<Rightarrow> x86_pte pt_store \<Rightarrow>
     ((Error + IoMem) \<times> IoMemAllocator \<times> x86_pte pt_store) option" where
  "im_acquire kalloc env root r io st = do {
     (res, io1) \<leftarrow> io_mem_acquire io r;
     (case res of
       None \<Rightarrow> Some (Inl AccessDenied, io1, st)
     | Some q \<Rightarrow> do {
         (im, st1) \<leftarrow> im_new kalloc env st root q (PF_R OR PF_W) Uncacheable;
         Some (Inr im, io1, st1)
       })
   }"

definition im_reader :: "IoMem \<Rightarrow> VmReader option" where
  "im_reader self = do {
     v \<leftarrow> uadd (kv_start (im_area self)) (im_offset self);
     Some (reader_from_kernel_space \<lparr>ptr_vaddr = v\<rparr> (im_limit self))
   }"

definition im_writer :: "IoMem \<Rightarrow> VmWriter option" where
  "im_writer self = do {
     v \<leftarrow> uadd (kv_start (im_area self)) (im_offset self);
     Some (writer_from_kernel_space \<lparr>ptr_vaddr = v\<rparr> (im_limit self))
   }"

definition im_read :: "raw_memcpy \<Rightarrow> IoMem \<Rightarrow> io_read" where
  "im_read cp self offset writer m = do {
     offset \<leftarrow> uadd offset (im_offset self);
     n \<leftarrow> avail writer;
     if \<not> offset \<le> im_limit self \<or> im_limit self - offset < n then Some (Inl InvalidArgs, writer, m)
     else do {
       r \<leftarrow> im_reader self;
       r1 \<leftarrow> reader_skip r offset;
       (res, _, w1, m1) \<leftarrow> read_fallible cp r1 writer m;
       (case res of
         Inl (e, _) \<Rightarrow> Some (Inl e, w1, m1)
       | Inr _ \<Rightarrow> do {
           b \<leftarrow> has_avail w1;
           rassert (\<not> b);
           Some (Inr (), w1, m1)
         })
     }
   }"

definition im_write :: "raw_memcpy \<Rightarrow> IoMem \<Rightarrow> io_write" where
  "im_write cp self offset reader m = do {
     offset \<leftarrow> uadd offset (im_offset self);
     n \<leftarrow> remain reader;
     if \<not> offset \<le> im_limit self \<or> im_limit self - offset < n then Some (Inl InvalidArgs, reader, m)
     else do {
       w \<leftarrow> im_writer self;
       w1 \<leftarrow> writer_skip w offset;
       (res, _, r1, m1) \<leftarrow> write_fallible cp w1 reader m;
       (case res of
         Inl (e, _) \<Rightarrow> Some (Inl e, r1, m1)
       | Inr _ \<Rightarrow> do {
           b \<leftarrow> has_remain r1;
           rassert (\<not> b);
           Some (Inr (), r1, m1)
         })
     }
   }"

definition im_read_once :: "pod_ty \<Rightarrow> IoMem \<Rightarrow> usize \<Rightarrow> mem \<Rightarrow> (Error + 8 word list) option" where
  "im_read_once T self offset m = do {
     r \<leftarrow> im_reader self;
     r1 \<leftarrow> reader_skip r offset;
     (res, _) \<leftarrow> read_once T r1 m;
     Some res
   }"

definition im_write_once :: "pod_ty \<Rightarrow> IoMem \<Rightarrow> usize \<Rightarrow> 8 word list \<Rightarrow> mem \<Rightarrow> ((Error + unit) \<times> mem) option" where
  "im_write_once T self offset new_val m = do {
     w \<leftarrow> im_writer self;
     w1 \<leftarrow> writer_skip w offset;
     (res, _, m1) \<leftarrow> write_once T w1 new_val m;
     Some (res, m1)
   }"

section \<open>Where accesses go\<close>

abbreviation im_base :: "IoMem \<Rightarrow> Vaddr" where
  "im_base self \<equiv> kv_start (im_area self) + im_offset self"

definition im_wf :: "IoMem \<Rightarrow> bool" where
  "im_wf self \<longleftrightarrow> im_base self + im_limit self \<le> USIZE_MAX"

lemma im_wf_views:
  assumes "im_wf im"
  shows "im_reader im = Some (reader_from_kernel_space \<lparr>ptr_vaddr = im_base im\<rparr> (im_limit im))"
    "im_writer im = Some (writer_from_kernel_space \<lparr>ptr_vaddr = im_base im\<rparr> (im_limit im))"
  using assms by (simp_all add: im_wf_def im_reader_def im_writer_def uadd_def)

lemma im_slice_wf: "im_wf im \<Longrightarrow> im_slice im r = Some im' \<Longrightarrow> im_wf im'"
  by (auto simp: im_slice_def im_wf_def bind_eq_Some_conv checked rassert_def split: if_splits)

text \<open>A transfer at \<open>offset\<close> that is not refused goes to \<open>offset\<close> plus the offset of the region, from its base on.\<close>

lemma im_write_law:
  assumes "fallible_mem cp ms" "im_wf im" "rd_wf r" "apart (im_base im) (im_limit im) (ptr_vaddr (rd_cursor r)) (rd_len r)"
    "offset + im_offset im \<le> USIZE_MAX"
  shows "if offset + im_offset im + rd_len r \<le> im_limit im
    then \<exists>k \<le> rd_len r. im_write cp im offset r m = Some (if k < rd_len r then Inl PageFault else Inr (), rd_advance k r,
      copied m (ptr_vaddr (rd_cursor r)) (im_base im + (offset + im_offset im)) k)
    else im_write cp im offset r m = Some (Inl InvalidArgs, r, m)"
proof -
  let ?o = "offset + im_offset im"
  define w where "w = writer_from_kernel_space \<lparr>ptr_vaddr = im_base im\<rparr> (im_limit im)"
  note f = kernel_space_fields [OF assms(2) [unfolded im_wf_def], folded w_def]
  show ?thesis
  proof (cases "?o + rd_len r \<le> im_limit im")
    case True
    have sk: "writer_skip w ?o = Some (wr_advance ?o w)" and wf: "wr_wf (wr_advance ?o w)"
      using skip_wf(2) [OF f(4), of ?o] advance_wf(2) [OF f(4), of ?o] f(5,6) True by simp_all
    have mn: "min (rd_len r) (wr_len (wr_advance ?o w)) = rd_len r" using True f(5,6) by simp
    have ap: "io_apart r (wr_advance ?o w)" unfolding io_apart_def mn using assms(4) True f(5) by (auto simp: apart_def)
    obtain k where k: "k \<le> rd_len r" "read_fallible cp r (wr_advance ?o w) m =
        Some (if k < rd_len r then Inl (PageFault, k) else Inr k, rd_advance k r, wr_advance k (wr_advance ?o w),
          io_copied r (wr_advance ?o w) k m)"
      using fallible_mem.read_fallible_eq [OF assms(1,3) wf ap, of m, unfolded mn] by blast
    have wf': "rd_wf (rd_advance k r)" using assms(3) k(1) by (rule advance_wf(1))
    have "im_write cp im offset r m = Some (if k < rd_len r then Inl PageFault else Inr (), rd_advance k r,
        copied m (ptr_vaddr (rd_cursor r)) (im_base im + ?o) k)"
      using True assms(3,5) im_wf_views(2) [OF assms(2), folded w_def] sk k wf' f(5)
      by (auto simp: im_write_def uadd_def write_fallible_def has_remain_def io_copied_def add.assoc)
    then show ?thesis using True k(1) by auto
  next
    case False
    then show ?thesis using assms(3,5) by (auto simp: im_write_def uadd_def)
  qed
qed

lemma im_read_law:
  assumes "fallible_mem cp ms" "im_wf im" "wr_wf w" "apart (im_base im) (im_limit im) (ptr_vaddr (wr_cursor w)) (wr_len w)"
    "offset + im_offset im \<le> USIZE_MAX"
  shows "if offset + im_offset im + wr_len w \<le> im_limit im
    then \<exists>k \<le> wr_len w. im_read cp im offset w m = Some (if k < wr_len w then Inl PageFault else Inr (), wr_advance k w,
      copied m (im_base im + (offset + im_offset im)) (ptr_vaddr (wr_cursor w)) k)
    else im_read cp im offset w m = Some (Inl InvalidArgs, w, m)"
proof -
  let ?o = "offset + im_offset im"
  define r where "r = reader_from_kernel_space \<lparr>ptr_vaddr = im_base im\<rparr> (im_limit im)"
  note f = kernel_space_fields [OF assms(2) [unfolded im_wf_def], folded r_def]
  show ?thesis
  proof (cases "?o + wr_len w \<le> im_limit im")
    case True
    have sk: "reader_skip r ?o = Some (rd_advance ?o r)" and wf: "rd_wf (rd_advance ?o r)"
      using skip_wf(1) [OF f(1), of ?o] advance_wf(1) [OF f(1), of ?o] f(2,3) True by simp_all
    have mn: "min (rd_len (rd_advance ?o r)) (wr_len w) = wr_len w" using True f(2,3) by simp
    have ap: "io_apart (rd_advance ?o r) w" unfolding io_apart_def mn using assms(4) True f(2) by (auto simp: apart_def)
    obtain k where k: "k \<le> wr_len w" "read_fallible cp (rd_advance ?o r) w m =
        Some (if k < wr_len w then Inl (PageFault, k) else Inr k, rd_advance k (rd_advance ?o r), wr_advance k w,
          io_copied (rd_advance ?o r) w k m)"
      using fallible_mem.read_fallible_eq [OF assms(1) wf assms(3) ap, of m, unfolded mn] by blast
    have wf': "wr_wf (wr_advance k w)" using assms(3) k(1) by (rule advance_wf(2))
    have "im_read cp im offset w m = Some (if k < wr_len w then Inl PageFault else Inr (), wr_advance k w,
        copied m (im_base im + ?o) (ptr_vaddr (wr_cursor w)) k)"
      using True assms(3,5) im_wf_views(1) [OF assms(2), folded r_def] sk k wf' f(2)
      by (auto simp: im_read_def uadd_def has_avail_def io_copied_def add.assoc)
    then show ?thesis using True k(1) by auto
  next
    case False
    then show ?thesis using assms(3,5) by (auto simp: im_read_def uadd_def)
  qed
qed

text \<open>The region a driver gets.\<close>

definition device_prop :: PageProperty where
  "device_prop = \<lparr>flags = PF_R OR PF_W, cache = Uncacheable, priv_flags = 0\<rparr>"

lemma device_prop_ok: "x86_valid_prop False device_prop" "\<not> has_avail1 device_prop"
  by (simp_all add: x86_valid_prop_def prop_inv_def device_prop_def cacheable_def page_flags_all_def priv_flags_all_def
      page_flag_defs has_avail1_def)

lemma im_new_maps:
  fixes r :: "Paddr \<times> Paddr"
  defines "ps \<equiv> nat_align_down (fst r) PAGE_SIZE" and "pe \<equiv> nat_align_up (snd r) PAGE_SIZE"
  assumes pt: "page_table kernel_pt_config (kernel_ghost n) env" and al: "kvirt_allocator kalloc"
    and wf: "pt_wf kernel_pt_config (kernel_ghost n) st pos root" "no_stray pos st"
    and r: "fst r < snd r" "snd r \<le> 2 ^ 52" and area: "kalloc (pe - ps) = Inr (s, e)"
    and huge: "\<not> (pe - ps = 0x200000 \<and> 0x200000 dvd s \<and> 0x200000 dvd ps)"
    and room: "card (dom st) + 3 * (1 + (pe - ps) div PAGE_SIZE) \<le> n"
  shows "\<exists>im st' pos'. im_new kalloc env st root r (PF_R OR PF_W) Uncacheable = Some (im, st') \<and>
    pt_wf kernel_pt_config (kernel_ghost n) st' pos' root \<and> im_wf im \<and> im_area im = \<lparr>kv_start = s, kv_end = e\<rparr> \<and>
    im_pa im = fst r \<and> im_limit im = snd r - fst r \<and> im_base im + im_limit im \<le> e \<and>
    (\<forall>i < im_limit im. page_walk kernel_pt_config st' root (im_base im + i) = Some (Some (fst r + i, device_prop))) \<and>
    (\<forall>v. KERNEL_BASE_VADDR \<le> v \<and> v < 2 ^ 64 \<and> (v < s \<or> e \<le> v) \<longrightarrow>
       page_walk kernel_pt_config st' root v = page_walk kernel_pt_config st root v)"
proof -
  have lim: "snd r + (PAGE_SIZE - 1) \<le> USIZE_MAX" "fst r \<le> USIZE_MAX" "snd r \<le> USIZE_MAX"
    using r by (simp_all add: USIZE_MAX_def PAGE_SIZE_def)
  have down: "usize_align_down (fst r) PAGE_SIZE = Some ps"
    using usize_align_down_eq [OF lim(2) PAGE_SIZE_pow] by (simp add: ps_def)
  have up: "usize_align_up (snd r) PAGE_SIZE = Some pe"
    using usize_align_up_eq [OF lim(3) PAGE_SIZE_pow] lim(1) by (simp add: pe_def)
  have p: "ps \<le> fst r" "snd r \<le> pe" "PAGE_SIZE dvd ps" "PAGE_SIZE dvd pe" "pe \<le> 2 ^ 52" "PAGE_SIZE dvd pe - ps"
    using nat_align_down_le [of "fst r" PAGE_SIZE] nat_align_up_ge [of PAGE_SIZE "snd r"]
      nat_align_up_least [of PAGE_SIZE "2 ^ 52" "snd r"] r(2)
    by (simp_all add: ps_def pe_def PAGE_SIZE_def dvd_diff_nat)
  have h: "\<not> (pe - ps = 0x200000 \<and> 0x200000 dvd s + 0 \<and> 0x200000 dvd ps)" using huge by simp
  obtain st' pos' where m: "map_untracked_frames kalloc env st root (pe - ps) 0 (ps, pe) device_prop = Some (\<lparr>kv_start = s, kv_end = e\<rparr>, st')"
    "pt_wf kernel_pt_config (kernel_ghost n) st' pos' root"
    "\<And>v. KERNEL_BASE_VADDR \<le> v \<Longrightarrow> v < 2 ^ 64 \<Longrightarrow> page_walk kernel_pt_config st' root v =
      (if s \<le> v \<and> v < s + (pe - ps) then Some (Some (ps + (v - s), device_prop)) else page_walk kernel_pt_config st root v)"
    using map_untracked_frames_maps [OF pt al wf area p(6) _ p(3-5) _ device_prop_ok h room] by auto
  have b: "e = s + (pe - ps)" "VMALLOC_BASE_VADDR \<le> s" "e \<le> FRAME_METADATA_BASE_VADDR"
    using kvirt_allocator.alloc_range [OF al area] by auto
  define im where "im = \<lparr>im_area = \<lparr>kv_start = s, kv_end = e\<rparr>, im_offset = fst r - ps, im_limit = snd r - fst r, im_pa = fst r\<rparr>"
  have new: "im_new kalloc env st root r (PF_R OR PF_W) Uncacheable = Some (im, st')"
    using down up m(1) p(1) by (simp add: im_new_def im_def device_prop_def usub_def)
  have in_area: "im_base im + im_limit im \<le> e" using b(1) p(1,2) r(1) by (simp add: im_def)
  have fld: "im_base im = s + (fst r - ps)" "im_limit im = snd r - fst r" "im_pa im = fst r" "im_area im = \<lparr>kv_start = s, kv_end = e\<rparr>"
    by (simp_all add: im_def)
  have "page_walk kernel_pt_config st' root (im_base im + i) = Some (Some (fst r + i, device_prop))" if i: "i < im_limit im" for i
  proof -
    have "im_base im + i < s + (pe - ps)" using i in_area b(1) by simp
    moreover have "KERNEL_BASE_VADDR \<le> im_base im + i" "im_base im + i < 2 ^ 64"
      using b in_area i by (simp_all add: fld(1) KERNEL_BASE_VADDR_def VMALLOC_BASE_VADDR_def FRAME_METADATA_BASE_VADDR_def)
    moreover have "s \<le> im_base im + i" "ps + (im_base im + i - s) = fst r + i" using p(1) by (simp_all add: fld(1))
    ultimately show ?thesis using m(3) [of "im_base im + i"] by metis
  qed
  moreover have "im_wf im" using in_area b(3) by (simp add: im_wf_def USIZE_MAX_def FRAME_METADATA_BASE_VADDR_def)
  ultimately show ?thesis using new m(2,3) in_area fld b(1) by auto
qed

lemma copied_other: "a < dst \<or> dst + n \<le> a \<Longrightarrow> copied m src dst n a = m a"
  by (auto simp: copied_def)

text \<open>Regions of 32 bytes on a page, for the examples.\<close>

definition ex_im :: "usize \<Rightarrow> IoMem" where
  "ex_im off = \<lparr>im_area = \<lparr>kv_start = 4096, kv_end = 8192\<rparr>, im_offset = off, im_limit = 32, im_pa = 0xfec00000 + off\<rparr>"

lemma ex_im_fields:
  "im_wf (ex_im off) \<longleftrightarrow> 4128 + off \<le> USIZE_MAX" "kv_start (im_area (ex_im off)) = 4096" "im_limit (ex_im off) = 32"
  "im_offset (ex_im off) = off" "ptr_vaddr (rd_end ex_rd) = 18" "ptr_vaddr (wr_end ex_wr) = 104"
  using ex_wf(4,5,6,7) by (auto simp: ex_im_def im_wf_def)

lemma ex_im_write:
  "off \<le> 16 \<Longrightarrow> \<exists>r' m'. im_write riscv_memcpy_fallible (ex_im off) 0 ex_rd byte_mem = Some (Inr (), r', m')"
  by (simp add: im_write_def ex_im_def im_writer_def uadd_def USIZE_MAX_def writer_from_kernel_space_def writer_skip_def
    write_fallible_def read_fallible_def memcpy_fallible_def riscv_memcpy_fallible_def ex_wf(1) ex_wf(4)
    wrapping_add_def avail_def usub_def has_remain_def remain_def ex_rd_def reader_from_def reader_from_kernel_space_def
    as_virt_ptr_def)

section \<open>Properties\<close>

text \<open>C6: acquiring device memory reserves the range and maps it.  On a well-formed kernel page table, with a
  virtual-area allocator that has an area of the needed size left, and for a range that does not fill exactly one
  huge page, \<open>acquire\<close> does not panic.  It is refused with \<open>AccessDenied\<close>, without a change to the page table, exactly if the range leaves its
  I/O region or overlaps a range that is out.  Otherwise the range is recorded as out, the byte at index \<open>i\<close> of the new
  region translates to physical address \<open>start + i\<close>, uncached, readable and writable, and no kernel address outside the
  area changes its translation.\<close>

theorem io_mem_acquire_maps:
  fixes r :: "Paddr \<times> Paddr"
  defines "ps \<equiv> nat_align_down (fst r) PAGE_SIZE" and "pe \<equiv> nat_align_up (snd r) PAGE_SIZE"
  assumes pt: "page_table kernel_pt_config (kernel_ghost n) env" and al: "kvirt_allocator kalloc"
    and wf: "pt_wf kernel_pt_config (kernel_ghost n) st pos root" "no_stray pos st" and io: "io_inv io G"
    and r: "fst r < snd r" "snd r \<le> 2 ^ 52" and area: "kalloc (pe - ps) = Inr (s, e)"
    and huge: "\<not> (pe - ps = 0x200000 \<and> 0x200000 dvd s \<and> 0x200000 dvd ps)"
    and room: "card (dom st) + 3 * (1 + (pe - ps) div PAGE_SIZE) \<le> n"
  shows "\<exists>res io' st' pos'. im_acquire kalloc env root r io st = Some (res, io', st') \<and>
    pt_wf kernel_pt_config (kernel_ghost n) st' pos' root \<and>
    (case res of
       Inl err \<Rightarrow> err = AccessDenied \<and> st' = st \<and> io_inv io' G \<and>
         \<not> ((\<exists>i. find_allocator (allocators io) r = Some i \<and> units r \<subseteq> ra_managed (allocators io ! i)) \<and>
            (\<forall>q \<in> G. units r \<inter> units q = {}))
     | Inr im \<Rightarrow> io_inv io' (insert r G) \<and> (\<forall>q \<in> G. units r \<inter> units q = {}) \<and>
         im_paddr im = fst r \<and> im_length im = snd r - fst r \<and> im_base im + im_length im \<le> e \<and>
         (\<forall>i < im_length im. page_walk kernel_pt_config st' root (im_base im + i) = Some (Some (fst r + i, device_prop))) \<and>
         (\<forall>v. KERNEL_BASE_VADDR \<le> v \<and> v < 2 ^ 64 \<and> (v < s \<or> e \<le> v) \<longrightarrow>
            page_walk kernel_pt_config st' root v = page_walk kernel_pt_config st root v))"
proof -
  obtain res io' where a: "io_mem_acquire io r = Some (res, io')" "res \<in> {None, Some r}"
    "res = Some r \<longleftrightarrow> (\<exists>i. find_allocator (allocators io) r = Some i \<and> units r \<subseteq> ra_managed (allocators io ! i)) \<and>
       (\<forall>q \<in> G. units r \<inter> units q = {})"
    using io_mem_acquire_iff [OF io r(1)] by blast
  have inv: "io_inv io' (case res of None \<Rightarrow> G | Some q \<Rightarrow> insert q G)" using io_mem_acquire_ok [OF io a(1)] by blast
  show ?thesis
  proof (cases res)
    case None
    then have "im_acquire kalloc env root r io st = Some (Inl AccessDenied, io', st)" using a(1) by (simp add: im_acquire_def)
    then show ?thesis using None a(3) inv wf(1) by auto
  next
    case (Some q)
    then have q: "res = Some r" "\<forall>q \<in> G. units r \<inter> units q = {}" "io_inv io' (insert r G)" using a(2,3) inv by auto
    obtain im st' pos' where m: "im_new kalloc env st root r (PF_R OR PF_W) Uncacheable = Some (im, st')"
      "pt_wf kernel_pt_config (kernel_ghost n) st' pos' root" "im_pa im = fst r" "im_limit im = snd r - fst r" "im_base im + im_limit im \<le> e"
      "\<forall>i < im_limit im. page_walk kernel_pt_config st' root (im_base im + i) = Some (Some (fst r + i, device_prop))"
      "\<forall>v. KERNEL_BASE_VADDR \<le> v \<and> v < 2 ^ 64 \<and> (v < s \<or> e \<le> v) \<longrightarrow>
         page_walk kernel_pt_config st' root v = page_walk kernel_pt_config st root v"
      using im_new_maps [OF pt al wf r, folded ps_def pe_def, OF area huge room] by (elim exE conjE)
    have "im_acquire kalloc env root r io st = Some (Inr im, io', st')" using a(1) q(1) m(1) by (simp add: im_acquire_def)
    then show ?thesis using q m by (auto simp: im_paddr_def im_length_def)
  qed
qed

theorem io_mem_acquire_maps_witness:
  "\<exists>im io' st'. im_acquire first_area (pool_env 1024) 0x1000 (0xfec00010, 0xfec00030) (builder_new [(0xfec00000, 0xfee00000)]) kernel_st =
      Some (Inr im, io', st') \<and> im_length im = 0x20 \<and>
    page_walk kernel_pt_config st' 0x1000 (im_base im + 4) = Some (Some (0xfec00014, device_prop))"
proof -
  let ?r = "(0xfec00010, 0xfec00030) :: nat \<times> nat" and ?io = "builder_new [(0xfec00000, 0xfee00000)]"
  have io: "io_inv ?io {}" by (rule builder_new_inv) (simp add: USIZE_MAX_def)
  have al: "nat_align_down 0xfec00010 0x1000 = 0xfec00000" "nat_align_up 0xfec00030 0x1000 = 0xfec01000"
    by (simp_all add: nat_align_down_def nat_align_up_def)
  have "find_allocator (allocators ?io) ?r = Some 0 \<and> units ?r \<subseteq> ra_managed (allocators ?io ! 0)"
    by (auto simp: builder_new_def find_allocator_def ra_new_def ra_managed_def units_def)
  then have granted: "\<exists>i. find_allocator (allocators ?io) ?r = Some i \<and> units ?r \<subseteq> ra_managed (allocators ?io ! i)" by blast
  have "\<exists>res io' st' pos'. im_acquire first_area (pool_env 1024) 0x1000 ?r ?io kernel_st = Some (res, io', st') \<and>
    pt_wf kernel_pt_config (kernel_ghost 1024) st' pos' 0x1000 \<and>
    (case res of
       Inl err \<Rightarrow> err = AccessDenied \<and> st' = kernel_st \<and> io_inv io' {} \<and>
         \<not> ((\<exists>i. find_allocator (allocators ?io) ?r = Some i \<and> units ?r \<subseteq> ra_managed (allocators ?io ! i)) \<and>
            (\<forall>q \<in> {}. units ?r \<inter> units q = {}))
     | Inr im \<Rightarrow> io_inv io' (insert ?r {}) \<and> (\<forall>q \<in> {}. units ?r \<inter> units q = {}) \<and>
         im_paddr im = fst ?r \<and> im_length im = snd ?r - fst ?r \<and> im_base im + im_length im \<le> 0xffffe00000000000 \<and>
         (\<forall>i < im_length im. page_walk kernel_pt_config st' 0x1000 (im_base im + i) = Some (Some (fst ?r + i, device_prop))) \<and>
         (\<forall>v. KERNEL_BASE_VADDR \<le> v \<and> v < 2 ^ 64 \<and> (v < 0xffffdffffffff000 \<or> 0xffffe00000000000 \<le> v) \<longrightarrow>
            page_walk kernel_pt_config st' 0x1000 v = page_walk kernel_pt_config kernel_st 0x1000 v))"
    by (rule io_mem_acquire_maps [OF kernel_pt_of fa.kvirt_allocator_axioms kernel_st_wf kernel_st_facts(1) io])
      (simp_all add: al first_area_eq VMALLOC_BASE_VADDR_def FRAME_METADATA_BASE_VADDR_def kernel_st_facts(2) PAGE_SIZE_def)
  then obtain res io' st' where h: "im_acquire first_area (pool_env 1024) 0x1000 ?r ?io kernel_st = Some (res, io', st')"
    "case res of Inl err \<Rightarrow> False | Inr im \<Rightarrow> im_length im = 0x20 \<and>
       (\<forall>i < im_length im. page_walk kernel_pt_config st' 0x1000 (im_base im + i) = Some (Some (0xfec00010 + i, device_prop)))"
    using granted by (elim exE conjE) (simp split: sum.splits)
  then obtain im where "res = Inr im" "im_length im = 0x20"
    "\<And>i. i < 0x20 \<Longrightarrow> page_walk kernel_pt_config st' 0x1000 (im_base im + i) = Some (Some (0xfec00010 + i, device_prop))"
    by (cases res) auto
  note im = this
  have "page_walk kernel_pt_config st' 0x1000 (im_base im + 4) = Some (Some (0xfec00014, device_prop))" using im(3) [of 4] by simp
  then show ?thesis using h(1) im(1,2) by blast
qed

text \<open>Transfers stay in their region, and land where they should if the region starts on a page.  A read or
  write at any offset returns; a write changes no byte outside the region, a read none outside the destination; when
  the region was not shifted by its offset in the first page, a successful transfer moves all requested
  bytes to or from exactly the requested offset.\<close>

lemma io_mem_transfers:
  assumes "fallible_mem cp ms" "im_wf im" "offset + im_offset im \<le> USIZE_MAX"
    "rd_wf r" "apart (im_base im) (im_limit im) (ptr_vaddr (rd_cursor r)) (rd_len r)"
    "wr_wf w" "apart (im_base im) (im_limit im) (ptr_vaddr (wr_cursor w)) (wr_len w)"
  shows "(\<exists>res r' m'. im_write cp im offset r m = Some (res, r', m') \<and> rd_wf r' \<and>
      (\<forall>a. a < im_base im \<or> im_base im + im_limit im \<le> a \<longrightarrow> m' a = m a) \<and>
      (im_offset im = 0 \<and> res = Inr () \<longrightarrow> r' = rd_advance (rd_len r) r \<and>
         load m' (im_base im + offset) (rd_len r) = load m (ptr_vaddr (rd_cursor r)) (rd_len r))) \<and>
    (\<exists>res w' m'. im_read cp im offset w m = Some (res, w', m') \<and> wr_wf w' \<and>
      (\<forall>a. a < ptr_vaddr (wr_cursor w) \<or> ptr_vaddr (wr_end w) \<le> a \<longrightarrow> m' a = m a) \<and>
      (im_offset im = 0 \<and> res = Inr () \<longrightarrow> w' = wr_advance (wr_len w) w \<and>
         load m' (ptr_vaddr (wr_cursor w)) (wr_len w) = load m (im_base im + offset) (wr_len w)))"
proof (intro conjI)
  let ?d = "im_base im + (offset + im_offset im)"
  have out: "copied m x ?d k a = m a" if "offset + im_offset im + rd_len r \<le> im_limit im" "k \<le> rd_len r"
    "a < im_base im \<or> im_base im + im_limit im \<le> a" for x k a
    by (rule copied_other) (use that in linarith)
  show "\<exists>res r' m'. im_write cp im offset r m = Some (res, r', m') \<and> rd_wf r' \<and>
      (\<forall>a. a < im_base im \<or> im_base im + im_limit im \<le> a \<longrightarrow> m' a = m a) \<and>
      (im_offset im = 0 \<and> res = Inr () \<longrightarrow> r' = rd_advance (rd_len r) r \<and>
         load m' (im_base im + offset) (rd_len r) = load m (ptr_vaddr (rd_cursor r)) (rd_len r))"
  proof (cases "offset + im_offset im + rd_len r \<le> im_limit im")
    case True
    then obtain k where k: "k \<le> rd_len r" "im_write cp im offset r m = Some (if k < rd_len r then Inl PageFault else Inr (), rd_advance k r,
        copied m (ptr_vaddr (rd_cursor r)) ?d k)" using im_write_law [OF assms(1,2,4,5,3), of m] by auto
    have "k = rd_len r \<Longrightarrow> im_offset im = 0 \<Longrightarrow>
        load (copied m (ptr_vaddr (rd_cursor r)) ?d k) (im_base im + offset) (rd_len r) = load m (ptr_vaddr (rd_cursor r)) (rd_len r)"
      by (simp add: load_copied)
    then show ?thesis using k out [OF True k(1)] advance_wf(1) [OF assms(4) k(1)] by auto
  next
    case False
    then show ?thesis using im_write_law [OF assms(1,2,4,5,3), of m] assms(4) by auto
  qed
next
  let ?s = "im_base im + (offset + im_offset im)"
  have out: "copied m x (ptr_vaddr (wr_cursor w)) k a = m a" if "k \<le> wr_len w"
    "a < ptr_vaddr (wr_cursor w) \<or> ptr_vaddr (wr_end w) \<le> a" for x k a
    by (rule copied_other) (use that assms(6) in \<open>auto simp: wr_wf_def\<close>)
  show "\<exists>res w' m'. im_read cp im offset w m = Some (res, w', m') \<and> wr_wf w' \<and>
      (\<forall>a. a < ptr_vaddr (wr_cursor w) \<or> ptr_vaddr (wr_end w) \<le> a \<longrightarrow> m' a = m a) \<and>
      (im_offset im = 0 \<and> res = Inr () \<longrightarrow> w' = wr_advance (wr_len w) w \<and>
         load m' (ptr_vaddr (wr_cursor w)) (wr_len w) = load m (im_base im + offset) (wr_len w))"
  proof (cases "offset + im_offset im + wr_len w \<le> im_limit im")
    case True
    then obtain k where k: "k \<le> wr_len w" "im_read cp im offset w m = Some (if k < wr_len w then Inl PageFault else Inr (), wr_advance k w,
        copied m ?s (ptr_vaddr (wr_cursor w)) k)" using im_read_law [OF assms(1,2,6,7,3), of m] by auto
    have "k = wr_len w \<Longrightarrow> im_offset im = 0 \<Longrightarrow>
        load (copied m ?s (ptr_vaddr (wr_cursor w)) k) (ptr_vaddr (wr_cursor w)) (wr_len w) = load m (im_base im + offset) (wr_len w)"
      by (simp add: load_copied)
    then show ?thesis using k out [OF k(1)] advance_wf(2) [OF assms(6) k(1)] by auto
  next
    case False
    then show ?thesis using im_read_law [OF assms(1,2,6,7,3), of m] assms(6) by auto
  qed
qed

text \<open>A region that does not start on a page applies its offset twice.  \<open>reader\<close> and \<open>writer\<close> already start at the
  region, yet \<open>write\<close> (and \<open>read\<close>) adds the offset once more.  A write that fits into the region but not with the
  offset added again is refused with \<open>InvalidArgs\<close>; a write that succeeds stores the bytes \<open>im_offset\<close> too far, and
  \<open>read_once\<close>, which does not add the offset, still answers what it answered before the write.\<close>

lemma io_mem_offset_applied_twice:
  assumes "fallible_mem cp ms" "im_wf im" "rd_wf r" "apart (im_base im) (im_limit im) (ptr_vaddr (rd_cursor r)) (rd_len r)"
    "0 < rd_len r" "offset + rd_len r \<le> im_limit im" "rd_len r \<le> im_offset im" "size_of T = rd_len r"
  shows "if im_limit im < offset + im_offset im + rd_len r
    then im_write cp im offset r m = Some (Inl InvalidArgs, r, m)
    else \<forall>r' m'. im_write cp im offset r m = Some (Inr (), r', m') \<longrightarrow>
      load m' (im_base im + im_offset im + offset) (rd_len r) = load m (ptr_vaddr (rd_cursor r)) (rd_len r) \<and>
      im_read_once T im offset m' = im_read_once T im offset m"
proof -
  have o: "offset + im_offset im \<le> USIZE_MAX" using assms(2,6) by (simp add: im_wf_def)
  note law = im_write_law [OF assms(1-4) o, of m]
  have once: "im_read_once T im offset m' = im_read_once T im offset m"
    if "load m' (im_base im + offset) (size_of T) = load m (im_base im + offset) (size_of T)" for m'
  proof -
    define v where "v = reader_from_kernel_space \<lparr>ptr_vaddr = im_base im\<rparr> (im_limit im)"
    note f = kernel_space_fields(1,2,3) [OF assms(2) [unfolded im_wf_def], folded v_def]
    have "reader_skip v offset = Some (rd_advance offset v)" "rd_wf (rd_advance offset v)"
      using skip_wf(1) [OF f(1), of offset] advance_wf(1) [OF f(1), of offset] f(2,3) assms(6) by simp_all
    then show ?thesis
      using that f im_wf_views(1) [OF assms(2), folded v_def] by (simp add: im_read_once_def read_once_def read_volatile_def)
  qed
  show ?thesis
  proof (cases "im_limit im < offset + im_offset im + rd_len r")
    case True
    then show ?thesis using law by simp
  next
    case False
    have "load m' (im_base im + im_offset im + offset) (rd_len r) = load m (ptr_vaddr (rd_cursor r)) (rd_len r) \<and>
        im_read_once T im offset m' = im_read_once T im offset m"
      if "im_write cp im offset r m = Some (Inr (), r', m')" for r' m'
    proof -
      have m': "m' = copied m (ptr_vaddr (rd_cursor r)) (im_base im + im_offset im + offset) (rd_len r)"
      proof -
        obtain k where k: "k \<le> rd_len r" "im_write cp im offset r m = Some (if k < rd_len r then Inl PageFault else Inr (), rd_advance k r,
            copied m (ptr_vaddr (rd_cursor r)) (im_base im + (offset + im_offset im)) k)" using law False by auto
        moreover have "k = rd_len r" using k that by (auto split: if_splits)
        moreover have "im_base im + (offset + im_offset im) = im_base im + im_offset im + offset" by simp
        ultimately show ?thesis using that by (simp del: add.assoc)
      qed
      have "load m' (im_base im + offset) (size_of T) = load m (im_base im + offset) (size_of T)"
        unfolding m' by (rule load_copied_apart) (use assms(7,8) in \<open>simp add: apart_def\<close>)
      then have "im_read_once T im offset m' = im_read_once T im offset m" by (rule once)
      moreover have "load m' (im_base im + im_offset im + offset) (rd_len r) = load m (ptr_vaddr (rd_cursor r)) (rd_len r)"
        unfolding m' by (rule load_copied) simp
      ultimately show ?thesis by blast
    qed
    then show ?thesis using False by auto
  qed
qed

end
