(* ===== verification/Cpu_Set.thy ===== *)
theory Cpu_Set
  imports Rust_Prelude
begin

text \<open>
  Sets of CPUs, \<open>src/ostd/src/cpu/set.rs\<close>: bit sets over 64-bit words, and their atomic variant.  \<open>num_cpus()\<close> is the
  argument \<open>n\<close>; a \<open>CpuId\<close> is its number.
\<close>

unbundle bit_operations_syntax

section \<open>Operations\<close>

record CpuSet =
  cs_bits :: "64 word list"

definition BITS_PER_PART :: usize where "BITS_PER_PART = 64"

definition part_idx :: "nat \<Rightarrow> usize" where
  "part_idx cpu_id = cpu_id div BITS_PER_PART"

definition bit_idx :: "nat \<Rightarrow> usize" where
  "bit_idx cpu_id = cpu_id mod BITS_PER_PART"

definition parts_for_cpus :: "usize \<Rightarrow> usize option" where
  "parts_for_cpus num_cpus = div_ceil num_cpus BITS_PER_PART"

text \<open>\<open>Vec::resize\<close>.\<close>

definition resize :: "nat \<Rightarrow> 'a \<Rightarrow> 'a list \<Rightarrow> 'a list" where
  "resize k v xs = take k xs @ replicate (k - length xs) v"

definition with_capacity_val :: "usize \<Rightarrow> 64 word \<Rightarrow> CpuSet option" where
  "with_capacity_val num_cpus val = do {
     num_parts \<leftarrow> parts_for_cpus num_cpus;
     Some \<lparr>cs_bits = resize num_parts val []\<rparr>
   }"

definition clear_nonexistent_cpu_bits :: "usize \<Rightarrow> CpuSet \<Rightarrow> CpuSet option" where
  "clear_nonexistent_cpu_bits n self = (
     if n mod BITS_PER_PART \<noteq> 0 then do {
       num_parts \<leftarrow> parts_for_cpus n;
       i \<leftarrow> usub num_parts 1;
       w \<leftarrow> rindex (cs_bits self) i;
       bs \<leftarrow> rset (cs_bits self) i (w AND (push_bit (n mod BITS_PER_PART) 1 - 1));
       Some (self\<lparr>cs_bits := bs\<rparr>)
     }
     else Some self)"

definition new_full :: "usize \<Rightarrow> CpuSet option" where
  "new_full n = do {
     ret \<leftarrow> with_capacity_val n (NOT 0);
     clear_nonexistent_cpu_bits n ret
   }"

definition new_empty :: "usize \<Rightarrow> CpuSet option" where
  "new_empty n = with_capacity_val n 0"

definition cs_add :: "CpuSet \<Rightarrow> nat \<Rightarrow> CpuSet option" where
  "cs_add self cpu_id = do {
     let part_idx = part_idx cpu_id;
     let bit_idx = bit_idx cpu_id;
     let bits = (if part_idx \<ge> length (cs_bits self) then resize (part_idx + 1) 0 (cs_bits self) else cs_bits self);
     w \<leftarrow> rindex bits part_idx;
     bs \<leftarrow> rset bits part_idx (w OR push_bit bit_idx 1);
     Some (self\<lparr>cs_bits := bs\<rparr>)
   }"

definition cs_remove :: "CpuSet \<Rightarrow> nat \<Rightarrow> CpuSet option" where
  "cs_remove self cpu_id = do {
     let part_idx = part_idx cpu_id;
     let bit_idx = bit_idx cpu_id;
     if part_idx < length (cs_bits self) then do {
       w \<leftarrow> rindex (cs_bits self) part_idx;
       bs \<leftarrow> rset (cs_bits self) part_idx (w AND NOT (push_bit bit_idx 1));
       Some (self\<lparr>cs_bits := bs\<rparr>)
     }
     else Some self
   }"

definition cs_contains :: "CpuSet \<Rightarrow> nat \<Rightarrow> bool option" where
  "cs_contains self cpu_id = do {
     let part_idx = part_idx cpu_id;
     let bit_idx = bit_idx cpu_id;
     if part_idx < length (cs_bits self) then do {
       w \<leftarrow> rindex (cs_bits self) part_idx;
       Some (w AND push_bit bit_idx 1 \<noteq> 0)
     }
     else Some False
   }"

text \<open>\<open>u64::count_ones\<close>, and the loop of \<open>count\<close> over the words.\<close>

definition count_ones :: "64 word \<Rightarrow> nat" where
  "count_ones w = length (filter (bit w) [0..<64])"

fun count_loop :: "64 word list \<Rightarrow> usize \<Rightarrow> usize option" where
  "count_loop [] count = Some count"
| "count_loop (part # parts) count = do {
     count' \<leftarrow> uadd count (count_ones part);
     count_loop parts count'
   }"

definition cs_count :: "CpuSet \<Rightarrow> usize option" where
  "cs_count self = count_loop (cs_bits self) 0"

definition cs_is_empty :: "CpuSet \<Rightarrow> bool" where
  "cs_is_empty self = list_all (\<lambda>part. part = 0) (cs_bits self)"

text \<open>The loop of \<open>is_full\<close> from word \<open>idx\<close> on, with \<open>len\<close> words in total.\<close>

fun is_full_loop :: "usize \<Rightarrow> usize \<Rightarrow> 64 word list \<Rightarrow> usize \<Rightarrow> bool" where
  "is_full_loop n len [] idx = True"
| "is_full_loop n len (part # parts) idx =
     (if part \<noteq> (if idx = len - 1 \<and> n mod BITS_PER_PART \<noteq> 0 then push_bit (n mod BITS_PER_PART) 1 - 1 else NOT 0) then False
      else is_full_loop n len parts (idx + 1))"

definition cs_is_full :: "usize \<Rightarrow> CpuSet \<Rightarrow> bool" where
  "cs_is_full n self = is_full_loop n (length (cs_bits self)) (cs_bits self) 0"

definition cs_add_all :: "usize \<Rightarrow> CpuSet \<Rightarrow> CpuSet option" where
  "cs_add_all n self = clear_nonexistent_cpu_bits n (self\<lparr>cs_bits := map (\<lambda>_. NOT 0) (cs_bits self)\<rparr>)"

definition cs_clear :: "CpuSet \<Rightarrow> CpuSet" where
  "cs_clear self = self\<lparr>cs_bits := map (\<lambda>_. 0) (cs_bits self)\<rparr>"

definition cs_iter :: "CpuSet \<Rightarrow> nat list option" where
  "cs_iter self = do {
     end' \<leftarrow> umul (length (cs_bits self)) BITS_PER_PART;
     Some (map (\<lambda>id. id mod 2 ^ 32)
       (filter (\<lambda>id. cs_bits self ! (id div BITS_PER_PART) AND push_bit (id mod BITS_PER_PART) 1 \<noteq> 0) [0..<end']))
   }"

subsection \<open>The atomic set\<close>

record AtomicCpuSet =
  acs_bits :: "64 word list"

definition acs_new :: "CpuSet \<Rightarrow> AtomicCpuSet" where
  "acs_new v = \<lparr>acs_bits = cs_bits v\<rparr>"

text \<open>\<open>add\<close>, \<open>remove\<close> and \<open>contains\<close> are one atomic operation on one word.\<close>

definition acs_add :: "AtomicCpuSet \<Rightarrow> nat \<Rightarrow> AtomicCpuSet option" where
  "acs_add self cpu_id = do {
     let part_idx = part_idx cpu_id;
     let bit_idx = bit_idx cpu_id;
     if part_idx < length (acs_bits self) then do {
       w \<leftarrow> rindex (acs_bits self) part_idx;
       bs \<leftarrow> rset (acs_bits self) part_idx (w OR push_bit bit_idx 1);
       Some (self\<lparr>acs_bits := bs\<rparr>)
     }
     else Some self
   }"

definition acs_remove :: "AtomicCpuSet \<Rightarrow> nat \<Rightarrow> AtomicCpuSet option" where
  "acs_remove self cpu_id = do {
     let part_idx = part_idx cpu_id;
     let bit_idx = bit_idx cpu_id;
     if part_idx < length (acs_bits self) then do {
       w \<leftarrow> rindex (acs_bits self) part_idx;
       bs \<leftarrow> rset (acs_bits self) part_idx (w AND NOT (push_bit bit_idx 1));
       Some (self\<lparr>acs_bits := bs\<rparr>)
     }
     else Some self
   }"

definition acs_contains :: "AtomicCpuSet \<Rightarrow> nat \<Rightarrow> bool option" where
  "acs_contains self cpu_id = do {
     let part_idx = part_idx cpu_id;
     let bit_idx = bit_idx cpu_id;
     if part_idx < length (acs_bits self) then do {
       w \<leftarrow> rindex (acs_bits self) part_idx;
       Some (w AND push_bit bit_idx 1 \<noteq> 0)
     }
     else Some False
   }"

text \<open>One round of the loops of \<open>load\<close> and \<open>store\<close>: the next word is read or written.\<close>

definition acs_load_next :: "AtomicCpuSet \<Rightarrow> 64 word list \<Rightarrow> 64 word list option" where
  "acs_load_next self acc = do { w \<leftarrow> rindex (acs_bits self) (length acc); Some (acc @ [w]) }"

definition acs_store_next :: "AtomicCpuSet \<Rightarrow> CpuSet \<Rightarrow> nat \<Rightarrow> AtomicCpuSet option" where
  "acs_store_next self val i = do {
     w \<leftarrow> rindex (cs_bits val) i;
     bs \<leftarrow> rset (acs_bits self) i w;
     Some (self\<lparr>acs_bits := bs\<rparr>)
   }"

section \<open>The set of a bit vector\<close>

definition members :: "64 word list \<Rightarrow> nat set" where
  "members bs = {i. i < 64 * length bs \<and> bit (bs ! (i div 64)) (i mod 64)}"

definition parts_ok :: "usize \<Rightarrow> 64 word list \<Rightarrow> bool" where
  "parts_ok n bs \<longleftrightarrow> length bs = (n + 63) div 64 \<and> members bs \<subseteq> {..<n}"

lemma parts_for_cpus_eq: "parts_for_cpus n = Some ((n + 63) div 64)"
  by (simp add: parts_for_cpus_def BITS_PER_PART_def div_ceil_eq)

lemma part_lt: "c < n \<Longrightarrow> c div 64 < (n + 63) div (64 :: nat)"
  by (simp add: less_eq_div_iff_mult_less_eq Suc_le_eq [symmetric] div_le_mono flip: add_Suc_right)

lemma one_bit: "k < 64 \<Longrightarrow> bit (2 ^ k :: 64 word) j \<longleftrightarrow> j = k"
  by (auto simp: bit_simps)

lemma test_bit_iff:
  assumes "k < 64"
  shows "(w :: 64 word) AND 2 ^ k \<noteq> 0 \<longleftrightarrow> bit w k"
proof -
  have "bit (w AND 2 ^ k) j \<longleftrightarrow> j = k \<and> bit w k" for j using assms by (auto simp: bit_and_iff one_bit)
  then show ?thesis by (metis bit_0_eq bit_word_eqI bot_apply bot_bool_def)
qed

lemma low_mask_bit: "k < 64 \<Longrightarrow> bit (2 ^ k - 1 :: 64 word) j \<longleftrightarrow> j < k"
proof -
  assume "k < 64"
  have "2 ^ k - 1 = (mask k :: 64 word)" by (simp add: mask_eq_exp_minus_1)
  then show ?thesis using \<open>k < 64\<close> by (auto simp: bit_mask_iff)
qed

lemma members_update:
  assumes "c div 64 < length bs"
  shows "members (bs[c div 64 := bs ! (c div 64) OR 2 ^ (c mod 64)]) = insert c (members bs)"
    and "members (bs[c div 64 := bs ! (c div 64) AND NOT (2 ^ (c mod 64))]) = members bs - {c}"
proof -
  have c: "c < 64 * length bs" using assms by (simp add: less_mult_imp_div_less div_less_iff_less_mult mult.commute)
  have eq: "i = c" if "i div 64 = c div 64" "i mod 64 = c mod 64" for i using that by (metis div_mult_mod_eq)
  show "members (bs[c div 64 := bs ! (c div 64) OR 2 ^ (c mod 64)]) = insert c (members bs)"
    using assms c eq by (auto simp: members_def nth_list_update bit_or_iff one_bit split: if_splits)
  show "members (bs[c div 64 := bs ! (c div 64) AND NOT (2 ^ (c mod 64))]) = members bs - {c}"
    using assms c eq by (auto simp: members_def nth_list_update bit_and_iff bit_not_iff one_bit split: if_splits)
qed

lemma members_bound: "finite (members bs)" "i \<in> members bs \<Longrightarrow> i < 64 * length bs"
  by (auto simp: members_def)

lemma parts_cover: "n \<le> 64 * ((n + 63) div (64 :: nat))"
  by linarith

section \<open>The contract of a set of CPUs\<close>

text \<open>What both sets promise to their clients, and a client: any sequence of additions and removals of existing CPUs, with
  what a membership test answers at the end.\<close>

datatype cpu_op = Add nat | Remove nat

fun op_cpu :: "cpu_op \<Rightarrow> nat" where
  "op_cpu (Add c) = c"
| "op_cpu (Remove c) = c"

fun op_set :: "cpu_op \<Rightarrow> nat set \<Rightarrow> nat set" where
  "op_set (Add c) S = insert c S"
| "op_set (Remove c) S = S - {c}"

fun op_run :: "('b \<Rightarrow> nat \<Rightarrow> 'b option) \<Rightarrow> ('b \<Rightarrow> nat \<Rightarrow> 'b option) \<Rightarrow> cpu_op list \<Rightarrow> 'b \<Rightarrow> 'b option" where
  "op_run add rem [] s = Some s"
| "op_run add rem (Add c # ops) s = do { s1 \<leftarrow> add s c; op_run add rem ops s1 }"
| "op_run add rem (Remove c # ops) s = do { s1 \<leftarrow> rem s c; op_run add rem ops s1 }"

locale cpu_set =
  fixes n :: usize and inv :: "'b \<Rightarrow> bool" and abs :: "'b \<Rightarrow> nat set"
    and add rem :: "'b \<Rightarrow> nat \<Rightarrow> 'b option" and contains :: "'b \<Rightarrow> nat \<Rightarrow> bool option"
  assumes add_law: "inv s \<Longrightarrow> c < n \<Longrightarrow> \<exists>s'. add s c = Some s' \<and> inv s' \<and> abs s' = insert c (abs s)"
    and rem_law: "inv s \<Longrightarrow> c < n \<Longrightarrow> \<exists>s'. rem s c = Some s' \<and> inv s' \<and> abs s' = abs s - {c}"
    and contains_law: "inv s \<Longrightarrow> contains s c = Some (c \<in> abs s)"
begin

lemma run_refines:
  "inv s \<Longrightarrow> \<forall>p \<in> set ops. op_cpu p < n \<Longrightarrow>
     \<exists>s'. op_run add rem ops s = Some s' \<and> inv s' \<and> abs s' = fold op_set ops (abs s)"
proof (induction ops arbitrary: s)
  case (Cons p ops)
  then have c: "op_cpu p < n" by simp
  show ?case
  proof (cases p)
    case (Add c)
    then obtain s1 where "add s c = Some s1" "inv s1" "abs s1 = insert c (abs s)" using add_law [OF Cons.prems(1), of c] c by auto
    then show ?thesis using Cons.IH [of s1] Cons.prems(2) Add by auto
  next
    case (Remove c)
    then obtain s1 where "rem s c = Some s1" "inv s1" "abs s1 = abs s - {c}" using rem_law [OF Cons.prems(1), of c] c by auto
    then show ?thesis using Cons.IH [of s1] Cons.prems(2) Remove by auto
  qed
qed simp

end

definition cs_inv :: "usize \<Rightarrow> CpuSet \<Rightarrow> bool" where
  "cs_inv n s \<longleftrightarrow> parts_ok n (cs_bits s)"

definition acs_inv :: "usize \<Rightarrow> AtomicCpuSet \<Rightarrow> bool" where
  "acs_inv n s \<longleftrightarrow> parts_ok n (acs_bits s)"

lemmas set_defs = BITS_PER_PART_def part_idx_def bit_idx_def rindex_def rset_def Let_def

lemma contains_bits: "c div 64 < length bs \<Longrightarrow> bs ! (c div 64) AND 2 ^ (c mod 64) \<noteq> 0 \<longleftrightarrow> c \<in> members bs"
  by (auto simp: members_def test_bit_iff div_less_iff_less_mult mult.commute)

lemma not_member: "\<not> c div 64 < length bs \<Longrightarrow> c \<notin> members bs"
  by (auto simp: members_def div_less_iff_less_mult mult.commute)

interpretation cs: cpu_set n "cs_inv n" "\<lambda>s. members (cs_bits s)" cs_add cs_remove cs_contains for n
proof
  fix s c
  assume inv: "cs_inv n s"
  show "cs_contains s c = Some (c \<in> members (cs_bits s))"
    using contains_bits [of c "cs_bits s"] not_member [of c "cs_bits s"] by (auto simp: cs_contains_def set_defs)
  assume "c < n"
  then have c: "c div 64 < length (cs_bits s)" using inv part_lt by (simp add: cs_inv_def parts_ok_def)
  show "\<exists>s'. cs_add s c = Some s' \<and> cs_inv n s' \<and> members (cs_bits s') = insert c (members (cs_bits s))"
    using c inv \<open>c < n\<close> by (auto simp: cs_add_def set_defs members_update cs_inv_def parts_ok_def)
  show "\<exists>s'. cs_remove s c = Some s' \<and> cs_inv n s' \<and> members (cs_bits s') = members (cs_bits s) - {c}"
    using c inv by (auto simp: cs_remove_def set_defs members_update cs_inv_def parts_ok_def)
qed

interpretation acs: cpu_set n "acs_inv n" "\<lambda>s. members (acs_bits s)" acs_add acs_remove acs_contains for n
proof
  fix s c
  assume inv: "acs_inv n s"
  show "acs_contains s c = Some (c \<in> members (acs_bits s))"
    using contains_bits [of c "acs_bits s"] not_member [of c "acs_bits s"] by (auto simp: acs_contains_def set_defs)
  assume "c < n"
  then have c: "c div 64 < length (acs_bits s)" using inv part_lt by (simp add: acs_inv_def parts_ok_def)
  show "\<exists>s'. acs_add s c = Some s' \<and> acs_inv n s' \<and> members (acs_bits s') = insert c (members (acs_bits s))"
    using c inv \<open>c < n\<close> by (auto simp: acs_add_def set_defs members_update acs_inv_def parts_ok_def)
  show "\<exists>s'. acs_remove s c = Some s' \<and> acs_inv n s' \<and> members (acs_bits s') = members (acs_bits s) - {c}"
    using c inv by (auto simp: acs_remove_def set_defs members_update acs_inv_def parts_ok_def)
qed

section \<open>Whole-set operations\<close>

lemma members_replicate_0: "members (replicate k 0) = {}"
  by (auto simp: members_def)

lemma new_empty_ok: "\<exists>s. new_empty n = Some s \<and> cs_inv n s \<and> members (cs_bits s) = {}"
  by (simp add: new_empty_def with_capacity_val_def parts_for_cpus_eq resize_def cs_inv_def parts_ok_def members_replicate_0)

lemma below_iff: "b < 64 \<Longrightarrow> r < 64 \<Longrightarrow> 64 * a + b < 64 * q + r \<longleftrightarrow> a < q \<or> a = q \<and> b < (r :: nat)"
  by (cases a q rule: linorder_cases) auto

lemma clear_nonexistent_ok:
  assumes "cs_bits s = replicate ((n + 63) div 64) (NOT 0)"
  shows "\<exists>s'. clear_nonexistent_cpu_bits n s = Some s' \<and> cs_inv n s' \<and> members (cs_bits s') = {..<n}"
proof (cases "n mod 64 = 0")
  case True
  then have "members (cs_bits s) = {..<n}" "length (cs_bits s) = (n + 63) div 64"
    unfolding assms by (auto simp: members_def bit_not_iff elim!: dvdE simp flip: dvd_eq_mod_eq_0)
  then show ?thesis using True by (simp add: clear_nonexistent_cpu_bits_def BITS_PER_PART_def cs_inv_def parts_ok_def)
next
  case False
  define q r where "q = n div 64" and "r = n mod 64"
  have n: "n = 64 * q + r" "0 < r" "r < 64" using False by (simp_all add: q_def r_def)
  have parts: "(n + 63) div 64 = q + 1" using n by simp
  define p where "p = q + 1"
  define bs where "bs = (replicate p (NOT 0))[q := 2 ^ r - 1 :: 64 word]"
  have bs: "length bs = p" "j < p \<Longrightarrow> bs ! j = (if j = q then 2 ^ r - 1 else NOT 0)" for j
    by (simp_all add: bs_def nth_list_update p_def del: replicate.simps list_update.simps)
  have "members bs = {..<n}"
  proof (intro set_eqI)
    fix i :: nat
    have "i \<in> members bs \<longleftrightarrow> i div 64 < p \<and> (i div 64 = q \<longrightarrow> i mod 64 < r)"
      using n(3) by (auto simp: members_def bs low_mask_bit bit_not_iff div_less_iff_less_mult mult.commute)
    also have "\<dots> \<longleftrightarrow> 64 * (i div 64) + i mod 64 < 64 * q + r"
      by (subst below_iff) (use n(3) in \<open>auto simp: p_def less_Suc_eq\<close>)
    also have "\<dots> \<longleftrightarrow> i < n" unfolding n(1) by simp
    finally show "i \<in> members bs \<longleftrightarrow> i \<in> {..<n}" by simp
  qed
  moreover have "clear_nonexistent_cpu_bits n s = Some (s\<lparr>cs_bits := bs\<rparr>)"
    using False parts assms
    by (simp add: clear_nonexistent_cpu_bits_def parts_for_cpus_eq set_defs usub_def r_def bs_def p_def
      del: replicate.simps list_update.simps)
  ultimately show ?thesis using parts bs(1) by (simp add: cs_inv_def parts_ok_def p_def)
qed

lemma cs_add_all_ok:
  assumes "cs_inv n s"
  shows "\<exists>s'. cs_add_all n s = Some s' \<and> cs_inv n s' \<and> members (cs_bits s') = {..<n}"
  unfolding cs_add_all_def
  by (rule clear_nonexistent_ok) (use assms in \<open>simp add: cs_inv_def parts_ok_def map_replicate_const\<close>)

lemma new_full_ok: "\<exists>s. new_full n = Some s \<and> cs_inv n s \<and> members (cs_bits s) = {..<n}"
  using clear_nonexistent_ok [of "\<lparr>cs_bits = replicate ((n + 63) div 64) (NOT 0)\<rparr>" n]
  by (simp add: new_full_def with_capacity_val_def parts_for_cpus_eq resize_def)

lemma cs_clear_ok: "cs_inv n s \<Longrightarrow> cs_inv n (cs_clear s) \<and> members (cs_bits (cs_clear s)) = {}"
  by (simp add: cs_clear_def cs_inv_def parts_ok_def map_replicate_const members_replicate_0)

text \<open>Words of the same number are determined by their members.\<close>

lemma members_inj:
  assumes "length bs = length cs" "members bs = members cs"
  shows "bs = cs"
proof (rule nth_equalityI [OF assms(1)])
  fix j assume j: "j < length bs"
  show "bs ! j = cs ! j"
  proof (rule bit_word_eqI)
    fix k assume k: "k < LENGTH(64)"
    then have b: "64 * j + k < 64 * length bs" "64 * j + k < 64 * length cs"
      using j assms(1) below_iff [of k 0 j "length bs"] by simp_all
    have d: "(64 * j + k) div 64 = j" "(64 * j + k) mod 64 = k" using k by simp_all
    have "64 * j + k \<in> members bs \<longleftrightarrow> bit (bs ! j) k" "64 * j + k \<in> members cs \<longleftrightarrow> bit (cs ! j) k"
      unfolding members_def mem_Collect_eq d using b by simp_all
    then show "bit (bs ! j) k \<longleftrightarrow> bit (cs ! j) k" using assms(2) by simp
  qed
qed

lemma cs_is_empty_iff: "cs_is_empty s \<longleftrightarrow> members (cs_bits s) = {}"
proof -
  have "cs_is_empty s \<longleftrightarrow> cs_bits s = replicate (length (cs_bits s)) 0"
    by (auto simp: cs_is_empty_def list_all_iff replicate_length_same intro: replicate_eqI [symmetric]) (metis in_set_replicate)
  then show ?thesis
    using members_inj [of "cs_bits s" "replicate (length (cs_bits s)) 0"] members_replicate_0 by (metis length_replicate)
qed

lemma is_full_loop_iff:
  "is_full_loop n len bs idx \<longleftrightarrow> (\<forall>j < length bs. bs ! j =
     (if idx + j = len - 1 \<and> n mod 64 \<noteq> 0 then 2 ^ (n mod 64) - 1 else NOT 0))"
  by (induction n len bs idx rule: is_full_loop.induct) (auto simp: BITS_PER_PART_def nth_Cons' less_Suc_eq_0_disj)

lemma cs_is_full_iff:
  assumes "cs_inv n s"
  shows "cs_is_full n s \<longleftrightarrow> members (cs_bits s) = {..<n}"
proof -
  define p where "p = (n + 63) div 64"
  have len: "length (cs_bits s) = p" using assms by (simp add: cs_inv_def parts_ok_def p_def)
  define E where "E = map (\<lambda>j. if j = p - 1 \<and> n mod 64 \<noteq> 0 then 2 ^ (n mod 64) - 1 else NOT 0 :: 64 word) [0..<p]"
  have E: "length E = p" "\<And>j. j < p \<Longrightarrow> E ! j = (if j = p - 1 \<and> n mod 64 \<noteq> 0 then 2 ^ (n mod 64) - 1 else NOT 0)"
    by (simp_all add: E_def)
  have "members E = {..<n}"
  proof (intro set_eqI)
    fix i :: nat
    have "i \<in> members E \<longleftrightarrow> i div 64 < p \<and> (i div 64 = p - 1 \<and> n mod 64 \<noteq> 0 \<longrightarrow> i mod 64 < n mod 64)"
      by (auto simp: members_def E low_mask_bit bit_not_iff div_less_iff_less_mult mult.commute)
    also have "\<dots> \<longleftrightarrow> 64 * (i div 64) + i mod 64 < 64 * (n div 64) + n mod 64"
    proof (cases "n mod 64 = 0")
      case True
      then have "p = n div 64" by (auto simp: p_def elim!: dvdE simp flip: dvd_eq_mod_eq_0)
      then show ?thesis by (subst below_iff) (use True in auto)
    next
      case False
      then have "p = n div 64 + 1" using div_ceil_eq [of 64 n] by (simp add: div_ceil_def p_def)
      then show ?thesis by (subst below_iff) (use False in \<open>auto simp: less_Suc_eq\<close>)
    qed
    also have "\<dots> \<longleftrightarrow> i < n" by simp
    finally show "i \<in> members E \<longleftrightarrow> i \<in> {..<n}" by simp
  qed
  moreover have "cs_is_full n s \<longleftrightarrow> cs_bits s = E"
    by (auto simp: cs_is_full_def is_full_loop_iff len E list_eq_iff_nth_eq)
  ultimately show ?thesis using members_inj [of "cs_bits s" E] len E(1) by metis
qed

lemma members_Cons: "members (w # bs) = {i. i < 64 \<and> bit w i} \<union> (+) 64 ` members bs"
proof (intro set_eqI)
  fix i :: nat
  show "i \<in> members (w # bs) \<longleftrightarrow> i \<in> {i. i < 64 \<and> bit w i} \<union> (+) 64 ` members bs"
  proof (cases "i < 64")
    case True
    then show ?thesis by (auto simp: members_def)
  next
    case False
    then obtain j where j: "i = 64 + j" by (metis le_add_diff_inverse not_less)
    have "(64 + j) div 64 - Suc 0 = j div 64" by simp
    then show ?thesis unfolding j by (simp add: members_def image_iff)
  qed
qed

lemma count_loop_ok:
  "count + 64 * length bs \<le> USIZE_MAX \<Longrightarrow> count_loop bs count = Some (count + card (members bs))"
proof (induction bs count rule: count_loop.induct)
  case (2 w bs count)
  have "distinct (filter (bit w) [0..<64])" by simp
  moreover have "set (filter (bit w) [0..<64]) = {i. i < 64 \<and> bit w i}" by auto
  ultimately have ones: "count_ones w = card {i. i < 64 \<and> bit w i}" unfolding count_ones_def by (metis distinct_card)
  have le: "count_ones w \<le> 64" unfolding count_ones_def using length_filter_le [of "bit w" "[0..<64]"] by simp
  have "card (members (w # bs)) = count_ones w + card (members bs)"
    unfolding members_Cons ones by (subst card_Un_disjoint) (auto simp: members_bound card_image)
  then show ?case using 2 le by (simp add: uadd_def)
qed (simp add: members_def)

lemma cs_iter_ok:
  assumes "cs_inv n s" "n \<le> 2 ^ 32"
  shows "cs_iter s = Some (sorted_list_of_set (members (cs_bits s)))"
proof -
  have len: "length (cs_bits s) = (n + 63) div 64" and sub: "members (cs_bits s) \<subseteq> {..<n}" using assms(1) by (simp_all add: cs_inv_def parts_ok_def)
  have mul: "umul (length (cs_bits s)) BITS_PER_PART = Some (length (cs_bits s) * 64)"
    using assms(2) by (simp add: umul_def BITS_PER_PART_def len USIZE_MAX_def)
  define xs where "xs = filter (\<lambda>i. cs_bits s ! (i div 64) AND 2 ^ (i mod 64) \<noteq> 0) [0..<length (cs_bits s) * 64]"
  have set: "set xs = members (cs_bits s)" by (auto simp: xs_def members_def test_bit_iff mult.commute)
  have "map (\<lambda>id. id mod 2 ^ 32) xs = map id xs"
    by (rule map_cong) (use set sub assms(2) in \<open>auto simp: mod_less\<close>)
  moreover have "sorted xs" "distinct xs" by (simp_all add: xs_def sorted_wrt_filter)
  then have "sorted_list_of_set (members (cs_bits s)) = xs" using set by (metis sorted_list_of_set.idem_if_sorted_distinct)
  ultimately show ?thesis using mul by (simp add: cs_iter_def BITS_PER_PART_def xs_def)
qed

section \<open>Properties\<close>

datatype cs_call = Op cpu_op | AddAll | Clear

fun cs_calls :: "usize \<Rightarrow> cs_call list \<Rightarrow> CpuSet \<Rightarrow> CpuSet option" where
  "cs_calls n [] s = Some s"
| "cs_calls n (Op p # cs) s = do { s1 \<leftarrow> op_run cs_add cs_remove [p] s; cs_calls n cs s1 }"
| "cs_calls n (AddAll # cs) s = do { s1 \<leftarrow> cs_add_all n s; cs_calls n cs s1 }"
| "cs_calls n (Clear # cs) s = cs_calls n cs (cs_clear s)"

fun call_set :: "usize \<Rightarrow> cs_call \<Rightarrow> nat set \<Rightarrow> nat set" where
  "call_set n (Op p) S = op_set p S"
| "call_set n AddAll S = {..<n}"
| "call_set n Clear S = {}"

lemma cs_calls_ok:
  "cs_inv n s \<Longrightarrow> \<forall>p. Op p \<in> set calls \<longrightarrow> op_cpu p < n \<Longrightarrow>
     \<exists>s'. cs_calls n calls s = Some s' \<and> cs_inv n s' \<and> members (cs_bits s') = fold (call_set n) calls (members (cs_bits s))"
proof (induction n calls s rule: cs_calls.induct)
  case (2 n p cs s)
  then obtain s1 where s1: "op_run cs_add cs_remove [p] s = Some s1" "cs_inv n s1" "members (cs_bits s1) = op_set p (members (cs_bits s))"
    using cs.run_refines [of n s "[p]"] by auto
  then show ?case using "2.IH" [of s1] "2.prems"(2) by (auto simp del: op_run.simps)
next
  case (3 n cs s)
  then show ?case using cs_add_all_ok [OF "3.prems"(1)] by fastforce
next
  case (4 n cs s)
  then show ?case using cs_clear_ok [OF "4.prems"(1)] by auto
qed simp

text \<open>C18: \<open>CpuSet\<close> refines a finite set of CPU numbers.  After any sequence of additions and removals of existing CPUs,
  \<open>add_all\<close> and \<open>clear\<close>, starting from \<open>new_empty\<close>, no call has panicked and every query answers as the set that the
  sequence describes: membership, number of members, emptiness, fullness, and the members in ascending order.\<close>

theorem cpu_set_refines:
  assumes "n \<le> 2 ^ 32" "\<forall>p. Op p \<in> set calls \<longrightarrow> op_cpu p < n"
  defines "S \<equiv> fold (call_set n) calls {}"
  shows "\<exists>s0 s. new_empty n = Some s0 \<and> cs_calls n calls s0 = Some s \<and> (\<forall>c. cs_contains s c = Some (c \<in> S)) \<and>
    cs_count s = Some (card S) \<and> (cs_is_empty s \<longleftrightarrow> S = {}) \<and> (cs_is_full n s \<longleftrightarrow> S = {..<n}) \<and>
    cs_iter s = Some (sorted_list_of_set S)"
proof -
  obtain s0 where s0: "new_empty n = Some s0" "cs_inv n s0" "members (cs_bits s0) = {}" using new_empty_ok by blast
  obtain s where s: "cs_calls n calls s0 = Some s" "cs_inv n s" "members (cs_bits s) = S"
    using cs_calls_ok [OF s0(2) assms(2)] s0(3) by (auto simp: S_def)
  have "length (cs_bits s) = (n + 63) div 64" using s(2) by (simp add: cs_inv_def parts_ok_def)
  then have "64 * length (cs_bits s) \<le> USIZE_MAX" using assms(1) by (simp add: USIZE_MAX_def)
  then have "cs_count s = Some (card S)" using count_loop_ok [of 0 "cs_bits s"] s(3) by (simp add: cs_count_def)
  then show ?thesis
    using s0(1) s cs.contains_law [OF s(2)] cs_is_empty_iff [of s] cs_is_full_iff [OF s(2)] cs_iter_ok [OF s(2) assms(1)] by auto
qed

theorem cpu_set_refines_witness:
  "\<exists>s0 s. new_empty 70 = Some s0 \<and> cs_calls 70 [AddAll, Op (Remove 3), Clear, Op (Add 69), Op (Add 5)] s0 = Some s \<and>
     cs_count s = Some 2 \<and> cs_iter s = Some [5, 69] \<and> cs_contains s 3 = Some False"
proof -
  have "fold (call_set 70) [AddAll, Op (Remove 3), Clear, Op (Add 69), Op (Add 5)] {} = {5, 69}" by auto
  moreover have "sorted_list_of_set {5, 69 :: nat} = [5, 69]" by simp
  ultimately show ?thesis
    using cpu_set_refines [of 70 "[AddAll, Op (Remove 3), Clear, Op (Add 69), Op (Add 5)]"] by (auto simp del: cs_calls.simps)
qed

text \<open>A \<open>load\<close> of an atomic set reads one word after the other while other threads add, remove and store.  The relation records,
  besides the set and the words read so far, the CPUs that have been in the set all the time and those that have ever been in it.\<close>

inductive load_run :: "usize \<Rightarrow> AtomicCpuSet \<Rightarrow> AtomicCpuSet \<Rightarrow> 64 word list \<Rightarrow> nat set \<Rightarrow> nat set \<Rightarrow> bool" for n s0 where
  start: "load_run n s0 s0 [] (members (acs_bits s0)) (members (acs_bits s0))"
| other_add: "load_run n s0 s acc A E \<Longrightarrow> c < n \<Longrightarrow> acs_add s c = Some s' \<Longrightarrow>
    load_run n s0 s' acc (A \<inter> members (acs_bits s')) (E \<union> members (acs_bits s'))"
| other_remove: "load_run n s0 s acc A E \<Longrightarrow> c < n \<Longrightarrow> acs_remove s c = Some s' \<Longrightarrow>
    load_run n s0 s' acc (A \<inter> members (acs_bits s')) (E \<union> members (acs_bits s'))"
| other_store: "load_run n s0 s acc A E \<Longrightarrow> cs_inv n v \<Longrightarrow> acs_store_next s v i = Some s' \<Longrightarrow>
    load_run n s0 s' acc (A \<inter> members (acs_bits s')) (E \<union> members (acs_bits s'))"
| load_next: "load_run n s0 s acc A E \<Longrightarrow> acs_load_next s acc = Some acc' \<Longrightarrow> load_run n s0 s acc' A E"

lemma members_word: "i \<in> members bs \<longleftrightarrow> i div 64 < length bs \<and> bit (bs ! (i div 64)) (i mod 64)"
  by (simp add: members_def div_less_iff_less_mult mult.commute)

lemma store_next_ok:
  assumes "acs_inv n s" "cs_inv n v" "acs_store_next s v i = Some s'"
  shows "acs_inv n s'"
  using assms by (auto simp: acs_store_next_def bind_eq_Some_conv checked acs_inv_def cs_inv_def parts_ok_def subset_iff
      members_word nth_list_update split: if_splits)

lemma load_run_inv:
  "load_run n s0 s acc A E \<Longrightarrow> acs_inv n s0 \<Longrightarrow>
     acs_inv n s \<and> length acc \<le> length (acs_bits s) \<and> A \<subseteq> members (acs_bits s) \<and> members (acs_bits s) \<subseteq> E \<and> E \<subseteq> {..<n} \<and>
     members acc \<subseteq> E \<and> (\<forall>i \<in> A. i div 64 < length acc \<longrightarrow> i \<in> members acc)"
proof (induction rule: load_run.induct)
  case start
  then show ?case by (auto simp: acs_inv_def parts_ok_def members_def)
next
  case (other_add s acc A E c s')
  then have "acs_inv n s'" "length (acs_bits s') = length (acs_bits s)"
    using acs.add_law [of n s c] by (auto simp: acs_inv_def parts_ok_def)
  then show ?case using other_add by (auto simp: acs_inv_def parts_ok_def)
next
  case (other_remove s acc A E c s')
  then have "acs_inv n s'" "length (acs_bits s') = length (acs_bits s)"
    using acs.rem_law [of n s c] by (auto simp: acs_inv_def parts_ok_def)
  then show ?case using other_remove by (auto simp: acs_inv_def parts_ok_def)
next
  case (other_store s acc A E v i s')
  then have "acs_inv n s'" "length (acs_bits s') = length (acs_bits s)"
    using store_next_ok [of n s v i s'] by (auto simp: acs_inv_def parts_ok_def)
  then show ?case using other_store by (auto simp: acs_inv_def parts_ok_def)
next
  case (load_next s acc A E acc')
  then have acc': "acc' = acc @ [acs_bits s ! length acc]" "length acc < length (acs_bits s)"
    by (auto simp: acs_load_next_def bind_eq_Some_conv checked)
  have "i \<in> members acc' \<longleftrightarrow> i \<in> members acc \<or> i div 64 = length acc \<and> i \<in> members (acs_bits s)" for i
    unfolding members_word acc'(1) using acc'(2) by (auto simp: nth_append less_Suc_eq)
  then show ?case using load_next acc' by (auto simp: less_Suc_eq)
qed

text \<open>C19: a snapshot of an atomic set is between what was always and what was ever in it.  However \<open>load\<close> interleaves with
  additions, removals and stores of other threads, it can always go on to the next word, and when it has read all of them
  it has a well-formed set that contains every CPU that was a member throughout and no CPU that never was one.\<close>

theorem atomic_load_between:
  assumes "load_run n s0 s acc A E" "acs_inv n s0"
  shows "if length acc < length (acs_bits s) then acs_load_next s acc \<noteq> None
    else A \<subseteq> members acc \<and> members acc \<subseteq> E \<and> cs_inv n \<lparr>cs_bits = acc\<rparr>"
proof -
  note i = load_run_inv [OF assms]
  show ?thesis
  proof (cases "length acc < length (acs_bits s)")
    case True
    then show ?thesis by (simp add: acs_load_next_def rindex_def)
  next
    case False
    then have len: "length acc = length (acs_bits s)" using i by simp
    then have "A \<subseteq> members acc" using i by (auto simp: members_word)
    then show ?thesis using i len False by (auto simp: cs_inv_def acs_inv_def parts_ok_def)
  qed
qed

theorem atomic_load_between_witness:
  "\<exists>A E. load_run 70 \<lparr>acs_bits = [1, 0]\<rparr> \<lparr>acs_bits = [0, 32]\<rparr> [1, 32] A E \<and> A \<subseteq> members [1, 32] \<and> members [1, 32] \<subseteq> E"
proof -
  let ?s0 = "\<lparr>acs_bits = [1, 0]\<rparr>" and ?s1 = "\<lparr>acs_bits = [0, 0]\<rparr>" and ?s2 = "\<lparr>acs_bits = [0, 32]\<rparr>"
  have inv: "acs_inv 70 ?s0" by (auto simp: acs_inv_def parts_ok_def members_Cons bit_1_iff) (simp add: members_def)+
  have steps: "acs_load_next ?s0 [] = Some [1]" "acs_remove ?s0 0 = Some ?s1" "acs_add ?s1 69 = Some ?s2"
    "acs_load_next ?s2 [1] = Some [1, 32]"
    by (simp_all add: acs_load_next_def acs_remove_def acs_add_def set_defs)
  have "\<exists>A E. load_run 70 ?s0 ?s2 [1, 32] A E"
    by (intro exI, rule load_run.load_next [OF load_run.other_add [OF load_run.other_remove
        [OF load_run.load_next [OF load_run.start steps(1)] _ steps(2)] _ steps(3)] steps(4)]) simp_all
  then show ?thesis using atomic_load_between [OF _ inv] by fastforce
qed

end
