(* ===== verification/Fifo_Sched.thy ===== *)
theory Fifo_Sched
  imports Rust_Prelude "HOL-Library.Multiset"
begin

text \<open>
  Scheduling: \<open>task/scheduler/info.rs\<close> (the CPU a task belongs to), \<open>task/scheduler/fifo_scheduler.rs\<close> (the FIFO run
  queues) and the part of \<open>task/scheduler/mod.rs\<close> that parks and unparks tasks, all under \<open>src/ostd/src\<close>.

  A task is named by its identity, as \<open>Arc::ptr_eq\<close> compares it; \<open>cells\<close> is the store of the \<open>AtomicCpuId\<close> of every task.
  The code inside \<open>mut_local_rq_with\<close> and the second half of \<open>enqueue\<close> run under the spin lock of the run queue with
  interrupts disabled, and the first half of \<open>enqueue\<close> is one compare-exchange outside the lock, so each of them is one
  step.  The first round of \<open>park_current\<close> reads \<open>has_unparked\<close>, which wakers set without the lock, before it changes the cell
  of the task: it is two steps, with the lock held between them.  The trait
  \<open>LocalRunQueue\<close> is the locale \<open>run_queue\<close>, with the documented laws; \<open>park_current\<close> is a client of it.  The context switch
  after \<open>reschedule\<close> is a comment in the sources; the run queue alone says who runs.
\<close>

section \<open>The CPU of a task\<close>

type_synonym CpuId = nat
type_synonym AtomicCpuId = "32 word"

definition bsp :: CpuId where
  "bsp = 0"

definition cpu_try_from :: "nat \<Rightarrow> usize \<Rightarrow> CpuId option" where
  "cpu_try_from num_cpus value = (if value < num_cpus then Some value else None)"

definition NONE :: AtomicCpuId where
  "NONE = 0xFFFFFFFF"

definition set_if_is_none :: "nat \<Rightarrow> AtomicCpuId \<Rightarrow> CpuId \<Rightarrow> ((CpuId + unit) \<times> AtomicCpuId) option" where
  "set_if_is_none num_cpus a cpu_id = (
     if a = NONE then Some (Inr (), word_of_nat cpu_id)
     else do { prev \<leftarrow> cpu_try_from num_cpus (unat a); Some (Inl prev, a) })"

definition set_anyway :: "AtomicCpuId \<Rightarrow> CpuId \<Rightarrow> AtomicCpuId" where
  "set_anyway a cpu_id = word_of_nat cpu_id"

definition set_to_none :: "AtomicCpuId \<Rightarrow> AtomicCpuId" where
  "set_to_none a = NONE"

definition cpu_get :: "nat \<Rightarrow> AtomicCpuId \<Rightarrow> CpuId option" where
  "cpu_get num_cpus a = (if a = NONE then None else cpu_try_from num_cpus (unat a))"

lemma unat_cpu: "c < 2 ^ 32 - 1 \<Longrightarrow> unat (word_of_nat c :: AtomicCpuId) = c"
  by (simp add: unat_of_nat)

lemma cpu_not_NONE: "c < 2 ^ 32 - 1 \<Longrightarrow> (word_of_nat c :: AtomicCpuId) \<noteq> NONE"
proof
  assume c: "c < 2 ^ 32 - 1" "(word_of_nat c :: AtomicCpuId) = NONE"
  have "unat NONE = 2 ^ 32 - 1" by (simp add: NONE_def)
  then show False using c unat_cpu [OF c(1)] by simp
qed

section \<open>The FIFO run queue\<close>

datatype EnqueueFlags = Spawn | Wake
datatype UpdateFlags = Tick | Wait | Yield | Exit

record 't FifoRunQueue =
  current :: "'t option"
  queue :: "'t list"

text \<open>A run queue with the cells of the tasks, which \<open>dequeue_current\<close> writes.\<close>

type_synonym 't rq_cells = "'t FifoRunQueue \<times> ('t \<Rightarrow> AtomicCpuId)"

definition rq_new :: "'t FifoRunQueue" where
  "rq_new = \<lparr>current = None, queue = []\<rparr>"

definition rq_current :: "'t rq_cells \<Rightarrow> 't option" where
  "rq_current q = current (fst q)"

definition update_current :: "'t rq_cells \<Rightarrow> UpdateFlags \<Rightarrow> bool \<times> 't rq_cells" where
  "update_current q flags = ((case flags of Tick \<Rightarrow> False | _ \<Rightarrow> queue (fst q) \<noteq> []), q)"

fun try_pick_next :: "'t rq_cells \<Rightarrow> 't option \<times> 't rq_cells" where
  "try_pick_next (q, cells) = (case queue q of
     [] \<Rightarrow> (None, (q, cells))
   | next_task # rest \<Rightarrow> (Some next_task,
       (\<lparr>current = Some next_task,
         queue = (case current q of Some prev_task \<Rightarrow> rest @ [prev_task] | None \<Rightarrow> rest)\<rparr>, cells)))"

definition pick_next :: "('q \<Rightarrow> 't option \<times> 'q) \<Rightarrow> 'q \<Rightarrow> ('t \<times> 'q) option" where
  "pick_next try_pick q = (case try_pick q of (Some t, q') \<Rightarrow> Some (t, q') | (None, q') \<Rightarrow> None)"

fun dequeue_current :: "'t rq_cells \<Rightarrow> 't option \<times> 't rq_cells" where
  "dequeue_current (q, cells) = (current q,
     (q\<lparr>current := None\<rparr>, (case current q of Some task \<Rightarrow> cells(task := set_to_none (cells task)) | None \<Rightarrow> cells)))"

section \<open>The FIFO scheduler\<close>

record 't FifoScheduler =
  rq :: "'t FifoRunQueue list"
  cells :: "'t \<Rightarrow> AtomicCpuId"

definition sched_new :: "nat \<Rightarrow> 't FifoScheduler" where
  "sched_new nr_cpus = \<lparr>rq = replicate nr_cpus rq_new, cells = (\<lambda>t. NONE)\<rparr>"

definition sched_default :: "nat \<Rightarrow> 't FifoScheduler" where
  "sched_default num_cpus = sched_new num_cpus"

definition select_cpu :: "'t FifoScheduler \<Rightarrow> CpuId" where
  "select_cpu s = bsp"

text \<open>\<open>enqueue\<close>: up to the compare-exchange, and from the lock of the run queue on.\<close>

definition enqueue_select :: "nat \<Rightarrow> 't FifoScheduler \<Rightarrow> 't \<Rightarrow> EnqueueFlags \<Rightarrow> ((bool \<times> CpuId) \<times> 't FifoScheduler) option" where
  "enqueue_select num_cpus s runnable flags = (
     let selected_cpu_id = select_cpu s in do {
       (r, a) \<leftarrow> set_if_is_none num_cpus (cells s runnable) selected_cpu_id;
       let s' = s\<lparr>cells := (cells s)(runnable := a)\<rparr>;
       case r of
         Inl task_cpu_id \<Rightarrow> do { rassert (flags \<noteq> Spawn); Some ((True, task_cpu_id), s') }
       | Inr _ \<Rightarrow> Some ((False, selected_cpu_id), s') })"

definition push_back :: "'t FifoScheduler \<Rightarrow> CpuId \<Rightarrow> 't \<Rightarrow> 't FifoScheduler" where
  "push_back s c t = s\<lparr>rq := (rq s)[c := (rq s ! c)\<lparr>queue := queue (rq s ! c) @ [t]\<rparr>]\<rparr>"

definition enqueue_push :: "nat \<Rightarrow> 't FifoScheduler \<Rightarrow> 't \<Rightarrow> bool \<Rightarrow> CpuId \<Rightarrow> (CpuId option \<times> 't FifoScheduler) option" where
  "enqueue_push num_cpus s runnable still_in_rq target_cpu = do {
     _ \<leftarrow> rindex (rq s) target_cpu;
     if still_in_rq then do {
       (r, a) \<leftarrow> set_if_is_none num_cpus (cells s runnable) target_cpu;
       let s' = s\<lparr>cells := (cells s)(runnable := a)\<rparr>;
       case r of
         Inl _ \<Rightarrow> Some (None, s')
       | Inr _ \<Rightarrow> Some (None, push_back s' target_cpu runnable) }
     else Some (None, push_back s target_cpu runnable) }"

definition fifo_enqueue :: "nat \<Rightarrow> 't FifoScheduler \<Rightarrow> 't \<Rightarrow> EnqueueFlags \<Rightarrow> (CpuId option \<times> 't FifoScheduler) option" where
  "fifo_enqueue num_cpus s runnable flags = do {
     ((still_in_rq, target_cpu), s') \<leftarrow> enqueue_select num_cpus s runnable flags;
     enqueue_push num_cpus s' runnable still_in_rq target_cpu }"

definition local_rq_with :: "CpuId \<Rightarrow> ('t rq_cells \<Rightarrow> 'r) \<Rightarrow> 't FifoScheduler \<Rightarrow> 'r option" where
  "local_rq_with current_cpu f s = do { q \<leftarrow> rindex (rq s) current_cpu; Some (f (q, cells s)) }"

definition mut_local_rq_with :: "CpuId \<Rightarrow> ('t rq_cells \<Rightarrow> ('r \<times> 't rq_cells) option) \<Rightarrow> 't FifoScheduler \<Rightarrow> ('r \<times> 't FifoScheduler) option" where
  "mut_local_rq_with current_cpu f s = do {
     q \<leftarrow> rindex (rq s) current_cpu;
     (r, (q', cells')) \<leftarrow> f (q, cells s);
     Some (r, \<lparr>rq = (rq s)[current_cpu := q'], cells = cells'\<rparr>) }"

section \<open>Parking and unparking\<close>

datatype 't ReschedAction = DoNothing | Retry | SwitchTo 't

text \<open>The decision at the end of the closure of \<open>park_current\<close>, and the closure, over the operations of any run queue; the
  state of the closure is \<open>is_first_try\<close> and \<open>current\<close>.\<close>

definition park_decide :: "'t option \<Rightarrow> 't option \<Rightarrow> 't ReschedAction option" where
  "park_decide cur next_task_opt = (case next_task_opt of
     Some next_task \<Rightarrow> do { c \<leftarrow> cur; Some (if c = next_task then DoNothing else SwitchTo next_task) }
   | None \<Rightarrow> Some Retry)"

fun park_try :: "('q \<Rightarrow> UpdateFlags \<Rightarrow> bool \<times> 'q) \<Rightarrow> ('q \<Rightarrow> 't option \<times> 'q) \<Rightarrow> ('q \<Rightarrow> 't option \<times> 'q) \<Rightarrow>
    bool \<Rightarrow> bool \<times> 't option \<Rightarrow> 'q \<Rightarrow> (('t ReschedAction \<times> bool \<times> 't option) \<times> 'q) option" where
  "park_try upd try_pick deq has_unparked (is_first_try, cur) q = (
     if is_first_try then
       if has_unparked then Some ((DoNothing, is_first_try, cur), q)
       else (
         let (should_pick_next, q1) = upd q Wait; (cur', q2) = deq q1 in do {
           (next_task_opt, q3) \<leftarrow>
             (if should_pick_next then do { (t, q3) \<leftarrow> pick_next try_pick q2; Some (Some t, q3) } else Some (None, q2));
           a \<leftarrow> park_decide cur' next_task_opt;
           Some ((a, False, cur'), q3) })
     else (
       let (next_task_opt, q1) = try_pick q in do {
         a \<leftarrow> park_decide cur next_task_opt;
         Some ((a, False, cur), q1) }))"

text \<open>One round of the loop of \<open>reschedule\<close>: \<open>None\<close> inside stands for \<open>continue\<close>, \<open>Some next\<close> for leaving the loop, with the task
  to switch to if there is one.\<close>

definition resched_round :: "CpuId \<Rightarrow> ('t rq_cells \<Rightarrow> (('t ReschedAction \<times> 'c) \<times> 't rq_cells) option) \<Rightarrow> 't FifoScheduler \<Rightarrow>
    ('t option option \<times> 'c \<times> 't FifoScheduler) option" where
  "resched_round cpu f s = do {
     ((action, st), s') \<leftarrow> mut_local_rq_with cpu f s;
     Some ((case action of DoNothing \<Rightarrow> Some None | Retry \<Rightarrow> None | SwitchTo next_task \<Rightarrow> Some (Some next_task)), st, s') }"

definition park_round :: "CpuId \<Rightarrow> bool \<Rightarrow> bool \<times> 't option \<Rightarrow> 't FifoScheduler \<Rightarrow>
    ('t option option \<times> (bool \<times> 't option) \<times> 't FifoScheduler) option" where
  "park_round cpu has_unparked st s =
     resched_round cpu (park_try update_current try_pick_next dequeue_current has_unparked st) s"

definition unpark_target :: "nat \<Rightarrow> 't FifoScheduler \<Rightarrow> 't \<Rightarrow> 't FifoScheduler option" where
  "unpark_target num_cpus s runnable = do {
     (preempt_cpu, s') \<leftarrow> fifo_enqueue num_cpus s runnable Wake;
     Some s' }"

section \<open>The contract of a run queue\<close>

locale run_queue =
  fixes cur :: "'q \<Rightarrow> 't option"
    and waiting :: "'q \<Rightarrow> 't multiset"
    and upd :: "'q \<Rightarrow> UpdateFlags \<Rightarrow> bool \<times> 'q"
    and try_pick :: "'q \<Rightarrow> 't option \<times> 'q"
    and deq :: "'q \<Rightarrow> 't option \<times> 'q"
  assumes upd_keeps: "upd q f = (b, q') \<Longrightarrow> cur q' = cur q \<and> waiting q' = waiting q"
    and upd_can: "upd q f = (True, q') \<Longrightarrow> waiting q \<noteq> {#}"
    and upd_wait: "waiting q \<noteq> {#} \<Longrightarrow> fst (upd q Wait)"
    and pick_empty: "waiting q = {#} \<Longrightarrow> try_pick q = (None, q)"
    and pick_some: "waiting q \<noteq> {#} \<Longrightarrow> \<exists>t q'. try_pick q = (Some t, q') \<and> t \<in># waiting q \<and> cur q' = Some t \<and>
      waiting q' = waiting q - {#t#} + (case cur q of None \<Rightarrow> {#} | Some p \<Rightarrow> {#p#})"
    and deq_law: "deq q = (t, q') \<Longrightarrow> t = cur q \<and> cur q' = None \<and> waiting q' = waiting q"
begin

text \<open>The first round of \<open>park_current\<close> takes the current task out and hands the CPU to a waiting one; \<open>pick_next\<close> never
  panics there.\<close>

lemma park_first:
  assumes "cur q = Some t"
  shows "\<exists>a q'. park_try upd try_pick deq False (True, c0) q = Some ((a, False, Some t), q') \<and>
    (if waiting q = {#} then a = Retry \<and> cur q' = None \<and> waiting q' = {#}
     else \<exists>n \<in># waiting q. a = (if n = t then DoNothing else SwitchTo n) \<and> cur q' = Some n \<and> waiting q' = waiting q - {#n#})"
proof -
  obtain b q1 where u: "upd q Wait = (b, q1)" by force
  obtain c q2 where d: "deq q1 = (c, q2)" by force
  have q2: "c = Some t" "cur q2 = None" "waiting q2 = waiting q"
    using upd_keeps [OF u] deq_law [OF d] assms by auto
  show ?thesis
  proof (cases "waiting q = {#}")
    case True
    then have "\<not> b" using upd_can u by metis
    then show ?thesis using True u d q2 by (simp add: park_decide_def)
  next
    case False
    then have "b" using upd_wait [OF False] u by simp
    moreover obtain n q3 where "try_pick q2 = (Some n, q3)" "n \<in># waiting q" "cur q3 = Some n" "waiting q3 = waiting q - {#n#}"
      using pick_some [of q2] q2 False by auto
    ultimately show ?thesis using False u d q2 by (auto simp: park_decide_def pick_next_def)
  qed
qed

lemma park_again:
  assumes "cur q = None"
  shows "\<exists>a q'. park_try upd try_pick deq h (False, Some t) q = Some ((a, False, Some t), q') \<and>
    (if waiting q = {#} then a = Retry \<and> q' = q
     else \<exists>n \<in># waiting q. a = (if n = t then DoNothing else SwitchTo n) \<and> cur q' = Some n \<and> waiting q' = waiting q - {#n#})"
proof (cases "waiting q = {#}")
  case True
  then show ?thesis using pick_empty by (simp add: park_decide_def)
next
  case False
  then show ?thesis using pick_some [OF False] assms by (auto simp: park_decide_def)
qed

end

definition rq_waiting :: "'t rq_cells \<Rightarrow> 't multiset" where
  "rq_waiting q = mset (queue (fst q))"

interpretation fifo: run_queue rq_current rq_waiting update_current try_pick_next dequeue_current
proof (unfold_locales, goal_cases)
  case (5 q)
  then show ?case by (cases q; cases "queue (fst q)"; cases "current (fst q)") (auto simp: rq_current_def rq_waiting_def)
next
  case (4 q)
  then show ?case by (cases q) (auto simp: rq_waiting_def)
next
  case (6 q t q')
  then show ?case by (cases q) (auto simp: rq_waiting_def rq_current_def)
qed (auto simp: rq_current_def rq_waiting_def update_current_def split: UpdateFlags.splits)

section \<open>The scheduler under concurrent wake-ups\<close>

text \<open>Any number of threads, each at most one call of \<open>unpark_target\<close> at a time: \<open>Enq t\<close> has made \<open>has_unparked\<close> true for \<open>t\<close> and
  is about to call, \<open>Push\<close> is between the compare-exchange and the lock of the run queue.  \<open>chk\<close> is the task that is in the first
  round of \<open>park_current\<close> on a CPU, has read \<open>has_unparked\<close> as false and has not been dequeued yet; as long as there is one, the lock
  of the run queue is taken.  \<open>park\<close> is the task whose \<open>park_current\<close> goes round on a CPU after its first round.\<close>

datatype 't waker_pc = Idle | Enq 't | Push 't bool CpuId

record 't sys =
  sched :: "'t FifoScheduler"
  woken :: "'t \<Rightarrow> bool"
  pc :: "nat \<Rightarrow> 't waker_pc"
  chk :: "CpuId \<Rightarrow> 't option"
  park :: "CpuId \<Rightarrow> 't option"

definition sys_init :: "nat \<Rightarrow> 't sys" where
  "sys_init n = \<lparr>sched = sched_default n, woken = (\<lambda>t. False), pc = (\<lambda>th. Idle), chk = (\<lambda>c. None), park = (\<lambda>c. None)\<rparr>"

definition cur_on :: "'t sys \<Rightarrow> CpuId \<Rightarrow> 't option" where
  "cur_on s c = current (rq (sched s) ! c)"

definition after_round :: "'t sys \<Rightarrow> CpuId \<Rightarrow> ('t option option \<times> (bool \<times> 't option) \<times> 't FifoScheduler) \<Rightarrow> 't sys" where
  "after_round s c r = (case r of (out, st, sc) \<Rightarrow>
     s\<lparr>sched := sc, park := (park s)(c := if out = None then snd st else None)\<rparr>)"

inductive sys_step :: "nat \<Rightarrow> 't sys \<Rightarrow> 't sys \<Rightarrow> bool" for n where
  wake: "pc s th = Idle \<Longrightarrow> sys_step n s (s\<lparr>woken := (woken s)(t := True), pc := (pc s)(th := Enq t)\<rparr>)"
| enq_select: "pc s th = Enq t \<Longrightarrow> enqueue_select n (sched s) t Wake = Some ((still, target), sc) \<Longrightarrow>
    sys_step n s (s\<lparr>sched := sc, pc := (pc s)(th := Push t still target)\<rparr>)"
| enq_push: "pc s th = Push t still target \<Longrightarrow> chk s target = None \<Longrightarrow> enqueue_push n (sched s) t still target = Some (r, sc) \<Longrightarrow>
    sys_step n s (s\<lparr>sched := sc, pc := (pc s)(th := Idle)\<rparr>)"
| park_check: "c < n \<Longrightarrow> park s c = None \<Longrightarrow> chk s c = None \<Longrightarrow> cur_on s c = Some t \<Longrightarrow>
    sys_step n s (if woken s t then s else s\<lparr>chk := (chk s)(c := Some t)\<rparr>)"
| park_first: "c < n \<Longrightarrow> chk s c = Some t \<Longrightarrow> park_round c False (True, None) (sched s) = Some r \<Longrightarrow>
    sys_step n s (after_round (s\<lparr>chk := (chk s)(c := None)\<rparr>) c r)"
| park_again: "c < n \<Longrightarrow> park s c = Some t \<Longrightarrow> park_round c (woken s t) (False, Some t) (sched s) = Some r \<Longrightarrow>
    sys_step n s (after_round s c r)"
| resume: "c < n \<Longrightarrow> park s c = None \<Longrightarrow> chk s c = None \<Longrightarrow> cur_on s c = Some t \<Longrightarrow>
    sys_step n s (s\<lparr>woken := (woken s)(t := False)\<rparr>)"
| pick: "c < n \<Longrightarrow> park s c = None \<Longrightarrow> chk s c = None \<Longrightarrow> mut_local_rq_with c (Some \<circ> try_pick_next) (sched s) = Some (r, sc) \<Longrightarrow>
    sys_step n s (s\<lparr>sched := sc\<rparr>)"

inductive sys_reach :: "nat \<Rightarrow> 't sys \<Rightarrow> bool" for n where
  init: "sys_reach n (sys_init n)"
| step: "sys_reach n s \<Longrightarrow> sys_step n s s' \<Longrightarrow> sys_reach n s'"

text \<open>All tasks of a run queue, the current one included, and the run queue that the cell of a task names.\<close>

definition rq_tasks :: "'t FifoRunQueue \<Rightarrow> 't multiset" where
  "rq_tasks q = mset (queue q) + (case current q of None \<Rightarrow> {#} | Some t \<Rightarrow> {#t#})"

definition on_cpu :: "'t FifoScheduler \<Rightarrow> CpuId \<Rightarrow> 't \<Rightarrow> nat" where
  "on_cpu s c t = count (rq_tasks (rq s ! c)) t"

definition home :: "'t FifoScheduler \<Rightarrow> 't \<Rightarrow> CpuId option" where
  "home s t = (if cells s t = NONE then None else Some (unat (cells s t)))"

text \<open>Where a task is: in no run queue, in exactly one, or about to be pushed by the one call that has set its cell.\<close>

datatype place = Out | In CpuId | Claimed nat CpuId

definition claims :: "(nat \<Rightarrow> 't waker_pc) \<Rightarrow> 't \<Rightarrow> (nat \<times> CpuId) set" where
  "claims P t = {(th, c). P th = Push t False c}"

fun at :: "nat \<Rightarrow> (CpuId \<Rightarrow> nat) \<Rightarrow> CpuId option \<Rightarrow> (nat \<times> CpuId) set \<Rightarrow> place \<Rightarrow> bool" where
  "at n on h K Out \<longleftrightarrow> h = None \<and> (\<forall>c < n. on c = 0) \<and> K = {}"
| "at n on h K (In c) \<longleftrightarrow> h = Some c \<and> c < n \<and> (\<forall>c' < n. on c' = (if c' = c then 1 else 0)) \<and> K = {}"
| "at n on h K (Claimed th c) \<longleftrightarrow> h = Some c \<and> c < n \<and> (\<forall>c < n. on c = 0) \<and> K = {(th, c)}"

definition place_ok :: "nat \<Rightarrow> (CpuId \<Rightarrow> 't \<Rightarrow> nat) \<Rightarrow> ('t \<Rightarrow> CpuId option) \<Rightarrow> (nat \<Rightarrow> 't waker_pc) \<Rightarrow> bool" where
  "place_ok n on hm P \<longleftrightarrow> (\<forall>t. \<exists>w. at n (\<lambda>c. on c t) (hm t) (claims P t) w) \<and> (\<forall>th t b c. P th = Push t b c \<longrightarrow> c < n)"

definition in_flight :: "(nat \<Rightarrow> 't waker_pc) \<Rightarrow> 't \<Rightarrow> bool" where
  "in_flight P t \<longleftrightarrow> (\<exists>th. P th = Enq t \<or> (\<exists>b c. P th = Push t b c))"

text \<open>A task between its check and its dequeueing is current there, and if it has been woken since, the call that did so still has to
  take the lock of that run queue.\<close>

definition chk_ok :: "nat \<Rightarrow> 't sys \<Rightarrow> bool" where
  "chk_ok n s \<longleftrightarrow> (\<forall>c t. c < n \<longrightarrow> chk s c = Some t \<longrightarrow> cur_on s c = Some t \<and> park s c = None \<and>
     (woken s t \<longrightarrow> (\<exists>th. pc s th = Enq t \<or> (\<exists>b. pc s th = Push t b c))))"

definition sys_inv :: "nat \<Rightarrow> 't sys \<Rightarrow> bool" where
  "sys_inv n s \<longleftrightarrow> length (rq (sched s)) = n \<and> place_ok n (on_cpu (sched s)) (home (sched s)) (pc s) \<and>
     (\<forall>c t. c < n \<longrightarrow> park s c = Some t \<longrightarrow> cur_on s c = None) \<and>
     (\<forall>t. woken s t \<longrightarrow> home (sched s) t = None \<longrightarrow> in_flight (pc s) t) \<and> chk_ok n s"

text \<open>What the steps do to the homes and to the run queues.\<close>

lemma home_upd:
  "home (s\<lparr>cells := (cells s)(t := NONE)\<rparr>) = (home s)(t := None)"
  "c < 2 ^ 32 - 1 \<Longrightarrow> home (s\<lparr>cells := (cells s)(t := word_of_nat c)\<rparr>) = (home s)(t := Some c)"
  by (auto simp: home_def fun_eq_iff cpu_not_NONE unat_cpu)

lemma home_cells: "cells s = cells s' \<Longrightarrow> home s = home s'"
  by (simp add: home_def fun_eq_iff)

lemma enqueue_select_ok:
  assumes "0 < n" "n \<le> 2 ^ 32 - 1" "\<forall>c. home s t = Some c \<longrightarrow> c < n"
  defines "tg \<equiv> (case home s t of None \<Rightarrow> 0 | Some c \<Rightarrow> c)"
  shows "\<exists>sc. enqueue_select n s t Wake = Some ((home s t \<noteq> None, tg), sc) \<and> rq sc = rq s \<and> home sc = (home s)(t := Some tg)"
proof (cases "cells s t = NONE")
  case True
  then show ?thesis using assms(1,2) home_upd(2) [of 0 s t]
    by (auto simp: enqueue_select_def set_if_is_none_def select_cpu_def bsp_def tg_def home_def)
next
  case False
  then have "home s t = Some (unat (cells s t))" by (simp add: home_def)
  then show ?thesis using False assms
    by (auto simp: enqueue_select_def set_if_is_none_def select_cpu_def bsp_def tg_def cpu_try_from_def fun_upd_idem)
qed

lemma on_cpu_push:
  "tg < length (rq s) \<Longrightarrow> c < length (rq s) \<Longrightarrow> on_cpu (push_back s tg t) c u = on_cpu s c u + (if c = tg \<and> u = t then 1 else 0)"
  by (auto simp: on_cpu_def push_back_def rq_tasks_def nth_list_update)

lemma push_back_simps [simp]:
  "length (rq (push_back s tg t)) = length (rq s)" "home (push_back s tg t) = home s"
  by (simp_all add: push_back_def home_def fun_eq_iff)

lemma push_back_current: "current (rq (push_back s tg t) ! c) = current (rq s ! c)"
  by (cases "tg < length (rq s)") (auto simp: push_back_def nth_list_update list_update_beyond)

lemma enqueue_push_ok:
  assumes "length (rq s) = n" "n \<le> 2 ^ 32 - 1" "tg < n" "\<forall>c. home s t = Some c \<longrightarrow> c < n"
  shows "\<exists>sc. enqueue_push n s t still tg = Some (None, sc) \<and>
    (if still \<and> home s t \<noteq> None then sc = s
     else \<exists>s1. sc = push_back s1 tg t \<and> rq s1 = rq s \<and> home s1 = (if still then (home s)(t := Some tg) else home s))"
proof (cases "still \<and> cells s t = NONE")
  case True
  then show ?thesis using assms home_upd(2) [of tg s t]
    by (auto simp: enqueue_push_def set_if_is_none_def rindex_def home_def)
next
  case False
  then show ?thesis using assms
    by (auto simp: enqueue_push_def set_if_is_none_def rindex_def home_def cpu_try_from_def fun_upd_idem)
qed

lemma on_cpu_set:
  "c < length (rq s) \<Longrightarrow> on_cpu \<lparr>rq = (rq s)[c := q], cells = cl\<rparr> c' t = (if c' = c then count (rq_tasks q) t else on_cpu s c' t)"
  by (simp add: on_cpu_def nth_list_update)

lemma try_pick_next_cells: "snd (snd (try_pick_next (q, cl))) = cl"
  by (auto split: list.splits)

lemma pick_ok:
  assumes "c < length (rq s)"
  shows "\<exists>r q'. mut_local_rq_with c (Some \<circ> try_pick_next) s = Some (r, \<lparr>rq = (rq s)[c := q'], cells = cells s\<rparr>) \<and>
     rq_tasks q' = rq_tasks (rq s ! c)"
proof -
  obtain r q' where p: "try_pick_next (rq s ! c, cells s) = (r, (q', cells s))"
    using try_pick_next_cells [of "rq s ! c" "cells s"] by (metis prod.collapse)
  then have "rq_tasks q' = rq_tasks (rq s ! c)"
    by (auto simp: rq_tasks_def split: list.splits option.splits)
  then show ?thesis using assms p by (auto simp: mut_local_rq_with_def rindex_def)
qed

lemma park_try_cells:
  "park_try update_current try_pick_next dequeue_current h (first, c0) (q, cl) = Some (r, (q', cl')) \<Longrightarrow>
     cl' = (if first \<and> \<not> h then (case current q of None \<Rightarrow> cl | Some t \<Rightarrow> cl(t := NONE)) else cl)"
  by (auto simp: update_current_def pick_next_def set_to_none_def Let_def bind_eq_Some_conv split: if_splits list.splits option.splits prod.splits)

lemma park_round_woken: "c < length (rq s) \<Longrightarrow> park_round c True (True, None) s = Some (Some None, (True, None), s)"
  by (simp add: park_round_def resched_round_def mut_local_rq_with_def rindex_def)

text \<open>A round that parks \<open>t\<close>, or that looks again for a task while \<open>t\<close> is parked.\<close>

lemma park_round_ok:
  assumes "c < length (rq s)" "first \<longrightarrow> \<not> h \<and> current (rq s ! c) = Some t" "\<not> first \<longrightarrow> current (rq s ! c) = None \<and> c0 = Some t"
  shows "\<exists>out q'. park_round c h (first, c0) s = Some (out, (False, Some t),
      \<lparr>rq = (rq s)[c := q'], cells = (if first then (cells s)(t := NONE) else cells s)\<rparr>) \<and>
    rq_tasks (rq s ! c) = rq_tasks q' + (if first then {#t#} else {#}) \<and> (out = None \<longrightarrow> current q' = None) \<and>
    out \<noteq> Some (Some t) \<and> (out = None \<longleftrightarrow> queue (rq s ! c) = [])"
proof -
  let ?q = "(rq s ! c, cells s)"
  have "\<exists>a q'. park_try update_current try_pick_next dequeue_current h (first, c0) ?q = Some ((a, False, Some t), q') \<and>
    (if rq_waiting ?q = {#} then a = Retry \<and> rq_current q' = None \<and> rq_waiting q' = {#}
     else \<exists>n \<in># rq_waiting ?q. a = (if n = t then DoNothing else SwitchTo n) \<and> rq_current q' = Some n \<and>
       rq_waiting q' = rq_waiting ?q - {#n#})"
  proof (cases first)
    case True
    then show ?thesis using fifo.park_first [of ?q t c0] assms(2) by (simp add: rq_current_def del: park_try.simps)
  next
    case False
    then have n: "rq_current ?q = None" and c0: "c0 = Some t" using assms(3) by (auto simp: rq_current_def)
    show ?thesis using fifo.park_again [OF n, of h t] False n c0 by (auto simp del: park_try.simps split: if_splits)
  qed
  then obtain a q' cl' where p: "park_try update_current try_pick_next dequeue_current h (first, c0) ?q = Some ((a, False, Some t), (q', cl'))"
    and w: "if rq_waiting ?q = {#} then a = Retry \<and> rq_current (q', cl') = None \<and> rq_waiting (q', cl') = {#}
     else \<exists>n \<in># rq_waiting ?q. a = (if n = t then DoNothing else SwitchTo n) \<and> rq_current (q', cl') = Some n \<and>
       rq_waiting (q', cl') = rq_waiting ?q - {#n#}"
    by (metis surj_pair)
  have cl: "cl' = (if first then (cells s)(t := NONE) else cells s)"
    using park_try_cells [OF p] assms(2) by auto
  have tasks: "rq_tasks (rq s ! c) = rq_tasks q' + (if first then {#t#} else {#})"
    using w assms(2,3) by (auto simp: rq_tasks_def rq_waiting_def rq_current_def split: if_splits)
  show ?thesis
    using p cl tasks w assms(1)
    by (auto simp: park_round_def resched_round_def mut_local_rq_with_def rindex_def rq_current_def rq_waiting_def
        simp del: park_try.simps split: if_splits)
qed

text \<open>The placement of the tasks, step by step.\<close>

lemma at_cong: "at n on h K w \<Longrightarrow> \<forall>c < n. on' c = on c \<Longrightarrow> at n on' h K w"
  by (cases w) auto

lemma place_step:
  assumes "place_ok n on hm P" "\<forall>u. u \<noteq> t \<longrightarrow> (\<forall>c < n. on' c u = on c u) \<and> hm' u = hm u \<and> claims P' u = claims P u"
    "\<And>w. at n (\<lambda>c. on c t) (hm t) (claims P t) w \<Longrightarrow> \<exists>w. at n (\<lambda>c. on' c t) (hm' t) (claims P' t) w"
    "\<forall>th t b c. P' th = Push t b c \<longrightarrow> c < n"
  shows "place_ok n on' hm' P'"
  unfolding place_ok_def
proof (intro conjI allI)
  fix u
  obtain w where w: "at n (\<lambda>c. on c u) (hm u) (claims P u) w" using assms(1) unfolding place_ok_def by blast
  show "\<exists>w. at n (\<lambda>c. on' c u) (hm' u) (claims P' u) w"
  proof (cases "u = t")
    case True
    then show ?thesis using assms(3) w by blast
  next
    case False
    then show ?thesis using at_cong [OF w, of "\<lambda>c. on' c u"] assms(2) by auto
  qed
qed (use assms(4) in blast)

lemma place_cong: "place_ok n on hm P \<Longrightarrow> \<forall>c t. c < n \<longrightarrow> on' c t = on c t \<Longrightarrow> place_ok n on' hm P"
  unfolding place_ok_def using at_cong by (metis (mono_tags, lifting))

lemma claims_upd:
  "claims (P(th := Push t False c)) u = (if u = t then insert (th, c) {k \<in> claims P u. fst k \<noteq> th} else {k \<in> claims P u. fst k \<noteq> th})"
  "claims (P(th := Push t True c)) u = {k \<in> claims P u. fst k \<noteq> th}"
  "claims (P(th := Enq t)) u = {k \<in> claims P u. fst k \<noteq> th}"
  "claims (P(th := Idle)) u = {k \<in> claims P u. fst k \<noteq> th}"
  by (auto simp: claims_def split: if_splits)

lemma claims_none: "\<forall>c. P th \<noteq> Push u False c \<Longrightarrow> {k \<in> claims P u. fst k \<noteq> th} = claims P u"
  by (auto simp: claims_def)

lemma place_keep:
  assumes "place_ok n on hm P" "\<forall>t c. P th \<noteq> Push t False c" "\<forall>t c. x \<noteq> Push t False c" "\<forall>t b c. x = Push t b c \<longrightarrow> c < n"
  shows "place_ok n on hm (P(th := x))"
proof -
  have "claims (P(th := x)) u = claims P u" for u using assms(2,3) by (auto simp: claims_def split: if_splits)
  then show ?thesis using assms(1,4) by (auto simp: place_ok_def)
qed

lemma place_claim:
  assumes "place_ok n on hm P" "P th = Enq t" "hm t = None" "c < n"
  shows "place_ok n on (hm(t := Some c)) (P(th := Push t False c))"
proof (rule place_step [OF assms(1), of t])
  show "\<forall>u. u \<noteq> t \<longrightarrow> (\<forall>c < n. on c u = on c u) \<and> (hm(t := Some c)) u = hm u \<and> claims (P(th := Push t False c)) u = claims P u"
    using assms(2) by (auto simp: claims_upd claims_none)
  fix w assume w: "at n (\<lambda>c. on c t) (hm t) (claims P t) w"
  then have "at n (\<lambda>c. on c t) ((hm(t := Some c)) t) (claims (P(th := Push t False c)) t) (Claimed th c)"
    using assms(3,4) by (cases w) (auto simp: claims_upd)
  then show "\<exists>w. at n (\<lambda>c. on c t) ((hm(t := Some c)) t) (claims (P(th := Push t False c)) t) w" by blast
qed (use assms(1,4) in \<open>auto simp: place_ok_def\<close>)

lemma place_push:
  assumes "place_ok n on hm P" "P th = Push t b c" "if b then hm t = None else hm' = hm"
    "\<forall>c' u. c' < n \<longrightarrow> on' c' u = on c' u + (if c' = c \<and> u = t then 1 else 0)" "b \<Longrightarrow> hm' = hm(t := Some c)"
  shows "place_ok n on' hm' (P(th := Idle))"
proof (rule place_step [OF assms(1), of t])
  show "\<forall>u. u \<noteq> t \<longrightarrow> (\<forall>c < n. on' c u = on c u) \<and> hm' u = hm u \<and> claims (P(th := Idle)) u = claims P u"
    using assms(2-5) by (auto simp: claims_upd claims_none split: if_splits)
  fix w assume w: "at n (\<lambda>c. on c t) (hm t) (claims P t) w"
  have c: "c < n" using assms(1,2) by (auto simp: place_ok_def)
  have "b \<or> (th, c) \<in> claims P t" using assms(2) by (auto simp: claims_def)
  then have "at n (\<lambda>c. on' c t) (hm' t) (claims (P(th := Idle)) t) (In c)"
    using w assms(3-5) c by (cases w; cases b) (auto simp: claims_upd)
  then show "\<exists>w. at n (\<lambda>c. on' c t) (hm' t) (claims (P(th := Idle)) t) w" by blast
qed (use assms(1) in \<open>auto simp: place_ok_def\<close>)

lemma place_leave:
  assumes "place_ok n on hm P" "c < n" "\<forall>c' u. c' < n \<longrightarrow> on c' u = on' c' u + (if c' = c \<and> u = t then 1 else 0)"
  shows "place_ok n on' (hm(t := None)) P"
proof (rule place_step [OF assms(1), of t])
  fix w assume w: "at n (\<lambda>c. on c t) (hm t) (claims P t) w"
  have "on c t \<noteq> 0" using assms(2,3) by auto
  then have "at n (\<lambda>c. on' c t) ((hm(t := None)) t) (claims P t) Out"
    using w assms(2,3) by (cases w) (auto split: if_splits)
  then show "\<exists>w. at n (\<lambda>c. on' c t) ((hm(t := None)) t) (claims P t) w" by blast
qed (use assms(1,3) in \<open>auto simp: place_ok_def\<close>)

lemma place_home: "place_ok n on hm P \<Longrightarrow> hm t = Some c \<Longrightarrow> c < n"
proof -
  assume "place_ok n on hm P" "hm t = Some c"
  then obtain w where "at n (\<lambda>c. on c t) (Some c) (claims P t) w" unfolding place_ok_def by metis
  then show "c < n" by (cases w) auto
qed

lemma in_flight_other:
  "in_flight P u \<Longrightarrow> P th \<noteq> Enq u \<Longrightarrow> \<forall>b c. P th \<noteq> Push u b c \<Longrightarrow> in_flight (P(th := x)) u"
  unfolding in_flight_def by (metis fun_upd_other)

lemma in_flight_new: "in_flight (P(th := Enq t)) t" "in_flight (P(th := Push t b c)) t"
  by (auto simp: in_flight_def intro: exI [of _ th])

lemma sys_init_inv: "sys_inv n (sys_init n)"
proof -
  have "at n (\<lambda>c. on_cpu (sched_new n) c t) (home (sched_new n) t) (claims (\<lambda>th. Idle) t) Out" for t :: 'a
    by (simp add: sched_new_def rq_new_def on_cpu_def rq_tasks_def home_def claims_def)
  then have "place_ok n (on_cpu (sched_new n)) (home (sched_new n)) (\<lambda>th. Idle :: 'a waker_pc)"
    unfolding place_ok_def by blast
  moreover have "length (rq (sched_new n)) = n" by (simp add: sched_new_def)
  ultimately show ?thesis by (simp add: sys_inv_def sys_init_def sched_default_def chk_ok_def)
qed

lemma sys_invD:
  assumes "sys_inv n s"
  shows "length (rq (sched s)) = n" "place_ok n (on_cpu (sched s)) (home (sched s)) (pc s)"
    "c < n \<Longrightarrow> park s c = Some t \<Longrightarrow> cur_on s c = None" "woken s t \<Longrightarrow> home (sched s) t = None \<Longrightarrow> in_flight (pc s) t"
    "home (sched s) t = Some c \<Longrightarrow> c < n" "chk_ok n s"
proof -
  show pl: "place_ok n (on_cpu (sched s)) (home (sched s)) (pc s)" using assms by (simp add: sys_inv_def)
  show "home (sched s) t = Some c \<Longrightarrow> c < n" using place_home [OF pl] by simp
qed (use assms in \<open>simp_all add: sys_inv_def\<close>)

lemma at_once:
  assumes "place_ok n on hm P" "c < n" "on c t \<noteq> 0"
  shows "on c t = 1 \<and> hm t = Some c \<and> (\<forall>c' < n. c' \<noteq> c \<longrightarrow> on c' t = 0)"
proof -
  obtain w where "at n (\<lambda>c. on c t) (hm t) (claims P t) w" using assms(1) unfolding place_ok_def by blast
  then show ?thesis using assms(2,3) by (cases w) (auto split: if_splits)
qed

lemma cur_home:
  assumes "sys_inv n s" "c < n" "cur_on s c = Some t"
  shows "home (sched s) t = Some c"
proof -
  have "on_cpu (sched s) c t \<noteq> 0" using assms(3) by (simp add: cur_on_def on_cpu_def rq_tasks_def)
  from at_once [OF sys_invD(2) [OF assms(1)] assms(2) this] show ?thesis by simp
qed

lemma chk_okD:
  assumes "chk_ok n s" "c < n" "chk s c = Some t"
  shows "cur_on s c = Some t" "park s c = None" "woken s t \<Longrightarrow> \<exists>th. pc s th = Enq t \<or> (\<exists>b. pc s th = Push t b c)"
  using assms unfolding chk_ok_def by blast+

text \<open>The waker that a checked task waits for stays on its way, step by step.\<close>

lemma chk_wake:
  assumes "chk_ok n s" "pc s th = Idle"
  shows "chk_ok n (s\<lparr>woken := (woken s)(t := True), pc := (pc s)(th := Enq t)\<rparr>)" (is "chk_ok n ?s")
  unfolding chk_ok_def
proof (intro allI impI)
  fix c u assume c: "c < n" "chk ?s c = Some u"
  note k = chk_okD [OF assms(1) c(1), of u]
  have "\<exists>th'. ((pc s)(th := Enq t)) th' = Enq u \<or> (\<exists>b. ((pc s)(th := Enq t)) th' = Push u b c)" if w: "u = t \<or> woken s u"
  proof (cases "u = t")
    case True
    then show ?thesis by (intro exI [of _ th]) simp
  next
    case False
    then obtain th' where "pc s th' = Enq u \<or> (\<exists>b. pc s th' = Push u b c)" using k(3) w c(2) by auto
    then show ?thesis using assms(2) by (intro exI [of _ th']) auto
  qed
  then show "cur_on ?s c = Some u \<and> park ?s c = None \<and>
    (woken ?s u \<longrightarrow> (\<exists>th. pc ?s th = Enq u \<or> (\<exists>b. pc ?s th = Push u b c)))"
    using k c(2) by (auto simp: cur_on_def split: if_splits)
qed

lemma chk_move:
  assumes "chk_ok n s" "\<And>c. current (rq sc ! c) = current (rq (sched s) ! c)"
    "\<And>c u. c < n \<Longrightarrow> chk s c = Some u \<Longrightarrow> pc s th = Enq u \<or> (\<exists>b. pc s th = Push u b c) \<Longrightarrow> x = Enq u \<or> (\<exists>b. x = Push u b c)"
  shows "chk_ok n (s\<lparr>sched := sc, pc := (pc s)(th := x)\<rparr>)" (is "chk_ok n ?s")
  unfolding chk_ok_def
proof (intro allI impI)
  fix c u assume c: "c < n" "chk ?s c = Some u"
  then have c': "chk s c = Some u" by simp
  note k = chk_okD [OF assms(1) c(1) c']
  have "\<exists>th'. ((pc s)(th := x)) th' = Enq u \<or> (\<exists>b. ((pc s)(th := x)) th' = Push u b c)" if w: "woken s u"
  proof -
    obtain th' where t: "pc s th' = Enq u \<or> (\<exists>b. pc s th' = Push u b c)" using k(3) [OF w] by blast
    then show ?thesis using assms(3) [OF c(1) c'] by (intro exI [of _ th']) auto
  qed
  then show "cur_on ?s c = Some u \<and> park ?s c = None \<and>
    (woken ?s u \<longrightarrow> (\<exists>th. pc ?s th = Enq u \<or> (\<exists>b. pc ?s th = Push u b c)))"
    using k(1,2) assms(2) by (simp add: cur_on_def)
qed

lemma chk_rq:
  assumes "chk_ok n s" "c < n" "length (rq (sched s)) = n"
  shows "chk_ok n (s\<lparr>chk := (chk s)(c := None), sched := \<lparr>rq = (rq (sched s))[c := q'], cells = cl\<rparr>, park := (park s)(c := p)\<rparr>)"
    "chk s c = None \<Longrightarrow> chk_ok n (s\<lparr>sched := \<lparr>rq = (rq (sched s))[c := q'], cells = cl\<rparr>, park := (park s)(c := p)\<rparr>)"
  using assms unfolding chk_ok_def by (auto simp: cur_on_def nth_list_update)

lemma step_enq_select:
  assumes "sys_inv n s" "0 < n" "n \<le> 2 ^ 32 - 1" "pc s th = Enq t"
  shows "\<exists>still tg sc. enqueue_select n (sched s) t Wake = Some ((still, tg), sc) \<and>
    sys_inv n (s\<lparr>sched := sc, pc := (pc s)(th := Push t still tg)\<rparr>)"
proof -
  note inv = sys_invD [OF assms(1)]
  have hm: "\<forall>c. home (sched s) t = Some c \<longrightarrow> c < n" using inv(5) by blast
  define tg where "tg = (case home (sched s) t of None \<Rightarrow> 0 | Some c \<Rightarrow> c)"
  obtain sc where sc: "enqueue_select n (sched s) t Wake = Some ((home (sched s) t \<noteq> None, tg), sc)" "rq sc = rq (sched s)"
    "home sc = (home (sched s))(t := Some tg)"
    using enqueue_select_ok [OF assms(2,3) hm] by (auto simp: tg_def)
  have tg: "tg < n" using hm assms(2) by (auto simp: tg_def split: option.splits)
  have on: "on_cpu sc = on_cpu (sched s)" using sc(2) by (simp add: on_cpu_def fun_eq_iff)
  have "place_ok n (on_cpu (sched s)) ((home (sched s))(t := Some tg)) ((pc s)(th := Push t (home (sched s) t \<noteq> None) tg))"
  proof (cases "home (sched s) t")
    case None
    then show ?thesis using place_claim [of n _ "home (sched s)" "pc s" th t tg] inv(2) assms(4) tg by simp
  next
    case (Some c)
    then have "(home (sched s))(t := Some tg) = home (sched s)" by (auto simp: tg_def)
    then show ?thesis using place_keep [of n _ "home (sched s)" "pc s" th "Push t True tg"] inv(2) assms(4) tg Some by simp
  qed
  moreover have "in_flight ((pc s)(th := Push t b tg)) u" if "woken s u" "((home (sched s))(t := Some tg)) u = None" for u b
    using that inv(4) assms(4) in_flight_other [of "pc s" u th "Push t b tg"] by (auto split: if_splits)
  moreover have "chk_ok n (s\<lparr>sched := sc, pc := (pc s)(th := Push t (home (sched s) t \<noteq> None) tg)\<rparr>)"
  proof (rule chk_move [OF inv(6)])
    fix c u assume c: "c < n" "chk s c = Some u" "pc s th = Enq u \<or> (\<exists>b. pc s th = Push u b c)"
    then have "home (sched s) t = Some c" using cur_home [OF assms(1) c(1)] chk_okD(1) [OF inv(6) c(1,2)] assms(4) by auto
    then show "Push t (home (sched s) t \<noteq> None) tg = Enq u \<or> (\<exists>b. Push t (home (sched s) t \<noteq> None) tg = Push u b c)"
      using c(3) assms(4) by (auto simp: tg_def)
  qed (simp add: sc(2))
  ultimately have "sys_inv n (s\<lparr>sched := sc, pc := (pc s)(th := Push t (home (sched s) t \<noteq> None) tg)\<rparr>)"
    using sc(2,3) on inv(1,3) by (simp add: sys_inv_def cur_on_def)
  then show ?thesis using sc(1) by blast
qed

lemma step_enq_push:
  assumes "sys_inv n s" "n \<le> 2 ^ 32 - 1" "pc s th = Push t still tg"
  shows "\<exists>sc. enqueue_push n (sched s) t still tg = Some (None, sc) \<and>
    (chk s tg = None \<longrightarrow> sys_inv n (s\<lparr>sched := sc, pc := (pc s)(th := Idle)\<rparr>)) \<and> home sc t \<noteq> None"
proof -
  note inv = sys_invD [OF assms(1)]
  have hm: "\<forall>c. home (sched s) t = Some c \<longrightarrow> c < n" using inv(5) by blast
  have tg: "tg < n" using inv(2) assms(3) unfolding place_ok_def by blast
  have still: "\<not> still \<Longrightarrow> home (sched s) t = Some tg"
  proof -
    assume "\<not> still"
    then have "(th, tg) \<in> claims (pc s) t" using assms(3) by (simp add: claims_def)
    moreover obtain w where "at n (\<lambda>c. on_cpu (sched s) c t) (home (sched s) t) (claims (pc s) t) w"
      using inv(2) unfolding place_ok_def by blast
    ultimately show ?thesis by (cases w) auto
  qed
  obtain sc where sc: "enqueue_push n (sched s) t still tg = Some (None, sc)"
    "if still \<and> home (sched s) t \<noteq> None then sc = sched s
     else \<exists>s1. sc = push_back s1 tg t \<and> rq s1 = rq (sched s) \<and> home s1 = (if still then (home (sched s))(t := Some tg) else home (sched s))"
    using enqueue_push_ok [OF _ assms(2) tg hm, of still] inv(1) by blast
  have home: "home sc t \<noteq> None" "\<And>u. u \<noteq> t \<Longrightarrow> home sc u = home (sched s) u"
    using sc(2) still by (auto split: if_splits)
  have rest: "length (rq sc) = n \<and> place_ok n (on_cpu sc) (home sc) ((pc s)(th := Idle)) \<and> (\<forall>c. current (rq sc ! c) = current (rq (sched s) ! c))"
  proof (cases "still \<and> home (sched s) t \<noteq> None")
    case True
    then show ?thesis using sc(2) inv(1,2) place_keep [of n _ _ "pc s" th Idle] assms(3) by simp
  next
    case False
    then obtain s1 where s1: "sc = push_back s1 tg t" "rq s1 = rq (sched s)"
      "home s1 = (if still then (home (sched s))(t := Some tg) else home (sched s))" using sc(2) by auto
    have on: "\<forall>c u. c < n \<longrightarrow> on_cpu sc c u = on_cpu (sched s) c u + (if c = tg \<and> u = t then 1 else 0)"
      using on_cpu_push [of tg s1 _ t] s1(2) inv(1) tg by (simp add: s1(1)) (simp add: on_cpu_def)
    have "place_ok n (on_cpu sc) (home sc) ((pc s)(th := Idle))"
      using False s1(3) by (intro place_push [OF inv(2) assms(3) _ on]) (auto simp: s1(1))
    then show ?thesis using inv(1) s1(2) push_back_current [of s1 tg t] by (simp add: s1(1))
  qed
  moreover have "in_flight ((pc s)(th := Idle)) u" if "woken s u" "home sc u = None" for u
    using that inv(4) assms(3) in_flight_other [of "pc s" u th Idle] home by (cases "u = t") auto
  moreover have "chk_ok n (s\<lparr>sched := sc, pc := (pc s)(th := Idle)\<rparr>)" if "chk s tg = None"
    by (rule chk_move [OF inv(6)]) (use rest assms(3) that in auto)
  ultimately show ?thesis using sc(1) inv(3) home by (auto simp: sys_inv_def cur_on_def)
qed

lemma step_rq:
  assumes "sys_inv n s" "c < n" "rq_tasks q' = rq_tasks (rq (sched s) ! c)" "p \<noteq> None \<Longrightarrow> current q' = None" "chk s c = None"
  shows "sys_inv n (s\<lparr>sched := \<lparr>rq = (rq (sched s))[c := q'], cells = cells (sched s)\<rparr>, park := (park s)(c := p)\<rparr>)"
proof -
  note inv = sys_invD [OF assms(1)]
  let ?sc = "\<lparr>rq = (rq (sched s))[c := q'], cells = cells (sched s)\<rparr>"
  have "\<forall>c' t. c' < n \<longrightarrow> on_cpu ?sc c' t = on_cpu (sched s) c' t"
    using inv(1) assms(2,3) by (simp add: on_cpu_def nth_list_update)
  then have "place_ok n (on_cpu ?sc) (home (sched s)) (pc s)" by (rule place_cong [OF inv(2)])
  moreover have "home ?sc = home (sched s)" by (simp add: home_def fun_eq_iff)
  moreover have "\<forall>c' t. c' < n \<longrightarrow> ((park s)(c := p)) c' = Some t \<longrightarrow> current ((rq (sched s))[c := q'] ! c') = None"
    using inv(1) assms(2,4) inv(3) [unfolded cur_on_def] by (auto simp: nth_list_update)
  ultimately show ?thesis using inv(1,4) chk_rq(2) [OF inv(6) assms(2) inv(1) assms(5)] by (simp add: sys_inv_def cur_on_def)
qed

lemma step_park:
  assumes "sys_inv n s" "c < n" "chk s c = Some t" "rq_tasks (rq (sched s) ! c) = rq_tasks q' + {#t#}"
    "p \<noteq> None \<Longrightarrow> current q' = None"
  shows "sys_inv n (s\<lparr>chk := (chk s)(c := None), sched := \<lparr>rq = (rq (sched s))[c := q'], cells = (cells (sched s))(t := NONE)\<rparr>,
    park := (park s)(c := p)\<rparr>)"
proof -
  note inv = sys_invD [OF assms(1)]
  let ?sc = "\<lparr>rq = (rq (sched s))[c := q'], cells = (cells (sched s))(t := NONE)\<rparr>"
  have hm: "home ?sc = (home (sched s))(t := None)" by (simp add: home_def fun_eq_iff)
  have "\<forall>c' u. c' < n \<longrightarrow> on_cpu (sched s) c' u = on_cpu ?sc c' u + (if c' = c \<and> u = t then 1 else 0)"
    using inv(1) assms(2,4) by (simp add: on_cpu_def nth_list_update)
  then have "place_ok n (on_cpu ?sc) (home ?sc) (pc s)" unfolding hm by (rule place_leave [OF inv(2) assms(2)])
  moreover have "\<forall>u. woken s u \<longrightarrow> home ?sc u = None \<longrightarrow> in_flight (pc s) u"
    using inv(4) chk_okD(3) [OF inv(6) assms(2,3)] unfolding hm in_flight_def by (metis fun_upd_other)
  moreover have "\<forall>c' t. c' < n \<longrightarrow> ((park s)(c := p)) c' = Some t \<longrightarrow> current ((rq (sched s))[c := q'] ! c') = None"
    using inv(1) assms(2,5) inv(3) [unfolded cur_on_def] by (auto simp: nth_list_update)
  ultimately show ?thesis using inv(1) chk_rq(1) [OF inv(6) assms(2) inv(1)] by (simp add: sys_inv_def cur_on_def)
qed

lemma sys_step_inv:
  assumes "sys_step n s s'" "sys_inv n s" "0 < n" "n \<le> 2 ^ 32 - 1"
  shows "sys_inv n s'"
  using assms(1)
proof cases
  case (wake th t)
  have "in_flight ((pc s)(th := Enq t)) u" if "(if u = t then True else woken s u)" "home (sched s) u = None" for u
    using that wake(2) sys_invD(4) [OF assms(2), of u] in_flight_other [of "pc s" u th "Enq t"] in_flight_new(1) [of "pc s" th t]
    by (cases "u = t") auto
  then show ?thesis using wake sys_invD(1,2,3) [OF assms(2)] place_keep [of n _ _ "pc s" th "Enq t"]
      chk_wake [OF sys_invD(6) [OF assms(2)] wake(2), of t]
    by (simp add: sys_inv_def cur_on_def)
next
  case (enq_select th t still target sc)
  then show ?thesis using step_enq_select [OF assms(2-4)] by fastforce
next
  case (enq_push th t still target r sc)
  then show ?thesis using step_enq_push [OF assms(2,4)] by fastforce
next
  case (park_check c t)
  have "chk_ok n (s\<lparr>chk := (chk s)(c := Some t)\<rparr>)" if "\<not> woken s t"
    using sys_invD(6) [OF assms(2)] park_check that unfolding chk_ok_def by (auto simp: cur_on_def)
  then show ?thesis using park_check(1) assms(2) by (auto simp: sys_inv_def cur_on_def)
next
  case (park_first c t r)
  note ck = chk_okD [OF sys_invD(6) [OF assms(2)] park_first(2,3)]
  have len: "c < length (rq (sched s))" using park_first(2) sys_invD(1) [OF assms(2)] by simp
  obtain out q' where "r = (out, (False, Some t), \<lparr>rq = (rq (sched s))[c := q'], cells = (cells (sched s))(t := NONE)\<rparr>)"
    "rq_tasks (rq (sched s) ! c) = rq_tasks q' + {#t#}" "out = None \<longrightarrow> current q' = None"
    using park_round_ok [OF len, of True False t None] park_first ck(1) by (auto simp: cur_on_def)
  then show ?thesis using step_park [OF assms(2) park_first(2,3), of q' "if out = None then Some t else None"] park_first(1)
    by (auto simp: after_round_def split: if_splits)
next
  case (park_again c t r)
  have len: "c < length (rq (sched s))" using park_again(2) sys_invD(1) [OF assms(2)] by simp
  have nc: "chk s c = None" using chk_okD(2) [OF sys_invD(6) [OF assms(2)] park_again(2)] park_again(3) by (cases "chk s c") auto
  obtain out q' where "r = (out, (False, Some t), \<lparr>rq = (rq (sched s))[c := q'], cells = cells (sched s)\<rparr>)"
    "rq_tasks (rq (sched s) ! c) = rq_tasks q'" "out = None \<longrightarrow> current q' = None"
    using park_round_ok [OF len, of False "woken s t" t "Some t"] park_again sys_invD(3) [OF assms(2) park_again(2,3)] by (auto simp: cur_on_def)
  then show ?thesis using step_rq [OF assms(2) park_again(2) _ _ nc, of q' "if out = None then Some t else None"] park_again(1)
    by (auto simp: after_round_def split: if_splits)
next
  case (resume c t)
  have "chk_ok n (s\<lparr>woken := (woken s)(t := False)\<rparr>)"
    using sys_invD(6) [OF assms(2)] unfolding chk_ok_def by (auto simp: cur_on_def)
  then show ?thesis using resume(1) sys_invD(1-4) [OF assms(2)] by (auto simp: sys_inv_def cur_on_def)
next
  case (pick c r sc)
  then obtain q' where "sc = \<lparr>rq = (rq (sched s))[c := q'], cells = cells (sched s)\<rparr>" "rq_tasks q' = rq_tasks (rq (sched s) ! c)"
    using pick_ok [of c "sched s"] sys_invD(1) [OF assms(2)] by auto
  moreover have "(park s)(c := None) = park s" using pick by auto
  ultimately show ?thesis using step_rq [OF assms(2) pick(2) _ _ pick(4), of q' None] pick(1) by simp
qed

lemma sys_reach_inv: "sys_reach n s \<Longrightarrow> 0 < n \<Longrightarrow> n \<le> 2 ^ 32 - 1 \<Longrightarrow> sys_inv n s"
  by (induction rule: sys_reach.induct) (auto intro: sys_init_inv sys_step_inv)

section \<open>Properties\<close>

text \<open>C16: a task is in at most one place.  In every state that any number of threads that wake tasks and any number of CPUs
  that park, pick and resume can reach, a task that is in a run queue (waiting or current) is there exactly once, is in no other
  run queue, and its CPU cell names that queue; so no task is ever current on two CPUs.\<close>

theorem task_on_one_cpu:
  assumes "sys_reach n s" "0 < n" "n \<le> 2 ^ 32 - 1" "c < n" "t \<in># rq_tasks (rq (sched s) ! c)"
  shows "count (rq_tasks (rq (sched s) ! c)) t = 1 \<and> cpu_get n (cells (sched s) t) = Some c \<and>
    (\<forall>c'. c' < n \<and> c' \<noteq> c \<longrightarrow> t \<notin># rq_tasks (rq (sched s) ! c'))"
proof -
  have inv: "sys_inv n s" using sys_reach_inv assms(1-3) by blast
  have "on_cpu (sched s) c t \<noteq> 0" using assms(5) by (simp add: on_cpu_def)
  from at_once [OF sys_invD(2) [OF inv] assms(4) this] show ?thesis using assms(4)
    by (auto simp: on_cpu_def home_def cpu_get_def cpu_try_from_def not_in_iff split: if_splits)
qed

text \<open>C15: a wake-up is not lost in the race with parking.  A thread makes \<open>has_unparked\<close> true and calls \<open>unpark_target\<close>, both without
  the lock of the run queue up to the push, while the task is anywhere in \<open>park_current\<close>: before it reads \<open>has_unparked\<close>, after it has
  read false and before it is dequeued, or after that.  In every reachable state neither half of a call in flight and no
  round of \<open>park_current\<close> panics; a task that has been woken and not yet resumed is in a run queue or a call for it is in flight;
  and when no call is in flight, it is in the run queue that its cell names.\<close>

theorem wakeup_not_lost:
  assumes "sys_reach n s" "0 < n" "n \<le> 2 ^ 32 - 1"
  shows "(\<forall>th u. pc s th = Enq u \<longrightarrow> enqueue_select n (sched s) u Wake \<noteq> None) \<and>
    (\<forall>th u b c. pc s th = Push u b c \<longrightarrow> enqueue_push n (sched s) u b c \<noteq> None) \<and>
    (\<forall>c u. c < n \<and> chk s c = Some u \<longrightarrow> cur_on s c = Some u) \<and>
    (\<forall>c u b. c < n \<and> cur_on s c = Some u \<longrightarrow> park_round c b (True, None) (sched s) \<noteq> None) \<and>
    (\<forall>c u. c < n \<and> park s c = Some u \<longrightarrow> park_round c (woken s u) (False, Some u) (sched s) \<noteq> None) \<and>
    (woken s t \<longrightarrow> (\<exists>c < n. t \<in># rq_tasks (rq (sched s) ! c)) \<or> (\<exists>th. pc s th = Enq t \<or> (\<exists>b c. pc s th = Push t b c))) \<and>
    (woken s t \<and> (\<forall>th. pc s th = Idle) \<longrightarrow>
      (\<exists>c < n. cpu_get n (cells (sched s) t) = Some c \<and> t \<in># rq_tasks (rq (sched s) ! c)))"
proof -
  have inv: "sys_inv n s" using sys_reach_inv assms by blast
  obtain w where w: "at n (\<lambda>c. on_cpu (sched s) c t) (home (sched s) t) (claims (pc s) t) w"
    using sys_invD(2) [OF inv] unfolding place_ok_def by blast
  have "(\<exists>c < n. home (sched s) t = Some c \<and> t \<in># rq_tasks (rq (sched s) ! c)) \<or> in_flight (pc s) t" if "woken s t"
  proof (cases w)
    case Out
    then show ?thesis using that w sys_invD(4) [OF inv] by simp
  next
    case (In c)
    then have "count (rq_tasks (rq (sched s) ! c)) t = 1" "c < n" "home (sched s) t = Some c" using w by (simp_all add: on_cpu_def)
    then show ?thesis by (metis count_eq_zero_iff zero_neq_one)
  next
    case (Claimed th c)
    then have "(th, c) \<in> claims (pc s) t" using w by simp
    then show ?thesis by (auto simp: claims_def in_flight_def)
  qed
  moreover have "cpu_get n (cells (sched s) t) = Some c" if "home (sched s) t = Some c" for c
    using that sys_invD(5) [OF inv that] by (auto simp: home_def cpu_get_def cpu_try_from_def split: if_splits)
  moreover have "\<not> in_flight (pc s) t" if "\<forall>th. pc s th = Idle" using that by (simp add: in_flight_def)
  moreover have "cur_on s c = Some u" if "c < n" "chk s c = Some u" for c u
    using chk_okD(1) [OF sys_invD(6) [OF inv] that] by simp
  moreover have "park_round c b (True, None) (sched s) \<noteq> None" if "c < n" "cur_on s c = Some u" for c u b
    using that park_round_ok [of c "sched s" True False u None] park_round_woken [of c "sched s"] sys_invD(1) [OF inv]
    by (cases b) (auto simp: cur_on_def)
  moreover have "park_round c (woken s u) (False, Some u) (sched s) \<noteq> None" if "c < n" "park s c = Some u" for c u
    using that park_round_ok [of c "sched s" False _ u "Some u"] sys_invD(1,3) [OF inv] by (fastforce simp: cur_on_def)
  moreover have "enqueue_select n (sched s) u Wake \<noteq> None" if "pc s th = Enq u" for th u
    using step_enq_select [OF inv assms(2,3) that] by auto
  moreover have "enqueue_push n (sched s) u b c \<noteq> None" if "pc s th = Push u b c" for th u b c
    using step_enq_push [OF inv assms(3) that] by auto
  ultimately show ?thesis unfolding in_flight_def by blast
qed

lemma reach_step: "sys_reach n s \<Longrightarrow> sys_step n s s'' \<Longrightarrow> s'' = s' \<Longrightarrow> sys_reach n s'"
  using sys_reach.step by metis

text \<open>The race itself: task 7 runs on CPU 0 and has read \<open>has_unparked\<close> as false when thread 0 wakes it and finds it still in its run
  queue; then it is dequeued, and thread 0 gets the lock and puts it back.\<close>

abbreviation demo_sched :: "nat option \<Rightarrow> nat list \<Rightarrow> AtomicCpuId \<Rightarrow> nat FifoScheduler" where
  "demo_sched cur ts a \<equiv> \<lparr>rq = [\<lparr>current = cur, queue = ts\<rparr>, rq_new], cells = (\<lambda>t. NONE)(7 := a)\<rparr>"

abbreviation demo_sys :: "nat FifoScheduler \<Rightarrow> bool \<Rightarrow> nat waker_pc \<Rightarrow> nat option \<Rightarrow> nat option \<Rightarrow> nat sys" where
  "demo_sys sc w p k q \<equiv> \<lparr>sched = sc, woken = (\<lambda>t. False)(7 := w), pc = (\<lambda>th. Idle)(0 := p),
     chk = (\<lambda>c. None)(0 := k), park = (\<lambda>c. None)(0 := q)\<rparr>"

lemmas demo_defs = enqueue_select_def enqueue_push_def select_cpu_def bsp_def set_if_is_none_def rindex_def push_back_def cpu_try_from_def
  cur_on_def after_round_def park_round_def resched_round_def mut_local_rq_with_def park_decide_def update_current_def pick_next_def
  set_to_none_def rq_new_def

lemma reach_running: "sys_reach 2 (demo_sys (demo_sched (Some 7) [] 0) False Idle None None)"
proof -
  have 0: "sys_reach 2 (demo_sys (demo_sched None [] NONE) False Idle None None)"
    using sys_reach.init [of 2] by (simp add: sys_init_def sched_default_def sched_new_def rq_new_def numeral_2_eq_2 fun_upd_idem)
  have 1: "sys_reach 2 (demo_sys (demo_sched None [] NONE) True (Enq 7) None None)"
    by (rule reach_step [OF 0 sys_step.wake [of _ 0 2 7]]) simp_all
  have 2: "sys_reach 2 (demo_sys (demo_sched None [] 0) True (Push 7 False 0) None None)"
    by (rule reach_step [OF 1 sys_step.enq_select [of _ 0 7 2 False 0 "demo_sched None [] 0"]]) (simp_all add: demo_defs)
  have 3: "sys_reach 2 (demo_sys (demo_sched None [7] 0) True Idle None None)"
    by (rule reach_step [OF 2 sys_step.enq_push [of _ 0 7 False 0 2 None "demo_sched None [7] 0"]]) (simp_all add: demo_defs)
  have 4: "sys_reach 2 (demo_sys (demo_sched (Some 7) [] 0) True Idle None None)"
    by (rule reach_step [OF 3 sys_step.pick [of 0 2 _ "Some 7" "demo_sched (Some 7) [] 0"]]) (simp_all add: demo_defs)
  show ?thesis by (rule reach_step [OF 4 sys_step.resume [of 0 2 _ 7]]) (simp_all add: demo_defs)
qed

lemma reach_race:
  "sys_reach 2 (demo_sys (demo_sched (Some 7) [] 0) True (Push 7 True 0) (Some 7) None)"
  "sys_reach 2 (demo_sys (demo_sched None [7] 0) True Idle None (Some 7))"
proof -
  have 1: "sys_reach 2 (demo_sys (demo_sched (Some 7) [] 0) False Idle (Some 7) None)"
    by (rule reach_step [OF reach_running sys_step.park_check [of 0 2 _ 7]]) (simp_all add: demo_defs)
  have 2: "sys_reach 2 (demo_sys (demo_sched (Some 7) [] 0) True (Enq 7) (Some 7) None)"
    by (rule reach_step [OF 1 sys_step.wake [of _ 0 2 7]]) simp_all
  show 3: "sys_reach 2 (demo_sys (demo_sched (Some 7) [] 0) True (Push 7 True 0) (Some 7) None)"
    by (rule reach_step [OF 2 sys_step.enq_select [of _ 0 7 2 True 0 "demo_sched (Some 7) [] 0"]]) (simp_all add: demo_defs NONE_def)
  have 4: "sys_reach 2 (demo_sys (demo_sched None [] NONE) True (Push 7 True 0) None (Some 7))"
    by (rule reach_step [OF 3 sys_step.park_first [of 0 2 _ 7 "(None, (False, Some 7), demo_sched None [] NONE)"]])
      (simp_all add: demo_defs)
  show "sys_reach 2 (demo_sys (demo_sched None [7] 0) True Idle None (Some 7))"
    by (rule reach_step [OF 4 sys_step.enq_push [of _ 0 7 True 0 2 None "demo_sched None [7] 0"]]) (simp_all add: demo_defs)
qed

theorem task_on_one_cpu_witness:
  "\<exists>s. sys_reach 2 s \<and> count (rq_tasks (rq (sched s) ! 0)) (7 :: nat) = 1 \<and> 7 \<notin># rq_tasks (rq (sched s) ! 1)"
proof -
  let ?s = "demo_sys (demo_sched None [7] 0) True Idle None (Some 7)"
  have m: "(7 :: nat) \<in># rq_tasks (rq (sched ?s) ! 0)" by (simp add: rq_tasks_def)
  have n: "0 < (2 :: nat)" "(2 :: nat) \<le> 2 ^ 32 - 1" "(1 :: nat) < 2 \<and> (1 :: nat) \<noteq> 0" by simp_all
  note once = task_on_one_cpu [OF reach_race(2) n(1,2,1) m]
  have "count (rq_tasks (rq (sched ?s) ! 0)) 7 = 1 \<and> 7 \<notin># rq_tasks (rq (sched ?s) ! 1)"
    using conjunct1 [OF once] spec [OF conjunct2 [OF conjunct2 [OF once]], of 1] n(3) by blast
  then show ?thesis using reach_race(2) by (intro exI [of _ ?s] conjI) blast+
qed

theorem wakeup_not_lost_witness:
  "\<exists>s. sys_reach 2 s \<and> woken s (7 :: nat) \<and> (\<exists>c < 2. cpu_get 2 (cells (sched s) 7) = Some c \<and> 7 \<in># rq_tasks (rq (sched s) ! c))"
proof -
  let ?s = "demo_sys (demo_sched None [7] 0) True Idle None (Some 7)"
  have w: "woken ?s 7" "\<forall>th. pc ?s th = Idle" "0 < (2 :: nat)" "(2 :: nat) \<le> 2 ^ 32 - 1" by simp_all
  have "woken ?s 7 \<and> (\<forall>th. pc ?s th = Idle) \<longrightarrow> (\<exists>c < 2. cpu_get 2 (cells (sched ?s) 7) = Some c \<and> 7 \<in># rq_tasks (rq (sched ?s) ! c))"
    using wakeup_not_lost [OF reach_race(2) w(3,4), of 7] by (elim conjE) assumption
  with w(1,2) have "\<exists>c < 2. cpu_get 2 (cells (sched ?s) 7) = Some c \<and> 7 \<in># rq_tasks (rq (sched ?s) ! c)" by blast
  then show ?thesis using reach_race(2) w(1) by (intro exI [of _ ?s] conjI) blast+
qed

text \<open>A run queue under a sequence of calls: \<open>None\<close> is a pick, \<open>Some t\<close> the push of a task that was woken.\<close>

fun rq_calls :: "'t option list \<Rightarrow> 't rq_cells \<Rightarrow> 't rq_cells" where
  "rq_calls [] q = q"
| "rq_calls (None # os) q = rq_calls os (snd (try_pick_next q))"
| "rq_calls (Some t # os) (q, cl) = rq_calls os (q\<lparr>queue := queue q @ [t]\<rparr>, cl)"

lemma rq_calls_append: "rq_calls (os @ os') q = rq_calls os' (rq_calls os q)"
  by (induction os q rule: rq_calls.induct) auto

lemma rq_calls_index:
  "i < length (queue (fst q)) \<Longrightarrow> length (filter Option.is_none os) \<le> i \<Longrightarrow>
     (let q' = rq_calls os q in i - length (filter Option.is_none os) < length (queue (fst q')) \<and>
       queue (fst q') ! (i - length (filter Option.is_none os)) = queue (fst q) ! i)"
proof (induction os q arbitrary: i rule: rq_calls.induct)
  case (2 os q)
  obtain r cl where q: "q = (r, cl)" by force
  obtain x xs where x: "queue r = x # xs" using "2.prems" q by (cases "queue r") auto
  obtain j where j: "i = Suc j" using "2.prems" by (cases i) auto
  have "j < length (queue (fst (snd (try_pick_next q))))" "queue (fst (snd (try_pick_next q))) ! j = queue (fst q) ! i"
    using "2.prems" x j q by (auto simp: nth_append split: option.splits)
  then show ?case using "2.IH" [of j] "2.prems" j by (simp add: Let_def del: try_pick_next.simps)
next
  case (3 t os q cl)
  then show ?case using "3.IH" [of i] by (simp add: Let_def nth_append)
qed simp

text \<open>C20: first come, first served.  The task at index \<open>i\<close> of a run queue becomes the current task with exactly the \<open>i + 1\<close>st
  pick, whatever is pushed before and between the picks.\<close>

theorem fifo_order:
  assumes "i < length (queue (fst q))" "length (filter Option.is_none calls) = i"
  shows "rq_current (rq_calls (calls @ [None]) q) = Some (queue (fst q) ! i)"
proof -
  obtain r cl where r: "rq_calls calls q = (r, cl)" by force
  then have "0 < length (queue r)" "queue r ! 0 = queue (fst q) ! i"
    using rq_calls_index [OF assms(1), of calls] assms(2) by (simp_all add: Let_def)
  then show ?thesis using r by (cases "queue r") (auto simp: rq_calls_append rq_current_def)
qed

theorem fifo_order_witness:
  "rq_current (rq_calls [Some 9, None, None] (\<lparr>current = Some (1 :: nat), queue = [2, 3]\<rparr>, \<lambda>t. 0)) = Some 3"
  using fifo_order [of 1 "(\<lparr>current = Some (1 :: nat), queue = [2, 3]\<rparr>, \<lambda>t. 0)" "[Some 9, None]"] by simp

end
