(* ===== verification/Arch_Pte.thy ===== *)
theory Arch_Pte
  imports Page_Prop
begin

text \<open>
  The page-table entries of RISC-V (\<open>src/ostd/src/arch/riscv/mm/mod.rs\<close>) and LoongArch
  (\<open>src/ostd/src/arch/loongarch/mm/mod.rs\<close>), on 64-bit words, with the paging constants of both.  The locale \<open>pte_codec\<close> is the part of
  the contract of \<open>PageTableEntryTrait\<close> that the three architectures share: each has its own set of properties and
  levels that an entry can express, and LoongArch can change the property of basic pages only.
\<close>

section \<open>The RISC-V entry\<close>

type_synonym riscv_pte = "64 word"

definition riscv_flag :: "nat \<Rightarrow> riscv_pte" where "riscv_flag k = push_bit k 1"

abbreviation R_VALID :: riscv_pte where "R_VALID \<equiv> riscv_flag 0"
abbreviation R_READABLE :: riscv_pte where "R_READABLE \<equiv> riscv_flag 1"
abbreviation R_WRITABLE :: riscv_pte where "R_WRITABLE \<equiv> riscv_flag 2"
abbreviation R_EXECUTABLE :: riscv_pte where "R_EXECUTABLE \<equiv> riscv_flag 3"
abbreviation R_USER :: riscv_pte where "R_USER \<equiv> riscv_flag 4"
abbreviation R_GLOBAL :: riscv_pte where "R_GLOBAL \<equiv> riscv_flag 5"
abbreviation R_ACCESSED :: riscv_pte where "R_ACCESSED \<equiv> riscv_flag 6"
abbreviation R_DIRTY :: riscv_pte where "R_DIRTY \<equiv> riscv_flag 7"
abbreviation R_RSV1 :: riscv_pte where "R_RSV1 \<equiv> riscv_flag 8"
abbreviation R_RSV2 :: riscv_pte where "R_RSV2 \<equiv> riscv_flag 9"
abbreviation R_PBMT_IO :: riscv_pte where "R_PBMT_IO \<equiv> riscv_flag 62"

definition riscv_PHYS_ADDR_MASK :: riscv_pte where "riscv_PHYS_ADDR_MASK = 0x003FFFFFFFFFFC00"

definition riscv_new_paddr :: "Paddr \<Rightarrow> riscv_pte" where
  "riscv_new_paddr paddr = (let ppn = drop_bit 12 (of_nat paddr) in push_bit 10 ppn)"

definition riscv_new_absent :: riscv_pte where "riscv_new_absent = 0"

definition riscv_is_present :: "riscv_pte \<Rightarrow> bool" where
  "riscv_is_present self \<longleftrightarrow> self AND R_VALID \<noteq> 0"

definition riscv_new_pt :: "Paddr \<Rightarrow> riscv_pte" where
  "riscv_new_pt paddr = riscv_new_paddr paddr OR R_VALID"

definition riscv_paddr :: "riscv_pte \<Rightarrow> Paddr" where
  "riscv_paddr self = (let ppn = drop_bit 10 (self AND riscv_PHYS_ADDR_MASK) in unat (push_bit 12 ppn))"

definition riscv_prop :: "riscv_pte \<Rightarrow> PageProperty option" where
  "riscv_prop self = (
     let fl = parse_flags self R_READABLE (ucast PF_R)
           OR parse_flags self R_WRITABLE (ucast PF_W)
           OR parse_flags self R_EXECUTABLE (ucast PF_X)
           OR parse_flags self R_ACCESSED (ucast PF_ACCESSED)
           OR parse_flags self R_DIRTY (ucast PF_DIRTY)
           OR parse_flags self R_RSV1 (ucast PF_AVAIL1)
           OR parse_flags self R_RSV2 (ucast PF_AVAIL2);
         pf = parse_flags self R_USER (ucast PPF_USER)
           OR parse_flags self R_GLOBAL (ucast PPF_GLOBAL);
         c = (if self AND R_PBMT_IO \<noteq> 0 then Uncacheable else Writeback)
     in do {
       f \<leftarrow> from_bits page_flags_all (ucast fl);
       p \<leftarrow> from_bits (priv_flags_all False) (ucast pf);
       Some \<lparr>flags = f, cache = c, priv_flags = p\<rparr>
     })"

definition riscv_prop_flags :: "PageProperty \<Rightarrow> riscv_pte" where
  "riscv_prop_flags prop =
     R_VALID
     OR parse_flags (ucast (flags prop)) (ucast PF_R) R_READABLE
     OR parse_flags (ucast (flags prop)) (ucast PF_W) R_WRITABLE
     OR parse_flags (ucast (flags prop)) (ucast PF_X) R_EXECUTABLE
     OR parse_flags (ucast (priv_flags prop)) (ucast PPF_USER) R_USER
     OR parse_flags (ucast (priv_flags prop)) (ucast PPF_GLOBAL) R_GLOBAL
     OR parse_flags (ucast (flags prop)) (ucast PF_AVAIL1) R_RSV1
     OR parse_flags (ucast (flags prop)) (ucast PF_AVAIL2) R_RSV2"

definition riscv_set_prop :: "riscv_pte \<Rightarrow> PageProperty \<Rightarrow> riscv_pte option" where
  "riscv_set_prop self prop = (
     if \<not> riscv_is_present self then Some self
     else do {
       fl \<leftarrow> (case cache prop of
                Writeback \<Rightarrow> Some (riscv_prop_flags prop)
              | Uncacheable \<Rightarrow> Some (riscv_prop_flags prop OR R_PBMT_IO)
              | _ \<Rightarrow> None);
       Some ((self AND riscv_PHYS_ADDR_MASK) OR fl)
     })"

definition riscv_new_page :: "Paddr \<Rightarrow> nat \<Rightarrow> PageProperty \<Rightarrow> riscv_pte option" where
  "riscv_new_page paddr level prop = riscv_set_prop (riscv_new_paddr paddr OR R_VALID) prop"

definition riscv_is_last :: "riscv_pte \<Rightarrow> nat \<Rightarrow> bool" where
  "riscv_is_last self level \<longleftrightarrow> level = 1 \<or> self AND (R_READABLE OR R_WRITABLE OR R_EXECUTABLE) \<noteq> 0"

definition riscv_pte_ops :: "riscv_pte pte_ops" where
  "riscv_pte_ops = \<lparr>new_absent = riscv_new_absent, is_present = riscv_is_present, new_page = riscv_new_page,
     new_pt = riscv_new_pt, pte_paddr = riscv_paddr, pte_prop = riscv_prop, set_prop = riscv_set_prop, is_last = riscv_is_last\<rparr>"

section \<open>The LoongArch entry\<close>

type_synonym loong_pte = "64 word"

definition loong_flag :: "nat \<Rightarrow> loong_pte" where "loong_flag k = push_bit k 1"

abbreviation L_VALID :: loong_pte where "L_VALID \<equiv> loong_flag 0"
abbreviation L_DIRTY :: loong_pte where "L_DIRTY \<equiv> loong_flag 1"
abbreviation L_PLVL :: loong_pte where "L_PLVL \<equiv> loong_flag 2"
abbreviation L_PLVH :: loong_pte where "L_PLVH \<equiv> loong_flag 3"
abbreviation L_MATL :: loong_pte where "L_MATL \<equiv> loong_flag 4"
abbreviation L_MATH :: loong_pte where "L_MATH \<equiv> loong_flag 5"
abbreviation L_GLOBAL_OR_HUGE :: loong_pte where "L_GLOBAL_OR_HUGE \<equiv> loong_flag 6"
abbreviation L_PRESENT :: loong_pte where "L_PRESENT \<equiv> loong_flag 7"
abbreviation L_WRITABLE :: loong_pte where "L_WRITABLE \<equiv> loong_flag 8"
abbreviation L_IS_BASIC :: loong_pte where "L_IS_BASIC \<equiv> loong_flag 9"
abbreviation L_RSV1 :: loong_pte where "L_RSV1 \<equiv> loong_flag 10"
abbreviation L_RSV2 :: loong_pte where "L_RSV2 \<equiv> loong_flag 11"
abbreviation L_GLOBAL_IN_HUGE :: loong_pte where "L_GLOBAL_IN_HUGE \<equiv> loong_flag 12"
abbreviation L_NOT_READABLE :: loong_pte where "L_NOT_READABLE \<equiv> loong_flag 61"
abbreviation L_NOT_EXECUTABLE :: loong_pte where "L_NOT_EXECUTABLE \<equiv> loong_flag 62"

definition loong_PHYS_ADDR_MASK :: loong_pte where "loong_PHYS_ADDR_MASK = 0x0000FFFFFFFFF000"

definition loong_is_huge :: "loong_pte \<Rightarrow> bool" where
  "loong_is_huge self = (if self AND L_IS_BASIC \<noteq> 0 then False else self AND L_GLOBAL_OR_HUGE \<noteq> 0)"

definition loong_is_global :: "loong_pte \<Rightarrow> bool" where
  "loong_is_global self = (if self AND L_IS_BASIC \<noteq> 0 then self AND L_GLOBAL_OR_HUGE \<noteq> 0 else self AND L_GLOBAL_IN_HUGE \<noteq> 0)"

definition loong_is_user :: "loong_pte \<Rightarrow> bool" where
  "loong_is_user self \<longleftrightarrow> self AND L_PLVL \<noteq> 0 \<and> self AND L_PLVH \<noteq> 0"

definition loong_new_absent :: loong_pte where "loong_new_absent = 0"

definition loong_is_present :: "loong_pte \<Rightarrow> bool" where
  "loong_is_present self \<longleftrightarrow> self AND L_VALID \<noteq> 0"

definition loong_new_pt :: "Paddr \<Rightarrow> loong_pte" where
  "loong_new_pt paddr = (of_nat paddr AND loong_PHYS_ADDR_MASK) OR L_VALID"

definition loong_paddr :: "loong_pte \<Rightarrow> Paddr" where
  "loong_paddr self = (
     if loong_is_huge self
     then unat (push_bit 12 (drop_bit 12 (self AND loong_PHYS_ADDR_MASK AND NOT L_GLOBAL_IN_HUGE)))
     else unat (push_bit 12 (drop_bit 12 (self AND loong_PHYS_ADDR_MASK))))"

definition loong_prop :: "loong_pte \<Rightarrow> PageProperty option" where
  "loong_prop self = (
     let fl = parse_flags (NOT self) L_NOT_READABLE (ucast PF_R)
           OR parse_flags self L_WRITABLE (ucast PF_W)
           OR parse_flags (NOT self) L_NOT_EXECUTABLE (ucast PF_X)
           OR parse_flags self L_PRESENT (ucast PF_ACCESSED)
           OR parse_flags self L_DIRTY (ucast PF_DIRTY)
           OR parse_flags self L_RSV1 (ucast PF_AVAIL1)
           OR parse_flags self L_RSV2 (ucast PF_AVAIL2);
         pf0 = (if loong_is_user self then 0 OR PPF_USER else 0);
         pf = (if loong_is_global self then pf0 OR PPF_GLOBAL else pf0);
         c = (if self AND L_MATL \<noteq> 0 then Writeback else if self AND L_MATH \<noteq> 0 then WriteCombining else Writeback)
     in do {
       f \<leftarrow> from_bits page_flags_all (ucast fl);
       p \<leftarrow> from_bits (priv_flags_all False) pf;
       Some \<lparr>flags = f, cache = c, priv_flags = p\<rparr>
     })"

definition loong_prop_flags :: "loong_pte \<Rightarrow> PageProperty \<Rightarrow> loong_pte" where
  "loong_prop_flags self prop = (
     let fl0 = L_VALID OR L_DIRTY
           OR parse_flags (ucast (NOT (flags prop))) (ucast PF_R) L_NOT_READABLE
           OR parse_flags (ucast (flags prop)) (ucast PF_W) L_WRITABLE
           OR parse_flags (ucast (NOT (flags prop))) (ucast PF_X) L_NOT_EXECUTABLE
           OR parse_flags (ucast (flags prop)) (ucast PF_DIRTY) L_DIRTY
           OR parse_flags (ucast (flags prop)) (ucast PF_ACCESSED) L_PRESENT
           OR parse_flags (ucast (flags prop)) (ucast PF_AVAIL1) L_RSV1
           OR parse_flags (ucast (flags prop)) (ucast PF_AVAIL2) L_RSV2;
         fl1 = (if priv_flags prop AND PPF_USER = PPF_USER then fl0 OR L_PLVL OR L_PLVH else fl0)
     in if priv_flags prop AND PPF_GLOBAL = PPF_GLOBAL
        then (if loong_is_huge self then fl1 OR L_GLOBAL_IN_HUGE else fl1 OR L_GLOBAL_OR_HUGE)
        else fl1)"

definition loong_set_prop :: "loong_pte \<Rightarrow> PageProperty \<Rightarrow> loong_pte option" where
  "loong_set_prop self prop = (
     if \<not> loong_is_present self then Some self
     else do {
       fl \<leftarrow> (case cache prop of
                Writeback \<Rightarrow> Some (loong_prop_flags self prop OR L_MATL)
              | Uncacheable \<Rightarrow> Some (loong_prop_flags self prop)
              | WriteCombining \<Rightarrow> Some (loong_prop_flags self prop OR L_MATH)
              | _ \<Rightarrow> None);
       Some ((self AND (loong_PHYS_ADDR_MASK OR L_IS_BASIC)) OR fl)
     })"

definition loong_new_page :: "Paddr \<Rightarrow> nat \<Rightarrow> PageProperty \<Rightarrow> loong_pte option" where
  "loong_new_page paddr level prop = (
     let fl = (if level = 1 then L_IS_BASIC else L_GLOBAL_OR_HUGE) in do {
       pte \<leftarrow> loong_set_prop ((of_nat paddr AND loong_PHYS_ADDR_MASK) OR L_VALID OR fl) prop;
       Some (pte OR fl) })"

definition loong_is_last :: "loong_pte \<Rightarrow> nat \<Rightarrow> bool" where
  "loong_is_last self level \<longleftrightarrow> level = 1 \<or> loong_is_huge self"

definition loong_pte_ops :: "loong_pte pte_ops" where
  "loong_pte_ops = \<lparr>new_absent = loong_new_absent, is_present = loong_is_present, new_page = loong_new_page,
     new_pt = loong_new_pt, pte_paddr = loong_paddr, pte_prop = loong_prop, set_prop = loong_set_prop, is_last = loong_is_last\<rparr>"

text \<open>On LoongArch devices are reached through a second linear mapping.\<close>

definition paddr_to_daddr :: "Paddr \<Rightarrow> usize option" where
  "paddr_to_daddr pa = uadd pa 0x8000000000000000"

section \<open>The common contract\<close>

locale pte_codec =
  fixes E :: "'e pte_ops"
    and valid_paddr :: "Paddr \<Rightarrow> bool"
    and valid_prop :: "PageProperty \<Rightarrow> bool"
    and valid_level :: "nat \<Rightarrow> bool"
    and leaf :: "'e \<Rightarrow> bool"
  assumes absent_law: "\<not> is_present E (new_absent E)"
    and pt_law: "valid_paddr p \<Longrightarrow> is_present E (new_pt E p) \<and> pte_paddr E (new_pt E p) = p \<and>
        (1 < l \<longrightarrow> \<not> is_last E (new_pt E p) l)"
    and page_law: "valid_paddr p \<Longrightarrow> valid_prop q \<Longrightarrow> valid_level l \<Longrightarrow>
        \<exists>e. new_page E p l q = Some e \<and> is_present E e \<and> leaf e \<and> pte_paddr E e = p \<and> is_last E e l \<and> pte_prop E e = Some q"
    and set_prop_law: "is_present E e \<Longrightarrow> leaf e \<Longrightarrow> valid_prop q \<Longrightarrow>
        \<exists>e'. set_prop E e q = Some e' \<and> is_present E e' \<and> leaf e' \<and> pte_paddr E e' = pte_paddr E e \<and>
          (\<forall>l. is_last E e l \<longrightarrow> is_last E e' l) \<and> pte_prop E e' = Some q"
    and set_absent_law: "\<not> is_present E e \<Longrightarrow> set_prop E e q = Some e"

text \<open>A sequence of property updates of one entry.\<close>

fun set_props :: "'e pte_ops \<Rightarrow> PageProperty list \<Rightarrow> 'e \<Rightarrow> 'e option" where
  "set_props E [] e = Some e"
| "set_props E (q # qs) e = do { e' \<leftarrow> set_prop E e q; set_props E qs e' }"

context pte_codec
begin

lemma set_props_keep:
  "is_present E e \<Longrightarrow> leaf e \<Longrightarrow> is_last E e l \<Longrightarrow> \<forall>q \<in> set qs. valid_prop q \<Longrightarrow> pte_prop E e = Some q0 \<Longrightarrow>
     \<exists>e'. set_props E qs e = Some e' \<and> is_present E e' \<and> pte_paddr E e' = pte_paddr E e \<and> is_last E e' l \<and>
       pte_prop E e' = Some (last (q0 # qs))"
proof (induction qs arbitrary: e q0)
  case (Cons q qs)
  obtain e' where e': "set_prop E e q = Some e'" "is_present E e'" "leaf e'" "pte_paddr E e' = pte_paddr E e" "is_last E e' l"
    "pte_prop E e' = Some q"
    using set_prop_law [OF Cons.prems(1,2), of q] Cons.prems(3,4) by auto
  then show ?case using Cons.IH [OF e'(2,3,5) _ e'(6)] Cons.prems(4) by simp
qed simp

text \<open>An entry that was created for a page keeps its page, and always has the property that was written last.\<close>

lemma page_life:
  assumes "valid_paddr p" "valid_prop q0" "valid_level l" "\<forall>q \<in> set qs. valid_prop q"
  shows "\<exists>e e'. new_page E p l q0 = Some e \<and> set_props E qs e = Some e' \<and> is_present E e' \<and> pte_paddr E e' = p \<and>
    is_last E e' l \<and> pte_prop E e' = Some (last (q0 # qs))"
proof -
  obtain e where e: "new_page E p l q0 = Some e" "is_present E e" "leaf e" "pte_paddr E e = p" "is_last E e l" "pte_prop E e = Some q0"
    using page_law [OF assms(1-3)] by blast
  then show ?thesis using set_props_keep [OF e(2,3,5) assms(4) e(6)] by auto
qed

end

interpretation x86_codec: pte_codec "x86_pte_ops False" x86_valid_paddr "x86_valid_prop False" "\<lambda>l. True" "\<lambda>e. x86_is_last e 1"
proof (unfold_locales, goal_cases)
  case (2 p l)
  then show ?case by (rule x86_pte.pt_law)
next
  case (3 p q l)
  then show ?case using x86_pte.page_law [of p q l] by (auto simp: x86_pte_ops_def x86_is_last_def)
next
  case (4 e q)
  then show ?case using x86_set_prop_ok [of e q] by (fastforce simp: x86_pte_ops_def)
next
  case (5 e q)
  then show ?case by (simp add: x86_pte_ops_def x86_set_prop_def)
qed (rule x86_pte.absent_law)

section \<open>Bits of the RISC-V entry\<close>

lemma riscv_flag_exp:
  "R_VALID = 2 ^ 0" "R_READABLE = 2 ^ 1" "R_WRITABLE = 2 ^ 2" "R_EXECUTABLE = 2 ^ 3" "R_USER = 2 ^ 4" "R_GLOBAL = 2 ^ 5"
  "R_ACCESSED = 2 ^ 6" "R_DIRTY = 2 ^ 7" "R_RSV1 = 2 ^ 8" "R_RSV2 = 2 ^ 9" "R_PBMT_IO = 2 ^ 62"
  by (simp_all add: riscv_flag_def push_bit_eq_mult)

lemma flag_bit: "bit (2 ^ k :: 64 word) n \<longleftrightarrow> k < 64 \<and> n = k"
  by (auto simp: bit_exp_iff)

lemma riscv_flag_bit:
  "bit R_VALID n \<longleftrightarrow> n = 0" "bit R_READABLE n \<longleftrightarrow> n = 1" "bit R_WRITABLE n \<longleftrightarrow> n = 2" "bit R_EXECUTABLE n \<longleftrightarrow> n = 3"
  "bit R_PBMT_IO n \<longleftrightarrow> n = 62"
  unfolding riscv_flag_exp flag_bit by simp_all

lemma riscv_mask_bit: "bit riscv_PHYS_ADDR_MASK n \<longleftrightarrow> 10 \<le> n \<and> n < 54"
proof -
  have "riscv_PHYS_ADDR_MASK = push_bit 10 (mask 44)"
    by (simp add: riscv_PHYS_ADDR_MASK_def mask_eq_exp_minus_1 push_bit_eq_mult)
  then show ?thesis unfolding \<open>riscv_PHYS_ADDR_MASK = push_bit 10 (mask 44)\<close> by (auto simp: bit_push_bit_iff bit_mask_iff)
qed

lemma riscv_prop_flags_bit:
  "bit (riscv_prop_flags p) n \<longleftrightarrow> n = 0 \<or> n = 1 \<and> bit (flags p) 0 \<or> n = 2 \<and> bit (flags p) 1 \<or> n = 3 \<and> bit (flags p) 2 \<or>
     n = 4 \<and> bit (priv_flags p) 0 \<or> n = 5 \<and> bit (priv_flags p) 1 \<or> n = 8 \<and> bit (flags p) 6 \<or> n = 9 \<and> bit (flags p) 7"
  unfolding riscv_prop_flags_def riscv_flag_exp page_flag_exp bit_or_iff
  by (simp only: parse_flags_bit flag_bit bit_unsigned_iff) (auto dest: bit_imp_le_length)

lemma riscv_set_prop_bits:
  assumes "riscv_is_present e" "cache p = Writeback \<or> cache p = Uncacheable"
  shows "\<exists>e'. riscv_set_prop e p = Some e' \<and>
    (\<forall>n. bit e' n \<longleftrightarrow> 10 \<le> n \<and> n < 54 \<and> bit e n \<or> bit (riscv_prop_flags p) n \<or> n = 62 \<and> cache p = Uncacheable)"
  using assms by (auto simp: riscv_set_prop_def bit_or_iff bit_and_iff riscv_mask_bit riscv_flag_bit)

lemma riscv_parse:
  "bit (parse_flags v R_READABLE (ucast PF_R)) n \<longleftrightarrow> n = 0 \<and> bit v 1"
  "bit (parse_flags v R_WRITABLE (ucast PF_W)) n \<longleftrightarrow> n = 1 \<and> bit v 2"
  "bit (parse_flags v R_EXECUTABLE (ucast PF_X)) n \<longleftrightarrow> n = 2 \<and> bit v 3"
  "bit (parse_flags v R_ACCESSED (ucast PF_ACCESSED)) n \<longleftrightarrow> n = 3 \<and> bit v 6"
  "bit (parse_flags v R_DIRTY (ucast PF_DIRTY)) n \<longleftrightarrow> n = 4 \<and> bit v 7"
  "bit (parse_flags v R_RSV1 (ucast PF_AVAIL1)) n \<longleftrightarrow> n = 6 \<and> bit v 8"
  "bit (parse_flags v R_RSV2 (ucast PF_AVAIL2)) n \<longleftrightarrow> n = 7 \<and> bit v 9"
  "bit (parse_flags v R_USER (ucast PPF_USER)) n \<longleftrightarrow> n = 0 \<and> bit v 4"
  "bit (parse_flags v R_GLOBAL (ucast PPF_GLOBAL)) n \<longleftrightarrow> n = 1 \<and> bit v 5"
  unfolding riscv_flag_exp page_flag_exp by (rule parse_flags_bit; simp)+

lemma riscv_prop_bits:
  "\<exists>q. riscv_prop e = Some q \<and>
     (\<forall>n. bit (flags q) n \<longleftrightarrow> n = 0 \<and> bit e 1 \<or> n = 1 \<and> bit e 2 \<or> n = 2 \<and> bit e 3 \<or>
        n = 3 \<and> bit e 6 \<or> n = 4 \<and> bit e 7 \<or> n = 6 \<and> bit e 8 \<or> n = 7 \<and> bit e 9) \<and>
     (\<forall>n. bit (priv_flags q) n \<longleftrightarrow> n = 0 \<and> bit e 4 \<or> n = 1 \<and> bit e 5) \<and>
     cache q = (if bit e 62 then Uncacheable else Writeback)"
proof -
  let ?fl = "ucast (parse_flags e R_READABLE (ucast PF_R)
           OR parse_flags e R_WRITABLE (ucast PF_W)
           OR parse_flags e R_EXECUTABLE (ucast PF_X)
           OR parse_flags e R_ACCESSED (ucast PF_ACCESSED)
           OR parse_flags e R_DIRTY (ucast PF_DIRTY)
           OR parse_flags e R_RSV1 (ucast PF_AVAIL1)
           OR parse_flags e R_RSV2 (ucast PF_AVAIL2)) :: 8 word"
  let ?pf = "ucast (parse_flags e R_USER (ucast PPF_USER) OR parse_flags e R_GLOBAL (ucast PPF_GLOBAL)) :: 8 word"
  have f: "bit ?fl n \<longleftrightarrow> n = 0 \<and> bit e 1 \<or> n = 1 \<and> bit e 2 \<or> n = 2 \<and> bit e 3 \<or>
        n = 3 \<and> bit e 6 \<or> n = 4 \<and> bit e 7 \<or> n = 6 \<and> bit e 8 \<or> n = 7 \<and> bit e 9" for n
    unfolding bit_unsigned_iff bit_or_iff riscv_parse by auto
  have p: "bit ?pf n \<longleftrightarrow> n = 0 \<and> bit e 4 \<or> n = 1 \<and> bit e 5" for n
    unfolding bit_unsigned_iff bit_or_iff riscv_parse by auto
  have "from_bits page_flags_all ?fl = Some ?fl"
    by (rule from_bits_bit) (auto simp only: f page_flags_all_bit; simp)
  moreover have "from_bits (priv_flags_all False) ?pf = Some ?pf"
    by (rule from_bits_bit) (auto simp only: p priv_flags_all_bit)
  ultimately have "riscv_prop e = Some \<lparr>flags = ?fl, cache = if bit e 62 then Uncacheable else Writeback, priv_flags = ?pf\<rparr>"
    unfolding riscv_prop_def Let_def riscv_flag_exp(11) word_and_exp by simp
  then show ?thesis using f p by auto
qed

section \<open>The RISC-V entry meets the contract\<close>

text \<open>The address of an entry has 44 bits of page number; a leaf has a permission, and its accessed and dirty flags are left to the
  hardware.\<close>

definition riscv_valid_paddr :: "Paddr \<Rightarrow> bool" where
  "riscv_valid_paddr p \<longleftrightarrow> PAGE_SIZE dvd p \<and> p < 2 ^ 56"

definition riscv_valid_prop :: "PageProperty \<Rightarrow> bool" where
  "riscv_valid_prop p \<longleftrightarrow> prop_inv False p \<and> (cache p = Writeback \<or> cache p = Uncacheable) \<and>
     flags p AND (PF_R OR PF_W OR PF_X) \<noteq> 0 \<and> flags p AND (PF_ACCESSED OR PF_DIRTY) = 0"

lemma small_nat_bits:
  assumes "PAGE_SIZE dvd p" "p < 2 ^ k" "k \<le> 64"
  shows "bit (of_nat p :: 64 word) n \<longleftrightarrow> bit p n" "bit p n \<Longrightarrow> 12 \<le> n \<and> n < k"
proof -
  have "\<not> bit p m" if "k \<le> m" for m
  proof -
    have "(2 :: nat) ^ k \<le> 2 ^ m" using that by (intro power_increasing) simp_all
    then have "p < 2 ^ m" using assms(2) by linarith
    then show ?thesis by (simp add: bit_iff_odd)
  qed
  then have k: "bit p m \<Longrightarrow> m < k" for m by (meson not_le)
  show "bit (of_nat p :: 64 word) n \<longleftrightarrow> bit p n"
    using k [of n] assms(3) by (auto simp: bit_of_nat_iff)
  obtain m where "p = 2 ^ 12 * m" using assms(1) by (auto simp: PAGE_SIZE_def)
  then have "p = push_bit 12 m" by (simp add: push_bit_eq_mult)
  then show "bit p n \<Longrightarrow> 12 \<le> n \<and> n < k" using k [of n] by (auto simp: bit_push_bit_iff)
qed

lemma unat_of_bits:
  assumes "PAGE_SIZE dvd p" "p < 2 ^ k" "k \<le> 64" "\<And>n. n < 64 \<Longrightarrow> bit (w :: 64 word) n \<longleftrightarrow> bit p n"
  shows "unat w = p"
proof -
  have "w = of_nat p" by (rule bit_word_eqI) (simp add: assms(4) small_nat_bits(1) [OF assms(1-3)])
  moreover have "p < 2 ^ 64"
    using assms(2,3) by (meson less_le_trans power_increasing one_le_numeral)
  ultimately show ?thesis by (simp add: unat_of_nat)
qed

lemma riscv_paddr_of:
  assumes "riscv_valid_paddr p" "\<And>n. 10 \<le> n \<Longrightarrow> n < 54 \<Longrightarrow> bit e n \<longleftrightarrow> bit p (n + 2)"
  shows "riscv_paddr e = p"
  unfolding riscv_paddr_def Let_def
proof (rule unat_of_bits [where k = 56])
  fix n :: nat assume n: "n < 64"
  note b = small_nat_bits(2) [of p 56 n]
  have "bit (push_bit 12 (drop_bit 10 (e AND riscv_PHYS_ADDR_MASK))) n \<longleftrightarrow> 12 \<le> n \<and> n < 56 \<and> bit e (n - 2)"
    using n by (auto simp: bit_push_bit_iff bit_drop_bit_eq bit_and_iff riscv_mask_bit)
  moreover have "bit e (n - 2) \<longleftrightarrow> bit p n" if "12 \<le> n" "n < 56"
  proof -
    have "10 \<le> n - 2" "n - 2 < 54" "n - 2 + 2 = n" using that by linarith+
    then show ?thesis using assms(2) [of "n - 2"] by (simp only:)
  qed
  moreover have "bit p n \<Longrightarrow> 12 \<le> n \<and> n < 56" using b assms(1) by (simp add: riscv_valid_paddr_def)
  ultimately show "bit (push_bit 12 (drop_bit 10 (e AND riscv_PHYS_ADDR_MASK))) n \<longleftrightarrow> bit p n" by blast
qed (use assms(1) in \<open>simp_all add: riscv_valid_paddr_def\<close>)

lemma riscv_new_paddr_bit:
  "riscv_valid_paddr p \<Longrightarrow> bit (riscv_new_paddr p) n \<longleftrightarrow> 10 \<le> n \<and> n < 54 \<and> bit p (n + 2)"
  using small_nat_bits [of p 56 "n + 2"]
  by (auto simp: riscv_new_paddr_def Let_def bit_push_bit_iff bit_drop_bit_eq riscv_valid_paddr_def add.commute dest: bit_imp_le_length)

lemma word_nonzero_bit: "w \<noteq> 0 \<longleftrightarrow> (\<exists>n. bit (w :: 'w::len word) n)"
  using bit_eq_iff [of w 0] by auto

lemma riscv_is_present_bit: "riscv_is_present e \<longleftrightarrow> bit e 0"
  unfolding riscv_is_present_def riscv_flag_exp(1) word_and_exp ..

lemma riscv_is_last_bit: "riscv_is_last e l \<longleftrightarrow> l = 1 \<or> bit e 1 \<or> bit e 2 \<or> bit e 3"
proof -
  have "e AND (R_READABLE OR R_WRITABLE OR R_EXECUTABLE) \<noteq> 0 \<longleftrightarrow> bit e 1 \<or> bit e 2 \<or> bit e 3"
    unfolding word_nonzero_bit bit_and_iff bit_or_iff riscv_flag_bit by blast
  then show ?thesis by (simp add: riscv_is_last_def)
qed

lemma riscv_valid_prop_bits:
  assumes "riscv_valid_prop p"
  shows "bit (flags p) 0 \<or> bit (flags p) 1 \<or> bit (flags p) 2" "\<not> bit (flags p) 3" "\<not> bit (flags p) 4" "\<not> bit (flags p) 5"
    "\<forall>n. bit (priv_flags p) n \<longrightarrow> n = 0 \<or> n = 1" "cache p = Writeback \<or> cache p = Uncacheable"
proof -
  have e: "PF_R = 2 ^ 0" "PF_W = 2 ^ 1" "PF_X = 2 ^ 2" "PF_ACCESSED = 2 ^ 3" "PF_DIRTY = 2 ^ 4"
    by (simp_all add: page_flag_defs)
  have fb: "bit (2 ^ k :: 8 word) n \<longleftrightarrow> k < 8 \<and> n = k" for k n by (auto simp: bit_exp_iff)
  have a: "flags p AND (PF_R OR PF_W OR PF_X) \<noteq> 0" "flags p AND (PF_ACCESSED OR PF_DIRTY) = 0"
    and inv: "prop_inv False p" and c: "cache p = Writeback \<or> cache p = Uncacheable"
    using assms by (simp_all add: riscv_valid_prop_def)
  obtain m where "bit (flags p AND (PF_R OR PF_W OR PF_X)) m" using a(1) word_nonzero_bit by blast
  then show "bit (flags p) 0 \<or> bit (flags p) 1 \<or> bit (flags p) 2" unfolding e bit_and_iff bit_or_iff fb by auto
  have z: "\<not> bit (flags p AND (PF_ACCESSED OR PF_DIRTY)) m" for m by (simp only: a(2) bit_0_eq) simp
  show "\<not> bit (flags p) 3" "\<not> bit (flags p) 4"
    using z [of 3] z [of 4] unfolding e bit_and_iff bit_or_iff fb by simp_all
  show "\<not> bit (flags p) 5" "\<forall>n. bit (priv_flags p) n \<longrightarrow> n = 0 \<or> n = 1" using inv by (auto simp: prop_inv_bits)
  show "cache p = Writeback \<or> cache p = Uncacheable" by (rule c)
qed

lemma riscv_set_prop_ok:
  assumes "riscv_is_present e" "riscv_valid_prop p"
  shows "\<exists>e'. riscv_set_prop e p = Some e' \<and> riscv_prop e' = Some p \<and> riscv_is_present e' \<and> riscv_paddr e' = riscv_paddr e \<and>
    (\<forall>l. riscv_is_last e' l)"
proof -
  note v = riscv_valid_prop_bits [OF assms(2)]
  obtain e' where e': "riscv_set_prop e p = Some e'"
    "\<forall>n. bit e' n \<longleftrightarrow> 10 \<le> n \<and> n < 54 \<and> bit e n \<or> bit (riscv_prop_flags p) n \<or> n = 62 \<and> cache p = Uncacheable"
    using riscv_set_prop_bits [OF assms(1) v(6)] by blast
  note b = e'(2) [rule_format, unfolded riscv_prop_flags_bit]
  obtain q where q: "riscv_prop e' = Some q"
     "\<forall>n. bit (flags q) n \<longleftrightarrow> n = 0 \<and> bit e' 1 \<or> n = 1 \<and> bit e' 2 \<or> n = 2 \<and> bit e' 3 \<or>
        n = 3 \<and> bit e' 6 \<or> n = 4 \<and> bit e' 7 \<or> n = 6 \<and> bit e' 8 \<or> n = 7 \<and> bit e' 9"
     "\<forall>n. bit (priv_flags q) n \<longleftrightarrow> n = 0 \<and> bit e' 4 \<or> n = 1 \<and> bit e' 5"
     "cache q = (if bit e' 62 then Uncacheable else Writeback)"
    using riscv_prop_bits [of e'] by blast
  have "flags q = flags p"
    by (rule word8_eqI, drule less_8_cases) (elim disjE; simp add: q(2) b v)
  moreover have "priv_flags q = priv_flags p"
    by (rule word8_eqI, drule less_8_cases) (elim disjE; use v(5) in \<open>simp add: q(3) b\<close>; auto)
  moreover have "cache q = cache p" using v(6) by (auto simp: q(4) b)
  ultimately have "q = p" by simp
  moreover have "e' AND riscv_PHYS_ADDR_MASK = e AND riscv_PHYS_ADDR_MASK"
    by (rule bit_word_eqI) (auto simp: bit_and_iff riscv_mask_bit b)
  then have "riscv_paddr e' = riscv_paddr e" unfolding riscv_paddr_def by (simp only:)
  ultimately show ?thesis using e'(1) q(1) v(1) by (auto simp: riscv_is_last_bit riscv_is_present_bit b)
qed

lemma riscv_base:
  assumes "riscv_valid_paddr p"
  shows "riscv_is_present (riscv_new_paddr p OR R_VALID)" "riscv_paddr (riscv_new_paddr p OR R_VALID) = p"
    "riscv_is_last (riscv_new_paddr p OR R_VALID) l \<longleftrightarrow> l = 1"
proof -
  have b: "bit (riscv_new_paddr p OR R_VALID) n \<longleftrightarrow> 10 \<le> n \<and> n < 54 \<and> bit p (n + 2) \<or> n = 0" for n
    by (auto simp: bit_or_iff riscv_new_paddr_bit [OF assms] riscv_flag_bit)
  show "riscv_is_present (riscv_new_paddr p OR R_VALID)" "riscv_is_last (riscv_new_paddr p OR R_VALID) l \<longleftrightarrow> l = 1"
    by (simp_all add: riscv_is_present_bit riscv_is_last_bit b)
  show "riscv_paddr (riscv_new_paddr p OR R_VALID) = p" by (rule riscv_paddr_of [OF assms]) (simp add: b)
qed

interpretation riscv_codec: pte_codec riscv_pte_ops riscv_valid_paddr riscv_valid_prop "\<lambda>l. True" "\<lambda>e. True"
proof (unfold_locales, goal_cases)
  case 1
  then show ?case by (simp add: riscv_pte_ops_def riscv_new_absent_def riscv_is_present_bit)
next
  case (2 p l)
  then show ?case using riscv_base [of p] by (simp add: riscv_pte_ops_def riscv_new_pt_def)
next
  case (3 p q l)
  then show ?case using riscv_base [of p] riscv_set_prop_ok [of "riscv_new_paddr p OR R_VALID" q]
    by (fastforce simp: riscv_pte_ops_def riscv_new_page_def)
next
  case (4 e q)
  then show ?case using riscv_set_prop_ok [of e q] by (fastforce simp: riscv_pte_ops_def)
next
  case (5 e q)
  then show ?case by (simp add: riscv_pte_ops_def riscv_set_prop_def)
qed

section \<open>Bits of the LoongArch entry\<close>

lemma loong_flag_exp:
  "L_VALID = 2 ^ 0" "L_DIRTY = 2 ^ 1" "L_PLVL = 2 ^ 2" "L_PLVH = 2 ^ 3" "L_MATL = 2 ^ 4" "L_MATH = 2 ^ 5"
  "L_GLOBAL_OR_HUGE = 2 ^ 6" "L_PRESENT = 2 ^ 7" "L_WRITABLE = 2 ^ 8" "L_IS_BASIC = 2 ^ 9" "L_RSV1 = 2 ^ 10" "L_RSV2 = 2 ^ 11"
  "L_GLOBAL_IN_HUGE = 2 ^ 12" "L_NOT_READABLE = 2 ^ 61" "L_NOT_EXECUTABLE = 2 ^ 62"
  by (simp_all add: loong_flag_def push_bit_eq_mult)

lemma loong_flag_bit:
  "bit L_VALID n \<longleftrightarrow> n = 0" "bit L_DIRTY n \<longleftrightarrow> n = 1" "bit L_PLVL n \<longleftrightarrow> n = 2" "bit L_PLVH n \<longleftrightarrow> n = 3" "bit L_MATL n \<longleftrightarrow> n = 4"
  "bit L_MATH n \<longleftrightarrow> n = 5" "bit L_GLOBAL_OR_HUGE n \<longleftrightarrow> n = 6" "bit L_IS_BASIC n \<longleftrightarrow> n = 9" "bit L_GLOBAL_IN_HUGE n \<longleftrightarrow> n = 12"
  unfolding loong_flag_exp flag_bit by simp_all

lemma loong_mask_bit: "bit loong_PHYS_ADDR_MASK n \<longleftrightarrow> 12 \<le> n \<and> n < 48"
proof -
  have "loong_PHYS_ADDR_MASK = push_bit 12 (mask 36)"
    by (simp add: loong_PHYS_ADDR_MASK_def mask_eq_exp_minus_1 push_bit_eq_mult)
  then show ?thesis unfolding \<open>loong_PHYS_ADDR_MASK = push_bit 12 (mask 36)\<close> by (auto simp: bit_push_bit_iff bit_mask_iff)
qed

lemma loong_kind_bits:
  "loong_is_present e \<longleftrightarrow> bit e 0" "loong_is_huge e \<longleftrightarrow> \<not> bit e 9 \<and> bit e 6"
  "loong_is_global e \<longleftrightarrow> (if bit e 9 then bit e 6 else bit e 12)" "loong_is_user e \<longleftrightarrow> bit e 2 \<and> bit e 3"
  unfolding loong_is_present_def loong_is_huge_def loong_is_global_def loong_is_user_def loong_flag_exp word_and_exp by simp_all

lemma priv_contains:
  "priv_flags p AND PPF_USER = PPF_USER \<longleftrightarrow> bit (priv_flags p) 0" "priv_flags p AND PPF_GLOBAL = PPF_GLOBAL \<longleftrightarrow> bit (priv_flags p) 1"
proof -
  have e: "PPF_USER = 2 ^ 0" "PPF_GLOBAL = 2 ^ 1" by (simp_all add: page_flag_defs)
  have m: "a AND 2 ^ k = (2 ^ k :: 8 word) \<longleftrightarrow> bit a k" if "k < 8" for a k
  proof
    assume "a AND 2 ^ k = (2 ^ k :: 8 word)"
    then have "bit (a AND 2 ^ k) k" using that by (simp add: bit_exp_iff)
    then show "bit a k" by (simp add: bit_and_iff)
  next
    assume "bit a k"
    then show "a AND 2 ^ k = (2 ^ k :: 8 word)" by (intro bit_word_eqI) (auto simp: bit_and_iff bit_exp_iff)
  qed
  show "priv_flags p AND PPF_USER = PPF_USER \<longleftrightarrow> bit (priv_flags p) 0" "priv_flags p AND PPF_GLOBAL = PPF_GLOBAL \<longleftrightarrow> bit (priv_flags p) 1"
    unfolding e by (rule m; simp)+
qed

lemma loong_parse_to:
  "bit (parse_flags v (ucast PF_R) L_NOT_READABLE) n \<longleftrightarrow> n = 61 \<and> bit v 0"
  "bit (parse_flags v (ucast PF_W) L_WRITABLE) n \<longleftrightarrow> n = 8 \<and> bit v 1"
  "bit (parse_flags v (ucast PF_X) L_NOT_EXECUTABLE) n \<longleftrightarrow> n = 62 \<and> bit v 2"
  "bit (parse_flags v (ucast PF_DIRTY) L_DIRTY) n \<longleftrightarrow> n = 1 \<and> bit v 4"
  "bit (parse_flags v (ucast PF_ACCESSED) L_PRESENT) n \<longleftrightarrow> n = 7 \<and> bit v 3"
  "bit (parse_flags v (ucast PF_AVAIL1) L_RSV1) n \<longleftrightarrow> n = 10 \<and> bit v 6"
  "bit (parse_flags v (ucast PF_AVAIL2) L_RSV2) n \<longleftrightarrow> n = 11 \<and> bit v 7"
  unfolding loong_flag_exp page_flag_exp by (rule parse_flags_bit; simp)+

lemma loong_parse_from:
  "bit (parse_flags v L_NOT_READABLE (ucast PF_R)) n \<longleftrightarrow> n = 0 \<and> bit v 61"
  "bit (parse_flags v L_WRITABLE (ucast PF_W)) n \<longleftrightarrow> n = 1 \<and> bit v 8"
  "bit (parse_flags v L_NOT_EXECUTABLE (ucast PF_X)) n \<longleftrightarrow> n = 2 \<and> bit v 62"
  "bit (parse_flags v L_PRESENT (ucast PF_ACCESSED)) n \<longleftrightarrow> n = 3 \<and> bit v 7"
  "bit (parse_flags v L_DIRTY (ucast PF_DIRTY)) n \<longleftrightarrow> n = 4 \<and> bit v 1"
  "bit (parse_flags v L_RSV1 (ucast PF_AVAIL1)) n \<longleftrightarrow> n = 6 \<and> bit v 10"
  "bit (parse_flags v L_RSV2 (ucast PF_AVAIL2)) n \<longleftrightarrow> n = 7 \<and> bit v 11"
  unfolding loong_flag_exp page_flag_exp by (rule parse_flags_bit; simp)+

lemma loong_prop_flags_bit:
  "bit (loong_prop_flags e p) n \<longleftrightarrow> n = 0 \<or> n = 1 \<or> n = 61 \<and> \<not> bit (flags p) 0 \<or> n = 8 \<and> bit (flags p) 1 \<or>
     n = 62 \<and> \<not> bit (flags p) 2 \<or> n = 7 \<and> bit (flags p) 3 \<or> n = 10 \<and> bit (flags p) 6 \<or> n = 11 \<and> bit (flags p) 7 \<or>
     (n = 2 \<or> n = 3) \<and> bit (priv_flags p) 0 \<or> n = (if loong_is_huge e then 12 else 6) \<and> bit (priv_flags p) 1"
proof -
  have u: "bit (ucast (NOT (flags p)) :: 64 word) k \<longleftrightarrow> \<not> bit (flags p) k" if "k < 8" for k
    using that by (simp add: bit_unsigned_iff bit_not_iff_eq)
  have v: "bit (ucast (flags p) :: 64 word) k \<longleftrightarrow> bit (flags p) k" if "k < 8" for k
    using that by (simp add: bit_unsigned_iff)
  let ?f0 = "L_VALID OR L_DIRTY
           OR parse_flags (ucast (NOT (flags p))) (ucast PF_R) L_NOT_READABLE
           OR parse_flags (ucast (flags p)) (ucast PF_W) L_WRITABLE
           OR parse_flags (ucast (NOT (flags p))) (ucast PF_X) L_NOT_EXECUTABLE
           OR parse_flags (ucast (flags p)) (ucast PF_DIRTY) L_DIRTY
           OR parse_flags (ucast (flags p)) (ucast PF_ACCESSED) L_PRESENT
           OR parse_flags (ucast (flags p)) (ucast PF_AVAIL1) L_RSV1
           OR parse_flags (ucast (flags p)) (ucast PF_AVAIL2) L_RSV2"
  have f0: "bit ?f0 n \<longleftrightarrow> n = 0 \<or> n = 1 \<or> n = 61 \<and> \<not> bit (flags p) 0 \<or> n = 8 \<and> bit (flags p) 1 \<or>
     n = 62 \<and> \<not> bit (flags p) 2 \<or> n = 7 \<and> bit (flags p) 3 \<or> n = 10 \<and> bit (flags p) 6 \<or> n = 11 \<and> bit (flags p) 7"
    unfolding bit_or_iff loong_parse_to loong_flag_bit by (auto simp: u v)
  show ?thesis unfolding loong_prop_flags_def Let_def priv_contains
    using f0 by (auto simp: bit_or_iff loong_flag_bit split: if_splits)
qed

lemma loong_set_prop_bits:
  assumes "loong_is_present e" "cache p = Writeback \<or> cache p = Uncacheable \<or> cache p = WriteCombining"
  shows "\<exists>e'. loong_set_prop e p = Some e' \<and>
    (\<forall>n. bit e' n \<longleftrightarrow> (12 \<le> n \<and> n < 48 \<or> n = 9) \<and> bit e n \<or> bit (loong_prop_flags e p) n \<or>
      n = 4 \<and> cache p = Writeback \<or> n = 5 \<and> cache p = WriteCombining)"
  using assms by (auto simp: loong_set_prop_def bit_or_iff bit_and_iff loong_mask_bit loong_flag_bit)

lemma loong_prop_bits:
  "\<exists>q. loong_prop e = Some q \<and>
     (\<forall>n. bit (flags q) n \<longleftrightarrow> n = 0 \<and> \<not> bit e 61 \<or> n = 1 \<and> bit e 8 \<or> n = 2 \<and> \<not> bit e 62 \<or>
        n = 3 \<and> bit e 7 \<or> n = 4 \<and> bit e 1 \<or> n = 6 \<and> bit e 10 \<or> n = 7 \<and> bit e 11) \<and>
     (\<forall>n. bit (priv_flags q) n \<longleftrightarrow> n = 0 \<and> loong_is_user e \<or> n = 1 \<and> loong_is_global e) \<and>
     cache q = (if bit e 5 \<and> \<not> bit e 4 then WriteCombining else Writeback)"
proof -
  let ?fl = "ucast (parse_flags (NOT e) L_NOT_READABLE (ucast PF_R)
           OR parse_flags e L_WRITABLE (ucast PF_W)
           OR parse_flags (NOT e) L_NOT_EXECUTABLE (ucast PF_X)
           OR parse_flags e L_PRESENT (ucast PF_ACCESSED)
           OR parse_flags e L_DIRTY (ucast PF_DIRTY)
           OR parse_flags e L_RSV1 (ucast PF_AVAIL1)
           OR parse_flags e L_RSV2 (ucast PF_AVAIL2)) :: 8 word"
  let ?pf0 = "if loong_is_user e then 0 OR PPF_USER else 0"
  let ?pf = "if loong_is_global e then ?pf0 OR PPF_GLOBAL else ?pf0"
  have f: "bit ?fl n \<longleftrightarrow> n = 0 \<and> \<not> bit e 61 \<or> n = 1 \<and> bit e 8 \<or> n = 2 \<and> \<not> bit e 62 \<or>
        n = 3 \<and> bit e 7 \<or> n = 4 \<and> bit e 1 \<or> n = 6 \<and> bit e 10 \<or> n = 7 \<and> bit e 11" for n
    unfolding bit_unsigned_iff bit_or_iff loong_parse_from bit_not_iff_eq by auto
  have e: "PPF_USER = 2 ^ 0" "PPF_GLOBAL = 2 ^ 1" by (simp_all add: page_flag_defs)
  have fb: "bit (2 ^ k :: 8 word) n \<longleftrightarrow> k < 8 \<and> n = k" for k n by (auto simp: bit_exp_iff)
  have p: "bit ?pf n \<longleftrightarrow> n = 0 \<and> loong_is_user e \<or> n = 1 \<and> loong_is_global e" for n
  proof -
    have "bit PPF_USER n \<longleftrightarrow> n = 0" "bit PPF_GLOBAL n \<longleftrightarrow> n = 1" unfolding e fb by auto
    then show ?thesis by (auto simp: bit_or_iff)
  qed
  have "from_bits page_flags_all ?fl = Some ?fl"
    by (rule from_bits_bit) (auto simp only: f page_flags_all_bit; simp)
  moreover have "from_bits (priv_flags_all False) ?pf = Some ?pf"
    by (rule from_bits_bit) (auto simp only: p priv_flags_all_bit)
  ultimately have "loong_prop e = Some \<lparr>flags = ?fl, cache = if bit e 5 \<and> \<not> bit e 4 then WriteCombining else Writeback, priv_flags = ?pf\<rparr>"
    unfolding loong_prop_def Let_def loong_flag_exp(5,6) word_and_exp by simp
  then show ?thesis using f p by auto
qed

section \<open>The LoongArch entry meets the contract for basic pages\<close>

definition loong_valid_paddr :: "Paddr \<Rightarrow> bool" where
  "loong_valid_paddr p \<longleftrightarrow> PAGE_SIZE dvd p \<and> p < 2 ^ 48"

definition loong_valid_prop :: "PageProperty \<Rightarrow> bool" where
  "loong_valid_prop p \<longleftrightarrow> prop_inv False p \<and> (cache p = Writeback \<or> cache p = WriteCombining) \<and> bit (flags p) 4"

lemma dirty_bit: "bit PF_DIRTY n \<longleftrightarrow> n = 4"
proof -
  have e: "PF_DIRTY = 2 ^ 4" by (simp add: PF_DIRTY_def)
  show ?thesis unfolding e bit_exp_iff by auto
qed

text \<open>What \<open>set_prop\<close> leaves in a basic page for any property it accepts: \<open>prop\<close> reads it back with \<open>DIRTY\<close> added and
  with \<open>Uncacheable\<close> turned into \<open>Writeback\<close>.\<close>

definition loong_decoded :: "PageProperty \<Rightarrow> PageProperty" where
  "loong_decoded p = p\<lparr>flags := flags p OR PF_DIRTY, cache := (if cache p = WriteCombining then WriteCombining else Writeback)\<rparr>"

lemma loong_set_prop_basic:
  assumes "loong_is_present e" "bit e 9" "prop_inv False p" "cache p = Writeback \<or> cache p = Uncacheable \<or> cache p = WriteCombining"
  shows "\<exists>e'. loong_set_prop e p = Some e' \<and> loong_prop e' = Some (loong_decoded p) \<and> loong_is_present e' \<and> bit e' 9 \<and>
    loong_paddr e' = loong_paddr e \<and> (bit e' 4 \<longleftrightarrow> cache p = Writeback)"
proof -
  obtain e' where e': "loong_set_prop e p = Some e'"
    "\<forall>n. bit e' n \<longleftrightarrow> (12 \<le> n \<and> n < 48 \<or> n = 9) \<and> bit e n \<or> bit (loong_prop_flags e p) n \<or>
      n = 4 \<and> cache p = Writeback \<or> n = 5 \<and> cache p = WriteCombining"
    using loong_set_prop_bits [OF assms(1,4)] by blast
  have nh: "\<not> loong_is_huge e" using assms(2) by (simp add: loong_kind_bits)
  note b = e'(2) [rule_format, unfolded loong_prop_flags_bit if_not_P [OF nh]]
  have k: "loong_is_user e' \<longleftrightarrow> bit (priv_flags p) 0" "loong_is_global e' \<longleftrightarrow> bit (priv_flags p) 1" "\<not> loong_is_huge e'" "loong_is_present e'"
    using assms(2) by (auto simp: loong_kind_bits b)
  obtain q where q: "loong_prop e' = Some q"
     "\<forall>n. bit (flags q) n \<longleftrightarrow> n = 0 \<and> \<not> bit e' 61 \<or> n = 1 \<and> bit e' 8 \<or> n = 2 \<and> \<not> bit e' 62 \<or>
        n = 3 \<and> bit e' 7 \<or> n = 4 \<and> bit e' 1 \<or> n = 6 \<and> bit e' 10 \<or> n = 7 \<and> bit e' 11"
     "\<forall>n. bit (priv_flags q) n \<longleftrightarrow> n = 0 \<and> loong_is_user e' \<or> n = 1 \<and> loong_is_global e'"
     "cache q = (if bit e' 5 \<and> \<not> bit e' 4 then WriteCombining else Writeback)"
    using loong_prop_bits [of e'] by blast
  have inv: "\<not> bit (flags p) 5" "\<forall>n. bit (priv_flags p) n \<longrightarrow> n = 0 \<or> n = 1" using assms(3) by (auto simp: prop_inv_bits)
  have "flags q = flags p OR PF_DIRTY"
    by (rule word8_eqI, drule less_8_cases) (elim disjE; simp add: q(2) b inv bit_or_iff dirty_bit)
  moreover have "priv_flags q = priv_flags p"
    by (rule word8_eqI, drule less_8_cases) (elim disjE; use inv(2) in \<open>simp add: q(3) k\<close>; auto)
  moreover have "cache q = (if cache p = WriteCombining then WriteCombining else Writeback)" by (auto simp: q(4) b)
  ultimately have "q = loong_decoded p" by (simp add: loong_decoded_def)
  moreover have "e' AND loong_PHYS_ADDR_MASK = e AND loong_PHYS_ADDR_MASK"
    by (rule bit_word_eqI) (auto simp: bit_and_iff loong_mask_bit b)
  then have "loong_paddr e' = loong_paddr e" unfolding loong_paddr_def using nh k(3) by (simp only: if_False)
  ultimately show ?thesis using e'(1) q(1) k(4) assms(2) by (auto simp: b)
qed

lemma loong_decoded_valid: "loong_valid_prop p \<Longrightarrow> loong_decoded p = p"
proof -
  assume v: "loong_valid_prop p"
  have "flags p OR PF_DIRTY = flags p"
  proof (rule bit_word_eqI)
    fix n
    show "bit (flags p OR PF_DIRTY) n = bit (flags p) n" using v by (auto simp: bit_or_iff dirty_bit loong_valid_prop_def)
  qed
  then show ?thesis using v by (auto simp: loong_decoded_def loong_valid_prop_def)
qed

lemma loong_paddr_of:
  assumes "loong_valid_paddr p" "\<not> loong_is_huge e" "\<And>n. 12 \<le> n \<Longrightarrow> n < 48 \<Longrightarrow> bit e n \<longleftrightarrow> bit p n"
  shows "loong_paddr e = p"
  unfolding loong_paddr_def if_not_P [OF assms(2)]
proof (rule unat_of_bits [where k = 48])
  fix n :: nat assume n: "n < 64"
  have "bit (push_bit 12 (drop_bit 12 (e AND loong_PHYS_ADDR_MASK))) n \<longleftrightarrow> 12 \<le> n \<and> n < 48 \<and> bit e n"
    using n by (auto simp: bit_push_bit_iff bit_drop_bit_eq bit_and_iff loong_mask_bit)
  then show "bit (push_bit 12 (drop_bit 12 (e AND loong_PHYS_ADDR_MASK))) n \<longleftrightarrow> bit p n"
    using assms(3) [of n] small_nat_bits(2) [of p 48 n] assms(1) by (auto simp: loong_valid_paddr_def)
qed (use assms(1) in \<open>simp_all add: loong_valid_paddr_def\<close>)

lemma loong_base_bit:
  "loong_valid_paddr p \<Longrightarrow> bit ((of_nat p AND loong_PHYS_ADDR_MASK) OR L_VALID) n \<longleftrightarrow> bit p n \<or> n = 0"
  using small_nat_bits [of p 48 n] by (auto simp: bit_or_iff bit_and_iff loong_mask_bit loong_flag_bit loong_valid_paddr_def)

interpretation loong_codec: pte_codec loong_pte_ops loong_valid_paddr loong_valid_prop "\<lambda>l. l = 1" "\<lambda>e. bit e 9"
proof (unfold_locales, goal_cases)
  case 1
  then show ?case by (simp add: loong_pte_ops_def loong_new_absent_def loong_kind_bits)
next
  case (2 p l)
  have b: "bit (loong_new_pt p) n \<longleftrightarrow> bit p n \<or> n = 0" for n using loong_base_bit [OF 2] by (simp add: loong_new_pt_def)
  have "\<not> bit p 6" "\<not> bit p 9" using small_nat_bits(2) [of p 48] 2 by (fastforce simp: loong_valid_paddr_def)+
  then have h: "\<not> loong_is_huge (loong_new_pt p)" "loong_is_present (loong_new_pt p)" by (simp_all add: loong_kind_bits b)
  moreover have "loong_paddr (loong_new_pt p) = p" by (rule loong_paddr_of [OF 2 h(1)]) (simp add: b)
  ultimately show ?case by (simp add: loong_pte_ops_def loong_is_last_def)
next
  case (3 p q l)
  let ?e = "(of_nat p AND loong_PHYS_ADDR_MASK) OR L_VALID OR L_IS_BASIC"
  have b: "bit ?e n \<longleftrightarrow> bit p n \<or> n = 0 \<or> n = 9" for n
    using loong_base_bit [OF 3(1), of n] by (auto simp: bit_or_iff loong_flag_bit)
  have h: "\<not> loong_is_huge ?e" "loong_is_present ?e" "bit ?e 9" by (simp_all add: loong_kind_bits b)
  have "loong_paddr ?e = p" by (rule loong_paddr_of [OF 3(1) h(1)]) (simp add: b)
  moreover obtain e' where e': "loong_set_prop ?e q = Some e'" "loong_prop e' = Some q" "loong_is_present e'" "bit e' 9"
    "loong_paddr e' = loong_paddr ?e"
    using loong_set_prop_basic [OF h(2,3), of q] 3(2) loong_decoded_valid [OF 3(2)] by (auto simp: loong_valid_prop_def)
  moreover have "e' OR L_IS_BASIC = e'" by (rule bit_word_eqI) (use e'(4) in \<open>auto simp: bit_or_iff loong_flag_bit\<close>)
  ultimately show ?case using 3(3) by (simp add: loong_pte_ops_def loong_new_page_def loong_is_last_def)
next
  case (4 e q)
  then show ?case using loong_set_prop_basic [of e q] loong_decoded_valid [of q]
    by (auto simp: loong_pte_ops_def loong_is_last_def loong_kind_bits loong_valid_prop_def)
next
  case (5 e q)
  then show ?case by (simp add: loong_pte_ops_def loong_set_prop_def)
qed

section \<open>Properties\<close>

text \<open>C21: RISC-V entries round-trip.  For a page-aligned address of at most 56 bits and properties with a permission and without
  accessed or dirty flags, \<open>new_page\<close> at any level followed by any sequence of \<open>set_prop\<close> never panics; the entry stays present
  and a leaf, keeps exactly that address and decodes to the property that was written last.\<close>

theorem riscv_page_life:
  assumes "riscv_valid_paddr p" "riscv_valid_prop q0" "\<forall>q \<in> set qs. riscv_valid_prop q"
  shows "\<exists>e e'. riscv_new_page p l q0 = Some e \<and> set_props riscv_pte_ops qs e = Some e' \<and> riscv_is_present e' \<and>
    riscv_paddr e' = p \<and> riscv_is_last e' l \<and> riscv_prop e' = Some (last (q0 # qs))"
  using riscv_codec.page_life [OF assms(1,2) _ assms(3), of l] by (simp add: riscv_pte_ops_def)

definition rw_prop :: PageProperty where
  "rw_prop = \<lparr>flags = PF_R OR PF_W, cache = Writeback, priv_flags = PPF_USER\<rparr>"

definition rx_io_prop :: PageProperty where
  "rx_io_prop = \<lparr>flags = PF_R OR PF_X, cache = Uncacheable, priv_flags = PPF_GLOBAL\<rparr>"

theorem riscv_page_life_witness:
  "\<exists>e e'. riscv_new_page 0x3000 2 rw_prop = Some e \<and> set_props riscv_pte_ops [rx_io_prop] e = Some e' \<and>
     riscv_paddr e' = 0x3000 \<and> riscv_is_last e' 2 \<and> riscv_prop e' = Some rx_io_prop"
proof -
  have "riscv_valid_prop rw_prop" "riscv_valid_prop rx_io_prop" "riscv_valid_paddr 0x3000"
    by (simp_all add: riscv_valid_prop_def riscv_valid_paddr_def rw_prop_def rx_io_prop_def prop_inv_def page_flags_all_def priv_flags_all_def
        page_flag_defs PAGE_SIZE_def)
  then show ?thesis using riscv_page_life [of "0x3000" rw_prop "[rx_io_prop]" 2] by auto
qed

text \<open>The same on LoongArch, for basic pages whose properties have the dirty flag.\<close>

lemma loong_page_life:
  assumes "loong_valid_paddr p" "loong_valid_prop q0" "\<forall>q \<in> set qs. loong_valid_prop q"
  shows "\<exists>e e'. loong_new_page p 1 q0 = Some e \<and> set_props loong_pte_ops qs e = Some e' \<and> loong_is_present e' \<and>
    loong_paddr e' = p \<and> loong_is_last e' 1 \<and> loong_prop e' = Some (last (q0 # qs))"
  using loong_codec.page_life [OF assms(1,2) refl assms(3)] by (simp add: loong_pte_ops_def)

text \<open>A huge page loses its marker: after \<open>set_prop\<close> it is taken for a page-table pointer.\<close>

lemma loong_huge_lost:
  assumes "loong_is_present e" "loong_is_huge e" "loong_set_prop e p = Some e'" "1 < l"
  shows "loong_is_last e l \<and> \<not> loong_is_last e' l"
proof -
  have c: "cache p = Writeback \<or> cache p = Uncacheable \<or> cache p = WriteCombining"
    using assms(1,3) by (cases "cache p") (auto simp: loong_set_prop_def)
  have "\<not> bit e' 6"
    using loong_set_prop_bits [OF assms(1) c] assms(2,3) by (auto simp: loong_prop_flags_bit)
  then show ?thesis using assms(2,4) by (simp add: loong_is_last_def loong_kind_bits)
qed

text \<open>On LoongArch an uncacheable page becomes cacheable.  \<open>set_prop\<close> accepts the policy \<open>Uncacheable\<close> on any basic page, but
  \<open>prop\<close> then reports \<open>Writeback\<close>; and writing the reported property back unchanged, as protecting a page does, turns the
  memory type of the entry from strongly ordered into cached (\<open>MATL\<close>).\<close>

lemma loong_uncacheable_lost:
  assumes "loong_is_present e" "e AND L_IS_BASIC \<noteq> 0" "prop_inv False p" "cache p = Uncacheable"
  shows "\<exists>e1 q e2. loong_set_prop e p = Some e1 \<and> e1 AND L_MATL = 0 \<and> loong_prop e1 = Some q \<and> cache q = Writeback \<and>
    loong_set_prop e1 q = Some e2 \<and> e2 AND L_MATL \<noteq> 0 \<and> loong_paddr e2 = loong_paddr e"
proof -
  have m: "x AND L_MATL \<noteq> 0 \<longleftrightarrow> bit x 4" "x AND L_IS_BASIC \<noteq> 0 \<longleftrightarrow> bit x 9" for x unfolding loong_flag_exp word_and_exp by simp_all
  have b: "bit e 9" using assms(2) m by simp
  obtain e1 where e1: "loong_set_prop e p = Some e1" "loong_prop e1 = Some (loong_decoded p)" "loong_is_present e1" "bit e1 9"
    "loong_paddr e1 = loong_paddr e" "\<not> bit e1 4"
    using loong_set_prop_basic [OF assms(1) b assms(3)] assms(4) by auto
  have c: "cache (loong_decoded p) = Writeback" using assms(4) by (simp add: loong_decoded_def)
  obtain q where q: "q = loong_decoded p" by simp
  have inv: "prop_inv False q"
    using assms(3) by (auto simp: q loong_decoded_def prop_inv_bits bit_or_iff dirty_bit)
  obtain e2 where "loong_set_prop e1 q = Some e2" "bit e2 4" "loong_paddr e2 = loong_paddr e1"
    using loong_set_prop_basic [OF e1(3,4) inv] c q by auto
  then show ?thesis using e1 c q m by auto
qed

end
