(* ===== verification/Heap_Slab.thy ===== *)
theory Heap_Slab
  imports Frame_Segment
begin

text \<open>
  Heap slots: \<open>mm/heap/slot.rs\<close>, \<open>slot_list.rs\<close>, \<open>slab.rs\<close> and the dispatch of \<open>mod.rs\<close>, under \<open>src/ostd/src\<close>.  A slab is one frame cut into slots
  of \<open>SLOT_SIZE\<close> bytes; the free slots are linked through their own first words, so the list lives in an explicit store of words, which the
  owners of allocated slots write too.  The frame allocator (\<open>FrameAllocOptions\<close>) is \<open>unimplemented!()\<close> in the sources: its
  answer is an argument.  The global heap allocator and the slot map are up-calls to the kernel, and also arguments.  The cargo
  feature \<open>allow_panic\<close> is the boolean \<open>ap\<close>; the compile-time assertions are checked where they stand.
\<close>

section \<open>Heap slots\<close>

datatype SlotInfo = SlabSlot usize | LargeSlot usize

fun slot_info_size :: "SlotInfo \<Rightarrow> usize" where
  "slot_info_size (SlabSlot n) = n"
| "slot_info_size (LargeSlot n) = n"

record HeapSlot =
  addr :: Vaddr
  slot_info :: SlotInfo

definition slot_new :: "Vaddr \<Rightarrow> SlotInfo \<Rightarrow> HeapSlot" where
  "slot_new a i = \<lparr>addr = a, slot_info = i\<rparr>"

definition slot_paddr :: "HeapSlot \<Rightarrow> Paddr option" where
  "slot_paddr self = usub (addr self) LINEAR_MAPPING_BASE_VADDR"

definition slot_size :: "HeapSlot \<Rightarrow> usize" where
  "slot_size self = (case slot_info self of SlabSlot n \<Rightarrow> n | LargeSlot n \<Rightarrow> n)"

text \<open>\<open>alloc_segment_with\<close> is the argument \<open>alloc\<close>: the segment of so many frames, or an error.\<close>

definition alloc_large :: "bool \<Rightarrow> (usize \<Rightarrow> Error + Segment) \<Rightarrow> usize \<Rightarrow> (unit + HeapSlot) option" where
  "alloc_large ap alloc n = do {
     (if ap then rassert (n mod PAGE_SIZE = 0) else Some ());
     let nframes = n div PAGE_SIZE;
     case alloc nframes of
       Inl _ \<Rightarrow> Some (Inl ())
     | Inr segment \<Rightarrow> do {
         let paddr_range = segment_into_raw segment;
         vaddr \<leftarrow> paddr_to_vaddr (fst paddr_range);
         rassert (vaddr \<noteq> 0);
         Some (Inr (slot_new vaddr (LargeSlot n))) } }"

text \<open>The segment that is dropped, if any.\<close>

definition dealloc_large :: "bool \<Rightarrow> HeapSlot \<Rightarrow> Segment option option" where
  "dealloc_large ap self = (case slot_info self of
     SlabSlot _ \<Rightarrow> if ap then None else Some None
   | LargeSlot n \<Rightarrow> do {
       rassert (n mod PAGE_SIZE = 0);
       p \<leftarrow> slot_paddr self;
       rassert (p mod PAGE_SIZE = 0);
       e \<leftarrow> uadd p n;
       Some (Some (segment_from_raw (p, e))) })"

section \<open>The list of free slots\<close>

type_synonym smem = "Vaddr \<Rightarrow> usize"

record SlabSlotList =
  head :: "Vaddr option"

definition slot_list_new :: SlabSlotList where
  "slot_list_new = \<lparr>head = None\<rparr>"

definition push :: "bool \<Rightarrow> usize \<Rightarrow> SlabSlotList \<Rightarrow> HeapSlot \<Rightarrow> smem \<Rightarrow> (SlabSlotList \<times> smem) option" where
  "push ap SLOT_SIZE self slot m = (
     let slot_ptr = addr slot in
     case slot_info slot of
       LargeSlot _ \<Rightarrow> if ap then None else Some (self, m)
     | SlabSlot n \<Rightarrow> do {
         (if ap then rassert (n = SLOT_SIZE) else Some ());
         rassert (SLOT_SIZE \<ge> 8);
         let original_head = head self;
         rassert (slot_ptr \<noteq> 0);
         Some (self\<lparr>head := Some slot_ptr\<rparr>, m(slot_ptr := (case original_head of None \<Rightarrow> 0 | Some h \<Rightarrow> h))) })"

definition pop :: "usize \<Rightarrow> SlabSlotList \<Rightarrow> smem \<Rightarrow> HeapSlot option \<times> SlabSlotList" where
  "pop SLOT_SIZE self m = (case head self of
     None \<Rightarrow> (None, self)
   | Some original_head \<Rightarrow> (
       let next = m original_head in
       (Some (slot_new original_head (SlabSlot SLOT_SIZE)), self\<lparr>head := (if next = 0 then None else Some next)\<rparr>)))"

section \<open>Slabs\<close>

record Slab =
  slab_paddr :: Paddr
  free_list :: SlabSlotList
  nr_allocated :: nat

definition capacity :: "usize \<Rightarrow> nat" where
  "capacity SLOT_SIZE = PAGE_SIZE div SLOT_SIZE mod 2 ^ 16"

definition slab_on_drop :: "Slab \<Rightarrow> unit option" where
  "slab_on_drop self = rassert (nr_allocated self = 0)"

definition slab_alloc :: "usize \<Rightarrow> Slab \<Rightarrow> smem \<Rightarrow> ((unit + HeapSlot) \<times> Slab) option" where
  "slab_alloc SLOT_SIZE self m = (
     let (r, fl) = pop SLOT_SIZE (free_list self) m in
     case r of
       None \<Rightarrow> Some (Inl (), self\<lparr>free_list := fl\<rparr>)
     | Some allocated \<Rightarrow> do {
         rassert (nr_allocated self + 1 < 2 ^ 16);
         Some (Inr allocated, self\<lparr>free_list := fl, nr_allocated := nr_allocated self + 1\<rparr>) })"

text \<open>\<open>(0..PAGE_SIZE).step_by(SLOT_SIZE)\<close> and the loop over it.\<close>

definition slot_offsets :: "usize \<Rightarrow> usize list" where
  "slot_offsets SLOT_SIZE = map (\<lambda>i. i * SLOT_SIZE) [0..<(PAGE_SIZE + SLOT_SIZE - 1) div SLOT_SIZE]"

fun push_slots :: "bool \<Rightarrow> usize \<Rightarrow> Vaddr \<Rightarrow> usize list \<Rightarrow> SlabSlotList \<Rightarrow> smem \<Rightarrow> (SlabSlotList \<times> smem) option" where
  "push_slots ap SLOT_SIZE head_vaddr [] l m = Some (l, m)"
| "push_slots ap SLOT_SIZE head_vaddr (slot_offset # os) l m = do {
     slot_ptr \<leftarrow> uadd head_vaddr slot_offset;
     (l', m') \<leftarrow> push ap SLOT_SIZE l (slot_new slot_ptr (SlabSlot SLOT_SIZE)) m;
     push_slots ap SLOT_SIZE head_vaddr os l' m' }"

definition slab_new :: "bool \<Rightarrow> usize \<Rightarrow> Error + Paddr \<Rightarrow> smem \<Rightarrow> ((Error + Slab) \<times> smem) option" where
  "slab_new ap SLOT_SIZE frame m = do {
     rassert (SLOT_SIZE \<le> PAGE_SIZE);
     rassert (SLOT_SIZE \<ge> 8);
     rassert (PAGE_SIZE div SLOT_SIZE \<le> 65535);
     case frame of
       Inl e \<Rightarrow> Some (Inl e, m)
     | Inr head_paddr \<Rightarrow> do {
         head_vaddr \<leftarrow> paddr_to_vaddr head_paddr;
         (fl, m') \<leftarrow> push_slots ap SLOT_SIZE head_vaddr (slot_offsets SLOT_SIZE) slot_list_new m;
         Some (Inr \<lparr>slab_paddr = head_paddr, free_list = fl, nr_allocated = 0\<rparr>, m') } }"

definition slab_dealloc :: "bool \<Rightarrow> usize \<Rightarrow> Slab \<Rightarrow> HeapSlot \<Rightarrow> smem \<Rightarrow> ((unit + unit) \<times> Slab \<times> smem) option" where
  "slab_dealloc ap SLOT_SIZE self slot m = do {
     e \<leftarrow> uadd (slab_paddr self) PAGE_SIZE;
     p \<leftarrow> slot_paddr slot;
     if \<not> (slab_paddr self \<le> p \<and> p < e) then Some (Inl (), self, m)
     else do {
       rassert (slot_size slot = SLOT_SIZE);
       (fl, m') \<leftarrow> push ap SLOT_SIZE (free_list self) slot m;
       n \<leftarrow> usub (nr_allocated self) 1;
       Some (Inr (), self\<lparr>free_list := fl, nr_allocated := n\<rparr>, m') } }"

section \<open>The global allocator\<close>

record Layout =
  lay_size :: usize
  lay_align :: usize

text \<open>\<open>slot_map\<close> and the two operations of the kernel's heap (\<open>'h\<close> is its state) are arguments; a null pointer is \<open>0\<close>.\<close>

definition dispatch_alloc :: "(Layout \<Rightarrow> SlotInfo option) \<Rightarrow> ('h \<Rightarrow> Layout \<Rightarrow> (unit + HeapSlot) \<times> 'h) \<Rightarrow> 'h \<Rightarrow> Layout \<Rightarrow> (Vaddr \<times> 'h) option" where
  "dispatch_alloc slot_map heap_alloc h layout = do {
     required_slot \<leftarrow> slot_map layout;
     let (res, h') = heap_alloc h layout;
     case res of
       Inl _ \<Rightarrow> Some (0, h')
     | Inr slot \<Rightarrow>
         if slot_info_size required_slot \<noteq> slot_size slot \<or> slot_size slot < lay_size layout \<or> addr slot mod lay_align layout \<noteq> 0
         then None else Some (addr slot, h') }"

definition dispatch_dealloc :: "(Layout \<Rightarrow> SlotInfo option) \<Rightarrow> ('h \<Rightarrow> HeapSlot \<Rightarrow> (unit + unit) \<times> 'h) \<Rightarrow> 'h \<Rightarrow> Vaddr \<Rightarrow> Layout \<Rightarrow> 'h option" where
  "dispatch_dealloc slot_map heap_dealloc h ptr layout = do {
     required_slot \<leftarrow> slot_map layout;
     let slot = slot_new ptr required_slot;
     let (res, h') = heap_dealloc h slot;
     case res of Inl _ \<Rightarrow> None | Inr _ \<Rightarrow> Some h' }"

section \<open>The free list in memory\<close>

text \<open>The list of addresses that a head and the words behind it stand for.\<close>

fun chain :: "smem \<Rightarrow> Vaddr option \<Rightarrow> Vaddr list \<Rightarrow> bool" where
  "chain m h [] \<longleftrightarrow> h = None"
| "chain m h (a # as) \<longleftrightarrow> h = Some a \<and> a \<noteq> 0 \<and> chain m (if m a = 0 then None else Some (m a)) as"

lemma chain_frame: "chain m h as \<Longrightarrow> \<forall>a \<in> set as. m' a = m a \<Longrightarrow> chain m' h as"
  by (induction as arbitrary: h) auto

lemma chain_head_nonzero: "chain m h as \<Longrightarrow> h = Some a \<Longrightarrow> a \<noteq> 0"
  by (cases as) auto

lemma push_ok:
  assumes "chain m (head l) as" "a \<noteq> 0" "8 \<le> sz" "a \<notin> set as"
  shows "\<exists>l' m'. push ap sz l (slot_new a (SlabSlot sz)) m = Some (l', m') \<and> chain m' (head l') (a # as) \<and> (\<forall>b. b \<noteq> a \<longrightarrow> m' b = m b)"
proof -
  have "chain (m(a := v)) (head l) as" for v using chain_frame [OF assms(1), of "m(a := v)"] assms(4) by auto
  then show ?thesis using assms chain_head_nonzero [OF assms(1)]
    by (cases "head l") (auto simp: push_def slot_new_def)
qed

lemma pop_ok:
  "chain m (head l) as \<Longrightarrow> pop sz l m = (case as of [] \<Rightarrow> (None, l) | a # as' \<Rightarrow>
     (Some (slot_new a (SlabSlot sz)), l\<lparr>head := (if m a = 0 then None else Some (m a))\<rparr>))"
  by (cases as) (auto simp: pop_def Let_def)

text \<open>The slots of a frame at \<open>va\<close>; where the slot size divides the page, they fill it and do not overlap.\<close>

definition slots_at :: "usize \<Rightarrow> Vaddr \<Rightarrow> Vaddr set" where
  "slots_at sz va = (\<lambda>i. va + i * sz) ` {..<PAGE_SIZE div sz}"

lemma slots_at_finite [simp]: "finite (slots_at sz va)"
  by (simp add: slots_at_def)

lemma slots_at_card: "0 < sz \<Longrightarrow> card (slots_at sz va) = PAGE_SIZE div sz"
  by (simp add: slots_at_def card_image inj_on_def)

lemma slots_at_inside: "a \<in> slots_at sz va \<Longrightarrow> va \<le> a \<and> a + sz \<le> va + PAGE_SIZE"
proof -
  assume "a \<in> slots_at sz va"
  then obtain i where i: "a = va + i * sz" "i < PAGE_SIZE div sz" by (auto simp: slots_at_def)
  have "(i + 1) * sz \<le> PAGE_SIZE div sz * sz" using i(2) by (intro mult_le_mono1) simp
  also have "\<dots> \<le> PAGE_SIZE" by (simp add: div_times_less_eq_dividend)
  finally show ?thesis using i(1) by simp
qed

lemma slots_at_disjoint:
  assumes "a \<in> slots_at sz va" "b \<in> slots_at sz va" "a \<noteq> b"
  shows "a + sz \<le> b \<or> b + sz \<le> a"
proof -
  obtain i j where ij: "a = va + i * sz" "b = va + j * sz" using assms by (auto simp: slots_at_def)
  then have "i < j \<or> j < i" using assms(3) by fastforce
  moreover have "(x + 1) * sz \<le> y * sz" if "x < y" for x y using that by (intro mult_le_mono1) simp
  ultimately have "(i + 1) * sz \<le> j * sz \<or> (j + 1) * sz \<le> i * sz" by blast
  then show ?thesis using ij by (simp add: algebra_simps)
qed

lemma push_slots_ok:
  assumes "chain m (head l) as" "0 < va" "8 \<le> sz" "distinct os" "\<forall>x \<in> set os. va + x \<le> USIZE_MAX \<and> va + x \<notin> set as"
  shows "\<exists>l' m'. push_slots ap sz va os l m = Some (l', m') \<and> chain m' (head l') (rev (map ((+) va) os) @ as) \<and>
    (\<forall>b. b \<notin> (+) va ` set os \<longrightarrow> m' b = m b)"
  using assms
proof (induction os arbitrary: l m as)
  case (Cons x os)
  obtain l1 m1 where p: "push ap sz l (slot_new (va + x) (SlabSlot sz)) m = Some (l1, m1)" "chain m1 (head l1) ((va + x) # as)"
    "\<forall>b. b \<noteq> va + x \<longrightarrow> m1 b = m b"
    using push_ok [OF Cons.prems(1), of "va + x" sz ap] Cons.prems(2,3,5) by auto
  obtain l' m' where q: "push_slots ap sz va os l1 m1 = Some (l', m')"
    "chain m' (head l') (rev (map ((+) va) os) @ (va + x) # as)" "\<forall>b. b \<notin> (+) va ` set os \<longrightarrow> m' b = m1 b"
    using Cons.IH [OF p(2) Cons.prems(2,3)] Cons.prems(4,5) by auto
  then show ?case using p Cons.prems(5) by (auto simp: uadd_def)
qed simp

section \<open>A slab in use\<close>

text \<open>\<open>owned\<close> are the addresses of the slots that are allocated.  Their owners write words inside them.\<close>

inductive slab_run :: "bool \<Rightarrow> usize \<Rightarrow> Paddr \<Rightarrow> Slab \<Rightarrow> smem \<Rightarrow> Vaddr set \<Rightarrow> bool" for ap sz pa where
  new: "slab_new ap sz (Inr pa) m0 = Some (Inr s, m) \<Longrightarrow> slab_run ap sz pa s m {}"
| alloc: "slab_run ap sz pa s m owned \<Longrightarrow> slab_alloc sz s m = Some (Inr slot, s') \<Longrightarrow> slab_run ap sz pa s' m (insert (addr slot) owned)"
| dealloc: "slab_run ap sz pa s m owned \<Longrightarrow> a \<in> owned \<Longrightarrow> slab_dealloc ap sz s (slot_new a (SlabSlot sz)) m = Some (Inr (), s', m') \<Longrightarrow>
    slab_run ap sz pa s' m' (owned - {a})"
| owner_write: "slab_run ap sz pa s m owned \<Longrightarrow> a \<in> owned \<Longrightarrow> a \<le> w \<Longrightarrow> w < a + sz \<Longrightarrow> slab_run ap sz pa s (m(w := v)) owned"

definition slab_inv :: "usize \<Rightarrow> Paddr \<Rightarrow> Slab \<Rightarrow> smem \<Rightarrow> Vaddr set \<Rightarrow> bool" where
  "slab_inv sz pa s m owned \<longleftrightarrow> slab_paddr s = pa \<and> nr_allocated s = card owned \<and>
     (\<exists>as. chain m (head (free_list s)) as \<and> distinct as \<and> set as \<inter> owned = {} \<and>
        set as \<union> owned = slots_at sz (pa + LINEAR_MAPPING_BASE_VADDR))"

text \<open>The assumptions on the slot size, and a frame in the linear mapping.\<close>

definition slab_params :: "usize \<Rightarrow> Paddr \<Rightarrow> bool" where
  "slab_params sz pa \<longleftrightarrow> 8 \<le> sz \<and> sz dvd PAGE_SIZE \<and> pa + PAGE_SIZE \<le> 2 ^ 46"

lemma linear_base: "LINEAR_MAPPING_BASE_VADDR > 0" "LINEAR_MAPPING_BASE_VADDR + 2 ^ 46 \<le> USIZE_MAX"
  by (simp_all add: LINEAR_MAPPING_BASE_VADDR_def USIZE_MAX_def)

lemma slot_offsets_dvd: "0 < sz \<Longrightarrow> sz dvd PAGE_SIZE \<Longrightarrow> slot_offsets sz = map (\<lambda>i. i * sz) [0..<PAGE_SIZE div sz]"
proof -
  assume "0 < sz" "sz dvd PAGE_SIZE"
  then obtain k where k: "PAGE_SIZE = sz * k" by (auto elim: dvdE)
  have "(PAGE_SIZE + sz - 1) div sz = k"
    using \<open>0 < sz\<close> k by (intro div_nat_eqI) (auto simp: algebra_simps)
  moreover have "PAGE_SIZE div sz = k" unfolding k using \<open>0 < sz\<close> by simp
  ultimately show ?thesis by (simp add: slot_offsets_def)
qed

lemma slab_new_ok:
  assumes "slab_params sz pa"
  shows "\<exists>s m'. slab_new ap sz (Inr pa) m = Some (Inr s, m') \<and> slab_inv sz pa s m' {}"
proof -
  let ?va = "pa + LINEAR_MAPPING_BASE_VADDR"
  have sz: "8 \<le> sz" "sz dvd PAGE_SIZE" "pa + PAGE_SIZE \<le> 2 ^ 46" using assms by (auto simp: slab_params_def)
  then have le: "sz \<le> PAGE_SIZE" by (simp add: dvd_imp_le)
  have va: "paddr_to_vaddr pa = Some ?va" "0 < ?va" "?va + PAGE_SIZE \<le> USIZE_MAX"
    using sz(3) linear_base by (auto simp: paddr_to_vaddr_def uadd_def)
  have off: "slot_offsets sz = map (\<lambda>i. i * sz) [0..<PAGE_SIZE div sz]" using slot_offsets_dvd sz by simp
  have im: "(+) ?va ` set (slot_offsets sz) = slots_at sz ?va" unfolding off slots_at_def by (auto simp: atLeast0LessThan)
  have d: "distinct (slot_offsets sz)" unfolding off using sz(1) by (auto simp: distinct_map inj_on_def)
  have b: "\<forall>x \<in> set (slot_offsets sz). ?va + x \<le> USIZE_MAX \<and> ?va + x \<notin> set []"
  proof
    fix x assume "x \<in> set (slot_offsets sz)"
    then have "?va + x \<in> slots_at sz ?va" using im by blast
    from slots_at_inside [OF this] show "?va + x \<le> USIZE_MAX \<and> ?va + x \<notin> set []" using va(3) by simp
  qed
  obtain l m' where p: "push_slots ap sz ?va (slot_offsets sz) slot_list_new m = Some (l, m')"
    "chain m' (head l) (rev (map ((+) ?va) (slot_offsets sz)))"
    using push_slots_ok [of m slot_list_new "[]" ?va sz "slot_offsets sz" ap, OF _ va(2) sz(1) d b] by (auto simp: slot_list_new_def)
  have "PAGE_SIZE div sz \<le> 65535" by (rule order_trans [OF div_le_dividend]) (simp add: PAGE_SIZE_def)
  then have new: "slab_new ap sz (Inr pa) m = Some (Inr \<lparr>slab_paddr = pa, free_list = l, nr_allocated = 0\<rparr>, m')"
    using p(1) va(1) sz(1) le by (simp add: slab_new_def)
  have "distinct (rev (map ((+) ?va) (slot_offsets sz)))" using d by (simp add: distinct_map)
  then have "slab_inv sz pa \<lparr>slab_paddr = pa, free_list = l, nr_allocated = 0\<rparr> m' {}"
    using p(2) im by (auto simp: slab_inv_def intro!: exI [of _ "rev (map ((+) ?va) (slot_offsets sz))"])
  then show ?thesis using new by blast
qed

lemma slab_inv_card:
  assumes "slab_inv sz pa s m owned" "0 < sz"
  shows "card owned \<le> PAGE_SIZE div sz" "finite owned" "owned \<subseteq> slots_at sz (pa + LINEAR_MAPPING_BASE_VADDR)"
  using assms slots_at_card [OF assms(2), of "pa + LINEAR_MAPPING_BASE_VADDR"]
  by (auto simp: slab_inv_def intro: finite_subset) (metis card_mono slots_at_finite sup_ge2)

lemma slab_alloc_ok:
  assumes "slab_params sz pa" "slab_inv sz pa s m owned"
  shows "if card owned = PAGE_SIZE div sz then slab_alloc sz s m = Some (Inl (), s)
    else \<exists>a s'. slab_alloc sz s m = Some (Inr (slot_new a (SlabSlot sz)), s') \<and> a \<in> slots_at sz (pa + LINEAR_MAPPING_BASE_VADDR) \<and>
      a \<notin> owned \<and> slab_inv sz pa s' m (insert a owned)"
proof -
  have sz: "0 < sz" "8 \<le> sz" using assms(1) by (auto simp: slab_params_def)
  obtain as where as: "chain m (head (free_list s)) as" "distinct as" "set as \<inter> owned = {}"
    "set as \<union> owned = slots_at sz (pa + LINEAR_MAPPING_BASE_VADDR)" "nr_allocated s = card owned" "slab_paddr s = pa"
    using assms(2) by (auto simp: slab_inv_def)
  note card = slab_inv_card [OF assms(2) sz(1)]
  have sum: "length as + card owned = PAGE_SIZE div sz"
    using card_Un_disjoint [of "set as" owned] as(2-4) card(2) slots_at_card [OF sz(1)] by (simp add: distinct_card)
  show ?thesis
  proof (cases as)
    case Nil
    then show ?thesis using sum as(1) pop_ok [OF as(1), of sz] by (simp add: slab_alloc_def)
  next
    case (Cons a as')
    have "PAGE_SIZE div sz \<le> PAGE_SIZE div 8" using sz(2) by (intro div_le_mono2) auto
    then have "card owned + 1 < 2 ^ 16" using card(1) by (simp add: PAGE_SIZE_def)
    then have "slab_alloc sz s m = Some (Inr (slot_new a (SlabSlot sz)), s\<lparr>free_list := (free_list s)\<lparr>head := (if m a = 0 then None else Some (m a))\<rparr>,
        nr_allocated := card owned + 1\<rparr>)"
      using pop_ok [OF as(1), of sz] Cons as(5) by (simp add: slab_alloc_def)
    moreover have "a \<notin> owned" "a \<in> slots_at sz (pa + LINEAR_MAPPING_BASE_VADDR)" using as(3,4) Cons by auto
    moreover have "slab_inv sz pa (s\<lparr>free_list := (free_list s)\<lparr>head := (if m a = 0 then None else Some (m a))\<rparr>,
        nr_allocated := card owned + 1\<rparr>) m (insert a owned)"
      using as Cons card(2) unfolding slab_inv_def by (intro conjI exI [of _ as']) auto
    ultimately show ?thesis using sum Cons by auto
  qed
qed

lemma slab_dealloc_ok:
  assumes "slab_params sz pa" "slab_inv sz pa s m owned" "a \<in> owned"
  shows "\<exists>s' m'. slab_dealloc ap sz s (slot_new a (SlabSlot sz)) m = Some (Inr (), s', m') \<and> slab_inv sz pa s' m' (owned - {a}) \<and>
    (\<forall>b. b \<noteq> a \<longrightarrow> m' b = m b)"
proof -
  have sz: "0 < sz" "8 \<le> sz" "pa + PAGE_SIZE \<le> 2 ^ 46" using assms(1) by (auto simp: slab_params_def)
  obtain as where as: "chain m (head (free_list s)) as" "distinct as" "set as \<inter> owned = {}"
    "set as \<union> owned = slots_at sz (pa + LINEAR_MAPPING_BASE_VADDR)" "nr_allocated s = card owned" "slab_paddr s = pa"
    using assms(2) by (auto simp: slab_inv_def)
  note card = slab_inv_card [OF assms(2) sz(1)]
  have a: "pa + LINEAR_MAPPING_BASE_VADDR \<le> a" "a + sz \<le> pa + LINEAR_MAPPING_BASE_VADDR + PAGE_SIZE"
    using slots_at_inside [of a sz] card(3) assms(3) by blast+
  have nz: "a \<noteq> 0" "a \<notin> set as" using a(1) linear_base(1) as(3) assms(3) by auto
  obtain l' m' where p: "push ap sz (free_list s) (slot_new a (SlabSlot sz)) m = Some (l', m')" "chain m' (head l') (a # as)"
    "\<forall>b. b \<noteq> a \<longrightarrow> m' b = m b" using push_ok [OF as(1) nz(1) sz(2) nz(2)] by blast
  have c: "card owned > 0" using card(2) assms(3) by (auto simp: card_gt_0_iff)
  have "slab_dealloc ap sz s (slot_new a (SlabSlot sz)) m = Some (Inr (), s\<lparr>free_list := l', nr_allocated := card owned - 1\<rparr>, m')"
    using p(1) a sz c linear_base as(5,6)
    by (auto simp: slab_dealloc_def slot_paddr_def slot_size_def slot_new_def usub_def uadd_def USIZE_MAX_def)
  moreover have "slab_inv sz pa (s\<lparr>free_list := l', nr_allocated := card owned - 1\<rparr>) m' (owned - {a})"
    using p(2) as nz(2) assms(3) card(2) unfolding slab_inv_def by (intro conjI exI [of _ "a # as"]) auto
  ultimately show ?thesis using p(3) by blast
qed

lemma slab_run_inv: "slab_run ap sz pa s m owned \<Longrightarrow> slab_params sz pa \<Longrightarrow> slab_inv sz pa s m owned"
proof (induction rule: slab_run.induct)
  case (new m0 s m)
  then show ?case using slab_new_ok [of sz pa ap m0] by auto
next
  case (alloc s m owned slot s')
  then show ?case using slab_alloc_ok [of sz pa s m owned] by (auto simp: slot_new_def split: if_splits)
next
  case (dealloc s m owned a s' m')
  then show ?case using slab_dealloc_ok [of sz pa s m owned a ap] by auto
next
  case (owner_write s m owned a w v)
  then have inv: "slab_inv sz pa s m owned" and sz: "0 < sz" by (auto simp: slab_params_def)
  then obtain as where as: "chain m (head (free_list s)) as" "distinct as" "set as \<inter> owned = {}"
    "set as \<union> owned = slots_at sz (pa + LINEAR_MAPPING_BASE_VADDR)" by (auto simp: slab_inv_def)
  have "b \<noteq> w" if b: "b \<in> set as" for b
  proof -
    have "b \<noteq> a" using b as(3) owner_write.hyps(2) by blast
    moreover have "a \<in> slots_at sz (pa + LINEAR_MAPPING_BASE_VADDR)" "b \<in> slots_at sz (pa + LINEAR_MAPPING_BASE_VADDR)"
      using b as(4) owner_write.hyps(2) by blast+
    ultimately show ?thesis using slots_at_disjoint [of a sz _ b] sz owner_write.hyps(3,4) by fastforce
  qed
  then have "chain (m(w := v)) (head (free_list s)) as" by (intro chain_frame [OF as(1)]) auto
  moreover have "slab_paddr s = pa" "nr_allocated s = card owned" using inv by (simp_all add: slab_inv_def)
  ultimately show ?case using as(2-4) unfolding slab_inv_def by blast
qed

section \<open>Properties\<close>

text \<open>C17: a slab never hands out memory twice.  For a slot size that divides the page, however allocations, deallocations of
  allocated slots and writes of the owners to their slots are mixed, no call panics; \<open>alloc\<close> fails exactly when all
  slots are allocated, and otherwise returns a slot inside the frame that overlaps no allocated slot; a slot that is allocated can be
  given back; and \<open>nr_allocated\<close> is the number of allocated slots.\<close>

theorem slab_slots_exclusive:
  assumes "slab_run ap sz pa s m owned" "slab_params sz pa"
  shows "nr_allocated s = card owned \<and> card owned \<le> capacity sz \<and>
    (if card owned = capacity sz then slab_alloc sz s m = Some (Inl (), s)
     else \<exists>slot s'. slab_alloc sz s m = Some (Inr slot, s') \<and> slot_size slot = sz \<and>
       pa + LINEAR_MAPPING_BASE_VADDR \<le> addr slot \<and> addr slot + sz \<le> pa + LINEAR_MAPPING_BASE_VADDR + PAGE_SIZE \<and>
       (\<forall>b \<in> owned. addr slot + sz \<le> b \<or> b + sz \<le> addr slot)) \<and>
    (\<forall>a \<in> owned. \<exists>s' m'. slab_dealloc ap sz s (slot_new a (SlabSlot sz)) m = Some (Inr (), s', m'))"
proof -
  have inv: "slab_inv sz pa s m owned" using slab_run_inv assms by blast
  have sz: "0 < sz" "8 \<le> sz" using assms(2) by (auto simp: slab_params_def)
  have "PAGE_SIZE div sz \<le> PAGE_SIZE div 8" using sz by (intro div_le_mono2) auto
  then have cap: "capacity sz = PAGE_SIZE div sz" by (simp add: capacity_def PAGE_SIZE_def)
  note card = slab_inv_card [OF inv sz(1)]
  show ?thesis
  proof (intro conjI)
    show "nr_allocated s = card owned" using inv by (simp add: slab_inv_def)
    show "card owned \<le> capacity sz" using card(1) cap by simp
    show "\<forall>a \<in> owned. \<exists>s' m'. slab_dealloc ap sz s (slot_new a (SlabSlot sz)) m = Some (Inr (), s', m')"
      using slab_dealloc_ok [OF assms(2) inv] by blast
    show "if card owned = capacity sz then slab_alloc sz s m = Some (Inl (), s)
     else \<exists>slot s'. slab_alloc sz s m = Some (Inr slot, s') \<and> slot_size slot = sz \<and>
       pa + LINEAR_MAPPING_BASE_VADDR \<le> addr slot \<and> addr slot + sz \<le> pa + LINEAR_MAPPING_BASE_VADDR + PAGE_SIZE \<and>
       (\<forall>b \<in> owned. addr slot + sz \<le> b \<or> b + sz \<le> addr slot)"
    proof (cases "card owned = capacity sz")
      case True
      then show ?thesis using slab_alloc_ok [OF assms(2) inv] cap by simp
    next
      case False
      then obtain a s' where a: "slab_alloc sz s m = Some (Inr (slot_new a (SlabSlot sz)), s')"
        "a \<in> slots_at sz (pa + LINEAR_MAPPING_BASE_VADDR)" "a \<notin> owned"
        using slab_alloc_ok [OF assms(2) inv] cap by auto
      have "\<forall>b \<in> owned. a + sz \<le> b \<or> b + sz \<le> a" using slots_at_disjoint [OF a(2)] card(3) a(3) by blast
      then show ?thesis using False a(1) slots_at_inside [OF a(2)] by (auto simp: slot_new_def slot_size_def)
    qed
  qed
qed

text \<open>C38: a slot size that does not divide the page is unsound.  \<open>Slab::new\<close> accepts every slot size from 8 to the page size,
  but cuts the page into one slot more than \<open>capacity\<close> says, and that slot reaches beyond the end of the frame; it is the first that
  \<open>alloc\<close> returns.\<close>

theorem slab_overruns_page:
  assumes "8 \<le> sz" "sz \<le> PAGE_SIZE" "\<not> sz dvd PAGE_SIZE" "pa + PAGE_SIZE \<le> 2 ^ 46"
  shows "length (slot_offsets sz) = capacity sz + 1 \<and>
    (\<exists>s m' slot s'. slab_new ap sz (Inr pa) m = Some (Inr s, m') \<and> slab_alloc sz s m' = Some (Inr slot, s') \<and> slot_size slot = sz \<and>
       addr slot + slot_size slot > pa + LINEAR_MAPPING_BASE_VADDR + PAGE_SIZE)"
proof -
  let ?va = "pa + LINEAR_MAPPING_BASE_VADDR"
  define q r where "q = PAGE_SIZE div sz" and "r = PAGE_SIZE mod sz"
  have sz: "0 < sz" using assms(1) by simp
  have r: "0 < r" "r < sz" using assms(3) sz by (auto simp: r_def dvd_eq_mod_eq_0)
  have eq: "PAGE_SIZE = q * sz + r" by (simp add: q_def r_def)
  have "(PAGE_SIZE + sz - 1) div sz = q + 1"
    unfolding eq using r sz by (intro div_nat_eqI) (auto simp: algebra_simps)
  then have off: "slot_offsets sz = map (\<lambda>i. i * sz) [0..<q] @ [q * sz]" by (simp add: slot_offsets_def)
  have q: "q * sz < PAGE_SIZE" "PAGE_SIZE < q * sz + sz" using eq r by linarith+
  have va: "paddr_to_vaddr pa = Some ?va" "0 < ?va" "?va + PAGE_SIZE \<le> USIZE_MAX"
    using assms(4) linear_base by (auto simp: paddr_to_vaddr_def uadd_def)
  have d: "distinct (slot_offsets sz)" using sz by (auto simp: slot_offsets_def distinct_map inj_on_def)
  have le: "x \<le> q * sz" if "x \<in> set (slot_offsets sz)" for x using that by (auto simp: off)
  then have b: "\<forall>x \<in> set (slot_offsets sz). ?va + x \<le> USIZE_MAX \<and> ?va + x \<notin> set []" using va(3) q(1) by fastforce
  obtain l m' where p: "push_slots ap sz ?va (slot_offsets sz) slot_list_new m = Some (l, m')"
    "chain m' (head l) (rev (map ((+) ?va) (slot_offsets sz)))"
    using push_slots_ok [of m slot_list_new "[]" ?va sz "slot_offsets sz" ap, OF _ va(2) assms(1) d b] by (auto simp: slot_list_new_def)
  have "q \<le> PAGE_SIZE div 8" unfolding q_def using assms(1) by (intro div_le_mono2) auto
  then have cap: "q \<le> 512" by (simp add: PAGE_SIZE_def)
  then have new: "slab_new ap sz (Inr pa) m = Some (Inr \<lparr>slab_paddr = pa, free_list = l, nr_allocated = 0\<rparr>, m')"
    using p(1) va(1) assms(1,2) by (simp add: slab_new_def flip: q_def)
  have "\<exists>s'. slab_alloc sz \<lparr>slab_paddr = pa, free_list = l, nr_allocated = 0\<rparr> m' = Some (Inr (slot_new (?va + q * sz) (SlabSlot sz)), s')"
    using pop_ok [OF p(2), of sz] by (simp add: slab_alloc_def off)
  moreover have "length (slot_offsets sz) = capacity sz + 1" using cap by (simp add: off capacity_def flip: q_def)
  ultimately show ?thesis using new q(2) by (fastforce simp: slot_new_def slot_size_def)
qed

theorem slab_overruns_page_witness:
  "length (slot_offsets 24) = capacity 24 + 1 \<and>
    (\<exists>s m' slot s'. slab_new True 24 (Inr 0x1000) (\<lambda>a. 0) = Some (Inr s, m') \<and> slab_alloc 24 s m' = Some (Inr slot, s') \<and>
       addr slot + slot_size slot > 0x1000 + LINEAR_MAPPING_BASE_VADDR + PAGE_SIZE)"
  using slab_overruns_page [of 24 "0x1000" True "\<lambda>a. 0"] by (force simp: PAGE_SIZE_def)

theorem slab_slots_exclusive_witness:
  "\<exists>s m owned. slab_run True 1024 0x1000 s m owned \<and> nr_allocated s = 1 \<and> card owned = 1 \<and> capacity 1024 = 4 \<and>
     (\<exists>slot s'. slab_alloc 1024 s m = Some (Inr slot, s') \<and> (\<forall>b \<in> owned. addr slot + 1024 \<le> b \<or> b + 1024 \<le> addr slot))"
proof -
  have p: "slab_params 1024 0x1000" by (simp add: slab_params_def PAGE_SIZE_def)
  obtain s m where n: "slab_new True 1024 (Inr 0x1000) (\<lambda>a. 0) = Some (Inr s, m)" using slab_new_ok [OF p] by blast
  have r0: "slab_run True 1024 0x1000 s m {}" by (rule slab_run.new [OF n])
  have c: "capacity 1024 = 4" by (simp add: capacity_def PAGE_SIZE_def)
  obtain slot s1 where a: "slab_alloc 1024 s m = Some (Inr slot, s1)" using slab_slots_exclusive [OF r0 p] c by auto
  have r1: "slab_run True 1024 0x1000 s1 m {addr slot}" using slab_run.alloc [OF r0 a] by simp
  show ?thesis using slab_slots_exclusive [OF r1 p] r1 c by (intro exI [of _ s1] exI [of _ m] exI [of _ "{addr slot}"]) auto
qed

text \<open>What the global allocator returns fits, and goes back as it came.  A pointer that \<open>alloc\<close> returns is null, or is
  aligned to the layout and has at least its size, by the slot that the heap gave; when the slot has the type that the slot map names
  for the layout, \<open>dealloc\<close> of that pointer with that layout gives the heap exactly that slot back.\<close>

lemma dispatch_roundtrip:
  assumes "dispatch_alloc slot_map heap_alloc h layout = Some (ptr, h1)" "ptr \<noteq> 0"
  shows "\<exists>slot. heap_alloc h layout = (Inr slot, h1) \<and> ptr = addr slot \<and> lay_size layout \<le> slot_size slot \<and> ptr mod lay_align layout = 0 \<and>
    (slot_map layout = Some (slot_info slot) \<longrightarrow>
       dispatch_dealloc slot_map heap_dealloc h2 ptr layout = (case heap_dealloc h2 slot of (Inl _, h3) \<Rightarrow> None | (Inr _, h3) \<Rightarrow> Some h3))"
proof -
  obtain slot where "heap_alloc h layout = (Inr slot, h1)" "ptr = addr slot" "lay_size layout \<le> slot_size slot" "ptr mod lay_align layout = 0"
    using assms by (cases "heap_alloc h layout"; cases "fst (heap_alloc h layout)"; cases "slot_map layout")
      (auto simp: dispatch_alloc_def not_less split: if_splits)
  moreover have "slot_new ptr (slot_info slot) = slot" using \<open>ptr = addr slot\<close> by (simp add: slot_new_def)
  ultimately show ?thesis
    by (intro exI [of _ slot]) (auto simp: dispatch_dealloc_def split: prod.splits sum.splits)
qed

text \<open>A large slot goes back to the segment it came from.\<close>

lemma large_slot_roundtrip:
  assumes "alloc (n div PAGE_SIZE) = Inr seg" "n mod PAGE_SIZE = 0" "seg_end seg = seg_start seg + n" "PAGE_SIZE dvd seg_start seg"
    "seg_end seg \<le> 2 ^ 46"
  shows "\<exists>slot. alloc_large ap alloc n = Some (Inr slot) \<and> slot_size slot = n \<and> dealloc_large ap slot = Some (Some seg)"
proof -
  have va: "paddr_to_vaddr (seg_start seg) = Some (seg_start seg + LINEAR_MAPPING_BASE_VADDR)"
    using assms(3,5) linear_base by (simp add: paddr_to_vaddr_def uadd_def)
  then have "alloc_large ap alloc n = Some (Inr (slot_new (seg_start seg + LINEAR_MAPPING_BASE_VADDR) (LargeSlot n)))"
    using assms(1,2) linear_base(1) by (simp add: alloc_large_def segment_into_raw_def)
  moreover have "dealloc_large ap (slot_new (seg_start seg + LINEAR_MAPPING_BASE_VADDR) (LargeSlot n)) = Some (Some seg)"
    using assms(2-5) linear_base by (simp add: dealloc_large_def slot_paddr_def slot_new_def usub_def uadd_def segment_from_raw_def)
  ultimately show ?thesis by (auto simp: slot_new_def slot_size_def)
qed

end
