(* ===== verification/Boot_Pt.thy ===== *)
theory Boot_Pt
  imports Page_Prop
begin

text \<open>
  The boot page table, \<open>src/ostd/src/mm/page_table/boot_pt.rs\<close>: the page table that the loader left, changed in place without locks
  before the frame allocator exists.  Memory is the contents of every frame seen as a table of entries; a frame is named by its number.

  \<open>alloc_child\<close> and \<open>dfs_walk_on_leave\<close> are \<open>unimplemented!()\<close> in the sources, and so are arguments: the first with the behaviour that
  its commented body describes (a fresh zeroed frame) as the locale \<open>boot_alloc\<close>.  The cargo feature \<open>allow_panic\<close> is the boolean \<open>ap\<close>:
  without it the functions return where they would panic.
\<close>

section \<open>The code\<close>

type_synonym FrameNumber = nat
type_synonym 'e bmem = "FrameNumber \<Rightarrow> nat \<Rightarrow> 'e"
type_synonym ('e, 's) child_alloc = "'s \<Rightarrow> 'e bmem \<Rightarrow> ('e \<times> 's \<times> 'e bmem) option"

record BootPageTable =
  root_pt :: FrameNumber

definition bwrite :: "'e bmem \<Rightarrow> FrameNumber \<Rightarrow> nat \<Rightarrow> 'e \<Rightarrow> 'e bmem" where
  "bwrite m f i e = m(f := (m f)(i := e))"

text \<open>The index behind \<open>pte_ptr\<close>, with the arithmetic of the address of the table.\<close>

definition pte_ptr :: "PagingConsts \<Rightarrow> FrameNumber \<Rightarrow> Vaddr \<Rightarrow> nat \<Rightarrow> nat option" where
  "pte_ptr C pt va level = do {
     index \<leftarrow> pte_index C va level;
     pa \<leftarrow> umul pt (BASE_PAGE_SIZE C);
     _ \<leftarrow> paddr_to_vaddr pa;
     Some index }"

definition root_address :: "PagingConsts \<Rightarrow> BootPageTable \<Rightarrow> Paddr option" where
  "root_address C self = umul (root_pt self) (BASE_PAGE_SIZE C)"

text \<open>The closure of \<open>from_current_pt\<close>: the new flags are computed and dropped.\<close>

definition mark_firmware :: "'e pte_ops \<Rightarrow> 'e \<Rightarrow> 'e option" where
  "mark_firmware E pte = do {
     prop \<leftarrow> pte_prop E pte;
     let flags' = flags prop OR PF_AVAIL1;
     set_prop E pte prop }"

definition from_current_pt ::
    "'e pte_ops \<Rightarrow> PagingConsts \<Rightarrow> (FrameNumber \<Rightarrow> nat \<Rightarrow> ('e \<Rightarrow> 'e option) \<Rightarrow> 'e bmem \<Rightarrow> 'e bmem option) \<Rightarrow> Paddr \<Rightarrow> 'e bmem \<Rightarrow>
     (BootPageTable \<times> 'e bmem) option" where
  "from_current_pt E C dfs_walk_on_leave current_paddr m = do {
     let root = current_paddr div BASE_PAGE_SIZE C;
     m' \<leftarrow> dfs_walk_on_leave root (PC_NR_LEVELS C) (mark_firmware E) m;
     Some (\<lparr>root_pt = root\<rparr>, m') }"

text \<open>\<open>with_borrow\<close> works on a copy of the static \<open>BOOT_PAGE_TABLE\<close>; \<open>'m\<close> is the rest of the machine.\<close>

definition with_borrow ::
    "('m \<Rightarrow> (BootPageTable \<times> 'm) option) \<Rightarrow> bool \<Rightarrow> (BootPageTable \<Rightarrow> 'm \<Rightarrow> ('r \<times> BootPageTable \<times> 'm) option) \<Rightarrow>
     BootPageTable option \<times> 'm \<Rightarrow> ((unit + 'r) \<times> BootPageTable option \<times> 'm) option" where
  "with_borrow init is_dismissed f st = (case st of (static, m) \<Rightarrow>
     if is_dismissed then Some (Inl (), static, m)
     else do {
       (boot_pt, m1) \<leftarrow> (case static of None \<Rightarrow> init m | Some b \<Rightarrow> Some (b, m));
       (r, boot_pt', m2) \<leftarrow> f boot_pt m1;
       Some (Inr r, static, m2) })"

text \<open>The loop of \<open>map_base_page\<close>: the level-1 table, or \<open>None\<close> for the early return.\<close>

fun map_walk ::
    "'e pte_ops \<Rightarrow> PagingConsts \<Rightarrow> ('e, 's) child_alloc \<Rightarrow> bool \<Rightarrow> Vaddr \<Rightarrow> nat \<Rightarrow> FrameNumber \<Rightarrow> 's \<Rightarrow> 'e bmem \<Rightarrow>
     (FrameNumber option \<times> 's \<times> 'e bmem) option" where
  "map_walk E C alloc ap from level pt s m = (
     if level > 1 then do {
       index \<leftarrow> pte_ptr C pt from level;
       let pte = m pt index;
       if \<not> is_present E pte then do {
         (pte', s', m') \<leftarrow> alloc s m;
         map_walk E C alloc ap from (level - 1) (pte_paddr E pte' div BASE_PAGE_SIZE C) s' (bwrite m' pt index pte') }
       else if is_last E pte level then (if ap then None else Some (None, s, m))
       else map_walk E C alloc ap from (level - 1) (pte_paddr E pte div BASE_PAGE_SIZE C) s m }
     else Some (Some pt, s, m))"

declare map_walk.simps [simp del]

definition map_base_page ::
    "'e pte_ops \<Rightarrow> PagingConsts \<Rightarrow> ('e, 's) child_alloc \<Rightarrow> bool \<Rightarrow> BootPageTable \<Rightarrow> Vaddr \<Rightarrow> FrameNumber \<Rightarrow> PageProperty \<Rightarrow>
     's \<Rightarrow> 'e bmem \<Rightarrow> ('s \<times> 'e bmem) option" where
  "map_base_page E C alloc ap self from to prop s m = do {
     (r, s', m') \<leftarrow> map_walk E C alloc ap from (PC_NR_LEVELS C) (root_pt self) s m;
     case r of
       None \<Rightarrow> Some (s', m')
     | Some pt \<Rightarrow> do {
         index \<leftarrow> pte_ptr C pt from 1;
         if is_present E (m' pt index) then (if ap then None else Some (s', m'))
         else do {
           pa \<leftarrow> umul to (BASE_PAGE_SIZE C);
           pte \<leftarrow> new_page E pa 1 prop;
           Some (s', bwrite m' pt index pte) } } }"

text \<open>The loop of \<open>protect_base_page\<close> that fills the table of a split huge page, and the loop around it.\<close>

fun split_loop :: "'e pte_ops \<Rightarrow> PagingConsts \<Rightarrow> 'e \<Rightarrow> nat \<Rightarrow> Paddr \<Rightarrow> nat list \<Rightarrow> 'e bmem \<Rightarrow> 'e bmem option" where
  "split_loop E C pte level child_frame_pa [] m = Some m"
| "split_loop E C pte level child_frame_pa (i # is) m = do {
     _ \<leftarrow> paddr_to_vaddr child_frame_pa;
     off \<leftarrow> umul i (BASE_PAGE_SIZE C);
     pa \<leftarrow> uadd (pte_paddr E pte) off;
     prop \<leftarrow> pte_prop E pte;
     e \<leftarrow> new_page E pa (level - 1) prop;
     split_loop E C pte level child_frame_pa is (bwrite m (child_frame_pa div BASE_PAGE_SIZE C) i e) }"

fun protect_walk ::
    "'e pte_ops \<Rightarrow> PagingConsts \<Rightarrow> ('e, 's) child_alloc \<Rightarrow> bool \<Rightarrow> Vaddr \<Rightarrow> nat \<Rightarrow> FrameNumber \<Rightarrow> 's \<Rightarrow> 'e bmem \<Rightarrow>
     (FrameNumber option \<times> 's \<times> 'e bmem) option" where
  "protect_walk E C alloc ap virt_addr level pt s m = (
     if level > 1 then do {
       index \<leftarrow> pte_ptr C pt virt_addr level;
       let pte = m pt index;
       if \<not> is_present E pte then (if ap then None else Some (None, s, m))
       else if is_last E pte level then do {
         (child_pte, s', m') \<leftarrow> alloc s m;
         let child_frame_pa = pte_paddr E child_pte;
         nr \<leftarrow> nr_subpage_per_huge C;
         m'' \<leftarrow> split_loop E C pte level child_frame_pa [0..<nr] m';
         protect_walk E C alloc ap virt_addr (level - 1) (child_frame_pa div BASE_PAGE_SIZE C) s'
           (bwrite m'' pt index (new_pt E child_frame_pa)) }
       else protect_walk E C alloc ap virt_addr (level - 1) (pte_paddr E pte div BASE_PAGE_SIZE C) s m }
     else Some (Some pt, s, m))"

declare protect_walk.simps [simp del]

definition protect_base_page ::
    "'e pte_ops \<Rightarrow> PagingConsts \<Rightarrow> ('e, 's) child_alloc \<Rightarrow> bool \<Rightarrow> BootPageTable \<Rightarrow> Vaddr \<Rightarrow> (PageProperty \<Rightarrow> PageProperty) \<Rightarrow>
     's \<Rightarrow> 'e bmem \<Rightarrow> ('s \<times> 'e bmem) option" where
  "protect_base_page E C alloc ap self virt_addr op s m = do {
     (r, s', m') \<leftarrow> protect_walk E C alloc ap virt_addr (PC_NR_LEVELS C) (root_pt self) s m;
     case r of
       None \<Rightarrow> Some (s', m')
     | Some pt \<Rightarrow> do {
         index \<leftarrow> pte_ptr C pt virt_addr 1;
         let pte = m' pt index;
         if \<not> is_present E pte then (if ap then None else Some (s', m'))
         else do {
           prop \<leftarrow> pte_prop E pte;
           e \<leftarrow> new_page E (pte_paddr E pte) 1 (op prop);
           Some (s', bwrite m' pt index e) } } }"

section \<open>What the hardware sees\<close>

definition bidx :: "Vaddr \<Rightarrow> nat \<Rightarrow> nat" where
  "bidx va l = va div 2 ^ (12 + 9 * (l - 1)) mod 512"

text \<open>The translation of an address from a table at a level on, and the entries that are read on the way.\<close>

fun bwalk :: "'e pte_ops \<Rightarrow> 'e bmem \<Rightarrow> FrameNumber \<Rightarrow> Vaddr \<Rightarrow> nat \<Rightarrow> (Paddr \<times> PageProperty) option" where
  "bwalk E m f va 0 = None"
| "bwalk E m f va (Suc l) = (
     let e = m f (bidx va (Suc l)) in
     if \<not> is_present E e then None
     else if l = 0 \<or> is_last E e (Suc l) then map_option (\<lambda>q. (pte_paddr E e + va mod 2 ^ (12 + 9 * l), q)) (pte_prop E e)
     else bwalk E m (pte_paddr E e div 4096) va l)"

fun cells :: "'e pte_ops \<Rightarrow> 'e bmem \<Rightarrow> FrameNumber \<Rightarrow> Vaddr \<Rightarrow> nat \<Rightarrow> (FrameNumber \<times> nat) list" where
  "cells E m f va 0 = []"
| "cells E m f va (Suc l) = (f, bidx va (Suc l)) # (
     let e = m f (bidx va (Suc l)) in
     if is_present E e \<and> l \<noteq> 0 \<and> \<not> is_last E e (Suc l) then cells E m (pte_paddr E e div 4096) va l else [])"

abbreviation btrans :: "'e pte_ops \<Rightarrow> 'e bmem \<Rightarrow> FrameNumber \<Rightarrow> Vaddr \<Rightarrow> (Paddr \<times> PageProperty) option" where
  "btrans E m root va \<equiv> bwalk E m root va 4"

abbreviation bcells :: "'e pte_ops \<Rightarrow> 'e bmem \<Rightarrow> FrameNumber \<Rightarrow> Vaddr \<Rightarrow> (FrameNumber \<times> nat) list" where
  "bcells E m root va \<equiv> cells E m root va 4"

text \<open>The part of an address that selects the entry at position \<open>p\<close> of a walk.\<close>

definition vkey :: "Vaddr \<Rightarrow> nat \<Rightarrow> nat" where
  "vkey va p = va mod 2 ^ 48 div 2 ^ (12 + 9 * (3 - p))"

text \<open>The tables form a tree: an entry is read at one level and for one part of the address space only.\<close>

definition boot_tree :: "'e pte_ops \<Rightarrow> 'e bmem \<Rightarrow> FrameNumber \<Rightarrow> bool" where
  "boot_tree E m root \<longleftrightarrow> (\<forall>va va' p q. p < length (bcells E m root va) \<longrightarrow> q < length (bcells E m root va') \<longrightarrow>
     bcells E m root va ! p = bcells E m root va' ! q \<longrightarrow> p = q \<and> vkey va p = vkey va' p)"

definition boot_ok :: "'e pte_ops \<Rightarrow> FrameNumber set \<Rightarrow> 'e bmem \<Rightarrow> FrameNumber \<Rightarrow> bool" where
  "boot_ok E fr m root \<longleftrightarrow> boot_tree E m root \<and> (\<forall>va. \<forall>(f, i) \<in> set (bcells E m root va). f \<notin> fr \<and> f < 2 ^ 34)"

section \<open>The contract of the allocation\<close>

locale boot_alloc = pte_laws E valid_paddr valid_prop
  for E :: "'e pte_ops" and valid_paddr :: "Paddr \<Rightarrow> bool" and valid_prop :: "PageProperty \<Rightarrow> bool" +
  fixes alloc :: "('e, 's) child_alloc"
    and avail :: "'s \<Rightarrow> nat"
    and free :: "'s \<Rightarrow> FrameNumber set"
  assumes alloc_law: "0 < avail s \<Longrightarrow> \<exists>f s'. alloc s m = Some (new_pt E (f * 4096), s', m(f := (\<lambda>i. new_absent E))) \<and> f \<in> free s \<and>
      free s' \<subseteq> free s - {f} \<and> avail s \<le> Suc (avail s')"
    and free_law: "f \<in> free s \<Longrightarrow> valid_paddr (f * 4096) \<and> f < 2 ^ 34"

section \<open>Walks and single writes\<close>

lemma bidx_lt: "bidx va l < 512"
  by (simp add: bidx_def)

lemma pte_ptr_x86: "1 \<le> l \<Longrightarrow> l \<le> 4 \<Longrightarrow> pt < 2 ^ 34 \<Longrightarrow> pte_ptr x86_paging pt va l = Some (bidx va l)"
  by (simp add: pte_ptr_def x86.pte_index_eq bidx_def level_bytes_def umul_def paddr_to_vaddr_def uadd_def USIZE_MAX_def
      LINEAR_MAPPING_BASE_VADDR_def)

lemma x86_sizes: "BASE_PAGE_SIZE x86_paging = 4096" "PC_NR_LEVELS x86_paging = 4"
  by (simp_all add: x86_paging_def)

lemma bwalk_1: "bwalk E m f va 1 = (if is_present E (m f (bidx va 1))
    then map_option (\<lambda>q. (pte_paddr E (m f (bidx va 1)) + va mod 4096, q)) (pte_prop E (m f (bidx va 1))) else None)"
  by (simp add: Let_def)

lemma cells_nonempty [simp]: "0 < l \<Longrightarrow> cells E m f va l \<noteq> []"
  by (cases l) auto

lemma cells_length: "length (cells E m f va l) \<le> l"
  by (induction l arbitrary: f) (auto simp: Let_def)

lemma cells_frame:
  "(g, i) \<notin> set (cells E m f va l) \<Longrightarrow> cells E (bwrite m g i e) f va l = cells E m f va l \<and> bwalk E (bwrite m g i e) f va l = bwalk E m f va l"
  by (induction l arbitrary: f) (auto simp: Let_def bwrite_def split: if_splits)

lemma cells_fresh:
  "g \<notin> fst ` set (cells E m f va l) \<Longrightarrow> cells E (m(g := t)) f va l = cells E m f va l \<and> bwalk E (m(g := t)) f va l = bwalk E m f va l"
  by (induction l arbitrary: f) (auto simp: Let_def split: if_splits)

text \<open>A walk that passes an entry goes on from its table.\<close>

lemma cells_split:
  assumes "cells E m f va l = xs @ (g, i) # ys"
  shows "i = bidx va (l - length xs) \<and> length xs < l \<and> cells E m f va l = xs @ cells E m g va (l - length xs) \<and>
    bwalk E m f va l = bwalk E m g va (l - length xs)"
  using assms
proof (induction xs arbitrary: f l)
  case Nil
  then obtain k where "l = Suc k" by (cases l) auto
  then show ?case using Nil by (auto simp: Let_def)
next
  case (Cons x xs)
  then obtain k where k: "l = Suc k" by (cases l) auto
  let ?e = "m f (bidx va l)"
  have c: "is_present E ?e \<and> k \<noteq> 0 \<and> \<not> is_last E ?e l" "cells E m (pte_paddr E ?e div 4096) va k = xs @ (g, i) # ys" "x = (f, bidx va l)"
    using Cons.prems k by (auto simp: Let_def split: if_splits)
  then show ?case using Cons.IH [OF c(2)] k by (auto simp: Let_def)
qed

lemma cells_upto:
  assumes "cells E m f va l = xs @ (g, i) # ys" "\<forall>(f', i') \<in> set xs. m' f' i' = m f' i'"
  shows "cells E m' f va l = xs @ cells E m' g va (l - length xs) \<and> bwalk E m' f va l = bwalk E m' g va (l - length xs)"
  using assms
proof (induction xs arbitrary: f l)
  case Nil
  then obtain k where "l = Suc k" by (cases l) auto
  then show ?case using Nil by (auto simp: Let_def)
next
  case (Cons x xs)
  then obtain k where k: "l = Suc k" by (cases l) auto
  let ?e = "m f (bidx va l)"
  have c: "is_present E ?e \<and> k \<noteq> 0 \<and> \<not> is_last E ?e l" "cells E m (pte_paddr E ?e div 4096) va k = xs @ (g, i) # ys" "x = (f, bidx va l)"
    using Cons.prems(1) k by (auto simp: Let_def split: if_splits)
  moreover have "m' f (bidx va l) = ?e" using Cons.prems(2) c(3) by auto
  ultimately show ?case using Cons.IH [OF c(2)] Cons.prems(2) k by (auto simp: Let_def)
qed

text \<open>Addresses with the same key have the same entries up to that position.\<close>

lemma vkey_idx:
  assumes "vkey va p = vkey va' p" "q \<le> p" "p \<le> 3"
  shows "bidx va (4 - q) = bidx va' (4 - q)" "vkey va q = vkey va' q"
proof -
  have e: "vkey va q = vkey va p div 2 ^ (9 * (p - q))" for va
  proof -
    have "12 + 9 * (3 - q) = 12 + 9 * (3 - p) + 9 * (p - q)" using assms(2,3) by simp
    then show ?thesis unfolding vkey_def by (simp only: power_add div_mult2_eq)
  qed
  then show k: "vkey va q = vkey va' q" using assms(1) by simp
  have "bidx va (4 - q) = vkey va q mod 512" for va
  proof -
    let ?a = "12 + 9 * (3 - q)"
    have q: "4 - q - 1 = 3 - q" by simp
    have "take_bit 9 (drop_bit ?a (take_bit 48 va)) = take_bit 9 (drop_bit ?a va)"
    proof -
      have "9 \<le> 48 - ?a" by linarith
      show ?thesis unfolding drop_bit_take_bit take_bit_take_bit min_absorb1 [OF \<open>9 \<le> 48 - ?a\<close>] ..
    qed
    then show ?thesis unfolding bidx_def vkey_def q by (simp add: take_bit_eq_mod drop_bit_eq_div)
  qed
  then show "bidx va (4 - q) = bidx va' (4 - q)" using k by simp
qed

lemma cells_same_key:
  assumes "vkey va p = vkey va' p" "p < length (bcells E m root va)"
  shows "take (Suc p) (bcells E m root va') = take (Suc p) (bcells E m root va)"
proof -
  have p: "p \<le> 3" using assms(2) cells_length [of E m root va 4] by simp
  have "take (Suc q) (cells E m f va' l) = take (Suc q) (cells E m f va l)"
    if "l = 4 - d" "d + q \<le> p" for q d f l
    using that
  proof (induction q arbitrary: d f l)
    case 0
    have l: "l = Suc (3 - d)" using 0 p by linarith
    have "bidx va' l = bidx va l" using vkey_idx(1) [OF assms(1), of d] 0 p by simp
    then show ?case unfolding l by simp
  next
    case (Suc q)
    obtain k where k: "l = Suc k" "k = 4 - Suc d" using Suc.prems p that [of "3 - d"] by linarith
    have i: "bidx va' l = bidx va l" using vkey_idx(1) [OF assms(1), of d] Suc.prems p by simp
    show ?case using Suc.IH [OF k(2)] Suc.prems(2) unfolding k(1) by (simp add: Let_def i [unfolded k(1)])
  qed
  from this [of 4 0 p root] show ?thesis by simp
qed

lemma same_key_cell:
  assumes "bcells E m root va = xs @ c # ys" "vkey va' (length xs) = vkey va (length xs)"
  shows "c \<in> set (bcells E m root va')"
proof -
  have "take (Suc (length xs)) (bcells E m root va') = take (Suc (length xs)) (bcells E m root va)"
    by (rule cells_same_key [OF assms(2) [symmetric]]) (simp add: assms(1))
  then have "c \<in> set (take (Suc (length xs)) (bcells E m root va'))" using assms(1) by simp
  then show ?thesis by (rule in_set_takeD)
qed

lemma boot_treeD:
  assumes "boot_tree E m root" "p < length (bcells E m root va)" "q < length (bcells E m root va')"
    "bcells E m root va ! p = bcells E m root va' ! q"
  shows "p = q" "vkey va p = vkey va' p"
  using assms unfolding boot_tree_def by blast+

lemma split_at: "j < length zs \<Longrightarrow> zs = take j zs @ zs ! j # drop (Suc j) zs"
  by (rule id_take_nth_drop)

lemma tree_same:
  assumes "boot_tree E m root" "bcells E m root va = xs @ c # ys" "c \<in> set (bcells E m root va')"
  shows "c \<notin> set xs" "\<exists>ys'. bcells E m root va' = xs @ c # ys'" "vkey va (length xs) = vkey va' (length xs)"
proof -
  let ?a = "bcells E m root va" and ?b = "bcells E m root va'" and ?p = "length xs"
  have p: "?p < length ?a" "?a ! ?p = c" unfolding assms(2) by simp_all
  obtain q where q: "q < length ?b" "?b ! q = c" using assms(3) unfolding in_set_conv_nth by blast
  have k: "?p = q" "vkey va ?p = vkey va' ?p" using boot_treeD [OF assms(1) p(1) q(1)] p(2) q(2) by simp_all
  show "vkey va ?p = vkey va' ?p" by (rule k(2))
  show "c \<notin> set xs"
  proof
    assume "c \<in> set xs"
    then obtain j where j: "j < ?p" "xs ! j = c" unfolding in_set_conv_nth by blast
    then have "?a ! j = c" "j < length ?a" unfolding assms(2) by (simp_all add: nth_append)
    from boot_treeD(1) [OF assms(1) this(2) p(1)] this(1) p(2) j(1) show False by simp
  qed
  have "take ?p (take (Suc ?p) ?b) = take ?p (take (Suc ?p) ?a)" by (simp only: cells_same_key [OF k(2) p(1)])
  then have "take ?p ?b = xs" unfolding take_take by (simp add: assms(2))
  then show "\<exists>ys'. ?b = xs @ c # ys'" using split_at [OF q(1)] q(2) k(1) by metis
qed

lemma vkey_Suc: "p < 3 \<Longrightarrow> vkey va (Suc p) = vkey va p * 512 + bidx va (3 - p)"
proof -
  assume p: "p < 3"
  let ?a = "12 + 9 * (3 - Suc p)"
  let ?v = "va mod 2 ^ 48"
  have a: "12 + 9 * (3 - p) = ?a + 9" using p by linarith
  have i: "bidx va (3 - p) = ?v div 2 ^ ?a mod 512"
  proof -
    have q: "3 - p - 1 = 3 - Suc p" by simp
    have "9 \<le> 48 - ?a" by linarith
    have "take_bit 9 (drop_bit ?a (take_bit 48 va)) = take_bit 9 (drop_bit ?a va)"
      unfolding drop_bit_take_bit take_bit_take_bit min_absorb1 [OF \<open>9 \<le> 48 - ?a\<close>] ..
    then show ?thesis unfolding bidx_def q by (simp add: take_bit_eq_mod drop_bit_eq_div)
  qed
  have "?v div 2 ^ (?a + 9) = ?v div 2 ^ ?a div 512" by (simp only: power_add div_mult2_eq) simp
  then show "vkey va (Suc p) = vkey va p * 512 + bidx va (3 - p)" unfolding vkey_def a i by simp
qed

text \<open>A new table below the last entry of a walk: the walks that ended there go one entry further, all others stay.\<close>

definition extends ::
    "'e pte_ops \<Rightarrow> 'e bmem \<Rightarrow> FrameNumber \<Rightarrow> Vaddr \<Rightarrow> (FrameNumber \<times> nat) list \<Rightarrow> FrameNumber \<times> nat \<Rightarrow> FrameNumber \<Rightarrow> (nat \<Rightarrow> 'e) \<Rightarrow> 'e \<Rightarrow> bool" where
  "extends E m root va xs c f t e \<longleftrightarrow> boot_tree E m root \<and> bcells E m root va = xs @ [c] \<and> length xs < 3 \<and>
     (\<forall>va'. f \<notin> fst ` set (bcells E m root va')) \<and>
     (is_present E e \<and> pte_paddr E e div 4096 = f \<and> (\<forall>l > 1. \<not> is_last E e l)) \<and>
     (\<forall>j. \<not> is_present E (t j) \<or> is_last E (t j) (3 - length xs))"

lemma extends_other:
  assumes "extends E m root va xs (g, i) f t e" "(g, i) \<notin> set (bcells E m root va')"
  shows "bcells E (bwrite (m(f := t)) g i e) root va' = bcells E m root va'"
    "btrans E (bwrite (m(f := t)) g i e) root va' = btrans E m root va'"
proof -
  have "f \<notin> fst ` set (bcells E m root va')" using assms(1) unfolding extends_def by blast
  note fr = cells_fresh [OF this, of t]
  have "(g, i) \<notin> set (bcells E (m(f := t)) root va')" using assms(2) fr by simp
  note cells_frame [OF this, of e]
  with fr show "bcells E (bwrite (m(f := t)) g i e) root va' = bcells E m root va'"
    "btrans E (bwrite (m(f := t)) g i e) root va' = btrans E m root va'" by simp_all
qed

lemma extends_below:
  assumes x: "extends E m root va xs (g, i) f t e" and c: "(g, i) \<in> set (bcells E m root va')"
  defines "m2 \<equiv> bwrite (m(f := t)) g i e"
  shows "bcells E m root va' = xs @ [(g, i)]" "bcells E m2 root va' = xs @ [(g, i), (f, bidx va' (3 - length xs))]"
    "btrans E m root va' = bwalk E m g va' (4 - length xs)" "btrans E m2 root va' = bwalk E m2 f va' (3 - length xs)"
    "vkey va (length xs) = vkey va' (length xs)"
proof -
  note x86E = x [unfolded extends_def]
  have path: "bcells E m root va = xs @ (g, i) # []" and tree: "boot_tree E m root" and p: "length xs < 3" using x86E by simp_all
  have l: "4 - length xs = Suc (3 - length xs)" "0 < 3 - length xs" using p by linarith+
  obtain k where k: "3 - length xs = Suc k" using l(2) gr0_implies_Suc by blast
  obtain ys' where b: "bcells E m root va' = xs @ (g, i) # ys'" using tree_same(2) [OF tree path c] by blast
  show "vkey va (length xs) = vkey va' (length xs)" by (rule tree_same(3) [OF tree path c])
  note sp = cells_split [OF b] and sp0 = cells_split [OF path]
  show "btrans E m root va' = bwalk E m g va' (4 - length xs)" using sp by blast
  have i: "i = bidx va' (Suc (3 - length xs))" "i = bidx va (Suc (3 - length xs))" using sp sp0 l(1) by simp_all
  have "cells E m g va (Suc (3 - length xs)) = [(g, i)]" using sp0 path l(1) by simp
  then have stop: "\<not> (is_present E (m g i) \<and> \<not> is_last E (m g i) (Suc (3 - length xs)))"
    using l(2) i(2) unfolding k by (auto simp: Let_def split: if_splits)
  then have "cells E m g va' (4 - length xs) = [(g, i)]" unfolding l(1) using i(1) by (auto simp: Let_def)
  then show bc: "bcells E m root va' = xs @ [(g, i)]" using sp by simp
  have fr: "f \<notin> fst ` set (bcells E m root va')" using x86E by blast
  have same: "\<forall>(f', i') \<in> set xs. m2 f' i' = m f' i'"
    using fr tree_same(1) [OF tree path c] unfolding bc m2_def bwrite_def by force
  have gf: "g \<noteq> f" using fr unfolding bc by force
  have tj: "m2 f j = t j" for j unfolding m2_def bwrite_def using gf by simp
  have e: "m2 g i = e" unfolding m2_def bwrite_def by simp
  note up = cells_upto [OF b same]
  have E: "is_present E e" "pte_paddr E e div 4096 = f" "\<not> is_last E e (Suc (3 - length xs))" using x86E l(2) by simp_all
  have "cells E m2 f va' (3 - length xs) = [(f, bidx va' (3 - length xs))]"
    using x86E unfolding k by (auto simp: Let_def tj)
  moreover have "cells E m2 g va' (4 - length xs) = (g, i) # cells E m2 f va' (3 - length xs)"
    unfolding l(1) using E l(2) by (simp add: Let_def i(1) [symmetric] e)
  ultimately show "bcells E m2 root va' = xs @ [(g, i), (f, bidx va' (3 - length xs))]" using up by simp
  have "bwalk E m2 g va' (4 - length xs) = bwalk E m2 f va' (3 - length xs)"
    unfolding l(1) using E l(2) by (simp add: Let_def i(1) [symmetric] e)
  then show "btrans E m2 root va' = bwalk E m2 f va' (3 - length xs)" using up by simp
qed

text \<open>Every entry of the new walks is an old one at its old position, or the entry of the new table.\<close>

lemma extends_cell:
  assumes x: "extends E m root va xs (g, i) f t e" and p: "p < length (bcells E (bwrite (m(f := t)) g i e) root va')"
  defines "m2 \<equiv> bwrite (m(f := t)) g i e"
  shows "p < length (bcells E m root va') \<and> bcells E m2 root va' ! p = bcells E m root va' ! p \<and> fst (bcells E m2 root va' ! p) \<noteq> f \<or>
    p = Suc (length xs) \<and> bcells E m2 root va' ! p = (f, bidx va' (3 - length xs)) \<and> vkey va (length xs) = vkey va' (length xs)"
proof (cases "(g, i) \<in> set (bcells E m root va')")
  case True
  note b = extends_below [OF x True]
  have fr: "f \<notin> fst ` set (bcells E m root va')" using x unfolding extends_def by blast
  show ?thesis
  proof (cases "p = Suc (length xs)")
    case True
    then show ?thesis using b(2,5) unfolding m2_def by (simp add: nth_append)
  next
    case False
    then have q: "p < length (bcells E m root va')" using p b(1,2) by simp
    then have "bcells E m2 root va' ! p = bcells E m root va' ! p"
      using b(1,2) unfolding m2_def by (simp add: nth_append)
    moreover have "fst (bcells E m root va' ! p) \<noteq> f" using fr q by (metis image_eqI nth_mem)
    ultimately show ?thesis using q by simp
  qed
next
  case False
  note o = extends_other [OF x False]
  have "f \<notin> fst ` set (bcells E m root va')" using x unfolding extends_def by blast
  then have "fst (bcells E m root va' ! p) \<noteq> f" using p o(1) by (metis image_eqI nth_mem)
  then show ?thesis using p o(1) unfolding m2_def by simp
qed

lemma extends_tree:
  assumes x: "extends E m root va xs (g, i) f t e"
  shows "boot_tree E (bwrite (m(f := t)) g i e) root"
proof -
  let ?m = "bwrite (m(f := t)) g i e"
  have tree: "boot_tree E m root" and l: "length xs < 3" using x unfolding extends_def by simp_all
  have "p = q \<and> vkey v p = vkey w p"
    if p: "p < length (bcells E ?m root v)" and q: "q < length (bcells E ?m root w)" and eq: "bcells E ?m root v ! p = bcells E ?m root w ! q" for v w p q
    using extends_cell [OF x p]
  proof (elim disjE conjE)
    assume a: "p < length (bcells E m root v)" "bcells E ?m root v ! p = bcells E m root v ! p" "fst (bcells E ?m root v ! p) \<noteq> f"
    then have "q < length (bcells E m root w)" "bcells E ?m root w ! q = bcells E m root w ! q"
      using extends_cell [OF x q] eq by auto
    then show ?thesis using boot_treeD [OF tree a(1)] a(2) eq by metis
  next
    assume a: "p = Suc (length xs)" "bcells E ?m root v ! p = (f, bidx v (3 - length xs))" "vkey va (length xs) = vkey v (length xs)"
    then have "fst (bcells E ?m root w ! q) = f" using eq by (metis fst_conv)
    then have "q = Suc (length xs)" "bcells E ?m root w ! q = (f, bidx w (3 - length xs))" "vkey va (length xs) = vkey w (length xs)"
      using extends_cell [OF x q] by blast+
    then show ?thesis using a eq vkey_Suc [OF l, of v] vkey_Suc [OF l, of w] by simp
  qed
  then show ?thesis unfolding boot_tree_def by blast
qed

lemma extends_ok:
  assumes x: "extends E m root va xs (g, i) f t e" and "boot_ok E fr m root" "fr' \<subseteq> fr - {f}" "f < 2 ^ 34"
  shows "boot_ok E fr' (bwrite (m(f := t)) g i e) root"
proof -
  let ?m = "bwrite (m(f := t)) g i e"
  have "fst c \<notin> fr' \<and> fst c < 2 ^ 34" if c: "c \<in> set (bcells E ?m root v)" for c v
  proof -
    obtain p where p: "p < length (bcells E ?m root v)" "bcells E ?m root v ! p = c" using c unfolding in_set_conv_nth by blast
    from extends_cell [OF x p(1)] show ?thesis
    proof (elim disjE conjE)
      assume "p < length (bcells E m root v)" "bcells E ?m root v ! p = bcells E m root v ! p"
      then have "c \<in> set (bcells E m root v)" using p(2) by (metis nth_mem)
      then show ?thesis using assms(2,3) unfolding boot_ok_def by fastforce
    next
      assume "bcells E ?m root v ! p = (f, bidx v (3 - length xs))"
      then show ?thesis using p(2) assms(3,4) by auto
    qed
  qed
  then show ?thesis using extends_tree [OF x] unfolding boot_ok_def by fastforce
qed

text \<open>A write to an entry of the last level changes the walks through it at their last step only.\<close>

lemma leaf_cells:
  assumes "boot_tree E m root" "bcells E m root va = xs @ [(g, i)]" "length xs = 3"
  shows "(g, i) \<in> set (bcells E m root va') \<longleftrightarrow> vkey va' 3 = vkey va 3"
    "bcells E (bwrite m g i e) root va' = bcells E m root va'"
    "btrans E (bwrite m g i e) root va' = (if vkey va' 3 = vkey va 3 then bwalk E (bwrite m g i e) g va' 1 else btrans E m root va')"
    "bidx va 1 = i" "vkey va' 3 = vkey va 3 \<Longrightarrow> bidx va' 1 = i \<and> btrans E m root va' = bwalk E m g va' 1"
proof -
  have path: "bcells E m root va = xs @ (g, i) # []" using assms(2) by simp
  have in_iff: "(g, i) \<in> set (bcells E m root va') \<longleftrightarrow> vkey va' 3 = vkey va 3" for va'
  proof
    show "vkey va' 3 = vkey va 3" if "(g, i) \<in> set (bcells E m root va')"
      using tree_same(3) [OF assms(1) path that] assms(3) by simp
    assume "vkey va' 3 = vkey va 3"
    then show "(g, i) \<in> set (bcells E m root va')" using same_key_cell [OF path, of va'] assms(3) by simp
  qed
  then show "(g, i) \<in> set (bcells E m root va') \<longleftrightarrow> vkey va' 3 = vkey va 3" .
  show "bidx va 1 = i" using cells_split [OF path] assms(3) by simp
  show "bidx va' 1 = i \<and> btrans E m root va' = bwalk E m g va' 1" if "vkey va' 3 = vkey va 3"
  proof -
    from that have "(g, i) \<in> set (bcells E m root va')" using in_iff by simp
    from tree_same(2) [OF assms(1) path this] obtain ys' where "bcells E m root va' = xs @ (g, i) # ys'" by blast
    from cells_split [OF this] show ?thesis using assms(3) by simp
  qed
  have both: "bcells E (bwrite m g i e) root va' = bcells E m root va' \<and>
    btrans E (bwrite m g i e) root va' = (if vkey va' 3 = vkey va 3 then bwalk E (bwrite m g i e) g va' 1 else btrans E m root va')"
  proof (cases "(g, i) \<in> set (bcells E m root va')")
    case True
    obtain ys' where b: "bcells E m root va' = xs @ (g, i) # ys'" using tree_same(2) [OF assms(1) path True] by blast
    have "\<forall>(f', i') \<in> set xs. bwrite m g i e f' i' = m f' i'" using tree_same(1) [OF assms(1) path True] unfolding bwrite_def by auto
    from cells_upto [OF b this] cells_split [OF b] True show ?thesis using assms(3) in_iff [of va'] by simp
  next
    case False
    from cells_frame [OF this] in_iff [of va'] False show ?thesis by simp
  qed
  then show "bcells E (bwrite m g i e) root va' = bcells E m root va'"
    "btrans E (bwrite m g i e) root va' = (if vkey va' 3 = vkey va 3 then bwalk E (bwrite m g i e) g va' 1 else btrans E m root va')" by blast+
qed

lemma boot_ok_cells: "(\<And>va. bcells E m' root va = bcells E m root va) \<Longrightarrow> boot_ok E fr m root \<Longrightarrow> boot_ok E fr m' root"
  unfolding boot_ok_def boot_tree_def by simp

section \<open>Mapping a base page\<close>

text \<open>What the loop of \<open>map_base_page\<close> is asked to deliver: a table of the last level on the walk, and no translation changed.\<close>

definition walked ::
    "'e pte_ops \<Rightarrow> FrameNumber set \<Rightarrow> 'e bmem \<Rightarrow> FrameNumber \<Rightarrow> Vaddr \<Rightarrow> FrameNumber \<Rightarrow> 'e bmem \<Rightarrow> bool" where
  "walked E fr m root va pt m' \<longleftrightarrow> boot_ok E fr m' root \<and> (\<exists>xs. length xs = 3 \<and> bcells E m' root va = xs @ [(pt, bidx va 1)]) \<and>
     (\<forall>va'. btrans E m' root va' = btrans E m root va')"

definition huge_leaf :: "'e pte_ops \<Rightarrow> 'e bmem \<Rightarrow> FrameNumber \<Rightarrow> Vaddr \<Rightarrow> bool" where
  "huge_leaf E m root va \<longleftrightarrow> btrans E m root va \<noteq> None \<and> length (bcells E m root va) < 4"

context boot_alloc
begin

lemma alloc_extends:
  assumes ok: "boot_ok E (free s) m root" and path: "bcells E m root va = xs @ [(g, i)]" and l: "length xs < 3" and f: "f \<in> free s"
    and t: "\<forall>j. \<not> is_present E (t j) \<or> is_last E (t j) (3 - length xs)"
  shows "extends E m root va xs (g, i) f t (new_pt E (f * 4096))"
proof -
  have "f \<notin> fst ` set (bcells E m root va')" for va' using ok f unfolding boot_ok_def by fastforce
  then show ?thesis
    using ok path l t free_law [OF f] pt_law unfolding extends_def boot_ok_def by simp
qed

text \<open>The step that allocates: an empty table below an absent entry changes no translation.\<close>

lemma alloc_step:
  assumes ok: "boot_ok E (free s) m root" and path: "bcells E m root va = xs @ [(pt, i)]" and x: "length xs < 3" "3 - length xs = l"
    and absent: "\<not> is_present E (m pt i)" and av: "0 < avail s"
  shows "\<exists>f s' m1 m2. alloc s m = Some (new_pt E (f * 4096), s', m1) \<and> bwrite m1 pt i (new_pt E (f * 4096)) = m2 \<and>
    pte_paddr E (new_pt E (f * 4096)) div 4096 = f \<and> boot_ok E (free s') m2 root \<and> avail s \<le> Suc (avail s') \<and>
    bcells E m2 root va = (xs @ [(pt, i)]) @ cells E m2 f va l \<and> btrans E m2 root va = bwalk E m2 f va l \<and>
    (\<forall>w. btrans E m2 root w = btrans E m root w)"
proof -
  obtain f s1 where a: "alloc s m = Some (new_pt E (f * 4096), s1, m(f := (\<lambda>i. new_absent E)))" "f \<in> free s"
      "free s1 \<subseteq> free s - {f}" "avail s \<le> Suc (avail s1)" using alloc_law [OF av, of m] by blast
  let ?m = "bwrite (m(f := (\<lambda>i. new_absent E))) pt i (new_pt E (f * 4096))"
  have ext: "extends E m root va xs (pt, i) f (\<lambda>i. new_absent E) (new_pt E (f * 4096))"
    by (rule alloc_extends [OF ok path x(1) a(2)]) (simp add: absent_law)
  have ok2: "boot_ok E (free s1) ?m root" by (rule extends_ok [OF ext ok a(3)]) (use free_law [OF a(2)] in simp)
  have c: "(pt, i) \<in> set (bcells E m root va)" using path by simp
  obtain k where k: "l = Suc k" using x not0_implies_Suc by fastforce
  have fpt: "f \<noteq> pt" using a(2) ok c unfolding boot_ok_def by fastforce
  have fresh: "cells E ?m f w l = [(f, bidx w l)]" "bwalk E ?m f w l = None" for w
    unfolding k using fpt absent_law by (simp_all add: bwrite_def)
  have trans: "btrans E ?m root w = btrans E m root w" for w
  proof (cases "(pt, i) \<in> set (bcells E m root w)")
    case True
    note bw = extends_below [OF ext True, unfolded x(2)]
    have l4: "4 - length xs = Suc l" using x by linarith
    have "i = bidx w (Suc l)" using cells_split [of E m root w 4 xs pt i "[]"] bw(1) l4 by simp
    then have "bwalk E m pt w (4 - length xs) = None" using absent unfolding l4 by simp
    then show ?thesis using bw fresh by simp
  next
    case False
    then show ?thesis by (rule extends_other(2) [OF ext])
  qed
  have "pte_paddr E (new_pt E (f * 4096)) div 4096 = f" using pt_law free_law [OF a(2)] by simp
  moreover have "bcells E ?m root va = (xs @ [(pt, i)]) @ cells E ?m f va l" "btrans E ?m root va = bwalk E ?m f va l"
    using extends_below(2,4) [OF ext c, unfolded x(2)] fresh by simp_all
  ultimately show ?thesis using a(1,4) ok2 trans by blast
qed

lemma map_walk_ok:
  assumes "boot_ok E (free s) m root" "level = 4 - length xs" "length xs \<le> 3" "bcells E m root va = xs @ cells E m pt va level"
    "btrans E m root va = bwalk E m pt va level" "level \<le> Suc (avail s)"
  shows "if huge_leaf E m root va then map_walk E x86_paging alloc ap va level pt s m = (if ap then None else Some (None, s, m))
    else \<exists>pt' s' m'. map_walk E x86_paging alloc ap va level pt s m = Some (Some pt', s', m') \<and> walked E (free s') m root va pt' m' \<and>
      (btrans E m root va \<noteq> None \<longrightarrow> m' = m \<and> s' = s)"
  using assms
proof (induction level arbitrary: xs pt s m)
  case 0
  then show ?case by simp
next
  case (Suc l)
  let ?i = "bidx va (Suc l)"
  let ?e = "m pt ?i"
  note W = map_walk.simps [of E x86_paging alloc ap va "Suc l"]
  have pt: "pt < 2 ^ 34"
  proof -
    have "(pt, ?i) \<in> set (bcells E m root va)" using Suc.prems(4) by simp
    then show ?thesis using Suc.prems(1) unfolding boot_ok_def by fastforce
  qed
  have idx: "pte_ptr x86_paging pt va (Suc l) = Some ?i" using pte_ptr_x86 pt Suc.prems(2) by simp
  show ?case
  proof (cases "l = 0")
    case True
    then have x: "length xs = 3" using Suc.prems(2,3) by simp
    then have "\<not> huge_leaf E m root va" using Suc.prems(4) True by (simp add: huge_leaf_def)
    moreover have "walked E (free s) m root va pt m" using Suc.prems(1,4) x True by (simp add: walked_def)
    ultimately show ?thesis using True by (simp add: map_walk.simps [of _ _ _ _ _ "Suc 0"])
  next
    case l: False
    have x: "length xs < 3" "3 - length xs = l" using Suc.prems(2) l by linarith+
    show ?thesis
    proof (cases "is_present E ?e")
      case absent: False
      have none: "btrans E m root va = None" using Suc.prems(5) absent by simp
      have path: "bcells E m root va = xs @ [(pt, ?i)]" using Suc.prems(4) absent by simp
      have "0 < avail s" using Suc.prems(6) l by simp
      from alloc_step [OF Suc.prems(1) path x absent this] obtain f s1 m1 m2 where
        a: "alloc s m = Some (new_pt E (f * 4096), s1, m1)" "bwrite m1 pt ?i (new_pt E (f * 4096)) = m2"
          "pte_paddr E (new_pt E (f * 4096)) div 4096 = f" "boot_ok E (free s1) m2 root" "avail s \<le> Suc (avail s1)"
        and c: "bcells E m2 root va = (xs @ [(pt, ?i)]) @ cells E m2 f va l" "btrans E m2 root va = bwalk E m2 f va l"
        and trans: "\<forall>w. btrans E m2 root w = btrans E m root w" by blast
      have nh: "\<not> huge_leaf E m2 root va" using trans none by (simp add: huge_leaf_def)
      have ih: "l = 4 - length (xs @ [(pt, ?i)])" "length (xs @ [(pt, ?i)]) \<le> 3" "l \<le> Suc (avail s1)"
        using Suc.prems(2,6) x a(5) by simp_all
      obtain pt' s' m' where r: "map_walk E x86_paging alloc ap va l f s1 m2 = Some (Some pt', s', m')" "walked E (free s') m2 root va pt' m'"
        using Suc.IH [OF a(4) ih(1,2) c ih(3)] unfolding if_not_P [OF nh] by blast
      have "map_walk E x86_paging alloc ap va (Suc l) pt s m = Some (Some pt', s', m')"
        using r(1) l idx absent a(1-3) by (simp add: W x86_sizes)
      moreover have "walked E (free s') m root va pt' m'" using r(2) trans by (simp add: walked_def)
      moreover have "\<not> huge_leaf E m root va" using none by (simp add: huge_leaf_def)
      ultimately show ?thesis using none by simp
    next
      case present: True
      show ?thesis
      proof (cases "is_last E ?e (Suc l)")
        case True
        have "btrans E m root va \<noteq> None" using Suc.prems(5) present True prop_law [of ?e] by auto
        moreover have "bcells E m root va = xs @ [(pt, ?i)]" using Suc.prems(4) True by simp
        ultimately have "huge_leaf E m root va" using x by (simp add: huge_leaf_def)
        then show ?thesis using l idx present True by (simp add: W)
      next
        case False
        let ?n = "pte_paddr E ?e div 4096"
        have step: "map_walk E x86_paging alloc ap va (Suc l) pt s m = map_walk E x86_paging alloc ap va l ?n s m"
          using l idx present False by (simp add: W x86_sizes)
        have n: "bcells E m root va = (xs @ [(pt, ?i)]) @ cells E m ?n va l" "btrans E m root va = bwalk E m ?n va l"
          using Suc.prems(4,5) l present False by simp_all
        show ?thesis unfolding step by (rule Suc.IH [OF Suc.prems(1) _ _ n]) (use Suc.prems(2,6) x in simp_all)
      qed
    qed
  qed
qed

lemma map_base_page_ok:
  assumes "boot_ok E (free s) m (root_pt self)" "3 \<le> avail s" "to < 2 ^ 40" "valid_paddr (to * 4096)" "valid_prop q"
  shows "if btrans E m (root_pt self) va = None
    then \<exists>s' m'. map_base_page E x86_paging alloc ap self va to q s m = Some (s', m') \<and> boot_ok E (free s') m' (root_pt self) \<and>
      (\<forall>va'. btrans E m' (root_pt self) va' = (if vkey va' 3 = vkey va 3 then Some (to * 4096 + va' mod 4096, q) else btrans E m (root_pt self) va'))
    else map_base_page E x86_paging alloc ap self va to q s m = (if ap then None else Some (s, m))"
proof -
  let ?root = "root_pt self"
  have W: "if huge_leaf E m ?root va then map_walk E x86_paging alloc ap va 4 ?root s m = (if ap then None else Some (None, s, m))
    else \<exists>pt' s' m'. map_walk E x86_paging alloc ap va 4 ?root s m = Some (Some pt', s', m') \<and> walked E (free s') m ?root va pt' m' \<and>
      (btrans E m ?root va \<noteq> None \<longrightarrow> m' = m \<and> s' = s)"
    by (rule map_walk_ok [where xs = "[]"]) (use assms(1,2) in simp_all)
  show ?thesis
  proof (cases "huge_leaf E m ?root va")
    case True
    then show ?thesis using W by (auto simp: x86_sizes map_base_page_def huge_leaf_def)
  next
    case False
    then obtain pt s1 m1 xs where w: "map_walk E x86_paging alloc ap va 4 ?root s m = Some (Some pt, s1, m1)" "boot_ok E (free s1) m1 ?root"
        "length xs = 3" "bcells E m1 ?root va = xs @ [(pt, bidx va 1)]" "\<forall>va'. btrans E m1 ?root va' = btrans E m ?root va'"
        "btrans E m ?root va \<noteq> None \<longrightarrow> m1 = m \<and> s1 = s"
      using W unfolding walked_def by auto
    have tree: "boot_tree E m1 ?root" using w(2) by (simp add: boot_ok_def)
    note L = leaf_cells [OF tree w(4,3)]
    have "(pt, bidx va 1) \<in> set (bcells E m1 ?root va)" using w(4) by simp
    then have pt: "pt < 2 ^ 34" using w(2) unfolding boot_ok_def by fastforce
    have idx: "pte_ptr x86_paging pt va 1 = Some (bidx va 1)" by (rule pte_ptr_x86) (use pt in simp_all)
    have pa: "umul to (BASE_PAGE_SIZE x86_paging) = Some (to * 4096)" using assms(3) by (simp add: umul_def x86_sizes USIZE_MAX_def)
    have walk1: "btrans E m ?root va = bwalk E m1 pt va 1" using L(5) [of va] w(5) by simp
    have pres: "is_present E (m1 pt (bidx va 1)) \<longleftrightarrow> btrans E m ?root va \<noteq> None"
      unfolding walk1 bwalk_1 using prop_law [of "m1 pt (bidx va 1)"] by auto
    show ?thesis
    proof (cases "btrans E m ?root va = None")
      case True
      obtain e where e: "new_page E (to * 4096) 1 q = Some e" "is_present E e" "pte_paddr E e = to * 4096" "pte_prop E e = Some q"
        using page_law [OF assms(4,5), of 1] by blast
      let ?m = "bwrite m1 pt (bidx va 1) e"
      have r: "map_base_page E x86_paging alloc ap self va to q s m = Some (s1, ?m)"
        using x86_sizes w(1) idx pa pres True e(1) by (simp add: map_base_page_def)
      have ok: "boot_ok E (free s1) ?m ?root" by (rule boot_ok_cells [OF _ w(2)]) (rule L(2))
      have "btrans E ?m ?root va' = (if vkey va' 3 = vkey va 3 then Some (to * 4096 + va' mod 4096, q) else btrans E m ?root va')" for va'
      proof (cases "vkey va' 3 = vkey va 3")
        case True
        then have "bidx va' 1 = bidx va 1" using L(5) by blast
        then have "bwalk E ?m pt va' 1 = Some (to * 4096 + va' mod 4096, q)" unfolding bwalk_1 using e by (simp add: bwrite_def)
        then show ?thesis using L(3) [of e va'] True by simp
      next
        case False
        then show ?thesis using L(3) [of e va'] w(5) by simp
      qed
      then show ?thesis using True r ok by auto
    next
      case False
      then have "map_base_page E x86_paging alloc ap self va to q s m = (if ap then None else Some (s, m))"
        using x86_sizes w(1,6) idx pres by (auto simp: map_base_page_def)
      then show ?thesis unfolding if_not_P [OF False] .
    qed
  qed
qed

lemma split_loop_ok:
  assumes "pte_prop E pte = Some q" "f < 2 ^ 34" "pte_paddr E pte < 2 ^ 52"
    "\<forall>j \<in> set is. j < 512 \<and> valid_paddr (pte_paddr E pte + j * 4096)" "valid_prop q"
  shows "split_loop E x86_paging pte level (f * 4096) is m =
    Some (m(f := (\<lambda>j. if j \<in> set is then the (new_page E (pte_paddr E pte + j * 4096) (level - 1) q) else m f j)))"
  using assms(4)
proof (induction "is" arbitrary: m)
  case Nil
  then show ?case by simp
next
  case (Cons i "is")
  let ?p = "pte_paddr E pte + i * 4096"
  obtain e where e: "new_page E ?p (level - 1) q = Some e" using page_law [of ?p q "level - 1"] Cons.prems assms(5) by auto
  have "paddr_to_vaddr (f * 4096) \<noteq> None" using assms(2)
    by (simp add: paddr_to_vaddr_def uadd_def USIZE_MAX_def LINEAR_MAPPING_BASE_VADDR_def)
  moreover have "umul i (BASE_PAGE_SIZE x86_paging) = Some (i * 4096)" "uadd (pte_paddr E pte) (i * 4096) = Some ?p"
    using Cons.prems assms(3) by (simp_all add: umul_def uadd_def x86_sizes USIZE_MAX_def)
  ultimately have step: "split_loop E x86_paging pte level (f * 4096) (i # is) m = split_loop E x86_paging pte level (f * 4096) is (bwrite m f i e)"
    using assms(1) e by (auto simp: x86_sizes)
  have "\<forall>j \<in> set is. j < 512 \<and> valid_paddr (pte_paddr E pte + j * 4096)" using Cons.prems by simp
  note ih = Cons.IH [OF this, of "bwrite m f i e"]
  show ?case unfolding step ih option.inject using e by (simp add: bwrite_def fun_eq_iff)
qed

lemma nr_subpage_512: "nr_subpage_per_huge x86_paging = Some 512"
  by (simp add: nr_subpage_per_huge_def x86_paging_def)

text \<open>One split: the pages of the new table are a page apart, whatever their level is.\<close>

lemma split_step:
  assumes ok: "boot_ok E (free s) m root" and path: "bcells E m root va = xs @ [(g, i)]" and x: "length xs < 3"
    and pr: "is_present E (m g i)" and last: "is_last E (m g i) (4 - length xs)" and pq: "pte_prop E (m g i) = Some q"
    and av: "0 < avail s" and small: "pte_paddr E (m g i) < 2 ^ 52"
    and valid: "\<forall>j < 512. valid_paddr (pte_paddr E (m g i) + j * 4096)"
  shows "\<exists>f s' m' e. protect_walk E x86_paging alloc ap va (4 - length xs) g s m = protect_walk E x86_paging alloc ap va (3 - length xs) f s' m' \<and>
    boot_ok E (free s') m' root \<and> bcells E m' root va = xs @ [(g, i), (f, bidx va (3 - length xs))] \<and> avail s \<le> Suc (avail s') \<and>
    m' f (bidx va (3 - length xs)) = e \<and> is_present E e \<and> is_last E e (3 - length xs) \<and> pte_prop E e = Some q \<and>
    pte_paddr E e = pte_paddr E (m g i) + bidx va (3 - length xs) * 4096 \<and>
    (\<forall>va'. btrans E m' root va' = (if vkey va' (length xs) = vkey va (length xs)
      then Some (pte_paddr E (m g i) + bidx va' (3 - length xs) * 4096 + va' mod 2 ^ (12 + 9 * (2 - length xs)), q) else btrans E m root va'))"
proof -
  let ?pa = "pte_paddr E (m g i)" and ?l = "3 - length xs"
  have l4: "4 - length xs = Suc ?l" "0 < ?l" "\<not> 4 - length xs \<le> Suc 0" "4 - length xs - 1 = ?l" "2 - length xs = ?l - 1" using x by linarith+
  obtain f s1 where a: "alloc s m = Some (new_pt E (f * 4096), s1, m(f := (\<lambda>i. new_absent E)))" "f \<in> free s"
      "free s1 \<subseteq> free s - {f}" "avail s \<le> Suc (avail s1)" using alloc_law [OF av, of m] by blast
  have f: "f < 2 ^ 34" "valid_paddr (f * 4096)" using free_law [OF a(2)] by simp_all
  have vq: "valid_prop q" using prop_law [of "m g i"] pq by simp
  have c: "(g, i) \<in> set (bcells E m root va)" using path by simp
  have g: "g < 2 ^ 34" "g \<noteq> f" using ok c a(2) unfolding boot_ok_def by fastforce+
  have idx: "i = bidx va (4 - length xs)" "pte_ptr x86_paging g va (4 - length xs) = Some i"
    using cells_split [of E m root va 4 xs g i "[]"] path pte_ptr_x86 [of "4 - length xs" g va] g(1) l4 by simp_all
  define page where "page j = the (new_page E (?pa + j * 4096) ?l q)" for j
  have page: "is_present E (page j) \<and> pte_paddr E (page j) = ?pa + j * 4096 \<and> is_last E (page j) ?l \<and> pte_prop E (page j) = Some q"
    if "j < 512" for j
  proof -
    have "valid_paddr (?pa + j * 4096)" using valid that by blast
    from page_law [OF this vq, of ?l] show ?thesis unfolding page_def by fastforce
  qed
  define t where "t j = (if j \<in> set [0..<512] then page j else new_absent E)" for j
  let ?m = "bwrite (m(f := t)) g i (new_pt E (f * 4096))"
  have t: "\<not> is_present E (t j) \<or> is_last E (t j) ?l" for j using page absent_law unfolding t_def by simp
  have ext: "extends E m root va xs (g, i) f t (new_pt E (f * 4096))" by (rule alloc_extends [OF ok path x a(2)]) (use t in blast)
  note b = extends_below [OF ext c]
  have "split_loop E x86_paging (m g i) (4 - length xs) (f * 4096) [0..<512] (m(f := (\<lambda>i. new_absent E))) = Some (m(f := t))"
    using split_loop_ok [of "m g i" q f "[0..<512]" "4 - length xs" "m(f := (\<lambda>i. new_absent E))"] pq f(1) small valid vq
    unfolding t_def page_def l4(4) by (simp add: fun_eq_iff cong: if_cong)
  moreover have "pte_paddr E (new_pt E (f * 4096)) = f * 4096" using pt_law f(2) by simp
  ultimately have "protect_walk E x86_paging alloc ap va (4 - length xs) g s m = protect_walk E x86_paging alloc ap va ?l f s1 ?m"
    using protect_walk.simps [of E x86_paging alloc ap va "4 - length xs" g s m] l4(3,4) idx(2) pr last a(1) nr_subpage_512 by (simp add: x86_sizes)
  moreover have "boot_ok E (free s1) ?m root" by (rule extends_ok [OF ext ok a(3) f(1)])
  moreover have row: "?m f j = t j" for j using g(2) by (simp add: bwrite_def)
  have leaf: "?m f (bidx w ?l) = page (bidx w ?l)" for w unfolding row t_def using bidx_lt [of w ?l] by simp
  moreover have "btrans E ?m root va' = (if vkey va' (length xs) = vkey va (length xs)
      then Some (?pa + bidx va' ?l * 4096 + va' mod 2 ^ (12 + 9 * (2 - length xs)), q) else btrans E m root va')" for va'
  proof (cases "(g, i) \<in> set (bcells E m root va')")
    case True
    note bw = extends_below [OF ext True]
    obtain k where k: "?l = Suc k" using l4(2) gr0_implies_Suc by blast
    have "bwalk E ?m f va' ?l = Some (?pa + bidx va' ?l * 4096 + va' mod 2 ^ (12 + 9 * (?l - 1)), q)"
      using page [OF bidx_lt, of va' ?l] leaf [of va'] unfolding k by (simp add: Let_def)
    then show ?thesis using bw(4,5) unfolding l4(5) by simp
  next
    case False
    then have "vkey va' (length xs) \<noteq> vkey va (length xs)" using same_key_cell path by metis
    then show ?thesis using extends_other(2) [OF ext False] by simp
  qed
  ultimately show ?thesis using b(2) a(4) page [OF bidx_lt, of va ?l] by metis
qed

lemma protect_reach:
  assumes "cells E m pt va level = xs @ [(g, i)]" "\<forall>c \<in> set (cells E m pt va level). fst c < 2 ^ 34" "level \<le> 4"
  shows "protect_walk E x86_paging alloc ap va level pt s m = protect_walk E x86_paging alloc ap va (level - length xs) g s m"
  using assms
proof (induction xs arbitrary: pt level)
  case Nil
  then show ?case by (cases level) auto
next
  case (Cons x xs)
  then obtain k where k: "level = Suc k" by (cases level) auto
  let ?e = "m pt (bidx va level)"
  have c: "is_present E ?e \<and> k \<noteq> 0 \<and> \<not> is_last E ?e level" "cells E m (pte_paddr E ?e div 4096) va k = xs @ [(g, i)]"
    using Cons.prems(1) k by (auto simp: Let_def split: if_splits)
  have sub: "\<forall>c \<in> set (cells E m (pte_paddr E ?e div 4096) va k). fst c < 2 ^ 34" and pt: "pt < 2 ^ 34"
    using Cons.prems(2) c(1) k by (auto simp: Let_def)
  have "pte_ptr x86_paging pt va (Suc k) = Some (bidx va (Suc k))" by (rule pte_ptr_x86) (use pt Cons.prems(3) k in simp_all)
  then have "protect_walk E x86_paging alloc ap va (Suc k) pt s m = protect_walk E x86_paging alloc ap va k (pte_paddr E ?e div 4096) s m"
    using protect_walk.simps [of E x86_paging alloc ap va "Suc k" pt s m] c(1) k by (simp add: x86_sizes)
  then show ?case using Cons.IH [OF c(2) sub] Cons.prems(3) k by simp
qed

lemma protect_root:
  assumes "boot_ok E fr m root" "bcells E m root va = xs @ [(g, i)]"
  shows "protect_walk E x86_paging alloc ap va 4 root s m = protect_walk E x86_paging alloc ap va (4 - length xs) g s m"
    "g < 2 ^ 34" "i = bidx va (4 - length xs)" "length xs < 4"
    "btrans E m root va = bwalk E m g va (4 - length xs)" "cells E m g va (4 - length xs) = [(g, i)]"
proof -
  have small: "\<forall>c \<in> set (bcells E m root va). fst c < 2 ^ 34" using assms(1) unfolding boot_ok_def by fastforce
  then show "g < 2 ^ 34" using assms(2) by simp
  show "protect_walk E x86_paging alloc ap va 4 root s m = protect_walk E x86_paging alloc ap va (4 - length xs) g s m"
    by (rule protect_reach [OF assms(2) small]) simp
  note sp = cells_split [of E m root va 4 xs g i "[]", OF assms(2)]
  then show "i = bidx va (4 - length xs)" "length xs < 4" "btrans E m root va = bwalk E m g va (4 - length xs)" by blast+
  show "cells E m g va (4 - length xs) = [(g, i)]" using sp assms(2) by (metis same_append_eq)
qed

lemma protect_finish:
  assumes w: "protect_walk E x86_paging alloc ap va 4 (root_pt self) s m = Some (Some pt, s1, m1)"
    and ok: "boot_ok E (free s1) m1 (root_pt self)" and path: "bcells E m1 (root_pt self) va = xs @ [(pt, bidx va 1)]" "length xs = 3"
    and e: "is_present E (m1 pt (bidx va 1))" "pte_prop E (m1 pt (bidx va 1)) = Some q" "valid_paddr (pte_paddr E (m1 pt (bidx va 1)))"
    and q: "valid_prop (op q)"
  shows "\<exists>m'. protect_base_page E x86_paging alloc ap self va op s m = Some (s1, m') \<and> boot_ok E (free s1) m' (root_pt self) \<and>
    (\<forall>va'. btrans E m' (root_pt self) va' = (if vkey va' 3 = vkey va 3 then Some (pte_paddr E (m1 pt (bidx va 1)) + va' mod 4096, op q)
      else btrans E m1 (root_pt self) va'))"
proof -
  let ?root = "root_pt self" and ?pa = "pte_paddr E (m1 pt (bidx va 1))"
  have tree: "boot_tree E m1 ?root" using ok by (simp add: boot_ok_def)
  note L = leaf_cells [OF tree path]
  have "pt < 2 ^ 34" by (rule protect_root(2) [OF ok path(1)])
  then have idx: "pte_ptr x86_paging pt va 1 = Some (bidx va 1)" using pte_ptr_x86 by simp
  obtain e' where e': "new_page E ?pa 1 (op q) = Some e'" "is_present E e'" "pte_paddr E e' = ?pa" "pte_prop E e' = Some (op q)"
    using page_law [OF e(3) q, of 1] by blast
  let ?m = "bwrite m1 pt (bidx va 1) e'"
  have "protect_base_page E x86_paging alloc ap self va op s m = Some (s1, ?m)"
    using w idx e e'(1) by (simp add: protect_base_page_def x86_sizes)
  moreover have "boot_ok E (free s1) ?m ?root" by (rule boot_ok_cells [OF _ ok]) (rule L(2))
  moreover have "btrans E ?m ?root va' = (if vkey va' 3 = vkey va 3 then Some (?pa + va' mod 4096, op q) else btrans E m1 ?root va')" for va'
  proof (cases "vkey va' 3 = vkey va 3")
    case True
    then have "bidx va' 1 = bidx va 1" using L(5) by blast
    then have "bwalk E ?m pt va' 1 = Some (?pa + va' mod 4096, op q)" unfolding bwalk_1 using e' by (simp add: bwrite_def)
    then show ?thesis using L(3) [of e' va'] True by simp
  next
    case False
    then show ?thesis using L(3) [of e' va'] by simp
  qed
  ultimately show ?thesis by blast
qed

lemma protect_walk_1: "protect_walk E x86_paging alloc ap va 1 pt s m = Some (Some pt, s, m)"
  by (simp add: protect_walk.simps [of _ _ _ _ _ "Suc 0"])

lemma protect_unmapped:
  assumes ok: "boot_ok E (free s) m (root_pt self)" and none: "btrans E m (root_pt self) va = None"
  shows "protect_base_page E x86_paging alloc ap self va op s m = (if ap then None else Some (s, m))"
proof -
  have "bcells E m (root_pt self) va \<noteq> []" by simp
  then obtain xs g i where path: "bcells E m (root_pt self) va = xs @ [(g, i)]" by (metis rev_exhaust surj_pair)
  note R = protect_root [OF ok path]
  obtain k where k: "4 - length xs = Suc k" using R(4) by (metis Suc_diff_Suc)
  have absent: "\<not> is_present E (m g i)"
    using R(5,6) none prop_law [of "m g i"] R(3) unfolding k by (auto simp: Let_def split: if_splits)
  have idx: "pte_ptr x86_paging g va (4 - length xs) = Some i" unfolding R(3) by (rule pte_ptr_x86) (use R(2,4) in simp_all)
  show ?thesis
  proof (cases "k = 0")
    case True
    then show ?thesis using R(1) [of ap s] idx absent unfolding k
      by (simp add: protect_base_page_def x86_sizes protect_walk_1 [simplified])
  next
    case False
    then show ?thesis using R(1) [of ap s] idx absent protect_walk.simps [of E x86_paging alloc ap va "4 - length xs" g s m] unfolding k
      by (simp add: protect_base_page_def x86_sizes)
  qed
qed

text \<open>The leaf that translates an address, and the base pages below it.\<close>

lemma mapped_leaf:
  assumes ok: "boot_ok E fr m root" and path: "bcells E m root va = xs @ [(g, i)]" and tr: "btrans E m root va = Some (pa, q)"
  shows "is_present E (m g i)" "length xs < 3 \<Longrightarrow> is_last E (m g i) (4 - length xs)" "pte_prop E (m g i) = Some q"
    "pa = pte_paddr E (m g i) + va mod 2 ^ (12 + 9 * (3 - length xs))"
proof -
  note R = protect_root [OF ok path]
  have k: "4 - length xs = Suc (3 - length xs)" using R(4) by linarith
  show "is_present E (m g i)" "length xs < 3 \<Longrightarrow> is_last E (m g i) (4 - length xs)" "pte_prop E (m g i) = Some q"
    "pa = pte_paddr E (m g i) + va mod 2 ^ (12 + 9 * (3 - length xs))"
    using R(3,6) tr [unfolded R(5)] unfolding k by (auto simp: Let_def split: if_splits)
qed

lemma leaf_trans:
  assumes ok: "boot_ok E fr m root" and path: "bcells E m root va = xs @ [(g, i)]" and tr: "btrans E m root va = Some (pa, q)"
    and key: "vkey va' (length xs) = vkey va (length xs)"
  shows "btrans E m root va' = Some (pte_paddr E (m g i) + va' mod 2 ^ (12 + 9 * (3 - length xs)), q)"
proof -
  note R = protect_root [OF ok path] and M = mapped_leaf [OF ok path tr]
  have k: "4 - length xs = Suc (3 - length xs)" using R(4) by linarith
  have tree: "boot_tree E m root" using ok by (simp add: boot_ok_def)
  have "(g, i) \<in> set (bcells E m root va')" by (rule same_key_cell [OF _ key]) (simp add: path)
  from tree_same(2) [OF tree _ this] path obtain ys where "bcells E m root va' = xs @ (g, i) # ys" by blast
  from cells_split [OF this] have "i = bidx va' (Suc (3 - length xs))" "btrans E m root va' = bwalk E m g va' (Suc (3 - length xs))"
    using k by simp_all
  moreover have "3 - length xs = 0 \<or> is_last E (m g i) (Suc (3 - length xs))" using M(2) R(4) k by (cases "length xs = 3") auto
  ultimately show ?thesis using M(1,3) by (auto simp: Let_def)
qed

lemma bidx_1_mod: "bidx va 1 * 4096 + va mod 4096 = va mod 2 ^ 21"
  using mod_mult2_eq [of va 4096 512] by (simp add: bidx_def)

lemma protect_base_page_ok:
  assumes ok: "boot_ok E (free s) m (root_pt self)" and av: "0 < avail s" and path: "bcells E m (root_pt self) va = xs @ [(g, i)]"
    and tr: "btrans E m (root_pt self) va = Some (pa, q)" and x: "2 \<le> length xs" and small: "pte_paddr E (m g i) < 2 ^ 52"
    and valid: "\<forall>j < 512 ^ (3 - length xs). valid_paddr (pte_paddr E (m g i) + j * 4096)" and op: "valid_prop (op q)"
  shows "\<exists>s' m'. protect_base_page E x86_paging alloc ap self va op s m = Some (s', m') \<and> boot_ok E (free s') m' (root_pt self) \<and>
    (\<forall>va'. btrans E m' (root_pt self) va' =
      (if vkey va' 3 = vkey va 3 then map_option (apsnd op) (btrans E m (root_pt self) va') else btrans E m (root_pt self) va'))"
proof -
  let ?root = "root_pt self"
  note R = protect_root [OF ok path] and M = mapped_leaf [OF ok path tr]
  consider "length xs = 3" | "length xs = 2" using R(4) x by linarith
  then show ?thesis
  proof cases
    case 1
    have w: "protect_walk E x86_paging alloc ap va 4 ?root s m = Some (Some g, s, m)" using R(1) [of ap s] 1 protect_walk_1 by simp
    have i: "i = bidx va 1" using R(3) 1 by simp
    have old: "btrans E m ?root va' = Some (pte_paddr E (m g i) + va' mod 4096, q)" if "vkey va' 3 = vkey va 3" for va'
      using leaf_trans [OF ok path tr] that 1 by simp
    have v: "valid_paddr (pte_paddr E (m g i))" using valid 1 by simp
    from protect_finish [where op = op, OF w ok path [unfolded i] 1 M(1) [unfolded i] M(3) [unfolded i] v [unfolded i] op] obtain m' where
      "protect_base_page E x86_paging alloc ap self va op s m = Some (s, m')" "boot_ok E (free s) m' ?root"
      "\<forall>va'. btrans E m' ?root va' = (if vkey va' 3 = vkey va 3 then Some (pte_paddr E (m g i) + va' mod 4096, op q) else btrans E m ?root va')"
      unfolding i by blast
    then show ?thesis using old by auto
  next
    case 2
    have "\<forall>j < 512. valid_paddr (pte_paddr E (m g i) + j * 4096)" using valid 2 by simp
    from split_step [OF ok path _ M(1) M(2) M(3) av small this, of ap] 2 obtain f s1 m1 where
      st: "protect_walk E x86_paging alloc ap va 2 g s m = protect_walk E x86_paging alloc ap va 1 f s1 m1"
        "boot_ok E (free s1) m1 ?root" "bcells E m1 ?root va = xs @ [(g, i), (f, bidx va 1)]" "is_present E (m1 f (bidx va 1))"
        "pte_prop E (m1 f (bidx va 1)) = Some q" "pte_paddr E (m1 f (bidx va 1)) = pte_paddr E (m g i) + bidx va 1 * 4096"
        "\<forall>va'. btrans E m1 ?root va' = (if vkey va' 2 = vkey va 2
          then Some (pte_paddr E (m g i) + bidx va' 1 * 4096 + va' mod 2 ^ 12, q) else btrans E m ?root va')" by auto
    have same: "btrans E m1 ?root va' = btrans E m ?root va'" for va'
      using st(7) leaf_trans [OF ok path tr, of va'] 2 bidx_1_mod [of va'] by (auto simp: add.assoc)
    have w: "protect_walk E x86_paging alloc ap va 4 ?root s m = Some (Some f, s1, m1)" using R(1) [of ap s] 2 st(1) protect_walk_1 by simp
    have v: "valid_paddr (pte_paddr E (m1 f (bidx va 1)))" using valid st(6) bidx_lt [of va 1] 2 by simp
    have p: "bcells E m1 ?root va = (xs @ [(g, i)]) @ [(f, bidx va 1)]" "length (xs @ [(g, i)]) = 3" using st(3) 2 by simp_all
    from protect_finish [where op = op, OF w st(2) p st(4,5) v op] obtain m' where
      "protect_base_page E x86_paging alloc ap self va op s m = Some (s1, m')" "boot_ok E (free s1) m' ?root"
      "\<forall>va'. btrans E m' ?root va' = (if vkey va' 3 = vkey va 3 then Some (pte_paddr E (m1 f (bidx va 1)) + va' mod 4096, op q) else btrans E m1 ?root va')"
      by blast
    moreover have "btrans E m ?root va' = Some (pte_paddr E (m1 f (bidx va 1)) + va' mod 4096, q)" if k: "vkey va' 3 = vkey va 3" for va'
    proof -
      have "bidx va' 1 = bidx va 1" "vkey va' 2 = vkey va 2" using vkey_idx [OF k, of 3] vkey_idx [OF k, of 2] by simp_all
      then show ?thesis using same [of va'] st(6,7) by simp
    qed
    ultimately show ?thesis using same by auto
  qed
qed

lemma bidx_2_mod: "bidx va 2 * 2 ^ 21 + va mod 2 ^ 21 = va mod 2 ^ 30"
  using mod_mult2_eq [of va "2 ^ 21" 512] by (simp add: bidx_def)

lemma protect_gigabyte:
  assumes ok: "boot_ok E (free s) m (root_pt self)" and av: "2 \<le> avail s" and path: "bcells E m (root_pt self) va = xs @ [(g, i)]"
    and tr: "btrans E m (root_pt self) va = Some (pa, q)" and x: "length xs = 1" and small: "pte_paddr E (m g i) < 2 ^ 51"
    and valid: "\<forall>j < 512 * 512. valid_paddr (pte_paddr E (m g i) + j * 4096)" and op: "valid_prop (op q)"
  shows "\<exists>s' m'. protect_base_page E x86_paging alloc ap self va op s m = Some (s', m') \<and>
    (\<forall>va'. vkey va' 1 = vkey va 1 \<longrightarrow> vkey va' 2 \<noteq> vkey va 2 \<longrightarrow>
      btrans E m (root_pt self) va' = Some (pte_paddr E (m g i) + bidx va' 2 * 2 ^ 21 + va' mod 2 ^ 21, q) \<and>
      btrans E m' (root_pt self) va' = Some (pte_paddr E (m g i) + bidx va' 2 * 2 ^ 12 + va' mod 2 ^ 21, q))"
proof -
  let ?root = "root_pt self" and ?pa = "pte_paddr E (m g i)"
  note R = protect_root [OF ok path] and M = mapped_leaf [OF ok path tr]
  have n: "4 - length xs = 3" "3 - length xs = 2" "2 - length xs = 1" "length xs < 3" "0 < avail s" using x av by simp_all
  have "\<forall>j < 512. valid_paddr (?pa + j * 4096)" "?pa < 2 ^ 52" using valid small by simp_all
  from split_step [OF ok path n(4) M(1) M(2) [OF n(4)] M(3) n(5) this(2,1), of ap] obtain f s1 m1 where
    st: "protect_walk E x86_paging alloc ap va 3 g s m = protect_walk E x86_paging alloc ap va 2 f s1 m1"
      "boot_ok E (free s1) m1 ?root" "bcells E m1 ?root va = xs @ [(g, i), (f, bidx va 2)]" "avail s \<le> Suc (avail s1)"
      "is_present E (m1 f (bidx va 2))" "is_last E (m1 f (bidx va 2)) 2"
      "pte_prop E (m1 f (bidx va 2)) = Some q" "pte_paddr E (m1 f (bidx va 2)) = ?pa + bidx va 2 * 4096"
      "\<forall>va'. btrans E m1 ?root va' = (if vkey va' 1 = vkey va 1 then Some (?pa + bidx va' 2 * 4096 + va' mod 2 ^ (12 + 9 * 1), q) else btrans E m ?root va')"
    unfolding n(1-3) unfolding x by blast
  let ?pa1 = "pte_paddr E (m1 f (bidx va 2))"
  have p1: "bcells E m1 ?root va = (xs @ [(g, i)]) @ [(f, bidx va 2)]" "length (xs @ [(g, i)]) = 2" using st(3) x by simp_all
  have n1: "4 - length (xs @ [(g, i)]) = 2" "3 - length (xs @ [(g, i)]) = 1" "2 - length (xs @ [(g, i)]) = 0" "length (xs @ [(g, i)]) < 3" "0 < avail s1"
    using x av st(4) by simp_all
  have v1: "valid_paddr (?pa1 + j * 4096)" if "j < 512" for j
  proof -
    have "bidx va 2 + j < 512 * 512" using that bidx_lt [of va 2] by simp
    then have "valid_paddr (?pa + (bidx va 2 + j) * 4096)" using valid by blast
    then show ?thesis unfolding st(8) by (simp add: algebra_simps)
  qed
  have b1: "?pa1 < 2 ^ 52" using small bidx_lt [of va 2] st(8) by simp
  from split_step [OF st(2) p1(1) n1(4) st(5) _ st(7) n1(5) b1, of ap] v1 st(6) obtain f' s2 m2 where
    st2: "protect_walk E x86_paging alloc ap va 2 f s1 m1 = protect_walk E x86_paging alloc ap va 1 f' s2 m2"
      "boot_ok E (free s2) m2 ?root" "bcells E m2 ?root va = (xs @ [(g, i)]) @ [(f, bidx va 2), (f', bidx va 1)]"
      "is_present E (m2 f' (bidx va 1))" "pte_prop E (m2 f' (bidx va 1)) = Some q" "pte_paddr E (m2 f' (bidx va 1)) = ?pa1 + bidx va 1 * 4096"
      "\<forall>va'. btrans E m2 ?root va' = (if vkey va' 2 = vkey va 2 then Some (?pa1 + bidx va' 1 * 4096 + va' mod 2 ^ (12 + 9 * 0), q) else btrans E m1 ?root va')"
    unfolding n1(1-3) unfolding p1(2) by blast
  have w: "protect_walk E x86_paging alloc ap va 4 ?root s m = Some (Some f', s2, m2)"
    using R(1) [of ap s] n(1) st(1) st2(1) protect_walk_1 by simp
  have p2: "bcells E m2 ?root va = (xs @ [(g, i), (f, bidx va 2)]) @ [(f', bidx va 1)]" "length (xs @ [(g, i), (f, bidx va 2)]) = 3" using st2(3) x by simp_all
  have v2: "valid_paddr (pte_paddr E (m2 f' (bidx va 1)))" using v1 [OF bidx_lt] st2(6) by simp
  from protect_finish [where op = op, OF w st2(2) p2 st2(4,5) v2 op] obtain m' where
    fin: "protect_base_page E x86_paging alloc ap self va op s m = Some (s2, m')"
      "\<forall>va'. btrans E m' ?root va' = (if vkey va' 3 = vkey va 3 then Some (pte_paddr E (m2 f' (bidx va 1)) + va' mod 4096, op q) else btrans E m2 ?root va')"
    by blast
  have "btrans E m ?root va' = Some (?pa + bidx va' 2 * 2 ^ 21 + va' mod 2 ^ 21, q) \<and>
      btrans E m' ?root va' = Some (?pa + bidx va' 2 * 2 ^ 12 + va' mod 2 ^ 21, q)" if k: "vkey va' 1 = vkey va 1" "vkey va' 2 \<noteq> vkey va 2" for va'
  proof
    have "vkey va' 3 \<noteq> vkey va 3" using vkey_idx(2) [of va' 3 va 2] k(2) by auto
    then show "btrans E m' ?root va' = Some (?pa + bidx va' 2 * 2 ^ 12 + va' mod 2 ^ 21, q)" using fin(2) st2(7) st(9) k by simp
    have "btrans E m ?root va' = Some (?pa + va' mod 2 ^ 30, q)" using leaf_trans [OF ok path tr, of va'] k(1) x by simp
    then show "btrans E m ?root va' = Some (?pa + bidx va' 2 * 2 ^ 21 + va' mod 2 ^ 21, q)" using bidx_2_mod [of va'] by simp
  qed
  then show ?thesis using fin(1) by blast
qed

end

section \<open>Set-up\<close>

context pte_laws
begin

lemma mark_firmware_drops_mark:
  assumes "is_present E e" "is_last E e l"
  shows "\<exists>e'. mark_firmware E e = Some e' \<and> pte_prop E e' = pte_prop E e \<and> pte_paddr E e' = pte_paddr E e"
proof -
  obtain q where q: "pte_prop E e = Some q" "valid_prop q" using prop_law by blast
  then show ?thesis using set_prop_law [OF assms q(2)] by (auto simp: mark_firmware_def)
qed

end

lemma with_borrow_forgets:
  assumes "with_borrow init False f (None, m) = Some (r, static, m1)"
  shows "with_borrow init False f' (static, m1) = do { (b, m2) \<leftarrow> init m1; (r', b', m3) \<leftarrow> f' b m2; Some (Inr r', None, m3) }"
  using assms by (auto simp: with_borrow_def split: bind_splits)

section \<open>An allocation that hands out the frames in order\<close>

definition bump_alloc :: "'e pte_ops \<Rightarrow> ('e, nat) child_alloc" where
  "bump_alloc E s m = (if s < 2 ^ 20 then Some (new_pt E (s * 4096), Suc s, m(s := (\<lambda>i. new_absent E))) else None)"

interpretation bump: boot_alloc "x86_pte_ops False" x86_valid_paddr "x86_valid_prop False" "bump_alloc (x86_pte_ops False)"
  "\<lambda>s. 2 ^ 20 - s" "\<lambda>s. {s..<2 ^ 20}"
proof unfold_locales
  show "\<exists>f s'. bump_alloc (x86_pte_ops False) s m = Some (new_pt (x86_pte_ops False) (f * 4096), s', m(f := (\<lambda>i. new_absent (x86_pte_ops False)))) \<and>
      f \<in> {s..<2 ^ 20} \<and> {s'..<2 ^ 20} \<subseteq> {s..<2 ^ 20} - {f} \<and> 2 ^ 20 - s \<le> Suc (2 ^ 20 - s')" if "0 < 2 ^ 20 - s" for s m
    by (rule exI [of _ s], rule exI [of _ "Suc s"]) (use that in \<open>auto simp: bump_alloc_def\<close>)
  show "x86_valid_paddr (f * 4096) \<and> f < 2 ^ 34" if "f \<in> {s..<2 ^ 20}" for f s
    using that by (simp add: x86_valid_paddr_def PAGE_SIZE_def)
qed

lemma vkey_0: "vkey va 0 = bidx va 4"
proof -
  have "take_bit 9 (drop_bit 39 va) = drop_bit 39 (take_bit 48 va)" by (simp add: drop_bit_take_bit)
  then show ?thesis by (simp add: vkey_def bidx_def take_bit_eq_mod drop_bit_eq_div)
qed

text \<open>A root table in frame 5 with one chain of tables below its entry 0, that ends in \<open>e\<close> at the level given.\<close>

definition boot_chain :: "nat \<Rightarrow> x86_pte \<Rightarrow> x86_pte bmem" where
  "boot_chain n e f i = (if i = 0 \<and> 5 \<le> f \<and> f < 5 + n then new_pt (x86_pte_ops False) ((f + 1) * 4096)
     else if i = 0 \<and> f = 5 + n then e else new_absent (x86_pte_ops False))"

abbreviation x86E :: "x86_pte pte_ops" where "x86E \<equiv> x86_pte_ops False"

lemma boot_chain_next:
  assumes "n \<le> 3" "is_last x86E e (4 - n) \<or> \<not> is_present x86E e" "d \<le> n" "is_present x86E (boot_chain n e (5 + d) i)" "\<not> is_last x86E (boot_chain n e (5 + d) i) (4 - d)"
  shows "i = 0 \<and> d < n \<and> pte_paddr x86E (boot_chain n e (5 + d) i) div 4096 = 5 + Suc d"
  using assms x86_pte.absent_law x86_pte.pt_law [of "(6 + d) * 4096" 2]
  by (auto simp: boot_chain_def x86_valid_paddr_def PAGE_SIZE_def split: if_splits)

lemma boot_chain_cells:
  assumes "n \<le> 3" "is_last x86E e (4 - n) \<or> \<not> is_present x86E e" "d \<le> n" "p < length (cells x86E (boot_chain n e) (5 + d) va (4 - d))"
  shows "cells x86E (boot_chain n e) (5 + d) va (4 - d) ! p = (5 + d + p, bidx va (4 - d - p)) \<and> (\<forall>q < p. bidx va (4 - d - q) = 0)"
  using assms(3,4)
proof (induction p arbitrary: d)
  case 0
  have "4 - d = Suc (3 - d)" using 0 assms(1) by linarith
  then show ?case by simp
next
  case (Suc p)
  have k: "4 - d = Suc (3 - d)" "4 - Suc d = 3 - d" using Suc.prems(1) assms(1) by linarith+
  let ?i = "bidx va (4 - d)"
  have c: "is_present x86E (boot_chain n e (5 + d) ?i)" "\<not> is_last x86E (boot_chain n e (5 + d) ?i) (4 - d)" "cells x86E (boot_chain n e) (5 + d) va (4 - d) =
      (5 + d, ?i) # cells x86E (boot_chain n e) (pte_paddr x86E (boot_chain n e (5 + d) ?i) div 4096) va (3 - d)"
    using Suc.prems(2) unfolding k by (auto simp: Let_def split: if_splits)
  from boot_chain_next [OF assms(1,2) Suc.prems(1) c(1,2)]
  have nx: "?i = 0" "Suc d \<le> n" "pte_paddr x86E (boot_chain n e (5 + d) ?i) div 4096 = 5 + Suc d" by auto
  have c': "cells x86E (boot_chain n e) (5 + d) va (4 - d) = (5 + d, ?i) # cells x86E (boot_chain n e) (5 + Suc d) va (4 - Suc d)"
    using c(3) unfolding nx(3) k(2) .
  have "p < length (cells x86E (boot_chain n e) (5 + Suc d) va (4 - Suc d))" using Suc.prems(2) unfolding c' by simp
  from Suc.IH [OF nx(2) this]
  have "cells x86E (boot_chain n e) (5 + d) va (4 - d) ! Suc p = (5 + d + Suc p, bidx va (4 - d - Suc p))" "\<forall>q < p. bidx va (4 - d - Suc q) = 0"
    unfolding c' by simp_all
  moreover have "bidx va (4 - d - q) = 0" if "q < Suc p" for q using that nx(1) calculation(2) by (cases q) simp_all
  ultimately show ?case by blast
qed

lemma boot_chain_ok:
  assumes "n \<le> 3" "is_last x86E e (4 - n) \<or> \<not> is_present x86E e"
  shows "boot_ok x86E {1024..<2 ^ 20} (boot_chain n e) 5"
proof -
  have c: "bcells x86E (boot_chain n e) 5 va ! p = (5 + p, bidx va (4 - p)) \<and> (\<forall>q < p. bidx va (4 - q) = 0) \<and> p < 4"
    if "p < length (bcells x86E (boot_chain n e) 5 va)" for p va
    using boot_chain_cells [OF assms, of 0 p va] that cells_length [of x86E "boot_chain n e" 5 va 4] by simp
  have key: "vkey va p = bidx va (4 - p)" if "p < 4" "\<forall>q < p. bidx va (4 - q) = 0" for va p
    using that
  proof (induction p)
    case 0
    then show ?case by (simp add: vkey_0)
  next
    case (Suc p)
    then have "vkey va p = 0" by simp
    then show ?case using vkey_Suc [of p va] Suc.prems(1) by simp
  qed
  have "p = q \<and> vkey va p = vkey va' p" if "p < length (bcells x86E (boot_chain n e) 5 va)" "q < length (bcells x86E (boot_chain n e) 5 va')"
      "bcells x86E (boot_chain n e) 5 va ! p = bcells x86E (boot_chain n e) 5 va' ! q" for va va' p q
  proof -
    note a = c [OF that(1)] and b = c [OF that(2)]
    have "(5 + p, bidx va (4 - p)) = (5 + q, bidx va' (4 - q))" using a b that(3) by metis
    then have eq: "p = q" "bidx va (4 - p) = bidx va' (4 - p)" by auto
    moreover have "vkey va p = bidx va (4 - p)" using key a by blast
    moreover have "vkey va' p = bidx va' (4 - p)" using key b eq(1) by blast
    ultimately show ?thesis by simp
  qed
  moreover have "fst x \<notin> {1024..<2 ^ 20} \<and> fst x < 2 ^ 34" if x: "x \<in> set (bcells x86E (boot_chain n e) 5 va)" for x va
  proof -
    obtain p where p: "p < length (bcells x86E (boot_chain n e) 5 va)" "bcells x86E (boot_chain n e) 5 va ! p = x" using x unfolding in_set_conv_nth by blast
    have "x = (5 + p, bidx va (4 - p))" "p < 4" using c [OF p(1)] p(2) by simp_all
    then show ?thesis by simp
  qed
  ultimately show ?thesis unfolding boot_ok_def boot_tree_def by (simp add: split_beta)
qed

text \<open>The leaf of a walk.\<close>

definition boot_leaf :: "'e pte_ops \<Rightarrow> 'e bmem \<Rightarrow> FrameNumber \<Rightarrow> Vaddr \<Rightarrow> 'e" where
  "boot_leaf E m root va = (case last (bcells E m root va) of (f, i) \<Rightarrow> m f i)"

lemma boot_leaf_path: obtains xs g i where "bcells E m root va = xs @ [(g, i)]" "boot_leaf E m root va = m g i" "length (bcells E m root va) = Suc (length xs)"
proof -
  have "bcells E m root va \<noteq> []" by simp
  then obtain xs g i where "bcells E m root va = xs @ [(g, i)]" by (metis rev_exhaust surj_pair)
  then show thesis using that by (simp add: boot_leaf_def)
qed

lemma page_key: "vkey va 3 = va mod 2 ^ 48 div 4096"
  by (simp add: vkey_def)

lemma boot_chain_walk:
  assumes "n \<le> 3" "d < n" "bidx va (4 - d) = 0"
  shows "cells x86E (boot_chain n e) (5 + d) va (4 - d) = (5 + d, 0) # cells x86E (boot_chain n e) (5 + Suc d) va (4 - Suc d)"
    "bwalk x86E (boot_chain n e) (5 + d) va (4 - d) = bwalk x86E (boot_chain n e) (5 + Suc d) va (4 - Suc d)"
proof -
  have k: "4 - d = Suc (4 - Suc d)" "4 - Suc d \<noteq> 0" "1 < Suc (4 - Suc d)" using assms(1,2) by linarith+
  have e: "boot_chain n e (5 + d) 0 = new_pt x86E ((5 + Suc d) * 4096)" using assms(2) by (simp add: boot_chain_def)
  have p: "is_present x86E (boot_chain n e (5 + d) 0)" "pte_paddr x86E (boot_chain n e (5 + d) 0) div 4096 = 5 + Suc d"
      "\<not> is_last x86E (boot_chain n e (5 + d) 0) (Suc (4 - Suc d))"
    using x86_pte.pt_law [of "(5 + Suc d) * 4096" "Suc (4 - Suc d)"] assms(1,2) k(3) unfolding e by (simp_all add: x86_valid_paddr_def PAGE_SIZE_def)
  have i: "bidx va (Suc (4 - Suc d)) = 0" using assms(3) k(1) by simp
  show "cells x86E (boot_chain n e) (5 + d) va (4 - d) = (5 + d, 0) # cells x86E (boot_chain n e) (5 + Suc d) va (4 - Suc d)"
    "bwalk x86E (boot_chain n e) (5 + d) va (4 - d) = bwalk x86E (boot_chain n e) (5 + Suc d) va (4 - Suc d)"
    using p k(2) unfolding k(1) cells.simps bwalk.simps i Let_def by simp_all
qed

text \<open>A huge page of level \<open>4 - n\<close> at the end of the chain, at its own size as physical address.\<close>

lemma boot_chain_leaf:
  assumes "n = 1 \<or> n = 2" "va < 2 ^ (12 + 9 * (3 - n))" "x86_valid_prop False q"
  defines "e \<equiv> the (new_page x86E (2 ^ 30) (4 - n) q)"
  shows "boot_ok x86E {1024..<2 ^ 20} (boot_chain n e) 5" "length (bcells x86E (boot_chain n e) 5 va) = Suc n"
    "pte_paddr x86E (boot_leaf x86E (boot_chain n e) 5 va) = 2 ^ 30" "btrans x86E (boot_chain n e) 5 va = Some (2 ^ 30 + va, q)"
proof -
  have "x86_valid_paddr (2 ^ 30)" by (simp add: x86_valid_paddr_def PAGE_SIZE_def)
  from x86_pte.page_law [OF this assms(3), of "4 - n"]
  have e: "is_present x86E e" "pte_paddr x86E e = 2 ^ 30" "is_last x86E e (4 - n)" "pte_prop x86E e = Some q" unfolding e_def by fastforce+
  show "boot_ok x86E {1024..<2 ^ 20} (boot_chain n e) 5" by (rule boot_chain_ok) (use assms(1) e(3) in auto)
  have z: "bidx va (4 - d) = 0" if "d \<le> n" for d
  proof -
    have "va < 2 ^ (12 + 9 * (4 - d - 1))" by (rule less_le_trans [OF assms(2)]) (use that in \<open>auto intro!: power_increasing\<close>)
    then show ?thesis by (simp add: bidx_def)
  qed
  have leaf: "boot_chain n e (5 + n) 0 = e" by (simp add: boot_chain_def)
  have k: "4 - n = Suc (3 - n)" using assms(1) by auto
  have end_cells: "cells x86E (boot_chain n e) (5 + n) va (4 - n) = [(5 + n, 0)]"
    using e(1,3) z [of n] leaf unfolding k by (simp add: Let_def)
  have end_walk: "bwalk x86E (boot_chain n e) (5 + n) va (4 - n) = Some (2 ^ 30 + va, q)"
    using e z [of n] leaf assms(2) unfolding k by (simp add: Let_def)
  have "bcells x86E (boot_chain n e) 5 va = map (\<lambda>d. (5 + d, 0)) [0..<n] @ [(5 + n, 0)] \<and> btrans x86E (boot_chain n e) 5 va = Some (2 ^ 30 + va, q)"
    using assms(1)
  proof
    assume n: "n = 1"
    show ?thesis using boot_chain_walk [of n 0 va e] z [of 0] end_cells end_walk unfolding n by simp
  next
    assume n: "n = 2"
    have u: "[0..<2] = [0, 1::nat]" by (simp add: upt_rec)
    show ?thesis using boot_chain_walk [of n 0 va e] boot_chain_walk [of n 1 va e] z [of 0] z [of 1] end_cells end_walk unfolding n
      by (simp add: u del: cells.simps bwalk.simps)
  qed
  then show "length (bcells x86E (boot_chain n e) 5 va) = Suc n" "btrans x86E (boot_chain n e) 5 va = Some (2 ^ 30 + va, q)"
    "pte_paddr x86E (boot_leaf x86E (boot_chain n e) 5 va) = 2 ^ 30"
    using leaf e(2) by (simp_all add: boot_leaf_def)
qed


lemma boot_props: "x86_valid_prop False unshared_prop" "x86_valid_prop False (unshared_prop\<lparr>flags := 3\<rparr>)"
  by (simp_all add: x86_valid_prop_def prop_inv_def unshared_prop_def cacheable_def page_flags_all_def priv_flags_all_def page_flag_defs)

section \<open>Properties\<close>



text \<open>C8: \<open>protect_base_page\<close> changes a page that is mapped and refuses one that is not.  The doc comment of the function says that it
panics if the page is already mapped, a sentence it shares with \<open>map_base_page\<close>; the code does the opposite, as the message of
its \<open>panic!\<close> (\<open>protecting an unmapped page\<close>) says, and this theorem is about the code.  The hypotheses: the allocator hands out free
frames and has one left; the tables form a tree from the root, in frames below \<open>2 ^ 34\<close> that are not free, so that an entry is
read at one level and for one part of the address space only (\<open>boot_ok\<close>); the page, if mapped, is mapped by a base page or by a huge page of level 2 (not 3, where the split goes wrong), whose
addresses and new property an entry can hold.  Then, if the page is not mapped, the call panics, or changes nothing when panics are compiled
out; if it is mapped, the call returns, the property of that base page becomes what the operation makes of it, its address stays, and every
other page, those of the split huge page included, translates as before.\<close>

theorem boot_protect_base_page:
  assumes "boot_alloc E valid_paddr valid_prop alloc avail free" "boot_ok E (free s) m (root_pt self)" "0 < avail s"
    and "\<And>pa q. btrans E m (root_pt self) va = Some (pa, q) \<Longrightarrow> valid_prop (op q) \<and> 3 \<le> length (bcells E m (root_pt self) va) \<and>
      pte_paddr E (boot_leaf E m (root_pt self) va) < 2 ^ 52 \<and>
      (\<forall>j < 512 ^ (4 - length (bcells E m (root_pt self) va)). valid_paddr (pte_paddr E (boot_leaf E m (root_pt self) va) + j * 4096))"
  shows "if btrans E m (root_pt self) va = None
    then protect_base_page E x86_paging alloc ap self va op s m = (if ap then None else Some (s, m))
    else \<exists>s' m'. protect_base_page E x86_paging alloc ap self va op s m = Some (s', m') \<and> boot_ok E (free s') m' (root_pt self) \<and>
      (\<forall>va'. btrans E m' (root_pt self) va' = (if va' mod 2 ^ 48 div 4096 = va mod 2 ^ 48 div 4096
        then map_option (apsnd op) (btrans E m (root_pt self) va') else btrans E m (root_pt self) va'))"
proof (cases "btrans E m (root_pt self) va")
  case None
  then show ?thesis using boot_alloc.protect_unmapped [OF assms(1,2) None, of ap op] by simp
next
  case (Some r)
  obtain pa q where r: "btrans E m (root_pt self) va = Some (pa, q)" using Some by (cases r) simp
  note H = assms(4) [OF r]
  obtain xs g i where p: "bcells E m (root_pt self) va = xs @ [(g, i)]" "boot_leaf E m (root_pt self) va = m g i"
      "length (bcells E m (root_pt self) va) = Suc (length xs)" by (rule boot_leaf_path)
  have "2 \<le> length xs" "pte_paddr E (m g i) < 2 ^ 52" "\<forall>j < 512 ^ (3 - length xs). valid_paddr (pte_paddr E (m g i) + j * 4096)"
    using H unfolding p(2,3) by simp_all
  from boot_alloc.protect_base_page_ok [OF assms(1-3) p(1) r this, where op = op] H show ?thesis unfolding page_key r by simp
qed

theorem boot_protect_base_page_witness:
  "\<exists>s' m'. protect_base_page x86E x86_paging (bump_alloc x86E) True \<lparr>root_pt = 5\<rparr> 0x3000 (\<lambda>q. q\<lparr>flags := 3\<rparr>) 1024
       (boot_chain 2 (the (new_page x86E (2 ^ 30) 2 unshared_prop))) = Some (s', m') \<and>
     btrans x86E m' 5 0x3004 = Some (2 ^ 30 + 0x3004, unshared_prop\<lparr>flags := 3\<rparr>) \<and> btrans x86E m' 5 0x5000 = Some (2 ^ 30 + 0x5000, unshared_prop)"
proof -
  let ?m = "boot_chain 2 (the (new_page x86E (2 ^ 30) 2 unshared_prop))"
  have n: "(4::nat) - 2 = 2" by simp
  have L: "boot_ok x86E {1024..<2 ^ 20} ?m 5" "length (bcells x86E ?m 5 va) = 3" "pte_paddr x86E (boot_leaf x86E ?m 5 va) = 2 ^ 30"
      "btrans x86E ?m 5 va = Some (2 ^ 30 + va, unshared_prop)" if "va < 2 ^ 21" for va
    using boot_chain_leaf [of 2 va unshared_prop, unfolded n] that boot_props(1) by simp_all
  have v: "x86_valid_paddr (2 ^ 30 + j * 4096)" if "j < 512" for j
    using that dvd_add [of 4096 "2 ^ 30" "j * 4096"] by (simp add: x86_valid_paddr_def PAGE_SIZE_def)
  have "\<exists>s' m'. protect_base_page x86E x86_paging (bump_alloc x86E) True \<lparr>root_pt = 5\<rparr> 0x3000 (\<lambda>q. q\<lparr>flags := 3\<rparr>) 1024 ?m = Some (s', m') \<and>
    (\<forall>va'. btrans x86E m' 5 va' = (if va' mod 2 ^ 48 div 4096 = 0x3000 mod 2 ^ 48 div 4096
       then map_option (apsnd (\<lambda>q. q\<lparr>flags := 3\<rparr>)) (btrans x86E ?m 5 va') else btrans x86E ?m 5 va'))"
    using boot_protect_base_page [OF bump.boot_alloc_axioms, where s = 1024 and m = ?m and self = "\<lparr>root_pt = 5\<rparr>" and va = "0x3000"
        and ap = True and op = "\<lambda>q. q\<lparr>flags := 3\<rparr>"] L [of "0x3000"] v boot_props(2) by auto
  then show ?thesis using L(4) [of "0x3004"] L(4) [of "0x5000"] by fastforce
qed

text \<open>C39: \<open>protect_base_page\<close> splits a huge page of level 3 into entries that are 4 KiB apart although each maps 2 MiB: every address of that
gigabyte outside the 2 MiB of the protected page, except in the first 2 MiB, translates to a wrong frame afterwards.\<close>

theorem boot_protect_splits_gigabyte_wrong:
  assumes "boot_alloc E valid_paddr valid_prop alloc avail free" "boot_ok E (free s) m (root_pt self)" "2 \<le> avail s"
    and "btrans E m (root_pt self) va = Some (pa, q)" "length (bcells E m (root_pt self) va) = 2" "valid_prop (op q)"
    and "pte_paddr E (boot_leaf E m (root_pt self) va) < 2 ^ 51"
    and "\<forall>j < 512 * 512. valid_paddr (pte_paddr E (boot_leaf E m (root_pt self) va) + j * 4096)"
  shows "\<exists>s' m'. protect_base_page E x86_paging alloc ap self va op s m = Some (s', m') \<and>
    (\<forall>va'. va' mod 2 ^ 48 div 2 ^ 30 = va mod 2 ^ 48 div 2 ^ 30 \<longrightarrow> va' mod 2 ^ 48 div 2 ^ 21 \<noteq> va mod 2 ^ 48 div 2 ^ 21 \<longrightarrow> 0 < bidx va' 2 \<longrightarrow>
      btrans E m' (root_pt self) va' \<noteq> btrans E m (root_pt self) va')"
proof -
  obtain xs g i where p: "bcells E m (root_pt self) va = xs @ [(g, i)]" "boot_leaf E m (root_pt self) va = m g i"
      "length (bcells E m (root_pt self) va) = Suc (length xs)" by (rule boot_leaf_path)
  have x: "length xs = 1" using assms(5) p(3) by simp
  have k: "vkey va 1 = va mod 2 ^ 48 div 2 ^ 30" "vkey va 2 = va mod 2 ^ 48 div 2 ^ 21" for va by (simp_all add: vkey_def)
  from boot_alloc.protect_gigabyte [OF assms(1-3) p(1) assms(4) x assms(7,8) [unfolded p(2)], where op = op] assms(6)
  show ?thesis unfolding k by fastforce
qed

theorem boot_protect_splits_gigabyte_wrong_witness:
  "\<exists>s' m'. protect_base_page x86E x86_paging (bump_alloc x86E) True \<lparr>root_pt = 5\<rparr> 0x3000 id 1024
       (boot_chain 1 (the (new_page x86E (2 ^ 30) 3 unshared_prop))) = Some (s', m') \<and>
     btrans x86E m' 5 0x400000 \<noteq> Some (2 ^ 30 + 0x400000, unshared_prop)"
proof -
  let ?m = "boot_chain 1 (the (new_page x86E (2 ^ 30) 3 unshared_prop))"
  have n: "(4::nat) - 1 = 3" by simp
  have L: "boot_ok x86E {1024..<2 ^ 20} ?m 5" "length (bcells x86E ?m 5 va) = 2" "pte_paddr x86E (boot_leaf x86E ?m 5 va) = 2 ^ 30"
      "btrans x86E ?m 5 va = Some (2 ^ 30 + va, unshared_prop)" if "va < 2 ^ 30" for va
    using boot_chain_leaf [of 1 va unshared_prop, unfolded n] that boot_props(1) by simp_all
  have v: "x86_valid_paddr (2 ^ 30 + j * 4096)" if "j < 512 * 512" for j
    using that dvd_add [of 4096 "2 ^ 30" "j * 4096"] by (simp add: x86_valid_paddr_def PAGE_SIZE_def)
  have "\<exists>s' m'. protect_base_page x86E x86_paging (bump_alloc x86E) True \<lparr>root_pt = 5\<rparr> 0x3000 id 1024 ?m = Some (s', m') \<and>
    (\<forall>va'. va' mod 2 ^ 48 div 2 ^ 30 = 0x3000 mod 2 ^ 48 div 2 ^ 30 \<longrightarrow> va' mod 2 ^ 48 div 2 ^ 21 \<noteq> 0x3000 mod 2 ^ 48 div 2 ^ 21 \<longrightarrow> 0 < bidx va' 2 \<longrightarrow>
      btrans x86E m' 5 va' \<noteq> btrans x86E ?m 5 va')"
    using boot_protect_splits_gigabyte_wrong [OF bump.boot_alloc_axioms, where s = 1024 and m = ?m and self = "\<lparr>root_pt = 5\<rparr>" and va = "0x3000"
        and ap = True and op = id and q = unshared_prop] L [of "0x3000"] v boot_props(1) by auto
  then obtain s' m' where r: "protect_base_page x86E x86_paging (bump_alloc x86E) True \<lparr>root_pt = 5\<rparr> 0x3000 id 1024 ?m = Some (s', m')"
    and w: "va' mod 2 ^ 48 div 2 ^ 30 = 0x3000 mod 2 ^ 48 div 2 ^ 30 \<Longrightarrow> va' mod 2 ^ 48 div 2 ^ 21 \<noteq> 0x3000 mod 2 ^ 48 div 2 ^ 21 \<Longrightarrow>
      0 < bidx va' 2 \<Longrightarrow> btrans x86E m' 5 va' \<noteq> btrans x86E ?m 5 va'" for va' by blast
  have "btrans x86E m' 5 0x400000 \<noteq> btrans x86E ?m 5 0x400000" by (rule w) (simp_all add: bidx_def)
  then show ?thesis using r L(4) [of "0x400000"] by simp
qed

end
