(* ===== verification/Spec2Isabelle.thy ===== *)
theory Spec2Isabelle
  imports Align_Ext Id_Alloc Memory_Region Paging Page_Prop Pt_Properties Range_Alloc Io_Alloc Rw_Lock Wait_Queue
    Rw_Mutex Frame_Meta Frame_List Vm_Space Vm_Io Frame_Segment Dma Kvirt_Area Io_Mem Cpu_Set
    Fifo_Sched Arch_Pte Heap_Slab Boot_Pt
begin

text \<open>
  A verification development for OSTD, the operating-system framework under \<open>src/ostd\<close>, and the small libraries it
  is built on.

  \<^bold>\<open>The program and its parts.\<close>  At boot the loader's memory regions are merged into one memory map
  (\<open>boot/memory_region.rs\<close>).  Physical frames are described by metadata slots with an atomic reference count
  (\<open>mm/frame/meta.rs\<close>, \<open>mod.rs\<close>, \<open>unique.rs\<close>) and can be linked into intrusive lists (\<open>linked_list.rs\<close>).  Page
  tables (\<open>mm/page_table\<close>) are trees of such frames, changed through cursors that lock a range of virtual addresses;
  their entries are encoded by \<open>arch/*/mm\<close> and \<open>mm/page_prop.rs\<close>, and before they exist a plain one serves the boot
  (\<open>boot_pt.rs\<close>).  Address spaces (\<open>mm/vm_space.rs\<close>) add the flushing of TLBs (\<open>mm/tlb.rs\<close>).  Virtual ranges, I/O memory and I/O ports are
  handed out by allocators (\<open>util/range_alloc.rs\<close>, \<open>libs/id-alloc\<close>, \<open>io\<close>).  Kernel virtual areas (\<open>mm/kspace/kvirt_area.rs\<close>)
  and I/O memory (\<open>io/io_mem\<close>) put allocators and the kernel page table together.  Memory is read and written through
  readers and writers (\<open>mm/io.rs\<close>), also for segments of frames (\<open>mm/frame/segment.rs\<close>) and DMA mappings (\<open>mm/dma\<close>).
  The kernel heap cuts frames into slots (\<open>mm/heap\<close>).  Locks and wait queues are in \<open>sync\<close>; tasks are parked, woken and
  picked by \<open>task/scheduler\<close>, over the processors that \<open>cpu\<close> numbers and collects in sets.

  \<^bold>\<open>Conventions.\<close>  A panic is \<open>None\<close>; a \<open>Result\<close> or \<open>Option\<close> of the code is inside that outer option, so every
  early return and every panic is a branch of the model.  \<open>usize\<close> is \<open>nat\<close> with the checked operations of
  \<open>Rust_Prelude\<close> (\<open>uadd\<close>, \<open>usub\<close>, \<open>umul\<close>, \<open>rindex\<close>, \<open>rassert\<close>), which fail exactly where a debug build panics;
  bit patterns are machine words.  Code without a body in the repository (\<open>unimplemented!()\<close> or a third-party
  crate) is an argument of the definitions that call it, with its documented contract as a locale and an instance
  that satisfies it.  Guards and handles have no \<open>Drop\<close> implementation in this repository: a destructor runs where the
  code calls it, and only there.

  \<^bold>\<open>Theories.\<close>
  \<^item> \<open>Rust_Prelude\<close>: checked arithmetic, indexing, loops over indices, words.
  \<^item> \<open>Align_Ext\<close>: \<open>libs/align_ext\<close>; both functions against the least and the greatest multiple.
  \<^item> \<open>Allocator_Spec\<close>: the contracts of allocators over sets of units.  \<open>Id_Alloc\<close>: \<open>libs/id-alloc\<close> over a bit
    vector that is a parameter; first fit, round trip, invariant.  \<open>Range_Alloc\<close>: \<open>util/range_alloc.rs\<close> over an
    ordered map; the free ranges are sorted, disjoint and never adjacent, so an allocation fails only when there is no
    run of that length.  \<open>Io_Alloc\<close>: \<open>io/io_mem/allocator.rs\<close>, \<open>io/io_port\<close> and \<open>arch/x86/io.rs\<close>; grants are
    disjoint, and composed with \<open>Memory_Region\<close> they never contain usable memory.
  \<^item> \<open>Memory_Region\<close>: \<open>boot/memory_region.rs\<close>; the merged map gives every address the most restrictive type.
  \<^item> \<open>Mm_Layout\<close>, \<open>Paging\<close>: constants, page sizes, indices, valid ranges, \<open>largest_pages\<close>.  \<open>Page_Prop\<close>: page
    properties and the x86-64 entry, bit by bit; \<open>Arch_Pte\<close>: those of RISC-V and LoongArch.
  \<^item> \<open>Page_Table\<close>: nodes, entries and the page walk over a store of nodes (\<open>node/mod.rs\<close>, \<open>entry.rs\<close>, \<open>child.rs\<close>).
    \<open>Pt_Cursor\<close>: the cursor (\<open>cursor/mod.rs\<close>, \<open>cursor/locking.rs\<close>).  \<open>Pt_Inv\<close>, \<open>Pt_Update\<close>, \<open>Pt_Cursor_Move\<close>,
    \<open>Pt_Cursor_Correct\<close>, \<open>Pt_Cursor_New\<close>: the tree invariant, the effect of one changed entry on every translation,
    and the loops.  \<open>Pt_Configs\<close>: the user and the kernel configuration.  \<open>Pt_Properties\<close>: what each cursor
    operation does to the translation of every address.
  \<^item> \<open>Boot_Pt\<close>: \<open>page_table/boot_pt.rs\<close> over a memory of tables; what mapping and protecting one page does to the translation of
    every address, and the wrong stride of the split of a gigabyte.
  \<^item> \<open>Tlb\<close>: the stack of flush requests of \<open>mm/tlb.rs\<close>; requests that are batched or merged stay covered, except that a flush of
    everything leaves the global entries.  \<open>Vm_Space\<close>: \<open>mm/vm_space.rs\<close>.  A TLB holds entries, for some of which a flush is on
    its way (\<open>doomed\<close>); \<open>dispatch_tlb_flush\<close> only puts a flush on its way and \<open>sync_tlb_flush\<close> waits for it, as documented
    (locale \<open>tlb_flush\<close>).  After mapping or unmapping, the entries with no flush on its way agree with the page table, and after
    a \<open>sync\<close> all do.
  \<^item> \<open>Rw_Lock\<close>: \<open>sync/rwlock.rs\<close>; each definition is one atomic operation on the lock word, the system is a step
    relation over any number of threads, refined to an abstract lock.  \<open>Rw_Mutex\<close>: \<open>sync/rwmutex.rs\<close> by a simulation
    into \<open>Rw_Lock\<close>.  \<open>Wait_Queue\<close>: \<open>sync/spin.rs\<close>, \<open>wait.rs\<close> and \<open>mutex.rs\<close>; \<open>wait_until\<close> runs over
    a state that other threads change between its steps (the lists of functions in its arguments), and \<open>Mutex::lock\<close> is its instance.
  \<^item> \<open>Cpu_Set\<close>: \<open>cpu/set.rs\<close>, refined to finite sets; the atomic set is read and written word by word.  \<open>Fifo_Sched\<close>:
    \<open>task/scheduler\<close>; \<open>sys_step\<close> interleaves wakers and processors.  A waker sets the flag, chooses the processor and pushes in three
    steps, a parking task reads the flag and is dequeued in two, and only a push waits for the lock of the run queue.
  \<^item> \<open>Heap_Slab\<close>: \<open>mm/heap\<close>; slots in memory linked through their own bytes, slabs and the dispatch of the allocator.
  \<^item> \<open>Frame_Meta\<close>: the life cycle of a metadata slot as a step relation over its count, its metadata and the handles
    and operations in flight.  \<open>Frame_List\<close>: the intrusive list over an explicit store of links, refined to a list with
    a cursor for arbitrary sequences of operations.  \<open>Frame_Segment\<close>: contiguous segments as one counted handle per frame.
  \<^item> \<open>Vm_Io\<close>: readers, writers and the trait of memory objects over byte memory; memory that may fault is any copy routine
    that stops after a prefix.  \<open>Dma\<close>: coherent and streaming mappings and slices as memory objects over a segment.
  \<^item> \<open>Kvirt_Area\<close>: \<open>map_frames\<close> and \<open>map_untracked_frames\<close>, from the allocation of the range through \<open>largest_pages\<close> to the
    translation of every kernel address.  \<open>Io_Mem\<close>: device memory from the reservation of the range over its mapping to
    the transfers.

  \<^bold>\<open>Bounds.\<close>  The loops of the page-table cursor are total functions with a measure or a fuel of the number of levels
  or entries, and the theorems show that they return.  Lists of frames are bounded by the \<open>2 ^ 34\<close> slots of the metadata
  region, so the size counter cannot overflow.  The count of a slot may overshoot its limit while clones abort; the
  model allows \<open>2 ^ 62\<close> such threads.  Reader counts of the locks are bounded by the number of threads in flight as the
  code's \<open>MAX_READER\<close> bit assumes.  Mapping a range asks for three free page-table frames per page, the worst case.  Atomic operations are sequentially consistent; memory orderings are not modelled.

  \<^bold>\<open>Not modelled.\<close>  Assembly, device registers, interrupt controllers and IOMMU tables; TLB flush instructions; context
  switches; the boot stub and build tools; procedural macros; the specification code of the repository.  The locks of
  page-table nodes during a descent and the release of a page-table node are not modelled.  Of RCU, the grace
  periods and guards are comments or \<open>unimplemented!()\<close>, and the cell rests on ghost permissions.  Of the tasks, only what the
  scheduler does with them is modelled.  Destructors that are comments in the source (of virtual areas, DMA mappings and I/O
  memory) have no model; the frame allocator and the functions of \<open>mm/tlb.rs\<close> that talk to other processors are
  \<open>unimplemented!()\<close>.
\<close>

end
